(* ===== verification/Prelude.thy ===== *)
theory Prelude
  imports Main "HOL-Library.Word" "HOL-Library.List_Lexorder"
begin

text \<open>
  Shared vocabulary of the development: the machine types the C++ code uses, the
  collections of rewrite rules the component theories feed, and the lemmas on
  words and lists that several components need.
\<close>

unbundle bit_operations_syntax

section \<open>Types\<close>

type_synonym byte = "8 word"
type_synonym u16 = "16 word"
type_synonym u32 = "32 word"
type_synonym u64 = "64 word"
type_synonym bytes = "byte list"

section \<open>Rule collections\<close>

named_theorems codec_len \<open>lengths of encodings\<close>
named_theorems codec_rt \<open>decoding what was encoded\<close>

section \<open>Lists\<close>

text \<open>
  The loop \<open>while (i < min_length && a[i] == b[i]) i++\<close> that several routines run to find
  how many bytes two strings share.
\<close>

fun common_prefix_len :: "'a list \<Rightarrow> 'a list \<Rightarrow> nat" where
  "common_prefix_len (x # xs) (y # ys) = (if x = y then Suc (common_prefix_len xs ys) else 0)"
| "common_prefix_len _ _ = 0"

lemma common_prefix_len_le:
  "common_prefix_len xs ys \<le> length xs" "common_prefix_len xs ys \<le> length ys"
  by (induction xs ys rule: common_prefix_len.induct) auto

lemma take_common_prefix_len: "take (common_prefix_len xs ys) xs = take (common_prefix_len xs ys) ys"
  by (induction xs ys rule: common_prefix_len.induct) auto

lemma common_prefix_len_diff:
  assumes "common_prefix_len xs ys < length xs" "common_prefix_len xs ys < length ys"
  shows "xs ! common_prefix_len xs ys \<noteq> ys ! common_prefix_len xs ys"
  using assms by (induction xs ys rule: common_prefix_len.induct) (auto split: if_splits)

text \<open>Where the parts of a concatenation begin.\<close>

definition part_start :: "'a list list \<Rightarrow> nat \<Rightarrow> nat" where
  "part_start xs i = length (concat (take i xs))"

lemma part_start_0 [simp]: "part_start xs 0 = 0"
  by (simp add: part_start_def)

lemma part_start_Suc: "i < length xs \<Longrightarrow> part_start xs (Suc i) = part_start xs i + length (xs ! i)"
  by (simp add: part_start_def take_Suc_conv_app_nth)

lemma part_start_append: "i \<le> length xs \<Longrightarrow> part_start (xs @ ys) i = part_start xs i"
  by (simp add: part_start_def)

lemma part_start_le: "part_start xs i \<le> length (concat xs)"
  unfolding part_start_def by (metis append_take_drop_id concat_append le_add1 length_append)

lemma part_at: "i < length xs \<Longrightarrow> take (length (xs ! i)) (drop (part_start xs i) (concat xs)) = xs ! i"
proof (induction xs arbitrary: i)
  case (Cons x xs)
  then show ?case by (cases i) (simp_all add: part_start_def)
qed simp

lemma part_start_all: "part_start xs (length xs) = length (concat xs)"
  by (simp add: part_start_def)

lemma nth_concat_part:
  "j < length xs \<Longrightarrow> k < length (xs ! j) \<Longrightarrow> concat xs ! (part_start xs j + k) = xs ! j ! k"
proof (induction xs arbitrary: j)
  case (Cons x xs)
  then show ?case by (cases j) (auto simp: part_start_def nth_append)
qed simp

lemma drop_concat_part:
  "j < length xs \<Longrightarrow> k \<le> length (xs ! j) \<Longrightarrow>
    drop (part_start xs j + k) (concat xs) = drop k (xs ! j) @ concat (drop (Suc j) xs)"
proof (induction xs arbitrary: j)
  case (Cons x xs)
  then show ?case by (cases j) (simp_all add: part_start_def)
qed simp

lemma part_start_less:
  "j < length xs \<Longrightarrow> k < length (xs ! j) \<Longrightarrow> part_start xs j + k < length (concat xs)"
  using part_start_Suc [of j xs] part_start_le [of xs "Suc j"] by simp

lemma sorted_wrt_total: "sorted_wrt P xs \<Longrightarrow> x \<in> set xs \<Longrightarrow> y \<in> set xs \<Longrightarrow> x = y \<or> P x y \<or> P y x"
  by (induction xs) auto

lemma sorted_wrt_concat:
  assumes "\<forall>xs\<in>set xss. sorted_wrt P xs"
    and "\<And>i j x y. i < j \<Longrightarrow> j < length xss \<Longrightarrow> x \<in> set (xss ! i) \<Longrightarrow> y \<in> set (xss ! j) \<Longrightarrow> P x y"
  shows "sorted_wrt P (concat xss)"
  using assms
proof (induction xss)
  case (Cons xs xss)
  have "P x y" if "x \<in> set xs" "y \<in> set (concat xss)" for x y
  proof -
    from that(2) obtain ys where "ys \<in> set xss" "y \<in> set ys" by auto
    then obtain j where "j < length xss" "y \<in> set (xss ! j)" by (metis in_set_conv_nth)
    with Cons.prems(2) [of 0 "Suc j" x y] that(1) show ?thesis by simp
  qed
  moreover have "sorted_wrt P (concat xss)"
  proof (rule Cons.IH)
    show "P x y" if "i < j" "j < length xss" "x \<in> set (xss ! i)" "y \<in> set (xss ! j)" for i j x y
      using Cons.prems(2) [of "Suc i" "Suc j" x y] that by simp
  qed (use Cons.prems(1) in simp)
  ultimately show ?case using Cons.prems(1) by (auto simp: sorted_wrt_append)
qed simp

lemma takeWhile_after:
  assumes "i \<le> length xs" "\<And>j. j < i \<Longrightarrow> P (xs ! j)"
  shows "length (takeWhile P xs) = i + length (takeWhile P (drop i xs))"
proof -
  have "takeWhile P (take i xs @ drop i xs) = take i xs @ takeWhile P (drop i xs)"
    using assms by (intro takeWhile_append2) (auto simp: in_set_conv_nth)
  then show ?thesis using assms(1) by simp
qed

section \<open>Words\<close>

lemma push_take_drop_split:
  fixes v :: "'a::len word"
  shows "push_bit s (ucast (take_bit 7 v) :: 'b::len word) OR
    push_bit (s + 7) (ucast (drop_bit 7 v)) = push_bit s (ucast v)"
proof (rule bit_word_eqI)
  fix n assume n: "n < LENGTH('b)"
  show "bit (push_bit s (ucast (take_bit 7 v) :: 'b word) OR
    push_bit (s + 7) (ucast (drop_bit 7 v))) n = bit (push_bit s (ucast v) :: 'b word) n"
  proof (cases "s + 7 \<le> n")
    case True
    then have "7 + (n - (s + 7)) = n - s" by simp
    with True n show ?thesis by (auto simp: bit_simps dest: bit_imp_le_length)
  next
    case False
    with n show ?thesis by (auto simp: bit_simps)
  qed
qed

lemma take_bit_byte_join:
  fixes v :: "'a::len word"
  shows "take_bit n v OR push_bit n (take_bit 8 (drop_bit n v)) = take_bit (n + 8) v"
proof (rule bit_word_eqI)
  fix i assume i: "i < LENGTH('a)"
  show "bit (take_bit n v OR push_bit n (take_bit 8 (drop_bit n v))) i = bit (take_bit (n + 8) v) i"
    using i by (cases "n \<le> i") (auto simp: bit_simps)
qed

lemma ucast_ucast_byte:
  fixes v :: "'a::len word"
  assumes "8 \<le> LENGTH('a)"
  shows "(ucast (ucast v :: byte) :: 'a word) = take_bit 8 v"
  using assms by (intro bit_word_eqI) (auto simp: bit_simps)

lemma unat_less_exp: "unat (w :: 'a::len word) < 2 ^ LENGTH('a)"
  by (rule unsigned_less)

lemma unat_drop_bit: "unat (drop_bit n (w :: 'a::len word)) = unat w div 2 ^ n"
  by (simp add: unat_drop_bit_eq flip: drop_bit_eq_div)

end
