(* ===== verification/Coding.thy ===== *)
theory Coding
  imports Prelude
begin

text \<open>
  The byte-level encodings of \<^verbatim>\<open>kv/util/coding.{h,cpp}\<close>: little-endian fixed width
  integers, base-128 varints and length-prefixed strings. A \<open>const char *\<close> that the
  code advances up to \<open>limit\<close> is the list of the bytes in \<open>[p, limit)\<close>; a routine that
  returns the advanced pointer or \<open>nullptr\<close> returns the remaining bytes in an option.
  The interface the other components use is the locale \<open>codec\<close>.
\<close>

section \<open>Fixed width integers\<close>

definition EncodeFixed32 :: "u32 \<Rightarrow> bytes" where
  "EncodeFixed32 value =
     [ucast value, ucast (drop_bit 8 value), ucast (drop_bit 16 value), ucast (drop_bit 24 value)]"

definition EncodeFixed64 :: "u64 \<Rightarrow> bytes" where
  "EncodeFixed64 value =
     [ucast value, ucast (drop_bit 8 value), ucast (drop_bit 16 value), ucast (drop_bit 24 value),
      ucast (drop_bit 32 value), ucast (drop_bit 40 value), ucast (drop_bit 48 value),
      ucast (drop_bit 56 value)]"

text \<open>
  The decoders read their bytes without a bounds check; reading past the end is undefined
  in C++ and unspecified (\<open>!\<close> out of range) here.
\<close>

definition DecodeFixed32 :: "bytes \<Rightarrow> u32" where
  "DecodeFixed32 buffer =
     ucast (buffer ! 0) OR push_bit 8 (ucast (buffer ! 1)) OR
     push_bit 16 (ucast (buffer ! 2)) OR push_bit 24 (ucast (buffer ! 3))"

definition DecodeFixed64 :: "bytes \<Rightarrow> u64" where
  "DecodeFixed64 buffer =
     ucast (buffer ! 0) OR push_bit 8 (ucast (buffer ! 1)) OR
     push_bit 16 (ucast (buffer ! 2)) OR push_bit 24 (ucast (buffer ! 3)) OR
     push_bit 32 (ucast (buffer ! 4)) OR push_bit 40 (ucast (buffer ! 5)) OR
     push_bit 48 (ucast (buffer ! 6)) OR push_bit 56 (ucast (buffer ! 7))"

definition PutFixed32 :: "bytes \<Rightarrow> u32 \<Rightarrow> bytes" where
  "PutFixed32 dst value = dst @ EncodeFixed32 value"

definition PutFixed64 :: "bytes \<Rightarrow> u64 \<Rightarrow> bytes" where
  "PutFixed64 dst value = dst @ EncodeFixed64 value"

section \<open>Varints\<close>

text \<open>The 32-bit encoder is unrolled by the number of seven-bit groups.\<close>

definition EncodeVarint32 :: "u32 \<Rightarrow> bytes" where
  "EncodeVarint32 v =
     (if v < 2 ^ 7 then [ucast v]
      else if v < 2 ^ 14 then [ucast (v OR 128), ucast (drop_bit 7 v)]
      else if v < 2 ^ 21 then
        [ucast (v OR 128), ucast (drop_bit 7 v OR 128), ucast (drop_bit 14 v)]
      else if v < 2 ^ 28 then
        [ucast (v OR 128), ucast (drop_bit 7 v OR 128), ucast (drop_bit 14 v OR 128),
         ucast (drop_bit 21 v)]
      else
        [ucast (v OR 128), ucast (drop_bit 7 v OR 128), ucast (drop_bit 14 v OR 128),
         ucast (drop_bit 21 v OR 128), ucast (drop_bit 28 v)])"

definition PutVarint32 :: "bytes \<Rightarrow> u32 \<Rightarrow> bytes" where
  "PutVarint32 dst v = dst @ EncodeVarint32 v"

lemma drop_bit_7_less: "(128 :: u64) \<le> v \<Longrightarrow> unat (drop_bit 7 v) < unat v"
  by (simp add: unat_drop_bit word_le_nat_alt)

function EncodeVarint64 :: "u64 \<Rightarrow> bytes" where
  "EncodeVarint64 v =
     (if 128 \<le> v then ucast (v OR 128) # EncodeVarint64 (drop_bit 7 v) else [ucast v])"
  by pat_completeness auto
termination
  by (relation "measure unat") (auto intro: drop_bit_7_less)

declare EncodeVarint64.simps [simp del]

definition PutVarint64 :: "bytes \<Rightarrow> u64 \<Rightarrow> bytes" where
  "PutVarint64 dst v = dst @ EncodeVarint64 v"

function VarintLength_loop :: "u64 \<Rightarrow> nat \<Rightarrow> nat" where
  "VarintLength_loop v len =
     (if 128 \<le> v then VarintLength_loop (drop_bit 7 v) (len + 1) else len)"
  by pat_completeness auto
termination
  by (relation "measure (\<lambda>(v, len). unat v)") (auto intro: drop_bit_7_less)

declare VarintLength_loop.simps [simp del]

definition VarintLength :: "u64 \<Rightarrow> nat" where
  "VarintLength v = VarintLength_loop v 1"

text \<open>
  The two decoders run the same loop at their own width: \<open>shift\<close> steps by seven up to
  \<open>lim\<close> (28 or 63) while bytes are left.
\<close>

fun GetVarint_loop :: "nat \<Rightarrow> nat \<Rightarrow> 'a::len word \<Rightarrow> bytes \<Rightarrow> ('a word \<times> bytes) option" where
  "GetVarint_loop lim shift result [] = None"
| "GetVarint_loop lim shift result (p # ps) =
     (if shift \<le> lim then
        (let b = ucast p :: 'a word in
         if b AND 128 \<noteq> 0
         then GetVarint_loop lim (shift + 7) (result OR push_bit shift (b AND 127)) ps
         else Some (result OR push_bit shift b, ps))
      else None)"

definition GetVarint32PtrFallback :: "bytes \<Rightarrow> (u32 \<times> bytes) option" where
  "GetVarint32PtrFallback p = GetVarint_loop 28 0 0 p"

definition GetVarint32Ptr :: "bytes \<Rightarrow> (u32 \<times> bytes) option" where
  "GetVarint32Ptr p =
     (case p of
        [] \<Rightarrow> GetVarint32PtrFallback p
      | b # ps \<Rightarrow>
          (let result = ucast b :: u32 in
           if result AND 128 = 0 then Some (result, ps) else GetVarint32PtrFallback p))"

definition GetVarint32 :: "bytes \<Rightarrow> (u32 \<times> bytes) option" where
  "GetVarint32 input = GetVarint32Ptr input"

definition GetVarint64Ptr :: "bytes \<Rightarrow> (u64 \<times> bytes) option" where
  "GetVarint64Ptr p = GetVarint_loop 63 0 0 p"

definition GetVarint64 :: "bytes \<Rightarrow> (u64 \<times> bytes) option" where
  "GetVarint64 input = GetVarint64Ptr input"

section \<open>Length-prefixed strings\<close>

text \<open>The length is converted to \<open>uint32_t\<close>, which drops bits above the 32nd.\<close>

definition PutLengthPrefixedSlice :: "bytes \<Rightarrow> bytes \<Rightarrow> bytes" where
  "PutLengthPrefixedSlice dst value = PutVarint32 dst (word_of_nat (length value)) @ value"

definition GetLengthPrefixedSlicePtr :: "bytes \<Rightarrow> (bytes \<times> bytes) option" where
  "GetLengthPrefixedSlicePtr p =
     (case GetVarint32Ptr p of
        None \<Rightarrow> None
      | Some (len, p') \<Rightarrow>
          if length p' < unat len then None
          else Some (take (unat len) p', drop (unat len) p'))"

definition GetLengthPrefixedSlice :: "bytes \<Rightarrow> (bytes \<times> bytes) option" where
  "GetLengthPrefixedSlice input =
     (case GetVarint32 input of
        None \<Rightarrow> None
      | Some (len, input') \<Rightarrow>
          if unat len \<le> length input'
          then Some (take (unat len) input', drop (unat len) input')
          else None)"

section \<open>Lemmas on the encodings\<close>

lemma length_EncodeFixed [simp, codec_len]:
  "length (EncodeFixed32 v) = 4" "length (EncodeFixed64 w) = 8"
  by (simp_all add: EncodeFixed32_def EncodeFixed64_def)

lemma DecodeFixed32_append [simp]:
  "length bs = 4 \<Longrightarrow> DecodeFixed32 (bs @ rest) = DecodeFixed32 bs"
  by (simp add: DecodeFixed32_def nth_append)

lemma DecodeFixed64_append [simp]:
  "length bs = 8 \<Longrightarrow> DecodeFixed64 (bs @ rest) = DecodeFixed64 bs"
  by (simp add: DecodeFixed64_def nth_append)

lemma DecodeFixed32_EncodeFixed32 [simp, codec_rt]: "DecodeFixed32 (EncodeFixed32 v) = v"
proof -
  have "take_bit 8 v OR push_bit 8 (take_bit 8 (drop_bit 8 v)) OR
      push_bit 16 (take_bit 8 (drop_bit 16 v)) OR push_bit 24 (take_bit 8 (drop_bit 24 v)) = v"
    using take_bit_byte_join [of 8 v] take_bit_byte_join [of 16 v] take_bit_byte_join [of 24 v]
    by (simp add: or.assoc [symmetric] take_bit_word_eq_self)
  then show ?thesis
    by (simp add: DecodeFixed32_def EncodeFixed32_def ucast_ucast_byte)
qed

lemma DecodeFixed64_EncodeFixed64 [simp, codec_rt]: "DecodeFixed64 (EncodeFixed64 v) = v"
proof -
  have "take_bit 8 v OR push_bit 8 (take_bit 8 (drop_bit 8 v)) OR
      push_bit 16 (take_bit 8 (drop_bit 16 v)) OR push_bit 24 (take_bit 8 (drop_bit 24 v)) OR
      push_bit 32 (take_bit 8 (drop_bit 32 v)) OR push_bit 40 (take_bit 8 (drop_bit 40 v)) OR
      push_bit 48 (take_bit 8 (drop_bit 48 v)) OR push_bit 56 (take_bit 8 (drop_bit 56 v)) = v"
    using take_bit_byte_join [of 8 v] take_bit_byte_join [of 16 v] take_bit_byte_join [of 24 v]
      take_bit_byte_join [of 32 v] take_bit_byte_join [of 40 v] take_bit_byte_join [of 48 v]
      take_bit_byte_join [of 56 v]
    by (simp add: or.assoc [symmetric] take_bit_word_eq_self)
  then show ?thesis
    by (simp add: DecodeFixed64_def EncodeFixed64_def ucast_ucast_byte)
qed

text \<open>Arrays of 32-bit numbers, as the filter blocks and the data blocks end with.\<close>

lemma foldl_PutFixed32: "foldl PutFixed32 r ws = r @ concat (map EncodeFixed32 ws)"
  by (induction ws arbitrary: r) (simp_all add: PutFixed32_def)

lemma drop_fixed32_array:
  "i < length ws \<Longrightarrow> drop (4 * i) (concat (map EncodeFixed32 ws) @ rest) =
    EncodeFixed32 (ws ! i) @ concat (map EncodeFixed32 (drop (Suc i) ws)) @ rest"
proof (induction ws arbitrary: i)
  case (Cons w ws)
  then show ?case by (cases i) (simp_all add: codec_len)
qed simp

lemma length_fixed32_array: "length (concat (map EncodeFixed32 ws)) = 4 * length ws"
  by (induction ws) (simp_all add: EncodeFixed32_def)

lemma varint_byte_more:
  fixes w :: u64
  assumes "8 \<le> LENGTH('a::len)"
  shows "(ucast (ucast (w OR 128) :: byte) :: 'a word) AND 128 \<noteq> 0"
    and "(ucast (ucast (w OR 128) :: byte) :: 'a word) AND 127 = ucast (take_bit 7 w)"
proof -
  have 128: "(128 :: u64) = push_bit 7 1" "(128 :: 'a word) = push_bit 7 1"
    by simp_all
  have "bit ((ucast (ucast (w OR 128) :: byte) :: 'a word) AND 128) 7"
    unfolding 128 using assms by (simp add: bit_simps del: push_bit_of_1)
  then show "(ucast (ucast (w OR 128) :: byte) :: 'a word) AND 128 \<noteq> 0"
    by (metis bit_0_eq bot_apply bot_bool_def)
  have 127: "(127 :: 'a word) = mask 7"
    by (simp add: mask_eq_exp_minus_1)
  show "(ucast (ucast (w OR 128) :: byte) :: 'a word) AND 127 = ucast (take_bit 7 w)"
    unfolding 127 128 using assms
    by (intro bit_word_eqI) (auto simp: bit_simps simp del: push_bit_of_1)
qed

lemma varint_byte_last:
  fixes w :: u64
  assumes "w < 128" and "8 \<le> LENGTH('a::len)"
  shows "(ucast (ucast w :: byte) :: 'a word) = ucast w"
    and "(ucast w :: 'a word) AND 128 = 0"
proof -
  have "take_bit 7 w = w"
    using assms(1) by (simp add: word_unat_eq_iff unsigned_take_bit_eq take_bit_nat_eq_self
        word_less_nat_alt)
  then have high: "n < 7" if "bit w n" for n
    using that by (metis bit_take_bit_iff)
  show "(ucast (ucast w :: byte) :: 'a word) = ucast w"
    using assms(2) by (intro bit_word_eqI) (auto simp: bit_simps dest: high)
  have 128: "(128 :: 'a word) = push_bit 7 1"
    by simp
  show "(ucast w :: 'a word) AND 128 = 0"
    unfolding 128 by (intro bit_word_eqI) (auto simp: bit_simps simp del: push_bit_of_1 dest: high)
qed

lemma GetVarint_loop_EncodeVarint64:
  assumes width: "8 \<le> LENGTH('a::len)"
    and lim: "\<And>s. 7 dvd s \<Longrightarrow> s < LENGTH('a) \<Longrightarrow> s \<le> lim"
  shows "7 dvd shift \<Longrightarrow> shift < LENGTH('a) \<Longrightarrow> unat w < 2 ^ (LENGTH('a) - shift) \<Longrightarrow>
    GetVarint_loop lim shift result (EncodeVarint64 w @ rest) =
      Some (result OR push_bit shift (ucast w :: 'a word), rest)"
proof (induction w arbitrary: shift result rule: EncodeVarint64.induct)
  case (1 w)
  note enc = EncodeVarint64.simps [of w]
  have sl: "shift \<le> lim" using 1 lim by simp
  show ?case
  proof (cases "128 \<le> w")
    case True
    then have "2 ^ 7 \<le> unat w" by (simp add: word_le_nat_alt)
    then have "2 ^ 7 < (2 ^ (LENGTH('a) - shift) :: nat)" using 1(4) by (rule le_less_trans)
    then have 7: "7 < LENGTH('a) - shift" by (rule power_less_imp_less_exp [rotated]) simp
    then have "LENGTH('a) - shift = LENGTH('a) - (shift + 7) + 7" by simp
    then have "unat w < 2 ^ (LENGTH('a) - (shift + 7)) * 2 ^ 7"
      using 1(4) by (simp only: power_add)
    then have "unat (drop_bit 7 w) < 2 ^ (LENGTH('a) - (shift + 7))"
      by (simp add: unat_drop_bit less_mult_imp_div_less)
    then have "GetVarint_loop lim (shift + 7) r (EncodeVarint64 (drop_bit 7 w) @ rest) =
        Some (r OR push_bit (shift + 7) (ucast (drop_bit 7 w) :: 'a word), rest)" for r
      using 1(1) [OF True, of "shift + 7" r] 1(2) 7 by simp
    then show ?thesis
      using True sl varint_byte_more [OF width, of w]
      by (simp add: enc or.assoc push_take_drop_split Let_def)
  next
    case False
    then have "w < 128" by simp
    with False show ?thesis
      using sl varint_byte_last [OF _ width, of w]
      by (simp add: enc Let_def)
  qed
qed

lemma EncodeVarint64_less:
  "v < 128 \<Longrightarrow> EncodeVarint64 v = [ucast v]"
  by (simp add: EncodeVarint64.simps [of v] word_le_nat_alt word_less_nat_alt)

lemma EncodeVarint64_more:
  "128 \<le> v \<Longrightarrow> EncodeVarint64 v = ucast (v OR 128) # EncodeVarint64 (drop_bit 7 v)"
  by (simp add: EncodeVarint64.simps [of v])

lemma unat_ucast_u32_u64 [simp]: "unat (ucast (v :: u32) :: u64) = unat v"
  using unat_less_exp [of v] by (simp add: unsigned_ucast_eq take_bit_nat_eq_self)

lemma drop_ucast_u32: "drop_bit n (ucast (v :: u32) :: u64) = ucast (drop_bit n v)"
  by (rule bit_word_eqI) (auto simp: bit_simps dest: bit_imp_le_length)

lemma byte_ucast_u32:
  fixes v :: u32
  shows "(ucast (ucast v :: u64) :: byte) = ucast v"
    and "(ucast ((ucast v :: u64) OR 128) :: byte) = ucast (v OR 128)"
proof -
  show "(ucast (ucast v :: u64) :: byte) = ucast v"
    by (rule bit_word_eqI) (auto simp: bit_simps)
  have 128: "(128 :: u64) = push_bit 7 1" "(128 :: u32) = push_bit 7 1"
    by simp_all
  show "(ucast ((ucast v :: u64) OR 128) :: byte) = ucast (v OR 128)"
    unfolding 128 by (rule bit_word_eqI) (auto simp: bit_simps simp del: push_bit_of_1)
qed

lemma EncodeVarint32_eq_EncodeVarint64: "EncodeVarint32 v = EncodeVarint64 (ucast v)"
proof -
  let ?u = "ucast v :: u64"
  have ge: "128 \<le> drop_bit n ?u \<longleftrightarrow> 2 ^ (n + 7) \<le> unat v" for n
    by (simp add: word_le_nat_alt unat_drop_bit power_add less_eq_div_iff_mult_less_eq mult.commute)
  have step: "EncodeVarint64 (drop_bit n ?u) =
      (if unat v < 2 ^ (n + 7) then [ucast (drop_bit n v)]
       else ucast (drop_bit n v OR 128) # EncodeVarint64 (drop_bit (n + 7) ?u))" for n
  proof (cases "128 \<le> drop_bit n ?u")
    case True
    with ge have "\<not> unat v < 2 ^ (n + 7)" by (simp add: not_less)
    with EncodeVarint64_more [OF True] show ?thesis
      by (simp add: drop_ucast_u32 drop_bit_drop_bit byte_ucast_u32 add.commute)
  next
    case False
    with ge have "unat v < 2 ^ (n + 7)" by (simp add: not_less)
    with EncodeVarint64_less [of "drop_bit n ?u"] False show ?thesis
      by (simp add: drop_ucast_u32 byte_ucast_u32)
  qed
  have small: "unat v < 2 ^ 35" using unat_less_exp [of v] by simp
  have "EncodeVarint64 ?u = EncodeVarint64 (drop_bit 0 ?u)" by simp
  also have "\<dots> = EncodeVarint32 v"
    using step [of 0] step [of 7] step [of 14] step [of 21] step [of 28] small
    by (simp add: EncodeVarint32_def word_less_nat_alt)
  finally show ?thesis by simp
qed

section \<open>Round trips\<close>

lemma GetVarint64_EncodeVarint64 [codec_rt]:
  "GetVarint64 (EncodeVarint64 v @ rest) = Some (v, rest)"
proof -
  have "s \<le> 63" if "s < LENGTH(64)" for s using that by simp
  then show ?thesis
    using GetVarint_loop_EncodeVarint64 [where 'a = 64, of 63 0 v 0 rest] unat_less_exp [of v]
    by (simp add: GetVarint64_def GetVarint64Ptr_def)
qed

lemma GetVarint32PtrFallback_EncodeVarint32:
  "GetVarint32PtrFallback (EncodeVarint32 v @ rest) = Some (v, rest)"
proof -
  have lim: "s \<le> 28" if "7 dvd s" "s < LENGTH(32)" for s :: nat
  proof -
    from that(1) obtain k where k: "s = 7 * k" by (elim dvdE)
    with that(2) have "k < 5" by simp
    with k show ?thesis by simp
  qed
  have "(ucast (ucast v :: u64) :: u32) = v" by (rule bit_word_eqI) (simp add: bit_simps)
  then show ?thesis
    using GetVarint_loop_EncodeVarint64 [where 'a = 32, OF _ lim, of 0 "ucast v" 0 rest]
      unat_less_exp [of v]
    by (simp add: GetVarint32PtrFallback_def EncodeVarint32_eq_EncodeVarint64)
qed

text \<open>The one-byte fast path of \<open>GetVarint32Ptr\<close> agrees with the loop it bypasses.\<close>

lemma GetVarint32Ptr_eq_Fallback: "GetVarint32Ptr p = GetVarint32PtrFallback p"
  by (cases p) (auto simp: GetVarint32Ptr_def GetVarint32PtrFallback_def Let_def)

lemma GetVarint32Ptr_EncodeVarint32 [codec_rt]:
  "GetVarint32Ptr (EncodeVarint32 v @ rest) = Some (v, rest)"
  by (simp add: GetVarint32Ptr_eq_Fallback GetVarint32PtrFallback_EncodeVarint32)

lemma GetVarint32_EncodeVarint32 [codec_rt]:
  "GetVarint32 (EncodeVarint32 v @ rest) = Some (v, rest)"
  by (simp add: GetVarint32_def GetVarint32Ptr_EncodeVarint32)

lemma GetLengthPrefixedSlice_Put [codec_rt]:
  "length value < 2 ^ 32 \<Longrightarrow>
    GetLengthPrefixedSlice (PutLengthPrefixedSlice [] value @ rest) = Some (value, rest)"
  by (simp add: GetLengthPrefixedSlice_def PutLengthPrefixedSlice_def PutVarint32_def
      GetVarint32_EncodeVarint32 unat_of_nat take_bit_nat_eq_self)

lemma GetLengthPrefixedSlicePtr_eq: "GetLengthPrefixedSlicePtr p = GetLengthPrefixedSlice p"
  by (auto simp: GetLengthPrefixedSlicePtr_def GetLengthPrefixedSlice_def GetVarint32_def
      split: option.splits)

section \<open>Lengths\<close>

lemma VarintLength_loop_eq: "VarintLength_loop v (len + 1) = len + length (EncodeVarint64 v)"
proof (induction v arbitrary: len rule: EncodeVarint64.induct)
  case (1 v)
  show ?case
  proof (cases "128 \<le> v")
    case True
    with 1 [OF True, of "len + 1"] show ?thesis
      by (simp add: VarintLength_loop.simps [of v] EncodeVarint64_more)
  next
    case False
    then show ?thesis
      by (simp add: VarintLength_loop.simps [of v] EncodeVarint64_less)
  qed
qed

lemma VarintLength_eq_length [codec_len]: "VarintLength v = length (EncodeVarint64 v)"
  using VarintLength_loop_eq [of v 0] by (simp add: VarintLength_def)

lemma length_EncodeVarint64_le: "0 < k \<Longrightarrow> unat v < 2 ^ (7 * k) \<Longrightarrow> length (EncodeVarint64 v) \<le> k"
proof (induction v arbitrary: k rule: EncodeVarint64.induct)
  case (1 v)
  show ?case
  proof (cases "128 \<le> v")
    case True
    with 1(3) have "(2 :: nat) ^ 7 < 2 ^ (7 * k)" by (simp add: word_le_nat_alt)
    then have "7 < 7 * k" by (rule power_less_imp_less_exp [rotated]) simp
    then obtain j where k: "k = Suc j" "0 < j" by (cases k) auto
    with 1(3) have "unat (drop_bit 7 v) < 2 ^ (7 * j)"
      by (simp add: unat_drop_bit power_add less_mult_imp_div_less mult.commute)
    with 1(1) [OF True k(2)] True k show ?thesis by (simp add: EncodeVarint64_more)
  next
    case False
    with 1(2) show ?thesis by (simp add: EncodeVarint64_less)
  qed
qed

lemma length_EncodeVarint64_bound: "length (EncodeVarint64 v) \<le> 10"
  using unat_less_exp [of v] by (intro length_EncodeVarint64_le) (auto intro: less_le_trans)

lemma length_EncodeVarint32_bound: "length (EncodeVarint32 v) \<le> 5"
  by (simp add: EncodeVarint32_def)

lemma EncodeVarint64_nonempty [simp]: "EncodeVarint64 v \<noteq> []"
  by (subst EncodeVarint64.simps) simp

lemma EncodeVarint32_nonempty [simp]: "EncodeVarint32 v \<noteq> []"
  by (simp add: EncodeVarint32_eq_EncodeVarint64)

section \<open>Truncated input\<close>

text \<open>A reader that succeeds consumes input.\<close>

lemma GetVarint_loop_shorter:
  "GetVarint_loop lim shift result p = Some (v, rest) \<Longrightarrow> length rest < length p"
  by (induction lim shift result p rule: GetVarint_loop.induct) (auto simp: Let_def split: if_splits)

lemma GetVarint32_shorter: "GetVarint32 p = Some (v, rest) \<Longrightarrow> length rest < length p"
  by (auto simp: GetVarint32_def GetVarint32Ptr_eq_Fallback GetVarint32PtrFallback_def
      dest: GetVarint_loop_shorter)

lemma GetVarint64_shorter: "GetVarint64 p = Some (v, rest) \<Longrightarrow> length rest < length p"
  by (auto simp: GetVarint64_def GetVarint64Ptr_def dest: GetVarint_loop_shorter)

lemma GetLengthPrefixedSlice_shorter:
  "GetLengthPrefixedSlice p = Some (v, rest) \<Longrightarrow> length rest < length p"
  by (auto simp: GetLengthPrefixedSlice_def dest!: GetVarint32_shorter split: option.splits if_splits)

lemma GetVarint_loop_truncated:
  assumes width: "8 \<le> LENGTH('a::len)"
  shows "n < length (EncodeVarint64 w) \<Longrightarrow>
    GetVarint_loop lim shift (result :: 'a word) (take n (EncodeVarint64 w)) = None"
proof (induction w arbitrary: n shift result rule: EncodeVarint64.induct)
  case (1 w)
  show ?case
  proof (cases n)
    case 0
    then show ?thesis by simp
  next
    case (Suc m)
    with 1(2) have more: "128 \<le> w"
      by (rule_tac ccontr) (simp add: EncodeVarint64_less not_le)
    with 1(2) Suc have "m < length (EncodeVarint64 (drop_bit 7 w))"
      by (simp add: EncodeVarint64_more)
    with 1(1) [OF more] more Suc varint_byte_more(1) [OF width, of w] show ?thesis
      by (simp add: EncodeVarint64_more Let_def)
  qed
qed

lemma GetVarint64_truncated:
  "n < length (EncodeVarint64 v) \<Longrightarrow> GetVarint64 (take n (EncodeVarint64 v)) = None"
  by (simp add: GetVarint64_def GetVarint64Ptr_def GetVarint_loop_truncated)

lemma GetVarint32_truncated:
  "n < length (EncodeVarint32 v) \<Longrightarrow> GetVarint32 (take n (EncodeVarint32 v)) = None"
  by (simp add: GetVarint32_def GetVarint32Ptr_eq_Fallback GetVarint32PtrFallback_def
      EncodeVarint32_eq_EncodeVarint64 GetVarint_loop_truncated)

lemma GetLengthPrefixedSlice_truncated:
  assumes "length value < 2 ^ 32" and "n < length (PutLengthPrefixedSlice [] value)"
  shows "GetLengthPrefixedSlice (take n (PutLengthPrefixedSlice [] value)) = None"
proof -
  let ?e = "EncodeVarint32 (word_of_nat (length value))"
  show ?thesis
  proof (cases "n < length ?e")
    case True
    then show ?thesis
      by (simp add: GetLengthPrefixedSlice_def PutLengthPrefixedSlice_def PutVarint32_def
          GetVarint32_truncated)
  next
    case False
    with assms show ?thesis
      by (simp add: GetLengthPrefixedSlice_def PutLengthPrefixedSlice_def PutVarint32_def
          GetVarint32_EncodeVarint32 unat_of_nat take_bit_nat_eq_self)
  qed
qed

section \<open>The interface: self-delimiting codecs\<close>

text \<open>
  What the record formats above rely on: a decoder takes exactly the encoding off the
  front of its input, and rejects an encoding that was cut short.
\<close>

locale codec =
  fixes enc :: "'a \<Rightarrow> bytes"
    and dec :: "bytes \<Rightarrow> ('a \<times> bytes) option"
    and ok :: "'a \<Rightarrow> bool"
  assumes dec_enc: "ok x \<Longrightarrow> dec (enc x @ rest) = Some (x, rest)"
    and truncated: "ok x \<Longrightarrow> n < length (enc x) \<Longrightarrow> dec (take n (enc x)) = None"
begin

lemma dec_enc_all: "ok x \<Longrightarrow> dec (enc x) = Some (x, [])"
  using dec_enc [of x "[]"] by simp

lemma prefix_free:
  assumes "ok x" "ok y" "enc x @ r = enc y @ s"
  shows "x = y \<and> r = s"
proof -
  have "Some (x, r) = dec (enc x @ r)" by (rule dec_enc [OF assms(1), symmetric])
  also have "\<dots> = Some (y, s)" unfolding assms(3) by (rule dec_enc [OF assms(2)])
  finally show ?thesis by simp
qed

end

text \<open>Two codecs in sequence, as \<open>GetVarint64(input, &a) && GetVarint64(input, &b)\<close> reads them.\<close>

definition dec_pair ::
  "(bytes \<Rightarrow> ('a \<times> bytes) option) \<Rightarrow> (bytes \<Rightarrow> ('b \<times> bytes) option) \<Rightarrow>
    bytes \<Rightarrow> (('a \<times> 'b) \<times> bytes) option" where
  "dec_pair d1 d2 input =
     (case d1 input of None \<Rightarrow> None
      | Some (a, input') \<Rightarrow>
          (case d2 input' of None \<Rightarrow> None | Some (b, input'') \<Rightarrow> Some ((a, b), input'')))"

definition enc_pair :: "('a \<Rightarrow> bytes) \<Rightarrow> ('b \<Rightarrow> bytes) \<Rightarrow> 'a \<times> 'b \<Rightarrow> bytes" where
  "enc_pair e1 e2 = (\<lambda>(a, b). e1 a @ e2 b)"

locale codec_pair = fst: codec e1 d1 ok1 + snd: codec e2 d2 ok2
  for e1 :: "'a \<Rightarrow> bytes" and d1 ok1 and e2 :: "'b \<Rightarrow> bytes" and d2 ok2
begin

lemma pair_dec_enc:
  "ok1 a \<Longrightarrow> ok2 b \<Longrightarrow> dec_pair d1 d2 (enc_pair e1 e2 (a, b) @ rest) = Some ((a, b), rest)"
  by (simp add: dec_pair_def enc_pair_def fst.dec_enc snd.dec_enc)

lemma pair_truncated:
  assumes "ok1 a" "ok2 b" "n < length (enc_pair e1 e2 (a, b))"
  shows "dec_pair d1 d2 (take n (enc_pair e1 e2 (a, b))) = None"
proof (cases "n < length (e1 a)")
  case True
  with assms show ?thesis by (simp add: dec_pair_def enc_pair_def fst.truncated)
next
  case False
  with assms show ?thesis
    by (simp add: dec_pair_def enc_pair_def fst.dec_enc snd.truncated)
qed

end

sublocale codec_pair \<subseteq> pair: codec "enc_pair e1 e2" "dec_pair d1 d2" "\<lambda>(a, b). ok1 a \<and> ok2 b"
  by unfold_locales (auto simp: pair_dec_enc pair_truncated)

interpretation varint32: codec EncodeVarint32 GetVarint32 "\<lambda>_. True"
  by unfold_locales (simp_all add: GetVarint32_EncodeVarint32 GetVarint32_truncated)

interpretation varint64: codec EncodeVarint64 GetVarint64 "\<lambda>_. True"
  by unfold_locales (simp_all add: GetVarint64_EncodeVarint64 GetVarint64_truncated)

interpretation lpslice: codec "PutLengthPrefixedSlice []" GetLengthPrefixedSlice
  "\<lambda>value. length value < 2 ^ 32"
  by unfold_locales (simp_all add: GetLengthPrefixedSlice_Put GetLengthPrefixedSlice_truncated)

interpretation varint64_pair: codec_pair EncodeVarint64 GetVarint64 "\<lambda>_. True"
  EncodeVarint64 GetVarint64 "\<lambda>_. True"
  by unfold_locales

section \<open>Properties\<close>

text \<open>
  C15: The unrolled 32-bit encoder writes exactly the bytes the 64-bit loop writes for the
  same number, at most five of them, and both decoders read the number back and stop at
  the first byte after it; the fast path of the 32-bit decoder changes nothing.
\<close>

theorem varint32_correct:
  "EncodeVarint32 v = EncodeVarint64 (ucast v) \<and>
   length (EncodeVarint32 v) \<le> 5 \<and>
   GetVarint32 (EncodeVarint32 v @ rest) = Some (v, rest) \<and>
   GetVarint32PtrFallback (EncodeVarint32 v @ rest) = Some (v, rest) \<and>
   GetVarint64 (EncodeVarint32 v @ rest) = Some (ucast v, rest)"
proof (intro conjI)
  show "GetVarint64 (EncodeVarint32 v @ rest) = Some (ucast v, rest)"
    by (simp only: EncodeVarint32_eq_EncodeVarint64 GetVarint64_EncodeVarint64)
qed (rule EncodeVarint32_eq_EncodeVarint64 length_EncodeVarint32_bound
    varint32.dec_enc [OF TrueI] GetVarint32PtrFallback_EncodeVarint32)+

text \<open>
  The 64-bit varint loop terminates with at most ten bytes, \<open>VarintLength\<close> predicts
  how many, and \<open>GetVarint64\<close> reads the number back and leaves the rest of the input.
\<close>

lemma varint64_correct:
  "GetVarint64 (EncodeVarint64 v @ rest) = Some (v, rest) \<and>
   VarintLength v = length (EncodeVarint64 v) \<and> length (EncodeVarint64 v) \<le> 10"
  by (simp add: varint64.dec_enc VarintLength_eq_length length_EncodeVarint64_bound)

text \<open>
  A varint or a length-prefixed string that was cut anywhere before its last byte is
  rejected by its decoder.
\<close>

lemma truncated_encodings_rejected:
  assumes "n < length (EncodeVarint32 v)" and "m < length (EncodeVarint64 w)"
    and "length value < 2 ^ 32" and "k < length (PutLengthPrefixedSlice [] value)"
  shows "GetVarint32 (take n (EncodeVarint32 v)) = None \<and>
    GetVarint64 (take m (EncodeVarint64 w)) = None \<and>
    GetLengthPrefixedSlice (take k (PutLengthPrefixedSlice [] value)) = None"
  using assms by (simp add: varint32.truncated varint64.truncated lpslice.truncated)

text \<open>
  A string shorter than four gigabytes written with \<open>PutLengthPrefixedSlice\<close> is read
  back by both overloads of \<open>GetLengthPrefixedSlice\<close>, which leave the following bytes.
\<close>

lemma length_prefixed_slice_roundtrip:
  assumes "length value < 2 ^ 32"
  shows "GetLengthPrefixedSlice (PutLengthPrefixedSlice [] value @ rest) = Some (value, rest) \<and>
    GetLengthPrefixedSlicePtr (PutLengthPrefixedSlice [] value @ rest) = Some (value, rest)"
  using lpslice.dec_enc [OF assms] by (simp add: GetLengthPrefixedSlicePtr_eq)

end
