(* ===== verification/Status.thy ===== *)
theory Status
  imports Coding
begin

text \<open>
  \<^verbatim>\<open>kv/include/slice.h\<close> and \<^verbatim>\<open>kv/include/status.h\<close>, \<^verbatim>\<open>kv/util/status.cpp\<close>. A \<open>Slice\<close> is the
  list of the bytes it refers to. A \<open>Status\<close> is \<open>None\<close> (the null \<open>state_\<close>) or the bytes of
  the array \<open>state_\<close> points to; the other components use the abstract \<open>status\<close> values
  below and \<open>status_rep\<close> links the two.
\<close>

section \<open>Slice\<close>

fun memcmp :: "bytes \<Rightarrow> bytes \<Rightarrow> nat \<Rightarrow> int" where
  "memcmp (x # xs) (y # ys) (Suc n) =
     (if x = y then memcmp xs ys n else if x < y then -1 else 1)"
| "memcmp _ _ _ = 0"

definition Slice_compare :: "bytes \<Rightarrow> bytes \<Rightarrow> int" where
  "Slice_compare a b =
     (let min_len = (if length a < length b then length a else length b);
          r = memcmp a b min_len
      in if r = 0
         then (if length a < length b then -1 else if length b < length a then 1 else r)
         else r)"

definition starts_with :: "bytes \<Rightarrow> bytes \<Rightarrow> bool" where
  "starts_with s x \<longleftrightarrow> length x \<le> length s \<and> memcmp s x (length x) = 0"

definition remove_prefix :: "bytes \<Rightarrow> nat \<Rightarrow> bytes" where
  "remove_prefix s n = drop n s"

lemma Nil_less_iff: "[] < (xs :: bytes) \<longleftrightarrow> xs \<noteq> []"
  by (cases xs) auto

lemma memcmp_min:
  "(if memcmp a b (min (length a) (length b)) = 0
    then (if length a < length b then -1 else if length b < length a then 1 else 0)
    else memcmp a b (min (length a) (length b))) =
   (if a < b then -1 else if a = b then 0 else (1 :: int))"
  by (induction a b "min (length a) (length b)" rule: memcmp.induct)
    (auto split: if_splits simp: Nil_less_iff)

lemma Slice_compare_eq: "Slice_compare a b = (if a < b then -1 else if a = b then 0 else 1)"
proof -
  have "(if length a < length b then length a else length b) = min (length a) (length b)"
    by simp
  then show ?thesis
    unfolding Slice_compare_def Let_def by (simp only: memcmp_min [symmetric] split: if_split) simp
qed

lemma memcmp_eq_0: "length x \<le> length s \<Longrightarrow> memcmp s x (length x) = 0 \<longleftrightarrow> take (length x) s = x"
  by (induction s x "length x" rule: memcmp.induct) auto

section \<open>Status\<close>

datatype status_code =
  kOK | kNotFound | kCorruption | kNotSupported | kInvalidArgument | kIOError

fun code_num :: "status_code \<Rightarrow> byte" where
  "code_num kOK = 0"
| "code_num kNotFound = 1"
| "code_num kCorruption = 2"
| "code_num kNotSupported = 3"
| "code_num kInvalidArgument = 4"
| "code_num kIOError = 5"

text \<open>The abstract status: success, or a code with the two messages the constructor got.\<close>

datatype status = OK | Err status_code bytes bytes

definition str :: "string \<Rightarrow> bytes" where
  "str s = map of_char s"

definition status_ok :: "status \<Rightarrow> bool" where
  "status_ok s \<longleftrightarrow> s = OK"

definition status_Corruption :: "bytes \<Rightarrow> bytes \<Rightarrow> status" where
  "status_Corruption msg msg2 = Err kCorruption msg msg2"

definition status_NotFound :: "bytes \<Rightarrow> bytes \<Rightarrow> status" where
  "status_NotFound msg msg2 = Err kNotFound msg msg2"

definition IsNotFound :: "status \<Rightarrow> bool" where
  "IsNotFound s = (case s of OK \<Rightarrow> False | Err c _ _ \<Rightarrow> c = kNotFound)"

text \<open>
  The constructor fills a fresh \<open>char\<close> array: the length of the message in host (little
  endian) order, the code, the messages. The array starts with the unspecified bytes
  \<open>junk\<close>. The index of the blank is the source's, \<open>6 + len2\<close>.
\<close>

definition memcpy_at :: "bytes \<Rightarrow> nat \<Rightarrow> bytes \<Rightarrow> bytes" where
  "memcpy_at a d src = take d a @ src @ drop (d + length src) a"

definition Status_ctor :: "(nat \<Rightarrow> byte) \<Rightarrow> status_code \<Rightarrow> bytes \<Rightarrow> bytes \<Rightarrow> bytes" where
  "Status_ctor junk code msg1 msg2 =
     (let len1 = word_of_nat (length msg1) :: u32;
          len2 = word_of_nat (length msg2) :: u32;
          size = len1 + (if len2 \<noteq> 0 then 2 + len2 else 0);
          result = map junk [0..<unat (size + 5)];
          result = memcpy_at result 0 (EncodeFixed32 size);
          result = result[4 := code_num code];
          result = memcpy_at result 5 (take (unat len1) msg1)
      in if len2 \<noteq> 0
         then (let result = result[unat (5 + len1) := of_char CHR '':''];
                   result = result[unat (6 + len2) := of_char CHR '' '']
               in memcpy_at result (7 + unat len1) (take (unat len2) msg2))
         else result)"

definition CopyState :: "bytes \<Rightarrow> bytes" where
  "CopyState state = (let size = DecodeFixed32 state in take (unat (size + 5)) state)"

definition code :: "bytes option \<Rightarrow> byte" where
  "code st = (case st of None \<Rightarrow> code_num kOK | Some state \<Rightarrow> state ! 4)"

definition status_prefix :: "byte \<Rightarrow> string option" where
  "status_prefix c =
     (if c = code_num kOK then Some ''OK''
      else if c = code_num kNotFound then Some ''Not Found: ''
      else if c = code_num kCorruption then Some ''Corruption: ''
      else if c = code_num kNotSupported then Some ''Not implemented: ''
      else if c = code_num kInvalidArgument then Some ''Invalid argument: ''
      else if c = code_num kIOError then Some ''IO error: ''
      else None)"

text \<open>\<open>unknown\<close> stands for what \<open>snprintf\<close> prints for a code outside the enumeration.\<close>

definition ToString :: "(byte \<Rightarrow> bytes) \<Rightarrow> bytes option \<Rightarrow> bytes" where
  "ToString unknown st =
     (case st of
        None \<Rightarrow> str ''OK''
      | Some state \<Rightarrow>
          (let type = (case status_prefix (code st) of Some t \<Rightarrow> str t | None \<Rightarrow> unknown (code st));
               len = DecodeFixed32 state
           in type @ take (unat len) (drop 5 state)))"

fun status_rep :: "(nat \<Rightarrow> byte) \<Rightarrow> status \<Rightarrow> bytes option" where
  "status_rep junk OK = None"
| "status_rep junk (Err c msg1 msg2) = Some (Status_ctor junk c msg1 msg2)"

section \<open>Lemmas\<close>

lemma length_memcpy_at [simp]: "d + length src \<le> length a \<Longrightarrow> length (memcpy_at a d src) = length a"
  by (simp add: memcpy_at_def)

lemma str_append [simp]: "str (s @ t) = str s @ str t" and length_str [simp]: "length (str s) = length s"
  by (simp_all add: str_def)

lemma upt_layout:
  "[0..<L1 + L2 + 7] = [0..<4] @ [4] @ [5..<5 + L1] @ [5 + L1] @ [6 + L1] @ [7 + L1..<L1 + L2 + 7]"
proof -
  have "[0..<L1 + L2 + 7] = [0..<4] @ [4..<L1 + L2 + 7]"
    using upt_add_eq_append [of 0 4 "L1 + L2 + 3"] by (simp add: ac_simps)
  also have "[4..<L1 + L2 + 7] = [4] @ [5..<L1 + L2 + 7]"
    by (simp add: upt_conv_Cons)
  also have "[5..<L1 + L2 + 7] = [5..<5 + L1] @ [5 + L1..<L1 + L2 + 7]"
    using upt_add_eq_append [of 5 "5 + L1" "L2 + 2"] by (simp add: ac_simps)
  also have "[5 + L1..<L1 + L2 + 7] = [5 + L1] @ [6 + L1] @ [7 + L1..<L1 + L2 + 7]"
    by (simp add: upt_conv_Cons)
  finally show ?thesis by simp
qed

lemma status_fill:
  assumes "length A = 4" "length S = 4" "length B = length m1" "length D = length m2"
  shows "memcpy_at (((memcpy_at ((memcpy_at (A @ [x] @ B @ [y] @ [z] @ D) 0 S) [4 := c]) 5 m1)
      [5 + length m1 := p]) [6 + length m2 := q]) (7 + length m1) m2 =
    S @ [c] @ (m1 @ [p, z]) [1 + length m2 := q] @ m2"
proof -
  have 1: "(memcpy_at (A @ [x] @ B @ [y] @ [z] @ D) 0 S) [4 := c] = S @ c # B @ y # z # D"
    using assms by (simp add: memcpy_at_def list_update_append)
  have 2: "memcpy_at (S @ c # B @ y # z # D) 5 m1 = S @ c # m1 @ y # z # D"
    using assms by (simp add: memcpy_at_def)
  have 3: "(S @ c # m1 @ y # z # D) [5 + length m1 := p] = S @ c # m1 @ p # z # D"
    using assms by (simp add: list_update_append)
  have 4: "(S @ c # m1 @ p # z # D) [6 + length m2 := q] =
      S @ c # ((m1 @ [p, z]) @ D) [1 + length m2 := q]"
    using assms by (simp add: list_update_append)
  have 5: "take (2 + length m1) (((m1 @ [p, z]) @ D) [1 + length m2 := q]) =
      (m1 @ [p, z]) [1 + length m2 := q]"
    by (simp add: take_update_swap del: append_assoc)
  have "memcpy_at (S @ c # xs) (7 + length m1) m2 = S @ c # take (2 + length m1) xs @ m2"
    if "length xs = length m1 + 2 + length m2" for xs
    using assms that by (simp add: memcpy_at_def take_Cons')
  from this [of "((m1 @ [p, z]) @ D) [1 + length m2 := q]"] show ?thesis
    unfolding 1 2 3 4 5 using assms by simp
qed

text \<open>
  The bytes the constructor leaves behind when there is a second message: the colon, and a
  blank that lands at offset \<open>1 + length msg2\<close> of the message.
\<close>

lemma Status_ctor_layout:
  assumes "length msg1 + length msg2 + 7 < 2 ^ 32" and "msg2 \<noteq> []"
  shows "Status_ctor junk c msg1 msg2 =
    EncodeFixed32 (word_of_nat (length msg1 + length msg2 + 2)) @ [code_num c] @
    (msg1 @ [of_char CHR '':'', junk (6 + length msg1)]) [1 + length msg2 := of_char CHR '' ''] @ msg2"
proof -
  let ?L1 = "length msg1" and ?L2 = "length msg2"
  have u: "unat (word_of_nat n :: u32) = n" if "n \<le> ?L1 + ?L2 + 7" for n
    using that assms(1) by (simp add: unat_of_nat take_bit_nat_eq_self)
  have ne: "(word_of_nat ?L2 :: u32) \<noteq> 0"
    using assms(2) u [of ?L2] by (metis length_0_conv le_add1 le_add2 order_trans unat_0 add.commute)
  have w: "unat (word_of_nat ?L1 + (word_of_nat ?L2 + 7) :: u32) = ?L1 + ?L2 + 7"
    "unat (word_of_nat ?L1 + 5 :: u32) = ?L1 + 5" "unat (word_of_nat ?L2 + 6 :: u32) = ?L2 + 6"
    using u [of "?L1 + ?L2 + 7"] u [of "5 + ?L1"] u [of "6 + ?L2"] assms(2)
    by (simp_all add: ac_simps Suc_le_eq)
  have "Status_ctor junk c msg1 msg2 =
    memcpy_at (((memcpy_at ((memcpy_at (map junk [0..<?L1 + ?L2 + 7]) 0
      (EncodeFixed32 (word_of_nat (?L1 + ?L2 + 2)))) [4 := code_num c]) 5 msg1)
      [5 + ?L1 := of_char CHR '':'']) [6 + ?L2 := of_char CHR '' '']) (7 + ?L1) msg2"
    using ne u [of ?L1] u [of ?L2] by (simp add: Status_ctor_def Let_def w ac_simps)
  also have "\<dots> = EncodeFixed32 (word_of_nat (?L1 + ?L2 + 2)) @ [code_num c] @
      (msg1 @ [of_char CHR '':'', junk (6 + ?L1)]) [1 + ?L2 := of_char CHR '' ''] @ msg2"
    unfolding upt_layout map_append list.map by (rule status_fill) simp_all
  finally show ?thesis .
qed

lemma Status_ctor_single:
  assumes "length msg1 + 7 < 2 ^ 32"
  shows "Status_ctor junk c msg1 [] = EncodeFixed32 (word_of_nat (length msg1)) @ [code_num c] @ msg1"
proof -
  let ?L1 = "length msg1"
  have u: "unat (word_of_nat ?L1 :: u32) = ?L1" "unat (word_of_nat ?L1 + 5 :: u32) = ?L1 + 5"
    using assms unat_of_nat [of ?L1, where 'a = 32] unat_of_nat [of "?L1 + 5", where 'a = 32]
    by (simp_all add: take_bit_nat_eq_self)
  have upt: "[0..<?L1 + 5] = [0..<4] @ [4] @ [5..<?L1 + 5]"
    using upt_add_eq_append [of 0 4 "?L1 + 1"] by (simp add: upt_conv_Cons add.commute)
  show ?thesis
    by (simp add: Status_ctor_def Let_def u upt memcpy_at_def list_update_append)
qed

section \<open>Properties\<close>

text \<open>
  \<open>Slice::compare\<close> is the three-way comparison of the unsigned lexicographic order on
  byte strings, a shorter string before its extensions, and \<open>starts_with\<close> tests a prefix.
\<close>

lemma Slice_compare_lexicographic:
  "Slice_compare a b = (if a < b then -1 else if a = b then 0 else 1) \<and>
   starts_with a b = (take (length b) a = b \<and> length b \<le> length a)"
  by (auto simp: Slice_compare_eq starts_with_def memcmp_eq_0)

text \<open>
  A status built from one message, or from two messages of the same length, prints as
  the name of its code and the messages joined by a colon and a blank; copying its state
  copies all of it.
\<close>

lemma Status_ToString_correct:
  assumes "length msg1 + length msg2 + 7 < 2 ^ 32"
    and "msg2 = [] \<or> length msg1 = length msg2" and "status_prefix (code_num c) = Some prefix"
  shows "ToString unknown (status_rep junk (Err c msg1 msg2)) =
      str prefix @ msg1 @ (if msg2 = [] then [] else str '': '' @ msg2) \<and>
    CopyState (Status_ctor junk c msg1 msg2) = Status_ctor junk c msg1 msg2"
proof -
  define body where "body = msg1 @ (if msg2 = [] then [] else str '': '' @ msg2)"
  have len: "length body + 5 < 2 ^ 32" using assms(1) by (auto simp: body_def str_def)
  have rep: "Status_ctor junk c msg1 msg2 =
      EncodeFixed32 (word_of_nat (length body)) @ [code_num c] @ body"
  proof (cases "msg2 = []")
    case True
    with assms(1) Status_ctor_single [of msg1 junk c] show ?thesis by (simp add: body_def)
  next
    case False
    with assms(2) Status_ctor_layout [OF assms(1) False, of junk c] show ?thesis
      by (simp add: body_def list_update_append str_def)
  qed
  have u: "unat (word_of_nat (length body) :: u32) = length body"
    "unat (word_of_nat (length body) + 5 :: u32) = length body + 5"
    using len unat_of_nat [of "length body", where 'a = 32]
      unat_of_nat [of "length body + 5", where 'a = 32]
    by (simp_all add: take_bit_nat_eq_self)
  show ?thesis
    using assms(3)
    by (simp add: ToString_def CopyState_def code_def rep Let_def u nth_append)
      (simp add: body_def)
qed



end
