(* ===== verification/Filename.thy ===== *)
theory Filename
  imports Status
begin

text \<open>
  Decimal numbers and escaped strings, \<open>kv/util/logging.cpp\<close>, and the names of the files of a
  database, \<open>kv/db/filename.cpp\<close>. Of \<open>snprintf\<close> the conversions \<open>%llu\<close>, \<open>%06llu\<close> and
  \<open>%02x\<close> are modelled; every buffer is large enough for them. \<open>SetCurrentFile\<close>,
  which writes a file, is not modelled.
\<close>

unbundle bit_operations_syntax

section \<open>Numbers and strings\<close>

text \<open>\<open>%llu\<close>\<close>

fun decimal :: "nat \<Rightarrow> bytes" where
  "decimal n = (if n < 10 then [word_of_nat (48 + n)] else decimal (n div 10) @ [word_of_nat (48 + n mod 10)])"

declare decimal.simps [simp del]

text \<open>\<open>%0wllu\<close>\<close>

definition decimal_pad :: "nat \<Rightarrow> nat \<Rightarrow> bytes" where
  "decimal_pad w n = replicate (w - length (decimal n)) 48 @ decimal n"

definition AppendNumberTo :: "bytes \<Rightarrow> u64 \<Rightarrow> bytes" where
  "AppendNumberTo s num = s @ decimal (unat num)"

definition NumberToString :: "u64 \<Rightarrow> bytes" where
  "NumberToString num = AppendNumberTo [] num"

definition hex_digit :: "nat \<Rightarrow> byte" where
  "hex_digit n = word_of_nat (if n < 10 then 48 + n else 87 + n)"

text \<open>\<open>char\<close> is signed: the comparisons of the code exclude the bytes from 128.\<close>

definition escape_byte :: "byte \<Rightarrow> bytes" where
  "escape_byte c =
     (if sint c \<ge> 32 \<and> sint c \<le> 126 then [c]
      else str [CHR 0x5C, CHR ''x''] @ [hex_digit (unat c div 16), hex_digit (unat c mod 16)])"

definition AppendEscapedStringTo :: "bytes \<Rightarrow> bytes \<Rightarrow> bytes" where
  "AppendEscapedStringTo s val = foldl (\<lambda>r c. r @ escape_byte c) s val"

definition EscapeString :: "bytes \<Rightarrow> bytes" where
  "EscapeString val = AppendEscapedStringTo [] val"

definition kMaxUint64 :: u64 where
  "kMaxUint64 = - 1"

definition kLastDigitOfMaxUint64 :: byte where
  "kLastDigitOfMaxUint64 = 48 + ucast (kMaxUint64 mod 10)"

text \<open>\<open>None\<close>: the number does not fit.\<close>

fun ConsumeDecimal_loop :: "u64 \<Rightarrow> bytes \<Rightarrow> (u64 \<times> bytes) option" where
  "ConsumeDecimal_loop val [] = Some (val, [])"
| "ConsumeDecimal_loop val (ch # cs) =
     (if ch < 48 \<or> ch > 57 then Some (val, ch # cs)
      else if val > kMaxUint64 div 10 \<or> (val = kMaxUint64 div 10 \<and> ch > kLastDigitOfMaxUint64) then None
      else ConsumeDecimal_loop (val * 10 + ucast (ch - 48)) cs)"

text \<open>\<open>None\<close>: the function returns false, and its callers do not look at the output.\<close>

definition ConsumeDecimalNumber :: "bytes \<Rightarrow> (u64 \<times> bytes) option" where
  "ConsumeDecimalNumber input =
     (case ConsumeDecimal_loop 0 input of
        None \<Rightarrow> None
      | Some (val, rest) \<Rightarrow>
          (let digits_consumed = length input - length rest
           in if digits_consumed \<noteq> 0 then Some (val, rest) else None))"

section \<open>File names\<close>

datatype FileType =
  kLogFile | kDBLockFile | kTableFile | kDescriptorFile | kCurrentFile | kTempFile | kInfoLogFile

definition MakeFileName :: "bytes \<Rightarrow> u64 \<Rightarrow> bytes \<Rightarrow> bytes" where
  "MakeFileName dbname number suffix = dbname @ str ''/'' @ decimal_pad 6 (unat number) @ str ''.'' @ suffix"

definition LogFileName :: "bytes \<Rightarrow> u64 \<Rightarrow> bytes" where
  "LogFileName dbname number = MakeFileName dbname number (str ''log'')"

definition TableFileName :: "bytes \<Rightarrow> u64 \<Rightarrow> bytes" where
  "TableFileName dbname number = MakeFileName dbname number (str ''ldb'')"

definition SSTTableFileName :: "bytes \<Rightarrow> u64 \<Rightarrow> bytes" where
  "SSTTableFileName dbname number = MakeFileName dbname number (str ''sst'')"

definition DescriptorFileName :: "bytes \<Rightarrow> u64 \<Rightarrow> bytes" where
  "DescriptorFileName dbname number = dbname @ str ''/MANIFEST-'' @ decimal_pad 6 (unat number)"

definition CurrentFileName :: "bytes \<Rightarrow> bytes" where
  "CurrentFileName dbname = dbname @ str ''/CURRENT''"

definition LockFileName :: "bytes \<Rightarrow> bytes" where
  "LockFileName dbname = dbname @ str ''/LOCK''"

definition TempFileName :: "bytes \<Rightarrow> u64 \<Rightarrow> bytes" where
  "TempFileName dbname number = MakeFileName dbname number (str ''dbtmp'')"

definition InfoLogFileName :: "bytes \<Rightarrow> bytes" where
  "InfoLogFileName dbname = dbname @ str ''/LOG''"

definition OldInfoLogFileName :: "bytes \<Rightarrow> bytes" where
  "OldInfoLogFileName dbname = dbname @ str ''/LOG.old''"

definition ParseFileName :: "bytes \<Rightarrow> (u64 \<times> FileType) option" where
  "ParseFileName rest =
     (if rest = str ''CURRENT'' then Some (0, kCurrentFile)
      else if rest = str ''LOCK'' then Some (0, kDBLockFile)
      else if rest = str ''LOG'' \<or> rest = str ''LOG.old'' then Some (0, kInfoLogFile)
      else if starts_with rest (str ''MANIFEST-'')
      then (case ConsumeDecimalNumber (remove_prefix rest (length (str ''MANIFEST-''))) of
              None \<Rightarrow> None
            | Some (num, rest) \<Rightarrow> if rest \<noteq> [] then None else Some (num, kDescriptorFile))
      else (case ConsumeDecimalNumber rest of
              None \<Rightarrow> None
            | Some (num, suffix) \<Rightarrow>
                if suffix = str ''.log'' then Some (num, kLogFile)
                else if suffix = str ''.sst'' \<or> suffix = str ''.ldb'' then Some (num, kTableFile)
                else if suffix = str ''.dbtmp'' then Some (num, kTempFile)
                else None))"

section \<open>The decimal value of a string\<close>

definition is_digit :: "byte \<Rightarrow> bool" where
  "is_digit c \<longleftrightarrow> 48 \<le> c \<and> c \<le> 57"

definition dec_val :: "nat \<Rightarrow> bytes \<Rightarrow> nat" where
  "dec_val v ds = foldl (\<lambda>v c. v * 10 + (unat c - 48)) v ds"

definition no_digit :: "bytes \<Rightarrow> bool" where
  "no_digit rest \<longleftrightarrow> (case rest of [] \<Rightarrow> True | c # _ \<Rightarrow> \<not> is_digit c)"

lemma dec_val_Cons [simp]: "dec_val v (c # ds) = dec_val (v * 10 + (unat c - 48)) ds"
  by (simp add: dec_val_def)

lemma dec_val_Nil [simp]: "dec_val v [] = v"
  by (simp add: dec_val_def)

lemma dec_val_append: "dec_val v (ds @ es) = dec_val (dec_val v ds) es"
  by (simp add: dec_val_def)

lemma dec_val_ge: "v \<le> dec_val v ds"
proof (induction ds arbitrary: v)
  case (Cons c ds)
  from Cons.IH [of "v * 10 + (unat c - 48)"] show ?case by simp
qed simp

lemma digit_overflow:
  assumes "is_digit ch"
  shows "(val > kMaxUint64 div 10 \<or> (val = kMaxUint64 div 10 \<and> ch > kLastDigitOfMaxUint64)) \<longleftrightarrow>
    \<not> unat val * 10 + (unat ch - 48) < 2 ^ 64"
proof -
  have "kMaxUint64 div 10 = 1844674407370955161" "kLastDigitOfMaxUint64 = 53"
    by (simp_all add: kMaxUint64_def kLastDigitOfMaxUint64_def)
  moreover have "48 \<le> unat ch" "unat ch \<le> 57" using assms by (simp_all add: is_digit_def word_le_nat_alt)
  ultimately show ?thesis by (auto simp: word_less_nat_alt word_unat_eq_iff)
qed

lemma ConsumeDecimal_loop_digits:
  "\<forall>c \<in> set ds. is_digit c \<Longrightarrow> no_digit rest \<Longrightarrow>
    ConsumeDecimal_loop v (ds @ rest) =
      (if dec_val (unat v) ds < 2 ^ 64 then Some (word_of_nat (dec_val (unat v) ds), rest) else None)"
proof (induction ds arbitrary: v)
  case Nil
  then show ?case
    using unat_less_exp [of v] by (cases rest) (auto simp: no_digit_def is_digit_def not_le)
next
  case (Cons c ds)
  have c: "is_digit c" "48 \<le> unat c" "unat c \<le> 57"
    using Cons.prems by (simp_all add: is_digit_def word_le_nat_alt)
  show ?case
  proof (cases "unat v * 10 + (unat c - 48) < 2 ^ 64")
    case False
    then have "\<not> dec_val (unat v * 10 + (unat c - 48)) ds < 2 ^ 64"
      using dec_val_ge [of "unat v * 10 + (unat c - 48)" ds] by linarith
    with False c digit_overflow [OF c(1), of v] show ?thesis by (auto simp: is_digit_def not_less)
  next
    case True
    have "unat (ucast (c - 48) :: u64) = unat c - 48"
      using c by (simp add: unat_sub word_le_nat_alt unsigned_ucast_eq take_bit_nat_eq_self)
    then have "unat (v * 10 + ucast (c - 48)) = unat v * 10 + (unat c - 48)"
      using True by (simp add: unat_word_ariths)
    with True c digit_overflow [OF c(1), of v] Cons show ?thesis by (auto simp: is_digit_def not_less)
  qed
qed

lemma ConsumeDecimalNumber_digits:
  assumes "\<forall>c \<in> set ds. is_digit c" "ds \<noteq> []" "no_digit rest"
  shows "ConsumeDecimalNumber (ds @ rest) =
    (if dec_val 0 ds < 2 ^ 64 then Some (word_of_nat (dec_val 0 ds), rest) else None)"
  using ConsumeDecimal_loop_digits [OF assms(1,3), of 0] assms(2) by (simp add: ConsumeDecimalNumber_def)

lemma ConsumeDecimalNumber_no_digit: "no_digit rest \<Longrightarrow> ConsumeDecimalNumber rest = None"
  using ConsumeDecimal_loop_digits [of "[]" rest 0] by (simp add: ConsumeDecimalNumber_def)

lemma digit_word: "n < 10 \<Longrightarrow> is_digit (word_of_nat (48 + n)) \<and> unat (word_of_nat (48 + n) :: byte) = 48 + n"
  by (simp add: is_digit_def word_le_nat_alt unat_of_nat take_bit_nat_eq_self del: of_nat_add)

lemma decimal_digits: "\<forall>c \<in> set (decimal n). is_digit c"
proof (induction n rule: decimal.induct)
  case (1 n)
  then show ?case by (subst decimal.simps) (auto simp: digit_word simp del: of_nat_add)
qed

lemma decimal_nonempty [simp]: "decimal n \<noteq> []"
  by (subst decimal.simps) simp

lemma dec_val_decimal: "dec_val 0 (decimal n) = n"
proof (induction n rule: decimal.induct)
  case (1 n)
  then show ?case by (subst decimal.simps) (auto simp: dec_val_append digit_word simp del: of_nat_add)
qed

lemma dec_val_zeros: "dec_val 0 (replicate k 48 @ ds) = dec_val 0 ds"
  by (induction k) simp_all

lemma decimal_pad_digits: "\<forall>c \<in> set (decimal_pad w n). is_digit c"
  using decimal_digits by (auto simp: decimal_pad_def is_digit_def)

lemma ConsumeDecimalNumber_pad:
  assumes "no_digit rest"
  shows "ConsumeDecimalNumber (decimal_pad w (unat (n :: u64)) @ rest) = Some (n, rest)"
  using ConsumeDecimalNumber_digits [OF decimal_pad_digits, of w "unat n" rest] assms unat_less_exp [of n]
  by (simp add: dec_val_zeros dec_val_decimal decimal_pad_def)

lemma hd_pad: "\<exists>c cs. decimal_pad w n = c # cs \<and> is_digit c"
proof -
  obtain c cs where "decimal_pad w n = c # cs" by (cases "decimal_pad w n") (auto simp: decimal_pad_def)
  moreover from this have "is_digit c" using decimal_pad_digits [of w n] by simp
  ultimately show ?thesis by blast
qed

lemma ParseFileName_numbered:
  assumes "no_digit suffix"
  shows "ParseFileName (decimal_pad 6 (unat n) @ suffix) =
    (if suffix = str ''.log'' then Some (n, kLogFile)
     else if suffix = str ''.sst'' \<or> suffix = str ''.ldb'' then Some (n, kTableFile)
     else if suffix = str ''.dbtmp'' then Some (n, kTempFile) else None)"
proof -
  obtain c cs where c: "decimal_pad 6 (unat n) = c # cs" "is_digit c" using hd_pad by blast
  then have "c \<noteq> 67" "c \<noteq> 76" "c \<noteq> 77" by (auto simp: is_digit_def)
  then have "decimal_pad 6 (unat n) @ suffix \<notin> {str ''CURRENT'', str ''LOCK'', str ''LOG'', str ''LOG.old''}"
    "\<not> starts_with (decimal_pad 6 (unat n) @ suffix) (str ''MANIFEST-'')"
    by (simp_all add: c(1) str_def starts_with_def)
  then show ?thesis
    using ConsumeDecimalNumber_pad [OF assms, of 6 n] by (simp add: ParseFileName_def)
qed

section \<open>Properties\<close>

text \<open>
  The decimal parser accepts exactly the numbers that fit 64 bits: on a run of digits followed
  by anything else it returns their value, without wrap-around, when that is below 2 to the 64 and
  fails otherwise; it fails when there is no digit; and it reads back every number printed.
\<close>

lemma ConsumeDecimalNumber_correct:
  assumes "\<forall>c \<in> set ds. is_digit c" "no_digit rest"
  shows "ConsumeDecimalNumber (ds @ rest) =
      (if ds \<noteq> [] \<and> dec_val 0 ds < 2 ^ 64 then Some (word_of_nat (dec_val 0 ds), rest) else None) \<and>
    ConsumeDecimalNumber (NumberToString n @ rest) = Some (n, rest)"
proof -
  have "NumberToString n = decimal_pad 0 (unat n)"
    by (simp add: NumberToString_def AppendNumberTo_def decimal_pad_def)
  then show ?thesis
    using ConsumeDecimalNumber_digits [OF assms(1) _ assms(2)] ConsumeDecimalNumber_no_digit [OF assms(2)]
      ConsumeDecimalNumber_pad [OF assms(2), of 0 n] by (cases "ds = []") auto
qed

text \<open>
  C21: The names the database gives to its files are parsed back to their number and kind, once the
  directory is removed.
\<close>

theorem file_names_roundtrip:
  "ParseFileName (drop (length db + 1) (LogFileName db n)) = Some (n, kLogFile) \<and>
   ParseFileName (drop (length db + 1) (TableFileName db n)) = Some (n, kTableFile) \<and>
   ParseFileName (drop (length db + 1) (SSTTableFileName db n)) = Some (n, kTableFile) \<and>
   ParseFileName (drop (length db + 1) (TempFileName db n)) = Some (n, kTempFile) \<and>
   ParseFileName (drop (length db + 1) (DescriptorFileName db n)) = Some (n, kDescriptorFile) \<and>
   ParseFileName (drop (length db + 1) (CurrentFileName db)) = Some (0, kCurrentFile) \<and>
   ParseFileName (drop (length db + 1) (LockFileName db)) = Some (0, kDBLockFile) \<and>
   ParseFileName (drop (length db + 1) (InfoLogFileName db)) = Some (0, kInfoLogFile) \<and>
   ParseFileName (drop (length db + 1) (OldInfoLogFileName db)) = Some (0, kInfoLogFile)"
proof -
  have "no_digit (str ''.log'')" "no_digit (str ''.ldb'')" "no_digit (str ''.sst'')" "no_digit (str ''.dbtmp'')"
    by (simp_all add: no_digit_def is_digit_def str_def)
  note num = this [THEN ParseFileName_numbered, of n]
  have "ParseFileName (str ''MANIFEST-'' @ decimal_pad 6 (unat n)) = Some (n, kDescriptorFile)"
    using ConsumeDecimalNumber_pad [of "[]" 6 n]
    by (simp add: ParseFileName_def starts_with_def str_def remove_prefix_def memcmp_eq_0 no_digit_def numeral_eq_Suc)
  then show ?thesis
    using num
    by (simp add: LogFileName_def TableFileName_def SSTTableFileName_def TempFileName_def MakeFileName_def
        DescriptorFileName_def CurrentFileName_def LockFileName_def InfoLogFileName_def OldInfoLogFileName_def)
      (simp add: str_def ParseFileName_def)
qed

end
