(* ===== verification/Http_Parser.thy ===== *)
theory Http_Parser
  imports Filename "HOL-Library.Monad_Syntax"
begin

text \<open>
  The incremental parser of HTTP requests (\<^verbatim>\<open>http_server/request_parser.cpp\<close>). A character is a byte, and
  the tests see it as a signed number, as \<open>char\<close> is converted to \<open>int\<close>. A result \<open>None\<close> is undefined
  behaviour: an overflow of the version numbers, which are of type \<open>int\<close>, or \<open>back()\<close> of an empty vector.
\<close>

section \<open>Requests\<close>

record header =
  h_name :: bytes
  h_value :: bytes

record request =
  rq_method :: bytes
  rq_uri :: bytes
  rq_http_version_major :: int
  rq_http_version_minor :: int
  rq_headers :: "header list"

text \<open>The version numbers of a new request are not initialised.\<close>

definition request_new :: "int \<Rightarrow> int \<Rightarrow> request" where
  "request_new major minor =
     \<lparr> rq_method = [], rq_uri = [], rq_http_version_major = major, rq_http_version_minor = minor, rq_headers = [] \<rparr>"

section \<open>The parser\<close>

datatype result_type = good | bad | indeterminate

datatype parser_state =
    method_start | in_method | in_uri | http_version_h | http_version_t_1 | http_version_t_2 | http_version_p | http_version_slash
  | http_version_major_start | http_version_major | http_version_minor_start | http_version_minor | expecting_newline_1
  | header_line_start | header_lws | header_name | space_before_header_value | header_value | expecting_newline_2 | expecting_newline_3

definition is_char :: "int \<Rightarrow> bool" where
  "is_char c \<longleftrightarrow> c \<ge> 0 \<and> c \<le> 127"

definition is_ctl :: "int \<Rightarrow> bool" where
  "is_ctl c \<longleftrightarrow> (c \<ge> 0 \<and> c \<le> 31) \<or> c = 127"

text \<open>The characters of the \<open>switch\<close>, in its order: \<open>( ) < > @ , ; : \ " / [ ] ? = { }\<close>, space and tab.\<close>

definition is_tspecial :: "int \<Rightarrow> bool" where
  "is_tspecial c \<longleftrightarrow> c \<in> {40, 41, 60, 62, 64, 44, 59, 58, 92, 34, 47, 91, 93, 63, 61, 123, 125, 32, 9}"

definition http_is_digit :: "int \<Rightarrow> bool" where
  "http_is_digit c \<longleftrightarrow> c \<ge> 48 \<and> c \<le> 57"

text \<open>The test that \<open>method\<close>, header names and the first character of a line share.\<close>

definition token_char :: "byte \<Rightarrow> bool" where
  "token_char c \<longleftrightarrow> \<not> (\<not> is_char (sint c) \<or> is_ctl (sint c) \<or> is_tspecial (sint c))"

definition int_ok :: "int \<Rightarrow> bool" where
  "int_ok i \<longleftrightarrow> - (2 ^ 31) \<le> i \<and> i < 2 ^ 31"

text \<open>\<open>version * 10 + input - '0'\<close>\<close>

definition version_digit :: "int \<Rightarrow> byte \<Rightarrow> int option" where
  "version_digit version input =
     (if int_ok (version * 10) \<and> int_ok (version * 10 + sint input) \<and> int_ok (version * 10 + sint input - 48)
      then Some (version * 10 + sint input - 48) else None)"

definition push_name :: "byte \<Rightarrow> header \<Rightarrow> header" where
  "push_name c h = h \<lparr> h_name := h_name h @ [c] \<rparr>"

definition push_value :: "byte \<Rightarrow> header \<Rightarrow> header" where
  "push_value c h = h \<lparr> h_value := h_value h @ [c] \<rparr>"

text \<open>A change of \<open>headers.back()\<close>.\<close>

definition change_back :: "(header \<Rightarrow> header) \<Rightarrow> request \<Rightarrow> request option" where
  "change_back f req =
     (if rq_headers req = [] then None
      else Some (req \<lparr> rq_headers := butlast (rq_headers req) @ [f (last (rq_headers req))] \<rparr>))"

fun consume :: "parser_state \<Rightarrow> request \<Rightarrow> byte \<Rightarrow> (result_type \<times> parser_state \<times> request) option" where
  "consume method_start req input =
     (if \<not> token_char input then Some (bad, method_start, req)
      else Some (indeterminate, in_method, req \<lparr> rq_method := rq_method req @ [input] \<rparr>))"
| "consume in_method req input =
     (if input = 32 then Some (indeterminate, in_uri, req)
      else if \<not> token_char input then Some (bad, in_method, req)
      else Some (indeterminate, in_method, req \<lparr> rq_method := rq_method req @ [input] \<rparr>))"
| "consume in_uri req input =
     (if input = 32 then Some (indeterminate, http_version_h, req)
      else if is_ctl (sint input) then Some (bad, in_uri, req)
      else Some (indeterminate, in_uri, req \<lparr> rq_uri := rq_uri req @ [input] \<rparr>))"
| "consume http_version_h req input =
     (if [input] = str ''H'' then Some (indeterminate, http_version_t_1, req) else Some (bad, http_version_h, req))"
| "consume http_version_t_1 req input =
     (if [input] = str ''T'' then Some (indeterminate, http_version_t_2, req) else Some (bad, http_version_t_1, req))"
| "consume http_version_t_2 req input =
     (if [input] = str ''T'' then Some (indeterminate, http_version_p, req) else Some (bad, http_version_t_2, req))"
| "consume http_version_p req input =
     (if [input] = str ''P'' then Some (indeterminate, http_version_slash, req) else Some (bad, http_version_p, req))"
| "consume http_version_slash req input =
     (if [input] = str ''/''
      then Some (indeterminate, http_version_major_start, req \<lparr> rq_http_version_major := 0, rq_http_version_minor := 0 \<rparr>)
      else Some (bad, http_version_slash, req))"
| "consume http_version_major_start req input =
     (if http_is_digit (sint input)
      then do { v \<leftarrow> version_digit (rq_http_version_major req) input;
                Some (indeterminate, http_version_major, req \<lparr> rq_http_version_major := v \<rparr>) }
      else Some (bad, http_version_major_start, req))"
| "consume http_version_major req input =
     (if [input] = str ''.'' then Some (indeterminate, http_version_minor_start, req)
      else if http_is_digit (sint input)
      then do { v \<leftarrow> version_digit (rq_http_version_major req) input;
                Some (indeterminate, http_version_major, req \<lparr> rq_http_version_major := v \<rparr>) }
      else Some (bad, http_version_major, req))"
| "consume http_version_minor_start req input =
     (if http_is_digit (sint input)
      then do { v \<leftarrow> version_digit (rq_http_version_minor req) input;
                Some (indeterminate, http_version_minor, req \<lparr> rq_http_version_minor := v \<rparr>) }
      else Some (bad, http_version_minor_start, req))"
| "consume http_version_minor req input =
     (if input = 13 then Some (indeterminate, expecting_newline_1, req)
      else if http_is_digit (sint input)
      then do { v \<leftarrow> version_digit (rq_http_version_minor req) input;
                Some (indeterminate, http_version_minor, req \<lparr> rq_http_version_minor := v \<rparr>) }
      else Some (bad, http_version_minor, req))"
| "consume expecting_newline_1 req input =
     (if input = 10 then Some (indeterminate, header_line_start, req) else Some (bad, expecting_newline_1, req))"
| "consume header_line_start req input =
     (if input = 13 then Some (indeterminate, expecting_newline_3, req)
      else if rq_headers req \<noteq> [] \<and> (input = 32 \<or> input = 9) then Some (indeterminate, header_lws, req)
      else if \<not> token_char input then Some (bad, header_line_start, req)
      else do { req \<leftarrow> change_back (push_name input) (req \<lparr> rq_headers := rq_headers req @ [\<lparr> h_name = [], h_value = [] \<rparr>] \<rparr>);
                Some (indeterminate, header_name, req) })"
| "consume header_lws req input =
     (if input = 13 then Some (indeterminate, expecting_newline_2, req)
      else if input = 32 \<or> input = 9 then Some (indeterminate, header_lws, req)
      else if is_ctl (sint input) then Some (bad, header_lws, req)
      else do { req \<leftarrow> change_back (push_value input) req; Some (indeterminate, header_value, req) })"
| "consume header_name req input =
     (if [input] = str '':'' then Some (indeterminate, space_before_header_value, req)
      else if \<not> token_char input then Some (bad, header_name, req)
      else do { req \<leftarrow> change_back (push_name input) req; Some (indeterminate, header_name, req) })"
| "consume space_before_header_value req input =
     (if input = 32 then Some (indeterminate, header_value, req) else Some (bad, space_before_header_value, req))"
| "consume header_value req input =
     (if input = 13 then Some (indeterminate, expecting_newline_2, req)
      else if is_ctl (sint input) then Some (bad, header_value, req)
      else do { req \<leftarrow> change_back (push_value input) req; Some (indeterminate, header_value, req) })"
| "consume expecting_newline_2 req input =
     (if input = 10 then Some (indeterminate, header_line_start, req) else Some (bad, expecting_newline_2, req))"
| "consume expecting_newline_3 req input =
     Some (if input = 10 then good else bad, expecting_newline_3, req)"

fun parse :: "parser_state \<Rightarrow> request \<Rightarrow> bytes \<Rightarrow> (result_type \<times> parser_state \<times> request \<times> bytes) option" where
  "parse st req [] = Some (indeterminate, st, req, [])"
| "parse st req (input # inputs) =
     do { (result, st, req) \<leftarrow> consume st req input;
          if result = good \<or> result = bad then Some (result, st, req, inputs) else parse st req inputs }"

definition parser_reset :: "parser_state \<Rightarrow> parser_state" where
  "parser_reset st = method_start"

section \<open>Characters\<close>

lemma str_chars [simp]:
  "str ''H'' = [72]" "str ''T'' = [84]" "str ''P'' = [80]" "str ''/'' = [47]" "str ''.'' = [46]" "str '':'' = [58]" "str ''HTTP/'' = [72, 84, 84, 80, 47]"
  by code_simp+

lemma char_classes [simp]:
  "\<not> token_char 32" "\<not> token_char 9" "\<not> token_char 10" "\<not> token_char 13" "\<not> token_char 58"
  "\<not> is_digit 46" "\<not> is_digit 13"
  by code_simp+

lemma sint_byte: "sint (c :: byte) = (if uint c < 128 then uint c else uint c - 256)"
proof -
  have "sint c = (uint c + 128) mod 256 - 128" by (simp add: sint_uint signed_take_bit_eq_take_bit_shift take_bit_eq_mod)
  moreover have "0 \<le> uint c" "uint c < 256" using uint_lt2p [of c] by simp_all
  moreover have "(uint c + 128) mod 256 = uint c + 128 - 256" if "128 \<le> uint c"
    using that \<open>uint c < 256\<close> by (simp add: mod_pos_geq)
  ultimately show ?thesis by (simp add: not_less)
qed

lemma http_is_digit_iff [simp]: "http_is_digit (sint (c :: byte)) \<longleftrightarrow> is_digit c"
  using uint_lt2p [of c] by (auto simp: sint_byte http_is_digit_def is_digit_def word_le_def)

definition vchar :: "byte \<Rightarrow> bool" where
  "vchar c \<longleftrightarrow> \<not> is_ctl (sint c)"

definition blank :: "byte \<Rightarrow> bool" where
  "blank c \<longleftrightarrow> c = 32 \<or> c = 9"

lemma vchar_simps [simp]: "\<not> vchar 13" "\<not> vchar 10" "\<not> vchar 9" "vchar 32"
  by code_simp+

section \<open>The language\<close>

fun version_of :: "int \<Rightarrow> bytes \<Rightarrow> int option" where
  "version_of v [] = Some v"
| "version_of v (c # cs) = do { v \<leftarrow> version_digit v c; version_of v cs }"

text \<open>The header lines of a request, with the headers before and after them; a line that starts with a blank continues the value of the last header.\<close>

inductive header_lines :: "header list \<Rightarrow> bytes \<Rightarrow> header list \<Rightarrow> bool" where
  no_line: "header_lines hs [] hs"
| field: "n \<noteq> [] \<Longrightarrow> list_all token_char n \<Longrightarrow> list_all vchar v \<Longrightarrow> header_lines (hs @ [\<lparr> h_name = n, h_value = v \<rparr>]) t hs' \<Longrightarrow>
    header_lines hs (n @ [58, 32] @ v @ [13, 10] @ t) hs'"
| fold: "hs \<noteq> [] \<Longrightarrow> b \<noteq> [] \<Longrightarrow> list_all blank b \<Longrightarrow> list_all vchar w \<Longrightarrow> w = [] \<or> hd w \<noteq> 32 \<Longrightarrow>
    header_lines (butlast hs @ [last hs \<lparr> h_value := h_value (last hs) @ w \<rparr>]) t hs' \<Longrightarrow>
    header_lines hs (b @ w @ [13, 10] @ t) hs'"

definition request_text :: "bytes \<Rightarrow> request \<Rightarrow> bool" where
  "request_text t req \<longleftrightarrow> (\<exists>major minor lines.
     t = rq_method req @ [32] @ rq_uri req @ [32] @ str ''HTTP/'' @ major @ [46] @ minor @ [13, 10] @ lines @ [13, 10] \<and>
     rq_method req \<noteq> [] \<and> list_all token_char (rq_method req) \<and> list_all (\<lambda>c. c \<noteq> 32 \<and> vchar c) (rq_uri req) \<and>
     major \<noteq> [] \<and> list_all is_digit major \<and> version_of 0 major = Some (rq_http_version_major req) \<and>
     minor \<noteq> [] \<and> list_all is_digit minor \<and> version_of 0 minor = Some (rq_http_version_minor req) \<and>
     header_lines [] lines (rq_headers req))"

section \<open>Phases of the parser\<close>

text \<open>The parser can be given its input in pieces.\<close>

lemma parse_append:
  "parse st req (xs @ ys) =
    (case parse st req xs of
       None \<Rightarrow> None
     | Some (r, st', req', rest) \<Rightarrow> if r = indeterminate then parse st' req' ys else Some (r, st', req', rest @ ys))"
  by (induction st req xs rule: parse.induct) (auto split: Option.bind_splits option.splits)

text \<open>In several states the parser stays while it reads a run of characters of a kind, and rejects all others but those that end the run.\<close>

fun run_option :: "('c \<Rightarrow> 'r \<Rightarrow> 'r option) \<Rightarrow> 'c list \<Rightarrow> 'r \<Rightarrow> 'r option" where
  "run_option f [] r = Some r"
| "run_option f (c # cs) r = do { r \<leftarrow> f c r; run_option f cs r }"

locale parser_run =
  fixes st :: parser_state and inrun :: "byte \<Rightarrow> bool" and ends :: "byte \<Rightarrow> bool" and f :: "byte \<Rightarrow> request \<Rightarrow> request option"
  assumes stay: "inrun c \<Longrightarrow> consume st req c = map_option (\<lambda>req. (indeterminate, st, req)) (f c req)"
    and stop: "\<not> inrun c \<Longrightarrow> \<not> ends c \<Longrightarrow> consume st req c = Some (bad, st, req)"
begin

lemma run_text: "list_all inrun m \<Longrightarrow> parse st req (m @ xs) = do { req \<leftarrow> run_option f m req; parse st req xs }"
proof (induction m arbitrary: req)
  case (Cons c m)
  then show ?case by (cases "f c req") (auto simp: stay)
qed simp

lemma run_good:
  "parse st req xs = Some (good, r) \<Longrightarrow>
    \<exists>m e ys req'. xs = m @ e # ys \<and> list_all inrun m \<and> ends e \<and> run_option f m req = Some req' \<and> parse st req' (e # ys) = Some (good, r)"
proof (induction xs arbitrary: req)
  case (Cons c xs)
  show ?case
  proof (cases "inrun c")
    case True
    then obtain req1 where 1: "f c req = Some req1" "parse st req1 xs = Some (good, r)"
      using Cons.prems by (auto simp: stay split: Option.bind_splits)
    from Cons.IH [OF 1(2)] obtain m e ys req' where m: "xs = m @ e # ys" "list_all inrun m" "ends e" "run_option f m req1 = Some req'"
      "parse st req' (e # ys) = Some (good, r)" by blast
    show ?thesis using m 1(1) True by (intro exI [of _ "c # m"]) auto
  next
    case False
    then have "ends c" using Cons.prems by (cases "ends c") (auto simp: stop)
    then show ?thesis using Cons.prems by (intro exI [of _ "[]"]) auto
  qed
qed simp

end

interpretation method_run: parser_run in_method token_char "\<lambda>c. c = 32" "\<lambda>c req. Some (req \<lparr> rq_method := rq_method req @ [c] \<rparr>)"
  by unfold_locales (auto split: if_splits)

interpretation uri_run: parser_run in_uri "\<lambda>c. c \<noteq> 32 \<and> vchar c" "\<lambda>c. c = 32" "\<lambda>c req. Some (req \<lparr> rq_uri := rq_uri req @ [c] \<rparr>)"
  by unfold_locales (auto simp: vchar_def)

interpretation major_run: parser_run http_version_major is_digit "\<lambda>c. c = 46"
    "\<lambda>c req. do { v \<leftarrow> version_digit (rq_http_version_major req) c; Some (req \<lparr> rq_http_version_major := v \<rparr>) }"
  by unfold_locales (auto split: Option.bind_splits)

interpretation minor_run: parser_run http_version_minor is_digit "\<lambda>c. c = 13"
    "\<lambda>c req. do { v \<leftarrow> version_digit (rq_http_version_minor req) c; Some (req \<lparr> rq_http_version_minor := v \<rparr>) }"
  by unfold_locales (auto split: Option.bind_splits)

interpretation name_run: parser_run header_name token_char "\<lambda>c. c = 58" "\<lambda>c. change_back (push_name c)"
  by unfold_locales (auto split: Option.bind_splits)

interpretation value_run: parser_run header_value vchar "\<lambda>c. c = 13" "\<lambda>c. change_back (push_value c)"
  by unfold_locales (auto simp: vchar_def is_ctl_def split: Option.bind_splits)

interpretation lws_run: parser_run header_lws blank "\<lambda>c. c = 13 \<or> vchar c \<and> c \<noteq> 32" "\<lambda>c. Some"
  by unfold_locales (auto simp: vchar_def is_ctl_def blank_def split: Option.bind_splits)

text \<open>What the runs do to the request.\<close>

lemma run_method: "run_option (\<lambda>c req. Some (req \<lparr> rq_method := rq_method req @ [c] \<rparr>)) m req = Some (req \<lparr> rq_method := rq_method req @ m \<rparr>)"
  by (induction m arbitrary: req) auto

lemma run_uri: "run_option (\<lambda>c req. Some (req \<lparr> rq_uri := rq_uri req @ [c] \<rparr>)) m req = Some (req \<lparr> rq_uri := rq_uri req @ m \<rparr>)"
  by (induction m arbitrary: req) auto

lemma run_major:
  "run_option (\<lambda>c req. do { v \<leftarrow> version_digit (rq_http_version_major req) c; Some (req \<lparr> rq_http_version_major := v \<rparr>) }) ds req =
    map_option (\<lambda>v. req \<lparr> rq_http_version_major := v \<rparr>) (version_of (rq_http_version_major req) ds)"
  by (induction ds arbitrary: req) (auto split: Option.bind_splits)

lemma run_minor:
  "run_option (\<lambda>c req. do { v \<leftarrow> version_digit (rq_http_version_minor req) c; Some (req \<lparr> rq_http_version_minor := v \<rparr>) }) ds req =
    map_option (\<lambda>v. req \<lparr> rq_http_version_minor := v \<rparr>) (version_of (rq_http_version_minor req) ds)"
  by (induction ds arbitrary: req) (auto split: Option.bind_splits)

lemma run_name:
  "rq_headers req \<noteq> [] \<Longrightarrow> run_option (\<lambda>c. change_back (push_name c)) n req = change_back (\<lambda>h. h \<lparr> h_name := h_name h @ n \<rparr>) req"
  by (induction n arbitrary: req) (auto simp: change_back_def push_name_def)

lemma run_value:
  "rq_headers req \<noteq> [] \<Longrightarrow> run_option (\<lambda>c. change_back (push_value c)) v req = change_back (\<lambda>h. h \<lparr> h_value := h_value h @ v \<rparr>) req"
  by (induction v arbitrary: req) (auto simp: change_back_def push_value_def)

lemma run_lws: "run_option (\<lambda>c. Some) b req = Some req"
  by (induction b) auto

lemmas runs = run_method run_uri run_major run_minor run_name run_value run_lws

section \<open>Header lines\<close>

abbreviation set_headers :: "request \<Rightarrow> header list \<Rightarrow> request" where
  "set_headers req hs \<equiv> req \<lparr> rq_headers := hs \<rparr>"

lemma parse_value: "list_all vchar v \<Longrightarrow> hs \<noteq> [] \<Longrightarrow> parse header_value (set_headers req hs) (v @ 13 # 10 # xs) =
    parse header_line_start (set_headers req (butlast hs @ [last hs \<lparr> h_value := h_value (last hs) @ v \<rparr>])) xs"
  by (simp add: value_run.run_text runs change_back_def)

lemma parse_field:
  assumes "n \<noteq> []" "list_all token_char n" "list_all vchar v"
  shows "parse header_line_start (set_headers req hs) (n @ [58, 32] @ v @ [13, 10] @ xs) = parse header_line_start (set_headers req (hs @ [\<lparr> h_name = n, h_value = v \<rparr>])) xs"
proof -
  obtain c cs where n: "n = c # cs" "token_char c" "list_all token_char cs" using assms(1,2) by (cases n) auto
  have c: "c \<noteq> 13" "c \<noteq> 32" "c \<noteq> 9" using n(2) by auto
  show ?thesis using assms(3) n c
    by (simp add: change_back_def push_name_def name_run.run_text runs parse_value)
qed

lemma parse_fold:
  assumes "hs \<noteq> []" "b \<noteq> []" "list_all blank b" "list_all vchar w" "w = [] \<or> hd w \<noteq> 32"
  shows "parse header_line_start (set_headers req hs) (b @ w @ [13, 10] @ xs) =
    parse header_line_start (set_headers req (butlast hs @ [last hs \<lparr> h_value := h_value (last hs) @ w \<rparr>])) xs"
proof -
  obtain c cs where b: "b = c # cs" "blank c" "list_all blank cs" using assms(2,3) by (cases b) auto
  have step: "parse header_line_start (set_headers req hs) (b @ ys) = parse header_lws (set_headers req hs) ys" for ys
    using b assms(1) by (auto simp: blank_def lws_run.run_text runs)
  show ?thesis
  proof (cases w)
    case Nil
    have "butlast hs @ [last hs] = hs" using assms(1) by simp
    then show ?thesis using step Nil by simp
  next
    case (Cons d ds)
    then have d: "vchar d" "list_all vchar ds" "d \<noteq> 32" "d \<noteq> 9" "d \<noteq> 13" using assms(4,5) by auto
    then have "parse header_lws (set_headers req hs) (d # ds @ 13 # 10 # xs) =
      parse header_value (set_headers req (butlast hs @ [last hs \<lparr> h_value := h_value (last hs) @ [d] \<rparr>])) (ds @ 13 # 10 # xs)"
      using assms(1) by (simp add: vchar_def change_back_def push_value_def)
    then show ?thesis using step Cons d(2) by (simp add: parse_value)
  qed
qed

lemma parse_header_lines: "header_lines hs t hs' \<Longrightarrow> parse header_line_start (set_headers req hs) (t @ xs) = parse header_line_start (set_headers req hs') xs"
proof (induction rule: header_lines.induct)
  case (field n v hs t hs')
  then show ?case using parse_field [OF field(1-3), of hs req "t @ xs"] by simp
next
  case (fold hs b w t hs')
  then show ?case using parse_fold [OF fold(1-5), of req "t @ xs"] by simp
qed simp

text \<open>Conversely, what brings the parser to the end of a request is a sequence of header lines.\<close>

lemma value_good:
  assumes "parse header_value (set_headers req hs) xs = Some (good, r)" "hs \<noteq> []"
  obtains v ys where "xs = v @ 13 # 10 # ys" "list_all vchar v"
proof -
  from value_run.run_good [OF assms(1)] assms(2) obtain v ys req' where v: "xs = v @ 13 # ys" "list_all vchar v" "parse header_value req' (13 # ys) = Some (good, r)" by blast
  from v(3) obtain zs where "ys = 10 # zs" by (cases ys) (auto split: if_splits)
  then show ?thesis using that v by simp
qed

lemma lws_good:
  assumes "parse header_lws (set_headers req hs) xs = Some (good, r)" "hs \<noteq> []"
  obtains b w ys where "xs = b @ w @ [13, 10] @ ys" "list_all blank b" "list_all vchar w" "w = [] \<or> hd w \<noteq> 32"
proof -
  from lws_run.run_good [OF assms(1)] obtain b e ys where b: "xs = b @ e # ys" "list_all blank b" "e = 13 \<or> vchar e \<and> e \<noteq> 32"
    "parse header_lws (set_headers req hs) (e # ys) = Some (good, r)" by (auto simp: runs)
  show ?thesis
  proof (cases "e = 13")
    case True
    then obtain zs where "ys = 10 # zs" using b(4) by (cases ys) (auto split: if_splits)
    then show ?thesis using that [of b "[]" zs] b True by simp
  next
    case False
    then have e: "vchar e" "e \<noteq> 32" "e \<noteq> 9" using b(3) by auto
    then have "parse header_value (set_headers req (butlast hs @ [last hs \<lparr> h_value := h_value (last hs) @ [e] \<rparr>])) ys = Some (good, r)"
      using b(4) False assms(2) by (auto simp: vchar_def change_back_def push_value_def)
    then obtain v zs where "ys = v @ 13 # 10 # zs" "list_all vchar v" by (rule value_good) auto
    then show ?thesis using that [of b "e # v" zs] b(1,2) e by simp
  qed
qed

lemma name_good:
  assumes "parse header_name (set_headers req hs) xs = Some (good, r)" "hs \<noteq> []"
  obtains n v ys where "xs = n @ [58, 32] @ v @ [13, 10] @ ys" "list_all token_char n" "list_all vchar v"
proof -
  from name_run.run_good [OF assms(1)] obtain n ys req1 where n: "xs = n @ 58 # ys" "list_all token_char n"
    "run_option (\<lambda>c. change_back (push_name c)) n (set_headers req hs) = Some req1" "parse header_name req1 (58 # ys) = Some (good, r)" by blast
  obtain hs1 where hs1: "req1 = set_headers req hs1" "hs1 \<noteq> []" using n(3) assms(2) by (auto simp: runs change_back_def)
  from n(4) obtain zs where "ys = 32 # zs" "parse header_value req1 zs = Some (good, r)" by (cases ys) (auto split: if_splits)
  with hs1 value_good [of hs1 req zs r] obtain v ws where "ys = 32 # v @ 13 # 10 # ws" "list_all vchar v" by metis
  then show ?thesis using that [of n v ws] n(1,2) by simp
qed

lemma header_lines_good:
  "parse header_line_start (set_headers req hs) xs = Some (good, st, req', ys) \<Longrightarrow>
    \<exists>t hs'. xs = t @ [13, 10] @ ys \<and> header_lines hs t hs' \<and> req' = set_headers req hs' \<and> st = expecting_newline_3"
proof (induction "length xs" arbitrary: xs hs rule: less_induct)
  case less
  then obtain c cs where xs: "xs = c # cs" by (cases xs) auto
  consider "c = 13" | "c \<noteq> 13" "hs \<noteq> []" "blank c" | "c \<noteq> 13" "\<not> (hs \<noteq> [] \<and> blank c)" "token_char c"
    using less.prems xs by (fastforce simp: blank_def)
  then show ?case
  proof cases
    case 1
    then obtain ds where "cs = 10 # ds" using less.prems xs by (cases cs) (auto split: if_splits)
    then show ?thesis using less.prems xs 1 by (auto intro: header_lines.no_line)
  next
    case 2
    then have "parse header_lws (set_headers req hs) cs = Some (good, st, req', ys)" using less.prems xs by (auto simp: blank_def)
    from lws_good [OF this 2(2)] obtain b w zs where b: "cs = b @ w @ [13, 10] @ zs" "list_all blank b" "list_all vchar w" "w = [] \<or> hd w \<noteq> 32" .
    let ?hs = "butlast hs @ [last hs \<lparr> h_value := h_value (last hs) @ w \<rparr>]"
    have "parse header_line_start (set_headers req ?hs) zs = Some (good, st, req', ys)"
      using less.prems parse_fold [OF 2(2), of "c # b" w req zs] 2(3) b xs by simp
    from less.hyps [OF _ this] xs b(1) obtain t hs' where t: "zs = t @ [13, 10] @ ys" "header_lines ?hs t hs'" "req' = set_headers req hs'" "st = expecting_newline_3" by auto
    have "header_lines hs ((c # b) @ w @ [13, 10] @ t) hs'" using header_lines.fold [OF 2(2) _ _ b(3,4) t(2), of "c # b"] 2(3) b(2) by simp
    then show ?thesis using xs b(1) t by (intro exI [of _ "(c # b) @ w @ [13, 10] @ t"]) auto
  next
    case 3
    then have "parse header_name (set_headers req (hs @ [\<lparr> h_name = [c], h_value = [] \<rparr>])) cs = Some (good, st, req', ys)"
      using less.prems xs by (auto simp: blank_def change_back_def push_name_def)
    then obtain n v zs where n: "cs = n @ [58, 32] @ v @ [13, 10] @ zs" "list_all token_char n" "list_all vchar v" by (rule name_good) auto
    let ?hs = "hs @ [\<lparr> h_name = c # n, h_value = v \<rparr>]"
    have "parse header_line_start (set_headers req ?hs) zs = Some (good, st, req', ys)"
      using less.prems parse_field [of "c # n" v hs req zs] 3(3) n xs by simp
    from less.hyps [OF _ this] xs n(1) obtain t hs' where t: "zs = t @ [13, 10] @ ys" "header_lines ?hs t hs'" "req' = set_headers req hs'" "st = expecting_newline_3" by auto
    have "header_lines hs ((c # n) @ [58, 32] @ v @ [13, 10] @ t) hs'" using header_lines.field [OF _ _ n(3) t(2)] 3(3) n(2) by simp
    then show ?thesis using xs n(1) t by (intro exI [of _ "(c # n) @ [58, 32] @ v @ [13, 10] @ t"]) auto
  qed
qed

section \<open>Requests\<close>

lemma parse_http: "parse http_version_h req ([72, 84, 84, 80, 47] @ xs) =
    parse http_version_major_start (req \<lparr> rq_http_version_major := 0, rq_http_version_minor := 0 \<rparr>) xs"
  by simp

lemma http_good:
  assumes "parse http_version_h req xs = Some (good, r)"
  obtains ys where "xs = [72, 84, 84, 80, 47] @ ys"
proof -
  from assms obtain x1 where 1: "xs = 72 # x1" "parse http_version_t_1 req x1 = Some (good, r)" by (cases xs) (auto split: if_splits)
  from 1(2) obtain x2 where 2: "x1 = 84 # x2" "parse http_version_t_2 req x2 = Some (good, r)" by (cases x1) (auto split: if_splits)
  from 2(2) obtain x3 where 3: "x2 = 84 # x3" "parse http_version_p req x3 = Some (good, r)" by (cases x2) (auto split: if_splits)
  from 3(2) obtain x4 where 4: "x3 = 80 # x4" "parse http_version_slash req x4 = Some (good, r)" by (cases x3) (auto split: if_splits)
  from 4(2) obtain x5 where 5: "x4 = 47 # x5" by (cases x4) (auto split: if_splits)
  show ?thesis using that 1 2 3 4 5 by simp
qed

lemma parse_major:
  assumes "ds \<noteq> []" "list_all is_digit ds" "version_of (rq_http_version_major req) ds = Some v"
  shows "parse http_version_major_start req (ds @ 46 # xs) = parse http_version_minor_start (req \<lparr> rq_http_version_major := v \<rparr>) xs"
proof -
  obtain c cs where "ds = c # cs" "is_digit c" "list_all is_digit cs" using assms(1,2) by (cases ds) auto
  then show ?thesis using assms(3) by (auto simp: major_run.run_text runs split: Option.bind_splits)
qed

lemma major_good:
  assumes "parse http_version_major_start req xs = Some (good, r)"
  obtains ds ys v where "xs = ds @ 46 # ys" "ds \<noteq> []" "list_all is_digit ds" "version_of (rq_http_version_major req) ds = Some v"
proof -
  from assms obtain c cs v where c: "xs = c # cs" "is_digit c" "version_digit (rq_http_version_major req) c = Some v"
    "parse http_version_major (req \<lparr> rq_http_version_major := v \<rparr>) cs = Some (good, r)" by (cases xs) (auto split: if_splits Option.bind_splits)
  from major_run.run_good [OF c(4)] obtain m ys where "cs = m @ 46 # ys" "list_all is_digit m" "version_of v m \<noteq> None" by (auto simp: runs)
  then show ?thesis using that [of "c # m" ys] c by auto
qed

lemma parse_minor:
  assumes "ds \<noteq> []" "list_all is_digit ds" "version_of (rq_http_version_minor req) ds = Some v"
  shows "parse http_version_minor_start req (ds @ 13 # 10 # xs) = parse header_line_start (req \<lparr> rq_http_version_minor := v \<rparr>) xs"
proof -
  obtain c cs where "ds = c # cs" "is_digit c" "list_all is_digit cs" using assms(1,2) by (cases ds) auto
  then show ?thesis using assms(3) by (auto simp: minor_run.run_text runs split: Option.bind_splits)
qed

lemma minor_good:
  assumes "parse http_version_minor_start req xs = Some (good, r)"
  obtains ds ys v where "xs = ds @ 13 # 10 # ys" "ds \<noteq> []" "list_all is_digit ds" "version_of (rq_http_version_minor req) ds = Some v"
proof -
  from assms obtain c cs v where c: "xs = c # cs" "is_digit c" "version_digit (rq_http_version_minor req) c = Some v"
    "parse http_version_minor (req \<lparr> rq_http_version_minor := v \<rparr>) cs = Some (good, r)" by (cases xs) (auto split: if_splits Option.bind_splits)
  from minor_run.run_good [OF c(4)] obtain m ys req' where m: "cs = m @ 13 # ys" "list_all is_digit m" "version_of v m \<noteq> None"
    "parse http_version_minor req' (13 # ys) = Some (good, r)" by (auto simp: runs)
  from m(4) obtain zs where "ys = 10 # zs" by (cases ys) (auto split: if_splits)
  then show ?thesis using that [of "c # m" zs] c m(1-3) by auto
qed

lemma parse_start: "m \<noteq> [] \<Longrightarrow> list_all token_char m \<Longrightarrow> parse method_start req (m @ 32 # xs) = parse in_uri (req \<lparr> rq_method := rq_method req @ m \<rparr>) xs"
  by (cases m) (auto simp: method_run.run_text runs)

lemma start_good:
  assumes "parse method_start req xs = Some (good, r)"
  obtains m ys where "xs = m @ 32 # ys" "m \<noteq> []" "list_all token_char m"
proof -
  from assms obtain c cs req' where c: "xs = c # cs" "token_char c" "parse in_method req' cs = Some (good, r)" by (cases xs) (auto split: if_splits)
  from method_run.run_good [OF c(3)] obtain m ys where "cs = m @ 32 # ys" "list_all token_char m" by blast
  then show ?thesis using that [of "c # m" ys] c by auto
qed

lemma parse_uri: "list_all (\<lambda>c. c \<noteq> 32 \<and> vchar c) u \<Longrightarrow> parse in_uri req (u @ 32 # xs) = parse http_version_h (req \<lparr> rq_uri := rq_uri req @ u \<rparr>) xs"
  by (simp add: uri_run.run_text runs)

text \<open>The request line, and the request that the parser has after it.\<close>

lemma parse_line:
  assumes "m \<noteq> []" "list_all token_char m" "list_all (\<lambda>c. c \<noteq> 32 \<and> vchar c) u" "major \<noteq> []" "list_all is_digit major" "version_of 0 major = Some va"
    "minor \<noteq> []" "list_all is_digit minor" "version_of 0 minor = Some vi"
  shows "parse method_start (request_new a b) (m @ [32] @ u @ [32] @ str ''HTTP/'' @ major @ [46] @ minor @ [13, 10] @ xs) =
    parse header_line_start \<lparr> rq_method = m, rq_uri = u, rq_http_version_major = va, rq_http_version_minor = vi, rq_headers = [] \<rparr> xs"
proof -
  let ?req = "\<lparr> rq_method = m, rq_uri = u, rq_http_version_major = 0, rq_http_version_minor = 0, rq_headers = [] \<rparr>"
  have "parse method_start (request_new a b) (m @ [32] @ u @ [32] @ str ''HTTP/'' @ ys) = parse http_version_major_start ?req ys" for ys
    using assms(1-3) parse_http by (simp add: parse_start parse_uri request_new_def)
  moreover have "parse http_version_major_start ?req (major @ 46 # ys) = parse http_version_minor_start (?req \<lparr> rq_http_version_major := va \<rparr>) ys" for ys
    using parse_major [OF assms(4,5), of ?req va ys] assms(6) by simp
  ultimately show ?thesis using parse_minor [OF assms(7,8), of "?req \<lparr> rq_http_version_major := va \<rparr>" vi xs] assms(9) by simp
qed

text \<open>A request is accepted.\<close>

lemma parse_request_text:
  assumes "request_text t req"
  shows "parse method_start (request_new a b) (t @ rest) = Some (good, expecting_newline_3, req, rest)"
proof -
  from assms obtain major minor lines where t: "t = rq_method req @ [32] @ rq_uri req @ [32] @ str ''HTTP/'' @ major @ [46] @ minor @ [13, 10] @ lines @ [13, 10]"
    and l: "rq_method req \<noteq> []" "list_all token_char (rq_method req)" "list_all (\<lambda>c. c \<noteq> 32 \<and> vchar c) (rq_uri req)"
      "major \<noteq> []" "list_all is_digit major" "version_of 0 major = Some (rq_http_version_major req)"
      "minor \<noteq> []" "list_all is_digit minor" "version_of 0 minor = Some (rq_http_version_minor req)"
    and h: "header_lines [] lines (rq_headers req)" unfolding request_text_def by blast
  have "parse header_line_start (set_headers req []) (lines @ [13, 10] @ rest) = Some (good, expecting_newline_3, req, rest)"
    using parse_header_lines [OF h, of req "[13, 10] @ rest"] by simp
  moreover have "set_headers req [] = \<lparr> rq_method = rq_method req, rq_uri = rq_uri req, rq_http_version_major = rq_http_version_major req,
    rq_http_version_minor = rq_http_version_minor req, rq_headers = [] \<rparr>" by simp
  ultimately show ?thesis using parse_line [OF l, of a b "lines @ [13, 10] @ rest"] t by simp
qed

section \<open>Undefined behaviour\<close>

definition parser_inv :: "parser_state \<Rightarrow> request \<Rightarrow> bool" where
  "parser_inv st req \<longleftrightarrow> (st \<in> {http_version_major_start, http_version_major, http_version_minor_start, http_version_minor} \<longrightarrow>
      0 \<le> rq_http_version_major req \<and> 0 \<le> rq_http_version_minor req) \<and>
    (st \<in> {header_lws, header_name, space_before_header_value, header_value, expecting_newline_2} \<longrightarrow> rq_headers req \<noteq> [])"

lemma digit_value: "is_digit c \<Longrightarrow> 48 \<le> sint c \<and> sint c \<le> 57"
  using uint_lt2p [of c] by (auto simp: sint_byte is_digit_def word_le_def)

lemma version_digit_ge: "0 \<le> v \<Longrightarrow> is_digit c \<Longrightarrow> version_digit v c = Some v' \<Longrightarrow> 0 \<le> v'"
  using digit_value [of c] by (auto simp: version_digit_def split: if_splits)

lemma parser_inv_consume:
  assumes "parser_inv st req" "consume st req c = Some (r, st', req')"
  shows "parser_inv st' req'"
  using assms by (cases st) (auto simp: parser_inv_def change_back_def split: if_splits Option.bind_splits intro: version_digit_ge)

definition current_version :: "parser_state \<Rightarrow> request \<Rightarrow> int" where
  "current_version st req = (if st \<in> {http_version_major_start, http_version_major} then rq_http_version_major req else rq_http_version_minor req)"

lemma consume_undefined:
  assumes "parser_inv st req" "consume st req c = None"
  shows "st \<in> {http_version_major_start, http_version_major, http_version_minor_start, http_version_minor} \<and> is_digit c \<and> 2 ^ 31 \<le> current_version st req * 10 + sint c"
proof -
  have v: "2147483648 \<le> v * 10 + sint c" if "version_digit v c = None" "0 \<le> v" "is_digit c" for v
    using that digit_value [OF that(3)] by (auto simp: version_digit_def int_ok_def split: if_splits)
  show ?thesis using assms by (cases st) (auto simp: parser_inv_def change_back_def current_version_def v split: if_splits Option.bind_splits)
qed

lemma parse_undefined:
  assumes "parse st req xs = None" "parser_inv st req"
  shows "\<exists>ys c zs st' req'. xs = ys @ c # zs \<and> parse st req ys = Some (indeterminate, st', req', []) \<and> parser_inv st' req' \<and> consume st' req' c = None"
  using assms
proof (induction xs arbitrary: st req)
  case (Cons x xs)
  show ?case
  proof (cases "consume st req x")
    case None
    then show ?thesis using Cons.prems(2) by (intro exI [of _ "[]"]) simp
  next
    case (Some t)
    obtain r st1 req1 where t: "t = (r, st1, req1)" by (cases t)
    then have r: "r = indeterminate" "parse st1 req1 xs = None" using Cons.prems(1) Some by (cases r; simp)+
    from Cons.IH [OF r(2) parser_inv_consume [OF Cons.prems(2) Some [unfolded t]]] obtain ys c zs st' req' where
      "xs = ys @ c # zs" "parse st1 req1 ys = Some (indeterminate, st', req', [])" "parser_inv st' req'" "consume st' req' c = None" by blast
    then show ?thesis using Some t r(1) by (intro exI [of _ "x # ys"]) auto
  qed
qed simp

section \<open>Properties\<close>

text \<open>
  C35: The parser accepts exactly the requests of its grammar: it answers \<open>good\<close>, with the request it has
  built and the rest of the input, if and only if the input starts with a request line and header lines
  of that request, folded header values included, and the empty line that ends them.
\<close>

theorem request_parser_language:
  "parse method_start (request_new a b) xs = Some (good, st, req, rest) \<longleftrightarrow>
    st = expecting_newline_3 \<and> (\<exists>t. xs = t @ rest \<and> request_text t req)"
proof
  assume g: "parse method_start (request_new a b) xs = Some (good, st, req, rest)"
  from start_good [OF g] obtain m x1 where m: "xs = m @ 32 # x1" "m \<noteq> []" "list_all token_char m" .
  have g1: "parse in_uri ((request_new a b) \<lparr> rq_method := m \<rparr>) x1 = Some (good, st, req, rest)" using g m by (simp add: parse_start request_new_def)
  from uri_run.run_good [OF g1] obtain u x2 where u: "x1 = u @ 32 # x2" "list_all (\<lambda>c. c \<noteq> 32 \<and> vchar c) u" by blast
  have g2: "parse http_version_h ((request_new a b) \<lparr> rq_method := m, rq_uri := u \<rparr>) x2 = Some (good, st, req, rest)" using g1 u by (simp add: parse_uri request_new_def)
  from http_good [OF g2] obtain x3 where x3: "x2 = [72, 84, 84, 80, 47] @ x3" .
  let ?req = "\<lparr> rq_method = m, rq_uri = u, rq_http_version_major = 0, rq_http_version_minor = 0, rq_headers = [] \<rparr>"
  have g3: "parse http_version_major_start ?req x3 = Some (good, st, req, rest)" using g2 x3 by (simp add: request_new_def)
  from major_good [OF g3] obtain ds x4 v where d: "x3 = ds @ 46 # x4" "ds \<noteq> []" "list_all is_digit ds" "version_of 0 ds = Some v" by auto
  have g4: "parse http_version_minor_start (?req \<lparr> rq_http_version_major := v \<rparr>) x4 = Some (good, st, req, rest)" using g3 d parse_major [OF d(2,3), of ?req v x4] by simp
  from minor_good [OF g4] obtain es x5 w where e: "x4 = es @ 13 # 10 # x5" "es \<noteq> []" "list_all is_digit es" "version_of 0 es = Some w" by auto
  let ?req2 = "?req \<lparr> rq_http_version_major := v, rq_http_version_minor := w \<rparr>"
  have "parse header_line_start (set_headers ?req2 []) x5 = Some (good, st, req, rest)"
    using g4 e parse_minor [OF e(2,3), of "?req \<lparr> rq_http_version_major := v \<rparr>" w x5] by simp
  from header_lines_good [OF this] obtain t hs where t: "x5 = t @ [13, 10] @ rest" "header_lines [] t hs" "req = set_headers ?req2 hs" "st = expecting_newline_3" by blast
  have "request_text (m @ [32] @ u @ [32] @ str ''HTTP/'' @ ds @ [46] @ es @ [13, 10] @ t @ [13, 10]) req"
    unfolding request_text_def t(3) using m(2,3) u(2) d(2-4) e(2-4) t(2) by (intro exI [of _ ds] exI [of _ es] exI [of _ t]) simp
  then show "st = expecting_newline_3 \<and> (\<exists>t. xs = t @ rest \<and> request_text t req)"
    using t(1,4) m(1) u(1) x3 d(1) e(1) by (intro conjI exI [of _ "m @ [32] @ u @ [32] @ str ''HTTP/'' @ ds @ [46] @ es @ [13, 10] @ t @ [13, 10]"]) simp_all
next
  assume "st = expecting_newline_3 \<and> (\<exists>t. xs = t @ rest \<and> request_text t req)"
  then show "parse method_start (request_new a b) xs = Some (good, st, req, rest)" using parse_request_text by blast
qed

text \<open>
  C36: The only undefined behaviour of the parser is an overflow of a version number, and a client can
  bring it about with a version of ten digits: the number that has been read and the next digit do not
  fit an \<open>int\<close>. The vector of headers is never empty where its last element is changed.
\<close>

theorem request_parser_overflow:
  "(parse method_start (request_new a b) xs = None \<longleftrightarrow>
    (\<exists>ys c zs st req. xs = ys @ c # zs \<and> parse method_start (request_new a b) ys = Some (indeterminate, st, req, []) \<and>
      st \<in> {http_version_major_start, http_version_major, http_version_minor_start, http_version_minor} \<and> is_digit c \<and>
      2 ^ 31 \<le> current_version st req * 10 + sint c)) \<and>
   parse method_start (request_new a b) (str ''GET / HTTP/9999999999'') = None"
proof (intro conjI iffI)
  assume "parse method_start (request_new a b) xs = None"
  from parse_undefined [OF this] consume_undefined
  show "\<exists>ys c zs st req. xs = ys @ c # zs \<and> parse method_start (request_new a b) ys = Some (indeterminate, st, req, []) \<and>
      st \<in> {http_version_major_start, http_version_major, http_version_minor_start, http_version_minor} \<and> is_digit c \<and>
      2 ^ 31 \<le> current_version st req * 10 + sint c" by (simp add: parser_inv_def) blast
next
  assume "\<exists>ys c zs st req. xs = ys @ c # zs \<and> parse method_start (request_new a b) ys = Some (indeterminate, st, req, []) \<and>
      st \<in> {http_version_major_start, http_version_major, http_version_minor_start, http_version_minor} \<and> is_digit c \<and>
      2 ^ 31 \<le> current_version st req * 10 + sint c"
  then obtain ys c zs st req where xs: "xs = ys @ c # zs" "parse method_start (request_new a b) ys = Some (indeterminate, st, req, [])"
    "st \<in> {http_version_major_start, http_version_major, http_version_minor_start, http_version_minor}" "is_digit c" "2 ^ 31 \<le> current_version st req * 10 + sint c" by blast
  have "consume st req c = None" using xs(3-5) by (auto simp: current_version_def version_digit_def int_ok_def)
  then show "parse method_start (request_new a b) xs = None" using xs(1,2) by (simp add: parse_append)
next
  let ?req = "\<lparr> rq_method = [71, 69, 84], rq_uri = [47], rq_http_version_major = 0, rq_http_version_minor = 0, rq_headers = [] \<rparr>"
  have t: "str ''GET / HTTP/9999999999'' = [71, 69, 84] @ 32 # [47] @ 32 # [72, 84, 84, 80, 47] @ replicate 10 57" by code_simp
  have "list_all token_char [71, 69, 84]" "list_all (\<lambda>c. c \<noteq> 32 \<and> vchar c) [47]" by code_simp+
  note r = parse_start [OF _ this(1), of "request_new a b"] parse_uri [OF this(2)]
  have "parse http_version_major_start ?req (replicate 10 57) = None" by code_simp
  then show "parse method_start (request_new a b) (str ''GET / HTTP/9999999999'') = None"
    unfolding t by (subst r, simp, subst r, subst parse_http) (simp add: request_new_def)
qed

end
