(* ===== verification/Http_Reply.thy ===== *)
theory Http_Reply
  imports Http_Parser "HOL-Library.Sublist"
begin

text \<open>
  Replies of the HTTP server (\<^verbatim>\<open>http_server/reply.cpp\<close>, \<^verbatim>\<open>http_server/mime_types.cpp\<close>) and the handler of
  requests (\<^verbatim>\<open>http_server/request_handler.cpp\<close>), which serves the files below a directory. The files are a
  parameter: a function from the name given to \<open>std::ifstream\<close> to the contents, if the file can be opened.
\<close>

section \<open>Replies\<close>

datatype status_type =
    rs_ok | rs_created | rs_accepted | rs_no_content | rs_multiple_choices | rs_moved_permanently | rs_moved_temporarily | rs_not_modified
  | rs_bad_request | rs_unauthorized | rs_forbidden | rs_not_found | rs_internal_server_error | rs_not_implemented | rs_bad_gateway | rs_service_unavailable

definition crlf :: bytes where
  "crlf = [13, 10]"

definition name_value_separator :: bytes where
  "name_value_separator = str '': ''"

text \<open>The strings of \<open>status_strings\<close> and the one \<open>to_buffer\<close> chooses.\<close>

fun status_string :: "status_type \<Rightarrow> bytes" where
  "status_string rs_ok = str ''HTTP/1.0 200 OK''"
| "status_string rs_created = str ''HTTP/1.0 201 Created''"
| "status_string rs_accepted = str ''HTTP/1.0 202 Accepted''"
| "status_string rs_no_content = str ''HTTP/1.0 204 No Content''"
| "status_string rs_multiple_choices = str ''HTTP/1.0 300 Multiple Choices''"
| "status_string rs_moved_permanently = str ''HTTP/1.0 301 Moved Permanently''"
| "status_string rs_moved_temporarily = str ''HTTP/1.0 302 Moved Temporarily''"
| "status_string rs_not_modified = str ''HTTP/1.0 304 Not Modified''"
| "status_string rs_bad_request = str ''HTTP/1.0 400 Bad Request''"
| "status_string rs_unauthorized = str ''HTTP/1.0 401 Unauthorized''"
| "status_string rs_forbidden = str ''HTTP/1.0 403 Forbidden''"
| "status_string rs_not_found = str ''HTTP/1.0 404 Not Found''"
| "status_string rs_internal_server_error = str ''HTTP/1.0 500 Internal Server Error''"
| "status_string rs_not_implemented = str ''HTTP/1.0 501 Not Implemented''"
| "status_string rs_bad_gateway = str ''HTTP/1.0 502 Bad Gateway''"
| "status_string rs_service_unavailable = str ''HTTP/1.0 503 Service Unavailable''"

definition status_buffer :: "status_type \<Rightarrow> bytes" where
  "status_buffer status = status_string status @ crlf"

record reply =
  rp_status :: status_type
  rp_headers :: "header list"
  rp_content :: bytes

text \<open>The status of a new reply is not initialised.\<close>

definition reply_new :: "status_type \<Rightarrow> reply" where
  "reply_new status = \<lparr> rp_status = status, rp_headers = [], rp_content = [] \<rparr>"

definition header_buffers :: "header \<Rightarrow> bytes list" where
  "header_buffers h = [h_name h, name_value_separator, h_value h, crlf]"

definition to_buffers :: "reply \<Rightarrow> bytes list" where
  "to_buffers rep = status_buffer (rp_status rep) # concat (map header_buffers (rp_headers rep)) @ [crlf, rp_content rep]"

definition html_page :: "string \<Rightarrow> string \<Rightarrow> bytes" where
  "html_page title heading = str (''<html><head><title>'' @ title @ ''</title></head><body><h1>'' @ heading @ ''</h1></body></html>'')"

fun stock_content :: "status_type \<Rightarrow> bytes" where
  "stock_content rs_ok = []"
| "stock_content rs_created = html_page ''Created'' ''201 Created''"
| "stock_content rs_accepted = html_page ''Accepted'' ''202 Accepted''"
| "stock_content rs_no_content = html_page ''No Content'' ''204 Content''"
| "stock_content rs_multiple_choices = html_page ''Multiple Choices'' ''300 Multiple Choices''"
| "stock_content rs_moved_permanently = html_page ''Moved Permanently'' ''301 Moved Permanently''"
| "stock_content rs_moved_temporarily = html_page ''Moved Temporarily'' ''302 Moved Temporarily''"
| "stock_content rs_not_modified = html_page ''Not Modified'' ''304 Not Modified''"
| "stock_content rs_bad_request = html_page ''Bad Request'' ''400 Bad Request''"
| "stock_content rs_unauthorized = html_page ''Unauthorized'' ''401 Unauthorized''"
| "stock_content rs_forbidden = html_page ''Forbidden'' ''403 Forbidden''"
| "stock_content rs_not_found = html_page ''Not Found'' ''404 Not Found''"
| "stock_content rs_internal_server_error = html_page ''Internal Server Error'' ''500 Internal Server Error''"
| "stock_content rs_not_implemented = html_page ''Not Implemented'' ''501 Not Implemented''"
| "stock_content rs_bad_gateway = html_page ''Bad Gateway'' ''502 Bad Gateway''"
| "stock_content rs_service_unavailable = html_page ''Service Unavailable'' ''503 Service Unavailable''"

text \<open>\<open>std::to_string\<close> of a size prints it in decimal.\<close>

definition content_headers :: "bytes \<Rightarrow> bytes \<Rightarrow> header list" where
  "content_headers content type =
     [\<lparr> h_name = str ''Content-Length'', h_value = decimal (length content) \<rparr>, \<lparr> h_name = str ''Content-Type'', h_value = type \<rparr>]"

definition stock_reply :: "status_type \<Rightarrow> reply" where
  "stock_reply status =
     \<lparr> rp_status = status, rp_headers = content_headers (stock_content status) (str ''text/html''), rp_content = stock_content status \<rparr>"

section \<open>Types of files\<close>

definition mappings :: "(bytes \<times> bytes) list" where
  "mappings =
     [(str ''gif'', str ''image/gif''), (str ''htm'', str ''text/html''), (str ''html'', str ''text/html''), (str ''jpg'', str ''image/jpeg''), (str ''png'', str ''image/png'')]"

definition extension_to_type :: "bytes \<Rightarrow> bytes" where
  "extension_to_type extension =
     (case find (\<lambda>m. fst m = extension) mappings of Some m \<Rightarrow> snd m | None \<Rightarrow> str ''text/plain'')"

section \<open>The handler\<close>

text \<open>
  \<open>is >> std::hex >> value\<close> of the standard library on a short string: white space is skipped, a sign
  and a prefix \<open>0x\<close> are read, and then digits up to the first other character; there must be one digit.
\<close>

definition is_space :: "byte \<Rightarrow> bool" where
  "is_space c \<longleftrightarrow> c = 32 \<or> (9 \<le> c \<and> c \<le> 13)"

definition hex_value :: "byte \<Rightarrow> int option" where
  "hex_value c =
     (if 48 \<le> c \<and> c \<le> 57 then Some (uint c - 48)
      else if 97 \<le> c \<and> c \<le> 102 then Some (uint c - 87)
      else if 65 \<le> c \<and> c \<le> 70 then Some (uint c - 55)
      else None)"

fun hex_run :: "int \<Rightarrow> bool \<Rightarrow> bytes \<Rightarrow> int option" where
  "hex_run v found [] = (if found then Some v else None)"
| "hex_run v found (c # cs) =
     (case hex_value c of Some d \<Rightarrow> hex_run (16 * v + d) True cs | None \<Rightarrow> if found then Some v else None)"

definition hex_number :: "bytes \<Rightarrow> int option" where
  "hex_number s =
     (if 2 \<le> length s \<and> s ! 0 = 48 \<and> (s ! 1 = 120 \<or> s ! 1 = 88) then hex_run 0 False (drop 2 s) else hex_run 0 False s)"

definition extract_hex :: "bytes \<Rightarrow> int option" where
  "extract_hex s =
     (case dropWhile is_space s of
        [] \<Rightarrow> None
      | c # cs \<Rightarrow> if c = 43 then hex_number cs else if c = 45 then map_option uminus (hex_number cs) else hex_number (c # cs))"

fun url_decode :: "bytes \<Rightarrow> bytes option" where
  "url_decode [] = Some []"
| "url_decode (c # cs) =
     (if c = 37
      then (case cs of
              c1 # c2 # rest \<Rightarrow> do { v \<leftarrow> extract_hex [c1, c2]; out \<leftarrow> url_decode rest; Some (word_of_int v # out) }
            | _ \<Rightarrow> None)
      else do { out \<leftarrow> url_decode cs; Some ((if c = 43 then 32 else c) # out) })"

text \<open>\<open>find_last_of\<close> a single character.\<close>

definition find_last_of :: "bytes \<Rightarrow> byte \<Rightarrow> nat option" where
  "find_last_of s c = (if c \<in> set s then Some (length s - 1 - length (takeWhile (\<lambda>d. d \<noteq> c) (rev s))) else None)"

definition file_extension :: "bytes \<Rightarrow> bytes" where
  "file_extension request_path =
     (case (find_last_of request_path 46, find_last_of request_path 47) of
        (Some last_dot_pos, Some last_slash_pos) \<Rightarrow> if last_dot_pos > last_slash_pos then drop (last_dot_pos + 1) request_path else []
      | _ \<Rightarrow> [])"

text \<open>The path of a request, \<open>None\<close> for a bad request.\<close>

definition request_path :: "request \<Rightarrow> bytes option" where
  "request_path req =
     (case url_decode (rq_uri req) of
        None \<Rightarrow> None
      | Some path \<Rightarrow>
          if path = [] \<or> hd path \<noteq> 47 \<or> sublist [46, 46] path then None
          else if last path = 47 then Some (path @ str ''index.html'') else Some path)"

text \<open>\<open>c_str\<close> of a string is read up to the first zero byte.\<close>

definition c_str :: "bytes \<Rightarrow> bytes" where
  "c_str s = takeWhile (\<lambda>c. c \<noteq> 0) s"

text \<open>The loop over \<open>is.read(buf, sizeof(buf))\<close>, which appends as many bytes as it got.\<close>

function read_file :: "bytes \<Rightarrow> bytes \<Rightarrow> bytes" where
  "read_file is content = (if length (take 512 is) > 0 then read_file (drop 512 is) (content @ take 512 is) else content)"
  by pat_completeness auto
termination
  by (relation "measure (\<lambda>(is, content). length is)") auto

declare read_file.simps [simp del]

definition resize_headers :: "nat \<Rightarrow> header list \<Rightarrow> header list" where
  "resize_headers n hs = take n hs @ replicate (n - length hs) \<lparr> h_name = [], h_value = [] \<rparr>"

definition set_header :: "nat \<Rightarrow> header \<Rightarrow> header list \<Rightarrow> header list" where
  "set_header i h hs = hs[i := h]"

definition handle_request :: "(bytes \<Rightarrow> bytes option) \<Rightarrow> bytes \<Rightarrow> request \<Rightarrow> reply \<Rightarrow> reply" where
  "handle_request files doc_root req rep =
     (case request_path req of
        None \<Rightarrow> stock_reply rs_bad_request
      | Some path \<Rightarrow>
          (case files (c_str (doc_root @ path)) of
             None \<Rightarrow> stock_reply rs_not_found
           | Some is \<Rightarrow>
               (let content = read_file is (rp_content rep);
                    headers = resize_headers 2 (rp_headers rep);
                    headers = set_header 0 \<lparr> h_name = str ''Content-Length'', h_value = decimal (length content) \<rparr> headers;
                    headers = set_header 1 \<lparr> h_name = str ''Content-Type'', h_value = extension_to_type (file_extension path) \<rparr> headers
                in rep \<lparr> rp_status := rs_ok, rp_content := content, rp_headers := headers \<rparr>)))"

section \<open>Files below the directory\<close>

lemma read_file_all: "read_file is content = content @ is"
proof (induction "is" content rule: read_file.induct)
  case (1 "is" content)
  show ?case using 1 by (subst read_file.simps) auto
qed

definition inside_root :: "bytes \<Rightarrow> bytes \<Rightarrow> bool" where
  "inside_root doc_root path \<longleftrightarrow> (\<exists>p. path = doc_root @ p \<and> take 1 p = str ''/'' \<and> \<not> sublist (str ''..'') p)"

lemma str_path [simp]: "str ''..'' = [46, 46]" "str ''index.html'' = [105, 110, 100, 101, 120, 46, 104, 116, 109, 108]"
  by code_simp+

lemma no_dots_index:
  assumes "\<not> sublist [46, 46] (p :: bytes)"
  shows "\<not> sublist [46, 46] (p @ [105, 110, 100, 101, 120, 46, 104, 116, 109, 108])"
proof -
  have "\<not> sublist [46, 46] [105, 110, 100, 101, 120, 46, 104, 116, 109, 108 :: byte]" by code_simp
  moreover have "\<not> suffix xs p" if "[46, 46] = xs @ ys" "prefix ys [105, 110, 100, 101, 120, 46, 104, 116, 109, 108]" for xs ys
    using that assms by (cases ys; cases xs; auto simp: prefix_Cons dest: suffix_imp_sublist; cases "tl xs"; auto)
  ultimately show ?thesis using assms by (auto simp: sublist_append)
qed

lemma request_path_inside:
  assumes "request_path req = Some path" "0 \<notin> set doc_root"
  shows "inside_root doc_root (c_str (doc_root @ path))"
proof -
  obtain q where q: "url_decode (rq_uri req) = Some q" "q \<noteq> []" "hd q = 47" "\<not> sublist [46, 46] q" and path: "path = (if last q = 47 then q @ str ''index.html'' else q)"
    using assms(1) by (auto simp: request_path_def split: option.splits if_splits)
  have d: "\<not> sublist [46, 46] path" using q(4) no_dots_index [OF q(4)] path by simp
  have h: "path \<noteq> []" "hd path = 47" using q(2,3) path by (auto simp: hd_append)
  have c: "c_str (doc_root @ path) = doc_root @ c_str path" using assms(2) unfolding c_str_def by (subst takeWhile_append2) auto
  have "prefix (c_str path) path" by (simp add: c_str_def takeWhile_is_prefix)
  then have "\<not> sublist [46, 46] (c_str path)" using d sublist_order.order.trans prefix_imp_sublist by blast
  moreover have "take 1 (c_str path) = [47]" using h by (cases path) (auto simp: c_str_def)
  ultimately show ?thesis using c by (auto simp: inside_root_def)
qed

text \<open>Escapes need not be two hexadecimal digits: one digit and any other character, or a sign and a digit, are accepted too.\<close>

lemma url_decode_malformed: "url_decode (str ''%5g'') = Some [5]" "url_decode (str ''%-1'') = Some [255]" "url_decode (str ''%g5'') = None"
  by code_simp+

section \<open>Reading a reply\<close>

text \<open>How a client reads a reply: lines up to an empty one, and then the content.\<close>

function read_head :: "bytes \<Rightarrow> bytes \<Rightarrow> (bytes list \<times> bytes) option" where
  "read_head l [] = None"
| "read_head l (c # cs) =
     (if c = 13 \<and> take 1 cs = [10]
      then (if l = [] then Some ([], drop 1 cs) else do { (ls, content) \<leftarrow> read_head [] (drop 1 cs); Some (l # ls, content) })
      else read_head (l @ [c]) cs)"
  by pat_completeness auto
termination
  by (relation "measure (\<lambda>(l, cs). length cs)") auto

lemma read_head_line:
  "13 \<notin> set l2 \<Longrightarrow> l1 @ l2 \<noteq> [] \<Longrightarrow> read_head l1 (l2 @ crlf @ cs) = do { (ls, content) \<leftarrow> read_head [] cs; Some ((l1 @ l2) # ls, content) }"
  by (induction l2 arbitrary: l1) (auto simp: crlf_def)

definition header_line :: "header \<Rightarrow> bytes" where
  "header_line h = h_name h @ name_value_separator @ h_value h"

lemma str_sep [simp]: "name_value_separator = [58, 32]"
  by code_simp

lemma read_head_headers:
  "\<forall>h\<in>set hs. 13 \<notin> set (h_name h) \<and> 13 \<notin> set (h_value h) \<Longrightarrow>
    read_head [] (concat (concat (map header_buffers hs)) @ crlf @ content) = Some (map header_line hs, content)"
proof (induction hs)
  case Nil
  show ?case by (simp add: crlf_def)
next
  case (Cons h hs)
  have "read_head [] (header_line h @ crlf @ concat (concat (map header_buffers hs)) @ crlf @ content) = Some (map header_line (h # hs), content)"
    using Cons by (subst read_head_line) (auto simp: header_line_def)
  then show ?case by (simp add: header_buffers_def [of h] header_line_def [of h])
qed

lemma status_string_no_cr: "13 \<notin> set (status_string st)" "status_string st \<noteq> []"
  by (induct st; code_simp)+

lemma decimal_no_cr: "13 \<notin> set (decimal n)"
  using decimal_digits [of n] by (auto simp: is_digit_def)

lemma type_no_cr: "13 \<notin> set (extension_to_type e)"
proof -
  have "\<forall>m\<in>set mappings. 13 \<notin> set (snd m)" "13 \<notin> set (str ''text/plain'')" by code_simp+
  moreover have "m \<in> set mappings" if "find (\<lambda>m. fst m = e) mappings = Some m" for m using that by (metis find_Some_iff nth_mem)
  ultimately show ?thesis by (simp add: extension_to_type_def split: option.split)
qed

lemma content_headers_no_cr: "13 \<notin> set type \<Longrightarrow> \<forall>h\<in>set (content_headers content type). 13 \<notin> set (h_name h) \<and> 13 \<notin> set (h_value h)"
proof -
  have "13 \<notin> set (str ''Content-Length'')" "13 \<notin> set (str ''Content-Type'')" by code_simp+
  then show "13 \<notin> set type \<Longrightarrow> ?thesis" by (simp add: content_headers_def decimal_no_cr)
qed

text \<open>The headers of every reply of the handler, and of the stock replies.\<close>

lemma handle_request_cases:
  "handle_request files doc_root req (reply_new s) =
    (case request_path req of
       None \<Rightarrow> stock_reply rs_bad_request
     | Some path \<Rightarrow>
        (case files (c_str (doc_root @ path)) of
           None \<Rightarrow> stock_reply rs_not_found
         | Some content \<Rightarrow>
            \<lparr> rp_status = rs_ok, rp_headers = content_headers content (extension_to_type (file_extension path)), rp_content = content \<rparr>))"
  by (auto simp: handle_request_def reply_new_def read_file_all resize_headers_def set_header_def content_headers_def Let_def
      numeral_2_eq_2 split: option.split)

lemma read_reply:
  assumes "rp_headers rep = content_headers (rp_content rep) type" "13 \<notin> set type"
  shows "read_head [] (concat (to_buffers rep)) =
    Some (status_string (rp_status rep) # map header_line (content_headers (rp_content rep) type), rp_content rep)"
proof -
  have "concat (to_buffers rep) = status_string (rp_status rep) @ crlf @ (concat (concat (map header_buffers (rp_headers rep))) @ crlf @ rp_content rep)"
    by (simp add: to_buffers_def status_buffer_def)
  then show ?thesis using status_string_no_cr read_head_headers [OF content_headers_no_cr [OF assms(2)]] assms(1)
    by (simp add: read_head_line del: append_assoc) 
qed

section \<open>Properties\<close>

text \<open>
  C37: The server gives away only what is below its directory. Its reply to a request is the same for any
  two file systems that agree on the files whose name is the name of the directory followed by a path
  that starts with a slash and nowhere has two dots in a row; escapes in the request are decoded before this is checked.
\<close>

theorem handle_request_inside_root:
  assumes "0 \<notin> set doc_root" "\<forall>path. inside_root doc_root path \<longrightarrow> files path = files' path"
  shows "handle_request files doc_root req rep = handle_request files' doc_root req rep"
proof (cases "request_path req")
  case (Some path)
  have "files (c_str (doc_root @ path)) = files' (c_str (doc_root @ path))" using assms(2) request_path_inside [OF Some assms(1)] by blast
  then show ?thesis using Some by (simp add: handle_request_def)
qed (simp add: handle_request_def)

theorem handle_request_inside_root_witness:
  "handle_request (\<lambda>path. if path = str ''/srv/a'' then Some [1] else None) (str ''/srv'') (request_new 1 0 \<lparr> rq_uri := str ''/..%2fetc'' \<rparr>) (reply_new rs_ok) =
   handle_request (\<lambda>path. if path = str ''/srv/a'' then Some [1] else if path = str ''/etc'' then Some [2] else None) (str ''/srv'')
     (request_new 1 0 \<lparr> rq_uri := str ''/..%2fetc'' \<rparr>) (reply_new rs_ok)"
proof (rule handle_request_inside_root)
  show "0 \<notin> set (str ''/srv'')" by code_simp
  have "str ''/etc'' \<noteq> str ''/srv'' @ p" for p using arg_cong [of "str ''/etc''" "str ''/srv'' @ p" "\<lambda>s. s ! 1"] by (simp add: str_def)
  then show "\<forall>path. inside_root (str ''/srv'') path \<longrightarrow> (if path = str ''/srv/a'' then Some [1] else None) =
      (if path = str ''/srv/a'' then Some [1] else if path = str ''/etc'' then Some [2] else None)" by (auto simp: inside_root_def)
qed


end
