(* ===== verification/Http_Server.thy ===== *)
theory Http_Server
  imports Http_Reply
begin

text \<open>
  The connections of the HTTP server, their manager and the server itself (\<^verbatim>\<open>http_server/connection.cpp\<close>,
  \<^verbatim>\<open>http_server/connection_manager.cpp\<close>, \<^verbatim>\<open>http_server/server.cpp\<close>) as a step relation. Every connection waits for one
  asynchronous operation; its completion is first a queued result, and then its handler runs. All
  handlers run in one thread. Of the network library the following is used: an operation on an open
  socket completes with any result but \<open>operation_aborted\<close>; closing a socket completes the operation
  that waits on it with \<open>operation_aborted\<close>; an operation on a closed socket fails with another error.
\<close>

section \<open>Connections\<close>

datatype error_code = no_error | operation_aborted | other_error

datatype operation = op_read | op_write

record connection =
  cn_request :: request
  cn_parser :: parser_state
  cn_reply :: reply
  cn_open :: bool
  cn_operation :: operation
  cn_result :: "(error_code \<times> bytes) option"

definition start_operation :: "operation \<Rightarrow> connection \<Rightarrow> connection" where
  "start_operation operation c = c \<lparr> cn_operation := operation, cn_result := (if cn_open c then None else Some (other_error, [])) \<rparr>"

definition do_read :: "connection \<Rightarrow> connection" where
  "do_read c = start_operation op_read c"

definition do_write :: "connection \<Rightarrow> connection" where
  "do_write c = start_operation op_write c"

text \<open>A connection on a new socket; \<open>a\<close>, \<open>b\<close> and \<open>s\<close> are the values of uninitialised fields.\<close>

definition connection_new :: "int \<Rightarrow> int \<Rightarrow> status_type \<Rightarrow> connection" where
  "connection_new a b s =
     \<lparr> cn_request = request_new a b, cn_parser = method_start, cn_reply = reply_new s, cn_open = True, cn_operation = op_read, cn_result = None \<rparr>"

definition connection_start :: "connection \<Rightarrow> connection" where
  "connection_start c = do_read c"

definition connection_stop :: "connection \<Rightarrow> connection" where
  "connection_stop c = c \<lparr> cn_open := False, cn_result := (if cn_result c = None then Some (operation_aborted, []) else cn_result c) \<rparr>"

text \<open>What a handler leaves: a connection with a new operation, a call of \<open>connection_manager_.stop\<close>, or nothing.\<close>

datatype handled = Continues connection | Stops | Ends

text \<open>\<open>None\<close> is undefined behaviour of the parser.\<close>

definition read_handler :: "(bytes \<Rightarrow> bytes option) \<Rightarrow> bytes \<Rightarrow> connection \<Rightarrow> error_code \<Rightarrow> bytes \<Rightarrow> handled option" where
  "read_handler files doc_root c ec transferred =
     (if ec = no_error
      then do {
        (result, st, req, _) \<leftarrow> parse (cn_parser c) (cn_request c) transferred;
        let c = c \<lparr> cn_parser := st, cn_request := req \<rparr>;
        Some (Continues (
          if result = good then do_write (c \<lparr> cn_reply := handle_request files doc_root (cn_request c) (cn_reply c) \<rparr>)
          else if result = bad then do_write (c \<lparr> cn_reply := stock_reply rs_bad_request \<rparr>)
          else do_read c)) }
      else if ec \<noteq> operation_aborted then Some Stops
      else Some Ends)"

definition write_handler :: "error_code \<Rightarrow> handled" where
  "write_handler ec = (if ec \<noteq> operation_aborted then Stops else Ends)"

section \<open>The manager and the server\<close>

text \<open>\<open>sv_live\<close> has the connections that wait for an operation, \<open>sv_connections\<close> is the set of the manager.\<close>

record server =
  sv_acceptor_open :: bool
  sv_accepting :: bool
  sv_signalled :: bool
  sv_connections :: "nat set"
  sv_live :: "nat \<rightharpoonup> connection"

definition server_new :: server where
  "server_new = \<lparr> sv_acceptor_open = True, sv_accepting = True, sv_signalled = False, sv_connections = {}, sv_live = Map.empty \<rparr>"

definition manager_start :: "nat \<Rightarrow> connection \<Rightarrow> server \<Rightarrow> server" where
  "manager_start i c s = s \<lparr> sv_connections := insert i (sv_connections s), sv_live := (sv_live s)(i \<mapsto> connection_start c) \<rparr>"

text \<open>Called by the last handler of the connection, which has no operation then.\<close>

definition manager_stop :: "nat \<Rightarrow> server \<Rightarrow> server" where
  "manager_stop i s = s \<lparr> sv_connections := sv_connections s - {i}, sv_live := (sv_live s)(i := None) \<rparr>"

definition manager_stop_all :: "server \<Rightarrow> server" where
  "manager_stop_all s =
     s \<lparr> sv_connections := {}, sv_live := (\<lambda>i. if i \<in> sv_connections s then map_option connection_stop (sv_live s i) else sv_live s i) \<rparr>"

definition after_handler :: "nat \<Rightarrow> handled \<Rightarrow> server \<Rightarrow> server" where
  "after_handler i h s =
     (case h of
        Continues c \<Rightarrow> s \<lparr> sv_live := (sv_live s)(i \<mapsto> c) \<rparr>
      | Stops \<Rightarrow> manager_stop i s
      | Ends \<Rightarrow> s \<lparr> sv_live := (sv_live s)(i := None) \<rparr>)"

definition accept_handler :: "(nat \<times> connection) option \<Rightarrow> server \<Rightarrow> server" where
  "accept_handler accepted s =
     (if \<not> sv_acceptor_open s then s \<lparr> sv_accepting := False \<rparr>
      else (case accepted of None \<Rightarrow> s | Some (i, c) \<Rightarrow> manager_start i c s) \<lparr> sv_accepting := True \<rparr>)"

definition stop_handler :: "server \<Rightarrow> server" where
  "stop_handler s = manager_stop_all (s \<lparr> sv_acceptor_open := False, sv_signalled := True \<rparr>)"

inductive server_step :: "(bytes \<Rightarrow> bytes option) \<Rightarrow> bytes \<Rightarrow> server \<Rightarrow> server \<Rightarrow> bool" for files doc_root where
  accept: "sv_accepting s \<Longrightarrow> i \<notin> dom (sv_live s) \<Longrightarrow> server_step files doc_root s (accept_handler (Some (i, connection_new a b st)) s)"
| accept_error: "sv_accepting s \<Longrightarrow> server_step files doc_root s (accept_handler None s)"
| complete: "sv_live s i = Some c \<Longrightarrow> cn_open c \<Longrightarrow> cn_result c = None \<Longrightarrow> ec \<noteq> operation_aborted \<Longrightarrow>
    server_step files doc_root s (s \<lparr> sv_live := (sv_live s)(i \<mapsto> c \<lparr> cn_result := Some (ec, data) \<rparr>) \<rparr>)"
| read: "sv_live s i = Some c \<Longrightarrow> cn_operation c = op_read \<Longrightarrow> cn_result c = Some (ec, data) \<Longrightarrow> read_handler files doc_root c ec data = Some h \<Longrightarrow>
    server_step files doc_root s (after_handler i h s)"
| written: "sv_live s i = Some c \<Longrightarrow> cn_operation c = op_write \<Longrightarrow> cn_result c = Some (ec, data) \<Longrightarrow>
    server_step files doc_root s (after_handler i (write_handler ec) s)"
| signal: "\<not> sv_signalled s \<Longrightarrow> server_step files doc_root s (stop_handler s)"

inductive reachable_server :: "(bytes \<Rightarrow> bytes option) \<Rightarrow> bytes \<Rightarrow> server \<Rightarrow> bool" for files doc_root where
  start: "reachable_server files doc_root server_new"
| step: "reachable_server files doc_root s \<Longrightarrow> server_step files doc_root s s' \<Longrightarrow> reachable_server files doc_root s'"

section \<open>Invariant\<close>

definition connection_ok :: "bool \<Rightarrow> connection \<Rightarrow> bool" where
  "connection_ok stopped c \<longleftrightarrow> cn_open c = (\<not> stopped) \<and> (cn_result c = None \<longrightarrow> cn_open c) \<and>
     (\<forall>data. cn_result c = Some (operation_aborted, data) \<longrightarrow> stopped)"

definition server_inv :: "server \<Rightarrow> bool" where
  "server_inv s \<longleftrightarrow> finite (dom (sv_live s)) \<and> (\<forall>i c. sv_live s i = Some c \<longrightarrow> connection_ok (sv_signalled s) c) \<and>
     sv_connections s = (if sv_signalled s then {} else dom (sv_live s)) \<and>
     sv_acceptor_open s = (\<not> sv_signalled s) \<and> (sv_signalled s \<or> sv_accepting s)"

lemma read_handler_continues:
  "read_handler files doc_root c ec data = Some (Continues c') \<Longrightarrow>
    ec = no_error \<and> cn_open c' = cn_open c \<and> cn_result c' = (if cn_open c then None else Some (other_error, []))"
  by (auto simp: read_handler_def do_read_def do_write_def start_operation_def Let_def split: if_splits Option.bind_splits)

lemma read_handler_ends: "read_handler files doc_root c ec data = Some Ends \<Longrightarrow> ec = operation_aborted"
  by (auto simp: read_handler_def Let_def split: if_splits Option.bind_splits)

lemma after_handler_inv:
  assumes "server_inv s" "sv_live s i = Some c" "h = Ends \<Longrightarrow> sv_signalled s"
    and "\<And>c'. h = Continues c' \<Longrightarrow> cn_open c' = cn_open c \<and> cn_result c' = (if cn_open c then None else Some (other_error, []))"
  shows "server_inv (after_handler i h s)"
proof (cases h)
  case (Continues c')
  have "connection_ok (sv_signalled s) c" using assms(1,2) by (simp add: server_inv_def)
  then have "connection_ok (sv_signalled s) c'" using assms(4) [OF Continues] by (auto simp: connection_ok_def)
  then show ?thesis using assms(1,2) Continues by (auto simp: server_inv_def after_handler_def)
next
  case Stops
  then show ?thesis using assms by (auto simp: server_inv_def after_handler_def manager_stop_def)
next
  case Ends
  then show ?thesis using assms by (auto simp: server_inv_def after_handler_def)
qed

lemma server_inv_step: "server_step files doc_root s s' \<Longrightarrow> server_inv s \<Longrightarrow> server_inv s'"
proof (induction rule: server_step.induct)
  case (accept s i a b st)
  have "connection_ok False (connection_start (connection_new a b st))"
    by (simp add: connection_ok_def connection_start_def connection_new_def do_read_def start_operation_def)
  with accept show ?case by (auto simp: server_inv_def accept_handler_def manager_start_def)
next
  case (accept_error s)
  then show ?case by (auto simp: server_inv_def accept_handler_def)
next
  case (complete s i c ec data)
  have "connection_ok (sv_signalled s) c" using complete by (simp add: server_inv_def)
  then have "connection_ok (sv_signalled s) (c \<lparr> cn_result := Some (ec, data) \<rparr>)" using complete.hyps(4) by (auto simp: connection_ok_def)
  then show ?case using complete by (auto simp: server_inv_def)
next
  case (read s i c ec data h)
  show ?case
  proof (rule after_handler_inv [OF read.prems read.hyps(1)])
    show "sv_signalled s" if "h = Ends"
    proof -
      have "ec = operation_aborted" using read.hyps(4) that read_handler_ends by blast
      then show ?thesis using read.prems read.hyps(1,3) unfolding server_inv_def connection_ok_def by blast
    qed
  qed (use read.hyps(4) read_handler_continues in blast)
next
  case (written s i c ec data)
  show ?case
  proof (rule after_handler_inv [OF written.prems written.hyps(1)])
    show "sv_signalled s" if "write_handler ec = Ends"
    proof -
      have "ec = operation_aborted" using that by (auto simp: write_handler_def split: if_splits)
      then show ?thesis using written.prems written.hyps(1,3) unfolding server_inv_def connection_ok_def by blast
    qed
  qed (auto simp: write_handler_def split: if_splits)
next
  case (signal s)
  have l: "sv_live (stop_handler s) i = map_option connection_stop (sv_live s i)" for i
    using signal by (cases "sv_live s i") (auto simp: server_inv_def stop_handler_def manager_stop_all_def domIff)
  then have "dom (sv_live (stop_handler s)) = dom (sv_live s)" by (auto simp: dom_def)
  moreover have "connection_ok True (connection_stop c)" if "sv_live s i = Some c" for i c
    using signal that by (auto simp: server_inv_def connection_ok_def connection_stop_def)
  moreover have "sv_signalled (stop_handler s)" "sv_connections (stop_handler s) = {}" "\<not> sv_acceptor_open (stop_handler s)"
    by (simp_all add: stop_handler_def manager_stop_all_def)
  ultimately show ?case using signal.prems l unfolding server_inv_def by auto
qed

lemma reachable_server_inv: "reachable_server files doc_root s \<Longrightarrow> server_inv s"
proof (induction rule: reachable_server.induct)
  case start
  show ?case by (simp add: server_inv_def server_new_def)
next
  case (step s s')
  then show ?case using server_inv_step by blast
qed

section \<open>Stopping\<close>

text \<open>What is still to be done after the signal: a handler that runs without an error can start one more operation.\<close>

definition connection_work :: "connection \<Rightarrow> nat" where
  "connection_work c = (if \<exists>data. cn_result c = Some (no_error, data) then 2 else 1)"

definition server_work :: "server \<Rightarrow> nat" where
  "server_work s = (\<Sum>i\<in>dom (sv_live s). connection_work (the (sv_live s i))) + (if sv_accepting s then 1 else 0)"

lemma server_work_update:
  assumes "server_inv s" "sv_live s i = Some c"
  shows "server_work (s \<lparr> sv_live := (sv_live s)(i \<mapsto> c') \<rparr>) + connection_work c = server_work s + connection_work c'"
    "server_work (s \<lparr> sv_live := (sv_live s)(i := None) \<rparr>) + connection_work c = server_work s"
proof -
  let ?w = "\<lambda>m i. connection_work (the (m i))"
  have f: "finite (dom (sv_live s))" "i \<in> dom (sv_live s)" using assms by (auto simp: server_inv_def)
  have r: "sum (?w (sv_live s)) (dom (sv_live s)) = connection_work c + sum (?w (sv_live s)) (dom (sv_live s) - {i})"
    using sum.remove [OF f, of "?w (sv_live s)"] assms(2) by simp
  have e: "sum (?w m) (dom (sv_live s) - {i}) = sum (?w (sv_live s)) (dom (sv_live s) - {i})" if "\<forall>j. j \<noteq> i \<longrightarrow> m j = sv_live s j" for m
    by (rule sum.cong) (use that in auto)
  have "sum (?w ((sv_live s)(i \<mapsto> c'))) (dom ((sv_live s)(i \<mapsto> c'))) = connection_work c' + sum (?w (sv_live s)) (dom (sv_live s) - {i})"
    using sum.remove [of "insert i (dom (sv_live s))" i "?w ((sv_live s)(i \<mapsto> c'))"] f e [of "(sv_live s)(i \<mapsto> c')"] by simp
  with r show "server_work (s \<lparr> sv_live := (sv_live s)(i \<mapsto> c') \<rparr>) + connection_work c = server_work s + connection_work c'" by (simp add: server_work_def)
  have "sum (?w ((sv_live s)(i := None))) (dom (sv_live s) - {i}) = sum (?w (sv_live s)) (dom (sv_live s) - {i})" by (rule e) simp
  with r show "server_work (s \<lparr> sv_live := (sv_live s)(i := None) \<rparr>) + connection_work c = server_work s" by (simp add: server_work_def)
qed

lemma after_handler_work:
  assumes "server_inv s" "sv_live s i = Some c" "sv_signalled s"
    and "\<And>c'. h = Continues c' \<Longrightarrow> connection_work c' < connection_work c"
  shows "server_work (after_handler i h s) < server_work s"
proof (cases h)
  case (Continues c')
  then show ?thesis using server_work_update(1) [OF assms(1,2), of c'] assms(4) by (simp add: after_handler_def)
next
  case Stops
  have "server_work (manager_stop i s) = server_work (s \<lparr> sv_live := (sv_live s)(i := None) \<rparr>)" by (simp add: server_work_def manager_stop_def)
  then show ?thesis using server_work_update(2) [OF assms(1,2)] Stops by (simp add: after_handler_def connection_work_def split: if_splits)
next
  case Ends
  then show ?thesis using server_work_update(2) [OF assms(1,2)] by (simp add: after_handler_def connection_work_def split: if_splits)
qed

lemma signalled_step:
  assumes "server_step files doc_root s s'" "server_inv s" "sv_signalled s"
  shows "server_work s' < server_work s \<and> sv_signalled s'"
  using assms
proof (induction rule: server_step.induct)
  case (accept s i a b st)
  then show ?case by (auto simp: server_inv_def accept_handler_def server_work_def)
next
  case (accept_error s)
  then show ?case by (auto simp: server_inv_def accept_handler_def server_work_def)
next
  case (complete s i c ec data)
  then show ?case by (auto simp: server_inv_def connection_ok_def)
next
  case (read s i c ec data h)
  have o: "\<not> cn_open c" using read by (simp add: server_inv_def connection_ok_def)
  have "connection_work c' < connection_work c" if "h = Continues c'" for c'
    using read_handler_continues [of files doc_root c ec data c'] read.hyps(3,4) that o by (simp add: connection_work_def)
  from after_handler_work [OF read.prems(1) read.hyps(1) read.prems(2) this] show ?case
    using read.prems(2) by (auto simp: after_handler_def manager_stop_def split: handled.splits)
next
  case (written s i c ec data)
  from after_handler_work [OF written.prems(1) written.hyps(1) written.prems(2), of "write_handler ec"] show ?case
    using written.prems(2) by (auto simp: after_handler_def manager_stop_def write_handler_def split: handled.splits if_splits)
qed simp

lemma work_bound: "server_work s \<le> 2 * card (dom (sv_live s)) + 1"
proof -
  have "(\<Sum>i\<in>dom (sv_live s). connection_work (the (sv_live s i))) \<le> of_nat (card (dom (sv_live s))) * 2"
    by (rule sum_bounded_above) (simp add: connection_work_def)
  then show ?thesis by (simp add: server_work_def)
qed

lemma signalled_steps:
  "(server_step files doc_root ^^ n) s s' \<Longrightarrow> server_inv s \<Longrightarrow> sv_signalled s \<Longrightarrow> n + server_work s' \<le> server_work s \<and> server_inv s' \<and> sv_signalled s'"
proof (induction n arbitrary: s')
  case (Suc n)
  then obtain t where t: "(server_step files doc_root ^^ n) s t" "server_step files doc_root t s'" by auto
  from Suc.IH [OF t(1) Suc.prems(2,3)] have i: "n + server_work t \<le> server_work s" "server_inv t" "sv_signalled t" by auto
  show ?case using signalled_step [OF t(2) i(2,3)] server_inv_step [OF t(2) i(2)] i(1) by simp
qed simp

text \<open>A connection whose queued input has a version number that overflows.\<close>

definition undefined_input :: "server \<Rightarrow> bool" where
  "undefined_input s \<longleftrightarrow> (\<exists>i c data. sv_live s i = Some c \<and> cn_operation c = op_read \<and> cn_result c = Some (no_error, data) \<and>
     parse (cn_parser c) (cn_request c) data = None)"

lemma signalled_stuck:
  assumes "server_inv s" "sv_signalled s" "\<nexists>s'. server_step files doc_root s s'"
  shows "sv_live s = Map.empty \<and> \<not> sv_accepting s \<or> undefined_input s"
proof (cases "sv_live s = Map.empty")
  case True
  then show ?thesis using assms(3) server_step.accept_error by blast
next
  case False
  then obtain i c where c: "sv_live s i = Some c" by (metis not_None_eq)
  have "connection_ok True c" using assms(1,2) c by (simp add: server_inv_def)
  then have "cn_result c \<noteq> None" unfolding connection_ok_def by blast
  then obtain ec data where r: "cn_result c = Some (ec, data)" by auto
  have op: "cn_operation c = op_read" using assms(3) server_step.written [OF c _ r] by (cases "cn_operation c") blast+
  have "read_handler files doc_root c ec data = None" using assms(3) server_step.read [OF c op r] by (cases "read_handler files doc_root c ec data") blast+
  then have "ec = no_error" "parse (cn_parser c) (cn_request c) data = None" by (auto simp: read_handler_def Let_def split: if_splits Option.bind_splits)
  then show ?thesis using c op r unfolding undefined_input_def by blast
qed

section \<open>Answering\<close>

text \<open>A connection that receives pieces of input, one per read, until it writes its reply.\<close>

fun receive :: "(bytes \<Rightarrow> bytes option) \<Rightarrow> bytes \<Rightarrow> connection \<Rightarrow> bytes list \<Rightarrow> connection option" where
  "receive files doc_root c [] = Some c"
| "receive files doc_root c (piece # pieces) =
     (if cn_operation c = op_write then Some c
      else case read_handler files doc_root c no_error piece of Some (Continues c) \<Rightarrow> receive files doc_root c pieces | _ \<Rightarrow> None)"

lemma receive_written: "cn_operation c = op_write \<Longrightarrow> receive files doc_root c pieces = Some c"
  by (cases pieces) auto

lemma receive_good:
  "parse (cn_parser c) (cn_request c) (concat pieces) = Some (good, st, req, []) \<Longrightarrow> cn_operation c = op_read \<Longrightarrow>
    \<exists>c'. receive files doc_root c pieces = Some c' \<and> cn_operation c' = op_write \<and> cn_reply c' = handle_request files doc_root req (cn_reply c)"
proof (induction pieces arbitrary: c)
  case (Cons piece pieces)
  show ?case
  proof (cases "parse (cn_parser c) (cn_request c) piece")
    case None
    then show ?thesis using Cons.prems by (simp add: parse_append)
  next
    case (Some t)
    obtain r st1 req1 ys where t: "t = (r, st1, req1, ys)" by (cases t)
    show ?thesis
    proof (cases "r = indeterminate")
      case True
      let ?c = "do_read (c \<lparr> cn_parser := st1, cn_request := req1 \<rparr>)"
      have "parse (cn_parser ?c) (cn_request ?c) (concat pieces) = Some (good, st, req, [])"
        using Cons.prems(1) Some t True by (simp add: parse_append do_read_def start_operation_def)
      from Cons.IH [OF this] show ?thesis using Some t True Cons.prems(2) by (auto simp: read_handler_def do_read_def start_operation_def)
    next
      case False
      then have "r = good" "req1 = req" using Cons.prems(1) Some t by (auto simp: parse_append)
      then show ?thesis using Some t Cons.prems(2) by (auto simp: read_handler_def do_write_def start_operation_def receive_written)
    qed
  qed
qed simp

section \<open>Properties\<close>

text \<open>
  C39: After the signal the server comes to its end. It takes at most two steps for every connection that
  is left and one for the acceptor, whatever the network does, and when no step is possible any more no connection and no accept
  is waiting, so that \<open>run\<close> returns; unless input that was already queued overflows a version number.
  Until the signal exactly the connections of the manager wait for an operation: none is lost.
\<close>

theorem server_stops:
  assumes "reachable_server files doc_root s"
  shows "if sv_signalled s
    then (\<forall>n s'. (server_step files doc_root ^^ n) s s' \<longrightarrow> n \<le> 2 * card (dom (sv_live s)) + 1 \<and>
      ((\<exists>s''. server_step files doc_root s' s'') \<or> sv_live s' = Map.empty \<and> \<not> sv_accepting s' \<or> undefined_input s'))
    else sv_connections s = dom (sv_live s) \<and> (\<forall>i c. sv_live s i = Some c \<longrightarrow> cn_open c)"
proof -
  have inv: "server_inv s" using reachable_server_inv [OF assms] .
  show ?thesis
  proof (cases "sv_signalled s")
    case True
    have "n \<le> 2 * card (dom (sv_live s)) + 1 \<and> ((\<exists>s''. server_step files doc_root s' s'') \<or> sv_live s' = Map.empty \<and> \<not> sv_accepting s' \<or> undefined_input s')"
      if "(server_step files doc_root ^^ n) s s'" for n s'
      using signalled_steps [OF that inv True] work_bound [of s] signalled_stuck [of s' files doc_root] by (meson add_leD1 order.trans)
    then show ?thesis using True by simp
  next
    case False
    then show ?thesis using inv by (auto simp: server_inv_def connection_ok_def)
  qed
qed

theorem server_stops_witness:
  "\<exists>s. reachable_server (\<lambda>_. None) [] s \<and> sv_signalled s \<and> dom (sv_live s) = {7} \<and>
    (\<forall>n s'. (server_step (\<lambda>_. None) [] ^^ n) s s' \<longrightarrow> n \<le> 3)"
proof -
  let ?s1 = "accept_handler (Some (7, connection_new 0 0 rs_ok)) server_new"
  have r1: "reachable_server (\<lambda>_. None) [] ?s1"
    by (rule reachable_server.step [OF reachable_server.start], rule server_step.accept) (simp_all add: server_new_def)
  have r2: "reachable_server (\<lambda>_. None) [] (stop_handler ?s1)"
    by (rule reachable_server.step [OF r1], rule server_step.signal) (simp add: accept_handler_def manager_start_def server_new_def)
  have s: "sv_signalled (stop_handler ?s1)" by (simp add: stop_handler_def manager_stop_all_def)
  have d: "dom (sv_live (stop_handler ?s1)) = {7}"
    by (auto simp: stop_handler_def manager_stop_all_def accept_handler_def manager_start_def server_new_def split: if_splits)
  show ?thesis using server_stops [OF r2] s d r2 by (intro exI [of _ "stop_handler ?s1"]) auto
qed

text \<open>
  C40: A connection answers the request it gets, in whatever pieces the network delivers it: when the
  pieces together are the text of a request, the connection comes to write the reply of the handler to
  that request.
\<close>

theorem connection_answers:
  assumes "request_text (concat pieces) req"
  shows "\<exists>c. receive files doc_root (connection_start (connection_new a b s)) pieces = Some c \<and> cn_operation c = op_write \<and>
    cn_reply c = handle_request files doc_root req (reply_new s)"
proof -
  have "parse method_start (request_new a b) (concat pieces) = Some (good, expecting_newline_3, req, [])"
    using parse_request_text [OF assms, of a b "[]"] by simp
  then show ?thesis
    using receive_good [of "connection_start (connection_new a b s)" pieces expecting_newline_3 req files doc_root]
    by (simp add: connection_start_def connection_new_def do_read_def start_operation_def)
qed

theorem connection_answers_witness:
  "\<exists>c. receive (\<lambda>_. Some [5]) (str ''/srv'') (connection_start (connection_new 3 4 rs_ok)) [str ''GE'', str ''T /a HTTP'', str ''/1.0'' @ crlf @ crlf] = Some c \<and>
    cn_operation c = op_write \<and> rp_content (cn_reply c) = [5]"
proof -
  let ?req = "\<lparr> rq_method = str ''GET'', rq_uri = str ''/a'', rq_http_version_major = 1, rq_http_version_minor = 0, rq_headers = [] \<rparr>"
  let ?pieces = "[str ''GE'', str ''T /a HTTP'', str ''/1.0'' @ crlf @ crlf]"
  have "concat ?pieces = str ''GET'' @ [32] @ str ''/a'' @ [32] @ str ''HTTP/'' @ str ''1'' @ [46] @ str ''0'' @ [13, 10] @ [] @ [13, 10]" by code_simp
  moreover have "str ''GET'' \<noteq> []" "list_all token_char (str ''GET'')" "list_all (\<lambda>c. c \<noteq> 32 \<and> vchar c) (str ''/a'')" "str ''1'' \<noteq> []" "list_all is_digit (str ''1'')"
    "version_of 0 (str ''1'') = Some 1" "str ''0'' \<noteq> []" "list_all is_digit (str ''0'')" "version_of 0 (str ''0'') = Some 0" by code_simp+
  ultimately have "request_text (concat ?pieces) ?req" unfolding request_text_def
    using header_lines.no_line [of "[]"] by (intro exI [of _ "str ''1''"] exI [of _ "str ''0''"] exI [of _ "[]"]) simp
  from connection_answers [OF this, of "\<lambda>_. Some [5]" "str ''/srv''" 3 4 rs_ok] obtain c where c:
    "receive (\<lambda>_. Some [5]) (str ''/srv'') (connection_start (connection_new 3 4 rs_ok)) ?pieces = Some c" "cn_operation c = op_write"
    "cn_reply c = handle_request (\<lambda>_. Some [5]) (str ''/srv'') ?req (reply_new rs_ok)" by blast
  have "request_path ?req \<noteq> None" by code_simp
  then have "rp_content (handle_request (\<lambda>_. Some [5]) (str ''/srv'') ?req (reply_new rs_ok)) = [5]" by (auto simp: handle_request_cases)
  with c show ?thesis by metis
qed

end
