(* ===== verification/Comparator.thy ===== *)
theory Comparator
  imports Status
begin

text \<open>
  \<^verbatim>\<open>kv/include/comparator.h\<close> and \<^verbatim>\<open>kv/util/comparator.cpp\<close>. The abstract class \<open>Comparator\<close>
  is a record of its virtual functions; what its comments promise is the locale
  \<open>comparator\<close>, and the byte-wise comparator the library ships is an interpretation.
\<close>

record Comparator =
  cmp_Name :: string
  cmp_Compare :: "bytes \<Rightarrow> bytes \<Rightarrow> int"
  cmp_FindShortestSeparator :: "bytes \<Rightarrow> bytes \<Rightarrow> bytes"
  cmp_FindShortSuccessor :: "bytes \<Rightarrow> bytes"

section \<open>The byte-wise comparator\<close>

text \<open>\<open>diff_byte + 1\<close> is computed in \<open>int\<close>, so it does not wrap.\<close>

definition Bytewise_FindShortestSeparator :: "bytes \<Rightarrow> bytes \<Rightarrow> bytes" where
  "Bytewise_FindShortestSeparator start limit =
     (let min_length = min (length start) (length limit);
          diff_index = common_prefix_len start limit
      in if min_length \<le> diff_index then start
         else (let diff_byte = start ! diff_index in
               if diff_byte < 0xff \<and> uint diff_byte + 1 < uint (limit ! diff_index)
               then take (diff_index + 1) (start [diff_index := start ! diff_index + 1])
               else start))"

fun Bytewise_FindShortSuccessor :: "bytes \<Rightarrow> bytes" where
  "Bytewise_FindShortSuccessor [] = []"
| "Bytewise_FindShortSuccessor (b # bs) =
     (if b \<noteq> 0xff then [b + 1] else b # Bytewise_FindShortSuccessor bs)"

definition BytewiseComparator :: Comparator where
  "BytewiseComparator =
     \<lparr> cmp_Name = ''QuasDB.BytewiseComparator'',
       cmp_Compare = Slice_compare,
       cmp_FindShortestSeparator = Bytewise_FindShortestSeparator,
       cmp_FindShortSuccessor = Bytewise_FindShortSuccessor \<rparr>"

section \<open>What a comparator promises\<close>

text \<open>
  A three-way comparison that is a total (pre)order on the valid keys. The containers
  that are generic in their comparison rest on this locale only.
\<close>

locale compare_order =
  fixes compare :: "'k \<Rightarrow> 'k \<Rightarrow> int" and valid :: "'k \<Rightarrow> bool"
  assumes cmp_refl: "valid a \<Longrightarrow> compare a a = 0"
    and cmp_swap: "valid a \<Longrightarrow> valid b \<Longrightarrow> compare a b < 0 \<longleftrightarrow> 0 < compare b a"
    and cmp_trans: "valid a \<Longrightarrow> valid b \<Longrightarrow> valid c \<Longrightarrow>
      compare a b \<le> 0 \<Longrightarrow> compare b c \<le> 0 \<Longrightarrow> compare a c \<le> 0"
begin

lemma cmp_eq_sym: "valid a \<Longrightarrow> valid b \<Longrightarrow> compare a b = 0 \<longleftrightarrow> compare b a = 0"
  using cmp_swap [of a b] cmp_swap [of b a] by linarith

lemma cmp_le_swap: "valid a \<Longrightarrow> valid b \<Longrightarrow> compare a b \<le> 0 \<longleftrightarrow> 0 \<le> compare b a"
  using cmp_swap [of a b] cmp_swap [of b a] by linarith

lemma lt_le_trans:
  assumes "valid a" "valid b" "valid c" "compare a b < 0" "compare b c \<le> 0"
  shows "compare a c < 0"
proof (rule ccontr)
  assume "\<not> compare a c < 0"
  then have "compare c a \<le> 0" using assms cmp_le_swap [of c a] by simp
  then have "compare b a \<le> 0" using assms cmp_trans [of b c a] by blast
  then show False using assms cmp_swap [of a b] by simp
qed

lemma le_lt_trans:
  assumes "valid a" "valid b" "valid c" "compare a b \<le> 0" "compare b c < 0"
  shows "compare a c < 0"
proof (rule ccontr)
  assume "\<not> compare a c < 0"
  then have "compare c a \<le> 0" using assms cmp_le_swap [of c a] by simp
  then have "compare c b \<le> 0" using assms cmp_trans [of c a b] by blast
  then show False using assms cmp_swap [of b c] by simp
qed

lemma lt_trans:
  "valid a \<Longrightarrow> valid b \<Longrightarrow> valid c \<Longrightarrow> compare a b < 0 \<Longrightarrow> compare b c < 0 \<Longrightarrow> compare a c < 0"
  using lt_le_trans [of a b c] by simp

lemma lt_irrefl: "valid a \<Longrightarrow> \<not> compare a a < 0"
  by (simp add: cmp_refl)

end

text \<open>
  The whole class: a separator of \<open>start < limit\<close> lies in \<open>[start, limit)\<close>, \<open>start\<close> is not
  changed otherwise, and a successor is not below its key.
\<close>

locale comparator = compare_order "cmp_Compare c" valid
  for c :: Comparator and valid :: "bytes \<Rightarrow> bool" +
  assumes sep_between: "valid s \<Longrightarrow> valid l \<Longrightarrow> cmp_Compare c s l < 0 \<Longrightarrow>
      valid (cmp_FindShortestSeparator c s l) \<and>
      cmp_Compare c s (cmp_FindShortestSeparator c s l) \<le> 0 \<and>
      cmp_Compare c (cmp_FindShortestSeparator c s l) l < 0"
    and sep_unchanged: "valid s \<Longrightarrow> valid l \<Longrightarrow> 0 \<le> cmp_Compare c s l \<Longrightarrow>
      cmp_FindShortestSeparator c s l = s"
    and succ_ge: "valid k \<Longrightarrow> valid (cmp_FindShortSuccessor c k) \<and>
      cmp_Compare c k (cmp_FindShortSuccessor c k) \<le> 0"

section \<open>The byte-wise comparator keeps the promise\<close>

lemma common_prefix_split:
  assumes "common_prefix_len s l < length s" "common_prefix_len s l < length l"
  obtains p x s' y l' where "s = p @ x # s'" "l = p @ y # l'" "x \<noteq> y"
    "common_prefix_len s l = length p"
proof
  let ?n = "common_prefix_len s l"
  show "s = take ?n s @ s ! ?n # drop (Suc ?n) s" using assms(1) by (rule id_take_nth_drop)
  show "l = take ?n s @ l ! ?n # drop (Suc ?n) l"
    unfolding take_common_prefix_len using assms(2) by (rule id_take_nth_drop)
  show "s ! ?n \<noteq> l ! ?n" using assms by (rule common_prefix_len_diff)
  show "?n = length (take ?n s)" using assms by simp
qed

lemma append_less_append: "(p @ xs :: bytes) < p @ ys \<longleftrightarrow> xs < ys"
  by (induction p) auto

lemma byte_inc:
  fixes x y :: byte
  assumes "uint x + 1 < uint y"
  shows "x < x + 1" "x + 1 < y"
proof -
  have "uint y < 2 ^ 8" using unsigned_less [of y, where 'a = int] by simp
  with assms have "uint (x + 1) = uint x + 1" by (simp add: uint_word_ariths)
  with assms show "x < x + 1" "x + 1 < y" by (simp_all add: word_less_def)
qed

lemma Bytewise_sep_between:
  assumes "s < l"
  shows "s \<le> Bytewise_FindShortestSeparator s l \<and> Bytewise_FindShortestSeparator s l < l"
proof (cases "min (length s) (length l) \<le> common_prefix_len s l")
  case True
  with assms show ?thesis by (simp add: Bytewise_FindShortestSeparator_def)
next
  case False
  then obtain p x s' y l' where d: "s = p @ x # s'" "l = p @ y # l'" "x \<noteq> y"
    "common_prefix_len s l = length p"
    by (auto intro: common_prefix_split simp: not_le)
  show ?thesis
  proof (cases "x < 0xff \<and> uint x + 1 < uint y")
    case True
    then have "Bytewise_FindShortestSeparator s l = p @ [x + 1]"
      using False d by (simp add: Bytewise_FindShortestSeparator_def list_update_append)
    with True byte_inc [of x y] show ?thesis
      by (simp add: d append_less_append less_imp_le)
  next
    case noinc: False
    then have "Bytewise_FindShortestSeparator s l = s"
      using False d by (auto simp: Bytewise_FindShortestSeparator_def Let_def)
    with assms show ?thesis by simp
  qed
qed

lemma Bytewise_sep_unchanged:
  assumes "l \<le> s"
  shows "Bytewise_FindShortestSeparator s l = s"
proof (cases "min (length s) (length l) \<le> common_prefix_len s l")
  case True
  then show ?thesis by (simp add: Bytewise_FindShortestSeparator_def)
next
  case False
  then obtain p x s' y l' where d: "s = p @ x # s'" "l = p @ y # l'" "x \<noteq> y"
    "common_prefix_len s l = length p"
    by (auto intro: common_prefix_split simp: not_le)
  have "\<not> x < y" using assms d by (auto simp: append_less_append not_less [symmetric])
  then have "\<not> uint x + 1 < uint y" using byte_inc [of x y] by (metis less_trans)
  then show ?thesis
    using False d by (auto simp: Bytewise_FindShortestSeparator_def Let_def)
qed

lemma byte_succ:
  fixes b :: byte
  assumes "b \<noteq> 0xff"
  shows "b < b + 1"
proof -
  have "unat b \<noteq> unat (0xff :: byte)" using assms by (simp add: word_unat_eq_iff)
  with unat_less_exp [of b] have "unat b + 1 < 256" by simp
  then show ?thesis by (simp add: word_less_nat_alt unat_word_ariths)
qed

lemma Bytewise_succ_ge: "k \<le> Bytewise_FindShortSuccessor k"
  by (induction k rule: Bytewise_FindShortSuccessor.induct) (auto simp: less_imp_le byte_succ)

interpretation bytewise: comparator BytewiseComparator "\<lambda>_. True"
proof unfold_locales
  fix s l :: bytes
  show "cmp_Compare BytewiseComparator s l < 0 \<Longrightarrow>
      True \<and> cmp_Compare BytewiseComparator s (cmp_FindShortestSeparator BytewiseComparator s l) \<le> 0 \<and>
      cmp_Compare BytewiseComparator (cmp_FindShortestSeparator BytewiseComparator s l) l < 0"
    using Bytewise_sep_between [of s l]
    by (auto simp: BytewiseComparator_def Slice_compare_eq split: if_splits)
  show "0 \<le> cmp_Compare BytewiseComparator s l \<Longrightarrow>
      cmp_FindShortestSeparator BytewiseComparator s l = s"
    using Bytewise_sep_unchanged [of l s]
    by (auto simp: BytewiseComparator_def Slice_compare_eq split: if_splits)
  show "True \<and> cmp_Compare BytewiseComparator s (cmp_FindShortSuccessor BytewiseComparator s) \<le> 0"
    using Bytewise_succ_ge [of s]
    by (auto simp: BytewiseComparator_def Slice_compare_eq)
qed (auto simp: BytewiseComparator_def Slice_compare_eq split: if_splits)

section \<open>Properties\<close>

text \<open>
  For \<open>start < limit\<close> the byte-wise separator is a string in \<open>[start, limit)\<close> that is not
  longer than \<open>start\<close>, and the short successor is not below its key and not longer; otherwise
  \<open>start\<close> is left alone. No increment wraps around.
\<close>

lemma Bytewise_separators:
  "(if start < limit
    then start \<le> Bytewise_FindShortestSeparator start limit \<and>
      Bytewise_FindShortestSeparator start limit < limit
    else Bytewise_FindShortestSeparator start limit = start) \<and>
   length (Bytewise_FindShortestSeparator start limit) \<le> length start \<and>
   key \<le> Bytewise_FindShortSuccessor key \<and>
   length (Bytewise_FindShortSuccessor key) \<le> length key"
proof (intro conjI)
  show "length (Bytewise_FindShortestSeparator start limit) \<le> length start"
    by (auto simp: Bytewise_FindShortestSeparator_def Let_def not_le)
  show "length (Bytewise_FindShortSuccessor key) \<le> length key"
    by (induction key rule: Bytewise_FindShortSuccessor.induct) auto
  show "if start < limit then start \<le> Bytewise_FindShortestSeparator start limit \<and>
      Bytewise_FindShortestSeparator start limit < limit
    else Bytewise_FindShortestSeparator start limit = start"
    by (simp add: Bytewise_sep_between Bytewise_sep_unchanged not_less)
qed (rule Bytewise_succ_ge)

end
