(* ===== verification/DBFormat.thy ===== *)
theory DBFormat
  imports Comparator
begin

text \<open>
  \<^verbatim>\<open>kv/db/dbformat.{h,cpp}\<close>: internal keys (a user key followed by eight bytes that pack the
  sequence number and the value type), their comparator and the lookup key. The abstract
  order of internal keys is the type \<open>ikey\<close> with its \<open>linorder\<close> instance.
\<close>

section \<open>Configuration constants\<close>

definition kNumLevels :: nat where "kNumLevels = 7"

definition kL0_CompactionTrigger :: nat where "kL0_CompactionTrigger = 4"

definition kL0_SlowdownWritesTrigger :: nat where "kL0_SlowdownWritesTrigger = 8"

definition kL0_StopWritesTrigger :: nat where "kL0_StopWritesTrigger = 12"

definition kMaxMemCompactLevel :: nat where "kMaxMemCompactLevel = 2"

section \<open>Internal keys\<close>

datatype ValueType = kTypeDeletion | kTypeValue

fun ValueType_num :: "ValueType \<Rightarrow> u64" where
  "ValueType_num kTypeDeletion = 0"
| "ValueType_num kTypeValue = 1"

definition kValueTypeForSeek :: ValueType where "kValueTypeForSeek = kTypeValue"

definition kMaxSequenceNumber :: u64 where "kMaxSequenceNumber = push_bit 56 1 - 1"

record ParsedInternalKey =
  pik_user_key :: bytes
  pik_sequence :: u64
  pik_type :: ValueType

definition InternalKeyEncodingLength :: "ParsedInternalKey \<Rightarrow> nat" where
  "InternalKeyEncodingLength key = length (pik_user_key key) + 8"

definition PackSequenceAndType :: "u64 \<Rightarrow> ValueType \<Rightarrow> u64" where
  "PackSequenceAndType seq t = push_bit 8 seq OR ValueType_num t"

definition AppendInternalKey :: "bytes \<Rightarrow> ParsedInternalKey \<Rightarrow> bytes" where
  "AppendInternalKey result key =
     PutFixed64 (result @ pik_user_key key) (PackSequenceAndType (pik_sequence key) (pik_type key))"

definition ExtractUserKey :: "bytes \<Rightarrow> bytes" where
  "ExtractUserKey internal_key = take (length internal_key - 8) internal_key"

text \<open>
  A false result of \<open>ParseInternalKey\<close> leaves its output undefined, so it is \<open>None\<close>.
\<close>

definition ParseInternalKey :: "bytes \<Rightarrow> ParsedInternalKey option" where
  "ParseInternalKey internal_key =
     (let n = length internal_key in
      if n < 8 then None
      else (let num = DecodeFixed64 (drop (n - 8) internal_key);
                c = ucast num :: byte;
                parsed = \<lparr> pik_user_key = take (n - 8) internal_key, pik_sequence = drop_bit 8 num,
                           pik_type = (if c = 0 then kTypeDeletion else kTypeValue) \<rparr>
            in if c \<le> ucast (ValueType_num kTypeValue) then Some parsed else None))"

text \<open>The eight-byte tag at the end of an internal key.\<close>

definition ikey_tag :: "bytes \<Rightarrow> u64" where
  "ikey_tag k = DecodeFixed64 (drop (length k - 8) k)"

section \<open>The comparator of internal keys\<close>

definition InternalKey_Compare :: "Comparator \<Rightarrow> bytes \<Rightarrow> bytes \<Rightarrow> int" where
  "InternalKey_Compare user_comparator akey bkey =
     (let r = cmp_Compare user_comparator (ExtractUserKey akey) (ExtractUserKey bkey) in
      if r = 0
      then (let anum = DecodeFixed64 (drop (length akey - 8) akey);
                bnum = DecodeFixed64 (drop (length bkey - 8) bkey)
            in if bnum < anum then -1 else if anum < bnum then 1 else r)
      else r)"

definition InternalKey_FindShortestSeparator :: "Comparator \<Rightarrow> bytes \<Rightarrow> bytes \<Rightarrow> bytes" where
  "InternalKey_FindShortestSeparator user_comparator start limit =
     (let user_start = ExtractUserKey start;
          user_limit = ExtractUserKey limit;
          tmp = cmp_FindShortestSeparator user_comparator user_start user_limit
      in if length tmp < length user_start \<and> cmp_Compare user_comparator user_start tmp < 0
         then PutFixed64 tmp (PackSequenceAndType kMaxSequenceNumber kValueTypeForSeek)
         else start)"

definition InternalKey_FindShortSuccessor :: "Comparator \<Rightarrow> bytes \<Rightarrow> bytes" where
  "InternalKey_FindShortSuccessor user_comparator key =
     (let user_key = ExtractUserKey key;
          tmp = cmp_FindShortSuccessor user_comparator user_key
      in if length tmp < length user_key \<and> cmp_Compare user_comparator user_key tmp < 0
         then PutFixed64 tmp (PackSequenceAndType kMaxSequenceNumber kValueTypeForSeek)
         else key)"

definition InternalKeyComparator :: "Comparator \<Rightarrow> Comparator" where
  "InternalKeyComparator c =
     \<lparr> cmp_Name = ''QuasDB.InternalKeyComparator'',
       cmp_Compare = InternalKey_Compare c,
       cmp_FindShortestSeparator = InternalKey_FindShortestSeparator c,
       cmp_FindShortSuccessor = InternalKey_FindShortSuccessor c \<rparr>"

section \<open>The classes InternalKey and LookupKey\<close>

record InternalKey =
  InternalKey_rep :: bytes

definition InternalKey_new :: "bytes \<Rightarrow> u64 \<Rightarrow> ValueType \<Rightarrow> InternalKey" where
  "InternalKey_new user_key s t =
     \<lparr> InternalKey_rep = AppendInternalKey [] \<lparr> pik_user_key = user_key, pik_sequence = s, pik_type = t \<rparr> \<rparr>"

definition InternalKey_DecodeFrom :: "bytes \<Rightarrow> InternalKey \<times> bool" where
  "InternalKey_DecodeFrom s = (\<lparr> InternalKey_rep = s \<rparr>, s \<noteq> [])"

definition InternalKey_Encode :: "InternalKey \<Rightarrow> bytes" where
  "InternalKey_Encode k = InternalKey_rep k"

definition InternalKey_user_key :: "InternalKey \<Rightarrow> bytes" where
  "InternalKey_user_key k = ExtractUserKey (InternalKey_rep k)"

definition InternalKey_SetFrom :: "ParsedInternalKey \<Rightarrow> InternalKey" where
  "InternalKey_SetFrom p = \<lparr> InternalKey_rep = AppendInternalKey [] p \<rparr>"

text \<open>The array \<open>[start_, end_)\<close> and the offset of \<open>kstart_\<close> in it.\<close>

record LookupKey =
  lk_array :: bytes
  lk_kstart :: nat

definition LookupKey_new :: "bytes \<Rightarrow> u64 \<Rightarrow> LookupKey" where
  "LookupKey_new user_key s =
     (let usize = length user_key;
          dst = EncodeVarint32 (word_of_nat (usize + 8));
          kstart = length dst;
          dst = dst @ user_key;
          dst = dst @ EncodeFixed64 (PackSequenceAndType s kValueTypeForSeek)
      in \<lparr> lk_array = dst, lk_kstart = kstart \<rparr>)"

definition lk_memtable_key :: "LookupKey \<Rightarrow> bytes" where
  "lk_memtable_key k = lk_array k"

definition lk_internal_key :: "LookupKey \<Rightarrow> bytes" where
  "lk_internal_key k = drop (lk_kstart k) (lk_array k)"

definition lk_user_key :: "LookupKey \<Rightarrow> bytes" where
  "lk_user_key k = take (length (lk_array k) - lk_kstart k - 8) (drop (lk_kstart k) (lk_array k))"

section \<open>The abstract order\<close>

datatype ikey = IKey (ik_user: bytes) (ik_tag: u64)

instantiation ikey :: linorder
begin

definition less_eq_ikey :: "ikey \<Rightarrow> ikey \<Rightarrow> bool" where
  "less_eq_ikey a b \<longleftrightarrow> ik_user a < ik_user b \<or> (ik_user a = ik_user b \<and> ik_tag b \<le> ik_tag a)"

definition less_ikey :: "ikey \<Rightarrow> ikey \<Rightarrow> bool" where
  "less_ikey a b \<longleftrightarrow> ik_user a < ik_user b \<or> (ik_user a = ik_user b \<and> ik_tag b < ik_tag a)"

instance
proof
  fix x y z :: ikey
  show "x < y \<longleftrightarrow> x \<le> y \<and> \<not> y \<le> x" by (auto simp: less_eq_ikey_def less_ikey_def)
  show "x \<le> x" by (simp add: less_eq_ikey_def)
  show "x \<le> y \<Longrightarrow> y \<le> z \<Longrightarrow> x \<le> z" by (auto simp: less_eq_ikey_def)
  show "x \<le> y \<Longrightarrow> y \<le> x \<Longrightarrow> x = y" by (auto simp: less_eq_ikey_def ikey.expand)
  show "x \<le> y \<or> y \<le> x" by (auto simp: less_eq_ikey_def)
qed

end

definition ikey_of :: "bytes \<Rightarrow> ikey" where
  "ikey_of k = IKey (ExtractUserKey k) (ikey_tag k)"

section \<open>Lemmas\<close>

lemma ExtractUserKey_append [simp]: "length t = 8 \<Longrightarrow> ExtractUserKey (u @ t) = u"
  by (simp add: ExtractUserKey_def)

lemma ikey_tag_append [simp]: "length t = 8 \<Longrightarrow> ikey_tag (u @ t) = DecodeFixed64 t"
  by (simp add: ikey_tag_def)

lemma AppendInternalKey_eq:
  "AppendInternalKey [] p =
    pik_user_key p @ EncodeFixed64 (PackSequenceAndType (pik_sequence p) (pik_type p))"
  by (simp add: AppendInternalKey_def PutFixed64_def)

lemma kMaxSequenceNumber_val: "kMaxSequenceNumber = 72057594037927935"
  by (simp add: kMaxSequenceNumber_def)

lemma seq_fits:
  assumes "s \<le> kMaxSequenceNumber"
  shows "take_bit 56 s = s"
  using assms
  by (simp add: kMaxSequenceNumber_val word_unat_eq_iff unsigned_take_bit_eq take_bit_nat_eq_self
      word_le_nat_alt)

lemma Pack_type: "(ucast (PackSequenceAndType s t) :: byte) = ucast (ValueType_num t)"
  by (rule bit_word_eqI) (auto simp: PackSequenceAndType_def bit_simps)

lemma Pack_seq:
  assumes "s \<le> kMaxSequenceNumber"
  shows "drop_bit 8 (PackSequenceAndType s t) = s"
proof -
  have "drop_bit 8 (push_bit 8 s OR ValueType_num t) = take_bit 56 s"
    by (cases t; rule bit_word_eqI) (auto simp: bit_simps bit_1_iff)
  then show ?thesis using seq_fits [OF assms] by (simp add: PackSequenceAndType_def)
qed

lemma unat_Pack:
  assumes "s \<le> kMaxSequenceNumber"
  shows "unat (PackSequenceAndType s t) = 256 * unat s + unat (ValueType_num t)"
proof -
  let ?x = "PackSequenceAndType s t"
  have "unat ?x = 256 * (unat ?x div 2 ^ 8) + unat ?x mod 256" by simp
  also have "unat ?x div 2 ^ 8 = unat s"
    using Pack_seq [OF assms, of t] by (metis unat_drop_bit)
  also have "unat ?x mod 256 = unat (ucast ?x :: byte)"
    by (simp add: unsigned_ucast_eq take_bit_eq_mod)
  also have "\<dots> = unat (ValueType_num t)"
    by (cases t) (simp_all add: Pack_type)
  finally show ?thesis .
qed

lemma Pack_le_iff:
  assumes "s \<le> kMaxSequenceNumber" "q \<le> kMaxSequenceNumber"
  shows "PackSequenceAndType q t \<le> PackSequenceAndType s kTypeValue \<longleftrightarrow> q \<le> s"
  using assms by (cases t) (auto simp: word_le_nat_alt unat_Pack)

lemma ParseInternalKey_AppendInternalKey:
  assumes "pik_sequence p \<le> kMaxSequenceNumber"
  shows "ParseInternalKey (AppendInternalKey [] p) = Some p"
  using assms
  by (cases "pik_type p") (simp_all add: ParseInternalKey_def AppendInternalKey_eq Let_def Pack_type Pack_seq)

lemma InternalKey_Compare_eq:
  "InternalKey_Compare c a b =
     (let r = cmp_Compare c (ExtractUserKey a) (ExtractUserKey b) in
      if r = 0 then (if ikey_tag b < ikey_tag a then -1 else if ikey_tag a < ikey_tag b then 1 else 0)
      else r)"
  by (simp add: InternalKey_Compare_def ikey_tag_def Let_def)

text \<open>An internal key comparator over any lawful user comparator is lawful again.\<close>

context comparator
begin

lemma internal_sep:
  assumes "valid (ExtractUserKey s)" "valid (ExtractUserKey l)" "8 \<le> length s"
    and lt: "InternalKey_Compare c s l < 0"
  shows "let t = InternalKey_FindShortestSeparator c s l in
    8 \<le> length t \<and> valid (ExtractUserKey t) \<and> InternalKey_Compare c s t \<le> 0 \<and> InternalKey_Compare c t l < 0"
proof -
  let ?us = "ExtractUserKey s" and ?ul = "ExtractUserKey l"
  let ?tmp = "cmp_FindShortestSeparator c ?us ?ul"
  show ?thesis
  proof (cases "length ?tmp < length ?us \<and> cmp_Compare c ?us ?tmp < 0")
    case True
    then have "cmp_Compare c ?us ?ul < 0"
      using assms sep_unchanged [of ?us ?ul] by (cases "cmp_Compare c ?us ?ul < 0") auto
    with sep_between [of ?us ?ul] assms True show ?thesis
      by (simp add: InternalKey_FindShortestSeparator_def Let_def PutFixed64_def InternalKey_Compare_eq)
  next
    case False
    then have "InternalKey_FindShortestSeparator c s l = s"
      by (auto simp: InternalKey_FindShortestSeparator_def Let_def)
    with assms show ?thesis by (simp add: InternalKey_Compare_eq cmp_refl)
  qed
qed

lemma internal_succ:
  assumes "valid (ExtractUserKey k)" "8 \<le> length k"
  shows "let t = InternalKey_FindShortSuccessor c k in
    8 \<le> length t \<and> valid (ExtractUserKey t) \<and> InternalKey_Compare c k t \<le> 0"
  using assms succ_ge [of "ExtractUserKey k"]
  by (auto simp: InternalKey_FindShortSuccessor_def Let_def PutFixed64_def InternalKey_Compare_eq cmp_refl)

lemma internal_sep_unchanged:
  assumes "valid (ExtractUserKey s)" "valid (ExtractUserKey l)"
    and ge: "0 \<le> InternalKey_Compare c s l"
  shows "InternalKey_FindShortestSeparator c s l = s"
proof -
  have "0 \<le> cmp_Compare c (ExtractUserKey s) (ExtractUserKey l)"
    using ge by (auto simp: InternalKey_Compare_eq Let_def split: if_splits)
  then show ?thesis
    using sep_unchanged [OF assms(1,2)] assms(1)
    by (simp add: InternalKey_FindShortestSeparator_def Let_def)
qed

lemma internal_trans:
  assumes "valid (ExtractUserKey a)" "valid (ExtractUserKey b)" "valid (ExtractUserKey d)"
    and "InternalKey_Compare c a b \<le> 0" "InternalKey_Compare c b d \<le> 0"
  shows "InternalKey_Compare c a d \<le> 0"
proof -
  let ?c = "\<lambda>x y. cmp_Compare c (ExtractUserKey x) (ExtractUserKey y)"
  have le: "?c a b \<le> 0" "?c b d \<le> 0"
    using assms(4,5) by (auto simp: InternalKey_Compare_eq Let_def split: if_splits)
  then have ad: "?c a d \<le> 0" using assms cmp_trans by blast
  show ?thesis
  proof (cases "?c a d = 0")
    case True
    then have "?c a b = 0" "?c b d = 0"
      using le assms lt_le_trans [of "ExtractUserKey a" "ExtractUserKey b" "ExtractUserKey d"]
        le_lt_trans [of "ExtractUserKey a" "ExtractUserKey b" "ExtractUserKey d"] by force+
    with True assms(4,5) show ?thesis by (auto simp: InternalKey_Compare_eq split: if_splits)
  next
    case False
    with ad show ?thesis by (simp add: InternalKey_Compare_eq)
  qed
qed

lemma internal_comparator:
  "comparator (InternalKeyComparator c) (\<lambda>k. 8 \<le> length k \<and> valid (ExtractUserKey k))"
proof unfold_locales
  fix a b d :: bytes
  assume va: "8 \<le> length a \<and> valid (ExtractUserKey a)"
  show "cmp_Compare (InternalKeyComparator c) a a = 0"
    using va by (simp add: InternalKeyComparator_def InternalKey_Compare_eq cmp_refl)
  show "(8 \<le> length (cmp_FindShortSuccessor (InternalKeyComparator c) a) \<and>
      valid (ExtractUserKey (cmp_FindShortSuccessor (InternalKeyComparator c) a))) \<and>
      cmp_Compare (InternalKeyComparator c) a (cmp_FindShortSuccessor (InternalKeyComparator c) a) \<le> 0"
    using va internal_succ [of a] by (simp add: InternalKeyComparator_def Let_def)
  assume vb: "8 \<le> length b \<and> valid (ExtractUserKey b)"
  show "(cmp_Compare (InternalKeyComparator c) a b < 0) = (0 < cmp_Compare (InternalKeyComparator c) b a)"
    using va vb cmp_eq_sym [of "ExtractUserKey a" "ExtractUserKey b"]
      cmp_swap [of "ExtractUserKey a" "ExtractUserKey b"]
    by (auto simp: InternalKeyComparator_def InternalKey_Compare_eq Let_def split: if_splits)
  show "cmp_Compare (InternalKeyComparator c) a b < 0 \<Longrightarrow>
      (8 \<le> length (cmp_FindShortestSeparator (InternalKeyComparator c) a b) \<and>
       valid (ExtractUserKey (cmp_FindShortestSeparator (InternalKeyComparator c) a b))) \<and>
      cmp_Compare (InternalKeyComparator c) a (cmp_FindShortestSeparator (InternalKeyComparator c) a b) \<le> 0 \<and>
      cmp_Compare (InternalKeyComparator c) (cmp_FindShortestSeparator (InternalKeyComparator c) a b) b < 0"
    using va vb internal_sep [of a b] by (simp add: InternalKeyComparator_def Let_def)
  show "0 \<le> cmp_Compare (InternalKeyComparator c) a b \<Longrightarrow>
      cmp_FindShortestSeparator (InternalKeyComparator c) a b = a"
    using va vb internal_sep_unchanged [of a b] by (simp add: InternalKeyComparator_def)
  assume vd: "8 \<le> length d \<and> valid (ExtractUserKey d)"
  show "cmp_Compare (InternalKeyComparator c) a b \<le> 0 \<Longrightarrow>
      cmp_Compare (InternalKeyComparator c) b d \<le> 0 \<Longrightarrow> cmp_Compare (InternalKeyComparator c) a d \<le> 0"
    using va vb vd internal_trans [of a b d] by (simp add: InternalKeyComparator_def)
qed

end

interpretation internal_bytewise: comparator "InternalKeyComparator BytewiseComparator"
  "\<lambda>k. 8 \<le> length k \<and> True"
  by (rule bytewise.internal_comparator)

lemma InternalKey_Compare_bytewise:
  "InternalKey_Compare BytewiseComparator a b =
    (if ikey_of a < ikey_of b then -1 else if ikey_of a = ikey_of b then 0 else 1)"
  by (auto simp: InternalKey_Compare_eq BytewiseComparator_def Slice_compare_eq less_ikey_def ikey_of_def
      Let_def split: if_splits)

lemma LookupKey_array:
  "lk_array (LookupKey_new u s) = EncodeVarint32 (word_of_nat (length u + 8)) @ u @
     EncodeFixed64 (PackSequenceAndType s kValueTypeForSeek)"
  "lk_kstart (LookupKey_new u s) = length (EncodeVarint32 (word_of_nat (length u + 8)))"
  by (simp_all add: LookupKey_new_def Let_def)

section \<open>Properties\<close>

text \<open>
  An internal key parses back to the user key, sequence number and type it was built
  from, for every sequence number that fits in 56 bits; a string shorter than eight bytes
  or with a type byte above \<open>kTypeValue\<close> is rejected.
\<close>

lemma InternalKey_roundtrip:
  assumes "pik_sequence p \<le> kMaxSequenceNumber"
  shows "ParseInternalKey (AppendInternalKey [] p) = Some p \<and>
    length (AppendInternalKey [] p) = InternalKeyEncodingLength p \<and>
    ExtractUserKey (AppendInternalKey [] p) = pik_user_key p \<and>
    ParseInternalKey (take 7 k) = None \<and>
    (1 < (ucast w :: byte) \<longrightarrow> ParseInternalKey (k @ EncodeFixed64 w) = None)"
proof -
  have "ParseInternalKey (k @ EncodeFixed64 w) = None" if "1 < (ucast w :: byte)"
    using that by (simp add: ParseInternalKey_def Let_def not_le)
  moreover have "ParseInternalKey (take 7 k) = None"
    by (simp add: ParseInternalKey_def Let_def min_less_iff_disj)
  ultimately show ?thesis
    using ParseInternalKey_AppendInternalKey [OF assms]
    by (simp add: AppendInternalKey_eq InternalKeyEncodingLength_def)
qed

text \<open>
  C17: Over the byte-wise comparator, \<open>InternalKeyComparator::Compare\<close> is the three-way
  comparison of the abstract internal keys: user keys ascending, then tags (sequence number,
  type) descending.
\<close>

theorem InternalKey_Compare_refines:
  "cmp_Compare (InternalKeyComparator BytewiseComparator) a b =
    (if ikey_of a < ikey_of b then -1 else if ikey_of a = ikey_of b then 0 else 1)"
  by (simp add: InternalKeyComparator_def InternalKey_Compare_bytewise)

text \<open>
  The separator \<open>InternalKeyComparator::FindShortestSeparator\<close> picks for two internal keys
  in order is an internal key not below the first and below the second, and its short
  successor is not below its key: the two assertions in the code hold.
\<close>

lemma InternalKey_separators:
  assumes "8 \<le> length start" and "8 \<le> length limit" and "ikey_of start < ikey_of limit"
  shows "ikey_of start \<le> ikey_of (InternalKey_FindShortestSeparator BytewiseComparator start limit) \<and>
    ikey_of (InternalKey_FindShortestSeparator BytewiseComparator start limit) < ikey_of limit \<and>
    ikey_of limit \<le> ikey_of (InternalKey_FindShortSuccessor BytewiseComparator limit)"
  using assms internal_bytewise.sep_between [of start limit] internal_bytewise.succ_ge [of limit]
  by (auto simp: InternalKeyComparator_def InternalKey_Compare_bytewise split: if_splits)

text \<open>
  A lookup key for a user key and a snapshot is the length-prefixed internal key that
  sorts at or before every internal key of that user key with a sequence number up to the
  snapshot, and strictly after those with a later one.
\<close>

lemma LookupKey_position:
  assumes "s \<le> kMaxSequenceNumber" and "q \<le> kMaxSequenceNumber"
  shows "lk_internal_key (LookupKey_new u s) =
      AppendInternalKey [] \<lparr> pik_user_key = u, pik_sequence = s, pik_type = kValueTypeForSeek \<rparr> \<and>
    lk_user_key (LookupKey_new u s) = u \<and>
    (ikey_of (lk_internal_key (LookupKey_new u s)) \<le>
      ikey_of (AppendInternalKey [] \<lparr> pik_user_key = u, pik_sequence = q, pik_type = t \<rparr>)) = (q \<le> s)"
  using assms Pack_le_iff [of s q t]
  by (simp add: lk_internal_key_def lk_user_key_def LookupKey_array AppendInternalKey_eq ikey_of_def
      less_eq_ikey_def kValueTypeForSeek_def)

end
