(* ===== verification/Iterators.thy ===== *)
theory Iterators
  imports DBFormat "HOL-Library.Multiset"
begin

text \<open>
  The iterator interface of \<open>kv/include/iterator.h\<close>: the abstract class is a record of its
  virtual functions on a state, and what its comments promise is the locale \<open>iterator\<close>, over the
  sorted list of entries that a state stands for and the position in it (the length of the list when
  the iterator is not valid). Also the clean-up list and the empty iterator of
  \<open>kv/table/iterator.cpp\<close> and the caching wrapper of \<open>kv/table/iterator_wrapper.h\<close>.
\<close>

type_synonym entry = "bytes \<times> bytes"

record 's Iterator =
  it_Valid :: "'s \<Rightarrow> bool"
  it_SeekToFirst :: "'s \<Rightarrow> 's"
  it_SeekToLast :: "'s \<Rightarrow> 's"
  it_Seek :: "'s \<Rightarrow> bytes \<Rightarrow> 's"
  it_Next :: "'s \<Rightarrow> 's"
  it_Prev :: "'s \<Rightarrow> 's"
  it_key :: "'s \<Rightarrow> bytes"
  it_value :: "'s \<Rightarrow> bytes"
  it_status :: "'s \<Rightarrow> status"

section \<open>Clean-up functions\<close>

text \<open>
  The clean-up nodes: the head inside the iterator, unused until the first registration, and the
  nodes behind it. A registration is the function with its two arguments; the destructor's calls
  are listed in order.
\<close>

record 'c CleanupNodes =
  cleanup_head :: "'c option"
  cleanup_next :: "'c list"

definition Iterator_new :: "'c CleanupNodes" where
  "Iterator_new = \<lparr> cleanup_head = None, cleanup_next = [] \<rparr>"

definition RegisterCleanup :: "'c CleanupNodes \<Rightarrow> 'c \<Rightarrow> 'c CleanupNodes" where
  "RegisterCleanup ns f =
     (case cleanup_head ns of
        None \<Rightarrow> ns \<lparr> cleanup_head := Some f \<rparr>
      | Some _ \<Rightarrow> ns \<lparr> cleanup_next := f # cleanup_next ns \<rparr>)"

definition Iterator_delete :: "'c CleanupNodes \<Rightarrow> 'c list" where
  "Iterator_delete ns = (case cleanup_head ns of None \<Rightarrow> [] | Some f \<Rightarrow> f # cleanup_next ns)"

section \<open>The empty iterator\<close>

text \<open>\<open>Next\<close>, \<open>Prev\<close>, \<open>key\<close> and \<open>value\<close> fail an assertion; without assertions they do nothing.\<close>

definition EmptyIterator :: "status Iterator" where
  "EmptyIterator =
     \<lparr> it_Valid = (\<lambda>_. False), it_SeekToFirst = (\<lambda>s. s), it_SeekToLast = (\<lambda>s. s),
       it_Seek = (\<lambda>s target. s), it_Next = (\<lambda>s. s), it_Prev = (\<lambda>s. s),
       it_key = (\<lambda>_. []), it_value = (\<lambda>_. []), it_status = (\<lambda>s. s) \<rparr>"

definition NewEmptyIterator :: status where
  "NewEmptyIterator = OK"

definition NewErrorIterator :: "status \<Rightarrow> status" where
  "NewErrorIterator s = s"

section \<open>The caching wrapper\<close>

record 's IteratorWrapper =
  iw_iter :: "'s option"
  iw_valid :: bool
  iw_key :: bytes

definition IteratorWrapper_new :: "'s IteratorWrapper" where
  "IteratorWrapper_new = \<lparr> iw_iter = None, iw_valid = False, iw_key = [] \<rparr>"

text \<open>Every caller of \<open>Update\<close> has an iterator.\<close>

definition iw_Update :: "'s Iterator \<Rightarrow> 's IteratorWrapper \<Rightarrow> 's IteratorWrapper" where
  "iw_Update I w =
     (case iw_iter w of
        None \<Rightarrow> w
      | Some s \<Rightarrow>
          (let w = w \<lparr> iw_valid := it_Valid I s \<rparr>
           in if iw_valid w then w \<lparr> iw_key := it_key I s \<rparr> else w))"

definition iw_Set :: "'s Iterator \<Rightarrow> 's IteratorWrapper \<Rightarrow> 's option \<Rightarrow> 's IteratorWrapper" where
  "iw_Set I w iter =
     (let w = w \<lparr> iw_iter := iter \<rparr>
      in if iter = None then w \<lparr> iw_valid := False \<rparr> else iw_Update I w)"

definition iw_map :: "'s Iterator \<Rightarrow> ('s \<Rightarrow> 's) \<Rightarrow> 's IteratorWrapper \<Rightarrow> 's IteratorWrapper" where
  "iw_map I f w = iw_Update I (w \<lparr> iw_iter := map_option f (iw_iter w) \<rparr>)"

definition iw_value :: "'s Iterator \<Rightarrow> 's IteratorWrapper \<Rightarrow> bytes" where
  "iw_value I w = (case iw_iter w of None \<Rightarrow> [] | Some s \<Rightarrow> it_value I s)"

definition iw_status :: "'s Iterator \<Rightarrow> 's IteratorWrapper \<Rightarrow> status" where
  "iw_status I w = (case iw_iter w of None \<Rightarrow> OK | Some s \<Rightarrow> it_status I s)"

definition WrappedIterator :: "'s Iterator \<Rightarrow> 's IteratorWrapper Iterator" where
  "WrappedIterator I =
     \<lparr> it_Valid = iw_valid, it_SeekToFirst = iw_map I (it_SeekToFirst I),
       it_SeekToLast = iw_map I (it_SeekToLast I),
       it_Seek = (\<lambda>w k. iw_map I (\<lambda>s. it_Seek I s k) w),
       it_Next = iw_map I (it_Next I), it_Prev = iw_map I (it_Prev I),
       it_key = iw_key, it_value = iw_value I, it_status = iw_status I \<rparr>"

section \<open>What an iterator promises\<close>

definition seek_pos :: "(bytes \<Rightarrow> bytes \<Rightarrow> int) \<Rightarrow> entry list \<Rightarrow> bytes \<Rightarrow> nat" where
  "seek_pos compare es t = length (takeWhile (\<lambda>e. compare (fst e) t < 0) es)"

definition entries_sorted :: "(bytes \<Rightarrow> bytes \<Rightarrow> int) \<Rightarrow> (bytes \<Rightarrow> bool) \<Rightarrow> entry list \<Rightarrow> bool" where
  "entries_sorted compare valid kvs \<longleftrightarrow>
     sorted_wrt (\<lambda>a b. compare (fst a) (fst b) < 0) kvs \<and> (\<forall>e\<in>set kvs. valid (fst e))"

lemma entries_sorted_append:
  "entries_sorted compare valid (xs @ ys) \<longleftrightarrow> entries_sorted compare valid xs \<and> entries_sorted compare valid ys \<and>
    (\<forall>x\<in>set xs. \<forall>y\<in>set ys. compare (fst x) (fst y) < 0)"
  by (auto simp: entries_sorted_def sorted_wrt_append)

fun it_forward :: "'s Iterator \<Rightarrow> nat \<Rightarrow> 's \<Rightarrow> entry list" where
  "it_forward I 0 s = []"
| "it_forward I (Suc n) s = (if it_Valid I s then (it_key I s, it_value I s) # it_forward I n (it_Next I s) else [])"

fun it_backward :: "'s Iterator \<Rightarrow> nat \<Rightarrow> 's \<Rightarrow> entry list" where
  "it_backward I 0 s = []"
| "it_backward I (Suc n) s = (if it_Valid I s then (it_key I s, it_value I s) # it_backward I n (it_Prev I s) else [])"

text \<open>
  A client of an iterator makes any sequence of moves, \<open>Next\<close> and \<open>Prev\<close> only while the iterator is
  valid. The reference is a cursor in the list of entries, at its length when it is not valid.
\<close>

datatype move = MoveToFirst | MoveToLast | MoveTo bytes | MoveNext | MovePrev

fun it_move :: "'s Iterator \<Rightarrow> move \<Rightarrow> 's \<Rightarrow> 's" where
  "it_move I MoveToFirst s = it_SeekToFirst I s"
| "it_move I MoveToLast s = it_SeekToLast I s"
| "it_move I (MoveTo k) s = it_Seek I s k"
| "it_move I MoveNext s = (if it_Valid I s then it_Next I s else s)"
| "it_move I MovePrev s = (if it_Valid I s then it_Prev I s else s)"

definition it_look :: "'s Iterator \<Rightarrow> 's \<Rightarrow> entry option" where
  "it_look I s = (if it_Valid I s then Some (it_key I s, it_value I s) else None)"

fun cursor_move :: "(bytes \<Rightarrow> bytes \<Rightarrow> int) \<Rightarrow> entry list \<Rightarrow> move \<Rightarrow> nat \<Rightarrow> nat" where
  "cursor_move compare es MoveToFirst i = 0"
| "cursor_move compare es MoveToLast i = length es - 1"
| "cursor_move compare es (MoveTo k) i = seek_pos compare es k"
| "cursor_move compare es MoveNext i = (if i < length es then i + 1 else i)"
| "cursor_move compare es MovePrev i = (if i < length es then if i = 0 then length es else i - 1 else i)"

definition cursor_look :: "entry list \<Rightarrow> nat \<Rightarrow> entry option" where
  "cursor_look es i = (if i < length es then Some (es ! i) else None)"

definition moves_ok :: "(bytes \<Rightarrow> bool) \<Rightarrow> move list \<Rightarrow> bool" where
  "moves_ok valid ms = list_all (case_move True True valid True True) ms"

text \<open>In a sorted list the elements from the first one that is not below a target on are the ones not below it.\<close>

context compare_order
begin

lemma sorted_dropWhile:
  assumes "sorted_wrt (\<lambda>a b. compare (f a) (f b) < 0) xs" "\<forall>x\<in>set xs. valid (f x)" "valid t"
  shows "dropWhile (\<lambda>x. compare (f x) t < 0) xs = filter (\<lambda>x. \<not> compare (f x) t < 0) xs"
  using assms(1,2)
proof (induction xs)
  case (Cons x xs)
  have "\<not> compare (f x) t < 0 \<Longrightarrow> y \<in> set xs \<Longrightarrow> \<not> compare (f y) t < 0" for y
    using Cons.prems lt_trans [of "f x" "f y" t] assms(3) by auto
  then have "\<not> compare (f x) t < 0 \<Longrightarrow> filter (\<lambda>x. \<not> compare (f x) t < 0) xs = xs"
    by (auto intro: filter_True)
  with Cons show ?case by auto
qed simp

end

locale iterator = compare_order compare valid
  for compare :: "bytes \<Rightarrow> bytes \<Rightarrow> int" and valid :: "bytes \<Rightarrow> bool" +
  fixes I :: "'s Iterator" and rep :: "'s \<Rightarrow> entry list \<Rightarrow> nat \<Rightarrow> bool"
  assumes rep_range: "rep s es i \<Longrightarrow> i \<le> length es"
    and rep_sorted: "rep s es i \<Longrightarrow> sorted_wrt (\<lambda>a b. compare (fst a) (fst b) < 0) es"
    and rep_keys: "rep s es i \<Longrightarrow> e \<in> set es \<Longrightarrow> valid (fst e)"
    and rep_Valid: "rep s es i \<Longrightarrow> it_Valid I s \<longleftrightarrow> i < length es"
    and rep_entry: "rep s es i \<Longrightarrow> i < length es \<Longrightarrow> (it_key I s, it_value I s) = es ! i"
    and rep_status: "rep s es i \<Longrightarrow> it_status I s = OK"
    and rep_SeekToFirst: "rep s es i \<Longrightarrow> rep (it_SeekToFirst I s) es 0"
    and rep_SeekToLast: "rep s es i \<Longrightarrow> rep (it_SeekToLast I s) es (length es - 1)"
    and rep_Seek: "rep s es i \<Longrightarrow> valid t \<Longrightarrow> rep (it_Seek I s t) es (seek_pos compare es t)"
    and rep_Next: "rep s es i \<Longrightarrow> i < length es \<Longrightarrow> rep (it_Next I s) es (i + 1)"
    and rep_Prev: "rep s es i \<Longrightarrow> i < length es \<Longrightarrow> rep (it_Prev I s) es (if i = 0 then length es else i - 1)"
begin

lemma forward_entries: "rep s es i \<Longrightarrow> it_forward I n s = take n (drop i es)"
proof (induction n arbitrary: s i)
  case (Suc n)
  show ?case
  proof (cases "i < length es")
    case True
    then show ?thesis
      using Suc.IH [OF rep_Next [OF Suc.prems True]] rep_Valid [OF Suc.prems] rep_entry [OF Suc.prems True]
      by (simp add: Cons_nth_drop_Suc [symmetric])
  qed (use rep_Valid [OF Suc.prems] in simp)
qed simp

lemma backward_entries:
  "rep s es i \<Longrightarrow> i < length es \<Longrightarrow> it_backward I n s = take n (rev (take (Suc i) es))"
proof (induction n arbitrary: s i)
  case (Suc n)
  have step: "it_backward I (Suc n) s = es ! i # it_backward I n (it_Prev I s)"
    using Suc.prems rep_Valid rep_entry by simp
  show ?case
  proof (cases i)
    case 0
    have r: "rep (it_Prev I s) es (length es)" using rep_Prev [OF Suc.prems] 0 by simp
    have "it_backward I n (it_Prev I s) = []" using rep_Valid [OF r] by (cases n) simp_all
    with step 0 Suc.prems show ?thesis by (simp add: take_Suc_conv_app_nth)
  next
    case (Suc j)
    have "rep (it_Prev I s) es j" using rep_Prev [OF Suc.prems] Suc by simp
    then have "it_backward I n (it_Prev I s) = take n (rev (take i es))"
      using Suc.IH [of "it_Prev I s" j] Suc Suc.prems by simp
    moreover have "rev (take (Suc i) es) = es ! i # rev (take i es)"
      using Suc.prems(2) by (simp add: take_Suc_conv_app_nth)
    ultimately show ?thesis using step by simp
  qed
qed simp

lemma rep_moves:
  "rep s es i \<Longrightarrow> moves_ok valid ms \<Longrightarrow> rep (fold (it_move I) ms s) es (fold (cursor_move compare es) ms i)"
proof (induction ms arbitrary: s i)
  case (Cons m ms)
  have "rep (it_move I m s) es (cursor_move compare es m i)"
    using Cons.prems rep_Valid [OF Cons.prems(1)] rep_SeekToFirst rep_SeekToLast rep_Seek rep_Next rep_Prev
    by (cases m) (auto simp: moves_ok_def)
  with Cons show ?case by (simp add: moves_ok_def)
qed simp

lemma look_moves:
  assumes "rep s es i" "moves_ok valid ms"
  shows "it_look I (fold (it_move I) ms s) = cursor_look es (fold (cursor_move compare es) ms i) \<and>
    it_status I (fold (it_move I) ms s) = OK"
  using rep_moves [OF assms] rep_Valid rep_entry rep_status by (auto simp: it_look_def cursor_look_def)

lemma scan_forward: "rep s es i \<Longrightarrow> length es \<le> n \<Longrightarrow> it_forward I n (it_SeekToFirst I s) = es"
  using forward_entries [OF rep_SeekToFirst] by simp

lemma scan_backward: "rep s es i \<Longrightarrow> length es \<le> n \<Longrightarrow> it_backward I n (it_SeekToLast I s) = rev es"
proof (cases "es = []")
  case True
  assume "rep s es i"
  then have "\<not> it_Valid I (it_SeekToLast I s)" using rep_Valid [OF rep_SeekToLast] True by simp
  then show ?thesis using True by (cases n) simp_all
next
  case False
  assume "rep s es i" "length es \<le> n"
  with False show ?thesis using backward_entries [OF rep_SeekToLast] by simp
qed

lemma rep_unique: "rep s es i \<Longrightarrow> rep s es' i' \<Longrightarrow> es = es'"
  using scan_forward [of s es i "max (length es) (length es')"] scan_forward [of s es' i' "max (length es) (length es')"] by simp

lemma seek_pos_le: "seek_pos compare es t \<le> length es"
  by (simp add: seek_pos_def length_takeWhile_le)

lemma drop_seek_pos:
  assumes "rep s es i" "valid t"
  shows "drop (seek_pos compare es t) es = filter (\<lambda>e. \<not> compare (fst e) t < 0) es"
  using sorted_dropWhile [of fst es t] rep_sorted rep_keys assms by (simp add: seek_pos_def dropWhile_eq_drop [symmetric])

lemma scan_from_seek:
  "rep s es i \<Longrightarrow> valid t \<Longrightarrow> length es \<le> n \<Longrightarrow>
    it_forward I n (it_Seek I s t) = filter (\<lambda>e. \<not> compare (fst e) t < 0) es"
  using forward_entries [OF rep_Seek] drop_seek_pos by (simp add: order.trans [OF length_filter_le])

end

text \<open>An order of keys, for the iterators that take their comparison as a parameter.\<close>

locale key_order = compare_order compare valid
  for compare :: "bytes \<Rightarrow> bytes \<Rightarrow> int" and valid :: "bytes \<Rightarrow> bool"

interpretation internal_keys: key_order "cmp_Compare (InternalKeyComparator BytewiseComparator)" "\<lambda>k. 8 \<le> length k"
  using internal_bytewise.compare_order_axioms by (simp add: key_order_def)

abbreviation internal_compare :: "bytes \<Rightarrow> bytes \<Rightarrow> int" where
  "internal_compare \<equiv> cmp_Compare (InternalKeyComparator BytewiseComparator)"

abbreviation is_ikey :: "bytes \<Rightarrow> bool" where
  "is_ikey \<equiv> (\<lambda>k. 8 \<le> length k)"

section \<open>The wrapper keeps the promise\<close>

definition iw_rep :: "'s Iterator \<Rightarrow> ('s \<Rightarrow> entry list \<Rightarrow> nat \<Rightarrow> bool) \<Rightarrow> 's IteratorWrapper \<Rightarrow> entry list \<Rightarrow> nat \<Rightarrow> bool" where
  "iw_rep I rep w es i \<longleftrightarrow>
     (\<exists>s. iw_iter w = Some s \<and> rep s es i \<and> iw_valid w = it_Valid I s \<and> (it_Valid I s \<longrightarrow> iw_key w = it_key I s))"

lemma iw_rep_map: "iw_iter w = Some s \<Longrightarrow> rep (f s) es i \<Longrightarrow> iw_rep I rep (iw_map I f w) es i"
  by (simp add: iw_rep_def iw_map_def iw_Update_def Let_def)

lemma iw_rep_Set: "rep s es i \<Longrightarrow> iw_rep I rep (iw_Set I w (Some s)) es i"
  by (simp add: iw_rep_def iw_Set_def iw_Update_def Let_def)

lemma iw_rep_obtain:
  assumes "iw_rep I rep w es i"
  obtains s where "iw_iter w = Some s" "rep s es i" "iw_valid w = it_Valid I s"
    "it_Valid I s \<Longrightarrow> iw_key w = it_key I s"
  using assms by (auto simp: iw_rep_def)

locale wrapped_iterator = iterator compare valid I rep
  for compare valid and I :: "'s Iterator" and rep

sublocale wrapped_iterator \<subseteq> w: iterator compare valid "WrappedIterator I" "iw_rep I rep"
proof
  fix w es i assume r: "iw_rep I rep w es i"
  then obtain s where s: "iw_iter w = Some s" "rep s es i" "iw_valid w = it_Valid I s"
    "it_Valid I s \<Longrightarrow> iw_key w = it_key I s" by (rule iw_rep_obtain) blast
  show "i \<le> length es" "sorted_wrt (\<lambda>a b. compare (fst a) (fst b) < 0) es"
    using rep_range [OF s(2)] rep_sorted [OF s(2)] by blast+
  show "valid (fst e)" if "e \<in> set es" for e using rep_keys [OF s(2) that] .
  show "it_Valid (WrappedIterator I) w \<longleftrightarrow> i < length es"
    using s rep_Valid by (simp add: WrappedIterator_def)
  show "(it_key (WrappedIterator I) w, it_value (WrappedIterator I) w) = es ! i" if "i < length es"
    using s rep_Valid [OF s(2)] rep_entry [OF s(2) that] that by (simp add: WrappedIterator_def iw_value_def)
  show "it_status (WrappedIterator I) w = OK"
    using s rep_status by (simp add: WrappedIterator_def iw_status_def)
  show "iw_rep I rep (it_SeekToFirst (WrappedIterator I) w) es 0"
    using s rep_SeekToFirst by (simp add: WrappedIterator_def iw_rep_map)
  show "iw_rep I rep (it_SeekToLast (WrappedIterator I) w) es (length es - 1)"
    using s rep_SeekToLast [OF s(2)] iw_rep_map [of w s rep "it_SeekToLast I"] by (simp add: WrappedIterator_def)
  show "iw_rep I rep (it_Seek (WrappedIterator I) w t) es (seek_pos compare es t)" if "valid t" for t
    using s rep_Seek [OF s(2) that] iw_rep_map [of w s rep "\<lambda>s. it_Seek I s t"] by (simp add: WrappedIterator_def)
  show "iw_rep I rep (it_Next (WrappedIterator I) w) es (i + 1)" if "i < length es"
    using s rep_Next [OF s(2) that] iw_rep_map [of w s rep "it_Next I"] by (simp add: WrappedIterator_def)
  show "iw_rep I rep (it_Prev (WrappedIterator I) w) es (if i = 0 then length es else i - 1)" if "i < length es"
    using s rep_Prev [OF s(2) that] iw_rep_map [of w s rep "it_Prev I"] by (simp add: WrappedIterator_def)
qed

section \<open>The empty iterator keeps it, on no entries\<close>

definition empty_rep :: "status \<Rightarrow> entry list \<Rightarrow> nat \<Rightarrow> bool" where
  "empty_rep s es i \<longleftrightarrow> s = OK \<and> es = [] \<and> i = 0"

sublocale key_order \<subseteq> empty: iterator compare valid EmptyIterator empty_rep
  by unfold_locales (auto simp: EmptyIterator_def seek_pos_def empty_rep_def)

section \<open>Iterators of one of two classes\<close>

text \<open>A call on a pointer to either class is dispatched to the functions of the class.\<close>

definition EitherIterator :: "'s Iterator \<Rightarrow> 't Iterator \<Rightarrow> ('s + 't) Iterator" where
  "EitherIterator I J =
     \<lparr> it_Valid = case_sum (it_Valid I) (it_Valid J),
       it_SeekToFirst = map_sum (it_SeekToFirst I) (it_SeekToFirst J),
       it_SeekToLast = map_sum (it_SeekToLast I) (it_SeekToLast J),
       it_Seek = (\<lambda>s t. map_sum (\<lambda>x. it_Seek I x t) (\<lambda>x. it_Seek J x t) s),
       it_Next = map_sum (it_Next I) (it_Next J), it_Prev = map_sum (it_Prev I) (it_Prev J),
       it_key = case_sum (it_key I) (it_key J), it_value = case_sum (it_value I) (it_value J),
       it_status = case_sum (it_status I) (it_status J) \<rparr>"

locale two_classes = left: iterator compare valid I repI + right: iterator compare valid J repJ
  for compare valid and I :: "'s Iterator" and repI and J :: "'t Iterator" and repJ

sublocale two_classes \<subseteq> either: iterator compare valid "EitherIterator I J" "case_sum repI repJ"
proof (unfold_locales, goal_cases)
  case (1 s es i) then show ?case using left.rep_range right.rep_range by (cases s) auto
next
  case (2 s es i) then show ?case using left.rep_sorted right.rep_sorted by (cases s) auto
next
  case (3 s es i e) then show ?case using left.rep_keys right.rep_keys by (cases s) auto
next
  case (4 s es i) then show ?case using left.rep_Valid right.rep_Valid by (cases s) (auto simp: EitherIterator_def)
next
  case (5 s es i) then show ?case using left.rep_entry right.rep_entry by (cases s) (auto simp: EitherIterator_def)
next
  case (6 s es i) then show ?case using left.rep_status right.rep_status by (cases s) (auto simp: EitherIterator_def)
next
  case (7 s es i) then show ?case using left.rep_SeekToFirst right.rep_SeekToFirst by (cases s) (auto simp: EitherIterator_def)
next
  case (8 s es i) then show ?case using left.rep_SeekToLast right.rep_SeekToLast by (cases s) (auto simp: EitherIterator_def)
next
  case (9 s es i t) then show ?case using left.rep_Seek right.rep_Seek by (cases s) (auto simp: EitherIterator_def)
next
  case (10 s es i) then show ?case using left.rep_Next [of _ es i] right.rep_Next [of _ es i] by (cases s) (auto simp: EitherIterator_def)
next
  case (11 s es i) then show ?case using left.rep_Prev [of _ es i] right.rep_Prev [of _ es i] by (cases s) (auto simp: EitherIterator_def)
qed

section \<open>Clean-up\<close>

lemma RegisterCleanup_more:
  "cleanup_head ns = Some f \<Longrightarrow>
    foldl RegisterCleanup ns fs = \<lparr> cleanup_head = Some f, cleanup_next = rev fs @ cleanup_next ns \<rparr>"
proof (induction fs arbitrary: ns)
  case (Cons g fs)
  have "cleanup_head (RegisterCleanup ns g) = Some f" using Cons.prems by (simp add: RegisterCleanup_def)
  from Cons.IH [OF this] Cons.prems show ?case by (simp add: RegisterCleanup_def)
qed (cases ns, simp)

text \<open>
  The destructor of an iterator calls each registered clean-up function exactly once: the
  first one registered first, then the others, the latest first.
\<close>

lemma cleanups_run_once:
  "mset (Iterator_delete (foldl RegisterCleanup Iterator_new fs)) = mset fs \<and>
   Iterator_delete (foldl RegisterCleanup Iterator_new fs) = take 1 fs @ rev (drop 1 fs)"
proof (cases fs)
  case (Cons f fs')
  have "cleanup_head (RegisterCleanup Iterator_new f) = Some f"
    by (simp add: RegisterCleanup_def Iterator_new_def)
  from RegisterCleanup_more [OF this, of fs'] Cons show ?thesis
    by (simp add: Iterator_delete_def RegisterCleanup_def Iterator_new_def)
qed (simp add: Iterator_delete_def Iterator_new_def)

end
