(* ===== verification/Block.thy ===== *)
theory Block
  imports Iterators
begin

text \<open>
  Blocks of tables: the builder of \<open>kv/table/block_builder.cpp\<close> and the reader and iterator of
  \<open>kv/table/block.cpp\<close>. The slice \<open>value_\<close> of an iterator is its offset and length in the
  block. Offsets, 32-bit numbers in the code, are natural numbers, since a block is smaller than
  4 GiB; the lengths read from an entry, whose sum can wrap, are words. Where such lengths wrap the
  code reads past the block; the model, which has no bytes there, cuts the key at the end of the
  entries (\<open>DecodeEntry_bounds\<close> says when this happens). The theorems: iterating over
  a finished block gives the entries that were added, and a seek stops at the first entry that is
  not below its target.
\<close>

unbundle bit_operations_syntax

section \<open>The builder\<close>

record BlockBuilder =
  bb_buffer :: bytes
  bb_restarts :: "u32 list"
  bb_counter :: nat
  bb_finished :: bool
  bb_last_key :: bytes

definition BlockBuilder_new :: BlockBuilder where
  "BlockBuilder_new =
     \<lparr> bb_buffer = [], bb_restarts = [0], bb_counter = 0, bb_finished = False, bb_last_key = [] \<rparr>"

definition bb_Reset :: "BlockBuilder \<Rightarrow> BlockBuilder" where
  "bb_Reset b = b \<lparr> bb_buffer := [], bb_restarts := [0], bb_counter := 0, bb_finished := False, bb_last_key := [] \<rparr>"

definition bb_CurrentSizeEstimate :: "BlockBuilder \<Rightarrow> nat" where
  "bb_CurrentSizeEstimate b = length (bb_buffer b) + length (bb_restarts b) * 4 + 4"

definition bb_empty :: "BlockBuilder \<Rightarrow> bool" where
  "bb_empty b \<longleftrightarrow> bb_buffer b = []"

definition bb_Finish :: "BlockBuilder \<Rightarrow> bytes \<times> BlockBuilder" where
  "bb_Finish b =
     (let buffer = foldl PutFixed32 (bb_buffer b) (bb_restarts b);
          buffer = PutFixed32 buffer (word_of_nat (length (bb_restarts b)))
      in (buffer, b \<lparr> bb_buffer := buffer, bb_finished := True \<rparr>))"

definition bb_Add :: "nat \<Rightarrow> BlockBuilder \<Rightarrow> bytes \<Rightarrow> bytes \<Rightarrow> BlockBuilder" where
  "bb_Add block_restart_interval b key val =
     (let last_key_piece = bb_last_key b;
          (shared, restarts, counter) =
            (if bb_counter b < block_restart_interval
             then (common_prefix_len last_key_piece key, bb_restarts b, bb_counter b)
             else (0, bb_restarts b @ [word_of_nat (length (bb_buffer b))], 0));
          non_shared = length key - shared;
          buffer = PutVarint32 (bb_buffer b) (word_of_nat shared);
          buffer = PutVarint32 buffer (word_of_nat non_shared);
          buffer = PutVarint32 buffer (word_of_nat (length val));
          buffer = buffer @ take non_shared (drop shared key);
          buffer = buffer @ val
      in b \<lparr> bb_buffer := buffer, bb_restarts := restarts, bb_counter := counter + 1,
             bb_last_key := take shared (bb_last_key b) @ take non_shared (drop shared key) \<rparr>)"

section \<open>Blocks\<close>

text \<open>\<open>size_\<close> 0 marks an error; then the restart offset is not set, and not used.\<close>

record Block =
  blk_data :: bytes
  blk_size :: nat
  blk_restart_offset :: nat

definition blk_NumRestarts :: "bytes \<Rightarrow> nat" where
  "blk_NumRestarts data = unat (DecodeFixed32 (drop (length data - 4) data))"

definition Block_new :: "bytes \<Rightarrow> Block" where
  "Block_new data =
     (if length data < 4 then \<lparr> blk_data = data, blk_size = 0, blk_restart_offset = 0 \<rparr>
      else (let max_restarts_allowed = (length data - 4) div 4
            in if blk_NumRestarts data > max_restarts_allowed
               then \<lparr> blk_data = data, blk_size = 0, blk_restart_offset = 0 \<rparr>
               else \<lparr> blk_data = data, blk_size = length data,
                      blk_restart_offset = length data - (1 + blk_NumRestarts data) * 4 \<rparr>))"

text \<open>The three lengths and the bytes from the key delta to the limit.\<close>

definition DecodeEntry :: "bytes \<Rightarrow> (u32 \<times> u32 \<times> u32 \<times> bytes) option" where
  "DecodeEntry p =
     (if length p < 3 then None
      else (let shared = ucast (p ! 0) :: u32;
                non_shared = ucast (p ! 1) :: u32;
                value_length = ucast (p ! 2) :: u32;
                r = (if (shared OR non_shared OR value_length) < 128
                     then Some (shared, non_shared, value_length, drop 3 p)
                     else (case GetVarint32Ptr p of
                             None \<Rightarrow> None
                           | Some (shared, p) \<Rightarrow>
                               (case GetVarint32Ptr p of
                                  None \<Rightarrow> None
                                | Some (non_shared, p) \<Rightarrow>
                                    (case GetVarint32Ptr p of
                                       None \<Rightarrow> None
                                     | Some (value_length, p) \<Rightarrow> Some (shared, non_shared, value_length, p)))))
            in case r of
                 None \<Rightarrow> None
               | Some (shared, non_shared, value_length, p) \<Rightarrow>
                   if (word_of_nat (length p) :: u32) < non_shared + value_length then None
                   else Some (shared, non_shared, value_length, p)))"

section \<open>The iterator\<close>

record BlockIter =
  bi_data :: bytes
  bi_restarts :: nat
  bi_num_restarts :: nat
  bi_current :: nat
  bi_restart_index :: nat
  bi_key :: bytes
  bi_value_at :: nat
  bi_value_len :: nat
  bi_status :: status

definition BlockIter_new :: "bytes \<Rightarrow> nat \<Rightarrow> nat \<Rightarrow> BlockIter" where
  "BlockIter_new data restarts num_restarts =
     \<lparr> bi_data = data, bi_restarts = restarts, bi_num_restarts = num_restarts, bi_current = restarts,
       bi_restart_index = num_restarts, bi_key = [], bi_value_at = 0, bi_value_len = 0, bi_status = OK \<rparr>"

definition bi_Valid :: "BlockIter \<Rightarrow> bool" where
  "bi_Valid it \<longleftrightarrow> bi_current it < bi_restarts it"

definition bi_value :: "BlockIter \<Rightarrow> bytes" where
  "bi_value it = take (bi_value_len it) (drop (bi_value_at it) (bi_data it))"

definition NextEntryOffset :: "BlockIter \<Rightarrow> nat" where
  "NextEntryOffset it = bi_value_at it + bi_value_len it"

definition GetRestartPoint :: "BlockIter \<Rightarrow> nat \<Rightarrow> nat" where
  "GetRestartPoint it index = unat (DecodeFixed32 (drop (bi_restarts it + index * 4) (bi_data it)))"

definition SeekToRestartPoint :: "BlockIter \<Rightarrow> nat \<Rightarrow> BlockIter" where
  "SeekToRestartPoint it index =
     it \<lparr> bi_key := [], bi_restart_index := index, bi_value_at := GetRestartPoint it index, bi_value_len := 0 \<rparr>"

definition CorruptionError :: "BlockIter \<Rightarrow> BlockIter" where
  "CorruptionError it =
     it \<lparr> bi_current := bi_restarts it, bi_restart_index := bi_num_restarts it,
          bi_status := status_Corruption (str ''bad entry in block'') [],
          bi_key := [], bi_value_at := 0, bi_value_len := 0 \<rparr>"

function advance_restart :: "BlockIter \<Rightarrow> BlockIter" where
  "advance_restart it =
     (if bi_restart_index it + 1 < bi_num_restarts it \<and> GetRestartPoint it (bi_restart_index it + 1) < bi_current it
      then advance_restart (it \<lparr> bi_restart_index := bi_restart_index it + 1 \<rparr>)
      else it)"
  by pat_completeness auto
termination
  by (relation "measure (\<lambda>it. bi_num_restarts it - bi_restart_index it)") auto

declare advance_restart.simps [simp del]

definition ParseNextKey :: "BlockIter \<Rightarrow> bool \<times> BlockIter" where
  "ParseNextKey it =
     (let it = it \<lparr> bi_current := NextEntryOffset it \<rparr> in
      if bi_current it \<ge> bi_restarts it
      then (False, it \<lparr> bi_current := bi_restarts it, bi_restart_index := bi_num_restarts it \<rparr>)
      else (case DecodeEntry (take (bi_restarts it - bi_current it) (drop (bi_current it) (bi_data it))) of
              None \<Rightarrow> (False, CorruptionError it)
            | Some (shared, non_shared, value_length, p) \<Rightarrow>
                if length (bi_key it) < unat shared then (False, CorruptionError it)
                else (True, advance_restart
                  (it \<lparr> bi_key := take (unat shared) (bi_key it) @ take (unat non_shared) p,
                        bi_value_at := bi_restarts it - length p + unat non_shared,
                        bi_value_len := unat value_length \<rparr>))))"

definition bi_Next :: "BlockIter \<Rightarrow> BlockIter" where
  "bi_Next it = snd (ParseNextKey it)"

text \<open>An entry takes at least one byte, so each parsed entry moves the offset on.\<close>

lemma GetVarint32Ptr_shorter: "GetVarint32Ptr p = Some (v, rest) \<Longrightarrow> length rest < length p"
  using GetVarint32_shorter [of p v rest] by (simp add: GetVarint32_def)

lemma DecodeEntry_shorter:
  assumes "DecodeEntry p = Some (a, b, c, q)"
  shows "length q < length p"
  using assms unfolding DecodeEntry_def Let_def
  by (auto split: if_splits option.splits dest!: GetVarint32Ptr_shorter)

lemma advance_restart_fields [simp]:
  "bi_data (advance_restart it) = bi_data it" "bi_restarts (advance_restart it) = bi_restarts it"
  "bi_num_restarts (advance_restart it) = bi_num_restarts it" "bi_current (advance_restart it) = bi_current it"
  "bi_key (advance_restart it) = bi_key it" "bi_value_at (advance_restart it) = bi_value_at it"
  "bi_value_len (advance_restart it) = bi_value_len it" "bi_status (advance_restart it) = bi_status it"
  by (induction it rule: advance_restart.induct; subst advance_restart.simps; simp)+

lemma ParseNextKey_moves:
  assumes "ParseNextKey it = (True, it')"
  shows "bi_restarts it' = bi_restarts it \<and> NextEntryOffset it < NextEntryOffset it' \<and> NextEntryOffset it < bi_restarts it"
proof -
  obtain sh n v q where d: "DecodeEntry (take (bi_restarts it - NextEntryOffset it) (drop (NextEntryOffset it) (bi_data it))) =
      Some (sh, n, v, q)"
    and it': "bi_restarts it' = bi_restarts it" "bi_value_at it' = bi_restarts it - length q + unat n"
    and lt: "NextEntryOffset it < bi_restarts it"
    using assms unfolding ParseNextKey_def Let_def by (auto split: if_splits option.splits)
  from DecodeEntry_shorter [OF d] have "length q < bi_restarts it - NextEntryOffset it" by simp
  with it' lt show ?thesis by (simp add: NextEntryOffset_def)
qed

text \<open>\<open>do {} while (ParseNextKey() && NextEntryOffset() < limit)\<close>, in \<open>Prev\<close> and \<open>SeekToLast\<close>.\<close>

function bi_scan :: "nat \<Rightarrow> BlockIter \<Rightarrow> BlockIter" where
  "bi_scan limit it =
     (let (ok, it') = ParseNextKey it
      in if ok \<and> NextEntryOffset it' < limit then bi_scan limit it' else it')"
  by pat_completeness auto
termination
proof (relation "measure (\<lambda>(limit, it). bi_restarts it - NextEntryOffset it)", goal_cases)
  case (2 limit it x ok it')
  then have "ParseNextKey it = (True, it')" by auto
  from ParseNextKey_moves [OF this] show ?case by auto
qed simp

declare bi_scan.simps [simp del]

fun prev_restart :: "BlockIter \<Rightarrow> nat \<Rightarrow> nat \<Rightarrow> nat option" where
  "prev_restart it original index =
     (if GetRestartPoint it index < original then Some index
      else if index = 0 then None else prev_restart it original (index - 1))"

declare prev_restart.simps [simp del]

definition bi_Prev :: "BlockIter \<Rightarrow> BlockIter" where
  "bi_Prev it =
     (let original = bi_current it in
      case prev_restart it original (bi_restart_index it) of
        None \<Rightarrow> it \<lparr> bi_current := bi_restarts it, bi_restart_index := bi_num_restarts it \<rparr>
      | Some index \<Rightarrow> bi_scan original (SeekToRestartPoint it index))"

text \<open>The binary search over the restart points; \<open>None\<close> when it meets a bad entry.\<close>

function seek_restart :: "(bytes \<Rightarrow> bytes \<Rightarrow> int) \<Rightarrow> BlockIter \<Rightarrow> bytes \<Rightarrow> nat \<Rightarrow> nat \<Rightarrow> nat option" where
  "seek_restart compare it target left right =
     (if left < right then
        (let mid = (left + right + 1) div 2;
             region_offset = GetRestartPoint it mid
         in case DecodeEntry (take (bi_restarts it - region_offset) (drop region_offset (bi_data it))) of
              None \<Rightarrow> None
            | Some (shared, non_shared, value_length, key_ptr) \<Rightarrow>
                if shared \<noteq> 0 then None
                else (let mid_key = take (unat non_shared) key_ptr
                      in if compare mid_key target < 0 then seek_restart compare it target mid right
                         else seek_restart compare it target left (mid - 1)))
      else Some left)"
  by pat_completeness auto
termination
  by (relation "measure (\<lambda>(compare, it, target, left, right). right - left)") auto

declare seek_restart.simps [simp del]

function seek_linear :: "(bytes \<Rightarrow> bytes \<Rightarrow> int) \<Rightarrow> bytes \<Rightarrow> BlockIter \<Rightarrow> BlockIter" where
  "seek_linear compare target it =
     (let (ok, it') = ParseNextKey it
      in if \<not> ok then it'
         else if compare (bi_key it') target \<ge> 0 then it'
         else seek_linear compare target it')"
  by pat_completeness auto
termination
proof (relation "measure (\<lambda>(compare, target, it). bi_restarts it - NextEntryOffset it)", goal_cases)
  case (2 compare target it x ok it')
  then have "ParseNextKey it = (True, it')" by auto
  from ParseNextKey_moves [OF this] show ?case by auto
qed simp

declare seek_linear.simps [simp del]

definition bi_Seek :: "(bytes \<Rightarrow> bytes \<Rightarrow> int) \<Rightarrow> BlockIter \<Rightarrow> bytes \<Rightarrow> BlockIter" where
  "bi_Seek compare it target =
     (case seek_restart compare it target 0 (bi_num_restarts it - 1) of
        None \<Rightarrow> CorruptionError it
      | Some left \<Rightarrow> seek_linear compare target (SeekToRestartPoint it left))"

definition bi_SeekToFirst :: "BlockIter \<Rightarrow> BlockIter" where
  "bi_SeekToFirst it = snd (ParseNextKey (SeekToRestartPoint it 0))"

definition bi_SeekToLast :: "BlockIter \<Rightarrow> BlockIter" where
  "bi_SeekToLast it = bi_scan (bi_restarts it) (SeekToRestartPoint it (bi_num_restarts it - 1))"

definition BlockIterator :: "(bytes \<Rightarrow> bytes \<Rightarrow> int) \<Rightarrow> BlockIter Iterator" where
  "BlockIterator compare =
     \<lparr> it_Valid = bi_Valid, it_SeekToFirst = bi_SeekToFirst, it_SeekToLast = bi_SeekToLast,
       it_Seek = bi_Seek compare, it_Next = bi_Next, it_Prev = bi_Prev,
       it_key = bi_key, it_value = bi_value, it_status = bi_status \<rparr>"

text \<open>An iterator without entries, with its status, or one over the block.\<close>

definition Block_NewIterator :: "Block \<Rightarrow> status + BlockIter" where
  "Block_NewIterator b =
     (if blk_size b < 4 then Inl (NewErrorIterator (status_Corruption (str ''bad block contents'') []))
      else (let num_restarts = blk_NumRestarts (blk_data b) in
            if num_restarts = 0 then Inl NewEmptyIterator
            else Inr (BlockIter_new (blk_data b) (blk_restart_offset b) num_restarts)))"

section \<open>The layout of a block\<close>

text \<open>
  A laid out entry is its number of shared key bytes, its key and its value. A block is the
  encodings of its entries, the offsets of the entries at the restart indices, and their number.
\<close>

type_synonym lentry = "nat \<times> bytes \<times> bytes"

abbreviation le_shared :: "lentry \<Rightarrow> nat" where "le_shared e \<equiv> fst e"
abbreviation le_key :: "lentry \<Rightarrow> bytes" where "le_key e \<equiv> fst (snd e)"
abbreviation le_value :: "lentry \<Rightarrow> bytes" where "le_value e \<equiv> snd (snd e)"

definition block_entry :: "lentry \<Rightarrow> bytes" where
  "block_entry e = EncodeVarint32 (word_of_nat (le_shared e)) @
     EncodeVarint32 (word_of_nat (length (le_key e) - le_shared e)) @
     EncodeVarint32 (word_of_nat (length (le_value e))) @ drop (le_shared e) (le_key e) @ le_value e"

abbreviation entry_offset :: "lentry list \<Rightarrow> nat \<Rightarrow> nat" where
  "entry_offset es i \<equiv> part_start (map block_entry es) i"

definition shares :: "bytes \<Rightarrow> lentry \<Rightarrow> bool" where
  "shares k e \<longleftrightarrow> le_shared e \<le> length (le_key e) \<and> le_shared e \<le> length k \<and>
     take (le_shared e) k = take (le_shared e) (le_key e)"

definition entries_ok :: "lentry list \<Rightarrow> bool" where
  "entries_ok es \<longleftrightarrow> (\<forall>i<length es. shares (if i = 0 then [] else le_key (es ! (i - 1))) (es ! i))"

definition restarts_ok :: "lentry list \<Rightarrow> nat list \<Rightarrow> bool" where
  "restarts_ok es rs \<longleftrightarrow> rs \<noteq> [] \<and> rs ! 0 = 0 \<and>
     (if es = [] then rs = [0] else \<forall>r\<in>set rs. r < length es \<and> le_shared (es ! r) = 0)"

definition block_data :: "lentry list \<Rightarrow> nat list \<Rightarrow> bytes" where
  "block_data es rs = concat (map block_entry es) @
     concat (map EncodeFixed32 (map (\<lambda>r. word_of_nat (entry_offset es r)) rs)) @ EncodeFixed32 (word_of_nat (length rs))"

definition block_layout :: "bytes \<Rightarrow> lentry list \<Rightarrow> nat list \<Rightarrow> bool" where
  "block_layout data es rs \<longleftrightarrow> entries_ok es \<and> restarts_ok es rs \<and> data = block_data es rs \<and> length data < 2 ^ 32"

lemma length_block_data:
  "length (block_data es rs) = length (concat (map block_entry es)) + 4 * length rs + 4"
  by (simp add: block_data_def length_fixed32_array del: map_map)

lemma length_block_entry:
  "length (block_entry e) \<ge> 3"
  "length (block_entry e) \<ge> length (le_key e) - le_shared e + length (le_value e)"
proof -
  have "0 < length (EncodeVarint32 v)" for v by simp
  from this [of "word_of_nat (le_shared e)"] this [of "word_of_nat (length (le_key e) - le_shared e)"]
    this [of "word_of_nat (length (le_value e))"]
  show "length (block_entry e) \<ge> 3" unfolding block_entry_def length_append by linarith
qed (simp add: block_entry_def)

lemma entry_offset_strict:
  "i < j \<Longrightarrow> j \<le> length es \<Longrightarrow> entry_offset es i < entry_offset es j"
proof (induction j)
  case (Suc j)
  have "entry_offset es (Suc j) = entry_offset es j + length (block_entry (es ! j))"
    using Suc.prems part_start_Suc [of j "map block_entry es"] by simp
  with Suc length_block_entry(1) [of "es ! j"] show ?case by (cases "i = j") auto
qed simp

lemma entry_offset_less_iff:
  assumes "i \<le> length es" "j \<le> length es"
  shows "entry_offset es i < entry_offset es j \<longleftrightarrow> i < j"
proof (cases rule: linorder_cases [of i j])
  case less
  with assms show ?thesis using entry_offset_strict by simp
next
  case greater
  with assms show ?thesis using entry_offset_strict [of j i es] by simp
qed simp

lemma entry_offset_end: "entry_offset es (length es) = length (concat (map block_entry es))"
  by (simp add: part_start_def)

section \<open>Decoding an entry\<close>

lemma or_less_128: "(a OR b :: u32) < 128 \<longleftrightarrow> a < 128 \<and> b < 128"
proof -
  have d: "x < 128 \<longleftrightarrow> drop_bit 7 x = 0" for x :: u32
    by (simp add: word_less_nat_alt unat_eq_0 [symmetric] unat_drop_bit div_eq_0_iff)
  show ?thesis unfolding d by (simp add: or_eq_0_iff)
qed

lemma GetVarint32Ptr_one_byte:
  assumes "p \<noteq> []" "(ucast (p ! 0) :: u32) < 128"
  shows "GetVarint32Ptr p = Some (ucast (p ! 0), drop 1 p)"
proof -
  have "drop_bit 7 (ucast (p ! 0) :: u32) = 0"
    using assms(2) by (simp add: word_less_nat_alt unat_eq_0 [symmetric] unat_drop_bit div_eq_0_iff)
  then have "\<not> bit (drop_bit 7 (ucast (p ! 0) :: u32)) 0" by simp
  then have "\<not> bit (ucast (p ! 0) :: u32) 7" by (simp only: bit_drop_bit_eq comp_def add_0_right not_False_eq_True)
  then have "(ucast (p ! 0) :: u32) AND 128 = 0"
    using and_exp_eq_0_iff_not_bit [of "ucast (p ! 0) :: u32" 7] by simp
  with assms(1) show ?thesis by (cases p) (simp_all add: GetVarint32Ptr_def)
qed

definition decode_lengths :: "bytes \<Rightarrow> (u32 \<times> u32 \<times> u32 \<times> bytes) option" where
  "decode_lengths p =
     (case GetVarint32Ptr p of None \<Rightarrow> None
      | Some (shared, p) \<Rightarrow> (case GetVarint32Ptr p of None \<Rightarrow> None
        | Some (non_shared, p) \<Rightarrow> (case GetVarint32Ptr p of None \<Rightarrow> None
          | Some (value_length, p) \<Rightarrow> Some (shared, non_shared, value_length, p))))"

text \<open>The fast path of \<open>DecodeEntry\<close> agrees with the slow one.\<close>

lemma DecodeEntry_slow:
  "DecodeEntry p =
     (if length p < 3 then None
      else case decode_lengths p of None \<Rightarrow> None
        | Some (shared, non_shared, value_length, p) \<Rightarrow>
            if (word_of_nat (length p) :: u32) < non_shared + value_length then None
            else Some (shared, non_shared, value_length, p))"
proof (cases "3 \<le> length p \<and> ((ucast (p ! 0) :: u32) OR ucast (p ! 1) OR ucast (p ! 2)) < 128")
  case True
  then obtain a b c q where p: "p = a # b # c # q"
    by (auto simp: numeral_3_eq_3 Suc_le_length_iff)
  from True have "(ucast a :: u32) < 128" "(ucast b :: u32) < 128" "(ucast c :: u32) < 128"
    by (simp_all add: p or_less_128)
  then have "decode_lengths p = Some (ucast a, ucast b, ucast c, q)"
    by (simp add: p decode_lengths_def GetVarint32Ptr_one_byte)
  with True show ?thesis by (simp add: DecodeEntry_def Let_def p)
next
  case False
  then show ?thesis by (auto simp: DecodeEntry_def decode_lengths_def Let_def not_le)
qed

lemma DecodeEntry_block_entry:
  assumes "length (block_entry e @ rest) < 2 ^ 32" "le_shared e \<le> length (le_key e)"
    "le_shared e < 2 ^ 32"
  shows "DecodeEntry (block_entry e @ rest) =
    Some (word_of_nat (le_shared e), word_of_nat (length (le_key e) - le_shared e), word_of_nat (length (le_value e)),
      drop (le_shared e) (le_key e) @ le_value e @ rest)"
proof -
  let ?q = "drop (le_shared e) (le_key e) @ le_value e @ rest"
  have "decode_lengths (block_entry e @ rest) =
    Some (word_of_nat (le_shared e), word_of_nat (length (le_key e) - le_shared e), word_of_nat (length (le_value e)), ?q)"
    by (simp add: decode_lengths_def block_entry_def codec_rt)
  moreover have "\<not> (word_of_nat (length ?q) :: u32) <
      word_of_nat (length (le_key e) - le_shared e) + word_of_nat (length (le_value e))"
  proof -
    have "length ?q < 2 ^ 32"
      using assms(1) length_block_entry(2) [of e] by simp
    moreover have "length (le_key e) - le_shared e + length (le_value e) \<le> length ?q" by simp
    ultimately show ?thesis
      unfolding of_nat_add [symmetric] word_less_nat_alt
      by (simp add: unat_of_nat take_bit_nat_eq_self not_less del: of_nat_add length_append length_drop)
  qed
  ultimately show ?thesis using length_block_entry(1) [of e] by (simp add: DecodeEntry_slow not_less)
qed

section \<open>Iterating over a laid out block\<close>

definition bi_over :: "BlockIter \<Rightarrow> lentry list \<Rightarrow> nat list \<Rightarrow> bool" where
  "bi_over it es rs \<longleftrightarrow> block_layout (bi_data it) es rs \<and> bi_status it = OK \<and>
     bi_restarts it = entry_offset es (length es) \<and> bi_num_restarts it = length rs"

text \<open>The iterator is at entry \<open>i\<close>, or past the end, or about to parse entry \<open>i\<close>.\<close>

definition bi_at :: "BlockIter \<Rightarrow> lentry list \<Rightarrow> nat list \<Rightarrow> nat \<Rightarrow> bool" where
  "bi_at it es rs i \<longleftrightarrow> bi_over it es rs \<and> i \<le> length es \<and> bi_current it = entry_offset es i \<and>
     (i < length es \<longrightarrow> bi_restart_index it < length rs \<and> bi_key it = le_key (es ! i) \<and>
        NextEntryOffset it = entry_offset es (i + 1) \<and> bi_value it = le_value (es ! i))"

definition bi_before :: "BlockIter \<Rightarrow> lentry list \<Rightarrow> nat list \<Rightarrow> nat \<Rightarrow> bool" where
  "bi_before it es rs i \<longleftrightarrow> bi_over it es rs \<and> i \<le> length es \<and> NextEntryOffset it = entry_offset es i \<and>
     bi_restart_index it < length rs \<and> (i < length es \<longrightarrow> shares (bi_key it) (es ! i))"

lemma bi_over_limits:
  assumes "bi_over it es rs"
  shows "length (bi_data it) < 2 ^ 32" "bi_restarts it + 4 * length rs + 4 = length (bi_data it)"
  using assms by (auto simp: bi_over_def block_layout_def length_block_data entry_offset_end)

lemma bi_over_bytes:
  assumes "bi_over it es rs" "i < length es"
  shows "take (bi_restarts it - entry_offset es i) (drop (entry_offset es i) (bi_data it)) =
    block_entry (es ! i) @ concat (map block_entry (drop (Suc i) es))"
proof -
  let ?B = "concat (map block_entry es)"
  have d: "bi_data it = ?B @ drop (length ?B) (bi_data it)" and r: "bi_restarts it = length ?B"
    using assms(1) by (simp_all add: bi_over_def block_layout_def block_data_def entry_offset_end)
  have le: "entry_offset es i \<le> length ?B" by (rule part_start_le)
  have "?B = concat (map block_entry (take i es)) @ block_entry (es ! i) @ concat (map block_entry (drop (Suc i) es))"
    using arg_cong [OF id_take_nth_drop [OF assms(2)], of "\<lambda>xs. concat (map block_entry xs)"] by simp
  moreover have "entry_offset es i = length (concat (map block_entry (take i es)))"
    by (simp add: part_start_def take_map)
  ultimately have "drop (entry_offset es i) ?B = block_entry (es ! i) @ concat (map block_entry (drop (Suc i) es))"
    by simp
  moreover have "take (bi_restarts it - entry_offset es i) (drop (entry_offset es i) (bi_data it)) = drop (entry_offset es i) ?B"
    using le unfolding r by (subst d) simp
  ultimately show ?thesis by simp
qed

text \<open>A key is no longer than the bytes that encode it and its predecessors.\<close>

lemma key_length_offset: "entries_ok es \<Longrightarrow> i < length es \<Longrightarrow> length (le_key (es ! i)) \<le> entry_offset es (Suc i)"
proof (induction i)
  case 0
  then have "shares [] (es ! 0)" by (auto simp: entries_ok_def)
  with 0 length_block_entry(2) [of "es ! 0"] part_start_Suc [of 0 "map block_entry es"]
  show ?case by (simp add: shares_def)
next
  case (Suc i)
  then have "shares (le_key (es ! i)) (es ! Suc i)" by (auto simp: entries_ok_def)
  then have "length (le_key (es ! Suc i)) \<le> length (le_key (es ! i)) + length (block_entry (es ! Suc i))"
    using length_block_entry(2) [of "es ! Suc i"] unfolding shares_def by linarith
  with Suc part_start_Suc [of "Suc i" "map block_entry es"] show ?case by simp
qed

lemma bi_over_key_length:
  assumes "bi_over it es rs" "i < length es"
  shows "length (le_key (es ! i)) < 2 ^ 32"
proof -
  have "length (le_key (es ! i)) \<le> entry_offset es (Suc i)"
    using assms by (intro key_length_offset) (auto simp: bi_over_def block_layout_def)
  then show ?thesis
    using bi_over_limits [OF assms(1)] part_start_le [of "map block_entry es" "Suc i"] assms(1)
    by (simp add: bi_over_def entry_offset_end)
qed

lemma bi_over_DecodeEntry:
  assumes "bi_over it es rs" "i < length es"
  shows "DecodeEntry (take (bi_restarts it - entry_offset es i) (drop (entry_offset es i) (bi_data it))) =
    Some (word_of_nat (le_shared (es ! i)), word_of_nat (length (le_key (es ! i)) - le_shared (es ! i)),
      word_of_nat (length (le_value (es ! i))),
      drop (le_shared (es ! i)) (le_key (es ! i)) @ le_value (es ! i) @ concat (map block_entry (drop (Suc i) es)))"
    and "length (block_entry (es ! i) @ concat (map block_entry (drop (Suc i) es))) = bi_restarts it - entry_offset es i"
proof -
  have len: "length (block_entry (es ! i) @ concat (map block_entry (drop (Suc i) es))) = bi_restarts it - entry_offset es i"
    using arg_cong [OF bi_over_bytes [OF assms], of length] bi_over_limits(2) [OF assms(1)]
      part_start_le [of "map block_entry es" i] assms(1)
    by (simp add: bi_over_def entry_offset_end)
  show "length (block_entry (es ! i) @ concat (map block_entry (drop (Suc i) es))) = bi_restarts it - entry_offset es i"
    by (rule len)
  have small: "length (block_entry (es ! i) @ concat (map block_entry (drop (Suc i) es))) < 2 ^ 32"
    unfolding len using bi_over_limits [OF assms(1)] by linarith
  have sh: "le_shared (es ! i) \<le> length (le_key (es ! i))"
    using assms by (auto simp: bi_over_def block_layout_def entries_ok_def shares_def)
  note klen = bi_over_key_length [OF assms]
  show "DecodeEntry (take (bi_restarts it - entry_offset es i) (drop (entry_offset es i) (bi_data it))) =
    Some (word_of_nat (le_shared (es ! i)), word_of_nat (length (le_key (es ! i)) - le_shared (es ! i)),
      word_of_nat (length (le_value (es ! i))),
      drop (le_shared (es ! i)) (le_key (es ! i)) @ le_value (es ! i) @ concat (map block_entry (drop (Suc i) es)))"
    unfolding bi_over_bytes [OF assms] using small sh klen by (intro DecodeEntry_block_entry) linarith+
qed

lemma unat_word_of_nat_u32: "n < 2 ^ 32 \<Longrightarrow> unat (word_of_nat n :: u32) = n"
  by (simp add: unat_of_nat take_bit_nat_eq_self)

lemma advance_restart_bound: "bi_restart_index it < bi_num_restarts it \<Longrightarrow>
    bi_restart_index (advance_restart it) < bi_num_restarts it"
  by (induction it rule: advance_restart.induct) (subst advance_restart.simps, simp)

lemma ParseNextKey_end:
  assumes "bi_before it es rs (length es)"
  shows "fst (ParseNextKey it) = False \<and> bi_at (snd (ParseNextKey it)) es rs (length es)"
  using assms by (simp add: bi_before_def bi_at_def bi_over_def ParseNextKey_def Let_def)

lemma ParseNextKey_entry:
  assumes b: "bi_before it es rs i" and i: "i < length es"
  shows "fst (ParseNextKey it) = True \<and> bi_at (snd (ParseNextKey it)) es rs i"
proof -
  let ?e = "es ! i" and ?rest = "concat (map block_entry (drop (Suc i) es))"
  have o: "bi_over it es rs" and n: "NextEntryOffset it = entry_offset es i" and sh: "shares (bi_key it) ?e"
    using b i by (auto simp: bi_before_def)
  note lim = bi_over_limits [OF o]
  have lt: "entry_offset es i < bi_restarts it"
    using o i entry_offset_strict [of i "length es" es] by (simp add: bi_over_def)
  note klen = bi_over_key_length [OF o i]
  have suc: "entry_offset es (Suc i) = entry_offset es i + length (block_entry ?e)"
    using i part_start_Suc [of i "map block_entry es"] by simp
  have total: "length (block_entry ?e) + length ?rest = bi_restarts it - entry_offset es i"
    using bi_over_DecodeEntry(2) [OF o i] by simp
  have vlen: "length (le_value ?e) < 2 ^ 32"
    using length_block_entry(2) [of ?e] total lim by linarith
  define dk where "dk = drop (le_shared ?e) (le_key ?e)"
  have dk: "length (le_key ?e) - le_shared ?e = length dk" by (simp add: dk_def)
  have u: "unat (word_of_nat (le_shared ?e) :: u32) = le_shared ?e"
      "unat (word_of_nat (length dk) :: u32) = length dk"
      "unat (word_of_nat (length (le_value ?e)) :: u32) = length (le_value ?e)"
    using klen vlen sh unfolding shares_def dk [symmetric] by (intro unat_word_of_nat_u32, linarith)+
  define it1 where "it1 = it \<lparr> bi_current := entry_offset es i, bi_key := le_key ?e,
      bi_value_at := entry_offset es (Suc i) - length (le_value ?e), bi_value_len := length (le_value ?e) \<rparr>"
  have at: "bi_restarts it - (length dk + (length (le_value ?e) + length ?rest)) + length dk =
      entry_offset es (Suc i) - length (le_value ?e)"
    using total suc lt length_block_entry(2) [of ?e] dk by linarith
  have key: "take (le_shared ?e) (bi_key it) @ dk = le_key ?e" and len: "\<not> length (bi_key it) < le_shared ?e"
    using sh by (simp_all add: shares_def dk_def)
  have "DecodeEntry (take (bi_restarts it - entry_offset es i) (drop (entry_offset es i) (bi_data it))) =
      Some (word_of_nat (le_shared ?e), word_of_nat (length dk), word_of_nat (length (le_value ?e)), dk @ le_value ?e @ ?rest)"
    unfolding bi_over_DecodeEntry(1) [OF o i] dk dk_def by simp
  with key have P: "ParseNextKey it = (True, advance_restart it1)"
    using n lt len unfolding ParseNextKey_def Let_def by (simp add: u at it1_def)
  have val: "take (length (le_value ?e)) (drop (entry_offset es (Suc i) - length (le_value ?e)) (bi_data it)) = le_value ?e"
  proof -
    obtain pre where pre: "block_entry ?e = pre @ le_value ?e" unfolding block_entry_def by fastforce
    have "take (length (le_value ?e)) (drop (length pre) (take (bi_restarts it - entry_offset es i)
        (drop (entry_offset es i) (bi_data it)))) = le_value ?e"
      unfolding bi_over_bytes [OF o i] pre by simp
    moreover have "entry_offset es (Suc i) - length (le_value ?e) = entry_offset es i + length pre"
      using suc pre by simp
    moreover have "length pre + length (le_value ?e) \<le> bi_restarts it - entry_offset es i"
      using total pre by simp
    ultimately show ?thesis by (simp add: drop_take add.commute)
  qed
  have "bi_over it1 es rs" using o by (simp add: bi_over_def it1_def)
  moreover have "bi_restart_index (advance_restart it1) < length rs"
    using advance_restart_bound [of it1] b by (simp add: it1_def bi_before_def bi_over_def)
  moreover have "length (le_value ?e) \<le> entry_offset es (Suc i)"
    using suc length_block_entry(2) [of ?e] by linarith
  ultimately show ?thesis
    unfolding P using i val by (simp add: bi_at_def bi_over_def it1_def NextEntryOffset_def bi_value_def)
qed


lemma bi_at_before: "bi_at it es rs i \<Longrightarrow> i < length es \<Longrightarrow> bi_before it es rs (Suc i)"
  unfolding bi_at_def bi_before_def bi_over_def block_layout_def entries_ok_def by auto

lemma GetRestartPoint_offset:
  assumes "bi_over it es rs" "j < length rs"
  shows "GetRestartPoint it j = entry_offset es (rs ! j)"
proof -
  let ?B = "concat (map block_entry es)" and ?ws = "map (\<lambda>r. word_of_nat (entry_offset es r) :: u32) rs"
  have d: "bi_data it = ?B @ concat (map EncodeFixed32 ?ws) @ EncodeFixed32 (word_of_nat (length rs))"
    and r: "bi_restarts it = length ?B"
    using assms(1) by (simp_all add: bi_over_def block_layout_def block_data_def entry_offset_end)
  have "drop (bi_restarts it + j * 4) (bi_data it) = EncodeFixed32 (?ws ! j) @
      concat (map EncodeFixed32 (drop (Suc j) ?ws)) @ EncodeFixed32 (word_of_nat (length rs))"
    unfolding d r using assms(2) drop_fixed32_array [of j ?ws] by (simp add: mult.commute del: map_map)
  moreover have "entry_offset es (rs ! j) < 2 ^ 32"
    using bi_over_limits [OF assms(1)] part_start_le [of "map block_entry es" "rs ! j"] r by linarith
  ultimately show ?thesis
    using assms(2) by (simp add: GetRestartPoint_def unat_word_of_nat_u32 del: map_map)
qed

lemma restart_index_le: "bi_over it es rs \<Longrightarrow> j < length rs \<Longrightarrow> rs ! j \<le> length es"
  by (auto simp: bi_over_def block_layout_def restarts_ok_def less_imp_le split: if_splits)

lemma SeekToRestartPoint_before:
  assumes "bi_over it es rs" "j < length rs"
  shows "bi_before (SeekToRestartPoint it j) es rs (rs ! j)"
proof -
  have "le_shared (es ! (rs ! j)) = 0" if "rs ! j < length es"
    using assms that by (auto simp: bi_over_def block_layout_def restarts_ok_def split: if_splits dest: nth_mem)
  with assms restart_index_le [OF assms] show ?thesis
    by (auto simp: bi_before_def SeekToRestartPoint_def NextEntryOffset_def GetRestartPoint_offset bi_over_def shares_def)
qed

lemma bi_scan_at:
  assumes "bi_before it es rs i" "i < j" "j \<le> length es"
  shows "bi_at (bi_scan (entry_offset es j) it) es rs (j - 1)"
  using assms
proof (induction "j - i" arbitrary: it i)
  case (Suc n)
  have i: "i < length es" using Suc.prems by simp
  obtain it' where P: "ParseNextKey it = (True, it')" and at: "bi_at it' es rs i"
    using ParseNextKey_entry [OF Suc.prems(1) i] by (metis prod.collapse)
  have "NextEntryOffset it' = entry_offset es (Suc i)" using at i by (simp add: bi_at_def)
  then have c: "NextEntryOffset it' < entry_offset es j \<longleftrightarrow> Suc i < j"
    using entry_offset_less_iff [of "Suc i" es j] Suc.prems i by simp
  show ?case
  proof (cases "Suc i < j")
    case True
    then show ?thesis
      using Suc.hyps(1) [of "Suc i" it'] Suc.hyps(2) Suc.prems bi_at_before [OF at i] c
      by (subst bi_scan.simps) (simp add: P)
  next
    case False
    with Suc.prems have "i = j - 1" by simp
    with at c False show ?thesis by (subst bi_scan.simps) (simp add: P)
  qed
qed simp

lemma prev_restart_found:
  assumes "bi_over it es rs" "j < length rs" "i \<le> length es"
  shows "case prev_restart it (entry_offset es i) j of None \<Rightarrow> i = 0 | Some k \<Rightarrow> k < length rs \<and> rs ! k < i"
  using assms(2)
proof (induction j)
  case 0
  have "rs ! 0 = 0" using assms(1) by (simp add: bi_over_def block_layout_def restarts_ok_def)
  with 0 show ?case
    using entry_offset_less_iff [of 0 es i] assms(3)
    by (subst prev_restart.simps) (simp add: GetRestartPoint_offset [OF assms(1)])
next
  case (Suc j)
  have "GetRestartPoint it (Suc j) < entry_offset es i \<longleftrightarrow> rs ! Suc j < i"
    using Suc.prems restart_index_le [OF assms(1)] entry_offset_less_iff [of "rs ! Suc j" es i] assms(3)
    by (simp add: GetRestartPoint_offset [OF assms(1)])
  with Suc show ?case by (subst prev_restart.simps) simp
qed

lemma bi_Prev_at:
  assumes at: "bi_at it es rs i" and i: "i < length es"
  shows "bi_at (bi_Prev it) es rs (if i = 0 then length es else i - 1)"
proof -
  have o: "bi_over it es rs" and c: "bi_current it = entry_offset es i" and ri: "bi_restart_index it < length rs"
    using assms by (auto simp: bi_at_def)
  note p = prev_restart_found [OF o ri less_imp_le [OF i]]
  show ?thesis
  proof (cases "prev_restart it (entry_offset es i) (bi_restart_index it)")
    case None
    then have "i = 0" using p by simp
    with None o c show ?thesis by (simp add: bi_Prev_def bi_at_def bi_over_def)
  next
    case (Some k)
    with p have k: "k < length rs" "rs ! k < i" by auto
    have "bi_at (bi_scan (entry_offset es i) (SeekToRestartPoint it k)) es rs (i - 1)"
      using bi_scan_at [OF SeekToRestartPoint_before [OF o k(1)] k(2)] i by simp
    with Some k c show ?thesis by (simp add: bi_Prev_def)
  qed
qed

lemma bi_Next_at:
  assumes "bi_at it es rs i" "i < length es"
  shows "bi_at (bi_Next it) es rs (Suc i)"
proof -
  note b = bi_at_before [OF assms]
  show ?thesis
    using ParseNextKey_entry [OF b] ParseNextKey_end [of it es rs] b assms(2)
    by (cases "Suc i = length es") (auto simp: bi_Next_def)
qed

lemma bi_SeekToFirst_at:
  assumes "bi_over it es rs"
  shows "bi_at (bi_SeekToFirst it) es rs 0"
proof -
  have rs: "rs \<noteq> []" "rs ! 0 = 0" using assms by (auto simp: bi_over_def block_layout_def restarts_ok_def)
  then have b: "bi_before (SeekToRestartPoint it 0) es rs 0" using SeekToRestartPoint_before [OF assms, of 0] by simp
  show ?thesis
    using ParseNextKey_entry [OF b] ParseNextKey_end [of "SeekToRestartPoint it 0" es rs] b
    by (cases "es = []") (auto simp: bi_SeekToFirst_def)
qed

lemma bi_SeekToLast_at:
  assumes o: "bi_over it es rs"
  shows "bi_at (bi_SeekToLast it) es rs (length es - 1)"
proof -
  have r: "bi_num_restarts it = length rs" "rs \<noteq> []" "bi_restarts it = entry_offset es (length es)"
    using o by (auto simp: bi_over_def block_layout_def restarts_ok_def)
  have b: "bi_before (SeekToRestartPoint it (length rs - 1)) es rs (rs ! (length rs - 1))"
    using SeekToRestartPoint_before [OF o] r by simp
  show ?thesis
  proof (cases "es = []")
    case True
    then have b0: "bi_before (SeekToRestartPoint it (length rs - 1)) es rs (length es)"
      using b o r(2) by (auto simp: bi_over_def block_layout_def restarts_ok_def split: if_splits)
    show ?thesis
      using ParseNextKey_end [OF b0] True r unfolding bi_SeekToLast_def
      by (subst bi_scan.simps) (auto simp: split_beta)
  next
    case False
    then have "rs ! (length rs - 1) < length es"
      using o r(2) by (auto simp: bi_over_def block_layout_def restarts_ok_def)
    from bi_scan_at [OF b this] r show ?thesis by (simp add: bi_SeekToLast_def)
  qed
qed

lemma seek_linear_at:
  assumes "bi_before it es rs i"
  shows "bi_at (seek_linear compare t it) es rs (i + length (takeWhile (\<lambda>e. compare (le_key e) t < 0) (drop i es)))"
  using assms
proof (induction "length es - i" arbitrary: it i)
  case 0
  then have "i = length es" by (simp add: bi_before_def)
  with ParseNextKey_end [of it es rs] 0 show ?case by (subst seek_linear.simps) (auto simp: split_beta)
next
  case (Suc n)
  have i: "i < length es" using Suc.hyps(2) by simp
  obtain it' where P: "ParseNextKey it = (True, it')" and at: "bi_at it' es rs i"
    using ParseNextKey_entry [OF Suc.prems i] by (metis prod.collapse)
  have k: "bi_key it' = le_key (es ! i)" using at i by (simp add: bi_at_def)
  show ?case
  proof (cases "compare (le_key (es ! i)) t < 0")
    case True
    then show ?thesis
      using Suc.hyps(1) [of "Suc i" it'] Suc.hyps(2) bi_at_before [OF at i] i k
      by (subst seek_linear.simps) (simp add: P Cons_nth_drop_Suc [symmetric])
  next
    case False
    then show ?thesis using at i k
      by (subst seek_linear.simps) (simp add: P Cons_nth_drop_Suc [symmetric])
  qed
qed

text \<open>The binary search ends at a restart point that is the first, or whose key is below the target.\<close>

lemma seek_restart_found:
  assumes o: "bi_over it es rs"
  shows "right < length rs \<Longrightarrow> left \<le> right \<Longrightarrow>
    left = 0 \<or> rs ! left < length es \<and> compare (le_key (es ! (rs ! left))) t < 0 \<Longrightarrow>
    \<exists>l. seek_restart compare it t left right = Some l \<and> l < length rs \<and>
      (l = 0 \<or> rs ! l < length es \<and> compare (le_key (es ! (rs ! l))) t < 0)"
proof (induction "right - left" arbitrary: left right rule: less_induct)
  case less
  show ?case
  proof (cases "left < right")
    case True
    define mid where "mid = (left + right + 1) div 2"
    have mid: "left < mid" "mid \<le> right" using True by (auto simp: mid_def)
    then have ml: "mid < length rs" using less.prems by simp
    have ne: "es \<noteq> []" using o ml mid by (auto simp: bi_over_def block_layout_def restarts_ok_def)
    have e: "rs ! mid < length es" "le_shared (es ! (rs ! mid)) = 0"
      using o ml ne by (auto simp: bi_over_def block_layout_def restarts_ok_def)
    define q where "q = le_value (es ! (rs ! mid)) @ concat (map block_entry (drop (Suc (rs ! mid)) es))"
    have D: "DecodeEntry (take (bi_restarts it - GetRestartPoint it mid) (drop (GetRestartPoint it mid) (bi_data it))) =
        Some (0, word_of_nat (length (le_key (es ! (rs ! mid)))), word_of_nat (length (le_value (es ! (rs ! mid)))),
          le_key (es ! (rs ! mid)) @ q)"
      unfolding GetRestartPoint_offset [OF o ml] bi_over_DecodeEntry(1) [OF o e(1)] q_def by (simp add: e(2))
    have "length (le_key (es ! (rs ! mid))) < 2 ^ 32" using bi_over_key_length [OF o e(1)] .
    then have K: "unat (word_of_nat (length (le_key (es ! (rs ! mid)))) :: u32) = length (le_key (es ! (rs ! mid)))"
      by (rule unat_word_of_nat_u32)
    have step: "seek_restart compare it t left right =
        (if compare (le_key (es ! (rs ! mid))) t < 0 then seek_restart compare it t mid right
         else seek_restart compare it t left (mid - 1))"
      using True by (subst seek_restart.simps) (simp add: Let_def mid_def [unfolded Suc_eq_plus1 [symmetric], symmetric] D K)
    show ?thesis
      using less.hyps [of right mid] less.hyps [of "mid - 1" left] less.prems mid e(1) unfolding step by auto
  next
    case False
    with less.prems show ?thesis by (subst seek_restart.simps) auto
  qed
qed

section \<open>The iterator keeps the promise\<close>

definition block_rep :: "(bytes \<Rightarrow> bytes \<Rightarrow> int) \<Rightarrow> (bytes \<Rightarrow> bool) \<Rightarrow> BlockIter \<Rightarrow> entry list \<Rightarrow> nat \<Rightarrow> bool" where
  "block_rep compare valid it kvs i \<longleftrightarrow>
     sorted_wrt (\<lambda>a b. compare (fst a) (fst b) < 0) kvs \<and> (\<forall>e\<in>set kvs. valid (fst e)) \<and>
     (\<exists>es rs. bi_at it es rs i \<and> kvs = map snd es)"

context key_order
begin

lemma bi_Seek_at:
  assumes o: "bi_over it es rs" and t: "valid t"
    and s: "sorted_wrt (\<lambda>a b. compare (fst a) (fst b) < 0) (map snd es)" and v: "\<forall>e\<in>set (map snd es). valid (fst e)"
  shows "bi_at (bi_Seek compare it t) es rs (seek_pos compare (map snd es) t)"
proof -
  have r: "bi_num_restarts it = length rs" "0 < length rs"  "rs ! 0 = 0"
    using o by (auto simp: bi_over_def block_layout_def restarts_ok_def)
  obtain l where l: "seek_restart compare it t 0 (length rs - 1) = Some l" "l < length rs"
    "l = 0 \<or> rs ! l < length es \<and> compare (le_key (es ! (rs ! l))) t < 0"
    using seek_restart_found [OF o, of "length rs - 1" 0 compare t] r by auto
  let ?n = "rs ! l + length (takeWhile (\<lambda>e. compare (le_key e) t < 0) (drop (rs ! l) es))"
  have below: "compare (le_key (es ! j)) t < 0" if j: "j < rs ! l" for j
  proof -
    have lt: "rs ! l < length es" "compare (le_key (es ! (rs ! l))) t < 0" using l(3) j r(3) by auto
    have "compare (le_key (es ! j)) (le_key (es ! (rs ! l))) < 0"
      using sorted_wrt_nth_less [OF s j] lt j by simp
    moreover have "valid (le_key (es ! j))" "valid (le_key (es ! (rs ! l)))" using v lt j by auto
    ultimately show ?thesis using lt_trans [of _ "le_key (es ! (rs ! l))"] lt t by blast
  qed
  have "seek_pos compare (map snd es) t = length (takeWhile (\<lambda>e. compare (le_key e) t < 0) es)"
    by (simp add: seek_pos_def takeWhile_map comp_def)
  also have "\<dots> = ?n" using restart_index_le [OF o l(2)] below by (rule takeWhile_after)
  finally show ?thesis
    using seek_linear_at [OF SeekToRestartPoint_before [OF o l(2)]] l r by (simp add: bi_Seek_def)
qed

end

sublocale key_order \<subseteq> block: iterator compare valid "BlockIterator compare" "block_rep compare valid"
proof
  fix it kvs i assume b: "block_rep compare valid it kvs i"
  then obtain es rs where at: "bi_at it es rs i" and kvs: "kvs = map snd es"
    and s: "sorted_wrt (\<lambda>a b. compare (fst a) (fst b) < 0) kvs" and v: "\<forall>e\<in>set kvs. valid (fst e)"
    by (auto simp: block_rep_def)
  have o: "bi_over it es rs" and c: "bi_current it = entry_offset es i" and i: "i \<le> length es"
    using at by (simp_all add: bi_at_def)
  have rep: "block_rep compare valid it' kvs j" if "bi_at it' es rs j" for it' j
    using that s v kvs by (auto simp: block_rep_def)
  show "i \<le> length kvs" "sorted_wrt (\<lambda>a b. compare (fst a) (fst b) < 0) kvs" using i kvs s by auto
  show "valid (fst e)" if "e \<in> set kvs" for e using v that by blast
  show "it_Valid (BlockIterator compare) it \<longleftrightarrow> i < length kvs"
    using o c entry_offset_less_iff [OF i, of "length es"] kvs
    by (simp add: BlockIterator_def bi_Valid_def bi_over_def)
  show "(it_key (BlockIterator compare) it, it_value (BlockIterator compare) it) = kvs ! i" if "i < length kvs"
    using at that kvs by (simp add: BlockIterator_def bi_at_def)
  show "it_status (BlockIterator compare) it = OK" using o by (simp add: BlockIterator_def bi_over_def)
  show "block_rep compare valid (it_SeekToFirst (BlockIterator compare) it) kvs 0"
    using bi_SeekToFirst_at [OF o] by (simp add: BlockIterator_def rep)
  show "block_rep compare valid (it_SeekToLast (BlockIterator compare) it) kvs (length kvs - 1)"
    using rep [OF bi_SeekToLast_at [OF o]] kvs by (simp add: BlockIterator_def)
  show "block_rep compare valid (it_Seek (BlockIterator compare) it t) kvs (seek_pos compare kvs t)" if "valid t" for t
    using rep [OF bi_Seek_at [OF o that]] s v kvs by (simp add: BlockIterator_def)
  show "block_rep compare valid (it_Next (BlockIterator compare) it) kvs (i + 1)" if "i < length kvs"
    using rep [OF bi_Next_at [OF at]] that kvs by (simp add: BlockIterator_def)
  show "block_rep compare valid (it_Prev (BlockIterator compare) it) kvs (if i = 0 then length kvs else i - 1)"
    if "i < length kvs"
    using rep [OF bi_Prev_at [OF at]] that kvs by (simp add: BlockIterator_def split: if_splits)
qed

section \<open>The builder lays out its entries\<close>

definition bb_rep :: "BlockBuilder \<Rightarrow> lentry list \<Rightarrow> nat list \<Rightarrow> bool" where
  "bb_rep b es rs \<longleftrightarrow> entries_ok es \<and> restarts_ok es rs \<and> bb_buffer b = concat (map block_entry es) \<and>
     bb_restarts b = map (\<lambda>r. word_of_nat (entry_offset es r)) rs \<and>
     bb_last_key b = (if es = [] then [] else le_key (last es)) \<and> (es = [] \<longrightarrow> bb_counter b = 0)"

lemma bb_rep_new: "bb_rep BlockBuilder_new [] [0]"
  by (simp add: bb_rep_def BlockBuilder_new_def entries_ok_def restarts_ok_def part_start_def)

lemma bb_rep_Reset: "bb_rep (bb_Reset b) [] [0]"
  by (simp add: bb_rep_def bb_Reset_def entries_ok_def restarts_ok_def part_start_def)

lemma entries_ok_snoc:
  assumes "entries_ok es" "shares (if es = [] then [] else le_key (last es)) e"
  shows "entries_ok (es @ [e])"
  using assms by (auto simp: entries_ok_def nth_append last_conv_nth less_Suc_eq)

lemma bb_Add_buffer:
  "bb_buffer (bb_Add n b k v) = bb_buffer b @
     block_entry (if bb_counter b < n then common_prefix_len (bb_last_key b) k else 0, k, v)"
  by (simp add: bb_Add_def block_entry_def PutVarint32_def Let_def)

lemma bb_Add_restarts:
  "bb_restarts (bb_Add n b k v) =
     (if bb_counter b < n then bb_restarts b else bb_restarts b @ [word_of_nat (length (bb_buffer b))])"
  by (simp add: bb_Add_def Let_def)

lemma bb_Add_last_key: "bb_last_key (bb_Add n b k v) = k"
  by (simp add: bb_Add_def Let_def take_common_prefix_len)

lemma bb_rep_Add:
  assumes b: "bb_rep b es rs" and n: "0 < n"
  shows "\<exists>sh rs'. bb_rep (bb_Add n b k v) (es @ [(sh, k, v)]) rs'"
proof -
  let ?last = "if es = [] then [] else le_key (last es)"
  have last: "bb_last_key b = ?last" and eo: "entries_ok es" and ro: "restarts_ok es rs"
    using b by (auto simp: bb_rep_def)
  have r_le: "r \<le> length es" if "r \<in> set rs" for r
    using ro that by (auto simp: restarts_ok_def less_imp_le split: if_splits)
  have offs: "map (\<lambda>r. word_of_nat (entry_offset (es @ [e]) r) :: u32) rs = map (\<lambda>r. word_of_nat (entry_offset es r)) rs" for e
    by (intro map_cong refl) (simp add: part_start_append r_le)
  show ?thesis
  proof (cases "bb_counter b < n")
    case True
    define sh where "sh = common_prefix_len ?last k"
    have s: "shares ?last (sh, k, v)"
      using common_prefix_len_le [of ?last k] take_common_prefix_len [of ?last k] by (simp add: shares_def sh_def)
    have "restarts_ok (es @ [(sh, k, v)]) rs"
      using ro by (auto simp: restarts_ok_def nth_append sh_def split: if_splits)
    then have "bb_rep (bb_Add n b k v) (es @ [(sh, k, v)]) rs"
      using b True entries_ok_snoc [OF eo s] offs [of "(sh, k, v)"] bb_Add_buffer [of n b k v]
        bb_Add_restarts [of n b k v] unfolding bb_rep_def last sh_def [symmetric]
      by (simp add: bb_Add_last_key)
    then show ?thesis by blast
  next
    case False
    then have ne: "es \<noteq> []" using b n by (auto simp: bb_rep_def)
    have "shares ?last (0, k, v)" by (simp add: shares_def)
    note eo' = entries_ok_snoc [OF eo this]
    have "restarts_ok (es @ [(0, k, v)]) (rs @ [length es])"
      using ro ne by (auto simp: restarts_ok_def nth_append)
    moreover have "entry_offset (es @ [e]) (length es) = length (concat (map block_entry es))" for e
      by (simp add: part_start_append entry_offset_end)
    ultimately have "bb_rep (bb_Add n b k v) (es @ [(0, k, v)]) (rs @ [length es])"
      using b False eo' offs [of "(0, k, v)"] bb_Add_buffer [of n b k v] bb_Add_restarts [of n b k v]
      unfolding bb_rep_def by (simp add: bb_Add_last_key)
    then show ?thesis by blast
  qed
qed

definition bb_add_all :: "nat \<Rightarrow> entry list \<Rightarrow> BlockBuilder" where
  "bb_add_all n kvs = foldl (\<lambda>b e. bb_Add n b (fst e) (snd e)) BlockBuilder_new kvs"

lemma bb_rep_add_all:
  assumes "0 < n"
  shows "\<exists>es rs. bb_rep (bb_add_all n kvs) es rs \<and> map snd es = kvs"
proof (induction kvs rule: rev_induct)
  case Nil
  show ?case using bb_rep_new by (auto simp: bb_add_all_def)
next
  case (snoc e kvs)
  then obtain es rs where r: "bb_rep (bb_add_all n kvs) es rs" "map snd es = kvs" by blast
  from bb_rep_Add [OF r(1) assms, of "fst e" "snd e"] obtain sh rs'
    where "bb_rep (bb_add_all n (kvs @ [e])) (es @ [(sh, fst e, snd e)]) rs'" by (auto simp: bb_add_all_def)
  with r(2) show ?case by (intro exI [of _ "es @ [(sh, fst e, snd e)]"] exI [of _ rs']) simp
qed

lemma bb_Finish_layout:
  assumes "bb_rep b es rs" "length (fst (bb_Finish b)) < 2 ^ 32"
  shows "block_layout (fst (bb_Finish b)) es rs"
  using assms
  by (simp add: bb_rep_def block_layout_def block_data_def bb_Finish_def Let_def foldl_PutFixed32 PutFixed32_def)

lemma Block_NewIterator_layout:
  assumes "block_layout data es rs"
  shows "\<exists>it. Block_NewIterator (Block_new data) = Inr it \<and> bi_at it es rs (length es)"
proof -
  have d: "data = block_data es rs" and len: "length data < 2 ^ 32" and rs: "rs \<noteq> []"
    using assms by (auto simp: block_layout_def restarts_ok_def)
  have l: "length data = length (concat (map block_entry es)) + 4 * length rs + 4"
    unfolding d by (rule length_block_data)
  have "drop (length data - 4) data = EncodeFixed32 (word_of_nat (length rs))"
    using l unfolding d block_data_def by (simp add: length_fixed32_array del: map_map)
  then have n: "blk_NumRestarts data = length rs"
    using l len by (simp add: blk_NumRestarts_def unat_word_of_nat_u32)
  then have "Block_NewIterator (Block_new data) =
      Inr (BlockIter_new data (length (concat (map block_entry es))) (length rs))"
    using l rs by (simp add: Block_new_def Block_NewIterator_def Let_def)
  with assms show ?thesis
    by (simp add: BlockIter_new_def bi_at_def bi_over_def entry_offset_end)
qed

context key_order
begin

lemma block_built:
  assumes "0 < n" "length (fst (bb_Finish (bb_add_all n kvs))) < 2 ^ 32"
    and "sorted_wrt (\<lambda>a b. compare (fst a) (fst b) < 0) kvs" "\<forall>e\<in>set kvs. valid (fst e)"
  obtains it where "Block_NewIterator (Block_new (fst (bb_Finish (bb_add_all n kvs)))) = Inr it"
    "block_rep compare valid it kvs (length kvs)"
proof -
  obtain es rs where r: "bb_rep (bb_add_all n kvs) es rs" "map snd es = kvs" using bb_rep_add_all [OF assms(1)] by blast
  obtain it where it: "Block_NewIterator (Block_new (fst (bb_Finish (bb_add_all n kvs)))) = Inr it" "bi_at it es rs (length es)"
    using Block_NewIterator_layout [OF bb_Finish_layout [OF r(1) assms(2)]] by blast
  have "length es = length kvs" using r(2) by auto
  with it r assms that show ?thesis unfolding block_rep_def by metis
qed

lemma block_scan:
  assumes "0 < n" "length (fst (bb_Finish (bb_add_all n kvs))) < 2 ^ 32" "length kvs \<le> m" "valid t"
    and "sorted_wrt (\<lambda>a b. compare (fst a) (fst b) < 0) kvs" "\<forall>e\<in>set kvs. valid (fst e)"
  shows "\<exists>it. Block_NewIterator (Block_new (fst (bb_Finish (bb_add_all n kvs)))) = Inr it \<and>
    it_forward (BlockIterator compare) m (bi_SeekToFirst it) = kvs \<and>
    it_backward (BlockIterator compare) m (bi_SeekToLast it) = rev kvs \<and>
    it_forward (BlockIterator compare) m (bi_Seek compare it t) = filter (\<lambda>e. \<not> compare (fst e) t < 0) kvs"
proof -
  obtain it where it: "Block_NewIterator (Block_new (fst (bb_Finish (bb_add_all n kvs)))) = Inr it"
    and r: "block_rep compare valid it kvs (length kvs)"
    using block_built [OF assms(1,2,5,6)] by blast
  have "it_SeekToFirst (BlockIterator compare) = bi_SeekToFirst" "it_SeekToLast (BlockIterator compare) = bi_SeekToLast"
    "it_Seek (BlockIterator compare) = bi_Seek compare" by (simp_all add: BlockIterator_def)
  then show ?thesis
    using it block.scan_forward [OF r assms(3)] block.scan_backward [OF r assms(3)]
      block.scan_from_seek [OF r assms(4,3)] by simp
qed

end

section \<open>Sizes\<close>

lemma bb_Finish_length: "length (fst (bb_Finish b)) = bb_CurrentSizeEstimate b"
  by (simp add: bb_CurrentSizeEstimate_def bb_Finish_def foldl_PutFixed32 PutFixed32_def length_fixed32_array Let_def)

lemma bb_Add_size: "bb_CurrentSizeEstimate (bb_Add n b k v) \<le> bb_CurrentSizeEstimate b + length k + length v + 19"
proof -
  have "length (block_entry (sh, k, v)) \<le> 15 + length k + length v" for sh
    using length_EncodeVarint32_bound [of "word_of_nat sh"]
      length_EncodeVarint32_bound [of "word_of_nat (length k - sh)"]
      length_EncodeVarint32_bound [of "word_of_nat (length v)"]
    unfolding block_entry_def length_append length_drop fst_conv snd_conv by linarith
  from this [of 0] this [of "common_prefix_len (bb_last_key b) k"] show ?thesis
    by (auto simp: bb_CurrentSizeEstimate_def bb_Add_buffer bb_Add_restarts)
qed

section \<open>Properties\<close>

text \<open>
  C9: Over a block built by adding sorted entries, at any restart interval, the iterator reads
  the entries forwards and backwards exactly as they were added, and a seek stops at the first
  entry that is not below the target; for any comparison that is a total order of the valid keys.
\<close>

theorem block_iteration:
  assumes "compare_order compare valid" "0 < restart_interval" "length kvs \<le> n"
    and "sorted_wrt (\<lambda>a b. compare (fst a) (fst b) < 0) kvs" "\<forall>e\<in>set kvs. valid (fst e)" "valid t"
    and "length (fst (bb_Finish (bb_add_all restart_interval kvs))) < 2 ^ 32"
  shows "\<exists>it. Block_NewIterator (Block_new (fst (bb_Finish (bb_add_all restart_interval kvs)))) = Inr it \<and>
    it_forward (BlockIterator compare) n (bi_SeekToFirst it) = kvs \<and>
    it_backward (BlockIterator compare) n (bi_SeekToLast it) = rev kvs \<and>
    it_forward (BlockIterator compare) n (bi_Seek compare it t) = filter (\<lambda>e. \<not> compare (fst e) t < 0) kvs"
  using key_order.block_scan [OF key_order.intro] assms by simp

theorem block_iteration_witness:
  "\<exists>it. Block_NewIterator (Block_new (fst (bb_Finish (bb_add_all 1 [([1, 2], [7]), ([1, 3], [8, 9])])))) = Inr it \<and>
    it_forward (BlockIterator Slice_compare) 2 (bi_SeekToFirst it) = [([1, 2], [7]), ([1, 3], [8, 9])] \<and>
    it_backward (BlockIterator Slice_compare) 2 (bi_SeekToLast it) = rev [([1, 2], [7]), ([1, 3], [8, 9])] \<and>
    it_forward (BlockIterator Slice_compare) 2 (bi_Seek Slice_compare it [1, 3]) =
      filter (\<lambda>e. \<not> Slice_compare (fst e) [1, 3] < 0) [([1, 2], [7]), ([1, 3], [8, 9])]"
proof (rule block_iteration [where valid = "\<lambda>_. True"])
  show "compare_order Slice_compare (\<lambda>_. True)"
    using bytewise.compare_order_axioms by (simp add: BytewiseComparator_def)
  show "sorted_wrt (\<lambda>a b. Slice_compare (fst a) (fst b) < 0) [([1, 2], [7]), ([1, 3], [8, 9])]"
    by (simp add: Slice_compare_eq)
  show "length (fst (bb_Finish (bb_add_all 1 [([1, 2], [7]), ([1, 3], [8, 9])]))) < 2 ^ 32"
    using bb_Add_size [of 1 "bb_Add 1 BlockBuilder_new [1, 2] [7]" "[1, 3]" "[8, 9]"]
      bb_Add_size [of 1 BlockBuilder_new "[1, 2]" "[7]"]
    by (simp add: bb_Finish_length bb_add_all_def) (simp add: bb_CurrentSizeEstimate_def BlockBuilder_new_def)
qed simp_all

text \<open>
  The size estimate of a builder is the length of the block that \<open>Finish\<close> makes of it,
  and an entry adds the length of its key and its value and at most nineteen bytes more.
\<close>

lemma bb_size_estimate:
  "length (fst (bb_Finish b)) = bb_CurrentSizeEstimate b \<and>
   bb_CurrentSizeEstimate (bb_Add n b k v) \<le> bb_CurrentSizeEstimate b + length k + length v + 19"
  by (simp add: bb_Finish_length bb_Add_size)

text \<open>
  C23: An entry that \<open>DecodeEntry\<close> accepts, and whose key and value lengths do not overflow
  32 bits together, lies inside the block. But the lengths are added in 32 bits: an entry whose
  lengths \<open>n\<close> and \<open>2\<^sup>3\<^sup>2 - n\<close> add up to nothing is accepted however few bytes follow it.
\<close>

theorem DecodeEntry_bounds:
  "(DecodeEntry p = Some (shared, non_shared, value_length, q) \<and> length p < 2 ^ 32 \<and>
      unat non_shared + unat value_length < 2 ^ 32 \<longrightarrow>
      unat non_shared + unat value_length \<le> length q \<and> length q < length p) \<and>
   DecodeEntry (EncodeVarint32 0 @ EncodeVarint32 n @ EncodeVarint32 (- n) @ rest) = Some (0, n, - n, rest)"
proof (intro conjI impI)
  assume a: "DecodeEntry p = Some (shared, non_shared, value_length, q) \<and> length p < 2 ^ 32 \<and>
      unat non_shared + unat value_length < 2 ^ 32"
  then show q: "length q < length p" using DecodeEntry_shorter by blast
  have "\<not> (word_of_nat (length q) :: u32) < non_shared + value_length"
    using a by (auto simp: DecodeEntry_slow split: if_splits option.splits)
  then show "unat non_shared + unat value_length \<le> length q"
    using a q by (simp add: word_less_nat_alt unat_word_of_nat_u32 unat_word_ariths not_less)
next
  have "0 < length (EncodeVarint32 0)" "0 < length (EncodeVarint32 n)" "0 < length (EncodeVarint32 (- n))" by simp_all
  then have "3 \<le> length (EncodeVarint32 0 @ EncodeVarint32 n @ EncodeVarint32 (- n) @ rest)"
    unfolding length_append by linarith
  then show "DecodeEntry (EncodeVarint32 0 @ EncodeVarint32 n @ EncodeVarint32 (- n) @ rest) = Some (0, n, - n, rest)"
    by (simp add: DecodeEntry_slow decode_lengths_def codec_rt not_less del: length_append)
qed

theorem DecodeEntry_bounds_witness:
  "unat (1 :: u32) + unat (2 :: u32) \<le> length [5, 6, 7 :: byte] \<and>
   DecodeEntry (EncodeVarint32 0 @ EncodeVarint32 7 @ EncodeVarint32 (- 7) @ []) = Some (0, 7, - 7, [])"
proof -
  have "DecodeEntry [0, 1, 2, 5, 6, 7] = Some (0, 1, 2, [5, 6, 7])" by code_simp
  then show ?thesis using DecodeEntry_bounds [of "[0, 1, 2, 5, 6, 7]" 0 1 2 "[5, 6, 7]" 7 "[]"] by simp
qed

end
