(* ===== verification/Merger.thy ===== *)
theory Merger
  imports Block
begin

text \<open>
  The merging iterator of \<open>kv/table/merger.cpp\<close>: several child iterators, each behind a caching
  wrapper, the index of the current child and the direction of the last move. The locale
  \<open>merging\<close> proves that over children whose entries have different keys it is itself an iterator,
  over the merge of their entries.
\<close>

datatype Direction = kForward | kReverse

record 's MergingIter =
  mg_children :: "'s IteratorWrapper list"
  mg_current :: "nat option"
  mg_direction :: Direction

definition MergingIter_new :: "'s Iterator \<Rightarrow> 's list \<Rightarrow> 's MergingIter" where
  "MergingIter_new I children =
     \<lparr> mg_children = map (\<lambda>c. iw_Set I IteratorWrapper_new (Some c)) children,
       mg_current = None, mg_direction = kForward \<rparr>"

definition smaller_child :: "(bytes \<Rightarrow> bytes \<Rightarrow> int) \<Rightarrow> 's IteratorWrapper list \<Rightarrow> nat option \<Rightarrow> nat \<Rightarrow> nat option" where
  "smaller_child compare cs smallest i =
     (let child = cs ! i in
      if iw_valid child then
        (case smallest of
           None \<Rightarrow> Some i
         | Some j \<Rightarrow> if compare (iw_key child) (iw_key (cs ! j)) < 0 then Some i else smallest)
      else smallest)"

definition mg_FindSmallest :: "(bytes \<Rightarrow> bytes \<Rightarrow> int) \<Rightarrow> 's MergingIter \<Rightarrow> 's MergingIter" where
  "mg_FindSmallest compare s =
     s \<lparr> mg_current := foldl (smaller_child compare (mg_children s)) None [0..<length (mg_children s)] \<rparr>"

definition larger_child :: "(bytes \<Rightarrow> bytes \<Rightarrow> int) \<Rightarrow> 's IteratorWrapper list \<Rightarrow> nat option \<Rightarrow> nat \<Rightarrow> nat option" where
  "larger_child compare cs largest i =
     (let child = cs ! i in
      if iw_valid child then
        (case largest of
           None \<Rightarrow> Some i
         | Some j \<Rightarrow> if compare (iw_key child) (iw_key (cs ! j)) > 0 then Some i else largest)
      else largest)"

definition mg_FindLargest :: "(bytes \<Rightarrow> bytes \<Rightarrow> int) \<Rightarrow> 's MergingIter \<Rightarrow> 's MergingIter" where
  "mg_FindLargest compare s =
     s \<lparr> mg_current := foldl (larger_child compare (mg_children s)) None (rev [0..<length (mg_children s)]) \<rparr>"

definition mg_Valid :: "'s MergingIter \<Rightarrow> bool" where
  "mg_Valid s \<longleftrightarrow> mg_current s \<noteq> None"

definition mg_SeekToFirst :: "(bytes \<Rightarrow> bytes \<Rightarrow> int) \<Rightarrow> 's Iterator \<Rightarrow> 's MergingIter \<Rightarrow> 's MergingIter" where
  "mg_SeekToFirst compare I s =
     (mg_FindSmallest compare (s \<lparr> mg_children := map (iw_map I (it_SeekToFirst I)) (mg_children s) \<rparr>))
       \<lparr> mg_direction := kForward \<rparr>"

definition mg_SeekToLast :: "(bytes \<Rightarrow> bytes \<Rightarrow> int) \<Rightarrow> 's Iterator \<Rightarrow> 's MergingIter \<Rightarrow> 's MergingIter" where
  "mg_SeekToLast compare I s =
     (mg_FindLargest compare (s \<lparr> mg_children := map (iw_map I (it_SeekToLast I)) (mg_children s) \<rparr>))
       \<lparr> mg_direction := kReverse \<rparr>"

definition mg_Seek :: "(bytes \<Rightarrow> bytes \<Rightarrow> int) \<Rightarrow> 's Iterator \<Rightarrow> 's MergingIter \<Rightarrow> bytes \<Rightarrow> 's MergingIter" where
  "mg_Seek compare I s target =
     (mg_FindSmallest compare (s \<lparr> mg_children := map (iw_map I (\<lambda>c. it_Seek I c target)) (mg_children s) \<rparr>))
       \<lparr> mg_direction := kForward \<rparr>"

text \<open>The loop over the children other than the current one, which changes each of them alone.\<close>

definition on_others :: "nat \<Rightarrow> ('s IteratorWrapper \<Rightarrow> 's IteratorWrapper) \<Rightarrow> 's IteratorWrapper list \<Rightarrow> 's IteratorWrapper list" where
  "on_others cur f cs = map (\<lambda>i. if i \<noteq> cur then f (cs ! i) else cs ! i) [0..<length cs]"

definition after_key :: "(bytes \<Rightarrow> bytes \<Rightarrow> int) \<Rightarrow> 's Iterator \<Rightarrow> bytes \<Rightarrow> 's IteratorWrapper \<Rightarrow> 's IteratorWrapper" where
  "after_key compare I key child =
     (let child = iw_map I (\<lambda>c. it_Seek I c key) child
      in if iw_valid child \<and> compare key (iw_key child) = 0 then iw_map I (it_Next I) child else child)"

definition before_key :: "'s Iterator \<Rightarrow> bytes \<Rightarrow> 's IteratorWrapper \<Rightarrow> 's IteratorWrapper" where
  "before_key I key child =
     (let child = iw_map I (\<lambda>c. it_Seek I c key) child
      in if iw_valid child then iw_map I (it_Prev I) child else iw_map I (it_SeekToLast I) child)"

text \<open>\<open>Next\<close>, \<open>Prev\<close>, \<open>key\<close> and \<open>value\<close> are only called on a valid iterator, which they assert.\<close>

definition mg_Next :: "(bytes \<Rightarrow> bytes \<Rightarrow> int) \<Rightarrow> 's Iterator \<Rightarrow> 's MergingIter \<Rightarrow> 's MergingIter" where
  "mg_Next compare I s =
     (case mg_current s of
        None \<Rightarrow> s
      | Some cur \<Rightarrow>
          (let s = (if mg_direction s \<noteq> kForward
                    then s \<lparr> mg_children := on_others cur (after_key compare I (iw_key (mg_children s ! cur))) (mg_children s),
                             mg_direction := kForward \<rparr>
                    else s)
           in mg_FindSmallest compare
                (s \<lparr> mg_children := (mg_children s)[cur := iw_map I (it_Next I) (mg_children s ! cur)] \<rparr>)))"

definition mg_Prev :: "(bytes \<Rightarrow> bytes \<Rightarrow> int) \<Rightarrow> 's Iterator \<Rightarrow> 's MergingIter \<Rightarrow> 's MergingIter" where
  "mg_Prev compare I s =
     (case mg_current s of
        None \<Rightarrow> s
      | Some cur \<Rightarrow>
          (let s = (if mg_direction s \<noteq> kReverse
                    then s \<lparr> mg_children := on_others cur (before_key I (iw_key (mg_children s ! cur))) (mg_children s),
                             mg_direction := kReverse \<rparr>
                    else s)
           in mg_FindLargest compare
                (s \<lparr> mg_children := (mg_children s)[cur := iw_map I (it_Prev I) (mg_children s ! cur)] \<rparr>)))"

definition mg_key :: "'s MergingIter \<Rightarrow> bytes" where
  "mg_key s = (case mg_current s of None \<Rightarrow> [] | Some cur \<Rightarrow> iw_key (mg_children s ! cur))"

definition mg_value :: "'s Iterator \<Rightarrow> 's MergingIter \<Rightarrow> bytes" where
  "mg_value I s = (case mg_current s of None \<Rightarrow> [] | Some cur \<Rightarrow> iw_value I (mg_children s ! cur))"

fun first_error :: "status list \<Rightarrow> status" where
  "first_error [] = OK"
| "first_error [s] = s"
| "first_error (s # ss) = (if \<not> status_ok s then s else first_error ss)"

definition mg_status :: "'s Iterator \<Rightarrow> 's MergingIter \<Rightarrow> status" where
  "mg_status I s = first_error (map (iw_status I) (mg_children s))"

definition MergingIterator :: "(bytes \<Rightarrow> bytes \<Rightarrow> int) \<Rightarrow> 's Iterator \<Rightarrow> 's MergingIter Iterator" where
  "MergingIterator compare I =
     \<lparr> it_Valid = mg_Valid, it_SeekToFirst = mg_SeekToFirst compare I, it_SeekToLast = mg_SeekToLast compare I,
       it_Seek = mg_Seek compare I, it_Next = mg_Next compare I, it_Prev = mg_Prev compare I,
       it_key = mg_key, it_value = mg_value I, it_status = mg_status I \<rparr>"

text \<open>No child gives the empty iterator, one child is returned itself.\<close>

definition AnyMergingIterator :: "(bytes \<Rightarrow> bytes \<Rightarrow> int) \<Rightarrow> 's Iterator \<Rightarrow> (status + 's + 's MergingIter) Iterator" where
  "AnyMergingIterator compare I = EitherIterator EmptyIterator (EitherIterator I (MergingIterator compare I))"

definition NewMergingIterator :: "'s Iterator \<Rightarrow> 's list \<Rightarrow> status + 's + 's MergingIter" where
  "NewMergingIterator I children =
     (case children of
        [] \<Rightarrow> Inl NewEmptyIterator
      | [c] \<Rightarrow> Inr (Inl c)
      | _ \<Rightarrow> Inr (Inr (MergingIter_new I children)))"

section \<open>Merging lists\<close>

text \<open>
  The entries \<open>es\<close> are the merge of the lists \<open>ess\<close>, which have no entry in common. A position \<open>p\<close>
  in the merge cuts every list, after the entries that come before it in the merge.
\<close>

definition cut_pos :: "entry list \<Rightarrow> entry list \<Rightarrow> nat \<Rightarrow> nat" where
  "cut_pos es xs p = length (filter (\<lambda>e. e \<in> set xs) (take p es))"

text \<open>Where a child stands that is positioned before its cut.\<close>

definition before_cut :: "entry list \<Rightarrow> entry list \<Rightarrow> nat \<Rightarrow> nat" where
  "before_cut es xs p = (if cut_pos es xs p = 0 then length xs else cut_pos es xs p - 1)"

context key_order
begin

lemma entries_sorted_ConsD: "entries_sorted compare valid (e # es) \<Longrightarrow> entries_sorted compare valid es"
  by (simp add: entries_sorted_def)

lemma entries_sorted_filter: "entries_sorted compare valid es \<Longrightarrow> entries_sorted compare valid (filter P es)"
  by (auto simp: entries_sorted_def intro: sorted_wrt_filter)

lemma entries_sorted_less:
  "entries_sorted compare valid es \<Longrightarrow> i < j \<Longrightarrow> j < length es \<Longrightarrow> compare (fst (es ! i)) (fst (es ! j)) < 0"
  by (simp add: entries_sorted_def sorted_wrt_iff_nth_less)

lemma entries_sorted_distinct: "entries_sorted compare valid es \<Longrightarrow> distinct es"
  unfolding distinct_conv_nth
proof (intro allI impI)
  fix i j assume s: "entries_sorted compare valid es" and ij: "i < length es" "j < length es" "i \<noteq> j"
  have "compare (fst (es ! i)) (fst (es ! i)) = 0"
    using s ij(1) by (auto simp: entries_sorted_def intro: cmp_refl)
  then show "es ! i \<noteq> es ! j"
    using entries_sorted_less [OF s, of i j] entries_sorted_less [OF s, of j i] ij by (cases "i < j") auto
qed

text \<open>Sorted lists with the same elements are equal.\<close>

lemma entries_sorted_unique:
  "entries_sorted compare valid xs \<Longrightarrow> entries_sorted compare valid ys \<Longrightarrow> set xs = set ys \<Longrightarrow> xs = ys"
proof (induction xs arbitrary: ys)
  case (Cons x xs)
  then obtain y ys' where ys: "ys = y # ys'" by (cases ys) auto
  have vx: "valid (fst x)" and vy: "valid (fst y)" using Cons.prems ys by (auto simp: entries_sorted_def)
  have "x = y"
  proof (rule ccontr)
    assume ne: "x \<noteq> y"
    then have "x \<in> set ys'" "y \<in> set xs" using Cons.prems(3) ys by auto
    then have "compare (fst y) (fst x) < 0" "compare (fst x) (fst y) < 0"
      using Cons.prems ys by (auto simp: entries_sorted_def)
    then show False using lt_trans [of "fst x" "fst y" "fst x"] vx vy cmp_refl by simp
  qed
  moreover have "x \<notin> set xs" "y \<notin> set ys'"
    using entries_sorted_distinct [OF Cons.prems(1)] entries_sorted_distinct [OF Cons.prems(2)] ys by auto
  ultimately show ?case
    using Cons.IH [of ys'] Cons.prems ys entries_sorted_ConsD by (auto simp: insert_eq_iff)
qed simp

lemma sorted_takeWhile:
  assumes "entries_sorted compare valid xs" "valid t"
  shows "takeWhile (\<lambda>e. compare (fst e) t < 0) xs = filter (\<lambda>e. compare (fst e) t < 0) xs"
proof -
  let ?Q = "\<lambda>e. compare (fst e) t < 0"
  have "filter ?Q xs = filter ?Q (takeWhile ?Q xs) @ filter ?Q (dropWhile ?Q xs)"
    by (metis filter_append takeWhile_dropWhile_id)
  moreover have "dropWhile ?Q xs = filter (\<lambda>e. \<not> ?Q e) xs"
    using sorted_dropWhile [of fst xs t] assms by (simp add: entries_sorted_def)
  moreover have "filter ?Q (takeWhile ?Q xs) = takeWhile ?Q xs"
    by (auto simp: filter_id_conv dest: set_takeWhileD)
  ultimately show ?thesis by simp
qed

lemma seek_pos_nth:
  assumes "entries_sorted compare valid es" "p < length es"
  shows "seek_pos compare es (fst (es ! p)) = p"
proof -
  let ?Q = "\<lambda>e. compare (fst e) (fst (es ! p)) < 0"
  have v: "valid (fst (es ! p))" using assms by (simp add: entries_sorted_def)
  have "takeWhile ?Q es = take p es"
    using assms entries_sorted_less [OF assms(1), of _ p] cmp_refl [OF v]
    by (intro takeWhile_eq_take_P_nth) auto
  then show ?thesis using assms(2) by (simp add: seek_pos_def)
qed

end

definition merge_of :: "(bytes \<Rightarrow> bytes \<Rightarrow> int) \<Rightarrow> (bytes \<Rightarrow> bool) \<Rightarrow> entry list list \<Rightarrow> entry list \<Rightarrow> bool" where
  "merge_of compare valid ess es \<longleftrightarrow> entries_sorted compare valid es \<and> mset es = mset (concat ess) \<and>
     (\<forall>xs\<in>set ess. entries_sorted compare valid xs)"

lemma distinct_concat_nth:
  "distinct (concat ess) \<Longrightarrow> c < length ess \<Longrightarrow> d < length ess \<Longrightarrow> c \<noteq> d \<Longrightarrow> x \<in> set (ess ! c) \<Longrightarrow> x \<notin> set (ess ! d)"
proof (induction ess arbitrary: c d)
  case (Cons xs ess)
  have mem: "y \<in> set (concat ess)" if "y \<in> set (ess ! i)" "i < length ess" for y i using that nth_mem by fastforce
  show ?case
  proof (cases c)
    case 0
    then show ?thesis using Cons.prems mem [of x "d - 1"] by (cases d) auto
  next
    case (Suc c')
    then show ?thesis using Cons.prems Cons.IH [of c' "d - 1"] mem [of x c'] by (cases d) auto
  qed
qed simp

lemma cut_Suc: "p < length es \<Longrightarrow> cut_pos es xs (Suc p) = cut_pos es xs p + (if es ! p \<in> set xs then 1 else 0)"
  by (simp add: cut_pos_def take_Suc_conv_app_nth)

lemma cut_0 [simp]: "cut_pos es xs 0 = 0"
  by (simp add: cut_pos_def)

lemma filter_cut:
  assumes "xs = filter (\<lambda>e. e \<in> set xs) es"
  shows "take (cut_pos es xs p) xs = filter (\<lambda>e. e \<in> set xs) (take p es)"
    and "drop (cut_pos es xs p) xs = filter (\<lambda>e. e \<in> set xs) (drop p es)"
proof -
  have "xs = filter (\<lambda>e. e \<in> set xs) (take p es) @ filter (\<lambda>e. e \<in> set xs) (drop p es)"
    using assms by (metis append_take_drop_id filter_append)
  then show "take (cut_pos es xs p) xs = filter (\<lambda>e. e \<in> set xs) (take p es)"
    and "drop (cut_pos es xs p) xs = filter (\<lambda>e. e \<in> set xs) (drop p es)"
    unfolding cut_pos_def by (metis append_eq_conv_conj)+
qed

lemma cut_le: "xs = filter (\<lambda>e. e \<in> set xs) es \<Longrightarrow> cut_pos es xs p \<le> length xs"
  using filter_cut(1) [of xs es p] by (metis cut_pos_def length_take min.cobounded1)

lemma cut_all: "xs = filter (\<lambda>e. e \<in> set xs) es \<Longrightarrow> cut_pos es xs (length es) = length xs"
  unfolding cut_pos_def take_all [OF order_refl] by (rule arg_cong [OF sym])

lemma nth_cut:
  assumes "xs = filter (\<lambda>e. e \<in> set xs) es" "p < length es" "es ! p \<in> set xs"
  shows "cut_pos es xs p < length xs \<and> xs ! cut_pos es xs p = es ! p"
proof -
  have "drop (cut_pos es xs p) xs = es ! p # filter (\<lambda>e. e \<in> set xs) (drop (Suc p) es)"
    using filter_cut(2) [OF assms(1), of p] assms(2,3) by (simp add: Cons_nth_drop_Suc [symmetric])
  then show ?thesis by (metis drop_all hd_drop_conv_nth leI list.discI list.sel(1))
qed

context key_order
begin

abbreviation merges :: "entry list list \<Rightarrow> entry list \<Rightarrow> bool" where
  "merges \<equiv> merge_of compare valid"

lemma merges_sorted: "merges ess es \<Longrightarrow> entries_sorted compare valid es"
  by (simp add: merge_of_def)

lemma merges_child:
  assumes "merges ess es" "c < length ess"
  shows "ess ! c = filter (\<lambda>e. e \<in> set (ess ! c)) es"
proof (rule entries_sorted_unique)
  show "entries_sorted compare valid (ess ! c)" "entries_sorted compare valid (filter (\<lambda>e. e \<in> set (ess ! c)) es)"
    using assms by (auto simp: merge_of_def intro: entries_sorted_filter)
  have "set es = set (concat ess)" using assms by (metis merge_of_def mset_eq_setD)
  then show "set (ess ! c) = set (filter (\<lambda>e. e \<in> set (ess ! c)) es)" using assms(2) by auto
qed

lemma merges_disjoint:
  assumes "merges ess es" "c < length ess" "d < length ess" "c \<noteq> d" "x \<in> set (ess ! c)"
  shows "x \<notin> set (ess ! d)"
proof -
  have "distinct (concat ess)"
    using assms(1) entries_sorted_distinct by (metis merge_of_def mset_eq_imp_distinct_iff)
  then show ?thesis by (rule distinct_concat_nth [OF _ assms(2-5)])
qed

lemma merges_owner:
  assumes "merges ess es" "p < length es"
  obtains c where "c < length ess" "es ! p \<in> set (ess ! c)"
proof -
  have "set es = set (concat ess)" using assms by (metis merge_of_def mset_eq_setD)
  then have "es ! p \<in> set (concat ess)" using assms(2) by (metis nth_mem)
  then show thesis using that by (auto simp: in_set_conv_nth [of _ ess])
qed

lemma seek_pos_cut:
  assumes "merges ess es" "c < length ess" "valid t"
  shows "seek_pos compare (ess ! c) t = cut_pos es (ess ! c) (seek_pos compare es t)"
proof -
  let ?Q = "\<lambda>e. compare (fst e) t < 0"
  have "seek_pos compare (ess ! c) t = length (filter ?Q (ess ! c))"
    using sorted_takeWhile [OF _ assms(3), of "ess ! c"] assms by (simp add: seek_pos_def merge_of_def)
  also have "\<dots> = length (filter ?Q (filter (\<lambda>e. e \<in> set (ess ! c)) es))"
    by (rule arg_cong [where f = "\<lambda>xs. length (filter ?Q xs)", OF merges_child [OF assms(1,2)]])
  also have "\<dots> = length (filter (\<lambda>e. e \<in> set (ess ! c)) (takeWhile ?Q es))"
    using sorted_takeWhile [OF merges_sorted [OF assms(1)] assms(3)] by (simp add: conj_commute)
  also have "\<dots> = cut_pos es (ess ! c) (seek_pos compare es t)"
    by (simp add: cut_pos_def seek_pos_def takeWhile_eq_take [symmetric])
  finally show ?thesis .
qed

end

section \<open>The smallest and the largest child\<close>

lemma find_smallest:
  assumes "iw_valid (cs ! c)"
    and "\<And>d. d \<in> set ds \<Longrightarrow> d \<noteq> c \<Longrightarrow> iw_valid (cs ! d) \<Longrightarrow>
      compare (iw_key (cs ! c)) (iw_key (cs ! d)) < 0 \<and> \<not> compare (iw_key (cs ! d)) (iw_key (cs ! c)) < 0"
    and "\<And>d. acc = Some d \<Longrightarrow> d \<noteq> c \<Longrightarrow> iw_valid (cs ! d) \<and> compare (iw_key (cs ! c)) (iw_key (cs ! d)) < 0"
    and "acc = Some c \<or> c \<in> set ds"
  shows "foldl (smaller_child compare cs) acc ds = Some c"
  using assms(2-4)
proof (induction ds arbitrary: acc)
  case (Cons d ds)
  have "foldl (smaller_child compare cs) (smaller_child compare cs acc d) ds = Some c"
  proof (rule Cons.IH)
    fix x assume "x \<in> set ds" "x \<noteq> c" "iw_valid (cs ! x)"
    then show "compare (iw_key (cs ! c)) (iw_key (cs ! x)) < 0 \<and> \<not> compare (iw_key (cs ! x)) (iw_key (cs ! c)) < 0"
      using Cons.prems(1) by simp
  next
    fix x assume "smaller_child compare cs acc d = Some x" "x \<noteq> c"
    then show "iw_valid (cs ! x) \<and> compare (iw_key (cs ! c)) (iw_key (cs ! x)) < 0"
      using Cons.prems(1) [of d] Cons.prems(2)
      by (auto simp: smaller_child_def Let_def split: option.splits if_splits)
  next
    show "smaller_child compare cs acc d = Some c \<or> c \<in> set ds"
      using Cons.prems(1) [of d] Cons.prems(2,3) assms(1)
      by (cases "d = c"; cases acc) (auto simp: smaller_child_def Let_def split: if_splits)
  qed
  then show ?case by simp
qed simp

lemma find_none: "(\<And>d. d \<in> set ds \<Longrightarrow> \<not> iw_valid (cs ! d)) \<Longrightarrow> foldl (smaller_child compare cs) None ds = None"
  by (induction ds) (auto simp: smaller_child_def)

lemma larger_child_smaller: "larger_child compare = smaller_child (\<lambda>a b. - compare a b)"
  by (intro ext) (auto simp: larger_child_def smaller_child_def Let_def split: option.splits)

section \<open>The merging iterator is an iterator over the merge\<close>

locale merging = wrapped_iterator compare valid I rep
  for compare valid and I :: "'s Iterator" and rep

sublocale merging \<subseteq> order: key_order compare valid
  by unfold_locales

context merging
begin

definition children_at :: "'s IteratorWrapper list \<Rightarrow> entry list list \<Rightarrow> (nat \<Rightarrow> nat) \<Rightarrow> bool" where
  "children_at cs ess pos \<longleftrightarrow> length cs = length ess \<and> (\<forall>d<length ess. iw_rep I rep (cs ! d) (ess ! d) (pos d))"

lemma children_atD: "children_at cs ess pos \<Longrightarrow> d < length ess \<Longrightarrow> iw_rep I rep (cs ! d) (ess ! d) (pos d)"
  by (simp add: children_at_def)

definition child_pos :: "Direction \<Rightarrow> entry list list \<Rightarrow> entry list \<Rightarrow> nat \<Rightarrow> nat \<Rightarrow> nat" where
  "child_pos dir ess es i d =
     (case dir of kForward \<Rightarrow> cut_pos es (ess ! d) i | kReverse \<Rightarrow> before_cut es (ess ! d) (Suc i))"

lemma child_pos_dir:
  "child_pos kForward ess es i = (\<lambda>d. cut_pos es (ess ! d) i)"
  "child_pos kReverse ess es i = (\<lambda>d. before_cut es (ess ! d) (Suc i))"
  by (simp_all add: child_pos_def fun_eq_iff)

definition mg_rep :: "'s MergingIter \<Rightarrow> entry list \<Rightarrow> nat \<Rightarrow> bool" where
  "mg_rep s es i \<longleftrightarrow> i \<le> length es \<and> (\<exists>ess. merge_of compare valid ess es \<and>
     (if i < length es
      then children_at (mg_children s) ess (child_pos (mg_direction s) ess es i) \<and>
        (\<exists>c<length ess. mg_current s = Some c \<and> es ! i \<in> set (ess ! c))
      else (\<exists>pos. children_at (mg_children s) ess pos) \<and> mg_current s = None))"

lemma child_Valid: "iw_rep I rep w es i \<Longrightarrow> iw_valid w \<longleftrightarrow> i < length es"
  using w.rep_Valid by (simp add: WrappedIterator_def)

lemma child_entry: "iw_rep I rep w es i \<Longrightarrow> i < length es \<Longrightarrow> (iw_key w, iw_value I w) = es ! i"
  using w.rep_entry by (simp add: WrappedIterator_def)

lemma child_key: "iw_rep I rep w es i \<Longrightarrow> i < length es \<Longrightarrow> iw_key w = fst (es ! i)"
  using child_entry by (metis fst_conv)

text \<open>The key of another valid child, in the forward direction, comes later in the merge.\<close>

lemma other_after:
  assumes m: "merge_of compare valid ess es" and p: "p < length es" and c: "c < length ess" "es ! p \<in> set (ess ! c)"
    and d: "d < length ess" "d \<noteq> c" "cut_pos es (ess ! d) p < length (ess ! d)"
  shows "compare (fst (es ! p)) (fst (ess ! d ! cut_pos es (ess ! d) p)) < 0"
proof -
  note ch = order.merges_child [OF m d(1)]
  have "es ! p \<notin> set (ess ! d)" using order.merges_disjoint [OF m c(1) d(1) _ c(2)] d(2) by simp
  then have "drop (cut_pos es (ess ! d) p) (ess ! d) = filter (\<lambda>e. e \<in> set (ess ! d)) (drop (Suc p) es)"
    using filter_cut(2) [OF ch, of p] p by (simp add: Cons_nth_drop_Suc [symmetric])
  then have "ess ! d ! cut_pos es (ess ! d) p \<in> set (drop (Suc p) es)"
    using d(3) by (metis (no_types, lifting) Cons_nth_drop_Suc filter_is_subset in_mono list.set_intros(1))
  then obtain k where "k < length es - Suc p" "ess ! d ! cut_pos es (ess ! d) p = es ! (Suc p + k)"
    by (auto simp: in_set_conv_nth)
  then show ?thesis using order.entries_sorted_less [OF order.merges_sorted [OF m], of p "Suc p + k"] by simp
qed

lemma other_before:
  assumes m: "merge_of compare valid ess es" and p: "p < length es" and c: "c < length ess" "es ! p \<in> set (ess ! c)"
    and d: "d < length ess" "d \<noteq> c" "0 < cut_pos es (ess ! d) (Suc p)"
  shows "compare (fst (ess ! d ! (cut_pos es (ess ! d) (Suc p) - 1))) (fst (es ! p)) < 0"
proof -
  note ch = order.merges_child [OF m d(1)]
  have "es ! p \<notin> set (ess ! d)" using order.merges_disjoint [OF m c(1) d(1) _ c(2)] d(2) by simp
  then have eq: "cut_pos es (ess ! d) (Suc p) = cut_pos es (ess ! d) p" using p by (simp add: cut_Suc)
  let ?n = "cut_pos es (ess ! d) p"
  have "?n - 1 < ?n" "?n \<le> length (ess ! d)" using d(3) eq cut_le [OF ch, of p] by simp_all
  then have "ess ! d ! (?n - 1) \<in> set (take ?n (ess ! d))" by (auto simp: in_set_conv_nth intro!: exI [of _ "?n - 1"])
  then have "ess ! d ! (?n - 1) \<in> set (take p es)" using filter_cut(1) [OF ch, of p] by simp
  then obtain k where "k < p" "ess ! d ! (?n - 1) = es ! k" using p by (auto simp: in_set_conv_nth)
  then show ?thesis using eq order.entries_sorted_less [OF order.merges_sorted [OF m], of k p] p by simp
qed

lemma entry_valid: "merge_of compare valid ess es \<Longrightarrow> p < length es \<Longrightarrow> valid (fst (es ! p))"
  by (simp add: merge_of_def entries_sorted_def)

lemma child_valid: "merge_of compare valid ess es \<Longrightarrow> d < length ess \<Longrightarrow> k < length (ess ! d) \<Longrightarrow> valid (fst (ess ! d ! k))"
  using nth_mem by (fastforce simp: merge_of_def entries_sorted_def)

lemma FindSmallest_rep:
  assumes m: "merge_of compare valid ess es" and at: "children_at (mg_children s) ess (\<lambda>d. cut_pos es (ess ! d) p)"
    and p: "p \<le> length es" and dir: "mg_direction s = kForward"
  shows "mg_rep (mg_FindSmallest compare s) es p"
proof (cases "p < length es")
  case True
  then obtain c where c: "c < length ess" "es ! p \<in> set (ess ! c)" using order.merges_owner [OF m] by blast
  let ?cs = "mg_children s"
  note rep = children_atD [OF at]
  note nc = nth_cut [OF order.merges_child [OF m c(1)] True c(2)]
  have "foldl (smaller_child compare ?cs) None [0..<length ?cs] = Some c"
  proof (rule find_smallest)
    show "iw_valid (?cs ! c)" using child_Valid [OF rep [OF c(1)]] nc by simp
    fix d assume d: "d \<in> set [0..<length ?cs]" "d \<noteq> c" "iw_valid (?cs ! d)"
    then have dl: "d < length ess" using at by (simp add: children_at_def)
    have dv: "cut_pos es (ess ! d) p < length (ess ! d)" using child_Valid [OF rep [OF dl]] d(3) by simp
    have "compare (iw_key (?cs ! c)) (iw_key (?cs ! d)) < 0"
      using other_after [OF m True c dl d(2) dv] child_key [OF rep [OF dl] dv] child_key [OF rep [OF c(1)]] nc by simp
    moreover have "valid (iw_key (?cs ! c))" "valid (iw_key (?cs ! d))"
      using entry_valid [OF m True] child_valid [OF m dl dv] child_key [OF rep [OF dl] dv] child_key [OF rep [OF c(1)]] nc by simp_all
    ultimately show "compare (iw_key (?cs ! c)) (iw_key (?cs ! d)) < 0 \<and> \<not> compare (iw_key (?cs ! d)) (iw_key (?cs ! c)) < 0"
      using cmp_swap [of "iw_key (?cs ! c)" "iw_key (?cs ! d)"] by simp
  qed (use at c(1) in \<open>auto simp: children_at_def\<close>)
  then show ?thesis using m at True c dir by (auto simp: mg_rep_def mg_FindSmallest_def children_at_def child_pos_def)
next
  case False
  with p have "p = length es" by simp
  then have "\<not> iw_valid (mg_children s ! d)" if "d < length ess" for d
    using child_Valid [OF children_atD [OF at that]] cut_all [OF order.merges_child [OF m that]] by simp
  then have "foldl (smaller_child compare (mg_children s)) None [0..<length (mg_children s)] = None"
    using at by (intro find_none) (simp add: children_at_def)
  then show ?thesis using m at p False by (auto simp: mg_rep_def mg_FindSmallest_def)
qed

lemma FindLargest_rep:
  assumes m: "merge_of compare valid ess es" and at: "children_at (mg_children s) ess (\<lambda>d. before_cut es (ess ! d) q)"
    and q: "q \<le> length es" and dir: "mg_direction s = kReverse"
  shows "mg_rep (mg_FindLargest compare s) es (if q = 0 then length es else q - 1)"
proof (cases q)
  case 0
  then have "\<not> iw_valid (mg_children s ! d)" if "d < length ess" for d
    using child_Valid [OF children_atD [OF at that]] by (simp add: before_cut_def)
  then have "foldl (larger_child compare (mg_children s)) None (rev [0..<length (mg_children s)]) = None"
    unfolding larger_child_smaller using at by (intro find_none) (simp add: children_at_def)
  then show ?thesis using m at 0 by (auto simp: mg_rep_def mg_FindLargest_def)
next
  case (Suc p)
  then have p: "p < length es" using q by simp
  then obtain c where c: "c < length ess" "es ! p \<in> set (ess ! c)" using order.merges_owner [OF m] by blast
  let ?cs = "mg_children s"
  note rep = children_atD [OF at [unfolded Suc]]
  note nc = nth_cut [OF order.merges_child [OF m c(1)] p c(2)]
  have bc: "before_cut es (ess ! c) (Suc p) = cut_pos es (ess ! c) p" using p c by (simp add: before_cut_def cut_Suc)
  have "foldl (smaller_child (\<lambda>a b. - compare a b) ?cs) None (rev [0..<length ?cs]) = Some c"
  proof (rule find_smallest)
    show "iw_valid (?cs ! c)" using child_Valid [OF rep [OF c(1)]] nc bc by simp
    fix d assume d: "d \<in> set (rev [0..<length ?cs])" "d \<noteq> c" "iw_valid (?cs ! d)"
    then have dl: "d < length ess" using at by (simp add: children_at_def)
    have dv: "before_cut es (ess ! d) (Suc p) < length (ess ! d)" using child_Valid [OF rep [OF dl]] d(3) by simp
    then have pos: "0 < cut_pos es (ess ! d) (Suc p)" "before_cut es (ess ! d) (Suc p) = cut_pos es (ess ! d) (Suc p) - 1"
      by (auto simp: before_cut_def split: if_splits)
    have "compare (iw_key (?cs ! d)) (iw_key (?cs ! c)) < 0"
      using other_before [OF m p c dl d(2) pos(1)] child_key [OF rep [OF dl] dv] child_key [OF rep [OF c(1)]] nc bc pos(2) by simp
    moreover have "valid (iw_key (?cs ! c))" "valid (iw_key (?cs ! d))"
      using entry_valid [OF m p] child_valid [OF m dl dv] child_key [OF rep [OF dl] dv] child_key [OF rep [OF c(1)]] nc bc by simp_all
    ultimately show "- compare (iw_key (?cs ! c)) (iw_key (?cs ! d)) < 0 \<and> \<not> - compare (iw_key (?cs ! d)) (iw_key (?cs ! c)) < 0"
      using cmp_swap [of "iw_key (?cs ! d)" "iw_key (?cs ! c)"] by simp
  qed (use at c(1) in \<open>auto simp: children_at_def\<close>)
  then show ?thesis using m at p c dir Suc
    by (auto simp: mg_rep_def mg_FindLargest_def larger_child_smaller children_at_def child_pos_def)
qed

lemma FindSmallest_direction: "(mg_FindSmallest compare s) \<lparr> mg_direction := dir \<rparr> = mg_FindSmallest compare (s \<lparr> mg_direction := dir \<rparr>)"
  by (cases s) (simp add: mg_FindSmallest_def)

lemma FindLargest_direction: "(mg_FindLargest compare s) \<lparr> mg_direction := dir \<rparr> = mg_FindLargest compare (s \<lparr> mg_direction := dir \<rparr>)"
  by (cases s) (simp add: mg_FindLargest_def)

text \<open>Moving all children, the current one, or all but the current one.\<close>

lemma children_map:
  assumes "children_at cs ess pos" "\<And>d s. d < length ess \<Longrightarrow> rep s (ess ! d) (pos d) \<Longrightarrow> rep (f s) (ess ! d) (pos' d)"
  shows "children_at (map (iw_map I f) cs) ess pos'"
proof -
  have "iw_rep I rep (iw_map I f (cs ! d)) (ess ! d) (pos' d)" if d: "d < length ess" for d
  proof -
    have "iw_rep I rep (cs ! d) (ess ! d) (pos d)" using assms(1) d by (simp add: children_at_def)
    then obtain s where "iw_iter (cs ! d) = Some s" "rep s (ess ! d) (pos d)" by (rule iw_rep_obtain) blast
    then show ?thesis using assms(2) d by (simp add: iw_rep_map)
  qed
  then show ?thesis using assms(1) by (simp add: children_at_def)
qed

lemma children_update:
  assumes "children_at cs ess pos" "c < length ess" "iw_rep I rep w (ess ! c) (pos' c)"
    and "\<And>d. d < length ess \<Longrightarrow> d \<noteq> c \<Longrightarrow> pos' d = pos d"
  shows "children_at (cs[c := w]) ess pos'"
  using assms by (auto simp: children_at_def nth_list_update)

lemma children_others:
  assumes "children_at cs ess pos"
    and "\<And>d w. d < length ess \<Longrightarrow> d \<noteq> c \<Longrightarrow> iw_rep I rep w (ess ! d) (pos d) \<Longrightarrow> iw_rep I rep (f w) (ess ! d) (pos' d)"
    and "pos' c = pos c"
  shows "children_at (on_others c f cs) ess pos'"
  using assms by (auto simp: children_at_def on_others_def)

lemma mg_rep_children:
  assumes "mg_rep s es i"
  obtains ess pos where "merge_of compare valid ess es" "children_at (mg_children s) ess pos"
  using assms by (auto simp: mg_rep_def split: if_splits)

lemma mg_SeekToFirst_rep: "mg_rep s es i \<Longrightarrow> mg_rep (mg_SeekToFirst compare I s) es 0"
proof (erule mg_rep_children)
  fix ess pos assume m: "merge_of compare valid ess es" and at: "children_at (mg_children s) ess pos"
  let ?s = "s \<lparr> mg_children := map (iw_map I (it_SeekToFirst I)) (mg_children s), mg_direction := kForward \<rparr>"
  have "children_at (mg_children ?s) ess (\<lambda>d. cut_pos es (ess ! d) 0)"
    using children_map [OF at, of "it_SeekToFirst I" "\<lambda>_. 0"] rep_SeekToFirst by simp
  from FindSmallest_rep [OF m this] show ?thesis
    by (simp add: mg_SeekToFirst_def FindSmallest_direction)
qed

lemma mg_Seek_rep:
  assumes "mg_rep s es i" "valid t"
  shows "mg_rep (mg_Seek compare I s t) es (seek_pos compare es t)"
proof -
  obtain ess pos where m: "merge_of compare valid ess es" and at: "children_at (mg_children s) ess pos"
    using assms(1) by (rule mg_rep_children)
  let ?s = "s \<lparr> mg_children := map (iw_map I (\<lambda>c. it_Seek I c t)) (mg_children s), mg_direction := kForward \<rparr>"
  have "children_at (mg_children ?s) ess (\<lambda>d. cut_pos es (ess ! d) (seek_pos compare es t))"
    using children_map [OF at, of "\<lambda>c. it_Seek I c t" "\<lambda>d. cut_pos es (ess ! d) (seek_pos compare es t)"]
      rep_Seek [OF _ assms(2)] order.seek_pos_cut [OF m _ assms(2)] by fastforce
  from FindSmallest_rep [OF m this] show ?thesis
    using seek_pos_le by (simp add: mg_Seek_def FindSmallest_direction)
qed

lemma mg_SeekToLast_rep: "mg_rep s es i \<Longrightarrow> mg_rep (mg_SeekToLast compare I s) es (length es - 1)"
proof (erule mg_rep_children)
  fix ess pos assume m: "merge_of compare valid ess es" and at: "children_at (mg_children s) ess pos"
  let ?s = "s \<lparr> mg_children := map (iw_map I (it_SeekToLast I)) (mg_children s), mg_direction := kReverse \<rparr>"
  have "before_cut es (ess ! d) (length es) = length (ess ! d) - 1" if "d < length ess" for d
    using cut_all [OF order.merges_child [OF m that]] by (simp add: before_cut_def)
  then have "children_at (mg_children ?s) ess (\<lambda>d. before_cut es (ess ! d) (length es))"
    using children_map [OF at, of "it_SeekToLast I"] rep_SeekToLast by simp
  from FindLargest_rep [OF m this] show ?thesis
    by (auto simp: mg_SeekToLast_def FindLargest_direction split: if_splits)
qed

text \<open>At an entry, the children can be brought to their positions for either direction.\<close>

lemma after_key_rep:
  assumes m: "merge_of compare valid ess es" and i: "i < length es" and c: "c < length ess" "es ! i \<in> set (ess ! c)"
    and d: "d < length ess" "d \<noteq> c" and w: "iw_rep I rep w (ess ! d) p"
  shows "iw_rep I rep (after_key compare I (fst (es ! i)) w) (ess ! d) (cut_pos es (ess ! d) i)"
proof -
  let ?w = "iw_map I (\<lambda>x. it_Seek I x (fst (es ! i))) w"
  have "iw_rep I rep ?w (ess ! d) (seek_pos compare (ess ! d) (fst (es ! i)))"
    using w.rep_Seek [OF w entry_valid [OF m i]] by (simp add: WrappedIterator_def)
  then have r: "iw_rep I rep ?w (ess ! d) (cut_pos es (ess ! d) i)"
    using order.seek_pos_cut [OF m d(1) entry_valid [OF m i]] order.seek_pos_nth [OF order.merges_sorted [OF m] i] by simp
  have "\<not> (iw_valid ?w \<and> compare (fst (es ! i)) (iw_key ?w) = 0)"
    using other_after [OF m i c d] child_key [OF r] child_Valid [OF r] by auto
  then show ?thesis using r unfolding after_key_def Let_def by (simp only: if_False)
qed

lemma before_key_rep:
  assumes m: "merge_of compare valid ess es" and i: "i < length es" and c: "c < length ess" "es ! i \<in> set (ess ! c)"
    and d: "d < length ess" "d \<noteq> c" and w: "iw_rep I rep w (ess ! d) p"
  shows "iw_rep I rep (before_key I (fst (es ! i)) w) (ess ! d) (before_cut es (ess ! d) (Suc i))"
proof -
  let ?w = "iw_map I (\<lambda>x. it_Seek I x (fst (es ! i))) w"
  have "iw_rep I rep ?w (ess ! d) (seek_pos compare (ess ! d) (fst (es ! i)))"
    using w.rep_Seek [OF w entry_valid [OF m i]] by (simp add: WrappedIterator_def)
  then have r: "iw_rep I rep ?w (ess ! d) (cut_pos es (ess ! d) i)"
    using order.seek_pos_cut [OF m d(1) entry_valid [OF m i]] order.seek_pos_nth [OF order.merges_sorted [OF m] i] by simp
  have "es ! i \<notin> set (ess ! d)" using order.merges_disjoint [OF m c(1) d(1) _ c(2)] d(2) by simp
  then have b: "before_cut es (ess ! d) (Suc i) = (if cut_pos es (ess ! d) i = 0 then length (ess ! d) else cut_pos es (ess ! d) i - 1)"
    using i by (simp add: before_cut_def cut_Suc)
  show ?thesis
  proof (cases "cut_pos es (ess ! d) i < length (ess ! d)")
    case True
    then show ?thesis using w.rep_Prev [OF r True] child_Valid [OF r] b
      by (simp add: before_key_def Let_def WrappedIterator_def)
  next
    case False
    then have "cut_pos es (ess ! d) i = length (ess ! d)" using cut_le [OF order.merges_child [OF m d(1)], of i] by simp
    then show ?thesis using w.rep_SeekToLast [OF r] child_Valid [OF r] b
      by (cases "ess ! d = []") (simp_all add: before_key_def Let_def WrappedIterator_def)
  qed
qed

lemma owner_pos:
  assumes "merge_of compare valid ess es" "i < length es" "c < length ess" "es ! i \<in> set (ess ! c)"
  shows "child_pos dir ess es i c = cut_pos es (ess ! c) i" "cut_pos es (ess ! c) i < length (ess ! c)"
    "ess ! c ! cut_pos es (ess ! c) i = es ! i" "before_cut es (ess ! c) (Suc i) = cut_pos es (ess ! c) i"
  using assms nth_cut [OF order.merges_child [OF assms(1,3)] assms(2,4)]
  by (auto simp: child_pos_def before_cut_def cut_Suc split: Direction.split)

lemma mg_current_entry:
  assumes "mg_rep s es i" "i < length es"
  obtains ess c where "merge_of compare valid ess es" "children_at (mg_children s) ess (child_pos (mg_direction s) ess es i)"
    "c < length ess" "mg_current s = Some c" "es ! i \<in> set (ess ! c)"
    "iw_rep I rep (mg_children s ! c) (ess ! c) (cut_pos es (ess ! c) i)" "iw_key (mg_children s ! c) = fst (es ! i)"
proof -
  obtain ess c where a: "merge_of compare valid ess es" "children_at (mg_children s) ess (child_pos (mg_direction s) ess es i)"
    "c < length ess" "mg_current s = Some c" "es ! i \<in> set (ess ! c)"
    using assms by (auto simp: mg_rep_def)
  note o = owner_pos [OF a(1) assms(2) a(3,5)]
  have r: "iw_rep I rep (mg_children s ! c) (ess ! c) (cut_pos es (ess ! c) i)"
    using children_atD [OF a(2,3)] o(1) [of "mg_direction s"] by simp
  from that [OF a r] child_key [OF r o(2)] o(3) show thesis by simp
qed

lemma mg_Next_rep:
  assumes r: "mg_rep s es i" and i: "i < length es"
  shows "mg_rep (mg_Next compare I s) es (i + 1)"
proof -
  obtain ess c where m: "merge_of compare valid ess es" and at: "children_at (mg_children s) ess (child_pos (mg_direction s) ess es i)"
    and c: "c < length ess" "es ! i \<in> set (ess ! c)" and cur: "mg_current s = Some c"
    and rc: "iw_rep I rep (mg_children s ! c) (ess ! c) (cut_pos es (ess ! c) i)" and key: "iw_key (mg_children s ! c) = fst (es ! i)"
    using mg_current_entry [OF r i] by metis
  note o = owner_pos [OF m i c]
  define cs where "cs = (if mg_direction s \<noteq> kForward then on_others c (after_key compare I (fst (es ! i))) (mg_children s) else mg_children s)"
  have cs: "children_at cs ess (\<lambda>d. cut_pos es (ess ! d) i)" "cs ! c = mg_children s ! c"
  proof -
    show "children_at cs ess (\<lambda>d. cut_pos es (ess ! d) i)"
    proof (cases "mg_direction s")
      case kForward
      with at show ?thesis by (simp add: cs_def child_pos_dir)
    next
      case kReverse
      have "children_at (on_others c (after_key compare I (fst (es ! i))) (mg_children s)) ess (\<lambda>d. cut_pos es (ess ! d) i)"
        using after_key_rep [OF m i c] o(1) by (intro children_others [OF at]) simp_all
      with kReverse show ?thesis by (simp add: cs_def)
    qed
    show "cs ! c = mg_children s ! c" using at c by (simp add: cs_def on_others_def children_at_def)
  qed
  let ?s = "s \<lparr> mg_children := cs[c := iw_map I (it_Next I) (cs ! c)], mg_direction := kForward \<rparr>"
  have eq: "mg_Next compare I s = mg_FindSmallest compare ?s"
    using cur key by (cases s; cases "mg_direction s") (simp_all add: mg_Next_def cs_def Let_def)
  have "iw_rep I rep (iw_map I (it_Next I) (cs ! c)) (ess ! c) (cut_pos es (ess ! c) (Suc i))"
    using w.rep_Next [OF rc o(2)] cs(2) c i by (simp add: WrappedIterator_def cut_Suc)
  then have "children_at (mg_children ?s) ess (\<lambda>d. cut_pos es (ess ! d) (Suc i))"
    using children_update [OF cs(1) c(1), of _ "\<lambda>d. cut_pos es (ess ! d) (Suc i)"]
      order.merges_disjoint [OF m c(1) _ _ c(2)] i by (simp add: cut_Suc)
  from FindSmallest_rep [OF m this] i show ?thesis unfolding eq by simp
qed

lemma mg_Prev_rep:
  assumes r: "mg_rep s es i" and i: "i < length es"
  shows "mg_rep (mg_Prev compare I s) es (if i = 0 then length es else i - 1)"
proof -
  obtain ess c where m: "merge_of compare valid ess es" and at: "children_at (mg_children s) ess (child_pos (mg_direction s) ess es i)"
    and c: "c < length ess" "es ! i \<in> set (ess ! c)" and cur: "mg_current s = Some c"
    and rc: "iw_rep I rep (mg_children s ! c) (ess ! c) (cut_pos es (ess ! c) i)" and key: "iw_key (mg_children s ! c) = fst (es ! i)"
    using mg_current_entry [OF r i] by metis
  note o = owner_pos [OF m i c]
  define cs where "cs = (if mg_direction s \<noteq> kReverse then on_others c (before_key I (fst (es ! i))) (mg_children s) else mg_children s)"
  have cs: "children_at cs ess (\<lambda>d. before_cut es (ess ! d) (Suc i))" "cs ! c = mg_children s ! c"
  proof -
    show "children_at cs ess (\<lambda>d. before_cut es (ess ! d) (Suc i))"
    proof (cases "mg_direction s")
      case kReverse
      with at show ?thesis by (simp add: cs_def child_pos_dir)
    next
      case kForward
      have "children_at (on_others c (before_key I (fst (es ! i))) (mg_children s)) ess (\<lambda>d. before_cut es (ess ! d) (Suc i))"
        using before_key_rep [OF m i c] o(1,4) by (intro children_others [OF at]) simp_all
      with kForward show ?thesis by (simp add: cs_def)
    qed
    show "cs ! c = mg_children s ! c" using at c by (simp add: cs_def on_others_def children_at_def)
  qed
  let ?s = "s \<lparr> mg_children := cs[c := iw_map I (it_Prev I) (cs ! c)], mg_direction := kReverse \<rparr>"
  have eq: "mg_Prev compare I s = mg_FindLargest compare ?s"
    using cur key by (cases s; cases "mg_direction s") (simp_all add: mg_Prev_def cs_def Let_def)
  have "iw_rep I rep (iw_map I (it_Prev I) (cs ! c)) (ess ! c) (before_cut es (ess ! c) i)"
    using w.rep_Prev [OF rc o(2)] cs(2) by (simp add: WrappedIterator_def before_cut_def)
  then have "children_at (mg_children ?s) ess (\<lambda>d. before_cut es (ess ! d) i)"
    using children_update [OF cs(1) c(1), of _ "\<lambda>d. before_cut es (ess ! d) i"]
      order.merges_disjoint [OF m c(1) _ _ c(2)] i by (simp add: before_cut_def cut_Suc)
  from FindLargest_rep [OF m this] i show ?thesis unfolding eq by simp
qed

lemma first_error_OK: "(\<And>s. s \<in> set ss \<Longrightarrow> s = OK) \<Longrightarrow> first_error ss = OK"
  by (induction ss rule: first_error.induct) (auto simp: status_ok_def)

lemma mg_status_rep: "mg_rep s es i \<Longrightarrow> mg_status I s = OK"
proof (erule mg_rep_children)
  fix ess pos assume "children_at (mg_children s) ess pos"
  then have "iw_status I w = OK" if "w \<in> set (mg_children s)" for w
    using that w.rep_status [of w] children_atD by (auto simp: in_set_conv_nth children_at_def WrappedIterator_def)
  then show ?thesis by (auto simp: mg_status_def intro: first_error_OK)
qed

lemma mg_new_rep:
  assumes "length children = length ess" "\<And>d. d < length ess \<Longrightarrow> \<exists>p. rep (children ! d) (ess ! d) p"
    and "merge_of compare valid ess es"
  shows "mg_rep (MergingIter_new I children) es (length es)"
proof -
  obtain pos where "\<And>d. d < length ess \<Longrightarrow> rep (children ! d) (ess ! d) (pos d)" using assms(2) by metis
  then have "children_at (mg_children (MergingIter_new I children)) ess pos"
    using assms(1) by (simp add: children_at_def MergingIter_new_def iw_rep_Set)
  with assms(3) show ?thesis by (auto simp: mg_rep_def MergingIter_new_def)
qed

end

sublocale merging \<subseteq> mg: iterator compare valid "MergingIterator compare I" mg_rep
proof
  fix s es i assume r: "mg_rep s es i"
  obtain ess pos where m: "merge_of compare valid ess es" using r by (rule mg_rep_children)
  show "i \<le> length es" using r by (simp add: mg_rep_def)
  show "sorted_wrt (\<lambda>a b. compare (fst a) (fst b) < 0) es" using order.merges_sorted [OF m] by (simp add: entries_sorted_def)
  show "valid (fst e)" if "e \<in> set es" for e using order.merges_sorted [OF m] that by (simp add: entries_sorted_def)
  show "it_Valid (MergingIterator compare I) s \<longleftrightarrow> i < length es"
    using r by (auto simp: mg_rep_def MergingIterator_def mg_Valid_def split: if_splits)
  show "(it_key (MergingIterator compare I) s, it_value (MergingIterator compare I) s) = es ! i" if i: "i < length es"
  proof -
    obtain ess c where c: "merge_of compare valid ess es" "c < length ess" "es ! i \<in> set (ess ! c)" "mg_current s = Some c"
      "iw_rep I rep (mg_children s ! c) (ess ! c) (cut_pos es (ess ! c) i)"
      using mg_current_entry [OF r i] by metis
    from child_entry [OF c(5)] owner_pos [OF c(1) i c(2,3)] c(4) show ?thesis
      by (simp add: MergingIterator_def mg_key_def mg_value_def)
  qed
  show "it_status (MergingIterator compare I) s = OK" using mg_status_rep [OF r] by (simp add: MergingIterator_def)
  show "mg_rep (it_SeekToFirst (MergingIterator compare I) s) es 0"
    using mg_SeekToFirst_rep [OF r] by (simp add: MergingIterator_def)
  show "mg_rep (it_SeekToLast (MergingIterator compare I) s) es (length es - 1)"
    using mg_SeekToLast_rep [OF r] by (simp add: MergingIterator_def)
  show "mg_rep (it_Seek (MergingIterator compare I) s t) es (seek_pos compare es t)" if "valid t" for t
    using mg_Seek_rep [OF r that] by (simp add: MergingIterator_def)
  show "mg_rep (it_Next (MergingIterator compare I) s) es (i + 1)" if "i < length es"
    using mg_Next_rep [OF r that] by (simp add: MergingIterator_def)
  show "mg_rep (it_Prev (MergingIterator compare I) s) es (if i = 0 then length es else i - 1)" if "i < length es"
    using mg_Prev_rep [OF r that] by (simp add: MergingIterator_def)
qed

section \<open>The iterator that \<open>NewMergingIterator\<close> returns\<close>

sublocale merging \<subseteq> one_or_many: two_classes compare valid I rep "MergingIterator compare I" mg_rep
  by unfold_locales

sublocale merging \<subseteq> any: two_classes compare valid EmptyIterator empty_rep
    "EitherIterator I (MergingIterator compare I)" "case_sum rep mg_rep"
  by unfold_locales

context merging
begin

lemma merges_none: "merge_of compare valid [] es \<Longrightarrow> es = []"
  by (simp add: merge_of_def)

lemma merges_one: "merge_of compare valid [xs] es \<Longrightarrow> es = xs"
  by (rule order.entries_sorted_unique) (auto simp: merge_of_def dest: mset_eq_setD)

lemma NewMergingIterator_rep:
  assumes "length children = length ess" "\<And>d. d < length ess \<Longrightarrow> \<exists>p. rep (children ! d) (ess ! d) p"
    and "merge_of compare valid ess es"
  shows "\<exists>p. case_sum empty_rep (case_sum rep mg_rep) (NewMergingIterator I children) es p"
proof -
  consider "children = []" | c where "children = [c]" | c c' cs where "children = c # c' # cs"
    by (cases children; cases "tl children") auto
  then show ?thesis
  proof cases
    case 1
    then show ?thesis using assms merges_none by (simp add: NewMergingIterator_def NewEmptyIterator_def empty_rep_def)
  next
    case 2
    then obtain xs where "ess = [xs]" using assms(1) by (cases ess) auto
    then show ?thesis using assms 2 merges_one by (auto simp: NewMergingIterator_def)
  next
    case 3
    then show ?thesis using mg_new_rep [OF assms] by (auto simp: NewMergingIterator_def)
  qed
qed

lemma NewMergingIterator_moves:
  assumes "length children = length ess" "\<And>d. d < length ess \<Longrightarrow> \<exists>p. rep (children ! d) (ess ! d) p"
    and "merge_of compare valid ess es" "moves_ok valid ms"
  shows "\<exists>p. it_look (AnyMergingIterator compare I) (fold (it_move (AnyMergingIterator compare I)) ms (NewMergingIterator I children)) =
    cursor_look es (fold (cursor_move compare es) ms p) \<and>
    it_status (AnyMergingIterator compare I) (fold (it_move (AnyMergingIterator compare I)) ms (NewMergingIterator I children)) = OK"
  unfolding AnyMergingIterator_def
  using NewMergingIterator_rep [OF assms(1-3)] any.either.look_moves [OF _ assms(4)] by blast

end

sublocale key_order \<subseteq> merged_blocks: merging compare valid "BlockIterator compare" "block_rep compare valid"
  by unfold_locales

section \<open>Properties\<close>

text \<open>
  C24: Over children that keep the iterator interface, and whose entries have different keys, the
  merging iterator (or the empty iterator, or the only child) behaves under every sequence of moves,
  changes of direction included, as a cursor in the sorted merge of the entries of the children.
\<close>

theorem merging_iteration:
  assumes "iterator compare valid I rep" "length children = length ess"
    and "\<forall>d<length ess. \<exists>p. rep (children ! d) (ess ! d) p"
    and "merge_of compare valid ess es" "moves_ok valid ms"
  shows "it_look (AnyMergingIterator compare I)
      (fold (it_move (AnyMergingIterator compare I)) (MoveToFirst # ms) (NewMergingIterator I children)) =
    cursor_look es (fold (cursor_move compare es) ms 0)"
proof -
  have "merging compare valid I rep" using assms(1) by (simp add: merging_def wrapped_iterator_def)
  from merging.NewMergingIterator_moves [OF this assms(2) _ assms(4), of "MoveToFirst # ms"] assms(3,5)
  show ?thesis by (auto simp: moves_ok_def)
qed

context key_order
begin

lemma block_iterator: "iterator compare valid (BlockIterator compare) (block_rep compare valid)"
  by (rule block.iterator_axioms)

end

definition small_block :: "entry \<Rightarrow> bytes" where
  "small_block e = fst (bb_Finish (bb_add_all 1 [e]))"

lemma small_block_iterator:
  assumes "length (fst e) + length (snd e) < 1000"
  obtains it where "Block_NewIterator (Block_new (small_block e)) = Inr it" "block_rep Slice_compare (\<lambda>_. True) it [e] 1"
proof -
  have "key_order Slice_compare (\<lambda>_. True)"
    using bytewise.compare_order_axioms by (simp add: BytewiseComparator_def key_order_def)
  moreover have "length (fst (bb_Finish (bb_add_all 1 [e]))) < 2 ^ 32"
    using bb_Add_size [of 1 BlockBuilder_new "fst e" "snd e"] assms
    by (simp add: bb_Finish_length bb_add_all_def case_prod_beta) (simp add: bb_CurrentSizeEstimate_def BlockBuilder_new_def)
  ultimately show thesis using key_order.block_built [of Slice_compare "\<lambda>_. True" 1 "[e]"] that
    by (auto simp: small_block_def)
qed

theorem merging_iteration_witness:
  "\<exists>a b. Block_NewIterator (Block_new (small_block ([1], [7]))) = Inr a \<and> Block_NewIterator (Block_new (small_block ([2], [8]))) = Inr b \<and>
    it_look (AnyMergingIterator Slice_compare (BlockIterator Slice_compare))
      (fold (it_move (AnyMergingIterator Slice_compare (BlockIterator Slice_compare))) [MoveToFirst, MoveNext, MovePrev, MoveNext]
        (NewMergingIterator (BlockIterator Slice_compare) [b, a])) = Some ([2], [8])"
proof -
  obtain a where a: "Block_NewIterator (Block_new (small_block ([1], [7]))) = Inr a" "block_rep Slice_compare (\<lambda>_. True) a [([1], [7])] 1"
    by (rule small_block_iterator [of "([1], [7])"]) auto
  obtain b where b: "Block_NewIterator (Block_new (small_block ([2], [8]))) = Inr b" "block_rep Slice_compare (\<lambda>_. True) b [([2], [8])] 1"
    by (rule small_block_iterator [of "([2], [8])"]) auto
  have o: "key_order Slice_compare (\<lambda>_. True)"
    using bytewise.compare_order_axioms by (simp add: BytewiseComparator_def key_order_def)
  have "merge_of Slice_compare (\<lambda>_. True) [[([2], [8])], [([1], [7])]] [([1], [7]), ([2], [8])]"
    by (simp add: merge_of_def entries_sorted_def Slice_compare_eq)
  then have "it_look (AnyMergingIterator Slice_compare (BlockIterator Slice_compare))
      (fold (it_move (AnyMergingIterator Slice_compare (BlockIterator Slice_compare))) [MoveToFirst, MoveNext, MovePrev, MoveNext]
        (NewMergingIterator (BlockIterator Slice_compare) [b, a])) =
      cursor_look [([1], [7]), ([2], [8])] (fold (cursor_move Slice_compare [([1], [7]), ([2], [8])]) [MoveNext, MovePrev, MoveNext] 0)"
    using a(2) b(2) by (intro merging_iteration [OF key_order.block_iterator [OF o]]) (auto simp: less_Suc_eq moves_ok_def)
  then show ?thesis using a b by (auto simp: cursor_look_def)
qed

end
