(* ===== verification/Random_Gen.thy ===== *)
theory Random_Gen
  imports Prelude
begin

text \<open>\<^verbatim>\<open>kv/util/random.h\<close>: the linear congruential generator behind the skip list's heights.\<close>

definition Random_new :: "u32 \<Rightarrow> u32" where
  "Random_new s =
     (let seed = s AND 0x7fffffff in if seed = 0 \<or> seed = 2147483647 then 1 else seed)"

text \<open>\<open>seed_ * A\<close> is a 64-bit product; the sum is cut to 32 bits.\<close>

definition Random_Next :: "u32 \<Rightarrow> u32" where
  "Random_Next seed =
     (let M = 2147483647 :: u32; A = 16807 :: u64;
          product = ucast seed * A;
          seed' = ucast (drop_bit 31 product + (product AND ucast M)) :: u32
      in if M < seed' then seed' - M else seed')"

definition Random_Uniform :: "u32 \<Rightarrow> nat \<Rightarrow> nat \<times> u32" where
  "Random_Uniform seed n = (let r = Random_Next seed in (unat r mod n, r))"

definition Random_OneIn :: "u32 \<Rightarrow> nat \<Rightarrow> bool \<times> u32" where
  "Random_OneIn seed n = (let r = Random_Next seed in (unat r mod n = 0, r))"

definition good_seed :: "u32 \<Rightarrow> bool" where
  "good_seed s \<longleftrightarrow> 0 < unat s \<and> unat s < 2147483647"

lemma mod_M_fold:
  fixes p :: nat
  shows "(p div 2 ^ 31 + p mod 2 ^ 31) mod 2147483647 = p mod 2147483647"
proof -
  have "p = p div 2 ^ 31 * 2147483647 + (p div 2 ^ 31 + p mod 2 ^ 31)"
    using div_mult_mod_eq [of p "2 ^ 31"] by simp
  then show ?thesis
    by (metis mod_mult_self3)
qed

lemma good_seed_not_dvd:
  assumes "good_seed s"
  shows "\<not> 2147483647 dvd unat s * 16807"
proof
  assume "2147483647 dvd unat s * 16807"
  moreover have "coprime (2147483647 :: nat) 16807"
    by (simp add: coprime_iff_gcd_eq_1 gcd_nat.simps [of 2147483647] gcd_non_0_nat)
  ultimately have "2147483647 dvd unat s"
    by (simp add: coprime_dvd_mult_left_iff)
  with assms show False by (auto simp: good_seed_def dest: dvd_imp_le)
qed

lemma unat_Random_Next:
  assumes "good_seed s"
  shows "unat (Random_Next s) = (unat s * 16807) mod 2147483647"
proof -
  let ?p = "unat s * 16807" and ?P = "ucast s * 16807 :: u64"
  define q where "q = ?p div 2 ^ 31 + ?p mod 2 ^ 31"
  have s: "unat s < 2147483647" using assms by (simp add: good_seed_def)
  have us: "unat (ucast s :: u64) = unat s"
    using s by (simp add: unsigned_ucast_eq take_bit_nat_eq_self)
  have P: "unat ?P = ?p" using s by (simp add: unat_word_ariths us)
  have M: "(mask 31 :: u64) = 2147483647" by (simp add: mask_eq_exp_minus_1)
  have lo: "unat (?P AND mask 31) = ?p mod 2 ^ 31"
    unfolding take_bit_eq_mask [symmetric] unsigned_take_bit_eq P by (rule take_bit_eq_mod)
  have hi: "unat (drop_bit 31 ?P) = ?p div 2 ^ 31" by (simp add: unat_drop_bit P)
  have "?p div 2 ^ 31 \<le> 16807" using s by (simp add: div_le_mono less_mult_imp_div_less order_less_imp_le)
  moreover have "?p mod 2 ^ 31 < 2 ^ 31" by simp
  ultimately have q: "q < 2147483647 * 2" "q < 2 ^ 32" unfolding q_def by simp_all
  have sum: "unat (drop_bit 31 ?P + (?P AND mask 31)) = q"
    unfolding unat_word_ariths lo hi q_def [symmetric] using q by simp
  have v: "unat (ucast (drop_bit 31 ?P + (?P AND mask 31)) :: u32) = q"
    using q by (simp add: unsigned_ucast_eq sum take_bit_nat_eq_self)
  have qmod: "q mod 2147483647 = ?p mod 2147483647" unfolding q_def by (rule mod_M_fold)
  then have "q \<noteq> 2147483647" using good_seed_not_dvd [OF assms] by (auto simp: dvd_eq_mod_eq_0)
  then have "(if 2147483647 < q then q - 2147483647 else q) = q mod 2147483647"
    using q(1) by (simp add: mod_if)
  then show ?thesis
    using qmod v [unfolded M]
    by (auto simp: Random_Next_def Let_def word_less_nat_alt unat_sub_if' split: if_splits)
qed

text \<open>The constructor never leaves a bad seed, and the sequence never collapses to zero.\<close>

lemma Random_Next_lcg:
  "good_seed (Random_new s) \<and>
   (good_seed r \<longrightarrow> unat (Random_Next r) = (unat r * 16807) mod 2147483647 \<and> good_seed (Random_Next r))"
proof (intro conjI impI)
  have M: "(0x7fffffff :: u32) = mask 31" by (simp add: mask_eq_exp_minus_1)
  have "unat (s AND mask 31) < 2 ^ 31"
    unfolding take_bit_eq_mask [symmetric] unsigned_take_bit_eq by (rule take_bit_nat_less_exp)
  moreover have "unat (s AND mask 31) \<noteq> 2147483647" if "s AND mask 31 \<noteq> 2147483647"
    using that by (simp add: word_unat_eq_iff)
  moreover have "unat (s AND mask 31) \<noteq> 0" if "s AND mask 31 \<noteq> 0"
    using that by (simp add: word_unat_eq_iff)
  ultimately show "good_seed (Random_new s)"
    unfolding good_seed_def Random_new_def M Let_def by fastforce
next
  assume r: "good_seed r"
  show "unat (Random_Next r) = (unat r * 16807) mod 2147483647" by (rule unat_Random_Next [OF r])
  then show "good_seed (Random_Next r)"
    using good_seed_not_dvd [OF r] by (simp add: good_seed_def dvd_eq_mod_eq_0)
qed

end
