(* ===== verification/Skiplist.thy ===== *)
theory Skiplist
  imports Comparator Random_Gen
begin

text \<open>
  \<^verbatim>\<open>kv/db/skiplist.h\<close>. The nodes live in an arena: a list of node records, a pointer is an
  index into it (\<open>None\<close> is \<open>nullptr\<close>) and \<open>head_\<close> is index 0. The list is shown to
  implement a sorted list of keys: \<open>skip_rep\<close> says that every level links the nodes that
  are tall enough, in key order. Loads and stores are sequential here; the memory orders
  that make readers safe during an insertion are not modelled.
\<close>

section \<open>Nodes and links\<close>

definition kMaxHeight :: nat where "kMaxHeight = 12"

record 'k skip_node =
  sn_key :: 'k
  sn_next :: "nat option list"

record 'k SkipList =
  sl_nodes :: "'k skip_node list"
  sl_max_height :: nat
  sl_rnd :: u32

definition sl_key :: "'k SkipList \<Rightarrow> nat \<Rightarrow> 'k" where
  "sl_key sl x = sn_key (sl_nodes sl ! x)"

definition sl_Next :: "'k SkipList \<Rightarrow> nat \<Rightarrow> nat \<Rightarrow> nat option" where
  "sl_Next sl x n = sn_next (sl_nodes sl ! x) ! n"

definition sl_SetNext :: "'k SkipList \<Rightarrow> nat \<Rightarrow> nat \<Rightarrow> nat option \<Rightarrow> 'k SkipList" where
  "sl_SetNext sl x n v =
     sl \<lparr> sl_nodes := (sl_nodes sl) [x := (sl_nodes sl ! x) \<lparr> sn_next := (sn_next (sl_nodes sl ! x)) [n := v] \<rparr>] \<rparr>"

text \<open>A new node's links are not initialised by the constructor; \<open>None\<close> stands for any value.\<close>

definition sl_NewNode :: "'k SkipList \<Rightarrow> 'k \<Rightarrow> nat \<Rightarrow> nat \<times> 'k SkipList" where
  "sl_NewNode sl key height =
     (length (sl_nodes sl),
      sl \<lparr> sl_nodes := sl_nodes sl @ [\<lparr> sn_key = key, sn_next = replicate height None \<rparr>] \<rparr>)"

definition SkipList_new :: "'k \<Rightarrow> 'k SkipList" where
  "SkipList_new any_key =
     \<lparr> sl_nodes = [\<lparr> sn_key = any_key, sn_next = replicate kMaxHeight None \<rparr>],
       sl_max_height = 1, sl_rnd = Random_new 0xdeadbeef \<rparr>"

section \<open>Heights\<close>

function RandomHeight_loop :: "u32 \<Rightarrow> nat \<Rightarrow> nat \<times> u32" where
  "RandomHeight_loop rnd height =
     (if height < kMaxHeight
      then (let r = Random_Next rnd in
            if unat r mod 4 = 0 then RandomHeight_loop r (height + 1) else (height, r))
      else (height, rnd))"
  by pat_completeness auto
termination
  by (relation "measure (\<lambda>(rnd, height). kMaxHeight - height)") auto

declare RandomHeight_loop.simps [simp del]

definition RandomHeight :: "u32 \<Rightarrow> nat \<times> u32" where
  "RandomHeight rnd = RandomHeight_loop rnd 1"

section \<open>Searching\<close>

text \<open>
  The three searches run one loop: move right while the next node satisfies \<open>adv\<close>, else
  note the position in \<open>prev\<close> (where it is not null) and go down a level. It returns the node
  it stopped at, its successor on level 0 and \<open>prev\<close>; not returning is \<open>None\<close>.
\<close>

partial_function (option) sl_walk ::
  "(nat \<Rightarrow> bool) \<Rightarrow> 'k SkipList \<Rightarrow> nat \<Rightarrow> nat \<Rightarrow> nat list option \<Rightarrow>
    (nat \<times> nat option \<times> nat list option) option" where
  "sl_walk adv sl x level prev =
     (case sl_Next sl x level of
        Some n \<Rightarrow>
          (if adv n then sl_walk adv sl n level prev
           else (let prev' = map_option (\<lambda>p. p [level := x]) prev in
                 if level = 0 then Some (x, Some n, prev') else sl_walk adv sl x (level - 1) prev'))
      | None \<Rightarrow>
          (let prev' = map_option (\<lambda>p. p [level := x]) prev in
           if level = 0 then Some (x, None, prev') else sl_walk adv sl x (level - 1) prev'))"

definition KeyIsAfterNode :: "('k \<Rightarrow> 'k \<Rightarrow> int) \<Rightarrow> 'k SkipList \<Rightarrow> 'k \<Rightarrow> nat option \<Rightarrow> bool" where
  "KeyIsAfterNode cmp sl key n = (case n of None \<Rightarrow> False | Some i \<Rightarrow> cmp (sl_key sl i) key < 0)"

definition FindGreaterOrEqual ::
  "('k \<Rightarrow> 'k \<Rightarrow> int) \<Rightarrow> 'k SkipList \<Rightarrow> 'k \<Rightarrow> nat list option \<Rightarrow>
    (nat option \<times> nat list option) option" where
  "FindGreaterOrEqual cmp sl key prev =
     map_option (\<lambda>(x, next, prev'). (next, prev'))
       (sl_walk (\<lambda>n. KeyIsAfterNode cmp sl key (Some n)) sl 0 (sl_max_height sl - 1) prev)"

definition FindLessThan :: "('k \<Rightarrow> 'k \<Rightarrow> int) \<Rightarrow> 'k SkipList \<Rightarrow> 'k \<Rightarrow> nat option" where
  "FindLessThan cmp sl key =
     map_option fst
       (sl_walk (\<lambda>n. \<not> 0 \<le> cmp (sl_key sl n) key) sl 0 (sl_max_height sl - 1) None)"

definition FindLast :: "'k SkipList \<Rightarrow> nat option" where
  "FindLast sl = map_option fst (sl_walk (\<lambda>_. True) sl 0 (sl_max_height sl - 1) None)"

definition sl_Contains :: "('k \<Rightarrow> 'k \<Rightarrow> int) \<Rightarrow> 'k SkipList \<Rightarrow> 'k \<Rightarrow> bool option" where
  "sl_Contains cmp sl key =
     map_option (\<lambda>(x, _). case x of None \<Rightarrow> False | Some n \<Rightarrow> cmp key (sl_key sl n) = 0)
       (FindGreaterOrEqual cmp sl key None)"

section \<open>Insertion\<close>

fun sl_link :: "nat \<Rightarrow> nat list \<Rightarrow> nat list \<Rightarrow> 'k SkipList \<Rightarrow> 'k SkipList" where
  "sl_link x prev [] sl = sl"
| "sl_link x prev (i # is) sl =
     (let sl = sl_SetNext sl x i (sl_Next sl (prev ! i) i);
          sl = sl_SetNext sl (prev ! i) i (Some x)
      in sl_link x prev is sl)"

definition sl_Insert :: "('k \<Rightarrow> 'k \<Rightarrow> int) \<Rightarrow> 'k SkipList \<Rightarrow> 'k \<Rightarrow> 'k SkipList option" where
  "sl_Insert cmp sl key =
     (case FindGreaterOrEqual cmp sl key (Some (replicate kMaxHeight 0)) of
        Some (_, Some prev) \<Rightarrow>
          (let (height, rnd) = RandomHeight (sl_rnd sl);
               sl = sl \<lparr> sl_rnd := rnd \<rparr>;
               prev = (if sl_max_height sl < height
                       then fold (\<lambda>i p. p [i := 0]) [sl_max_height sl..<height] prev else prev);
               sl = (if sl_max_height sl < height then sl \<lparr> sl_max_height := height \<rparr> else sl);
               (x, sl) = sl_NewNode sl key height
           in Some (sl_link x prev [0..<height] sl))
      | _ \<Rightarrow> None)"

section \<open>Iterators\<close>

text \<open>An iterator is the list it walks and its node; \<open>None\<close> is the invalid position.\<close>

definition sl_iter_Next :: "'k SkipList \<Rightarrow> nat \<Rightarrow> nat option" where
  "sl_iter_Next sl node = sl_Next sl node 0"

definition sl_iter_Prev :: "('k \<Rightarrow> 'k \<Rightarrow> int) \<Rightarrow> 'k SkipList \<Rightarrow> nat \<Rightarrow> nat option option" where
  "sl_iter_Prev cmp sl node =
     map_option (\<lambda>n. if n = 0 then None else Some n) (FindLessThan cmp sl (sl_key sl node))"

definition sl_iter_Seek :: "('k \<Rightarrow> 'k \<Rightarrow> int) \<Rightarrow> 'k SkipList \<Rightarrow> 'k \<Rightarrow> nat option option" where
  "sl_iter_Seek cmp sl target = map_option fst (FindGreaterOrEqual cmp sl target None)"

definition sl_iter_SeekToFirst :: "'k SkipList \<Rightarrow> nat option" where
  "sl_iter_SeekToFirst sl = sl_Next sl 0 0"

definition sl_iter_SeekToLast :: "'k SkipList \<Rightarrow> nat option option" where
  "sl_iter_SeekToLast sl = map_option (\<lambda>n. if n = 0 then None else Some n) (FindLast sl)"

section \<open>The representation\<close>

definition sl_height :: "'k SkipList \<Rightarrow> nat \<Rightarrow> nat" where
  "sl_height sl x = length (sn_next (sl_nodes sl ! x))"

fun linked :: "(nat \<Rightarrow> nat option) \<Rightarrow> nat list \<Rightarrow> bool" where
  "linked f [] = True"
| "linked f (x # ys) = (f x = (case ys of [] \<Rightarrow> None | y # _ \<Rightarrow> Some y) \<and> linked f ys)"

definition tall :: "'k SkipList \<Rightarrow> nat \<Rightarrow> nat list \<Rightarrow> nat list" where
  "tall sl l ns = filter (\<lambda>i. l < sl_height sl i) ns"

text \<open>
  \<open>skip_rep sl ns\<close>: the nodes other than the head, in list order, are \<open>ns\<close>; each level \<open>l\<close>
  links the head and the nodes taller than \<open>l\<close>, and the levels from \<open>max_height_\<close> up are empty.
\<close>

definition skip_rep :: "'k SkipList \<Rightarrow> nat list \<Rightarrow> bool" where
  "skip_rep sl ns \<longleftrightarrow>
     sl_nodes sl \<noteq> [] \<and> sl_height sl 0 = kMaxHeight \<and>
     distinct ns \<and> set ns = {1..<length (sl_nodes sl)} \<and>
     1 \<le> sl_max_height sl \<and> sl_max_height sl \<le> kMaxHeight \<and>
     (\<forall>i \<in> set ns. 1 \<le> sl_height sl i \<and> sl_height sl i \<le> sl_max_height sl) \<and>
     (\<forall>l < kMaxHeight. linked (\<lambda>x. sl_Next sl x l) (0 # tall sl l ns))"

lemma RandomHeight_loop_bounds:
  "1 \<le> h \<Longrightarrow> h \<le> kMaxHeight \<Longrightarrow> RandomHeight_loop r h = (h', r') \<Longrightarrow> 1 \<le> h' \<and> h' \<le> kMaxHeight"
proof (induction r h rule: RandomHeight_loop.induct)
  case (1 r h)
  from 1(4) show ?case
    using 1(1) [OF _ refl] 1(2,3)
    by (subst (asm) RandomHeight_loop.simps) (auto simp: Let_def split: if_splits)
qed

lemma RandomHeight_bounds:
  "RandomHeight rnd = (h, r) \<Longrightarrow> 1 \<le> h \<and> h \<le> kMaxHeight"
  using RandomHeight_loop_bounds [of 1] by (simp add: RandomHeight_def kMaxHeight_def)

section \<open>Links\<close>

lemma linked_append: "linked f (xs @ ys) \<Longrightarrow> linked f ys"
  by (induction xs) auto

lemma linked_cong: "linked f xs \<Longrightarrow> (\<And>x. x \<in> set xs \<Longrightarrow> f x = g x) \<Longrightarrow> linked g xs"
  by (induction xs) auto

lemma linked_insert:
  assumes "linked f (A @ p # B)" "distinct (A @ p # B)" "n \<notin> set (A @ p # B)"
    and g: "\<And>x. g x = (if x = p then Some n else if x = n then f p else f x)"
  shows "linked g (A @ p # n # B)"
  using assms(1-3)
proof (induction A)
  case Nil
  have "linked g B"
  proof (rule linked_cong [of f])
    show "linked f B" using Nil by simp
    show "f x = g x" if "x \<in> set B" for x using g [of x] that Nil by auto
  qed
  with Nil show ?case using g [of p] g [of n] by auto
next
  case (Cons a A)
  then show ?case using g [of a] by (cases A) auto
qed

lemma sl_Next_SetNext:
  assumes "x < length (sl_nodes sl)" "n < sl_height sl x"
  shows "sl_Next (sl_SetNext sl x n v) y m = (if y = x \<and> m = n then v else sl_Next sl y m)"
  using assms by (auto simp: sl_Next_def sl_SetNext_def sl_height_def nth_list_update)

lemma sl_SetNext_frame [simp]:
  "length (sl_nodes (sl_SetNext sl x n v)) = length (sl_nodes sl)"
  "sl_height (sl_SetNext sl x n v) y = sl_height sl y"
  "sl_key (sl_SetNext sl x n v) y = sl_key sl y"
  "sl_max_height (sl_SetNext sl x n v) = sl_max_height sl"
  "sl_rnd (sl_SetNext sl x n v) = sl_rnd sl"
proof -
  show "sl_height (sl_SetNext sl x n v) y = sl_height sl y"
    by (cases "x < length (sl_nodes sl)"; cases "x = y")
      (simp_all add: sl_SetNext_def sl_height_def list_update_beyond)
  show "sl_key (sl_SetNext sl x n v) y = sl_key sl y"
    by (cases "x < length (sl_nodes sl)"; cases "x = y")
      (simp_all add: sl_SetNext_def sl_key_def list_update_beyond)
qed (simp_all add: sl_SetNext_def)

lemma sl_link_frame [simp]:
  "length (sl_nodes (sl_link x prev is sl)) = length (sl_nodes sl)"
  "sl_height (sl_link x prev is sl) y = sl_height sl y"
  "sl_key (sl_link x prev is sl) y = sl_key sl y"
  "sl_max_height (sl_link x prev is sl) = sl_max_height sl"
  "sl_rnd (sl_link x prev is sl) = sl_rnd sl"
  by (induction x prev "is" sl rule: sl_link.induct) (simp_all add: Let_def)

text \<open>What the link loop does to every link.\<close>

lemma sl_Next_link:
  assumes "distinct is" "x < length (sl_nodes sl)"
    and "\<And>i. i \<in> set is \<Longrightarrow> i < sl_height sl x \<and> prev ! i < length (sl_nodes sl) \<and>
      i < sl_height sl (prev ! i) \<and> prev ! i \<noteq> x"
  shows "sl_Next (sl_link x prev is sl) y m =
    (if m \<in> set is then (if y = prev ! m then Some x else if y = x then sl_Next sl (prev ! m) m
       else sl_Next sl y m)
     else sl_Next sl y m)"
  using assms
proof (induction x prev "is" sl rule: sl_link.induct)
  case (2 x prev i "is" sl)
  let ?sl = "sl_SetNext (sl_SetNext sl x i (sl_Next sl (prev ! i) i)) (prev ! i) i (Some x)"
  have i: "i < sl_height sl x" "prev ! i < length (sl_nodes sl)" "i < sl_height sl (prev ! i)"
    "prev ! i \<noteq> x" "i \<notin> set is" using 2(2,4) by auto
  have IH: "sl_Next (sl_link x prev is ?sl) y m =
    (if m \<in> set is then (if y = prev ! m then Some x else if y = x then sl_Next ?sl (prev ! m) m
       else sl_Next ?sl y m) else sl_Next ?sl y m)"
    by (rule 2(1) [OF refl refl]) (use 2 in auto)
  have step: "sl_Next ?sl z k = (if k = i then (if z = prev ! i then Some x else if z = x
      then sl_Next sl (prev ! i) i else sl_Next sl z i) else sl_Next sl z k)" for z k
    using i 2(3) by (auto simp: sl_Next_SetNext)
  show ?case using IH i by (auto simp: Let_def step)
qed simp

section \<open>The walk\<close>

fun set_prevs :: "(nat \<Rightarrow> nat) \<Rightarrow> nat \<Rightarrow> nat list \<Rightarrow> nat list" where
  "set_prevs f 0 p = p [0 := f 0]"
| "set_prevs f (Suc l) p = set_prevs f l (p [Suc l := f (Suc l)])"

lemma length_set_prevs [simp]: "length (set_prevs f l p) = length p"
  by (induction f l p rule: set_prevs.induct) auto

lemma nth_set_prevs:
  "l < length p \<Longrightarrow> set_prevs f l p ! i = (if i \<le> l then f i else p ! i)"
  by (induction f l p rule: set_prevs.induct) (auto simp: nth_list_update le_Suc_eq)

text \<open>
  From any node of level \<open>l\<close> that the walk may be at, it runs to the last node of \<open>L\<close> on that
  level and on every level below.
\<close>

lemma sl_walk_level:
  assumes "linked (\<lambda>x. sl_Next sl x l) (x # B @ R)"
    and "\<forall>i \<in> set B. adv i" and "\<forall>i \<in> set R. \<not> adv i"
  shows "sl_walk adv sl x l prev =
    (let y = last (x # B); prev' = map_option (\<lambda>p. p [l := y]) prev in
     if l = 0 then Some (y, (case R of [] \<Rightarrow> None | r # _ \<Rightarrow> Some r), prev')
     else sl_walk adv sl y (l - 1) prev')"
  using assms
proof (induction B arbitrary: x)
  case Nil
  then show ?case by (subst sl_walk.simps) (cases R; simp add: Let_def)
next
  case (Cons b B)
  then have "sl_walk adv sl x l prev = sl_walk adv sl b l prev"
    by (subst sl_walk.simps) simp
  with Cons show ?case by simp
qed

lemma tall_append [simp]: "tall sl l (xs @ ys) = tall sl l xs @ tall sl l ys"
  by (simp add: tall_def)

lemma tall_Suc_subset: "set (tall sl (Suc l) xs) \<subseteq> set (tall sl l xs)"
  by (auto simp: tall_def)

lemma sl_walk_spec:
  assumes links: "\<And>l. l < kMaxHeight \<Longrightarrow> linked (\<lambda>x. sl_Next sl x l) (0 # tall sl l (L @ R))"
    and adv: "\<forall>i \<in> set L. adv i" "\<forall>i \<in> set R. \<not> adv i"
    and low: "tall sl 0 R = R" "tall sl 0 L = L"
  shows "l < kMaxHeight \<Longrightarrow> x \<in> set (0 # tall sl l L) \<Longrightarrow>
    sl_walk adv sl x l prev =
      Some (last (0 # L), (case R of [] \<Rightarrow> None | r # _ \<Rightarrow> Some r),
            map_option (set_prevs (\<lambda>l. last (0 # tall sl l L)) l) prev)"
proof (induction l arbitrary: x prev)
  case (0 x prev)
  then obtain A B where split: "0 # L = A @ x # B" using low by (metis split_list)
  then have last: "last (0 # L) = last (x # B)" by (metis last_appendR list.distinct(1))
  have "linked (\<lambda>x. sl_Next sl x 0) (A @ (x # B @ R))"
    using links [of 0] low split by (simp flip: append_Cons append_assoc) (simp add: kMaxHeight_def)
  then have lnk: "linked (\<lambda>x. sl_Next sl x 0) (x # B @ R)" by (rule linked_append)
  have "set B \<subseteq> set L" using split by (cases A) auto
  then have "\<forall>i \<in> set B. adv i" using adv by auto
  from sl_walk_level [OF lnk this adv(2)] show ?case
    using low by (simp add: Let_def comp_def last [symmetric] del: last.simps)
next
  case (Suc l x prev)
  let ?t = "tall sl (Suc l)"
  from Suc.prems obtain A B where split: "0 # ?t L = A @ x # B" by (metis split_list)
  then have last: "last (0 # ?t L) = last (x # B)" by (metis last_appendR list.distinct(1))
  have "linked (\<lambda>x. sl_Next sl x (Suc l)) (A @ (x # B @ ?t R))"
    using links [OF Suc.prems(1)] split by (simp flip: append_Cons append_assoc)
  then have lnk: "linked (\<lambda>x. sl_Next sl x (Suc l)) (x # B @ ?t R)" by (rule linked_append)
  have "set B \<subseteq> set (?t L)" using split by (cases A) auto
  then have B: "\<forall>i \<in> set B. adv i" using adv by (auto simp: tall_def)
  have R: "\<forall>i \<in> set (?t R). \<not> adv i" using adv by (auto simp: tall_def)
  have "last (0 # ?t L) \<in> set (0 # ?t L)" by (rule last_in_set) simp
  then have y: "last (x # B) \<in> set (0 # tall sl l L)"
    using last tall_Suc_subset [of sl l L] by auto
  have l: "l < kMaxHeight" using Suc.prems(1) by simp
  from sl_walk_level [OF lnk B R, of prev] Suc.IH [OF l y] last show ?case
    by (simp add: Let_def option.map_comp comp_def)
qed

section \<open>The searches on a sorted list\<close>

definition skip_sorted :: "('k \<Rightarrow> 'k \<Rightarrow> int) \<Rightarrow> ('k \<Rightarrow> bool) \<Rightarrow> 'k SkipList \<Rightarrow> nat list \<Rightarrow> bool" where
  "skip_sorted cmp valid sl ns \<longleftrightarrow>
     skip_rep sl ns \<and> (\<forall>i \<in> set ns. valid (sl_key sl i)) \<and>
     sorted_wrt (\<lambda>i j. cmp (sl_key sl i) (sl_key sl j) < 0) ns"

definition ord_insert :: "('k \<Rightarrow> 'k \<Rightarrow> int) \<Rightarrow> 'k \<Rightarrow> 'k list \<Rightarrow> 'k list" where
  "ord_insert cmp k ks = takeWhile (\<lambda>x. cmp x k < 0) ks @ k # dropWhile (\<lambda>x. cmp x k < 0) ks"

lemma skip_rep_level0: "skip_rep sl ns \<Longrightarrow> set xs \<subseteq> set ns \<Longrightarrow> tall sl 0 xs = xs"
  by (auto simp: skip_rep_def tall_def filter_id_conv subset_iff Suc_le_eq)

lemma sl_walk_rep:
  assumes "skip_rep sl (L @ R)" "\<forall>i \<in> set L. adv i" "\<forall>i \<in> set R. \<not> adv i"
  shows "sl_walk adv sl 0 (sl_max_height sl - 1) prev =
      Some (last (0 # L), (case R of [] \<Rightarrow> None | r # _ \<Rightarrow> Some r),
        map_option (set_prevs (\<lambda>l. last (0 # tall sl l L)) (sl_max_height sl - 1)) prev)"
proof (rule sl_walk_spec)
  show "tall sl 0 R = R" "tall sl 0 L = L" using skip_rep_level0 [OF assms(1)] by auto
  show "sl_max_height sl - 1 < kMaxHeight" using assms(1) by (auto simp: skip_rep_def)
qed (use assms in \<open>auto simp: skip_rep_def\<close>)

lemma FindLast_rep: "skip_rep sl ns \<Longrightarrow> FindLast sl = Some (last (0 # ns))"
  using sl_walk_rep [of sl ns "[]" "\<lambda>_. True" None] by (simp add: FindLast_def)

lemma skip_rep_links0:
  assumes "skip_rep sl ns"
  shows "linked (\<lambda>x. sl_Next sl x 0) (0 # ns)"
proof -
  have "linked (\<lambda>x. sl_Next sl x 0) (0 # tall sl 0 ns)"
    using assms unfolding skip_rep_def kMaxHeight_def by (metis zero_less_numeral)
  then show ?thesis using skip_rep_level0 [OF assms, of ns] by simp
qed

section \<open>Inserting a node\<close>

definition sl_grow :: "'k SkipList \<Rightarrow> 'k \<Rightarrow> nat \<Rightarrow> u32 \<Rightarrow> 'k SkipList" where
  "sl_grow sl k h r = sl \<lparr> sl_rnd := r, sl_max_height := max (sl_max_height sl) h,
     sl_nodes := sl_nodes sl @ [\<lparr> sn_key = k, sn_next = replicate h None \<rparr>] \<rparr>"

lemma sl_grow_simps [simp]:
  "length (sl_nodes (sl_grow sl k h r)) = Suc (length (sl_nodes sl))"
  "sl_max_height (sl_grow sl k h r) = max (sl_max_height sl) h"
  "sl_height (sl_grow sl k h r) (length (sl_nodes sl)) = h"
  "sl_key (sl_grow sl k h r) (length (sl_nodes sl)) = k"
  "x < length (sl_nodes sl) \<Longrightarrow> sl_height (sl_grow sl k h r) x = sl_height sl x"
  "x < length (sl_nodes sl) \<Longrightarrow> sl_key (sl_grow sl k h r) x = sl_key sl x"
  "x < length (sl_nodes sl) \<Longrightarrow> sl_Next (sl_grow sl k h r) x l = sl_Next sl x l"
  by (simp_all add: sl_grow_def sl_height_def sl_key_def sl_Next_def nth_append)

lemma skip_rep_bound: "skip_rep sl ns \<Longrightarrow> x \<in> set (0 # ns) \<Longrightarrow> x < length (sl_nodes sl)"
  by (auto simp: skip_rep_def)

lemma skip_rep_prev:
  assumes "skip_rep sl (L @ R)" "l < kMaxHeight"
  shows "last (0 # tall sl l L) < length (sl_nodes sl) \<and> l < sl_height sl (last (0 # tall sl l L))"
proof -
  have "last (0 # tall sl l L) \<in> set (0 # tall sl l L)" by (rule last_in_set) simp
  then have "last (0 # tall sl l L) \<in> set (0 # L) \<and>
      (last (0 # tall sl l L) = 0 \<or> l < sl_height sl (last (0 # tall sl l L)))"
    by (auto simp: tall_def)
  with assms skip_rep_bound [OF assms(1), of "last (0 # tall sl l L)"] show ?thesis
    by (auto simp: skip_rep_def)
qed

lemma skip_rep_insert:
  assumes rep: "skip_rep sl (L @ R)" and h: "1 \<le> h" "h \<le> kMaxHeight"
    and prev: "\<And>l. l < h \<Longrightarrow> prev ! l = last (0 # tall sl l L)"
  shows "skip_rep (sl_link (length (sl_nodes sl)) prev [0..<h] (sl_grow sl k h r))
    (L @ length (sl_nodes sl) # R)"
proof -
  let ?n = "length (sl_nodes sl)"
  let ?g = "sl_grow sl k h r" and ?s = "sl_link ?n prev [0..<h] (sl_grow sl k h r)"
  have bound: "x < ?n" if "x \<in> set (0 # L @ R)" for x using skip_rep_bound [OF rep that] .
  have old: "sl_height ?s x = sl_height sl x" if "x \<in> set (0 # L @ R)" for x
    using bound [OF that] by simp
  have tall: "tall ?s l (L @ ?n # R) = tall sl l L @ (if l < h then [?n] else []) @ tall sl l R" for l
    using old by (simp add: tall_def cong: filter_cong)
  have prev_ok: "prev ! l < ?n \<and> l < sl_height ?g (prev ! l)" if "l < h" for l
    using skip_rep_prev [OF rep, of l] prev [OF that] that h by auto
  have next': "sl_Next ?s x l = (if l < h then (if x = prev ! l then Some ?n
      else if x = ?n then sl_Next sl (prev ! l) l else sl_Next ?g x l) else sl_Next ?g x l)" for x l
  proof -
    have "sl_Next ?s x l = (if l \<in> set [0..<h] then (if x = prev ! l then Some ?n
        else if x = ?n then sl_Next ?g (prev ! l) l else sl_Next ?g x l) else sl_Next ?g x l)"
      by (rule sl_Next_link) (auto dest: prev_ok)
    then show ?thesis using prev_ok [of l] by simp
  qed
  have links: "linked (\<lambda>x. sl_Next ?s x l) (0 # tall ?s l (L @ ?n # R))" if l: "l < kMaxHeight" for l
  proof -
    have lnk: "linked (\<lambda>x. sl_Next sl x l) ((0 # tall sl l L) @ tall sl l R)"
      using rep l by (auto simp: skip_rep_def)
    have sub: "set (0 # tall sl l L @ tall sl l R) \<subseteq> set (0 # L @ R)" by (auto simp: tall_def)
    show ?thesis
    proof (cases "l < h")
      case True
      have "0 # tall sl l L = butlast (0 # tall sl l L) @ [prev ! l]"
        unfolding prev [OF True] by (rule append_butlast_last_id [symmetric]) simp
      then obtain A where split: "0 # tall sl l L = A @ [prev ! l]" ..
      then have whole: "(0 # tall sl l L) @ tall sl l R = A @ prev ! l # tall sl l R" by simp
      have inb: "x < ?n" if "x \<in> set (A @ prev ! l # tall sl l R)" for x
        using that sub bound unfolding whole [symmetric] by auto
      have "linked (\<lambda>x. sl_Next ?s x l) (A @ prev ! l # ?n # tall sl l R)"
      proof (rule linked_insert)
        show "linked (\<lambda>x. sl_Next ?g x l) (A @ prev ! l # tall sl l R)"
          using lnk unfolding whole by (rule linked_cong) (simp add: inb)
        have "0 \<notin> set (L @ R)" "distinct (L @ R)" using rep unfolding skip_rep_def by fastforce+
        then have "distinct ((0 # tall sl l L) @ tall sl l R)" by (auto simp: tall_def)
        then show "distinct (A @ prev ! l # tall sl l R)" unfolding whole .
        show "?n \<notin> set (A @ prev ! l # tall sl l R)"
          using inb by blast
        show "sl_Next ?s x l = (if x = prev ! l then Some ?n
            else if x = ?n then sl_Next ?g (prev ! l) l else sl_Next ?g x l)" for x
          using next' True prev_ok [OF True] by simp
      qed
      moreover have "0 # tall ?s l (L @ ?n # R) = A @ prev ! l # ?n # tall sl l R"
        unfolding tall using split True by simp
      ultimately show ?thesis by simp
    next
      case False
      have "sl_Next ?s x l = sl_Next sl x l" if "x \<in> set (0 # tall sl l L @ tall sl l R)" for x
      proof -
        have "x < ?n" using sub that by (intro bound) blast
        then show ?thesis using next' [of x l] False by simp
      qed
      with lnk have "linked (\<lambda>x. sl_Next ?s x l) ((0 # tall sl l L) @ tall sl l R)"
        by (auto elim!: linked_cong)
      with False show ?thesis unfolding tall by simp
    qed
  qed
  have heights: "\<forall>i \<in> set (L @ ?n # R). 1 \<le> sl_height ?s i \<and> sl_height ?s i \<le> sl_max_height ?s"
    using rep h old by (auto simp: skip_rep_def le_max_iff_disj)
  have nodes: "set (L @ ?n # R) = {1..<length (sl_nodes ?s)}"
    using rep by (auto simp: skip_rep_def Suc_le_eq)
  show ?thesis
    unfolding skip_rep_def
  proof (intro conjI allI impI)
    show "sl_nodes ?s \<noteq> []" using sl_link_frame(1) [of ?n prev "[0..<h]" ?g] by force
    show "sl_height ?s 0 = kMaxHeight" using old [of 0] rep by (simp add: skip_rep_def)
    show "distinct (L @ ?n # R)" using rep bound [of ?n] by (auto simp: skip_rep_def)
    show "1 \<le> sl_max_height ?s" "sl_max_height ?s \<le> kMaxHeight"
      using rep h by (auto simp: skip_rep_def)
  qed (rule links heights nodes, assumption?)+
qed

lemma length_fold_zero [simp]: "length (fold (\<lambda>i p. p [i := 0]) is p) = length p"
  by (induction "is" arbitrary: p) auto

lemma nth_fold_zero:
  "b \<le> length p \<Longrightarrow> fold (\<lambda>i p. p [i := 0]) [a..<b] p ! l = (if a \<le> l \<and> l < b then 0 else p ! l)"
  by (induction b) (auto simp: nth_list_update less_Suc_eq)

section \<open>The keys of a list, in order\<close>

fun sl_collect :: "'k SkipList \<Rightarrow> nat \<Rightarrow> nat option \<Rightarrow> nat list" where
  "sl_collect sl 0 p = []"
| "sl_collect sl (Suc fuel) p =
     (case p of None \<Rightarrow> [] | Some n \<Rightarrow> n # sl_collect sl fuel (sl_Next sl n 0))"

text \<open>The nodes on level 0; a list of as many nodes as the arena holds needs no more fuel.\<close>

definition sl_order :: "'k SkipList \<Rightarrow> nat list" where
  "sl_order sl = sl_collect sl (length (sl_nodes sl)) (sl_Next sl 0 0)"

definition sl_keys :: "'k SkipList \<Rightarrow> 'k list" where
  "sl_keys sl = map (sl_key sl) (sl_order sl)"

definition skip_inv :: "('k \<Rightarrow> 'k \<Rightarrow> int) \<Rightarrow> ('k \<Rightarrow> bool) \<Rightarrow> 'k SkipList \<Rightarrow> bool" where
  "skip_inv cmp valid sl \<longleftrightarrow> skip_sorted cmp valid sl (sl_order sl)"

lemma sl_collect_linked:
  "linked (\<lambda>x. sl_Next sl x 0) ns \<Longrightarrow> length ns \<le> fuel \<Longrightarrow>
    sl_collect sl fuel (case ns of [] \<Rightarrow> None | n # _ \<Rightarrow> Some n) = ns"
proof (induction ns arbitrary: fuel)
  case Nil
  then show ?case by (cases fuel) auto
next
  case (Cons n ns)
  then show ?case by (cases fuel) auto
qed

lemma sl_order_rep:
  assumes "skip_rep sl ns"
  shows "sl_order sl = ns"
proof -
  have "linked (\<lambda>x. sl_Next sl x 0) (0 # ns)" by (rule skip_rep_links0 [OF assms])
  then have "linked (\<lambda>x. sl_Next sl x 0) ns" and
    "sl_Next sl 0 0 = (case ns of [] \<Rightarrow> None | n # _ \<Rightarrow> Some n)" by simp_all
  moreover have "length ns \<le> length (sl_nodes sl)"
    using assms distinct_card [of ns] unfolding skip_rep_def by auto
  ultimately show ?thesis using sl_collect_linked [of sl ns "length (sl_nodes sl)"]
    by (simp add: sl_order_def)
qed

lemma skip_inv_iff: "skip_inv cmp valid sl \<longleftrightarrow> (\<exists>ns. skip_sorted cmp valid sl ns)"
  using sl_order_rep by (auto simp: skip_inv_def skip_sorted_def)

lemma SkipList_new_inv: "skip_inv cmp valid (SkipList_new k) \<and> sl_keys (SkipList_new k) = []"
proof -
  have "skip_rep (SkipList_new k) []"
    by (auto simp: skip_rep_def SkipList_new_def sl_height_def tall_def sl_Next_def kMaxHeight_def)
  moreover from this have "sl_order (SkipList_new k) = []" by (rule sl_order_rep)
  ultimately show ?thesis by (simp add: skip_inv_def skip_sorted_def sl_keys_def)
qed

text \<open>Moving an iterator along level 0.\<close>

lemma sl_iter_Next_order:
  assumes "skip_rep sl ns" "ns = xs @ n # ys"
  shows "sl_iter_Next sl n = (case ys of [] \<Rightarrow> None | y # _ \<Rightarrow> Some y)"
proof -
  have "linked (\<lambda>x. sl_Next sl x 0) ((0 # xs) @ (n # ys))"
    using skip_rep_links0 [OF assms(1)] assms(2) by simp
  then have "linked (\<lambda>x. sl_Next sl x 0) (n # ys)" by (rule linked_append)
  then show ?thesis by (simp add: sl_iter_Next_def)
qed

lemma sl_iter_SeekToFirst_order:
  assumes "skip_rep sl ns"
  shows "sl_iter_SeekToFirst sl = (case ns of [] \<Rightarrow> None | n # _ \<Rightarrow> Some n)"
  using skip_rep_links0 [OF assms] by (simp add: sl_iter_SeekToFirst_def)

lemma sl_iter_SeekToLast_order:
  assumes "skip_rep sl ns"
  shows "sl_iter_SeekToLast sl = Some (if ns = [] then None else Some (last ns))"
proof -
  have "0 \<notin> set ns" using assms unfolding skip_rep_def by fastforce
  then have "ns \<noteq> [] \<Longrightarrow> last ns \<noteq> 0" by (metis last_in_set)
  then show ?thesis by (cases "ns = []") (simp_all add: sl_iter_SeekToLast_def FindLast_rep [OF assms])
qed

context compare_order
begin

abbreviation before :: "'k SkipList \<Rightarrow> 'k \<Rightarrow> nat \<Rightarrow> bool" where
  "before sl k i \<equiv> compare (sl_key sl i) k < 0"

lemma skip_split:
  assumes "skip_sorted compare valid sl ns" "valid k"
  shows "\<forall>i \<in> set (takeWhile (before sl k) ns). before sl k i"
    and "\<forall>i \<in> set (dropWhile (before sl k) ns). \<not> before sl k i"
proof -
  show "\<forall>i \<in> set (takeWhile (before sl k) ns). before sl k i" by (auto dest: set_takeWhileD)
  have "sorted_wrt (\<lambda>i j. compare (sl_key sl i) (sl_key sl j) < 0) xs \<Longrightarrow>
      \<forall>i \<in> set xs. valid (sl_key sl i) \<Longrightarrow> \<forall>i \<in> set (dropWhile (before sl k) xs). \<not> before sl k i" for xs
  proof (induction xs)
    case (Cons x xs)
    have up: "before sl k x" if "y \<in> set xs" "before sl k y" for y
    proof (rule lt_trans)
      show "valid (sl_key sl x)" "valid (sl_key sl y)" using Cons.prems(2) that(1) by simp_all
      show "compare (sl_key sl x) (sl_key sl y) < 0" using Cons.prems(1) that(1) by simp
    qed (rule assms(2) that(2))+
    show ?case
    proof (cases "before sl k x")
      case True
      then have drop: "dropWhile (before sl k) (x # xs) = dropWhile (before sl k) xs" by simp
      show ?thesis unfolding drop
        by (rule Cons.IH) (use Cons.prems in simp_all)
    next
      case False
      then have "\<forall>y \<in> set xs. \<not> before sl k y" using up by blast
      with False show ?thesis by simp
    qed
  qed simp
  with assms(1) show "\<forall>i \<in> set (dropWhile (before sl k) ns). \<not> before sl k i"
    unfolding skip_sorted_def by blast
qed

lemma walk_sorted:
  assumes "skip_sorted compare valid sl ns" "valid k"
  shows "sl_walk (before sl k) sl 0 (sl_max_height sl - 1) prev =
      Some (last (0 # takeWhile (before sl k) ns),
        (case dropWhile (before sl k) ns of [] \<Rightarrow> None | r # _ \<Rightarrow> Some r),
        map_option (set_prevs (\<lambda>l. last (0 # tall sl l (takeWhile (before sl k) ns)))
          (sl_max_height sl - 1)) prev)"
proof (rule sl_walk_rep)
  show "skip_rep sl (takeWhile (before sl k) ns @ dropWhile (before sl k) ns)"
    using assms(1) by (simp add: skip_sorted_def)
qed (rule skip_split [OF assms])+

lemma FindGreaterOrEqual_sorted:
  assumes "skip_sorted compare valid sl ns" "valid k"
  shows "FindGreaterOrEqual compare sl k prev =
      Some ((case dropWhile (before sl k) ns of [] \<Rightarrow> None | r # _ \<Rightarrow> Some r),
        map_option (set_prevs (\<lambda>l. last (0 # tall sl l (takeWhile (before sl k) ns)))
          (sl_max_height sl - 1)) prev)"
  unfolding FindGreaterOrEqual_def KeyIsAfterNode_def option.case walk_sorted [OF assms] by simp

lemma FindLessThan_sorted:
  assumes "skip_sorted compare valid sl ns" "valid k"
  shows "FindLessThan compare sl k = Some (last (0 # takeWhile (before sl k) ns))"
  unfolding FindLessThan_def not_le walk_sorted [OF assms] by simp

lemma Contains_sorted:
  assumes "skip_sorted compare valid sl ns" "valid k"
  shows "sl_Contains compare sl k = Some (\<exists>i \<in> set ns. compare k (sl_key sl i) = 0)"
proof -
  let ?L = "takeWhile (before sl k) ns" and ?R = "dropWhile (before sl k) ns"
  have valid: "\<forall>i \<in> set ns. valid (sl_key sl i)" and
    sorted: "sorted_wrt (\<lambda>i j. compare (sl_key sl i) (sl_key sl j) < 0) (?L @ ?R)"
    using assms(1) by (simp_all add: skip_sorted_def)
  have eq0: "compare k (sl_key sl i) = 0 \<longleftrightarrow> compare (sl_key sl i) k = 0" if "i \<in> set ns" for i
    using that valid assms(2) cmp_eq_sym by blast
  have "(\<exists>i \<in> set ns. compare k (sl_key sl i) = 0) \<longleftrightarrow>
      (case ?R of [] \<Rightarrow> False | r # _ \<Rightarrow> compare k (sl_key sl r) = 0)"
  proof (cases ?R)
    case Nil
    then have "?L = ns" by (metis append_Nil2 takeWhile_dropWhile_id)
    then have "\<forall>i \<in> set ns. before sl k i" using skip_split(1) [OF assms] by simp
    then have "\<not> (\<exists>i \<in> set ns. compare k (sl_key sl i) = 0)" using eq0 by force
    then show ?thesis unfolding Nil list.case by blast
  next
    case (Cons r rs)
    have in_ns: "set ns = set ?L \<union> set (r # rs)"
      by (metis Cons set_append takeWhile_dropWhile_id)
    have "compare k (sl_key sl r) = 0" if i: "i \<in> set ns" "compare k (sl_key sl i) = 0" for i
    proof (rule ccontr)
      assume ne: "compare k (sl_key sl r) \<noteq> 0"
      have "i \<notin> set ?L" using skip_split(1) [OF assms] i eq0 by force
      with in_ns i ne have "i \<in> set rs" by auto
      then have "compare (sl_key sl r) (sl_key sl i) < 0"
        using sorted Cons by (simp add: sorted_wrt_append)
      then have "compare (sl_key sl r) k < 0"
        using lt_le_trans [of "sl_key sl r" "sl_key sl i" k] valid in_ns i eq0 assms(2) by auto
      then show False using skip_split(2) [OF assms] Cons by simp
    qed
    with Cons in_ns show ?thesis by auto
  qed
  then show ?thesis
    unfolding sl_Contains_def FindGreaterOrEqual_sorted [OF assms]
    by (cases ?R) (simp_all del: dropWhile_eq_Nil_conv)
qed

lemma Insert_sorted:
  assumes "skip_sorted compare valid sl ns" "valid k" "\<forall>i \<in> set ns. compare (sl_key sl i) k \<noteq> 0"
  shows "\<exists>sl'. sl_Insert compare sl k = Some sl' \<and>
    skip_sorted compare valid sl' (ord_insert (\<lambda>i _. compare (sl_key sl i) k) (length (sl_nodes sl)) ns) \<and>
    length (sl_nodes sl') = Suc (length (sl_nodes sl)) \<and>
    sl_key sl' (length (sl_nodes sl)) = k \<and> (\<forall>i < length (sl_nodes sl). sl_key sl' i = sl_key sl i)"
proof -
  let ?L = "takeWhile (before sl k) ns" and ?R = "dropWhile (before sl k) ns" and ?n = "length (sl_nodes sl)"
  let ?f = "\<lambda>l. last (0 # tall sl l ?L)"
  let ?mh = "sl_max_height sl"
  let ?p0 = "set_prevs ?f (?mh - 1) (replicate kMaxHeight 0)"
  obtain h r where hr: "RandomHeight (sl_rnd sl) = (h, r)" by fastforce
  note h = RandomHeight_bounds [OF hr]
  define prev where "prev = (if ?mh < h then fold (\<lambda>i p. p [i := 0]) [?mh..<h] ?p0 else ?p0)"
  have rep: "skip_rep sl (?L @ ?R)" using assms(1) by (simp add: skip_sorted_def)
  have mh: "1 \<le> ?mh" "?mh \<le> kMaxHeight" using rep by (auto simp: skip_rep_def)
  have empty: "?f l = 0" if "?mh \<le> l" for l
  proof -
    have "sl_height sl i \<le> l" if "i \<in> set ?L" for i
      using rep that \<open>?mh \<le> l\<close> unfolding skip_rep_def by (auto dest!: set_takeWhileD)
    then show ?thesis by (auto simp: tall_def not_less filter_empty_conv)
  qed
  have p0: "?p0 ! l = (if l < ?mh then ?f l else 0)" if "l < kMaxHeight" for l
    using mh that by (auto simp: nth_set_prevs)
  have prev: "prev ! l = ?f l" if "l < h" for l
    using p0 [of l] empty [of l] that h unfolding prev_def by (auto simp: nth_fold_zero)
  have ins: "sl_Insert compare sl k = Some (sl_link ?n prev [0..<h] (sl_grow sl k h r))"
    unfolding sl_Insert_def FindGreaterOrEqual_sorted [OF assms(1,2)] option.map prod.case option.case hr Let_def
    by (simp add: sl_NewNode_def sl_grow_def prev_def max_def)
  let ?s = "sl_link ?n prev [0..<h] (sl_grow sl k h r)"
  have rep': "skip_rep ?s (?L @ ?n # ?R)" using rep h prev by (intro skip_rep_insert) auto
  have key: "sl_key ?s i = sl_key sl i" if "i \<in> set ns" for i
    using that skip_rep_bound [OF rep, of i] by simp
  have valid_ns: "\<forall>i \<in> set ns. valid (sl_key sl i)" using assms(1) by (simp add: skip_sorted_def)
  have R: "\<forall>i \<in> set ?R. compare k (sl_key sl i) < 0"
    using skip_split(2) [OF assms(1,2)] assms(2,3) valid_ns cmp_swap [of k]
    by (metis linorder_neqE_linordered_idom set_dropWhileD)
  have "sorted_wrt (\<lambda>i j. compare (sl_key sl i) (sl_key sl j) < 0) (?L @ ?R)"
    using assms(1) by (simp add: skip_sorted_def)
  then have "sorted_wrt (\<lambda>i j. compare (sl_key ?s i) (sl_key ?s j) < 0) (?L @ ?R)"
    by (rule sorted_wrt_mono_rel [rotated])
      (simp only: key takeWhile_dropWhile_id)
  moreover have "\<forall>i \<in> set ?R. compare (sl_key ?s ?n) (sl_key ?s i) < 0"
    using R key [OF set_dropWhileD] by simp
  moreover have "\<forall>i \<in> set ?L. compare (sl_key ?s i) (sl_key ?s ?n) < 0"
    using skip_split(1) [OF assms(1,2)] key set_takeWhileD [of _ "before sl k" ns] by simp
  ultimately have "sorted_wrt (\<lambda>i j. compare (sl_key ?s i) (sl_key ?s j) < 0) (?L @ ?n # ?R)"
    unfolding sorted_wrt_append sorted_wrt.simps by simp
  moreover have "\<forall>i \<in> set (?L @ ?n # ?R). valid (sl_key ?s i)"
    using key valid_ns assms(2) by (auto dest: set_takeWhileD set_dropWhileD)
  ultimately show ?thesis
    using ins rep' by (simp add: skip_sorted_def ord_insert_def)
qed

lemma ord_insert_map:
  assumes "\<forall>i \<in> set ns. f' i = f i" "f' n = k"
  shows "map f' (ord_insert (\<lambda>i _. compare (f i) k) n ns) = ord_insert compare k (map f ns)"
  using assms by (simp add: ord_insert_def takeWhile_map dropWhile_map comp_def)
    (metis (mono_tags, lifting) map_cong set_takeWhileD set_dropWhileD)

text \<open>Insertion implements \<open>ord_insert\<close> on the keys.\<close>

lemma Insert_keys:
  assumes "skip_inv compare valid sl" "valid k" "\<forall>x \<in> set (sl_keys sl). compare x k \<noteq> 0"
  shows "\<exists>sl'. sl_Insert compare sl k = Some sl' \<and> skip_inv compare valid sl' \<and>
    sl_keys sl' = ord_insert compare k (sl_keys sl)"
proof -
  let ?ns = "sl_order sl"
  have sorted: "skip_sorted compare valid sl ?ns" using assms(1) by (simp add: skip_inv_def)
  have ne: "\<forall>i \<in> set ?ns. compare (sl_key sl i) k \<noteq> 0" using assms(3) by (simp add: sl_keys_def)
  obtain sl' where ins: "sl_Insert compare sl k = Some sl'" and
    s': "skip_sorted compare valid sl' (ord_insert (\<lambda>i _. compare (sl_key sl i) k) (length (sl_nodes sl)) ?ns)" and
    key: "sl_key sl' (length (sl_nodes sl)) = k" "\<forall>i < length (sl_nodes sl). sl_key sl' i = sl_key sl i"
    using Insert_sorted [OF sorted assms(2) ne] by blast
  have ord: "sl_order sl' = ord_insert (\<lambda>i _. compare (sl_key sl i) k) (length (sl_nodes sl)) ?ns"
    using s' by (intro sl_order_rep) (simp add: skip_sorted_def)
  have "\<forall>i \<in> set ?ns. i < length (sl_nodes sl)"
    using sorted skip_rep_bound unfolding skip_sorted_def by (metis list.set_intros(2))
  then have "sl_keys sl' = ord_insert compare k (sl_keys sl)"
    unfolding sl_keys_def ord using key by (intro ord_insert_map) auto
  moreover have "skip_inv compare valid sl'" using s' by (auto simp: skip_inv_iff)
  ultimately show ?thesis using ins by blast
qed

lemma Seek_order:
  assumes "skip_inv compare valid sl" "valid k"
  shows "sl_iter_Seek compare sl k =
    Some (case dropWhile (before sl k) (sl_order sl) of [] \<Rightarrow> None | r # _ \<Rightarrow> Some r)"
  using FindGreaterOrEqual_sorted [of sl "sl_order sl" k None] assms
  by (simp add: sl_iter_Seek_def skip_inv_def)

text \<open>\<open>Seek\<close> stops at the first key that is not below the target.\<close>

lemma Seek_keys:
  assumes "skip_inv compare valid sl" "valid k"
  shows "map_option (map_option (sl_key sl)) (sl_iter_Seek compare sl k) =
    Some (case dropWhile (\<lambda>x. compare x k < 0) (sl_keys sl) of [] \<Rightarrow> None | x # _ \<Rightarrow> Some x)"
  by (cases "dropWhile (before sl k) (sl_order sl)")
    (simp_all add: Seek_order [OF assms] sl_keys_def dropWhile_map comp_def del: dropWhile_eq_Nil_conv)

lemma Contains_keys:
  assumes "skip_inv compare valid sl" "valid k"
  shows "sl_Contains compare sl k = Some (\<exists>x \<in> set (sl_keys sl). compare k x = 0)"
  using Contains_sorted [of sl "sl_order sl" k] assms by (simp add: skip_inv_def sl_keys_def)

lemma keys_sorted:
  assumes "skip_inv compare valid sl"
  shows "sorted_wrt (\<lambda>x y. compare x y < 0) (sl_keys sl) \<and> (\<forall>x \<in> set (sl_keys sl). valid x)"
  using assms by (auto simp: skip_inv_def skip_sorted_def sl_keys_def sorted_wrt_map)

lemma Prev_order:
  assumes "skip_inv compare valid sl" "sl_order sl = xs @ n # ys"
  shows "sl_iter_Prev compare sl n = Some (if xs = [] then None else Some (last xs))"
proof -
  have s: "skip_sorted compare valid sl (xs @ n # ys)" using assms by (simp add: skip_inv_def)
  then have n: "valid (sl_key sl n)" by (simp add: skip_sorted_def)
  have "takeWhile (before sl (sl_key sl n)) (xs @ n # ys) = xs"
    using s n by (subst takeWhile_append2) (auto simp: skip_sorted_def sorted_wrt_append lt_irrefl)
  then have "FindLessThan compare sl (sl_key sl n) = Some (last (0 # xs))"
    using FindLessThan_sorted [OF s n] by simp
  moreover have "0 \<notin> set xs" using s unfolding skip_sorted_def skip_rep_def by fastforce
  then have "xs \<noteq> [] \<Longrightarrow> last xs \<noteq> 0" by (metis last_in_set)
  ultimately show ?thesis by (cases "xs = []") (simp_all add: sl_iter_Prev_def)
qed

end

end
