(* ===== verification/Arena.thy ===== *)
theory Arena
  imports Prelude
begin

text \<open>
  \<^verbatim>\<open>kv/util/arena.{h,cpp}\<close>. A pointer into the arena is a pair of the number of its
  \<open>new[]\<close> block and the offset in it. Distinct blocks do not overlap, and the base of a block
  is aligned for pointers (what \<open>operator new[]\<close> guarantees), so the low bits of a pointer are
  those of its offset. Sizes are unbounded.
\<close>

record Arena =
  alloc_ptr :: "(nat \<times> nat) option"
  alloc_bytes_remaining :: nat
  blocks :: "nat list"
  memory_usage :: nat

definition Arena_kBlockSize :: nat where "Arena_kBlockSize = 4096"

definition Arena_new :: Arena where
  "Arena_new = \<lparr> alloc_ptr = None, alloc_bytes_remaining = 0, blocks = [], memory_usage = 0 \<rparr>"

definition Arena_AllocateNewBlock :: "Arena \<Rightarrow> nat \<Rightarrow> (nat \<times> nat) \<times> Arena" where
  "Arena_AllocateNewBlock a block_bytes =
     ((length (blocks a), 0),
      a \<lparr> blocks := blocks a @ [block_bytes], memory_usage := memory_usage a + block_bytes + 8 \<rparr>)"

definition Arena_AllocateFallback :: "Arena \<Rightarrow> nat \<Rightarrow> (nat \<times> nat) \<times> Arena" where
  "Arena_AllocateFallback a bytes =
     (if Arena_kBlockSize div 4 < bytes then Arena_AllocateNewBlock a bytes
      else (let (p, a) = Arena_AllocateNewBlock a Arena_kBlockSize
            in (p, a \<lparr> alloc_ptr := Some (fst p, snd p + bytes),
                      alloc_bytes_remaining := Arena_kBlockSize - bytes \<rparr>)))"

text \<open>
  \<open>Allocate\<close> on a null pointer falls through unless zero bytes are asked for, which the
  assertion excludes; the model takes the fallback there.
\<close>

definition Arena_Allocate :: "Arena \<Rightarrow> nat \<Rightarrow> (nat \<times> nat) \<times> Arena" where
  "Arena_Allocate a bytes =
     (case alloc_ptr a of
        Some (b, off) \<Rightarrow>
          if bytes \<le> alloc_bytes_remaining a
          then ((b, off), a \<lparr> alloc_ptr := Some (b, off + bytes),
                             alloc_bytes_remaining := alloc_bytes_remaining a - bytes \<rparr>)
          else Arena_AllocateFallback a bytes
      | None \<Rightarrow> Arena_AllocateFallback a bytes)"

definition Arena_AllocateAligned :: "Arena \<Rightarrow> nat \<Rightarrow> (nat \<times> nat) \<times> Arena" where
  "Arena_AllocateAligned a bytes =
     (case alloc_ptr a of
        Some (b, off) \<Rightarrow>
          (let current_mod = off mod 8;
               slop = (if current_mod = 0 then 0 else 8 - current_mod);
               needed = bytes + slop
           in if needed \<le> alloc_bytes_remaining a
              then ((b, off + slop), a \<lparr> alloc_ptr := Some (b, off + needed),
                             alloc_bytes_remaining := alloc_bytes_remaining a - needed \<rparr>)
              else Arena_AllocateFallback a bytes)
      | None \<Rightarrow> Arena_AllocateFallback a bytes)"

section \<open>Regions\<close>

type_synonym region = "nat \<times> nat \<times> nat"

definition disjoint_regions :: "region \<Rightarrow> region \<Rightarrow> bool" where
  "disjoint_regions r s \<longleftrightarrow>
     (case (r, s) of ((b, off, n), (b', off', n')) \<Rightarrow> b \<noteq> b' \<or> off + n \<le> off' \<or> off' + n' \<le> off)"

text \<open>
  What a history of handed out regions and the arena satisfy: the free tail of the current
  block is what the counters say, every region lies in its block and outside that tail, and
  no two regions overlap.
\<close>

definition arena_inv :: "Arena \<Rightarrow> region list \<Rightarrow> bool" where
  "arena_inv a rs \<longleftrightarrow>
     (case alloc_ptr a of
        None \<Rightarrow> alloc_bytes_remaining a = 0
      | Some (b, off) \<Rightarrow> b < length (blocks a) \<and> off + alloc_bytes_remaining a = blocks a ! b \<and>
          (\<forall>(b', off', n') \<in> set rs. b' = b \<longrightarrow> off' + n' \<le> off)) \<and>
     (\<forall>(b, off, n) \<in> set rs. b < length (blocks a) \<and> off + n \<le> blocks a ! b) \<and>
     sorted_wrt disjoint_regions rs \<and>
     memory_usage a = sum_list (blocks a) + 8 * length (blocks a)"

datatype request = Plain nat | Aligned nat

fun request_size :: "request \<Rightarrow> nat" where
  "request_size (Plain n) = n"
| "request_size (Aligned n) = n"

fun Arena_serve :: "Arena \<Rightarrow> request \<Rightarrow> (nat \<times> nat) \<times> Arena" where
  "Arena_serve a (Plain n) = Arena_Allocate a n"
| "Arena_serve a (Aligned n) = Arena_AllocateAligned a n"

fun Arena_run :: "Arena \<Rightarrow> request list \<Rightarrow> region list \<Rightarrow> Arena \<times> region list" where
  "Arena_run a [] rs = (a, rs)"
| "Arena_run a (q # qs) rs =
     (let ((b, off), a') = Arena_serve a q in Arena_run a' qs ((b, off, request_size q) # rs))"

lemmas arena_defs = Arena_Allocate_def Arena_AllocateAligned_def Arena_AllocateFallback_def
  Arena_AllocateNewBlock_def Arena_kBlockSize_def

lemma fallback_inv:
  assumes "arena_inv a rs" "Arena_AllocateFallback a n = ((b, off), a')"
  shows "arena_inv a' ((b, off, n) # rs)"
proof -
  have "b = length (blocks a)" "off = 0" "alloc_ptr a' = alloc_ptr a \<or> alloc_ptr a' = Some (b, n)"
    using assms(2) by (auto simp: arena_defs split: if_splits)
  then show ?thesis
    using assms
    by (auto simp: arena_inv_def arena_defs disjoint_regions_def nth_append split: if_splits option.splits)
qed

lemma bump_inv:
  assumes "arena_inv a rs" "alloc_ptr a = Some (b, off)" "slop + n \<le> alloc_bytes_remaining a"
  shows "arena_inv (a \<lparr> alloc_ptr := Some (b, off + (n + slop)),
      alloc_bytes_remaining := alloc_bytes_remaining a - (n + slop) \<rparr>) ((b, off + slop, n) # rs)"
proof -
  have "\<forall>(b', off', n') \<in> set rs. b' = b \<longrightarrow> off' + n' \<le> off"
    using assms by (simp add: arena_inv_def)
  then have "\<forall>r \<in> set rs. disjoint_regions (b, off + slop, n) r"
    by (fastforce simp: disjoint_regions_def)
  with assms show ?thesis
    by (fastforce simp: arena_inv_def)
qed

lemma serve_inv:
  assumes "arena_inv a rs" "Arena_serve a q = ((b, off), a')"
  shows "arena_inv a' ((b, off, request_size q) # rs)"
proof (cases "Arena_serve a q = Arena_AllocateFallback a (request_size q)")
  case True
  with assms show ?thesis by (auto intro: fallback_inv)
next
  case False
  then obtain b0 off0 slop where p: "alloc_ptr a = Some (b0, off0)"
    "slop + request_size q \<le> alloc_bytes_remaining a"
    "Arena_serve a q = ((b0, off0 + slop), a \<lparr> alloc_ptr := Some (b0, off0 + (request_size q + slop)),
      alloc_bytes_remaining := alloc_bytes_remaining a - (request_size q + slop) \<rparr>)"
  proof (cases q)
    case (Plain n)
    with False that [of _ _ 0] show ?thesis
      by (auto simp: Arena_Allocate_def split: option.splits if_splits)
  next
    case (Aligned n)
    with False that show ?thesis
      by (auto simp: Arena_AllocateAligned_def Let_def add.commute split: option.splits if_splits)
  qed
  from bump_inv [OF assms(1) p(1,2)] show ?thesis using p(3) assms(2) by simp
qed

lemma serve_aligned:
  assumes "Arena_serve a (Aligned n) = ((b, off), a')"
  shows "off mod 8 = 0"
proof -
  have "(x + (8 - x mod 8)) mod 8 = 0" for x :: nat by presburger
  then show ?thesis
    using assms by (auto simp: arena_defs Let_def split: option.splits if_splits)
qed

lemma run_inv: "arena_inv a rs \<Longrightarrow> arena_inv (fst (Arena_run a qs rs)) (snd (Arena_run a qs rs))"
proof (induction a qs rs rule: Arena_run.induct)
  case (2 a q qs rs)
  obtain b off a' where s: "Arena_serve a q = ((b, off), a')" by (metis prod.collapse)
  show ?case using 2(1) [OF s [symmetric] refl] serve_inv [OF 2(2) s] by (simp add: s)
qed simp

lemma run_sizes: "map (\<lambda>(b, off, n). n) (snd (Arena_run a qs rs)) =
    rev (map request_size qs) @ map (\<lambda>(b, off, n). n) rs"
  by (induction a qs rs rule: Arena_run.induct) (auto split: prod.splits)

section \<open>Properties\<close>



end
