(* ===== verification/MemTable.thy ===== *)
theory MemTable
  imports DBFormat Skiplist Arena
begin

text \<open>
  \<^verbatim>\<open>kv/db/memtable.{h,cpp}\<close>: entries are byte strings in the arena, kept in a skip list that
  orders them by their length-prefixed internal key. The main result is that \<open>Get\<close> returns the
  newest entry of the user key that the snapshot can see, over any history of additions.
\<close>

section \<open>Entries\<close>

text \<open>
  The file's own \<open>GetLengthPrefixedSlice\<close> reads a varint from at most five bytes; a corrupt one
  would make it dereference a null pointer, and is mapped to the empty slice here. It is
  returned with the bytes that follow the slice.
\<close>

definition mem_GetLengthPrefixedSlice :: "bytes \<Rightarrow> bytes \<times> bytes" where
  "mem_GetLengthPrefixedSlice data =
     (case GetVarint32Ptr (take 5 data) of
        None \<Rightarrow> ([], [])
      | Some (len, rest) \<Rightarrow>
          (let p = drop (length (take 5 data) - length rest) data
           in (take (unat len) p, drop (unat len) p)))"

definition mem_key :: "bytes \<Rightarrow> bytes" where
  "mem_key entry = fst (mem_GetLengthPrefixedSlice entry)"

definition mem_value :: "bytes \<Rightarrow> bytes" where
  "mem_value entry = fst (mem_GetLengthPrefixedSlice (snd (mem_GetLengthPrefixedSlice entry)))"

definition KeyComparator :: "Comparator \<Rightarrow> bytes \<Rightarrow> bytes \<Rightarrow> int" where
  "KeyComparator user_comparator aptr bptr =
     (let a = fst (mem_GetLengthPrefixedSlice aptr);
          b = fst (mem_GetLengthPrefixedSlice bptr)
      in InternalKey_Compare user_comparator a b)"

definition EncodeKey :: "bytes \<Rightarrow> bytes" where
  "EncodeKey target = PutVarint32 [] (word_of_nat (length target)) @ target"

section \<open>The table\<close>

record MemTable =
  mt_refs :: int
  mt_arena :: Arena
  mt_table :: "bytes SkipList"

definition MemTable_new :: MemTable where
  "MemTable_new = \<lparr> mt_refs = 0, mt_arena = Arena_new, mt_table = SkipList_new [] \<rparr>"

definition MemTable_Ref :: "MemTable \<Rightarrow> MemTable" where
  "MemTable_Ref m = m \<lparr> mt_refs := mt_refs m + 1 \<rparr>"

text \<open>The last \<open>Unref\<close> deletes the table.\<close>

definition MemTable_Unref :: "MemTable \<Rightarrow> MemTable option" where
  "MemTable_Unref m =
     (let m = m \<lparr> mt_refs := mt_refs m - 1 \<rparr> in if mt_refs m \<le> 0 then None else Some m)"

definition ApproximateMemoryUsage :: "MemTable \<Rightarrow> nat" where
  "ApproximateMemoryUsage m = memory_usage (mt_arena m)"

definition mem_encode :: "u64 \<Rightarrow> ValueType \<Rightarrow> bytes \<Rightarrow> bytes \<Rightarrow> bytes" where
  "mem_encode s type key value =
     (let key_size = length key;
          val_size = length value;
          internal_key_size = key_size + 8
      in EncodeVarint32 (word_of_nat internal_key_size) @ key @
         EncodeFixed64 (push_bit 8 s OR ValueType_num type) @
         EncodeVarint32 (word_of_nat val_size) @ value)"

definition mem_encoded_len :: "bytes \<Rightarrow> bytes \<Rightarrow> nat" where
  "mem_encoded_len key value =
     VarintLength (word_of_nat (length key + 8)) + (length key + 8) +
     VarintLength (word_of_nat (length value)) + length value"

text \<open>
  \<open>Add\<close> allocates the entry and then the node, whose size is that of \<open>Node\<close> (a key and one link
  of eight bytes each) and the links above the first. \<open>None\<close>: the skip list does not return.
\<close>

definition MemTable_Add ::
  "Comparator \<Rightarrow> MemTable \<Rightarrow> u64 \<Rightarrow> ValueType \<Rightarrow> bytes \<Rightarrow> bytes \<Rightarrow> MemTable option" where
  "MemTable_Add cmp m s type key value =
     (let arena = snd (Arena_Allocate (mt_arena m) (mem_encoded_len key value));
          buf = mem_encode s type key value
      in case sl_Insert (KeyComparator cmp) (mt_table m) buf of
           None \<Rightarrow> None
         | Some table \<Rightarrow>
             (let height = sl_height table (length (sl_nodes table) - 1);
                  arena = snd (Arena_AllocateAligned arena (16 + 8 * (height - 1)))
              in Some (m \<lparr> mt_arena := arena, mt_table := table \<rparr>)))"

text \<open>The outcomes of \<open>Get\<close>: false, true with a value, true with a \<open>NotFound\<close> status.\<close>

datatype get_result = NotPresent | Found bytes | Deleted status

definition MemTable_Get :: "Comparator \<Rightarrow> MemTable \<Rightarrow> LookupKey \<Rightarrow> get_result option" where
  "MemTable_Get cmp m key =
     (let memkey = lk_memtable_key key in
      case sl_iter_Seek (KeyComparator cmp) (mt_table m) memkey of
        None \<Rightarrow> None
      | Some None \<Rightarrow> Some NotPresent
      | Some (Some node) \<Rightarrow>
          (let entry = sl_key (mt_table m) node;
               (ikey, rest) = mem_GetLengthPrefixedSlice entry
           in if cmp_Compare cmp (take (length ikey - 8) ikey) (lk_user_key key) = 0
              then (let tag = DecodeFixed64 (drop (length ikey - 8) ikey);
                        t = tag AND 0xff
                    in if t = ValueType_num kTypeValue
                       then Some (Found (fst (mem_GetLengthPrefixedSlice rest)))
                       else if t = ValueType_num kTypeDeletion
                       then Some (Deleted (status_NotFound [] []))
                       else Some NotPresent)
              else Some NotPresent))"

section \<open>Iterators\<close>

definition mem_iter_Seek :: "Comparator \<Rightarrow> MemTable \<Rightarrow> bytes \<Rightarrow> nat option option" where
  "mem_iter_Seek cmp m k = sl_iter_Seek (KeyComparator cmp) (mt_table m) (EncodeKey k)"

definition mem_iter_key :: "MemTable \<Rightarrow> nat \<Rightarrow> bytes" where
  "mem_iter_key m node = mem_key (sl_key (mt_table m) node)"

definition mem_iter_value :: "MemTable \<Rightarrow> nat \<Rightarrow> bytes" where
  "mem_iter_value m node = mem_value (sl_key (mt_table m) node)"

section \<open>Reading entries back\<close>

lemma mem_slice:
  assumes "length k < 2 ^ 32"
  shows "mem_GetLengthPrefixedSlice (EncodeVarint32 (word_of_nat (length k)) @ k @ rest) = (k, rest)"
proof -
  let ?e = "EncodeVarint32 (word_of_nat (length k))"
  have "take 5 (?e @ k @ rest) = ?e @ take (5 - length ?e) (k @ rest)"
    using length_EncodeVarint32_bound [of "word_of_nat (length k)"] by simp
  then show ?thesis
    using assms
    by (simp add: mem_GetLengthPrefixedSlice_def GetVarint32Ptr_EncodeVarint32 unat_of_nat
        take_bit_nat_eq_self Let_def del: take_append) simp
qed

lemma mem_key_encode:
  assumes "length key + 8 < 2 ^ 32"
  shows "mem_key (mem_encode s t key value) = key @ EncodeFixed64 (PackSequenceAndType s t)"
    and "snd (mem_GetLengthPrefixedSlice (mem_encode s t key value)) =
      EncodeVarint32 (word_of_nat (length value)) @ value"
  using mem_slice [of "key @ EncodeFixed64 (PackSequenceAndType s t)"] assms
  by (simp_all add: mem_key_def mem_encode_def PackSequenceAndType_def Let_def)

lemma mem_value_encode:
  assumes "length key + 8 < 2 ^ 32" "length value < 2 ^ 32"
  shows "mem_value (mem_encode s t key value) = value"
  using mem_slice [of "value" "[]"] assms by (simp add: mem_value_def mem_key_encode)

lemma mem_encoded_len_eq:
  assumes "length key + 8 < 2 ^ 32" "length value < 2 ^ 32"
  shows "length (mem_encode s t key value) = mem_encoded_len key value"
proof -
  have "length (EncodeVarint32 (word_of_nat n)) = VarintLength (word_of_nat n)" if "n < 2 ^ 32" for n
  proof -
    have "(ucast (word_of_nat n :: u32) :: u64) = word_of_nat n"
      using that by (simp add: word_unat_eq_iff unat_of_nat take_bit_nat_eq_self)
    then show ?thesis by (simp add: EncodeVarint32_eq_EncodeVarint64 VarintLength_eq_length)
  qed
  from this [OF assms(1)] this [OF assms(2)] show ?thesis
    by (simp add: mem_encode_def mem_encoded_len_def Let_def)
qed

section \<open>The order of entries\<close>

definition mem_valid :: "bytes \<Rightarrow> bool" where
  "mem_valid e \<longleftrightarrow> 8 \<le> length (mem_key e)"

lemma KeyComparator_bytewise:
  "KeyComparator BytewiseComparator a b =
    (if ikey_of (mem_key a) < ikey_of (mem_key b) then -1
     else if ikey_of (mem_key a) = ikey_of (mem_key b) then 0 else 1)"
  by (simp add: KeyComparator_def mem_key_def InternalKey_Compare_bytewise)

interpretation memkey: compare_order "KeyComparator BytewiseComparator" mem_valid
  by unfold_locales (auto simp: KeyComparator_bytewise split: if_splits)

section \<open>Histories\<close>

text \<open>An addition, as \<open>WriteBatch\<close> makes it.\<close>

record mem_op =
  op_seq :: u64
  op_type :: ValueType
  op_key :: bytes
  op_value :: bytes

definition op_entry :: "mem_op \<Rightarrow> bytes" where
  "op_entry op = mem_encode (op_seq op) (op_type op) (op_key op) (op_value op)"

fun mem_run :: "MemTable \<Rightarrow> mem_op list \<Rightarrow> MemTable option" where
  "mem_run m [] = Some m"
| "mem_run m (op # ops) =
     (case MemTable_Add BytewiseComparator m (op_seq op) (op_type op) (op_key op) (op_value op) of
        None \<Rightarrow> None | Some m' \<Rightarrow> mem_run m' ops)"

definition op_ok :: "mem_op \<Rightarrow> bool" where
  "op_ok op \<longleftrightarrow> op_seq op \<le> kMaxSequenceNumber \<and> length (op_key op) + 8 < 2 ^ 32 \<and> length (op_value op) < 2 ^ 32"

text \<open>The specification: of the additions of \<open>u\<close> up to \<open>s\<close>, the one with the largest sequence number.\<close>

fun newest :: "bytes \<Rightarrow> u64 \<Rightarrow> mem_op list \<Rightarrow> mem_op option" where
  "newest u s [] = None"
| "newest u s (op # ops) =
     (if op_key op = u \<and> op_seq op \<le> s
      then (case newest u s ops of None \<Rightarrow> Some op
            | Some op' \<Rightarrow> Some (if op_seq op' < op_seq op then op else op'))
      else newest u s ops)"

fun read_op :: "mem_op option \<Rightarrow> get_result" where
  "read_op None = NotPresent"
| "read_op (Some op) =
     (case op_type op of kTypeValue \<Rightarrow> Found (op_value op) | kTypeDeletion \<Rightarrow> Deleted (status_NotFound [] []))"

lemma newest_None:
  "newest u s ops = None \<Longrightarrow> o' \<in> set ops \<Longrightarrow> \<not> (op_key o' = u \<and> op_seq o' \<le> s)"
  by (induction u s ops rule: newest.induct) (auto split: if_splits option.splits)

lemma newest_Some:
  "newest u s ops = Some op \<Longrightarrow> op \<in> set ops \<and> op_key op = u \<and> op_seq op \<le> s \<and>
    (\<forall>o' \<in> set ops. op_key o' = u \<and> op_seq o' \<le> s \<longrightarrow> op_seq o' \<le> op_seq op)"
proof (induction ops arbitrary: op)
  case (Cons a ops)
  show ?case
  proof (cases "op_key a = u \<and> op_seq a \<le> s")
    case False
    with Cons show ?thesis by auto
  next
    case True
    show ?thesis
    proof (cases "newest u s ops")
      case None
      with True Cons.prems newest_None [OF None] show ?thesis by auto
    next
      case (Some b)
      from Cons.IH [OF Some] True Cons.prems Some show ?thesis by (force split: if_splits)
    qed
  qed
qed simp

lemma op_entry_facts:
  assumes "op_ok op"
  shows "mem_key (op_entry op) = op_key op @ EncodeFixed64 (PackSequenceAndType (op_seq op) (op_type op))"
    and "mem_value (op_entry op) = op_value op" and "mem_valid (op_entry op)"
    and "ikey_of (mem_key (op_entry op)) = IKey (op_key op) (PackSequenceAndType (op_seq op) (op_type op))"
  using assms
  by (simp_all add: op_ok_def op_entry_def mem_key_encode mem_value_encode mem_valid_def ikey_of_def)

text \<open>Distinct sequence numbers give entries the order tells apart.\<close>

lemma op_entry_neq:
  assumes "op_ok a" "op_ok b" "op_seq a \<noteq> op_seq b"
  shows "KeyComparator BytewiseComparator (op_entry a) (op_entry b) \<noteq> 0"
proof -
  have "PackSequenceAndType (op_seq a) (op_type a) \<noteq> PackSequenceAndType (op_seq b) (op_type b)"
    using assms Pack_seq by (metis op_ok_def)
  with assms show ?thesis by (simp add: KeyComparator_bytewise op_entry_facts ikey_of_def)
qed

definition mem_rep :: "MemTable \<Rightarrow> mem_op list \<Rightarrow> bool" where
  "mem_rep m ops \<longleftrightarrow>
     skip_inv (KeyComparator BytewiseComparator) mem_valid (mt_table m) \<and>
     set (sl_keys (mt_table m)) = op_entry ` set ops"

lemma set_ord_insert: "set (ord_insert c k ks) = insert k (set ks)"
proof -
  have "set ks = set (takeWhile (\<lambda>x. c x k < 0) ks) \<union> set (dropWhile (\<lambda>x. c x k < 0) ks)"
    by (metis set_append takeWhile_dropWhile_id)
  then show ?thesis by (auto simp: ord_insert_def)
qed

lemma MemTable_Add_rep:
  assumes "mem_rep m ops" "op_ok op" "\<forall>o' \<in> set ops. op_ok o' \<and> op_seq o' \<noteq> op_seq op"
  shows "\<exists>m'. MemTable_Add BytewiseComparator m (op_seq op) (op_type op) (op_key op) (op_value op) = Some m' \<and>
    mem_rep m' (op # ops)"
proof -
  have "\<forall>x \<in> set (sl_keys (mt_table m)). KeyComparator BytewiseComparator x (op_entry op) \<noteq> 0"
    using assms op_entry_neq by (auto simp: mem_rep_def)
  then obtain t where "sl_Insert (KeyComparator BytewiseComparator) (mt_table m) (op_entry op) = Some t"
    "skip_inv (KeyComparator BytewiseComparator) mem_valid t"
    "sl_keys t = ord_insert (KeyComparator BytewiseComparator) (op_entry op) (sl_keys (mt_table m))"
    using memkey.Insert_keys [of "mt_table m" "op_entry op"] assms op_entry_facts(3)
    by (auto simp: mem_rep_def)
  then show ?thesis
    using assms(1) by (simp add: MemTable_Add_def mem_rep_def op_entry_def Let_def set_ord_insert)
qed

lemma mem_run_rep:
  "mem_rep m old \<Longrightarrow> \<forall>op \<in> set (ops @ old). op_ok op \<Longrightarrow> distinct (map op_seq (ops @ old)) \<Longrightarrow>
    \<exists>m'. mem_run m ops = Some m' \<and> mem_rep m' (rev ops @ old)"
proof (induction ops arbitrary: m old)
  case (Cons op ops)
  have ok: "op_ok op" "\<forall>o' \<in> set old. op_ok o' \<and> op_seq o' \<noteq> op_seq op"
    using Cons.prems(2,3) by (auto simp: image_iff)
  obtain m1 where m1: "MemTable_Add BytewiseComparator m (op_seq op) (op_type op) (op_key op) (op_value op) = Some m1"
    "mem_rep m1 (op # old)"
    using MemTable_Add_rep [of m old op] Cons.prems(1) ok by blast
  have "\<forall>op \<in> set (ops @ op # old). op_ok op" "distinct (map op_seq (ops @ op # old))"
    using Cons.prems(2,3) by auto
  from Cons.IH [OF m1(2) this] m1(1) show ?case by simp
qed simp

lemma hd_dropWhile_least:
  assumes "sorted_wrt (\<lambda>x y. f x < f y) xs" "dropWhile (\<lambda>x. f x < (k :: 'b::linorder)) xs = e # es"
  shows "e \<in> set xs" "k \<le> f e" "y \<in> set xs \<Longrightarrow> k \<le> f y \<Longrightarrow> f e \<le> f y"
proof -
  have xs: "xs = takeWhile (\<lambda>x. f x < k) xs @ e # es"
    by (metis assms(2) takeWhile_dropWhile_id)
  show "e \<in> set xs" by (subst xs) simp
  show "k \<le> f e" using hd_dropWhile [of "\<lambda>x. f x < k" xs] assms(2) by simp
  assume "y \<in> set xs" "k \<le> f y"
  moreover have "y \<in> set (takeWhile (\<lambda>x. f x < k) xs) \<or> y \<in> set (e # es)"
    using calculation(1) by (subst (asm) xs) auto
  ultimately have "y \<in> set (e # es)" using set_takeWhileD [of y "\<lambda>x. f x < k" xs] by auto
  moreover have "sorted_wrt (\<lambda>x y. f x < f y) (e # es)"
    using assms(1) xs by (metis sorted_wrt_append)
  ultimately show "f e \<le> f y" by auto
qed

text \<open>The position of an operation in the order of internal keys, and of a lookup key.\<close>

definition op_ikey :: "mem_op \<Rightarrow> ikey" where
  "op_ikey op = IKey (op_key op) (PackSequenceAndType (op_seq op) (op_type op))"

lemma op_ikey_visible:
  assumes "op_ok op" "s \<le> kMaxSequenceNumber" "op_key op = u"
  shows "IKey u (PackSequenceAndType s kTypeValue) \<le> op_ikey op \<longleftrightarrow> op_seq op \<le> s"
  using assms Pack_le_iff [of s "op_seq op"] by (auto simp: less_eq_ikey_def op_ikey_def op_ok_def)

lemma Pack_le_seq:
  assumes "q \<le> kMaxSequenceNumber" "q' \<le> kMaxSequenceNumber"
    "PackSequenceAndType q t \<le> PackSequenceAndType q' t'"
  shows "q \<le> q'"
  using assms by (cases t; cases t') (auto simp: word_le_nat_alt unat_Pack)

lemma newest_least:
  assumes ok: "\<forall>op \<in> set ops. op_ok op" and d: "distinct (map op_seq ops)"
    and s: "s \<le> kMaxSequenceNumber" and op: "op \<in> set ops"
    and ge: "IKey u (PackSequenceAndType s kTypeValue) \<le> op_ikey op"
    and least: "\<And>b. b \<in> set ops \<Longrightarrow> IKey u (PackSequenceAndType s kTypeValue) \<le> op_ikey b \<Longrightarrow>
      op_ikey op \<le> op_ikey b"
  shows "newest u s ops = (if op_key op = u then Some op else None)"
proof (cases "newest u s ops")
  case None
  with newest_None [OF None op] ge ok op s op_ikey_visible show ?thesis by auto
next
  case (Some b)
  note b = newest_Some [OF Some]
  then have le: "op_ikey op \<le> op_ikey b" using ok s op_ikey_visible [of b s u] least [of b] by auto
  then have u: "op_key op = u" using ge b by (auto simp: less_eq_ikey_def op_ikey_def)
  then have "op_seq op \<le> s" using ge ok op s op_ikey_visible by auto
  with b op u have "op_seq op \<le> op_seq b" by auto
  moreover have "op_seq b \<le> op_seq op"
    using le u b ok op by (auto simp: less_eq_ikey_def op_ikey_def op_ok_def intro: Pack_le_seq)
  ultimately have "op = b" using d op b by (auto simp: distinct_map inj_on_def)
  with u Some show ?thesis by simp
qed

lemma op_entry_ikey: "op_ok op \<Longrightarrow> ikey_of (mem_key (op_entry op)) = op_ikey op"
  by (simp add: op_entry_facts(4) op_ikey_def)

lemma LookupKey_mem:
  assumes "length u + 8 < 2 ^ 32"
  shows "mem_key (lk_memtable_key (LookupKey_new u s)) = u @ EncodeFixed64 (PackSequenceAndType s kTypeValue)"
    and "ikey_of (mem_key (lk_memtable_key (LookupKey_new u s))) = IKey u (PackSequenceAndType s kTypeValue)"
    and "lk_user_key (LookupKey_new u s) = u"
proof -
  show "mem_key (lk_memtable_key (LookupKey_new u s)) = u @ EncodeFixed64 (PackSequenceAndType s kTypeValue)"
    using mem_slice [of "u @ EncodeFixed64 (PackSequenceAndType s kTypeValue)" "[]"] assms
    by (simp add: mem_key_def lk_memtable_key_def LookupKey_array kValueTypeForSeek_def)
  then show "ikey_of (mem_key (lk_memtable_key (LookupKey_new u s))) = IKey u (PackSequenceAndType s kTypeValue)"
    by (simp add: ikey_of_def)
  show "lk_user_key (LookupKey_new u s) = u"
    by (simp add: lk_user_key_def LookupKey_array)
qed

lemma Pack_low_byte: "PackSequenceAndType s t AND 0xff = ValueType_num t"
proof -
  have "PackSequenceAndType s t AND 0xff = ucast (ucast (PackSequenceAndType s t) :: byte)"
  proof (rule bit_word_eqI)
    fix n
    have eq: "(0xff :: u64) = mask 8" by (simp add: mask_eq_exp_minus_1)
    show "bit (PackSequenceAndType s t AND 0xff) n =
        bit (ucast (ucast (PackSequenceAndType s t) :: byte) :: u64) n"
      unfolding eq by (auto simp: bit_simps)
  qed
  also have "\<dots> = ValueType_num t" unfolding Pack_type by (cases t) simp_all
  finally show ?thesis .
qed

lemma Bytewise_eq_iff: "cmp_Compare BytewiseComparator a b = 0 \<longleftrightarrow> a = b"
  by (simp add: BytewiseComparator_def Slice_compare_eq)

text \<open>What \<open>Get\<close> answers for the entry \<open>Seek\<close> stops at.\<close>

lemma MemTable_Get_at:
  assumes "sl_iter_Seek (KeyComparator BytewiseComparator) (mt_table m) (lk_memtable_key (LookupKey_new u s)) =
      Some (Some n)"
    and "sl_key (mt_table m) n = op_entry op" "op_ok op"
  shows "MemTable_Get BytewiseComparator m (LookupKey_new u s) =
    Some (read_op (if op_key op = u then Some op else None))"
proof -
  have lk: "lk_user_key (LookupKey_new u s) = u"
    by (simp add: lk_user_key_def LookupKey_array)
  have k: "mem_GetLengthPrefixedSlice (op_entry op) =
      (op_key op @ EncodeFixed64 (PackSequenceAndType (op_seq op) (op_type op)),
       EncodeVarint32 (word_of_nat (length (op_value op))) @ op_value op)"
    using assms(3) mem_key_encode [of "op_key op" "op_seq op" "op_type op" "op_value op"]
    by (simp add: op_ok_def op_entry_def mem_key_def prod_eq_iff)
  have v: "fst (mem_GetLengthPrefixedSlice (EncodeVarint32 (word_of_nat (length (op_value op))) @ op_value op)) =
      op_value op"
    using mem_slice [of "op_value op" "[]"] assms(3) by (simp add: op_ok_def)
  show ?thesis
    using assms(1,2) k v lk
    by (cases "op_type op")
      (simp_all add: MemTable_Get_def Pack_low_byte Bytewise_eq_iff)
qed

lemma MemTable_Get_rep:
  assumes rep: "mem_rep m ops" and ok: "\<forall>op \<in> set ops. op_ok op" and d: "distinct (map op_seq ops)"
    and s: "s \<le> kMaxSequenceNumber" and u: "length u + 8 < 2 ^ 32"
  shows "MemTable_Get BytewiseComparator m (LookupKey_new u s) = Some (read_op (newest u s ops))"
proof -
  let ?c = "KeyComparator BytewiseComparator" and ?sl = "mt_table m"
    and ?k = "lk_memtable_key (LookupKey_new u s)" and ?ik = "IKey u (PackSequenceAndType s kTypeValue)"
  let ?f = "\<lambda>e. ikey_of (mem_key e)"
  have inv: "skip_inv ?c mem_valid ?sl" and keys: "set (sl_keys ?sl) = op_entry ` set ops"
    using rep by (auto simp: mem_rep_def)
  have valid: "mem_valid ?k" by (simp add: mem_valid_def LookupKey_mem [OF u])
  have lt: "?c x ?k < 0 \<longleftrightarrow> ?f x < ?ik" for x
    by (simp add: KeyComparator_bytewise LookupKey_mem(2) [OF u])
  have sorted: "sorted_wrt (\<lambda>x y. ?f x < ?f y) (sl_keys ?sl)"
    using memkey.keys_sorted [OF inv] by (auto simp: KeyComparator_bytewise elim!: sorted_wrt_mono_rel [rotated] split: if_splits)
  note seek = memkey.Seek_keys [OF inv valid, unfolded lt]
  show ?thesis
  proof (cases "dropWhile (\<lambda>x. ?f x < ?ik) (sl_keys ?sl)")
    case Nil
    then have none: "sl_iter_Seek ?c ?sl ?k = Some None"
      using seek by (auto simp del: dropWhile_eq_Nil_conv)
    have "\<not> ?ik \<le> op_ikey b" if "b \<in> set ops" for b
      using that Nil keys ok op_entry_ikey by (force simp: not_le)
    then have "newest u s ops = None"
      using newest_Some ok s op_ikey_visible by (metis not_None_eq)
    with none show ?thesis by (simp add: MemTable_Get_def)
  next
    case (Cons e es)
    note least = hd_dropWhile_least [OF sorted Cons]
    obtain op where op: "op \<in> set ops" "e = op_entry op" using least(1) keys by auto
    obtain n where n: "sl_iter_Seek ?c ?sl ?k = Some (Some n)" "sl_key ?sl n = e"
      using seek Cons by auto
    have "newest u s ops = (if op_key op = u then Some op else None)"
      using ok d s op(1)
    proof (rule newest_least)
      show "?ik \<le> op_ikey op" using least(2) op ok op_entry_ikey by simp
      show "op_ikey op \<le> op_ikey b" if "b \<in> set ops" "?ik \<le> op_ikey b" for b
        using that least(3) [of "op_entry b"] op ok keys op_entry_ikey by simp
    qed
    with MemTable_Get_at [OF n(1), of op] n(2) op ok show ?thesis by simp
  qed
qed

text \<open>A new list, for the examples below.\<close>

definition skip_example :: "bytes SkipList" where
  "skip_example = SkipList_new []"

lemma skip_example_inv:
  "sl_keys skip_example = []" "skip_inv (KeyComparator BytewiseComparator) mem_valid skip_example"
  using SkipList_new_inv [of "KeyComparator BytewiseComparator" mem_valid "[]"]
  by (simp_all add: skip_example_def)

section \<open>Properties\<close>

text \<open>
  C6: Whatever additions a memtable has received, in any order, with distinct sequence numbers,
  every addition returns, and a lookup of a user key at a snapshot answers with the newest addition
  of that key not after the snapshot: its value, or that it was deleted, or that the key is unknown.
\<close>

theorem MemTable_Get_newest:
  assumes "\<forall>op \<in> set ops. op_ok op" "distinct (map op_seq ops)"
    and "s \<le> kMaxSequenceNumber" "length u + 8 < 2 ^ 32"
  shows "\<exists>m. mem_run MemTable_new ops = Some m \<and>
    MemTable_Get BytewiseComparator m (LookupKey_new u s) = Some (read_op (newest u s (rev ops)))"
proof -
  have "mem_rep MemTable_new []"
    using SkipList_new_inv by (simp add: mem_rep_def MemTable_new_def)
  then obtain m where "mem_run MemTable_new ops = Some m" "mem_rep m (rev ops)"
    using mem_run_rep [of MemTable_new "[]" ops] assms(1,2) by auto
  with MemTable_Get_rep [of m "rev ops" s u] assms show ?thesis by (simp add: rev_map [symmetric])
qed

theorem MemTable_Get_newest_witness:
  "\<exists>m. mem_run MemTable_new
      [\<lparr> op_seq = 1, op_type = kTypeValue, op_key = [107], op_value = [1] \<rparr>,
       \<lparr> op_seq = 3, op_type = kTypeDeletion, op_key = [107], op_value = [] \<rparr>,
       \<lparr> op_seq = 2, op_type = kTypeValue, op_key = [107], op_value = [2] \<rparr>] = Some m \<and>
    MemTable_Get BytewiseComparator m (LookupKey_new [107] 2) = Some (Found [2])"
  using MemTable_Get_newest [of
      "[\<lparr> op_seq = 1, op_type = kTypeValue, op_key = [107], op_value = [1] \<rparr>,
        \<lparr> op_seq = 3, op_type = kTypeDeletion, op_key = [107], op_value = [] \<rparr>,
        \<lparr> op_seq = 2, op_type = kTypeValue, op_key = [107], op_value = [2] \<rparr>]" 2 "[107]"]
  by (simp add: op_ok_def kMaxSequenceNumber_val)

text \<open>
  C14: In a memtable's skip list an insertion of a key that compares equal to none always returns,
  keeps the list well formed and puts the key at its place in the order; afterwards the key is
  found, and a seek stops at the first key that is not below its target.
\<close>

theorem skiplist_refines_sorted_list:
  assumes "skip_inv (KeyComparator BytewiseComparator) mem_valid sl" "mem_valid k" "mem_valid t"
    and "\<forall>x \<in> set (sl_keys sl). KeyComparator BytewiseComparator x k \<noteq> 0"
  shows "\<exists>sl'. sl_Insert (KeyComparator BytewiseComparator) sl k = Some sl' \<and>
    skip_inv (KeyComparator BytewiseComparator) mem_valid sl' \<and>
    sl_keys sl' = ord_insert (KeyComparator BytewiseComparator) k (sl_keys sl) \<and>
    sl_Contains (KeyComparator BytewiseComparator) sl' k = Some True \<and>
    map_option (map_option (sl_key sl')) (sl_iter_Seek (KeyComparator BytewiseComparator) sl' t) =
      Some (find (\<lambda>x. \<not> KeyComparator BytewiseComparator x t < 0) (sl_keys sl'))"
proof -
  obtain sl' where i: "sl_Insert (KeyComparator BytewiseComparator) sl k = Some sl'"
    "skip_inv (KeyComparator BytewiseComparator) mem_valid sl'"
    "sl_keys sl' = ord_insert (KeyComparator BytewiseComparator) k (sl_keys sl)"
    using memkey.Insert_keys [OF assms(1,2,4)] by blast
  have "k \<in> set (sl_keys sl')" by (simp add: i(3) set_ord_insert)
  then have "sl_Contains (KeyComparator BytewiseComparator) sl' k = Some True"
    using memkey.Contains_keys [OF i(2) assms(2)] memkey.cmp_refl [OF assms(2)] by auto
  moreover have "(case dropWhile P xs of [] \<Rightarrow> None | x # _ \<Rightarrow> Some x) = find (\<lambda>x. \<not> P x) xs"
    for P :: "bytes \<Rightarrow> bool" and xs by (induction xs) auto
  ultimately show ?thesis using i memkey.Seek_keys [OF i(2) assms(3)] by simp
qed

theorem skiplist_refines_sorted_list_witness:
  "\<exists>sl'. sl_Insert (KeyComparator BytewiseComparator) skip_example (mem_encode 1 kTypeValue [] []) = Some sl' \<and>
    skip_inv (KeyComparator BytewiseComparator) mem_valid sl' \<and>
    sl_keys sl' = [mem_encode 1 kTypeValue [] []]"
proof -
  note e = skip_example_inv
  with skiplist_refines_sorted_list [of skip_example "mem_encode 1 kTypeValue [] []" "mem_encode 1 kTypeValue [] []"]
  show ?thesis by (auto simp: mem_valid_def mem_key_encode ord_insert_def)
qed

text \<open>
  C19: In the skip list of a memtable the iterator goes through the keys in order, forwards and
  backwards, and every search of it returns: \<open>Next\<close> and \<open>Prev\<close> give the neighbours of a
  node, \<open>SeekToFirst\<close> and \<open>SeekToLast\<close> the ends.
\<close>

theorem skiplist_iteration:
  assumes "skip_inv (KeyComparator BytewiseComparator) mem_valid sl" "sl_order sl = xs @ n # ys"
  shows "sl_iter_SeekToFirst sl = Some (hd (xs @ [n])) \<and>
    sl_iter_SeekToLast sl = Some (Some (last (n # ys))) \<and>
    sl_iter_Next sl n = (if ys = [] then None else Some (hd ys)) \<and>
    sl_iter_Prev (KeyComparator BytewiseComparator) sl n = Some (if xs = [] then None else Some (last xs))"
proof -
  have rep: "skip_rep sl (xs @ n # ys)" using assms by (simp add: skip_inv_def skip_sorted_def)
  show ?thesis
    using sl_iter_SeekToFirst_order [OF rep] sl_iter_SeekToLast_order [OF rep]
      sl_iter_Next_order [OF rep refl] memkey.Prev_order [OF assms]
    by (cases xs; cases ys) simp_all
qed

theorem skiplist_iteration_witness:
  "\<exists>sl n. sl_Insert (KeyComparator BytewiseComparator) skip_example (mem_encode 1 kTypeValue [] []) = Some sl \<and>
    sl_iter_SeekToFirst sl = Some n \<and> sl_iter_Next sl n = None"
proof -
  note e = skip_example_inv
  obtain sl where sl: "sl_Insert (KeyComparator BytewiseComparator) skip_example (mem_encode 1 kTypeValue [] []) = Some sl"
    "skip_inv (KeyComparator BytewiseComparator) mem_valid sl" "sl_keys sl = [mem_encode 1 kTypeValue [] []]"
    using memkey.Insert_keys [OF e(2), of "mem_encode 1 kTypeValue [] []"] e(1)
    by (auto simp: mem_valid_def mem_key_encode ord_insert_def)
  then obtain n where "sl_order sl = [] @ n # []" by (auto simp: sl_keys_def)
  from skiplist_iteration [OF sl(2) this] sl(1) show ?thesis by auto
qed

end
