(* ===== verification/MemTable_Iter.thy ===== *)
theory MemTable_Iter
  imports MemTable Iterators
begin

text \<open>
  The iterator over a memtable (\<open>MemTableIterator\<close> of \<open>kv/db/memtable.cpp\<close>), which wraps the skip
  list's own iterator: its state is the current node. It keeps the iterator interface over the
  entries of the table in the order of internal keys, for keys below 4 GiB.
\<close>

definition MemTableIterator :: "Comparator \<Rightarrow> MemTable \<Rightarrow> nat option Iterator" where
  "MemTableIterator cmp m =
     \<lparr> it_Valid = (\<lambda>s. s \<noteq> None),
       it_SeekToFirst = (\<lambda>s. sl_iter_SeekToFirst (mt_table m)),
       it_SeekToLast = (\<lambda>s. case_option s id (sl_iter_SeekToLast (mt_table m))),
       it_Seek = (\<lambda>s k. case_option s id (mem_iter_Seek cmp m k)),
       it_Next = (\<lambda>s. Option.bind s (sl_iter_Next (mt_table m))),
       it_Prev = (\<lambda>s. case s of None \<Rightarrow> None | Some node \<Rightarrow> case_option s id (sl_iter_Prev (KeyComparator cmp) (mt_table m) node)),
       it_key = (\<lambda>s. case_option [] (mem_iter_key m) s), it_value = (\<lambda>s. case_option [] (mem_iter_value m) s),
       it_status = (\<lambda>s. OK) \<rparr>"

definition MemTable_NewIterator :: "nat option" where
  "MemTable_NewIterator = None"

section \<open>Entries of a memtable\<close>

definition mem_entries :: "MemTable \<Rightarrow> entry list" where
  "mem_entries m = map (\<lambda>e. (mem_key e, mem_value e)) (sl_keys (mt_table m))"

definition small_ikey :: "bytes \<Rightarrow> bool" where
  "small_ikey k \<longleftrightarrow> 8 \<le> length k \<and> length k < 2 ^ 32"

definition mit_rep :: "MemTable \<Rightarrow> nat option \<Rightarrow> entry list \<Rightarrow> nat \<Rightarrow> bool" where
  "mit_rep m s es i \<longleftrightarrow> skip_inv (KeyComparator BytewiseComparator) mem_valid (mt_table m) \<and>
     es = mem_entries m \<and> (\<forall>e\<in>set es. small_ikey (fst e)) \<and> i \<le> length es \<and>
     s = (if i < length es then Some (sl_order (mt_table m) ! i) else None)"

lemma length_mem_entries [simp]: "length (mem_entries m) = length (sl_order (mt_table m))"
  by (simp add: mem_entries_def sl_keys_def)

lemma nth_mem_entries:
  "i < length (sl_order (mt_table m)) \<Longrightarrow>
    mem_entries m ! i = (mem_iter_key m (sl_order (mt_table m) ! i), mem_iter_value m (sl_order (mt_table m) ! i))"
  by (simp add: mem_entries_def sl_keys_def mem_iter_key_def mem_iter_value_def)

lemma mem_key_EncodeKey: "length k < 2 ^ 32 \<Longrightarrow> mem_key (EncodeKey k) = k"
  using mem_slice [of k "[]"] by (simp add: mem_key_def EncodeKey_def PutVarint32_def)

lemma KeyComparator_internal: "KeyComparator BytewiseComparator a b = internal_compare (mem_key a) (mem_key b)"
  by (simp add: KeyComparator_def mem_key_def InternalKeyComparator_def Let_def)

lemma mem_entries_sorted:
  assumes "skip_inv (KeyComparator BytewiseComparator) mem_valid (mt_table m)"
  shows "sorted_wrt (\<lambda>a b. internal_compare (fst a) (fst b) < 0) (mem_entries m)"
  using memkey.keys_sorted [OF assms] by (simp add: mem_entries_def sorted_wrt_map KeyComparator_internal)

lemma case_dropWhile:
  "(case dropWhile P xs of [] \<Rightarrow> None | r # _ \<Rightarrow> Some r) =
    (if length (takeWhile P xs) < length xs then Some (xs ! length (takeWhile P xs)) else None)"
  by (induction xs) auto

lemma mem_Seek_pos:
  assumes "skip_inv (KeyComparator BytewiseComparator) mem_valid (mt_table m)" "small_ikey k"
  shows "mem_iter_Seek BytewiseComparator m k =
    Some (if seek_pos internal_compare (mem_entries m) k < length (mem_entries m)
          then Some (sl_order (mt_table m) ! seek_pos internal_compare (mem_entries m) k) else None)"
proof -
  have k: "mem_key (EncodeKey k) = k" "mem_valid (EncodeKey k)"
    using assms(2) mem_key_EncodeKey by (simp_all add: small_ikey_def mem_valid_def)
  have "seek_pos internal_compare (mem_entries m) k =
      length (takeWhile (\<lambda>n. KeyComparator BytewiseComparator (sl_key (mt_table m) n) (EncodeKey k) < 0) (sl_order (mt_table m)))"
    by (simp add: seek_pos_def mem_entries_def sl_keys_def takeWhile_map comp_def KeyComparator_internal k)
  then show ?thesis
    unfolding mem_iter_Seek_def memkey.Seek_order [OF assms(1) k(2)] case_dropWhile by simp
qed

lemma order_split: "i < length xs \<Longrightarrow> xs = take i xs @ xs ! i # drop (Suc i) xs"
  by (rule id_take_nth_drop)

lemma mem_Next_pos:
  assumes "skip_inv (KeyComparator BytewiseComparator) mem_valid (mt_table m)" "i < length (sl_order (mt_table m))"
  shows "sl_iter_Next (mt_table m) (sl_order (mt_table m) ! i) =
    (if i + 1 < length (sl_order (mt_table m)) then Some (sl_order (mt_table m) ! (i + 1)) else None)"
proof -
  have "skip_rep (mt_table m) (sl_order (mt_table m))" using assms(1) by (simp add: skip_inv_def skip_sorted_def)
  from sl_iter_Next_order [OF this order_split [OF assms(2)]] show ?thesis
    by (cases "Suc i < length (sl_order (mt_table m))") (simp_all add: Cons_nth_drop_Suc [symmetric])
qed

lemma mem_Prev_pos:
  assumes "skip_inv (KeyComparator BytewiseComparator) mem_valid (mt_table m)" "i < length (sl_order (mt_table m))"
  shows "sl_iter_Prev (KeyComparator BytewiseComparator) (mt_table m) (sl_order (mt_table m) ! i) =
    Some (if i = 0 then None else Some (sl_order (mt_table m) ! (i - 1)))"
  using memkey.Prev_order [OF assms(1) order_split [OF assms(2)]] assms(2)
  by (cases i) (auto simp: take_Suc_conv_app_nth)

section \<open>It is an iterator\<close>

interpretation small_keys: key_order internal_compare small_ikey
  using internal_bytewise.cmp_refl internal_bytewise.cmp_swap internal_bytewise.cmp_trans
  by unfold_locales (unfold small_ikey_def, blast+)

interpretation mem_iterator: iterator internal_compare small_ikey "MemTableIterator BytewiseComparator m" "mit_rep m" for m
proof
  fix s es i assume r: "mit_rep m s es i"
  let ?ns = "sl_order (mt_table m)"
  have inv: "skip_inv (KeyComparator BytewiseComparator) mem_valid (mt_table m)" and es: "es = mem_entries m"
    using r by (auto simp: mit_rep_def)
  have rep: "skip_rep (mt_table m) ?ns" using inv by (simp add: skip_inv_def skip_sorted_def)
  have keys: "\<forall>e\<in>set es. small_ikey (fst e)" using r by (simp add: mit_rep_def)
  show "i \<le> length es" "\<And>e. e \<in> set es \<Longrightarrow> small_ikey (fst e)" using r by (auto simp: mit_rep_def)
  show "sorted_wrt (\<lambda>a b. internal_compare (fst a) (fst b) < 0) es" using mem_entries_sorted [OF inv] es by simp
  show "it_Valid (MemTableIterator BytewiseComparator m) s \<longleftrightarrow> i < length es"
    using r by (auto simp: mit_rep_def MemTableIterator_def)
  show "(it_key (MemTableIterator BytewiseComparator m) s, it_value (MemTableIterator BytewiseComparator m) s) = es ! i" if "i < length es"
    using r that by (simp add: mit_rep_def MemTableIterator_def nth_mem_entries)
  show "it_status (MemTableIterator BytewiseComparator m) s = OK" by (simp add: MemTableIterator_def)
  show "mit_rep m (it_SeekToFirst (MemTableIterator BytewiseComparator m) s) es 0"
    using inv keys es sl_iter_SeekToFirst_order [OF rep] by (cases ?ns) (auto simp: mit_rep_def MemTableIterator_def)
  show "mit_rep m (it_SeekToLast (MemTableIterator BytewiseComparator m) s) es (length es - 1)"
    using inv keys es sl_iter_SeekToLast_order [OF rep] by (simp add: mit_rep_def MemTableIterator_def last_conv_nth)
  show "mit_rep m (it_Seek (MemTableIterator BytewiseComparator m) s t) es (seek_pos internal_compare es t)" if "small_ikey t" for t
    using inv keys es mem_Seek_pos [OF inv that] small_keys.empty.seek_pos_le [of "mem_entries m" t] by (simp add: mit_rep_def MemTableIterator_def)
  show "mit_rep m (it_Next (MemTableIterator BytewiseComparator m) s) es (i + 1)" if "i < length es"
    using r that mem_Next_pos [OF inv, of i] by (auto simp: mit_rep_def MemTableIterator_def)
  show "mit_rep m (it_Prev (MemTableIterator BytewiseComparator m) s) es (if i = 0 then length es else i - 1)" if "i < length es"
    using r that mem_Prev_pos [OF inv, of i] by (auto simp: mit_rep_def MemTableIterator_def)
qed

lemma mem_iterator_start:
  "skip_inv (KeyComparator BytewiseComparator) mem_valid (mt_table m) \<Longrightarrow> \<forall>e\<in>set (mem_entries m). small_ikey (fst e) \<Longrightarrow>
    mit_rep m MemTable_NewIterator (mem_entries m) (length (mem_entries m))"
  by (simp add: mit_rep_def MemTable_NewIterator_def)

section \<open>The entries of a history\<close>

definition op_kv :: "mem_op \<Rightarrow> entry" where
  "op_kv op = (op_key op @ EncodeFixed64 (PackSequenceAndType (op_seq op) (op_type op)), op_value op)"

lemma mem_entries_rep:
  assumes "mem_rep m ops" "\<forall>op\<in>set ops. op_ok op"
  shows "set (mem_entries m) = op_kv ` set ops \<and> (\<forall>e\<in>set (mem_entries m). small_ikey (fst e))"
proof
  have "set (mem_entries m) = (\<lambda>op. (mem_key (op_entry op), mem_value (op_entry op))) ` set ops"
    using assms(1) by (simp add: mem_entries_def mem_rep_def image_image)
  also have "\<dots> = op_kv ` set ops"
    using assms(2) op_entry_facts by (intro image_cong) (simp_all add: op_kv_def)
  finally show s: "set (mem_entries m) = op_kv ` set ops" .
  show "\<forall>e\<in>set (mem_entries m). small_ikey (fst e)"
    using assms(2) s by (auto simp: op_kv_def small_ikey_def op_ok_def)
qed

end
