(* ===== verification/User_View.thy ===== *)
theory User_View
  imports Iterators
begin

text \<open>
  What the user of the database sees of a list of internal entries at a snapshot: of every user key the
  newest entry that is not newer than the snapshot, unless it is a deletion. Iterators, lookups and
  compactions are specified with it.
\<close>

section \<open>What a user sees\<close>

definition e_user :: "entry \<Rightarrow> bytes" where
  "e_user e = ExtractUserKey (fst e)"

definition e_parsed :: "entry \<Rightarrow> ParsedInternalKey" where
  "e_parsed e = (case ParseInternalKey (fst e) of Some p \<Rightarrow> p | None \<Rightarrow> \<lparr> pik_user_key = [], pik_sequence = 0, pik_type = kTypeDeletion \<rparr>)"

definition parses :: "entry list \<Rightarrow> bool" where
  "parses es = list_all (\<lambda>e. ParseInternalKey (fst e) \<noteq> None) es"

definition visible :: "u64 \<Rightarrow> entry \<Rightarrow> bool" where
  "visible q e \<longleftrightarrow> pik_sequence (e_parsed e) \<le> q"

text \<open>An entry is shown at \<open>q\<close> if it is a value, visible, and no visible entry of its user key comes before it, which would be newer.\<close>

definition shown :: "u64 \<Rightarrow> entry list \<Rightarrow> nat \<Rightarrow> bool" where
  "shown q es j \<longleftrightarrow> visible q (es ! j) \<and> pik_type (e_parsed (es ! j)) = kTypeValue \<and>
     (\<forall>i<j. visible q (es ! i) \<longrightarrow> e_user (es ! i) \<noteq> e_user (es ! j))"

definition shown_positions :: "u64 \<Rightarrow> entry list \<Rightarrow> nat list" where
  "shown_positions q es = filter (shown q es) [0..<length es]"

definition user_view :: "u64 \<Rightarrow> entry list \<Rightarrow> entry list" where
  "user_view q es = map (\<lambda>j. (e_user (es ! j), snd (es ! j))) (shown_positions q es)"

lemma parsed_user: "ParseInternalKey k = Some p \<Longrightarrow> pik_user_key p = ExtractUserKey k"
  by (auto simp: ParseInternalKey_def ExtractUserKey_def Let_def split: if_splits)

lemma parsesD:
  assumes "parses es" "j < length es"
  shows "ParseInternalKey (fst (es ! j)) = Some (e_parsed (es ! j))" "pik_user_key (e_parsed (es ! j)) = e_user (es ! j)"
proof -
  show p: "ParseInternalKey (fst (es ! j)) = Some (e_parsed (es ! j))"
    using assms by (auto simp: parses_def list_all_length e_parsed_def)
  show "pik_user_key (e_parsed (es ! j)) = e_user (es ! j)" using parsed_user [OF p] by (simp add: e_user_def)
qed

text \<open>The \<open>i\<close>-th position that satisfies a predicate, and how many come before a position.\<close>

lemma upt_split: "m \<le> n \<Longrightarrow> [0..<n] = [0..<m] @ [m..<n]"
  using upt_add_eq_append [of 0 m "n - m"] by simp

lemma nth_filter_upt:
  assumes "i < length (filter P [0..<n])"
  shows "filter P [0..<n] ! i < n" "P (filter P [0..<n] ! i)"
    "length (filter P [0..<filter P [0..<n] ! i]) = i"
proof -
  have m: "filter P [0..<n] ! i \<in> set (filter P [0..<n])" using assms by (rule nth_mem)
  then show lt: "filter P [0..<n] ! i < n" "P (filter P [0..<n] ! i)" by auto
  let ?j = "filter P [0..<n] ! i"
  have "[0..<n] = [0..<?j] @ ?j # [Suc ?j..<n]"
    using lt(1) by (metis less_imp_le_nat upt_split upt_conv_Cons)
  then have f: "filter P [0..<n] = filter P [0..<?j] @ ?j # filter P [Suc ?j..<n]"
    using lt(2) by (metis (no_types, lifting) filter.simps(2) filter_append)
  have d: "distinct (filter P [0..<n])" by simp
  have "filter P [0..<n] ! length (filter P [0..<?j]) = ?j" by (subst (1) f) simp
  moreover have "length (filter P [0..<?j]) < length (filter P [0..<n])" by (subst (2) f) simp
  ultimately show "length (filter P [0..<?j]) = i" using d assms by (metis nth_eq_iff_index_eq)
qed

lemma filter_upt_rank:
  assumes "j < n" "P j"
  shows "length (filter P [0..<j]) < length (filter P [0..<n]) \<and> filter P [0..<n] ! length (filter P [0..<j]) = j"
proof -
  have "[0..<n] = [0..<j] @ j # [Suc j..<n]"
    using assms(1) by (metis less_imp_le_nat upt_split upt_conv_Cons)
  then have "filter P [0..<n] = filter P [0..<j] @ j # filter P [Suc j..<n]"
    using assms(2) by (metis (no_types, lifting) filter.simps(2) filter_append)
  then show ?thesis by simp
qed

lemma filter_upt_gap:
  assumes "m \<le> j" "\<And>x. m \<le> x \<Longrightarrow> x < j \<Longrightarrow> \<not> P x"
  shows "length (filter P [0..<j]) = length (filter P [0..<m])"
proof -
  have "[0..<j] = [0..<m] @ [m..<j]" using assms(1) by (rule upt_split)
  moreover have "filter P [m..<j] = []" using assms(2) by (simp add: filter_empty_conv)
  ultimately show ?thesis by simp
qed

section \<open>The order of entries\<close>

abbreviation user_compare :: "bytes \<Rightarrow> bytes \<Rightarrow> int" where
  "user_compare \<equiv> cmp_Compare BytewiseComparator"

lemma user_compare_less [simp]: "user_compare a b < 0 \<longleftrightarrow> a < b" "user_compare a b \<le> 0 \<longleftrightarrow> a \<le> b" "user_compare a b = 0 \<longleftrightarrow> a = b"
  by (auto simp: BytewiseComparator_def Slice_compare_eq)

lemma internal_less: "internal_compare a b < 0 \<longleftrightarrow> ikey_of a < ikey_of b"
  by (auto simp: InternalKeyComparator_def InternalKey_Compare_bytewise)

lemma sorted_users:
  assumes "sorted_wrt (\<lambda>a b. internal_compare (fst a) (fst b) < 0) es" "i \<le> j" "j < length es"
  shows "e_user (es ! i) \<le> e_user (es ! j)"
proof (cases "i = j")
  case False
  then have "ikey_of (fst (es ! i)) < ikey_of (fst (es ! j))"
    using assms internal_less by (simp add: sorted_wrt_iff_nth_less)
  then show ?thesis by (auto simp: less_ikey_def ikey_of_def e_user_def)
qed simp

lemma tag_split: "unat (w :: u64) = 256 * unat (drop_bit 8 w) + unat (ucast w :: byte)"
  by (simp add: unat_drop_bit unsigned_ucast_eq take_bit_eq_mod)

text \<open>Before the key a snapshot is looked up with come exactly the smaller user keys and the newer entries of the same.\<close>

lemma before_snapshot:
  assumes "ParseInternalKey (fst e) = Some p" "q \<le> kMaxSequenceNumber"
  shows "internal_compare (fst e) (u @ EncodeFixed64 (PackSequenceAndType q kTypeValue)) < 0 \<longleftrightarrow>
    e_user e < u \<or> (e_user e = u \<and> \<not> pik_sequence p \<le> q)"
proof -
  have c: "(ucast (ikey_tag (fst e)) :: byte) \<le> 1" "pik_sequence p = drop_bit 8 (ikey_tag (fst e))"
    using assms(1) by (auto simp: ParseInternalKey_def ikey_tag_def Let_def split: if_splits)
  have "unat (ucast (ikey_tag (fst e)) :: byte) \<le> 1" using c(1) by (simp add: word_le_nat_alt)
  then have "PackSequenceAndType q kTypeValue < ikey_tag (fst e) \<longleftrightarrow> \<not> drop_bit 8 (ikey_tag (fst e)) \<le> q"
    using tag_split [of "ikey_tag (fst e)"] unat_Pack [OF assms(2), of kTypeValue]
    by (auto simp: word_less_nat_alt word_le_nat_alt)
  then show ?thesis
    by (simp add: internal_less less_ikey_def ikey_of_def e_user_def c(2))
qed

lemma user_view_sorted:
  assumes "sorted_wrt (\<lambda>a b. internal_compare (fst a) (fst b) < 0) es"
  shows "sorted_wrt (\<lambda>a b. user_compare (fst a) (fst b) < 0) (user_view q es)"
proof -
  have "e_user (es ! i) < e_user (es ! j)" if "i < j" "j < length es" "shown q es i" "shown q es j" for i j
    using sorted_users [OF assms, of i j] that by (auto simp: shown_def order_less_le)
  moreover have "sorted_wrt (<) (filter (shown q es) [0..<length es])" by (intro sorted_wrt_filter) simp
  ultimately have "sorted_wrt (\<lambda>i j. e_user (es ! i) < e_user (es ! j)) (filter (shown q es) [0..<length es])"
    by (elim sorted_wrt_mono_rel [rotated]) simp
  then show ?thesis by (simp add: user_view_def shown_positions_def sorted_wrt_map)
qed

end
