(* ===== verification/DB_Iter.thy ===== *)
theory DB_Iter
  imports Merger MemTable_Iter User_View
begin

text \<open>
  The user's iterator of \<open>kv/db/db_iter.cpp\<close>: over an iterator of internal keys it shows, for a
  snapshot, the newest visible entry of every user key that is not deleted. Reading also samples
  keys for compaction at random distances; the calls of \<open>RecordReadSample\<close> are recorded in order.
  The loops end only when the iterator below does, so they are partial functions; the locale
  \<open>db_iter\<close> shows that they return and that the whole is an iterator over the visible user entries.
\<close>

definition kReadBytesPeriod :: nat where "kReadBytesPeriod = 1048576"

record 's DBIter =
  di_iter :: 's
  di_sequence :: u64
  di_status :: status
  di_saved_key :: bytes
  di_saved_value :: bytes
  di_direction :: Direction
  di_valid :: bool
  di_rnd :: u32
  di_bytes_until_read_sampling :: nat
  di_samples :: "bytes list"

definition RandomCompactionPeriod :: "u32 \<Rightarrow> nat \<times> u32" where
  "RandomCompactionPeriod rnd = Random_Uniform rnd (2 * kReadBytesPeriod)"

definition DBIter_new :: "'s \<Rightarrow> u64 \<Rightarrow> u32 \<Rightarrow> 's DBIter" where
  "DBIter_new iter s seed =
     (let (period, rnd) = RandomCompactionPeriod (Random_new seed)
      in \<lparr> di_iter = iter, di_sequence = s, di_status = OK, di_saved_key = [], di_saved_value = [],
           di_direction = kForward, di_valid = False, di_rnd = rnd, di_bytes_until_read_sampling = period, di_samples = [] \<rparr>)"

definition di_key :: "'s Iterator \<Rightarrow> 's DBIter \<Rightarrow> bytes" where
  "di_key I d = (if di_direction d = kForward then ExtractUserKey (it_key I (di_iter d)) else di_saved_key d)"

definition di_value :: "'s Iterator \<Rightarrow> 's DBIter \<Rightarrow> bytes" where
  "di_value I d = (if di_direction d = kForward then it_value I (di_iter d) else di_saved_value d)"

definition di_get_status :: "'s Iterator \<Rightarrow> 's DBIter \<Rightarrow> status" where
  "di_get_status I d = (if status_ok (di_status d) then it_status I (di_iter d) else di_status d)"

text \<open>\<open>ClearSavedValue\<close> also gives up the memory of a large value.\<close>

definition ClearSavedValue :: "'s DBIter \<Rightarrow> 's DBIter" where
  "ClearSavedValue d = d \<lparr> di_saved_value := [] \<rparr>"

partial_function (option) read_samples ::
  "bytes \<Rightarrow> nat \<Rightarrow> u32 \<Rightarrow> nat \<Rightarrow> bytes list \<Rightarrow> (u32 \<times> nat \<times> bytes list) option" where
  "read_samples k bytes_read rnd until samples =
     (if until < bytes_read
      then read_samples k bytes_read (snd (RandomCompactionPeriod rnd)) (until + fst (RandomCompactionPeriod rnd)) (samples @ [k])
      else Some (rnd, until - bytes_read, samples))"

definition di_ParseKey :: "'s Iterator \<Rightarrow> 's DBIter \<Rightarrow> (ParsedInternalKey option \<times> 's DBIter) option" where
  "di_ParseKey I d =
     (let k = it_key I (di_iter d);
          bytes_read = length k + length (it_value I (di_iter d))
      in case read_samples k bytes_read (di_rnd d) (di_bytes_until_read_sampling d) (di_samples d) of
           None \<Rightarrow> None
         | Some (rnd, until, samples) \<Rightarrow>
             (let d = d \<lparr> di_rnd := rnd, di_bytes_until_read_sampling := until, di_samples := samples \<rparr>
              in case ParseInternalKey k of
                   None \<Rightarrow> Some (None, d \<lparr> di_status := status_Corruption (str ''corrupted internal key in DBIter'') [] \<rparr>)
                 | Some ikey \<Rightarrow> Some (Some ikey, d)))"

section \<open>Forwards\<close>

text \<open>One round of the loop: \<open>Inl\<close> an entry to yield, \<open>Inr\<close> the variables for the next round. All callers pass \<open>saved_key_\<close> as \<open>skip\<close>.\<close>

definition next_round :: "(bytes \<Rightarrow> bytes \<Rightarrow> int) \<Rightarrow> bool \<Rightarrow> ParsedInternalKey option \<Rightarrow> 's DBIter \<Rightarrow> 's DBIter + (bool \<times> 's DBIter)" where
  "next_round ucmp skipping parsed d =
     (case parsed of
        None \<Rightarrow> Inr (skipping, d)
      | Some ikey \<Rightarrow>
          if pik_sequence ikey \<le> di_sequence d then
            (case pik_type ikey of
               kTypeDeletion \<Rightarrow> Inr (True, d \<lparr> di_saved_key := pik_user_key ikey \<rparr>)
             | kTypeValue \<Rightarrow>
                 if skipping \<and> ucmp (pik_user_key ikey) (di_saved_key d) \<le> 0 then Inr (skipping, d)
                 else Inl (d \<lparr> di_valid := True, di_saved_key := [] \<rparr>))
          else Inr (skipping, d))"

partial_function (option) FindNextUserEntry ::
  "(bytes \<Rightarrow> bytes \<Rightarrow> int) \<Rightarrow> 's Iterator \<Rightarrow> bool \<Rightarrow> 's DBIter \<Rightarrow> 's DBIter option" where
  "FindNextUserEntry ucmp I skipping d =
     (case di_ParseKey I d of
        None \<Rightarrow> None
      | Some (parsed, d) \<Rightarrow>
          (case next_round ucmp skipping parsed d of
             Inl d \<Rightarrow> Some d
           | Inr (skipping, d) \<Rightarrow>
               (let d = d \<lparr> di_iter := it_Next I (di_iter d) \<rparr>
                in if it_Valid I (di_iter d) then FindNextUserEntry ucmp I skipping d
                   else Some (d \<lparr> di_saved_key := [], di_valid := False \<rparr>))))"

definition di_Next :: "(bytes \<Rightarrow> bytes \<Rightarrow> int) \<Rightarrow> 's Iterator \<Rightarrow> 's DBIter \<Rightarrow> 's DBIter option" where
  "di_Next ucmp I d =
     (let d = (if di_direction d = kReverse
               then d \<lparr> di_direction := kForward,
                        di_iter := (if \<not> it_Valid I (di_iter d) then it_SeekToFirst I (di_iter d) else it_Next I (di_iter d)) \<rparr>
               else d \<lparr> di_saved_key := ExtractUserKey (it_key I (di_iter d)), di_iter := it_Next I (di_iter d) \<rparr>)
      in if \<not> it_Valid I (di_iter d) then Some (d \<lparr> di_valid := False, di_saved_key := [] \<rparr>)
         else FindNextUserEntry ucmp I True d)"

section \<open>Backwards\<close>

definition prev_round :: "(bytes \<Rightarrow> bytes \<Rightarrow> int) \<Rightarrow> 's Iterator \<Rightarrow> ValueType \<Rightarrow> ParsedInternalKey option \<Rightarrow> 's DBIter \<Rightarrow>
    (ValueType \<times> 's DBIter) + (ValueType \<times> 's DBIter)" where
  "prev_round ucmp I value_type parsed d =
     (case parsed of
        None \<Rightarrow> Inr (value_type, d)
      | Some ikey \<Rightarrow>
          if pik_sequence ikey \<le> di_sequence d then
            if value_type \<noteq> kTypeDeletion \<and> ucmp (pik_user_key ikey) (di_saved_key d) < 0 then Inl (value_type, d)
            else if pik_type ikey = kTypeDeletion
            then Inr (pik_type ikey, ClearSavedValue (d \<lparr> di_saved_key := [] \<rparr>))
            else Inr (pik_type ikey, d \<lparr> di_saved_key := ExtractUserKey (it_key I (di_iter d)), di_saved_value := it_value I (di_iter d) \<rparr>)
          else Inr (value_type, d))"

partial_function (option) FindPrev_loop ::
  "(bytes \<Rightarrow> bytes \<Rightarrow> int) \<Rightarrow> 's Iterator \<Rightarrow> ValueType \<Rightarrow> 's DBIter \<Rightarrow> (ValueType \<times> 's DBIter) option" where
  "FindPrev_loop ucmp I value_type d =
     (case di_ParseKey I d of
        None \<Rightarrow> None
      | Some (parsed, d) \<Rightarrow>
          (case prev_round ucmp I value_type parsed d of
             Inl r \<Rightarrow> Some r
           | Inr (value_type, d) \<Rightarrow>
               (let d = d \<lparr> di_iter := it_Prev I (di_iter d) \<rparr>
                in if it_Valid I (di_iter d) then FindPrev_loop ucmp I value_type d else Some (value_type, d))))"

definition FindPrevUserEntry :: "(bytes \<Rightarrow> bytes \<Rightarrow> int) \<Rightarrow> 's Iterator \<Rightarrow> 's DBIter \<Rightarrow> 's DBIter option" where
  "FindPrevUserEntry ucmp I d =
     (case (if it_Valid I (di_iter d) then FindPrev_loop ucmp I kTypeDeletion d else Some (kTypeDeletion, d)) of
        None \<Rightarrow> None
      | Some (value_type, d) \<Rightarrow>
          Some (if value_type = kTypeDeletion
                then (ClearSavedValue (d \<lparr> di_valid := False, di_saved_key := [] \<rparr>)) \<lparr> di_direction := kForward \<rparr>
                else d \<lparr> di_valid := True \<rparr>))"

text \<open>The loop that leaves the entries of the current user key: whether there are entries before them.\<close>

partial_function (option) back_over_key ::
  "(bytes \<Rightarrow> bytes \<Rightarrow> int) \<Rightarrow> 's Iterator \<Rightarrow> 's DBIter \<Rightarrow> (bool \<times> 's DBIter) option" where
  "back_over_key ucmp I d =
     (let d = d \<lparr> di_iter := it_Prev I (di_iter d) \<rparr>
      in if \<not> it_Valid I (di_iter d) then Some (False, ClearSavedValue (d \<lparr> di_valid := False, di_saved_key := [] \<rparr>))
         else if ucmp (ExtractUserKey (it_key I (di_iter d))) (di_saved_key d) < 0 then Some (True, d)
         else back_over_key ucmp I d)"

definition di_Prev :: "(bytes \<Rightarrow> bytes \<Rightarrow> int) \<Rightarrow> 's Iterator \<Rightarrow> 's DBIter \<Rightarrow> 's DBIter option" where
  "di_Prev ucmp I d =
     (if di_direction d = kForward
      then (case back_over_key ucmp I (d \<lparr> di_saved_key := ExtractUserKey (it_key I (di_iter d)) \<rparr>) of
              None \<Rightarrow> None
            | Some (found, d) \<Rightarrow> if found then FindPrevUserEntry ucmp I (d \<lparr> di_direction := kReverse \<rparr>) else Some d)
      else FindPrevUserEntry ucmp I d)"

section \<open>Seeks\<close>

definition di_Seek :: "(bytes \<Rightarrow> bytes \<Rightarrow> int) \<Rightarrow> 's Iterator \<Rightarrow> 's DBIter \<Rightarrow> bytes \<Rightarrow> 's DBIter option" where
  "di_Seek ucmp I d target =
     (let d = ClearSavedValue (d \<lparr> di_direction := kForward \<rparr>);
          d = d \<lparr> di_saved_key := AppendInternalKey [] \<lparr> pik_user_key = target, pik_sequence = di_sequence d, pik_type = kValueTypeForSeek \<rparr> \<rparr>;
          d = d \<lparr> di_iter := it_Seek I (di_iter d) (di_saved_key d) \<rparr>
      in if it_Valid I (di_iter d) then FindNextUserEntry ucmp I False d else Some (d \<lparr> di_valid := False \<rparr>))"

definition di_SeekToFirst :: "(bytes \<Rightarrow> bytes \<Rightarrow> int) \<Rightarrow> 's Iterator \<Rightarrow> 's DBIter \<Rightarrow> 's DBIter option" where
  "di_SeekToFirst ucmp I d =
     (let d = ClearSavedValue (d \<lparr> di_direction := kForward \<rparr>);
          d = d \<lparr> di_iter := it_SeekToFirst I (di_iter d) \<rparr>
      in if it_Valid I (di_iter d) then FindNextUserEntry ucmp I False d else Some (d \<lparr> di_valid := False \<rparr>))"

definition di_SeekToLast :: "(bytes \<Rightarrow> bytes \<Rightarrow> int) \<Rightarrow> 's Iterator \<Rightarrow> 's DBIter \<Rightarrow> 's DBIter option" where
  "di_SeekToLast ucmp I d =
     (let d = ClearSavedValue (d \<lparr> di_direction := kReverse \<rparr>)
      in FindPrevUserEntry ucmp I (d \<lparr> di_iter := it_SeekToLast I (di_iter d) \<rparr>))"

text \<open>As a record of virtual functions; an operation that does not return leaves the state, and is shown not to occur.\<close>

definition DBIterator :: "(bytes \<Rightarrow> bytes \<Rightarrow> int) \<Rightarrow> 's Iterator \<Rightarrow> 's DBIter Iterator" where
  "DBIterator ucmp I =
     \<lparr> it_Valid = di_valid,
       it_SeekToFirst = (\<lambda>d. case_option d id (di_SeekToFirst ucmp I d)),
       it_SeekToLast = (\<lambda>d. case_option d id (di_SeekToLast ucmp I d)),
       it_Seek = (\<lambda>d target. case_option d id (di_Seek ucmp I d target)),
       it_Next = (\<lambda>d. case_option d id (di_Next ucmp I d)),
       it_Prev = (\<lambda>d. case_option d id (di_Prev ucmp I d)),
       it_key = di_key I, it_value = di_value I, it_status = di_get_status I \<rparr>"

definition NewDBIterator :: "'s \<Rightarrow> u64 \<Rightarrow> u32 \<Rightarrow> 's DBIter" where
  "NewDBIterator internal_iter sequence seed = DBIter_new internal_iter sequence seed"

section \<open>Sampling returns\<close>

text \<open>The generator never gives two multiples of \<open>2\<^sup>2\<^sup>1\<close> in a row, so the distance grows at least at every other step.\<close>

lemma lcg_not_twice:
  assumes "0 < r" "r < 2147483647" "r mod 2097152 = 0"
  shows "(r * 16807) mod 2147483647 mod 2097152 \<noteq> (0::nat)"
proof -
  obtain k where r: "r = 2097152 * k" using assms(3) by auto
  then have k: "0 < k" "k \<le> 1023" using assms(1,2) by auto
  define a where "a = 16807 * k div 1024" define b where "b = 16807 * k mod 1024"
  have ab: "16807 * k = a * 1024 + b" "b \<le> 1023" "16 \<le> a" "a \<le> 16807"
    using k by (simp_all add: a_def b_def)
  have "r * 16807 = 2097152 * (16807 * k)" using r by simp
  also have "\<dots> = a * 2147483647 + (a + 2097152 * b)" unfolding ab(1) by (simp add: algebra_simps)
  finally have "(r * 16807) mod 2147483647 = (a + 2097152 * b) mod 2147483647" by (simp only: mod_mult_self3)
  also have "\<dots> = a + 2097152 * b" using ab by simp
  finally have "(r * 16807) mod 2147483647 = a + 2097152 * b" .
  then show ?thesis using ab by simp
qed

lemma Random_Next_good: "good_seed r \<Longrightarrow> good_seed (Random_Next r)"
  by (simp add: Random_Next_lcg)

lemma read_samples_returns:
  "good_seed rnd \<Longrightarrow> \<exists>rnd' until' samples'. read_samples k n rnd until samples = Some (rnd', until', samples') \<and> good_seed rnd'"
proof (induction "n - until" arbitrary: rnd until samples rule: less_induct)
  case less
  let ?p = "2 * kReadBytesPeriod"
  have p: "?p = 2097152" by (simp add: kReadBytesPeriod_def)
  have grow: "\<exists>rnd' until' samples'. read_samples k n (Random_Next r) (u + unat (Random_Next r) mod ?p) ss = Some (rnd', until', samples') \<and> good_seed rnd'"
    if "good_seed r" "until \<le> u" "unat (Random_Next r) mod ?p \<noteq> 0" "until < n" for r u ss
    using less.hyps [of "u + unat (Random_Next r) mod ?p" "Random_Next r"] that Random_Next_good by simp
  note step = read_samples.simps [of k n]
  show ?case
  proof (cases "until < n")
    case True
    let ?r = "Random_Next rnd"
    have one: "read_samples k n rnd until samples = read_samples k n ?r (until + unat ?r mod ?p) (samples @ [k])"
      using True by (subst step) (simp add: RandomCompactionPeriod_def Random_Uniform_def Let_def)
    show ?thesis
    proof (cases "unat ?r mod ?p = 0")
      case False
      then show ?thesis unfolding one using grow [OF less.prems order_refl False True] by blast
    next
      case zero: True
      have g: "good_seed ?r" using less.prems by (rule Random_Next_good)
      have "unat (Random_Next ?r) mod ?p \<noteq> 0"
        using lcg_not_twice [of "unat ?r"] g zero unfolding p by (simp add: good_seed_def unat_Random_Next [OF g])
      moreover have "read_samples k n ?r until (samples @ [k]) =
          read_samples k n (Random_Next ?r) (until + unat (Random_Next ?r) mod ?p) ((samples @ [k]) @ [k])"
        using True by (subst step) (simp add: RandomCompactionPeriod_def Random_Uniform_def Let_def)
      ultimately show ?thesis unfolding one zero using grow [OF g order_refl _ True] by simp
    qed
  next
    case False
    then show ?thesis using less.prems by (subst step) simp
  qed
qed

section \<open>It is an iterator over the visible user entries\<close>

locale db_iter = iterator internal_compare valid I rep
  for valid and I :: "'s Iterator" and rep +
  assumes valid_tag: "valid (u @ t) \<Longrightarrow> length t = 8 \<Longrightarrow> length t' = 8 \<Longrightarrow> valid (u @ t')"
begin

definition di_at :: "u64 \<Rightarrow> 's DBIter \<Rightarrow> entry list \<Rightarrow> nat \<Rightarrow> bool" where
  "di_at q d es p \<longleftrightarrow> rep (di_iter d) es p \<and> parses es \<and> (\<forall>e\<in>set es. 8 \<le> length (fst e)) \<and>
     di_status d = OK \<and> good_seed (di_rnd d) \<and> di_sequence d = q \<and> q \<le> kMaxSequenceNumber"

definition di_fwd :: "u64 \<Rightarrow> 's DBIter \<Rightarrow> entry list \<Rightarrow> nat \<Rightarrow> bool" where
  "di_fwd q d es i \<longleftrightarrow> di_direction d = kForward \<and> (\<exists>p. di_at q d es p \<and>
     (if i < length (shown_positions q es) then di_valid d \<and> p = shown_positions q es ! i else \<not> di_valid d))"

text \<open>Backwards, the iterator below is before the entries of the user key, with only invisible entries between.\<close>

definition back_ok :: "u64 \<Rightarrow> entry list \<Rightarrow> nat \<Rightarrow> nat \<Rightarrow> bool" where
  "back_ok q es p f \<longleftrightarrow> (\<forall>y. (if p < length es then p + 1 else 0) \<le> y \<longrightarrow> y < f \<longrightarrow> \<not> visible q (es ! y)) \<and>
     (p < length es \<longrightarrow> e_user (es ! p) < e_user (es ! f))"

definition di_rev :: "u64 \<Rightarrow> 's DBIter \<Rightarrow> entry list \<Rightarrow> nat \<Rightarrow> bool" where
  "di_rev q d es i \<longleftrightarrow> di_direction d = kReverse \<and> di_valid d \<and> i < length (shown_positions q es) \<and>
     (\<exists>p. di_at q d es p \<and> back_ok q es p (shown_positions q es ! i)) \<and>
     di_saved_key d = e_user (es ! (shown_positions q es ! i)) \<and> di_saved_value d = snd (es ! (shown_positions q es ! i))"

definition di_rep :: "'s DBIter \<Rightarrow> entry list \<Rightarrow> nat \<Rightarrow> bool" where
  "di_rep d us i \<longleftrightarrow> (\<exists>q es. us = user_view q es \<and> i \<le> length us \<and> (di_fwd q d es i \<or> di_rev q d es i))"

lemma di_at_sorted: "di_at q d es p \<Longrightarrow> sorted_wrt (\<lambda>a b. internal_compare (fst a) (fst b) < 0) es"
  using rep_sorted by (auto simp: di_at_def)

lemma di_at_users: "di_at q d es p \<Longrightarrow> i \<le> j \<Longrightarrow> j < length es \<Longrightarrow> e_user (es ! i) \<le> e_user (es ! j)"
  using sorted_users [OF di_at_sorted] by blast

lemma di_at_current:
  assumes "di_at q d es p" "p < length es"
  shows "it_Valid I (di_iter d)" "it_key I (di_iter d) = fst (es ! p)" "it_value I (di_iter d) = snd (es ! p)"
    "ExtractUserKey (it_key I (di_iter d)) = e_user (es ! p)"
proof -
  have r: "rep (di_iter d) es p" using assms(1) by (simp add: di_at_def)
  show "it_Valid I (di_iter d)" using rep_Valid [OF r] assms(2) by simp
  show k: "it_key I (di_iter d) = fst (es ! p)" "it_value I (di_iter d) = snd (es ! p)"
    using rep_entry [OF r assms(2)] by (metis fst_conv snd_conv)+
  show "ExtractUserKey (it_key I (di_iter d)) = e_user (es ! p)" by (simp add: k e_user_def)
qed

lemma ParseKey_at:
  assumes "di_at q d es p" "p < length es"
  obtains d' where "di_ParseKey I d = Some (Some (e_parsed (es ! p)), d')" "di_at q d' es p" "di_iter d' = di_iter d"
    "di_saved_key d' = di_saved_key d" "di_saved_value d' = di_saved_value d" "di_direction d' = di_direction d"
proof -
  obtain r u ss where s: "read_samples (fst (es ! p)) (length (fst (es ! p)) + length (snd (es ! p))) (di_rnd d)
      (di_bytes_until_read_sampling d) (di_samples d) = Some (r, u, ss)" "good_seed r"
    using read_samples_returns assms(1) by (metis di_at_def)
  have p: "ParseInternalKey (fst (es ! p)) = Some (e_parsed (es ! p))"
    using parsesD(1) assms by (auto simp: di_at_def)
  let ?d = "d \<lparr> di_rnd := r, di_bytes_until_read_sampling := u, di_samples := ss \<rparr>"
  have "di_ParseKey I d = Some (Some (e_parsed (es ! p)), ?d)"
    by (simp add: di_ParseKey_def Let_def di_at_current [OF assms] s(1) p)
  then show thesis using that [of ?d] assms(1) s(2) by (simp add: di_at_def)
qed

lemma di_at_Next: "di_at q d es p \<Longrightarrow> p < length es \<Longrightarrow> di_at q (d \<lparr> di_iter := it_Next I (di_iter d) \<rparr>) es (p + 1)"
  using rep_Next by (auto simp: di_at_def)

lemma di_at_Prev: "di_at q d es p \<Longrightarrow> p < length es \<Longrightarrow>
    di_at q (d \<lparr> di_iter := it_Prev I (di_iter d) \<rparr>) es (if p = 0 then length es else p - 1)"
  using rep_Prev by (auto simp: di_at_def)

lemma di_at_Valid: "di_at q d es p \<Longrightarrow> it_Valid I (di_iter d) \<longleftrightarrow> p < length es"
  using rep_Valid by (auto simp: di_at_def)

lemma di_at_update [simp]:
  "di_at q (d \<lparr> di_saved_key := k \<rparr>) es p = di_at q d es p" "di_at q (d \<lparr> di_saved_value := v \<rparr>) es p = di_at q d es p"
  "di_at q (d \<lparr> di_valid := b \<rparr>) es p = di_at q d es p" "di_at q (d \<lparr> di_direction := dir \<rparr>) es p = di_at q d es p"
  by (simp_all add: di_at_def)

abbreviation rank :: "u64 \<Rightarrow> entry list \<Rightarrow> nat \<Rightarrow> nat" where
  "rank q es n \<equiv> length (filter (shown q es) [0..<n])"

lemma rank_shown: "p < length es \<Longrightarrow> shown q es p \<Longrightarrow>
    rank q es p < length (shown_positions q es) \<and> shown_positions q es ! rank q es p = p"
  unfolding shown_positions_def by (rule filter_upt_rank)

lemma rank_all: "rank q es (length es) = length (shown_positions q es)"
  by (simp add: shown_positions_def)

text \<open>
  The forward search from position \<open>x\<close>, where the entries before \<open>n\<close> count as done: what is skipped
  are the user keys of which a visible entry is done.
\<close>

definition skips :: "u64 \<Rightarrow> entry list \<Rightarrow> nat \<Rightarrow> nat \<Rightarrow> bool \<Rightarrow> bytes \<Rightarrow> bool" where
  "skips q es x n skipping skip \<longleftrightarrow> (\<forall>y. x \<le> y \<longrightarrow> y < length es \<longrightarrow> visible q (es ! y) \<longrightarrow>
     ((skipping \<and> e_user (es ! y) \<le> skip) \<longleftrightarrow> (\<exists>z<max x n. visible q (es ! z) \<and> e_user (es ! z) = e_user (es ! y)))) \<and>
     (\<forall>y. x \<le> y \<longrightarrow> y < n \<longrightarrow> visible q (es ! y) \<longrightarrow> y + 1 = n \<and> pik_type (e_parsed (es ! y)) = kTypeValue)"

lemma skips_invisible: "skips q es x n sk k \<Longrightarrow> \<not> visible q (es ! x) \<Longrightarrow> skips q es (x + 1) n sk k"
proof -
  assume s: "skips q es x n sk k" and v: "\<not> visible q (es ! x)"
  have "(\<exists>z<max (x + 1) n. visible q (es ! z) \<and> P z) \<longleftrightarrow> (\<exists>z<max x n. visible q (es ! z) \<and> P z)" for P
    using v by (auto simp: less_max_iff_disj less_Suc_eq)
  with s show ?thesis unfolding skips_def by simp
qed

lemma skips_deletion:
  assumes sorted: "\<And>i j. i \<le> j \<Longrightarrow> j < length es \<Longrightarrow> e_user (es ! i) \<le> e_user (es ! j)"
    and "n \<le> x" "x < length es" "visible q (es ! x)"
  shows "skips q es (x + 1) n True (e_user (es ! x))"
proof -
  have "e_user (es ! y) \<le> e_user (es ! x) \<longleftrightarrow> (\<exists>z<x + 1. visible q (es ! z) \<and> e_user (es ! z) = e_user (es ! y))"
    if y: "x + 1 \<le> y" "y < length es" for y
  proof
    assume "e_user (es ! y) \<le> e_user (es ! x)"
    then show "\<exists>z<x + 1. visible q (es ! z) \<and> e_user (es ! z) = e_user (es ! y)"
      using sorted [of x y] y assms(4) by (intro exI [of _ x]) simp
  next
    assume "\<exists>z<x + 1. visible q (es ! z) \<and> e_user (es ! z) = e_user (es ! y)"
    then show "e_user (es ! y) \<le> e_user (es ! x)" using sorted [of _ x] assms(3) by (metis add.commute less_Suc_eq_le plus_1_eq_Suc)
  qed
  then show ?thesis using assms(2) by (auto simp: skips_def max_def)
qed

lemma skips_hidden:
  assumes s: "skips q es x n sk k" and x: "x < length es" "visible q (es ! x)" "sk" "e_user (es ! x) \<le> k"
  shows "skips q es (x + 1) n sk k" "x < n \<or> \<not> shown q es x"
proof -
  obtain z where z: "z < max x n" "visible q (es ! z)" "e_user (es ! z) = e_user (es ! x)"
    using s x unfolding skips_def by blast
  have one: "x < n \<Longrightarrow> x + 1 = n" using s x(2) by (auto simp: skips_def)
  have "(\<exists>z<max (x + 1) n. visible q (es ! z) \<and> e_user (es ! z) = u) \<longleftrightarrow>
      (\<exists>z<max x n. visible q (es ! z) \<and> e_user (es ! z) = u)" for u
    using z one by (auto simp: less_max_iff_disj less_Suc_eq)
  then show "skips q es (x + 1) n sk k" using s unfolding skips_def by simp
  show "x < n \<or> \<not> shown q es x"
  proof (cases "x < n")
    case False
    then show ?thesis using z by (auto simp: shown_def max_def)
  qed simp
qed

lemma rank_skip:
  assumes "x < n \<or> \<not> shown q es x"
  shows "rank q es (max (x + 1) n) = rank q es (max x n)"
  using assms by (cases "x < n") (auto simp: max_def)

lemma FindNext_fwd:
  assumes "di_at q d es x" "x < length es" "di_direction d = kForward" "skips q es x n sk (di_saved_key d)" "n \<le> length es"
  shows "\<exists>d'. FindNextUserEntry user_compare I sk d = Some d' \<and> di_fwd q d' es (rank q es (max x n))"
  using assms(1-4)
proof (induction "length es - x" arbitrary: d x sk rule: less_induct)
  case less
  note at = less.prems(1) and x = less.prems(2) and dir = less.prems(3) and sk = less.prems(4)
  obtain d1 where d1: "di_ParseKey I d = Some (Some (e_parsed (es ! x)), d1)" "di_at q d1 es x" "di_saved_key d1 = di_saved_key d"
    "di_direction d1 = kForward" using ParseKey_at [OF at x] dir by metis
  have par: "pik_user_key (e_parsed (es ! x)) = e_user (es ! x)" "di_sequence d1 = q"
    using parsesD(2) [OF _ x] d1(2) by (auto simp: di_at_def)
  note sorted = di_at_users [OF at]
  have cont: "\<exists>d'. FindNextUserEntry user_compare I sk d = Some d' \<and> di_fwd q d' es (rank q es (max x n))"
    if r: "next_round user_compare sk (Some (e_parsed (es ! x))) d1 = Inr (sk', d2)" and
      d2: "di_at q d2 es x" "di_direction d2 = kForward" and
      s': "skips q es (x + 1) n sk' (di_saved_key d2)" and h: "x < n \<or> \<not> shown q es x" for sk' d2
  proof -
    let ?d = "d2 \<lparr> di_iter := it_Next I (di_iter d2) \<rparr>"
    have n: "di_at q ?d es (x + 1)" using di_at_Next [OF d2(1) x] .
    have eq: "FindNextUserEntry user_compare I sk d =
        (if x + 1 < length es then FindNextUserEntry user_compare I sk' ?d else Some (?d \<lparr> di_saved_key := [], di_valid := False \<rparr>))"
      by (subst FindNextUserEntry.simps) (simp add: d1(1) r Let_def di_at_Valid [OF n, simplified])
    show ?thesis
    proof (cases "x + 1 < length es")
      case True
      then have "\<exists>d'. FindNextUserEntry user_compare I sk' ?d = Some d' \<and> di_fwd q d' es (rank q es (max (x + 1) n))"
        using n d2(2) s' x by (intro less.hyps) simp_all
      then show ?thesis using True eq rank_skip [OF h] by simp
    next
      case False
      then have "max (x + 1) n = length es" using x assms(5) by simp
      then have "rank q es (max x n) = length (shown_positions q es)"
        using rank_skip [OF h] rank_all [of q es] by simp
      moreover have "di_fwd q (?d \<lparr> di_saved_key := [], di_valid := False \<rparr>) es (length (shown_positions q es))"
        using n d2(2) by (auto simp: di_fwd_def)
      ultimately show ?thesis using False eq by auto
    qed
  qed
  consider (invisible) "\<not> visible q (es ! x)"
    | (deletion) "visible q (es ! x)" "pik_type (e_parsed (es ! x)) = kTypeDeletion"
    | (hidden) "visible q (es ! x)" "pik_type (e_parsed (es ! x)) = kTypeValue" "sk \<and> e_user (es ! x) \<le> di_saved_key d"
    | (found) "visible q (es ! x)" "pik_type (e_parsed (es ! x)) = kTypeValue" "\<not> (sk \<and> e_user (es ! x) \<le> di_saved_key d)"
    by (cases "pik_type (e_parsed (es ! x))") blast+
  then show ?case
  proof cases
    case invisible
    then show ?thesis
      using d1 par skips_invisible [OF sk] by (intro cont [of sk d1]) (auto simp: next_round_def visible_def shown_def)
  next
    case deletion
    then have n: "n \<le> x" using sk by (auto simp: skips_def not_le [symmetric])
    show ?thesis
      using d1 par deletion skips_deletion [OF sorted n x deletion(1)]
      by (intro cont [of True "d1 \<lparr> di_saved_key := e_user (es ! x) \<rparr>"]) (auto simp: next_round_def visible_def shown_def)
  next
    case hidden
    then show ?thesis
      using d1 par skips_hidden [OF sk x hidden(1)]
      by (intro cont [of sk d1]) (auto simp: next_round_def visible_def)
  next
    case found
    then have none: "\<not> (\<exists>z<max x n. visible q (es ! z) \<and> e_user (es ! z) = e_user (es ! x))"
      using sk x unfolding skips_def by blast
    then have "n \<le> x" "shown q es x" using found by (auto simp: shown_def not_le [symmetric])
    moreover have "FindNextUserEntry user_compare I sk d = Some (d1 \<lparr> di_valid := True, di_saved_key := [] \<rparr>)"
      using found d1 par by (subst FindNextUserEntry.simps) (auto simp: next_round_def visible_def)
    ultimately show ?thesis
      using rank_shown [OF x] d1(2,4) by (auto simp: di_fwd_def max_absorb1)
  qed
qed

text \<open>The entries of a user key start after those of the smaller ones.\<close>

definition group_start :: "entry list \<Rightarrow> bytes \<Rightarrow> nat" where
  "group_start es u = length (takeWhile (\<lambda>e. e_user e < u) es)"

lemma group_start_below: "y < group_start es u \<Longrightarrow> e_user (es ! y) < u"
  unfolding group_start_def by (metis nth_mem set_takeWhileD takeWhile_nth)

lemma group_start_above:
  assumes "di_at q d es p" "group_start es u \<le> y" "y < length es"
  shows "u \<le> e_user (es ! y)"
proof -
  have "group_start es u < length es" using assms(2,3) by simp
  then have "\<not> e_user (es ! group_start es u) < u" unfolding group_start_def by (rule nth_length_takeWhile)
  then show ?thesis using di_at_users [OF assms(1-3)] by simp
qed

lemma group_start_le: "y < length es \<Longrightarrow> group_start es (e_user (es ! y)) \<le> y"
  using group_start_below [of y es "e_user (es ! y)"] by (meson leI less_irrefl)

lemma back_over_key_at:
  assumes "di_at q d es x" "x < length es" "group_start es (di_saved_key d) \<le> x"
  shows "\<exists>d'. back_over_key user_compare I d = Some (0 < group_start es (di_saved_key d), d') \<and>
    di_direction d' = di_direction d \<and>
    (if 0 < group_start es (di_saved_key d) then di_at q d' es (group_start es (di_saved_key d) - 1)
     else \<not> di_valid d' \<and> di_at q d' es (length es))"
  using assms
proof (induction x arbitrary: d)
  case 0
  let ?d = "d \<lparr> di_iter := it_Prev I (di_iter d) \<rparr>"
  have "di_at q ?d es (length es)" using di_at_Prev [OF "0.prems"(1,2)] by simp
  with "0.prems"(3) show ?case
    using di_at_Valid [of q ?d es "length es"] by (subst back_over_key.simps) (simp add: ClearSavedValue_def)
next
  case (Suc x)
  let ?d = "d \<lparr> di_iter := it_Prev I (di_iter d) \<rparr>"
  have at: "di_at q ?d es x" using di_at_Prev [OF Suc.prems(1,2)] by simp
  have x: "x < length es" using Suc.prems(2) by simp
  note cur = di_at_current [OF at x]
  show ?case
  proof (cases "x < group_start es (di_saved_key d)")
    case True
    then have "group_start es (di_saved_key d) = Suc x" using Suc.prems(3) by simp
    with True group_start_below [OF True] cur at show ?thesis by (subst back_over_key.simps) simp
  next
    case False
    then have "\<not> e_user (es ! x) < di_saved_key d" using group_start_above [OF at _ x] by (simp add: not_less)
    then have "back_over_key user_compare I d = back_over_key user_compare I ?d"
      using cur by (subst back_over_key.simps) simp
    then show ?thesis using Suc.IH [OF at x] False by (cases "0 < group_start es (di_saved_key d)") simp_all
  qed
qed

text \<open>What the backward loop knows about the positions from \<open>m\<close> to \<open>n\<close> it has passed.\<close>

definition passed :: "u64 \<Rightarrow> entry list \<Rightarrow> nat \<Rightarrow> nat \<Rightarrow> ValueType \<Rightarrow> 's DBIter \<Rightarrow> bool" where
  "passed q es m n vt d \<longleftrightarrow>
     (case vt of
        kTypeDeletion \<Rightarrow> \<forall>y. m \<le> y \<longrightarrow> y < n \<longrightarrow> \<not> shown q es y
      | kTypeValue \<Rightarrow> \<exists>f. m \<le> f \<and> f < n \<and> visible q (es ! f) \<and> pik_type (e_parsed (es ! f)) = kTypeValue \<and>
          (\<forall>y. m \<le> y \<longrightarrow> y < f \<longrightarrow> \<not> visible q (es ! y)) \<and> (\<forall>y. f < y \<longrightarrow> y < n \<longrightarrow> \<not> shown q es y) \<and>
          di_saved_key d = e_user (es ! f) \<and> di_saved_value d = snd (es ! f))"

lemma passed_invisible:
  assumes "passed q es (Suc x) n vt d" "\<not> visible q (es ! x)"
  shows "passed q es x n vt d"
proof -
  have *: "x \<le> y \<Longrightarrow> y = x \<or> Suc x \<le> y" for y by auto
  show ?thesis
  proof (cases vt)
    case kTypeDeletion
    then show ?thesis using assms * by (auto simp: passed_def shown_def)
  next
    case kTypeValue
    then obtain f where f: "Suc x \<le> f" "f < n" "visible q (es ! f)" "pik_type (e_parsed (es ! f)) = kTypeValue"
      "\<forall>y. Suc x \<le> y \<longrightarrow> y < f \<longrightarrow> \<not> visible q (es ! y)" "\<forall>y. f < y \<longrightarrow> y < n \<longrightarrow> \<not> shown q es y"
      "di_saved_key d = e_user (es ! f)" "di_saved_value d = snd (es ! f)"
      using assms(1) by (auto simp: passed_def)
    have "\<forall>y. x \<le> y \<longrightarrow> y < f \<longrightarrow> \<not> visible q (es ! y)" using f(5) assms(2) * by blast
    with f kTypeValue show ?thesis by (auto simp: passed_def intro!: exI [of _ f])
  qed
qed

text \<open>At a visible entry the search goes on with it, unless it has a value of a larger user key.\<close>

lemma passed_hides:
  assumes "passed q es (Suc x) n vt d" "visible q (es ! x)" "vt = kTypeDeletion \<or> \<not> e_user (es ! x) < di_saved_key d"
    and sorted: "\<And>i j. i \<le> j \<Longrightarrow> j < length es \<Longrightarrow> e_user (es ! i) \<le> e_user (es ! j)" and "n \<le> length es"
  shows "\<forall>y. Suc x \<le> y \<longrightarrow> y < n \<longrightarrow> \<not> shown q es y"
proof (cases vt)
  case kTypeDeletion
  with assms(1) show ?thesis by (simp add: passed_def)
next
  case kTypeValue
  then obtain f where f: "Suc x \<le> f" "f < n" "\<forall>y. Suc x \<le> y \<longrightarrow> y < f \<longrightarrow> \<not> visible q (es ! y)"
    "\<forall>y. f < y \<longrightarrow> y < n \<longrightarrow> \<not> shown q es y" "di_saved_key d = e_user (es ! f)"
    using assms(1) by (auto simp: passed_def)
  have "e_user (es ! x) = e_user (es ! f)"
    using assms(3) kTypeValue f sorted [of x f] assms(5) by auto
  then have "\<not> shown q es f" using assms(2) f(1) unfolding shown_def by (metis Suc_le_lessD)
  then show ?thesis using f(3,4) by (metis linorder_neqE_nat shown_def)
qed

text \<open>The outcome for the positions before \<open>n\<close>: none is shown, or the last shown one is kept.\<close>

definition found_prev :: "u64 \<Rightarrow> entry list \<Rightarrow> nat \<Rightarrow> ValueType \<Rightarrow> 's DBIter \<Rightarrow> bool" where
  "found_prev q es n vt d \<longleftrightarrow> (\<exists>p. di_at q d es p \<and>
     (case vt of
        kTypeDeletion \<Rightarrow> \<forall>y<n. \<not> shown q es y
      | kTypeValue \<Rightarrow> \<exists>f<n. shown q es f \<and> (\<forall>y. f < y \<longrightarrow> y < n \<longrightarrow> \<not> shown q es y) \<and> back_ok q es p f \<and>
          di_saved_key d = e_user (es ! f) \<and> di_saved_value d = snd (es ! f)))"

lemma passed_all:
  assumes "di_at q d es (length es)" "passed q es 0 n vt d"
  shows "found_prev q es n vt d"
  using assms unfolding found_prev_def passed_def
  by (intro exI [of _ "length es"]) (cases vt; auto simp: shown_def back_ok_def)

lemma passed_break:
  assumes "di_at q d es x" "x < length es" "passed q es (Suc x) n kTypeValue d" "e_user (es ! x) < di_saved_key d" "n \<le> length es"
  shows "found_prev q es n kTypeValue d"
proof -
  obtain f where f: "Suc x \<le> f" "f < n" "visible q (es ! f)" "pik_type (e_parsed (es ! f)) = kTypeValue"
    "\<forall>y. Suc x \<le> y \<longrightarrow> y < f \<longrightarrow> \<not> visible q (es ! y)" "\<forall>y. f < y \<longrightarrow> y < n \<longrightarrow> \<not> shown q es y"
    "di_saved_key d = e_user (es ! f)" "di_saved_value d = snd (es ! f)"
    using assms(3) by (auto simp: passed_def)
  have "e_user (es ! i) \<noteq> e_user (es ! f)" if "i < f" "visible q (es ! i)" for i
  proof -
    have "i \<le> x" using f(5) that by (meson not_less_eq_eq)
    then show ?thesis using di_at_users [OF assms(1), of i x] assms(2,4) f(7) by auto
  qed
  then have "shown q es f" using f by (auto simp: shown_def)
  moreover have "back_ok q es x f" using f assms(2,4) by (simp add: back_ok_def)
  ultimately show ?thesis using assms(1) f by (auto simp: found_prev_def)
qed

lemma FindPrev_loop_found:
  assumes "di_at q d es x" "x < length es" "passed q es (Suc x) n vt d" "n \<le> length es" "Suc x \<le> n"
  shows "\<exists>vt' d'. FindPrev_loop user_compare I vt d = Some (vt', d') \<and> found_prev q es n vt' d' \<and> di_direction d' = di_direction d"
  using assms(1-3,5)
proof (induction x arbitrary: d vt rule: less_induct)
  case (less x)
  note at = less.prems(1) and x = less.prems(2) and pa = less.prems(3) and xn = less.prems(4)
  note sorted = di_at_users [OF at]
  obtain d1 where d1: "di_ParseKey I d = Some (Some (e_parsed (es ! x)), d1)" "di_at q d1 es x" "di_saved_key d1 = di_saved_key d"
    "di_saved_value d1 = di_saved_value d" "di_direction d1 = di_direction d"
    using ParseKey_at [OF at x] by metis
  have par: "pik_user_key (e_parsed (es ! x)) = e_user (es ! x)" "di_sequence d1 = q"
    using parsesD(2) [OF _ x] d1(2) by (auto simp: di_at_def)
  note cur = di_at_current [OF d1(2) x]
  have pa1: "passed q es (Suc x) n vt d1" using pa d1 by (simp add: passed_def split: ValueType.splits)
  have cont: ?case if r: "prev_round user_compare I vt (Some (e_parsed (es ! x))) d1 = Inr (vt', d2)"
    and d2: "di_at q d2 es x" "di_direction d2 = di_direction d" and p2: "passed q es x n vt' d2" for vt' d2
  proof -
    let ?d = "d2 \<lparr> di_iter := it_Prev I (di_iter d2) \<rparr>"
    have pr: "di_at q ?d es (if x = 0 then length es else x - 1)" using di_at_Prev [OF d2(1) x] .
    have pd: "passed q es x n vt' ?d" using p2 by (simp add: passed_def split: ValueType.splits)
    have eq: "FindPrev_loop user_compare I vt d =
        (if x = 0 then Some (vt', ?d) else FindPrev_loop user_compare I vt' ?d)"
      using x by (subst FindPrev_loop.simps) (auto simp: d1(1) r Let_def di_at_Valid [OF pr, simplified])
    show ?thesis
    proof (cases x)
      case 0
      then show ?thesis using eq passed_all [of q ?d es n vt'] pr pd d2(2) by simp
    next
      case (Suc y)
      then have "\<exists>v d'. FindPrev_loop user_compare I vt' ?d = Some (v, d') \<and> found_prev q es n v d' \<and> di_direction d' = di_direction ?d"
        using pr pd x xn by (intro less.IH [of y]) simp_all
      then show ?thesis using eq Suc d2(2) by simp
    qed
  qed
  consider (invisible) "\<not> visible q (es ! x)"
    | (break) "visible q (es ! x)" "vt = kTypeValue" "e_user (es ! x) < di_saved_key d"
    | (deletion) "visible q (es ! x)" "vt = kTypeDeletion \<or> \<not> e_user (es ! x) < di_saved_key d" "pik_type (e_parsed (es ! x)) = kTypeDeletion"
    | (val) "visible q (es ! x)" "vt = kTypeDeletion \<or> \<not> e_user (es ! x) < di_saved_key d" "pik_type (e_parsed (es ! x)) = kTypeValue"
    by (cases vt; cases "pik_type (e_parsed (es ! x))") blast+
  then show ?case
  proof cases
    case invisible
    then show ?thesis using d1 par passed_invisible [OF pa1]
      by (intro cont [of vt d1]) (auto simp: prev_round_def visible_def)
  next
    case break
    then have "FindPrev_loop user_compare I vt d = Some (vt, d1)"
      using d1 par by (subst FindPrev_loop.simps) (simp add: prev_round_def visible_def)
    then show ?thesis using passed_break [OF d1(2) x] pa1 break assms(4) d1 by simp
  next
    case deletion
    note h = passed_hides [OF pa deletion(1,2) sorted assms(4)]
    have "\<not> shown q es x" using deletion(3) by (simp add: shown_def)
    with h have "\<forall>y. x \<le> y \<longrightarrow> y < n \<longrightarrow> \<not> shown q es y" by (metis le_eq_less_or_eq Suc_leI)
    then have "passed q es x n kTypeDeletion (ClearSavedValue (d1 \<lparr> di_saved_key := [] \<rparr>))" by (simp add: passed_def)
    then show ?thesis using d1 par deletion
      by (intro cont [of kTypeDeletion "ClearSavedValue (d1 \<lparr> di_saved_key := [] \<rparr>)"])
        (auto simp: prev_round_def visible_def ClearSavedValue_def)
  next
    case val
    note h = passed_hides [OF pa val(1,2) sorted assms(4)]
    let ?d = "d1 \<lparr> di_saved_key := e_user (es ! x), di_saved_value := snd (es ! x) \<rparr>"
    have "passed q es x n kTypeValue ?d"
      using h val xn by (auto simp: passed_def intro!: exI [of _ x])
    then show ?thesis using d1 par val cur
      by (intro cont [of kTypeValue ?d]) (auto simp: prev_round_def visible_def)
  qed
qed

lemma FindPrev_rep:
  assumes "di_at q d es p" "n = (if p < length es then p + 1 else 0)" "di_direction d = kReverse"
  shows "\<exists>d'. FindPrevUserEntry user_compare I d = Some d' \<and>
    (if rank q es n = 0 then di_fwd q d' es (length (shown_positions q es)) else di_rev q d' es (rank q es n - 1))"
proof -
  obtain vt d1 where l: "(if it_Valid I (di_iter d) then FindPrev_loop user_compare I kTypeDeletion d else Some (kTypeDeletion, d)) = Some (vt, d1)"
    and f: "found_prev q es n vt d1" "di_direction d1 = kReverse"
  proof (cases "p < length es")
    case True
    then show thesis
      using FindPrev_loop_found [OF assms(1) True, of n kTypeDeletion] assms that di_at_Valid [OF assms(1)]
      by (auto simp: passed_def)
  next
    case False
    then show thesis using that [of kTypeDeletion d] assms di_at_Valid [OF assms(1)] by (auto simp: found_prev_def)
  qed
  show ?thesis
  proof (cases vt)
    case kTypeDeletion
    then have "rank q es n = 0" using f(1) by (auto simp: found_prev_def filter_empty_conv)
    moreover obtain p' where "di_at q d1 es p'" using f(1) by (auto simp: found_prev_def)
    ultimately show ?thesis using l kTypeDeletion by (auto simp: FindPrevUserEntry_def ClearSavedValue_def di_fwd_def)
  next
    case kTypeValue
    then obtain p' g where g: "di_at q d1 es p'" "g < n" "shown q es g" "\<forall>y. g < y \<longrightarrow> y < n \<longrightarrow> \<not> shown q es y" "back_ok q es p' g"
      "di_saved_key d1 = e_user (es ! g)" "di_saved_value d1 = snd (es ! g)"
      using f(1) by (auto simp: found_prev_def)
    have gl: "g < length es" using g(2) assms(2) by (auto split: if_splits)
    have "rank q es n = rank q es (Suc g)" using g(2,4) by (intro filter_upt_gap) auto
    then have r: "rank q es n = Suc (rank q es g)" using g(3) by simp
    then have "di_rev q (d1 \<lparr> di_valid := True \<rparr>) es (rank q es n - 1)"
      using g rank_shown [OF gl g(3)] f(2) by (auto simp: di_rev_def)
    then show ?thesis using l kTypeValue r by (auto simp: FindPrevUserEntry_def)
  qed
qed

lemma length_user_view [simp]: "length (user_view q es) = length (shown_positions q es)"
  by (simp add: user_view_def)

lemma shown_position:
  assumes "i < length (shown_positions q es)"
  shows "shown_positions q es ! i < length es" "shown q es (shown_positions q es ! i)" "rank q es (shown_positions q es ! i) = i"
    "rank q es (Suc (shown_positions q es ! i)) = i + 1"
  using nth_filter_upt [of i "shown q es" "length es"] assms by (simp_all add: shown_positions_def)

lemma di_rep_cases:
  assumes "di_rep d us i"
  obtains q es p where "us = user_view q es" "i \<le> length (shown_positions q es)" "di_at q d es p" "di_fwd q d es i \<or> di_rev q d es i"
proof -
  obtain q es where e: "us = user_view q es" "i \<le> length (shown_positions q es)" "di_fwd q d es i \<or> di_rev q d es i"
    using assms by (auto simp: di_rep_def)
  moreover obtain p where "di_at q d es p" using e(3) by (auto simp: di_fwd_def di_rev_def)
  ultimately show thesis using that by blast
qed

lemma di_fwd_rep: "us = user_view q es \<Longrightarrow> i \<le> length (shown_positions q es) \<Longrightarrow> di_fwd q d es i \<Longrightarrow> di_rep d us i"
  by (auto simp: di_rep_def)

lemma di_at_moved:
  "di_at q d es p \<Longrightarrow> rep s es p' \<Longrightarrow> di_at q ((ClearSavedValue (d \<lparr> di_direction := dir \<rparr>)) \<lparr> di_iter := s \<rparr>) es p'"
  by (simp add: di_at_def ClearSavedValue_def)

lemma skips_none: "(\<And>z y. z < x \<Longrightarrow> x \<le> y \<Longrightarrow> y < length es \<Longrightarrow> visible q (es ! z) \<Longrightarrow> e_user (es ! z) < e_user (es ! y)) \<Longrightarrow> skips q es x 0 False k"
  unfolding skips_def by fastforce

text \<open>After a move of the iterator below: search forwards from where it stands.\<close>

lemma search_from:
  assumes "di_at q d es x" "di_direction d = kForward" "x < length es \<Longrightarrow> skips q es x n sk (di_saved_key d)" "n \<le> length es"
    and "x < length es \<or> \<not> di_valid d' \<and> di_at q d' es x \<and> di_direction d' = kForward" "x \<le> length es"
  shows "\<exists>d''. (if it_Valid I (di_iter d) then FindNextUserEntry user_compare I sk d else Some d') = Some d'' \<and>
    di_fwd q d'' es (rank q es (max x n))"
proof (cases "x < length es")
  case True
  then show ?thesis using FindNext_fwd [OF assms(1) True assms(2)] assms(3,4) di_at_Valid [OF assms(1)] by simp
next
  case False
  then have "max x n = length es" using assms(4,6) by simp
  then show ?thesis using False assms(5) rank_all [of q es] di_at_Valid [OF assms(1)] by (auto simp: di_fwd_def)
qed

lemma di_SeekToFirst_rep:
  assumes "di_rep d us i"
  shows "\<exists>d'. di_SeekToFirst user_compare I d = Some d' \<and> di_rep d' us 0"
proof -
  obtain q es p where a: "us = user_view q es" "di_at q d es p" using assms by (rule di_rep_cases)
  let ?d = "(ClearSavedValue (d \<lparr> di_direction := kForward \<rparr>)) \<lparr> di_iter := it_SeekToFirst I (di_iter d) \<rparr>"
  have at: "di_at q ?d es 0" using a(2) by (intro di_at_moved [of q d]) (auto simp: di_at_def intro: rep_SeekToFirst)
  have "\<exists>d''. (if it_Valid I (di_iter ?d) then FindNextUserEntry user_compare I False ?d else Some (?d \<lparr> di_valid := False \<rparr>)) = Some d'' \<and>
      di_fwd q d'' es (rank q es (max 0 0))"
    using at by (intro search_from) (auto simp: ClearSavedValue_def intro: skips_none)
  then show ?thesis using di_fwd_rep [OF a(1), of 0] by (auto simp: di_SeekToFirst_def Let_def ClearSavedValue_def)
qed

text \<open>The rank of the place where a user key would be is the number of smaller user keys shown.\<close>

lemma rank_mono: "m \<le> n \<Longrightarrow> rank q es m \<le> rank q es n"
  using upt_split [of m n] by simp

lemma rank_seek:
  assumes "x \<le> length es" "\<And>z. z < x \<Longrightarrow> visible q (es ! z) \<Longrightarrow> e_user (es ! z) < t"
    and "\<And>y. x \<le> y \<Longrightarrow> y < length es \<Longrightarrow> t \<le> e_user (es ! y)"
  shows "seek_pos user_compare (user_view q es) t = rank q es x"
proof -
  have rx: "rank q es x \<le> length (shown_positions q es)"
    using rank_mono [OF assms(1)] by (simp add: shown_positions_def)
  have "takeWhile (\<lambda>e. user_compare (fst e) t < 0) (user_view q es) = take (rank q es x) (user_view q es)"
  proof (rule takeWhile_eq_take_P_nth)
    fix j assume j: "j < rank q es x" "j < length (user_view q es)"
    then have "shown_positions q es ! j < x"
      using shown_position(3) [of j q es] rank_mono [of x "shown_positions q es ! j" q es] by (auto simp: not_le [symmetric])
    then show "user_compare (fst (user_view q es ! j)) t < 0"
      using assms(2) shown_position(2) [of j q es] j by (simp add: user_view_def shown_def)
  next
    assume j: "rank q es x < length (user_view q es)"
    have "\<not> shown_positions q es ! rank q es x < x"
    proof
      assume "shown_positions q es ! rank q es x < x"
      then have "rank q es (Suc (shown_positions q es ! rank q es x)) \<le> rank q es x" by (intro rank_mono) simp
      then show False using shown_position(4) [of "rank q es x" q es] j by simp
    qed
    then show "\<not> user_compare (fst (user_view q es ! rank q es x)) t < 0"
      using assms(3) shown_position(1) [of "rank q es x" q es] j by (simp add: user_view_def not_less)
  qed
  then show ?thesis using rx by (simp add: seek_pos_def)
qed

lemma di_Seek_rep:
  assumes "di_rep d us i" "valid (t @ replicate 8 0)"
  shows "\<exists>d'. di_Seek user_compare I d t = Some d' \<and> di_rep d' us (seek_pos user_compare us t)"
proof -
  obtain q es p where a: "us = user_view q es" "di_at q d es p" using assms(1) by (rule di_rep_cases)
  define k where "k = t @ EncodeFixed64 (PackSequenceAndType q kTypeValue)"
  have q: "q \<le> kMaxSequenceNumber" "di_sequence d = q" "parses es" using a(2) by (simp_all add: di_at_def)
  have vk: "valid k" using valid_tag [OF assms(2)] by (simp add: k_def)
  let ?d = "(ClearSavedValue (d \<lparr> di_direction := kForward \<rparr>)) \<lparr> di_saved_key := k, di_iter := it_Seek I (di_iter d) k \<rparr>"
  define x where "x = seek_pos internal_compare es k"
  have "rep (it_Seek I (di_iter d) k) es x" using rep_Seek [of "di_iter d" es p, OF _ vk] a(2) by (simp add: di_at_def x_def)
  then have at: "di_at q ?d es x" using a(2) by (simp add: di_at_def ClearSavedValue_def)
  have xl: "x \<le> length es" unfolding x_def by (rule seek_pos_le)
  have below: "internal_compare (fst (es ! y)) k < 0 \<longleftrightarrow> e_user (es ! y) < t \<or> (e_user (es ! y) = t \<and> \<not> visible q (es ! y))"
    if "y < length es" for y
    using before_snapshot [OF parsesD(1) [OF q(3) that] q(1), of t] by (simp add: k_def visible_def)
  have lo: "internal_compare (fst (es ! y)) k < 0" if "y < x" for y
    using that unfolding x_def seek_pos_def by (metis (mono_tags, lifting) nth_mem set_takeWhileD takeWhile_nth)
  have hi: "t \<le> e_user (es ! y)" if "x \<le> y" "y < length es" for y
  proof -
    have "\<not> internal_compare (fst (es ! x)) k < 0"
      using that unfolding x_def seek_pos_def by (intro nth_length_takeWhile) simp
    then have "t \<le> e_user (es ! x)" using below [of x] that by auto
    then show ?thesis using di_at_users [OF at, of x y] that by auto
  qed
  have vis: "e_user (es ! z) < t" if "z < x" "visible q (es ! z)" for z
    using below [of z] lo [OF that(1)] that xl by auto
  have "skips q es x 0 False k" using vis hi by (intro skips_none) (meson order_less_le_trans)
  then have "\<exists>d''. (if it_Valid I (di_iter ?d) then FindNextUserEntry user_compare I False ?d else Some (?d \<lparr> di_valid := False \<rparr>)) = Some d'' \<and>
      di_fwd q d'' es (rank q es (max x 0))"
    using at xl by (intro search_from) (auto simp: ClearSavedValue_def)
  moreover have "seek_pos user_compare us t = rank q es x" unfolding a(1) using xl vis hi by (rule rank_seek)
  moreover have "rank q es x \<le> length (shown_positions q es)" using rank_mono [OF xl] by (simp add: shown_positions_def)
  moreover have "di_Seek user_compare I d t =
      (if it_Valid I (di_iter ?d) then FindNextUserEntry user_compare I False ?d else Some (?d \<lparr> di_valid := False \<rparr>))"
    using q(2) by (simp add: di_Seek_def Let_def ClearSavedValue_def AppendInternalKey_eq kValueTypeForSeek_def k_def)
  ultimately show ?thesis using di_fwd_rep [OF a(1)] by (metis max_0R)
qed

lemma di_SeekToLast_rep:
  assumes "di_rep d us i"
  shows "\<exists>d'. di_SeekToLast user_compare I d = Some d' \<and> di_rep d' us (length us - 1)"
proof -
  obtain q es p where a: "us = user_view q es" "di_at q d es p" using assms by (rule di_rep_cases)
  let ?d = "(ClearSavedValue (d \<lparr> di_direction := kReverse \<rparr>)) \<lparr> di_iter := it_SeekToLast I (di_iter d) \<rparr>"
  have at: "di_at q ?d es (length es - 1)"
    using a(2) rep_SeekToLast [of "di_iter d" es p] by (intro di_at_moved [of q d es p]) (simp_all add: di_at_def)
  have n: "length es = (if length es - 1 < length es then length es - 1 + 1 else 0)" by (cases es) auto
  have "di_direction ?d = kReverse" by (simp add: ClearSavedValue_def)
  from FindPrev_rep [OF at n this] obtain d' where d': "FindPrevUserEntry user_compare I ?d = Some d'"
    "if rank q es (length es) = 0 then di_fwd q d' es (length (shown_positions q es)) else di_rev q d' es (rank q es (length es) - 1)"
    by blast
  have "di_rep d' us (length us - 1)"
    unfolding di_rep_def using d'(2) a(1) unfolding rank_all by (intro exI [of _ q] exI [of _ es]) (auto split: if_splits)
  with d'(1) show ?thesis by (simp add: di_SeekToLast_def Let_def ClearSavedValue_def)
qed

lemma back_ok_start:
  assumes "di_at q d es p" "back_ok q es p f" "f < length es" "shown q es f"
  shows "(if p < length es then p + 1 else 0) \<le> f" "rank q es (if p < length es then p + 1 else 0) = rank q es f"
proof -
  have "p < f" if "p < length es"
    using assms(2,3) di_at_users [OF assms(1), of f p] that by (auto simp: back_ok_def not_le [symmetric])
  then show le: "(if p < length es then p + 1 else 0) \<le> f" by auto
  show "rank q es (if p < length es then p + 1 else 0) = rank q es f"
    using assms(2) le by (intro filter_upt_gap [symmetric]) (auto simp: back_ok_def shown_def)
qed

lemma di_Next_fwd:
  assumes "di_fwd q d es i" "i < length (shown_positions q es)"
  shows "\<exists>d'. di_Next user_compare I d = Some d' \<and> di_fwd q d' es (i + 1)"
proof -
  define j where "j = shown_positions q es ! i"
  note s = shown_position [OF assms(2), folded j_def]
  have d: "di_direction d = kForward" "di_at q d es j" using assms by (auto simp: di_fwd_def j_def)
  let ?d = "d \<lparr> di_saved_key := e_user (es ! j), di_iter := it_Next I (di_iter d) \<rparr>"
  have at: "di_at q ?d es (j + 1)" using di_at_Next [OF d(2) s(1)] by (simp add: di_at_def)
  have at': "di_at q (?d \<lparr> di_valid := False, di_saved_key := [] \<rparr>) es (j + 1)" using at by (simp add: di_at_def)
  have "skips q es (j + 1) 0 True (e_user (es ! j))"
    using s(1,2) di_at_users [OF d(2)] by (intro skips_deletion) (auto simp: shown_def)
  then have "\<exists>d''. (if it_Valid I (di_iter ?d) then FindNextUserEntry user_compare I True ?d
      else Some (?d \<lparr> di_valid := False, di_saved_key := [] \<rparr>)) = Some d'' \<and> di_fwd q d'' es (rank q es (max (j + 1) 0))"
    using at at' d s(1) by (intro search_from) auto
  then show ?thesis using d s(4) di_at_current(4) [OF d(2) s(1)] by (simp add: di_Next_def Let_def split: if_splits)
qed

lemma di_Next_rev:
  assumes "di_rev q d es i"
  shows "\<exists>d'. di_Next user_compare I d = Some d' \<and> di_fwd q d' es (i + 1)"
proof -
  have i: "i < length (shown_positions q es)" using assms by (simp add: di_rev_def)
  define f where "f = shown_positions q es ! i"
  note s = shown_position [OF i, folded f_def]
  obtain p where d: "di_direction d = kReverse" "di_at q d es p" "back_ok q es p f" "di_saved_key d = e_user (es ! f)"
    using assms by (auto simp: di_rev_def f_def)
  define x where "x = (if p < length es then p + 1 else 0)"
  have xf: "x \<le> f" using back_ok_start(1) [OF d(2,3) s(1,2)] by (simp add: x_def)
  let ?d = "d \<lparr> di_direction := kForward,
      di_iter := (if \<not> it_Valid I (di_iter d) then it_SeekToFirst I (di_iter d) else it_Next I (di_iter d)) \<rparr>"
  have at: "di_at q ?d es x"
    using d(2) di_at_Valid [OF d(2)] rep_SeekToFirst [of "di_iter d" es p] rep_Next [of "di_iter d" es p] by (auto simp: di_at_def x_def)
  have inv: "\<not> visible q (es ! y)" if "x \<le> y" "y < f" for y using d(3) that by (simp add: back_ok_def x_def)
  note sorted = di_at_users [OF d(2)]
  have "skips q es x (f + 1) True (e_user (es ! f))"
  proof -
    have "e_user (es ! y) \<le> e_user (es ! f) \<longleftrightarrow> (\<exists>z<f + 1. visible q (es ! z) \<and> e_user (es ! z) = e_user (es ! y))"
      if y: "x \<le> y" "y < length es" "visible q (es ! y)" for y
    proof
      assume "e_user (es ! y) \<le> e_user (es ! f)"
      moreover have "f \<le> y" using inv y by (meson leI)
      ultimately have "e_user (es ! f) = e_user (es ! y)" using sorted [of f y] y(2) by simp
      then show "\<exists>z<f + 1. visible q (es ! z) \<and> e_user (es ! z) = e_user (es ! y)"
        using s(2) by (intro exI [of _ f]) (simp add: shown_def)
    next
      assume "\<exists>z<f + 1. visible q (es ! z) \<and> e_user (es ! z) = e_user (es ! y)"
      then show "e_user (es ! y) \<le> e_user (es ! f)" using sorted [of _ f] s(1) by (metis add.commute less_Suc_eq_le plus_1_eq_Suc)
    qed
    then show ?thesis using xf s(2) inv unfolding skips_def by (auto simp: max_absorb2 shown_def less_Suc_eq)
  qed
  then have "\<exists>d''. (if it_Valid I (di_iter ?d) then FindNextUserEntry user_compare I True ?d
      else Some (?d \<lparr> di_valid := False, di_saved_key := [] \<rparr>)) = Some d'' \<and> di_fwd q d'' es (rank q es (max x (f + 1)))"
    using at d(4) s(1) xf by (intro search_from) auto
  moreover have "max x (f + 1) = Suc f" using xf by simp
  ultimately show ?thesis using d(1) s(4) by (simp add: di_Next_def Let_def split: if_splits)
qed

lemma prev_outcome:
  assumes "if rank q es n = 0 then di_fwd q d' es (length (shown_positions q es)) else di_rev q d' es (rank q es n - 1)"
    and "rank q es n = i" "i < length (shown_positions q es)" "us = user_view q es"
  shows "di_rep d' us (if i = 0 then length us else i - 1)"
  using assms unfolding di_rep_def by (intro exI [of _ q] exI [of _ es]) (auto split: if_splits)

lemma di_Prev_fwd:
  assumes "di_fwd q d es i" "i < length (shown_positions q es)" "us = user_view q es"
  shows "\<exists>d'. di_Prev user_compare I d = Some d' \<and> di_rep d' us (if i = 0 then length us else i - 1)"
proof -
  define j where "j = shown_positions q es ! i"
  note s = shown_position [OF assms(2), folded j_def]
  have d: "di_direction d = kForward" "di_at q d es j" using assms(1,2) by (auto simp: di_fwd_def j_def)
  let ?u = "e_user (es ! j)" let ?g = "group_start es ?u"
  let ?d = "d \<lparr> di_saved_key := ?u \<rparr>"
  have g: "?g \<le> j" using group_start_le [OF s(1)] .
  have r: "rank q es ?g = i"
  proof -
    have "\<not> shown q es y" if y: "?g \<le> y" "y < j" for y
    proof
      assume "shown q es y"
      moreover have "e_user (es ! y) = ?u"
        using group_start_above [OF d(2) y(1)] di_at_users [OF d(2), of y j] y(2) s(1) by simp
      ultimately show False using s(2) y(2) by (auto simp: shown_def)
    qed
    then show ?thesis using filter_upt_gap [OF g] s(3) by simp
  qed
  have saved: "di_saved_key ?d = ?u" by simp
  obtain d1 where d1: "back_over_key user_compare I ?d = Some (0 < ?g, d1)" "di_direction d1 = kForward"
    "if 0 < ?g then di_at q d1 es (?g - 1) else \<not> di_valid d1 \<and> di_at q d1 es (length es)"
    using back_over_key_at [of q ?d es j, unfolded saved] d s(1) g by auto
  have eq: "di_Prev user_compare I d = (if 0 < ?g then FindPrevUserEntry user_compare I (d1 \<lparr> di_direction := kReverse \<rparr>) else Some d1)"
    using d d1(1) di_at_current(4) [OF d(2) s(1)] by (simp add: di_Prev_def)
  show ?thesis
  proof (cases "0 < ?g")
    case True
    have "?g - 1 < length es" using g s(1) by simp
    then have n: "?g = (if ?g - 1 < length es then ?g - 1 + 1 else 0)" using True by simp
    from FindPrev_rep [of q "d1 \<lparr> di_direction := kReverse \<rparr>" es "?g - 1", OF _ n] d1(3) True
    show ?thesis unfolding eq using prev_outcome [OF _ r assms(2,3)] by auto
  next
    case False
    then have "i = 0" using r by simp
    moreover have "di_fwd q d1 es (length (shown_positions q es))" using d1 False by (auto simp: di_fwd_def)
    ultimately show ?thesis unfolding eq using False di_fwd_rep [OF assms(3)] assms(3) by simp
  qed
qed

lemma di_Prev_rev:
  assumes "di_rev q d es i" "us = user_view q es"
  shows "\<exists>d'. di_Prev user_compare I d = Some d' \<and> di_rep d' us (if i = 0 then length us else i - 1)"
proof -
  have i: "i < length (shown_positions q es)" using assms(1) by (simp add: di_rev_def)
  note s = shown_position [OF i]
  obtain p where d: "di_direction d = kReverse" "di_at q d es p" "back_ok q es p (shown_positions q es ! i)"
    using assms(1) by (auto simp: di_rev_def)
  have "rank q es (if p < length es then p + 1 else 0) = i" using back_ok_start(2) [OF d(2,3) s(1,2)] s(3) by simp
  from FindPrev_rep [OF d(2) refl d(1)] prev_outcome [OF _ this i assms(2)] d(1) show ?thesis
    unfolding di_Prev_def by auto
qed

lemma di_observe:
  assumes "di_rep d us i"
  shows "di_valid d \<longleftrightarrow> i < length us" "di_get_status I d = OK"
    and "i < length us \<Longrightarrow> (di_key I d, di_value I d) = us ! i"
proof -
  obtain q es p where a: "us = user_view q es" "i \<le> length (shown_positions q es)" "di_at q d es p" "di_fwd q d es i \<or> di_rev q d es i"
    using assms by (rule di_rep_cases)
  show "di_valid d \<longleftrightarrow> i < length us" using a by (auto simp: di_fwd_def di_rev_def split: if_splits)
  show "di_get_status I d = OK" using a(3) rep_status by (auto simp: di_at_def di_get_status_def)
  assume i: "i < length us"
  then have i': "i < length (shown_positions q es)" using a(1) by simp
  have us: "us ! i = (e_user (es ! (shown_positions q es ! i)), snd (es ! (shown_positions q es ! i)))"
    using a(1) i' by (simp add: user_view_def)
  show "(di_key I d, di_value I d) = us ! i"
    using a(4)
  proof
    assume "di_fwd q d es i"
    then have f: "di_direction d = kForward" "di_at q d es (shown_positions q es ! i)" using i' by (auto simp: di_fwd_def)
    show ?thesis using f(1) di_at_current [OF f(2) shown_position(1) [OF i']] by (simp add: di_key_def di_value_def us)
  next
    assume "di_rev q d es i"
    then show ?thesis by (simp add: di_rev_def di_key_def di_value_def us)
  qed
qed

lemma user_view_keys:
  assumes "di_at q d es p" "e \<in> set (user_view q es)"
  shows "valid (fst e @ replicate 8 0)"
proof -
  obtain j where j: "j < length es" "fst e = e_user (es ! j)" using assms(2) by (auto simp: user_view_def shown_positions_def)
  have "valid (fst (es ! j))" "8 \<le> length (fst (es ! j))"
    using assms(1) j(1) rep_keys [of "di_iter d" es p "es ! j"] by (simp_all add: di_at_def)
  then have "valid (e_user (es ! j) @ drop (length (fst (es ! j)) - 8) (fst (es ! j)))"
    by (simp add: e_user_def ExtractUserKey_def)
  from valid_tag [OF this, of "replicate 8 0"] \<open>8 \<le> _\<close> j(2) show ?thesis by simp
qed

lemma NewDBIterator_rep:
  assumes "rep s es p" "parses es" "\<forall>e\<in>set es. 8 \<le> length (fst e)" "q \<le> kMaxSequenceNumber"
  shows "di_rep (NewDBIterator s q seed) (user_view q es) (length (user_view q es))"
proof -
  have "good_seed (Random_Next (Random_new seed))" using Random_Next_lcg by blast
  then have "di_at q (NewDBIterator s q seed) es p"
    using assms by (simp add: di_at_def NewDBIterator_def DBIter_new_def RandomCompactionPeriod_def Random_Uniform_def Let_def)
  then have "di_fwd q (NewDBIterator s q seed) es (length (shown_positions q es))"
    by (auto simp: di_fwd_def NewDBIterator_def DBIter_new_def RandomCompactionPeriod_def Random_Uniform_def Let_def)
  then show ?thesis using di_fwd_rep by simp
qed

end

sublocale db_iter \<subseteq> di: iterator user_compare "\<lambda>u. valid (u @ replicate 8 0)" "DBIterator user_compare I" di_rep
proof (unfold_locales, goal_cases)
  case (1 a) then show ?case by simp
next
  case (2 a b) then show ?case by (auto simp: BytewiseComparator_def Slice_compare_eq)
next
  case (3 a b c) then show ?case by simp
next
  case (4 s es i) then show ?case by (auto simp: di_rep_def)
next
  case (5 d us i) then show ?case using user_view_sorted [OF di_at_sorted] by (metis di_rep_cases)
next
  case (6 d us i e) then show ?case using user_view_keys by (metis di_rep_cases)
next
  case (7 d us i) then show ?case using di_observe(1) by (simp add: DBIterator_def)
next
  case (8 d us i) then show ?case using di_observe(3) by (simp add: DBIterator_def)
next
  case (9 d us i) then show ?case using di_observe(2) by (simp add: DBIterator_def)
next
  case (10 d us i) then show ?case using di_SeekToFirst_rep by (fastforce simp: DBIterator_def)
next
  case (11 d us i) then show ?case using di_SeekToLast_rep [of d us i] by (auto simp: DBIterator_def)
next
  case (12 d us i t) then show ?case using di_Seek_rep [of d us i t] by (auto simp: DBIterator_def)
next
  case (13 d us i)
  then obtain q es where a: "us = user_view q es" "di_fwd q d es i \<or> di_rev q d es i" by (auto simp: di_rep_def)
  with 13(2) have "\<exists>d'. di_Next user_compare I d = Some d' \<and> di_fwd q d' es (i + 1)"
    using di_Next_fwd [of q d es i] di_Next_rev [of q d es i] by auto
  then show ?case using di_fwd_rep [OF a(1), of "i + 1"] 13(2) a(1) by (auto simp: DBIterator_def)
next
  case (14 d us i)
  then obtain q es where a: "us = user_view q es" "di_fwd q d es i \<or> di_rev q d es i" by (auto simp: di_rep_def)
  with 14(2) have "\<exists>d'. di_Prev user_compare I d = Some d' \<and> di_rep d' us (if i = 0 then length us else i - 1)"
    using di_Prev_fwd [of q d es i us] di_Prev_rev [of q d es i us] by auto
  then show ?case by (auto simp: DBIterator_def)
qed

context db_iter
begin

lemma di_iterator: "iterator user_compare (\<lambda>u. valid (u @ replicate 8 0)) (DBIterator user_compare I) di_rep"
  by (rule di.iterator_axioms)

end

interpretation mem_db_iter: db_iter small_ikey "MemTableIterator BytewiseComparator m" "mit_rep m" for m
  by unfold_locales (simp add: small_ikey_def)

section \<open>Over the memtable\<close>

text \<open>What a user should see at \<open>q\<close> after a history: the keys whose newest visible addition is a value, in order.\<close>

definition live_entry :: "u64 \<Rightarrow> mem_op list \<Rightarrow> bytes \<Rightarrow> entry option" where
  "live_entry q ops u =
     (case newest u q ops of
        None \<Rightarrow> None
      | Some op \<Rightarrow> (case op_type op of kTypeValue \<Rightarrow> Some (u, op_value op) | kTypeDeletion \<Rightarrow> None))"

definition live_entries :: "u64 \<Rightarrow> mem_op list \<Rightarrow> entry list" where
  "live_entries q ops = List.map_filter (live_entry q ops) (sort (remdups (map op_key ops)))"

lemma op_kv_facts:
  assumes "op_ok op"
  shows "ParseInternalKey (fst (op_kv op)) = Some \<lparr> pik_user_key = op_key op, pik_sequence = op_seq op, pik_type = op_type op \<rparr>"
    "e_parsed (op_kv op) = \<lparr> pik_user_key = op_key op, pik_sequence = op_seq op, pik_type = op_type op \<rparr>"
    "e_user (op_kv op) = op_key op" "snd (op_kv op) = op_value op" "ikey_of (fst (op_kv op)) = op_ikey op"
proof -
  show p: "ParseInternalKey (fst (op_kv op)) = Some \<lparr> pik_user_key = op_key op, pik_sequence = op_seq op, pik_type = op_type op \<rparr>"
    using ParseInternalKey_AppendInternalKey [of "\<lparr> pik_user_key = op_key op, pik_sequence = op_seq op, pik_type = op_type op \<rparr>"] assms
    by (simp add: AppendInternalKey_eq op_kv_def op_ok_def)
  then show "e_parsed (op_kv op) = \<lparr> pik_user_key = op_key op, pik_sequence = op_seq op, pik_type = op_type op \<rparr>"
    by (simp add: e_parsed_def)
  show "e_user (op_kv op) = op_key op" "snd (op_kv op) = op_value op" "ikey_of (fst (op_kv op)) = op_ikey op"
    by (simp_all add: e_user_def op_kv_def ikey_of_def op_ikey_def)
qed

lemma ikey_order_seq:
  assumes "op_ok a" "op_ok b" "op_key a = op_key b" "op_ikey a < op_ikey b"
  shows "op_seq b \<le> op_seq a"
  using assms Pack_le_seq [of "op_seq b" "op_seq a" "op_type b" "op_type a"]
  by (auto simp: less_ikey_def op_ikey_def op_ok_def)

lemma shown_newest:
  assumes set: "set es = op_kv ` set ops" and sorted: "sorted_wrt (\<lambda>a b. internal_compare (fst a) (fst b) < 0) es"
    and ok: "\<forall>op\<in>set ops. op_ok op" and d: "distinct (map op_seq ops)"
    and j: "j < length es" "op \<in> set ops" "es ! j = op_kv op"
  shows "shown q es j \<longleftrightarrow> newest (op_key op) q ops = Some op \<and> op_type op = kTypeValue"
proof -
  note f = op_kv_facts [OF bspec [OF ok]]
  have less: "ikey_of (fst (es ! i)) < ikey_of (fst (es ! i'))" if "i < i'" "i' < length es" for i i'
    using sorted that by (simp add: sorted_wrt_iff_nth_less internal_less)
  have eq: "a = b" if "a \<in> set ops" "b \<in> set ops" "op_seq a = op_seq b" for a b
    using d that by (auto simp: distinct_map inj_on_def)
  show ?thesis
  proof
    assume s: "shown q es j"
    then have o: "op_seq op \<le> q" "op_type op = kTypeValue" using f [OF j(2)] j(3) by (auto simp: shown_def visible_def)
    then obtain b where b: "newest (op_key op) q ops = Some b" using newest_None [OF _ j(2)] by fastforce
    note nb = newest_Some [OF b]
    then obtain i where i: "i < length es" "es ! i = op_kv b" using set by (metis imageI in_set_conv_nth)
    have "\<not> i < j" using s i nb f [of b] f [OF j(2)] j(3) by (auto simp: shown_def visible_def)
    moreover have "\<not> j < i"
    proof
      assume "j < i"
      then have "op_ikey op < op_ikey b" using less [of j i] i j(3) f(5) [of b] f(5) [OF j(2)] nb by simp
      then have "op_seq b \<le> op_seq op" using ikey_order_seq [of op b] ok nb j(2) by auto
      then have "b = op" using nb o j(2) by (intro eq) (auto intro: order.antisym)
      then show False using \<open>op_ikey op < op_ikey b\<close> by simp
    qed
    ultimately have "i = j" by simp
    then have "ikey_of (fst (op_kv b)) = ikey_of (fst (op_kv op))" using i j by simp
    then have "op_ikey b = op_ikey op" using f [of b] f [OF j(2)] nb by simp
    then have "op_seq b = op_seq op" using ok nb j(2) Pack_seq by (metis ikey.inject op_ikey_def op_ok_def)
    then show "newest (op_key op) q ops = Some op \<and> op_type op = kTypeValue" using eq nb j(2) b o by auto
  next
    assume n: "newest (op_key op) q ops = Some op \<and> op_type op = kTypeValue"
    note nb = newest_Some [OF conjunct1 [OF n]]
    have "e_user (es ! i) \<noteq> e_user (es ! j)" if i: "i < j" "visible q (es ! i)" for i
    proof
      assume u: "e_user (es ! i) = e_user (es ! j)"
      have "es ! i \<in> op_kv ` set ops" using i(1) j(1) unfolding set [symmetric] by simp
      then obtain a where a: "a \<in> set ops" "es ! i = op_kv a" by blast
      then have k: "op_key a = op_key op" "op_seq a \<le> q" using u i(2) f [OF a(1)] f [OF j(2)] j(3) by (auto simp: visible_def)
      have lt: "op_ikey a < op_ikey op" using less [OF i(1) j(1)] a(2) j(3) f(5) [OF a(1)] f(5) [OF j(2)] by simp
      then have "op_seq op \<le> op_seq a" using ikey_order_seq [of a op] ok a(1) j(2) k by auto
      moreover have "op_seq a \<le> op_seq op" using nb a(1) k by auto
      ultimately have "a = op" using a(1) j(2) by (intro eq) auto
      then show False using lt by simp
    qed
    then show "shown q es j" using n nb f [OF j(2)] j(3) by (auto simp: shown_def visible_def)
  qed
qed

lemma mem_rep_new: "mem_rep MemTable_new []"
  using SkipList_new_inv by (simp add: mem_rep_def MemTable_new_def)

lemma mem_parses:
  assumes "mem_rep m ops" "\<forall>op\<in>set ops. op_ok op"
  shows "parses (mem_entries m)" "mit_rep m MemTable_NewIterator (mem_entries m) (length (mem_entries m))"
proof -
  note e = mem_entries_rep [OF assms]
  have "\<exists>op. op_ok op \<and> x = op_kv op" if "x \<in> set (mem_entries m)" for x using e assms(2) that by auto
  then show "parses (mem_entries m)" using op_kv_facts(1) by (fastforce simp: parses_def list_all_iff)
  show "mit_rep m MemTable_NewIterator (mem_entries m) (length (mem_entries m))"
    using mem_iterator_start [of m] assms(1) e by (simp add: mem_rep_def)
qed

lemma live_entry_set:
  "x \<in> set (live_entries q ops) \<longleftrightarrow>
    (\<exists>op\<in>set ops. newest (op_key op) q ops = Some op \<and> op_type op = kTypeValue \<and> x = (op_key op, op_value op))"
proof -
  have "x \<in> set (live_entries q ops) \<longleftrightarrow> (\<exists>u\<in>op_key ` set ops. live_entry q ops u = Some x)"
    unfolding live_entries_def map_filter_def by (force simp: image_iff)
  also have "\<dots> \<longleftrightarrow> (\<exists>op\<in>set ops. newest (op_key op) q ops = Some op \<and> op_type op = kTypeValue \<and> x = (op_key op, op_value op))"
  proof
    assume "\<exists>u\<in>op_key ` set ops. live_entry q ops u = Some x"
    then obtain u where "live_entry q ops u = Some x" by blast
    then obtain op where o: "newest u q ops = Some op" "op_type op = kTypeValue" "x = (u, op_value op)"
      by (cases "newest u q ops") (auto simp: live_entry_def split: ValueType.splits)
    with newest_Some [OF o(1)] show "\<exists>op\<in>set ops. newest (op_key op) q ops = Some op \<and> op_type op = kTypeValue \<and> x = (op_key op, op_value op)"
      by (intro bexI [of _ op]) auto
  qed (force simp: live_entry_def)
  finally show ?thesis .
qed

interpretation user_keys: key_order user_compare "\<lambda>_. True"
  using bytewise.compare_order_axioms by (simp add: key_order_def)

lemma live_entries_sorted: "entries_sorted user_compare (\<lambda>_. True) (live_entries q ops)"
proof -
  let ?us = "filter (\<lambda>u. live_entry q ops u \<noteq> None) (sort (remdups (map op_key ops)))"
  have "sorted_wrt (<) ?us" by (intro sorted_wrt_filter) (simp add: strict_sorted_iff)
  moreover have "fst (the (live_entry q ops u)) = u" if "live_entry q ops u \<noteq> None" for u
    using that by (auto simp: live_entry_def split: option.splits ValueType.splits)
  ultimately have "sorted_wrt (\<lambda>a b. fst (the (live_entry q ops a)) < fst (the (live_entry q ops b))) ?us"
    by (elim sorted_wrt_mono_rel [rotated]) simp
  then show ?thesis by (simp add: entries_sorted_def live_entries_def map_filter_def sorted_wrt_map)
qed

lemma user_view_live:
  assumes rep: "mem_rep m ops" and ok: "\<forall>op\<in>set ops. op_ok op" and d: "distinct (map op_seq ops)"
  shows "user_view q (mem_entries m) = live_entries q ops"
proof -
  let ?es = "mem_entries m"
  have inv: "skip_inv (KeyComparator BytewiseComparator) mem_valid (mt_table m)" using rep by (simp add: mem_rep_def)
  note s = mem_entries_sorted [OF inv]
  have set: "set ?es = op_kv ` set ops" and small: "\<forall>e\<in>set ?es. small_ikey (fst e)" using mem_entries_rep [OF rep ok] by blast+
  note shown = shown_newest [OF set s ok d]
  have memb: "x \<in> set (user_view q ?es) \<longleftrightarrow> (\<exists>op\<in>set ops. newest (op_key op) q ops = Some op \<and> op_type op = kTypeValue \<and> x = (op_key op, op_value op))" for x
  proof
    assume "x \<in> set (user_view q ?es)"
    then obtain j where j: "j < length ?es" "shown q ?es j" "x = (e_user (?es ! j), snd (?es ! j))"
      by (auto simp: user_view_def shown_positions_def)
    then obtain op where op: "op \<in> set ops" "?es ! j = op_kv op" using set nth_mem by (metis imageE)
    then show "\<exists>op\<in>set ops. newest (op_key op) q ops = Some op \<and> op_type op = kTypeValue \<and> x = (op_key op, op_value op)"
      using shown [OF j(1) op] j(2,3) op_kv_facts [of op] ok by (intro bexI [of _ op]) auto
  next
    assume "\<exists>op\<in>set ops. newest (op_key op) q ops = Some op \<and> op_type op = kTypeValue \<and> x = (op_key op, op_value op)"
    then obtain op where op: "op \<in> set ops" "newest (op_key op) q ops = Some op" "op_type op = kTypeValue" "x = (op_key op, op_value op)" by blast
    then obtain j where j: "j < length ?es" "?es ! j = op_kv op" using set by (metis imageI in_set_conv_nth)
    then have "shown q ?es j" using shown [OF j(1) op(1) j(2)] op by simp
    then show "x \<in> set (user_view q ?es)"
      using j op op_kv_facts [of op] ok by (auto simp: user_view_def shown_positions_def intro!: image_eqI [of _ _ j])
  qed
  have "set (user_view q ?es) = set (live_entries q ops)"
    using memb live_entry_set [of _ q ops] by (intro set_eqI) blast
  moreover have "entries_sorted user_compare (\<lambda>_. True) (user_view q ?es)"
    using user_view_sorted [OF s] by (simp add: entries_sorted_def)
  ultimately show ?thesis using live_entries_sorted by (intro user_keys.entries_sorted_unique)
qed

section \<open>Properties\<close>

text \<open>
  C5: Over any iterator of well-formed internal keys, and for any snapshot, the user's iterator
  behaves under every sequence of moves, changes of direction included, as a cursor in the list of
  visible user entries: of each user key the newest entry the snapshot can see, unless that is a
  deletion. In particular all its loops return.
\<close>

theorem db_iteration:
  assumes "iterator internal_compare small_ikey I rep" "rep s es p" "parses es" "q \<le> kMaxSequenceNumber"
    and "moves_ok (\<lambda>u. length u + 8 < 2 ^ 32) ms"
  shows "it_look (DBIterator user_compare I) (fold (it_move (DBIterator user_compare I)) (MoveToFirst # ms) (NewDBIterator s q seed)) =
    cursor_look (user_view q es) (fold (cursor_move user_compare (user_view q es)) ms 0)"
proof -
  have l: "db_iter small_ikey I rep"
    using assms(1) by (simp add: db_iter_def db_iter_axioms_def small_ikey_def)
  have "\<forall>e\<in>set es. 8 \<le> length (fst e)"
    using iterator.rep_keys [OF assms(1,2)] by (simp add: small_ikey_def)
  note r = db_iter.NewDBIterator_rep [OF l assms(2,3) this assms(4), of seed]
  have "moves_ok (\<lambda>u. small_ikey (u @ replicate 8 0)) (MoveToFirst # ms)"
    using assms(5) by (simp add: moves_ok_def small_ikey_def)
  from iterator.look_moves [OF db_iter.di_iterator [OF l] r this] show ?thesis by simp
qed

definition three_ops :: "mem_op list" where
  "three_ops = [\<lparr> op_seq = 1, op_type = kTypeValue, op_key = [107], op_value = [1] \<rparr>,
     \<lparr> op_seq = 2, op_type = kTypeDeletion, op_key = [107], op_value = [] \<rparr>,
     \<lparr> op_seq = 3, op_type = kTypeValue, op_key = [108], op_value = [9] \<rparr>]"

lemma three_ops_ok: "\<forall>op\<in>set three_ops. op_ok op" "distinct (map op_seq three_ops)"
  by (simp_all add: three_ops_def op_ok_def kMaxSequenceNumber_val)

lemma three_ops_live: "live_entries 1 (rev three_ops) = [([107], [1])]" "live_entries 3 (rev three_ops) = [([108], [9])]"
  by (simp_all add: live_entries_def live_entry_def three_ops_def word_le_nat_alt word_less_nat_alt)

theorem db_iteration_witness:
  "\<exists>m. mem_run MemTable_new three_ops = Some m \<and>
    it_look (DBIterator user_compare (MemTableIterator BytewiseComparator m))
      (fold (it_move (DBIterator user_compare (MemTableIterator BytewiseComparator m))) [MoveToFirst, MoveTo [0], MoveToLast]
        (NewDBIterator MemTable_NewIterator 1 301)) = Some ([107], [1])"
proof -
  obtain m where m: "mem_run MemTable_new three_ops = Some m" "mem_rep m (rev three_ops)"
    using mem_run_rep [OF mem_rep_new, of three_ops] three_ops_ok by auto
  have ok: "\<forall>op\<in>set (rev three_ops). op_ok op" "distinct (map op_seq (rev three_ops))"
    using three_ops_ok by (simp_all add: rev_map [symmetric])
  note p = mem_parses [OF m(2) ok(1)]
  from db_iteration [OF mem_iterator.iterator_axioms p(2,1), of 1 "[MoveTo [0], MoveToLast]" 301]
  show ?thesis using m(1) user_view_live [OF m(2) ok, of 1]
    by (simp add: three_ops_live moves_ok_def cursor_look_def kMaxSequenceNumber_val)
qed

text \<open>
  After any history of additions with different sequence numbers, iterating over the memtable
  at a snapshot shows exactly the live keys of the history in order, each with its newest visible
  value, under every sequence of moves.
\<close>

lemma memtable_iteration:
  assumes "\<forall>op\<in>set ops. op_ok op" "distinct (map op_seq ops)" "q \<le> kMaxSequenceNumber"
    and "moves_ok (\<lambda>u. length u + 8 < 2 ^ 32) ms"
  shows "\<exists>m. mem_run MemTable_new ops = Some m \<and>
    it_look (DBIterator user_compare (MemTableIterator BytewiseComparator m))
      (fold (it_move (DBIterator user_compare (MemTableIterator BytewiseComparator m))) (MoveToFirst # ms)
        (NewDBIterator MemTable_NewIterator q seed)) =
    cursor_look (live_entries q (rev ops)) (fold (cursor_move user_compare (live_entries q (rev ops))) ms 0)"
proof -
  obtain m where m: "mem_run MemTable_new ops = Some m" "mem_rep m (rev ops)"
    using mem_run_rep [OF mem_rep_new, of ops] assms(1,2) by auto
  have ok: "\<forall>op\<in>set (rev ops). op_ok op" "distinct (map op_seq (rev ops))" using assms(1,2) by (simp_all add: rev_map [symmetric])
  note e = mem_entries_rep [OF m(2) ok(1)]
  note p = mem_parses [OF m(2) ok(1)]
  have "moves_ok (\<lambda>u. small_ikey (u @ replicate 8 0)) (MoveToFirst # ms)"
    using assms(4) by (simp add: moves_ok_def small_ikey_def)
  moreover have "\<forall>x\<in>set (mem_entries m). 8 \<le> length (fst x)" using e by (simp add: small_ikey_def)
  ultimately show ?thesis
    using mem_db_iter.di.look_moves [OF mem_db_iter.NewDBIterator_rep [OF p(2,1) _ assms(3)], of "MoveToFirst # ms"] m user_view_live [OF m(2) ok] by simp
qed

end
