(* ===== verification/VersionEdit.thy ===== *)
theory VersionEdit
  imports DBFormat "HOL-Library.Product_Lexorder"
begin

text \<open>
  Version edits, \<open>kv/db/version_edit.cpp\<close> and \<open>kv/db/version_edit.h\<close>: the changes to the set
  of files that the manifest records. The \<open>std::set\<close> of deleted files is a strictly sorted list.
  \<open>DecodeFrom\<close> works on an existing edit, whose compaction pointers \<open>Clear\<close> leaves in place.
\<close>

section \<open>Edits\<close>

record FileMetaData =
  fm_refs :: int
  fm_allowed_seeks :: int
  fm_number :: u64
  fm_file_size :: u64
  fm_smallest :: InternalKey
  fm_largest :: InternalKey

record VersionEdit =
  ve_comparator :: bytes
  ve_log_number :: u64
  ve_prev_log_number :: u64
  ve_next_file_number :: u64
  ve_last_sequence :: u64
  ve_has_comparator :: bool
  ve_has_log_number :: bool
  ve_has_prev_log_number :: bool
  ve_has_next_file_number :: bool
  ve_has_last_sequence :: bool
  ve_compact_pointers :: "(nat \<times> InternalKey) list"
  ve_deleted_files :: "(nat \<times> u64) list"
  ve_new_files :: "(nat \<times> FileMetaData) list"

fun set_insert :: "'a::linorder \<Rightarrow> 'a list \<Rightarrow> 'a list" where
  "set_insert x [] = [x]"
| "set_insert x (y # ys) = (if x < y then x # y # ys else if x = y then y # ys else y # set_insert x ys)"

definition FileMetaData_of :: "u64 \<Rightarrow> u64 \<Rightarrow> InternalKey \<Rightarrow> InternalKey \<Rightarrow> FileMetaData" where
  "FileMetaData_of number file_size smallest largest =
     \<lparr> fm_refs = 0, fm_allowed_seeks = 2 ^ 30, fm_number = number, fm_file_size = file_size,
       fm_smallest = smallest, fm_largest = largest \<rparr>"

definition VersionEdit_Clear :: "VersionEdit \<Rightarrow> VersionEdit" where
  "VersionEdit_Clear e =
     e \<lparr> ve_comparator := [], ve_log_number := 0, ve_prev_log_number := 0, ve_last_sequence := 0,
         ve_next_file_number := 0, ve_has_comparator := False, ve_has_log_number := False,
         ve_has_prev_log_number := False, ve_has_next_file_number := False, ve_has_last_sequence := False,
         ve_deleted_files := [], ve_new_files := [] \<rparr>"

definition VersionEdit_new :: VersionEdit where
  "VersionEdit_new =
     \<lparr> ve_comparator = [], ve_log_number = 0, ve_prev_log_number = 0, ve_next_file_number = 0,
       ve_last_sequence = 0, ve_has_comparator = False, ve_has_log_number = False,
       ve_has_prev_log_number = False, ve_has_next_file_number = False, ve_has_last_sequence = False,
       ve_compact_pointers = [], ve_deleted_files = [], ve_new_files = [] \<rparr>"

definition SetComparatorName :: "VersionEdit \<Rightarrow> bytes \<Rightarrow> VersionEdit" where
  "SetComparatorName e name = e \<lparr> ve_has_comparator := True, ve_comparator := name \<rparr>"

definition SetLogNumber :: "VersionEdit \<Rightarrow> u64 \<Rightarrow> VersionEdit" where
  "SetLogNumber e num = e \<lparr> ve_has_log_number := True, ve_log_number := num \<rparr>"

definition SetPrevLogNumber :: "VersionEdit \<Rightarrow> u64 \<Rightarrow> VersionEdit" where
  "SetPrevLogNumber e num = e \<lparr> ve_has_prev_log_number := True, ve_prev_log_number := num \<rparr>"

definition SetNextFile :: "VersionEdit \<Rightarrow> u64 \<Rightarrow> VersionEdit" where
  "SetNextFile e num = e \<lparr> ve_has_next_file_number := True, ve_next_file_number := num \<rparr>"

definition SetLastSequence :: "VersionEdit \<Rightarrow> u64 \<Rightarrow> VersionEdit" where
  "SetLastSequence e s = e \<lparr> ve_has_last_sequence := True, ve_last_sequence := s \<rparr>"

definition SetCompactPointer :: "VersionEdit \<Rightarrow> nat \<Rightarrow> InternalKey \<Rightarrow> VersionEdit" where
  "SetCompactPointer e level key = e \<lparr> ve_compact_pointers := ve_compact_pointers e @ [(level, key)] \<rparr>"

definition AddFile ::
  "VersionEdit \<Rightarrow> nat \<Rightarrow> u64 \<Rightarrow> u64 \<Rightarrow> InternalKey \<Rightarrow> InternalKey \<Rightarrow> VersionEdit" where
  "AddFile e level num file_size smallest largest =
     e \<lparr> ve_new_files := ve_new_files e @ [(level, FileMetaData_of num file_size smallest largest)] \<rparr>"

definition RemoveFile :: "VersionEdit \<Rightarrow> nat \<Rightarrow> u64 \<Rightarrow> VersionEdit" where
  "RemoveFile e level num = e \<lparr> ve_deleted_files := set_insert (level, num) (ve_deleted_files e) \<rparr>"

section \<open>Encoding\<close>

definition kComparator :: u32 where "kComparator = 1"
definition kLogNumber :: u32 where "kLogNumber = 2"
definition kNextFileNumber :: u32 where "kNextFileNumber = 3"
definition kLastSequence :: u32 where "kLastSequence = 4"
definition kCompactPointer :: u32 where "kCompactPointer = 5"
definition kDeletedFile :: u32 where "kDeletedFile = 6"
definition kNewFile :: u32 where "kNewFile = 7"
definition kPrevLogNumber :: u32 where "kPrevLogNumber = 9"

lemmas tags = kComparator_def kLogNumber_def kNextFileNumber_def kLastSequence_def kCompactPointer_def
  kDeletedFile_def kNewFile_def kPrevLogNumber_def

definition enc_compact_pointer :: "bytes \<Rightarrow> nat \<times> InternalKey \<Rightarrow> bytes" where
  "enc_compact_pointer dst p =
     (let dst = PutVarint32 dst kCompactPointer;
          dst = PutVarint32 dst (word_of_nat (fst p))
      in PutLengthPrefixedSlice dst (InternalKey_Encode (snd p)))"

definition enc_deleted_file :: "bytes \<Rightarrow> nat \<times> u64 \<Rightarrow> bytes" where
  "enc_deleted_file dst p =
     (let dst = PutVarint32 dst kDeletedFile;
          dst = PutVarint32 dst (word_of_nat (fst p))
      in PutVarint64 dst (snd p))"

definition enc_new_file :: "bytes \<Rightarrow> nat \<times> FileMetaData \<Rightarrow> bytes" where
  "enc_new_file dst p =
     (let f = snd p;
          dst = PutVarint32 dst kNewFile;
          dst = PutVarint32 dst (word_of_nat (fst p));
          dst = PutVarint64 dst (fm_number f);
          dst = PutVarint64 dst (fm_file_size f);
          dst = PutLengthPrefixedSlice dst (InternalKey_Encode (fm_smallest f))
      in PutLengthPrefixedSlice dst (InternalKey_Encode (fm_largest f)))"

definition VersionEdit_EncodeTo :: "VersionEdit \<Rightarrow> bytes \<Rightarrow> bytes" where
  "VersionEdit_EncodeTo e dst =
     (let dst = (if ve_has_comparator e
                 then PutLengthPrefixedSlice (PutVarint32 dst kComparator) (ve_comparator e) else dst);
          dst = (if ve_has_log_number e then PutVarint64 (PutVarint32 dst kLogNumber) (ve_log_number e) else dst);
          dst = (if ve_has_prev_log_number e
                 then PutVarint64 (PutVarint32 dst kPrevLogNumber) (ve_prev_log_number e) else dst);
          dst = (if ve_has_next_file_number e
                 then PutVarint64 (PutVarint32 dst kNextFileNumber) (ve_next_file_number e) else dst);
          dst = (if ve_has_last_sequence e
                 then PutVarint64 (PutVarint32 dst kLastSequence) (ve_last_sequence e) else dst);
          dst = foldl enc_compact_pointer dst (ve_compact_pointers e);
          dst = foldl enc_deleted_file dst (ve_deleted_files e)
      in foldl enc_new_file dst (ve_new_files e))"

section \<open>Decoding\<close>

definition GetInternalKey :: "bytes \<Rightarrow> (InternalKey \<times> bytes) option" where
  "GetInternalKey input =
     (case GetLengthPrefixedSlice input of
        None \<Rightarrow> None
      | Some (s, rest) \<Rightarrow> (case InternalKey_DecodeFrom s of (k, ok) \<Rightarrow> if ok then Some (k, rest) else None))"

definition GetLevel :: "bytes \<Rightarrow> (nat \<times> bytes) option" where
  "GetLevel input =
     (case GetVarint32 input of
        None \<Rightarrow> None
      | Some (v, rest) \<Rightarrow> if v < word_of_nat kNumLevels then Some (unat v, rest) else None)"

text \<open>The cases of the switch: \<open>Inl\<close> is the error message.\<close>

definition ve_Decode_field :: "u32 \<Rightarrow> bytes \<Rightarrow> VersionEdit \<Rightarrow> string + bytes \<times> VersionEdit" where
  "ve_Decode_field tag input e =
     (if tag = kComparator
      then (case GetLengthPrefixedSlice input of
              Some (s, rest) \<Rightarrow> Inr (rest, e \<lparr> ve_comparator := s, ve_has_comparator := True \<rparr>)
            | None \<Rightarrow> Inl ''comparator name'')
      else if tag = kLogNumber
      then (case GetVarint64 input of
              Some (n, rest) \<Rightarrow> Inr (rest, e \<lparr> ve_log_number := n, ve_has_log_number := True \<rparr>)
            | None \<Rightarrow> Inl ''log number'')
      else if tag = kPrevLogNumber
      then (case GetVarint64 input of
              Some (n, rest) \<Rightarrow> Inr (rest, e \<lparr> ve_prev_log_number := n, ve_has_prev_log_number := True \<rparr>)
            | None \<Rightarrow> Inl ''previous log number'')
      else if tag = kNextFileNumber
      then (case GetVarint64 input of
              Some (n, rest) \<Rightarrow> Inr (rest, e \<lparr> ve_next_file_number := n, ve_has_next_file_number := True \<rparr>)
            | None \<Rightarrow> Inl ''next file number'')
      else if tag = kLastSequence
      then (case GetVarint64 input of
              Some (n, rest) \<Rightarrow> Inr (rest, e \<lparr> ve_last_sequence := n, ve_has_last_sequence := True \<rparr>)
            | None \<Rightarrow> Inl ''last sequence number'')
      else if tag = kCompactPointer
      then (case dec_pair GetLevel GetInternalKey input of
              Some ((level, key), rest) \<Rightarrow>
                Inr (rest, e \<lparr> ve_compact_pointers := ve_compact_pointers e @ [(level, key)] \<rparr>)
            | None \<Rightarrow> Inl ''compaction pointer'')
      else if tag = kDeletedFile
      then (case dec_pair GetLevel GetVarint64 input of
              Some ((level, num), rest) \<Rightarrow>
                Inr (rest, e \<lparr> ve_deleted_files := set_insert (level, num) (ve_deleted_files e) \<rparr>)
            | None \<Rightarrow> Inl ''deleted file'')
      else if tag = kNewFile
      then (case dec_pair GetLevel (dec_pair GetVarint64 (dec_pair GetVarint64 (dec_pair GetInternalKey GetInternalKey))) input of
              Some ((level, num, file_size, smallest, largest), rest) \<Rightarrow>
                Inr (rest, e \<lparr> ve_new_files := ve_new_files e @ [(level, FileMetaData_of num file_size smallest largest)] \<rparr>)
            | None \<Rightarrow> Inl ''new-file entry'')
      else Inl ''unknown tag'')"

definition shrinks :: "(bytes \<Rightarrow> ('a \<times> bytes) option) \<Rightarrow> bool" where
  "shrinks d \<longleftrightarrow> (\<forall>input x rest. d input = Some (x, rest) \<longrightarrow> length rest < length input)"

lemma shrinks_pair: "shrinks d1 \<Longrightarrow> shrinks d2 \<Longrightarrow> shrinks (dec_pair d1 d2)"
  unfolding shrinks_def dec_pair_def by (fastforce split: option.splits)

lemma shrinks_basic:
  "shrinks GetVarint32" "shrinks GetVarint64" "shrinks GetLengthPrefixedSlice" "shrinks GetLevel" "shrinks GetInternalKey"
  by (auto simp: shrinks_def GetLevel_def GetInternalKey_def
      dest!: GetVarint32_shorter GetVarint64_shorter GetLengthPrefixedSlice_shorter split: option.splits prod.splits if_splits)

lemma ve_Decode_field_shrinks:
  assumes "ve_Decode_field tag input e = Inr (rest, e')"
  shows "length rest < length input"
proof -
  have d: "length r < length input" if "shrinks d" "d input = Some (x, r)" for d :: "bytes \<Rightarrow> ('b \<times> bytes) option" and x r
    using that by (simp add: shrinks_def)
  note p = shrinks_pair [OF shrinks_basic(4) shrinks_basic(5)] shrinks_pair [OF shrinks_basic(4) shrinks_basic(2)]
    shrinks_pair [OF shrinks_basic(4) shrinks_pair [OF shrinks_basic(2) shrinks_pair [OF shrinks_basic(2)
      shrinks_pair [OF shrinks_basic(5) shrinks_basic(5)]]]]
  show ?thesis
    using assms unfolding ve_Decode_field_def
    by (auto split: if_splits option.splits prod.splits intro: d [OF shrinks_basic(2)] d [OF shrinks_basic(3)]
        d [OF p(1)] d [OF p(2)] d [OF p(3)])
qed

function ve_Decode_loop :: "bytes \<Rightarrow> VersionEdit \<Rightarrow> string option \<times> VersionEdit" where
  "ve_Decode_loop input e =
     (case GetVarint32 input of
        None \<Rightarrow> (if input \<noteq> [] then Some ''invalid tag'' else None, e)
      | Some (tag, input1) \<Rightarrow>
          (case ve_Decode_field tag input1 e of
             Inl msg \<Rightarrow> (Some msg, e)
           | Inr (rest, e') \<Rightarrow> ve_Decode_loop rest e'))"
  by pat_completeness auto
termination
  by (relation "measure (\<lambda>(input, _). length input)")
    (auto dest!: GetVarint32_shorter ve_Decode_field_shrinks)

declare ve_Decode_loop.simps [simp del]

definition VersionEdit_DecodeFrom :: "VersionEdit \<Rightarrow> bytes \<Rightarrow> status \<times> VersionEdit" where
  "VersionEdit_DecodeFrom e src =
     (case ve_Decode_loop src (VersionEdit_Clear e) of
        (None, e') \<Rightarrow> (OK, e')
      | (Some msg, e') \<Rightarrow> (status_Corruption (str ''VersionEdit'') (str msg), e'))"

section \<open>Codecs of the fields\<close>

definition ikey_ok :: "InternalKey \<Rightarrow> bool" where
  "ikey_ok k \<longleftrightarrow> InternalKey_rep k \<noteq> [] \<and> length (InternalKey_rep k) < 2 ^ 32"

definition enc_level :: "nat \<Rightarrow> bytes" where
  "enc_level l = EncodeVarint32 (word_of_nat l)"

definition enc_ikey :: "InternalKey \<Rightarrow> bytes" where
  "enc_ikey k = PutLengthPrefixedSlice [] (InternalKey_Encode k)"

interpretation level: codec enc_level GetLevel "\<lambda>l. l < kNumLevels"
proof
  fix l rest n
  assume l: "l < kNumLevels"
  then have "unat (word_of_nat l :: u32) = l" "(word_of_nat l :: u32) < word_of_nat kNumLevels"
    by (simp_all add: kNumLevels_def unat_of_nat take_bit_nat_eq_self word_less_nat_alt)
  then show "GetLevel (enc_level l @ rest) = Some (l, rest)"
    by (simp add: GetLevel_def enc_level_def codec_rt)
  show "n < length (enc_level l) \<Longrightarrow> GetLevel (take n (enc_level l)) = None"
    by (simp add: GetLevel_def enc_level_def GetVarint32_truncated)
qed

interpretation ikey: codec enc_ikey GetInternalKey ikey_ok
proof
  fix k rest n
  assume k: "ikey_ok k"
  then show "GetInternalKey (enc_ikey k @ rest) = Some (k, rest)"
    by (simp add: GetInternalKey_def enc_ikey_def ikey_ok_def InternalKey_Encode_def InternalKey_DecodeFrom_def codec_rt)
  show "n < length (enc_ikey k) \<Longrightarrow> GetInternalKey (take n (enc_ikey k)) = None"
    using k by (simp add: GetInternalKey_def enc_ikey_def ikey_ok_def InternalKey_Encode_def GetLengthPrefixedSlice_truncated)
qed

interpretation compact_pointer: codec_pair enc_level GetLevel "\<lambda>l. l < kNumLevels" enc_ikey GetInternalKey ikey_ok
  by unfold_locales

interpretation deleted_file: codec_pair enc_level GetLevel "\<lambda>l. l < kNumLevels" EncodeVarint64 GetVarint64 "\<lambda>_. True"
  by unfold_locales

section \<open>Reading an encoding back\<close>

lemma put_append:
  "PutVarint32 dst v = dst @ EncodeVarint32 v" "PutVarint64 dst n = dst @ EncodeVarint64 n"
  "PutLengthPrefixedSlice dst x = dst @ PutLengthPrefixedSlice [] x"
  by (simp_all add: PutVarint32_def PutVarint64_def PutLengthPrefixedSlice_def)

lemma ve_Decode_step:
  assumes "ve_Decode_field tag (enc @ rest) e = Inr (rest, e')"
  shows "ve_Decode_loop (EncodeVarint32 tag @ enc @ rest) e = ve_Decode_loop rest e'"
  using assms by (subst ve_Decode_loop.simps) (simp add: codec_rt)

lemma ve_Decode_loop_Nil: "ve_Decode_loop [] e = (None, e)"
  by (subst ve_Decode_loop.simps) (simp add: GetVarint32_def GetVarint32Ptr_def GetVarint32PtrFallback_def)

definition enc_pointer :: "nat \<times> InternalKey \<Rightarrow> bytes" where
  "enc_pointer p = EncodeVarint32 kCompactPointer @ (enc_level (fst p) @ enc_ikey (snd p))"

definition enc_deleted :: "nat \<times> u64 \<Rightarrow> bytes" where
  "enc_deleted p = EncodeVarint32 kDeletedFile @ (enc_level (fst p) @ EncodeVarint64 (snd p))"

definition enc_file :: "nat \<times> FileMetaData \<Rightarrow> bytes" where
  "enc_file p = EncodeVarint32 kNewFile @ (enc_level (fst p) @ EncodeVarint64 (fm_number (snd p)) @
     EncodeVarint64 (fm_file_size (snd p)) @ enc_ikey (fm_smallest (snd p)) @ enc_ikey (fm_largest (snd p)))"

lemma foldl_encodings:
  "foldl enc_compact_pointer dst ps = dst @ concat (map enc_pointer ps)"
  "foldl enc_deleted_file dst ds = dst @ concat (map enc_deleted ds)"
  "foldl enc_new_file dst fs = dst @ concat (map enc_file fs)"
proof -
  have p: "enc_compact_pointer dst p = dst @ enc_pointer p" "enc_deleted_file dst x = dst @ enc_deleted x"
    "enc_new_file dst f = dst @ enc_file f" for dst p x f
    by (simp_all add: enc_compact_pointer_def enc_pointer_def enc_deleted_file_def enc_deleted_def enc_new_file_def
        enc_file_def enc_level_def enc_ikey_def Let_def PutVarint32_def PutVarint64_def PutLengthPrefixedSlice_def)
  show "foldl enc_compact_pointer dst ps = dst @ concat (map enc_pointer ps)"
    by (induction ps arbitrary: dst) (simp_all add: p)
  show "foldl enc_deleted_file dst ds = dst @ concat (map enc_deleted ds)"
    by (induction ds arbitrary: dst) (simp_all add: p)
  show "foldl enc_new_file dst fs = dst @ concat (map enc_file fs)"
    by (induction fs arbitrary: dst) (simp_all add: p)
qed

lemma decode_pointers:
  "\<forall>p \<in> set ps. fst p < kNumLevels \<and> ikey_ok (snd p) \<Longrightarrow>
    ve_Decode_loop (concat (map enc_pointer ps) @ rest) e =
      ve_Decode_loop rest (e \<lparr> ve_compact_pointers := ve_compact_pointers e @ ps \<rparr>)"
proof (induction ps arbitrary: e)
  case (Cons p ps)
  have "ve_Decode_field kCompactPointer ((enc_level (fst p) @ enc_ikey (snd p)) @ r) e =
      Inr (r, e \<lparr> ve_compact_pointers := ve_compact_pointers e @ [p] \<rparr>)" for r
    using Cons.prems by (simp add: ve_Decode_field_def tags dec_pair_def level.dec_enc ikey.dec_enc)
  from ve_Decode_step [OF this] Cons show ?case by (simp add: enc_pointer_def)
qed simp

lemma set_insert_last: "sorted_wrt (<) (xs @ [x]) \<Longrightarrow> set_insert x xs = xs @ [x]"
  by (induction xs) (auto simp: not_less_iff_gr_or_eq dest: less_imp_not_less)

lemma decode_deleted:
  "\<forall>p \<in> set ds. fst p < kNumLevels \<Longrightarrow> sorted_wrt (<) (ve_deleted_files e @ ds) \<Longrightarrow>
    ve_Decode_loop (concat (map enc_deleted ds) @ rest) e =
      ve_Decode_loop rest (e \<lparr> ve_deleted_files := ve_deleted_files e @ ds \<rparr>)"
proof (induction ds arbitrary: e)
  case (Cons p ds)
  have "set_insert p (ve_deleted_files e) = ve_deleted_files e @ [p]"
    using Cons.prems(2) by (intro set_insert_last) (auto simp: sorted_wrt_append)
  then have "ve_Decode_field kDeletedFile ((enc_level (fst p) @ EncodeVarint64 (snd p)) @ r) e =
      Inr (r, e \<lparr> ve_deleted_files := ve_deleted_files e @ [p] \<rparr>)" for r
    using Cons.prems(1) by (simp add: ve_Decode_field_def tags dec_pair_def level.dec_enc codec_rt)
  from ve_Decode_step [OF this] Cons.prems Cons.IH [of "e \<lparr> ve_deleted_files := ve_deleted_files e @ [p] \<rparr>"]
  show ?case by (simp add: enc_deleted_def)
qed simp

definition file_ok :: "FileMetaData \<Rightarrow> bool" where
  "file_ok f \<longleftrightarrow> f = FileMetaData_of (fm_number f) (fm_file_size f) (fm_smallest f) (fm_largest f) \<and>
     ikey_ok (fm_smallest f) \<and> ikey_ok (fm_largest f)"

lemma decode_files:
  "\<forall>p \<in> set fs. fst p < kNumLevels \<and> file_ok (snd p) \<Longrightarrow>
    ve_Decode_loop (concat (map enc_file fs) @ rest) e =
      ve_Decode_loop rest (e \<lparr> ve_new_files := ve_new_files e @ fs \<rparr>)"
proof (induction fs arbitrary: e)
  case (Cons p fs)
  have f: "FileMetaData_of (fm_number (snd p)) (fm_file_size (snd p)) (fm_smallest (snd p)) (fm_largest (snd p)) = snd p"
    using Cons.prems by (auto simp: file_ok_def)
  have "ve_Decode_field kNewFile ((enc_level (fst p) @ EncodeVarint64 (fm_number (snd p)) @
     EncodeVarint64 (fm_file_size (snd p)) @ enc_ikey (fm_smallest (snd p)) @ enc_ikey (fm_largest (snd p))) @ r) e =
      Inr (r, e \<lparr> ve_new_files := ve_new_files e @ [p] \<rparr>)" for r
    using Cons.prems
    by (simp add: ve_Decode_field_def tags dec_pair_def level.dec_enc codec_rt ikey.dec_enc file_ok_def f)
  from ve_Decode_step [OF this] Cons show ?case by (simp add: enc_file_def)
qed simp

text \<open>The edits the interface makes, whose unset fields have their initial values.\<close>

definition ve_ok :: "VersionEdit \<Rightarrow> bool" where
  "ve_ok e \<longleftrightarrow>
     (if ve_has_comparator e then length (ve_comparator e) < 2 ^ 32 else ve_comparator e = []) \<and>
     (\<not> ve_has_log_number e \<longrightarrow> ve_log_number e = 0) \<and>
     (\<not> ve_has_prev_log_number e \<longrightarrow> ve_prev_log_number e = 0) \<and>
     (\<not> ve_has_next_file_number e \<longrightarrow> ve_next_file_number e = 0) \<and>
     (\<not> ve_has_last_sequence e \<longrightarrow> ve_last_sequence e = 0) \<and>
     (\<forall>p \<in> set (ve_compact_pointers e). fst p < kNumLevels \<and> ikey_ok (snd p)) \<and>
     (\<forall>p \<in> set (ve_deleted_files e). fst p < kNumLevels) \<and> sorted_wrt (<) (ve_deleted_files e) \<and>
     (\<forall>p \<in> set (ve_new_files e). fst p < kNumLevels \<and> file_ok (snd p))"

lemma decode_numbers:
  "ve_Decode_loop (EncodeVarint32 kLogNumber @ EncodeVarint64 n @ rest) e =
    ve_Decode_loop rest (e \<lparr> ve_log_number := n, ve_has_log_number := True \<rparr>)"
  "ve_Decode_loop (EncodeVarint32 kPrevLogNumber @ EncodeVarint64 n @ rest) e =
    ve_Decode_loop rest (e \<lparr> ve_prev_log_number := n, ve_has_prev_log_number := True \<rparr>)"
  "ve_Decode_loop (EncodeVarint32 kNextFileNumber @ EncodeVarint64 n @ rest) e =
    ve_Decode_loop rest (e \<lparr> ve_next_file_number := n, ve_has_next_file_number := True \<rparr>)"
  "ve_Decode_loop (EncodeVarint32 kLastSequence @ EncodeVarint64 n @ rest) e =
    ve_Decode_loop rest (e \<lparr> ve_last_sequence := n, ve_has_last_sequence := True \<rparr>)"
  by (rule ve_Decode_step; simp add: ve_Decode_field_def tags codec_rt)+

lemma decode_comparator:
  "length c < 2 ^ 32 \<Longrightarrow> ve_Decode_loop (EncodeVarint32 kComparator @ PutLengthPrefixedSlice [] c @ rest) e =
    ve_Decode_loop rest (e \<lparr> ve_comparator := c, ve_has_comparator := True \<rparr>)"
  by (rule ve_Decode_step) (simp add: ve_Decode_field_def tags codec_rt)

lemma EncodeTo_parts:
  "VersionEdit_EncodeTo e [] =
    (if ve_has_comparator e then EncodeVarint32 kComparator @ PutLengthPrefixedSlice [] (ve_comparator e) else []) @
    (if ve_has_log_number e then EncodeVarint32 kLogNumber @ EncodeVarint64 (ve_log_number e) else []) @
    (if ve_has_prev_log_number e then EncodeVarint32 kPrevLogNumber @ EncodeVarint64 (ve_prev_log_number e) else []) @
    (if ve_has_next_file_number e then EncodeVarint32 kNextFileNumber @ EncodeVarint64 (ve_next_file_number e) else []) @
    (if ve_has_last_sequence e then EncodeVarint32 kLastSequence @ EncodeVarint64 (ve_last_sequence e) else []) @
    concat (map enc_pointer (ve_compact_pointers e)) @ concat (map enc_deleted (ve_deleted_files e)) @
    concat (map enc_file (ve_new_files e))"
  unfolding VersionEdit_EncodeTo_def Let_def foldl_encodings PutVarint32_def PutVarint64_def PutLengthPrefixedSlice_def
  by simp

text \<open>An optional field, present or not.\<close>

lemma decode_optional:
  assumes "b \<Longrightarrow> ve_Decode_loop (enc @ rest) e = ve_Decode_loop rest e'" "\<not> b \<Longrightarrow> e' = e"
  shows "ve_Decode_loop ((if b then enc else []) @ rest) e = ve_Decode_loop rest e'"
  using assms by auto

text \<open>Every operation of the interface keeps an edit well formed.\<close>

lemma set_insert_sorted:
  "sorted_wrt (<) xs \<Longrightarrow> sorted_wrt (<) (set_insert x xs) \<and> set (set_insert x xs) = insert x (set xs)"
  by (induction xs) auto

lemma ve_ok_interface:
  "ve_ok VersionEdit_new"
  "ve_ok e \<Longrightarrow> length name < 2 ^ 32 \<Longrightarrow> ve_ok (SetComparatorName e name)"
  "ve_ok e \<Longrightarrow> ve_ok (SetLogNumber e n)" "ve_ok e \<Longrightarrow> ve_ok (SetPrevLogNumber e n)"
  "ve_ok e \<Longrightarrow> ve_ok (SetNextFile e n)" "ve_ok e \<Longrightarrow> ve_ok (SetLastSequence e n)"
  "ve_ok e \<Longrightarrow> l < kNumLevels \<Longrightarrow> ikey_ok k \<Longrightarrow> ve_ok (SetCompactPointer e l k)"
  "ve_ok e \<Longrightarrow> l < kNumLevels \<Longrightarrow> ikey_ok k \<Longrightarrow> ikey_ok k' \<Longrightarrow> ve_ok (AddFile e l n m k k')"
  "ve_ok e \<Longrightarrow> l < kNumLevels \<Longrightarrow> ve_ok (RemoveFile e l n)"
  by (auto simp: ve_ok_def VersionEdit_new_def SetComparatorName_def SetLogNumber_def SetPrevLogNumber_def
      SetNextFile_def SetLastSequence_def SetCompactPointer_def AddFile_def RemoveFile_def file_ok_def
      FileMetaData_of_def set_insert_sorted)

lemma decode_encode:
  assumes "ve_ok e"
  shows "VersionEdit_DecodeFrom e0 (VersionEdit_EncodeTo e []) =
    (OK, e \<lparr> ve_compact_pointers := ve_compact_pointers e0 @ ve_compact_pointers e \<rparr>)"
proof -
  let ?e0 = "VersionEdit_Clear e0"
  let ?e1 = "?e0 \<lparr> ve_comparator := ve_comparator e, ve_has_comparator := ve_has_comparator e \<rparr>"
  let ?e2 = "?e1 \<lparr> ve_log_number := ve_log_number e, ve_has_log_number := ve_has_log_number e \<rparr>"
  let ?e3 = "?e2 \<lparr> ve_prev_log_number := ve_prev_log_number e, ve_has_prev_log_number := ve_has_prev_log_number e \<rparr>"
  let ?e4 = "?e3 \<lparr> ve_next_file_number := ve_next_file_number e, ve_has_next_file_number := ve_has_next_file_number e \<rparr>"
  let ?e5 = "?e4 \<lparr> ve_last_sequence := ve_last_sequence e, ve_has_last_sequence := ve_has_last_sequence e \<rparr>"
  note defs = ve_ok_def VersionEdit_Clear_def
  let ?P = "concat (map enc_pointer (ve_compact_pointers e))" and ?D = "concat (map enc_deleted (ve_deleted_files e))"
    and ?F = "concat (map enc_file (ve_new_files e))"
  have "ve_Decode_loop (VersionEdit_EncodeTo e [] @ []) ?e0 = ve_Decode_loop (?P @ ?D @ ?F @ []) ?e5"
    unfolding EncodeTo_parts append_assoc
    by (subst decode_optional [of _ _ _ ?e0 ?e1], use assms in \<open>simp add: defs decode_comparator\<close>,
        use assms in \<open>simp add: defs\<close>)
      (subst decode_optional [of _ _ _ ?e1 ?e2], simp add: decode_numbers, use assms in \<open>simp add: defs\<close>,
       subst decode_optional [of _ _ _ ?e2 ?e3], simp add: decode_numbers, use assms in \<open>simp add: defs\<close>,
       subst decode_optional [of _ _ _ ?e3 ?e4], simp add: decode_numbers, use assms in \<open>simp add: defs\<close>,
       subst decode_optional [of _ _ _ ?e4 ?e5], simp add: decode_numbers, use assms in \<open>simp add: defs\<close>, rule refl)
  also have "\<dots> = ve_Decode_loop [] (?e5 \<lparr> ve_compact_pointers := ve_compact_pointers e0 @ ve_compact_pointers e,
      ve_deleted_files := ve_deleted_files e, ve_new_files := ve_new_files e \<rparr>)"
    using assms by (simp add: defs decode_pointers decode_deleted decode_files del: append_Nil2)
  also have "\<dots> = (None, e \<lparr> ve_compact_pointers := ve_compact_pointers e0 @ ve_compact_pointers e \<rparr>)"
    by (simp add: ve_Decode_loop_Nil VersionEdit_Clear_def)
  finally have "ve_Decode_loop (VersionEdit_EncodeTo e [] @ []) ?e0 =
      (None, e \<lparr> ve_compact_pointers := ve_compact_pointers e0 @ ve_compact_pointers e \<rparr>)" .
  then show ?thesis by (simp add: VersionEdit_DecodeFrom_def)
qed

section \<open>Properties\<close>

text \<open>
  C12: A version edit survives the manifest: decoding its encoding returns OK and an edit with the
  same fields, files and pointers, where the compaction pointers the object held before are kept in
  front.
\<close>

theorem VersionEdit_roundtrip:
  assumes "ve_ok e"
  shows "VersionEdit_DecodeFrom e0 (VersionEdit_EncodeTo e []) =
    (OK, e \<lparr> ve_compact_pointers := ve_compact_pointers e0 @ ve_compact_pointers e \<rparr>)"
  by (rule decode_encode [OF assms])

theorem VersionEdit_roundtrip_witness:
  "VersionEdit_DecodeFrom VersionEdit_new
     (VersionEdit_EncodeTo (RemoveFile (AddFile (SetLogNumber VersionEdit_new 7) 1 9 100
        \<lparr> InternalKey_rep = [1] \<rparr> \<lparr> InternalKey_rep = [2] \<rparr>) 2 5) []) =
   (OK, RemoveFile (AddFile (SetLogNumber VersionEdit_new 7) 1 9 100
        \<lparr> InternalKey_rep = [1] \<rparr> \<lparr> InternalKey_rep = [2] \<rparr>) 2 5)"
proof -
  have "ve_ok (RemoveFile (AddFile (SetLogNumber VersionEdit_new 7) 1 9 100
      \<lparr> InternalKey_rep = [1] \<rparr> \<lparr> InternalKey_rep = [2] \<rparr>) 2 5)"
    by (intro ve_ok_interface) (simp_all add: ikey_ok_def kNumLevels_def)
  from VersionEdit_roundtrip [OF this, of VersionEdit_new] show ?thesis
    by (simp add: VersionEdit_new_def SetLogNumber_def AddFile_def RemoveFile_def)
qed

text \<open>
  Decoding an edit into an object that is reused does not give the edit that was encoded: the
  compaction pointers of the earlier contents stay in front of the new ones.
\<close>

lemma VersionEdit_stale_pointers:
  assumes "ve_ok e" "ve_compact_pointers e0 \<noteq> []"
  shows "snd (VersionEdit_DecodeFrom e0 (VersionEdit_EncodeTo e [])) \<noteq> e \<and>
    ve_compact_pointers (snd (VersionEdit_DecodeFrom e0 (VersionEdit_EncodeTo e []))) =
      ve_compact_pointers e0 @ ve_compact_pointers e"
proof -
  have d: "VersionEdit_DecodeFrom e0 (VersionEdit_EncodeTo e []) =
      (OK, e \<lparr> ve_compact_pointers := ve_compact_pointers e0 @ ve_compact_pointers e \<rparr>)"
    by (rule decode_encode [OF assms(1)])
  show ?thesis
    unfolding d using assms(2) by (auto dest: arg_cong [of _ _ ve_compact_pointers])
qed

end
