(* ===== verification/Version_Files.thy ===== *)
theory Version_Files
  imports VersionEdit Complex_Main
begin

text \<open>
  The files of a version and the searches in them (\<^verbatim>\<open>kv/db/version_set.cpp\<close>): binary search,
  overlap tests, the inputs of a compaction. A level is the list of its files; \<open>uc\<close> is the user
  comparator of the internal key comparator \<open>icmp_\<close>. Sizes are added as 64-bit words and read back
  as signed numbers; indices are natural numbers, for fewer than \<open>2\<^sup>3\<^sup>1\<close> files in a level.
\<close>

definition fm_skey :: "FileMetaData \<Rightarrow> bytes" where
  "fm_skey f = InternalKey_Encode (fm_smallest f)"

definition fm_lkey :: "FileMetaData \<Rightarrow> bytes" where
  "fm_lkey f = InternalKey_Encode (fm_largest f)"

definition fm_suser :: "FileMetaData \<Rightarrow> bytes" where
  "fm_suser f = InternalKey_user_key (fm_smallest f)"

definition fm_luser :: "FileMetaData \<Rightarrow> bytes" where
  "fm_luser f = InternalKey_user_key (fm_largest f)"

definition MaxGrandParentOverlapBytes :: "u64 \<Rightarrow> int" where
  "MaxGrandParentOverlapBytes max_file_size = sint (10 * max_file_size)"

definition ExpandedCompactionByteSizeLimit :: "u64 \<Rightarrow> int" where
  "ExpandedCompactionByteSizeLimit max_file_size = sint (25 * max_file_size)"

definition TotalFileSize :: "FileMetaData list \<Rightarrow> int" where
  "TotalFileSize files = sint (foldl (\<lambda>sum f. sum + fm_file_size f) 0 files)"

section \<open>Searching a level\<close>

function FindFile_loop :: "Comparator \<Rightarrow> FileMetaData list \<Rightarrow> bytes \<Rightarrow> nat \<Rightarrow> nat \<Rightarrow> nat" where
  "FindFile_loop uc files key left right =
     (if left < right
      then (let mid = (left + right) div 2
            in if InternalKey_Compare uc (fm_lkey (files ! mid)) key < 0
               then FindFile_loop uc files key (mid + 1) right
               else FindFile_loop uc files key left mid)
      else right)"
  by pat_completeness auto
termination
  by (relation "measure (\<lambda>(uc, files, key, left, right). right - left)") auto

declare FindFile_loop.simps [simp del]

definition FindFile :: "Comparator \<Rightarrow> FileMetaData list \<Rightarrow> bytes \<Rightarrow> nat" where
  "FindFile uc files key = FindFile_loop uc files key 0 (length files)"

definition AfterFile :: "Comparator \<Rightarrow> bytes option \<Rightarrow> FileMetaData \<Rightarrow> bool" where
  "AfterFile uc user_key f = (case user_key of None \<Rightarrow> False | Some k \<Rightarrow> cmp_Compare uc k (fm_luser f) > 0)"

definition BeforeFile :: "Comparator \<Rightarrow> bytes option \<Rightarrow> FileMetaData \<Rightarrow> bool" where
  "BeforeFile uc user_key f = (case user_key of None \<Rightarrow> False | Some k \<Rightarrow> cmp_Compare uc k (fm_suser f) < 0)"

definition SomeFileOverlapsRange ::
  "Comparator \<Rightarrow> bool \<Rightarrow> FileMetaData list \<Rightarrow> bytes option \<Rightarrow> bytes option \<Rightarrow> bool" where
  "SomeFileOverlapsRange uc disjoint_sorted_files files smallest_user_key largest_user_key =
     (if \<not> disjoint_sorted_files
      then list_ex (\<lambda>f. \<not> (AfterFile uc smallest_user_key f \<or> BeforeFile uc largest_user_key f)) files
      else (let index = (case smallest_user_key of
                           None \<Rightarrow> 0
                         | Some k \<Rightarrow> FindFile uc files (InternalKey_Encode (InternalKey_new k kMaxSequenceNumber kValueTypeForSeek)))
            in if length files \<le> index then False
               else \<not> BeforeFile uc largest_user_key (files ! index)))"

section \<open>Versions\<close>

text \<open>
  The parts of a version that its own operations use. Files are values here: the reference counts
  of shared file objects and the list that links the versions are not modelled.
\<close>

record Version =
  v_files :: "FileMetaData list list"
  v_file_to_compact :: "FileMetaData option"
  v_file_to_compact_level :: int
  v_compaction_level :: int
  v_compaction_score :: rat

definition Version_new :: Version where
  "Version_new = \<lparr> v_files = replicate kNumLevels [], v_file_to_compact = None, v_file_to_compact_level = -1, v_compaction_level = -1,
     v_compaction_score = -1 \<rparr>"

definition NumFiles :: "Version \<Rightarrow> nat \<Rightarrow> nat" where
  "NumFiles v level = length (v_files v ! level)"

definition OverlapInLevel :: "Comparator \<Rightarrow> Version \<Rightarrow> nat \<Rightarrow> bytes option \<Rightarrow> bytes option \<Rightarrow> bool" where
  "OverlapInLevel uc v level smallest_user_key largest_user_key =
     SomeFileOverlapsRange uc (level > 0) (v_files v ! level) smallest_user_key largest_user_key"

text \<open>
  The loop of \<open>GetOverlappingInputs\<close>, which starts over in level 0 when a file widens the range.
  \<open>None\<close>: it does not return.
\<close>

partial_function (option) overlapping_loop ::
  "Comparator \<Rightarrow> nat \<Rightarrow> FileMetaData list \<Rightarrow> nat \<Rightarrow> bytes option \<Rightarrow> bytes option \<Rightarrow> FileMetaData list \<Rightarrow> FileMetaData list option" where
  "overlapping_loop uc level files i user_begin user_end inputs =
     (if i < length files then
        (let f = files ! i;
             file_start = fm_suser f;
             file_limit = fm_luser f
         in if (case user_begin of None \<Rightarrow> False | Some b \<Rightarrow> cmp_Compare uc file_limit b < 0)
            then overlapping_loop uc level files (i + 1) user_begin user_end inputs
            else if (case user_end of None \<Rightarrow> False | Some e \<Rightarrow> cmp_Compare uc file_start e > 0)
            then overlapping_loop uc level files (i + 1) user_begin user_end inputs
            else if level = 0 \<and> (case user_begin of None \<Rightarrow> False | Some b \<Rightarrow> cmp_Compare uc file_start b < 0)
            then overlapping_loop uc level files 0 (Some file_start) user_end []
            else if level = 0 \<and> (case user_end of None \<Rightarrow> False | Some e \<Rightarrow> cmp_Compare uc file_limit e > 0)
            then overlapping_loop uc level files 0 user_begin (Some file_limit) []
            else overlapping_loop uc level files (i + 1) user_begin user_end (inputs @ [f]))
      else Some inputs)"

definition GetOverlappingInputs :: "Comparator \<Rightarrow> Version \<Rightarrow> nat \<Rightarrow> InternalKey option \<Rightarrow> InternalKey option \<Rightarrow> FileMetaData list option" where
  "GetOverlappingInputs uc v level begin_key end_key =
     overlapping_loop uc level (v_files v ! level) 0 (map_option InternalKey_user_key begin_key) (map_option InternalKey_user_key end_key) []"

partial_function (option) pick_level_loop ::
  "Comparator \<Rightarrow> u64 \<Rightarrow> Version \<Rightarrow> bytes \<Rightarrow> bytes \<Rightarrow> nat \<Rightarrow> nat option" where
  "pick_level_loop uc max_file_size v smallest_user_key largest_user_key level =
     (if level < kMaxMemCompactLevel
      then (if OverlapInLevel uc v (level + 1) (Some smallest_user_key) (Some largest_user_key) then Some level
            else if level + 2 < kNumLevels
            then (case GetOverlappingInputs uc v (level + 2) (Some (InternalKey_new smallest_user_key kMaxSequenceNumber kValueTypeForSeek))
                    (Some (InternalKey_new largest_user_key 0 kTypeDeletion)) of
                    None \<Rightarrow> None
                  | Some overlaps \<Rightarrow>
                      if TotalFileSize overlaps > MaxGrandParentOverlapBytes max_file_size then Some level
                      else pick_level_loop uc max_file_size v smallest_user_key largest_user_key (level + 1))
            else pick_level_loop uc max_file_size v smallest_user_key largest_user_key (level + 1))
      else Some level)"

definition PickLevelForMemTableOutput :: "Comparator \<Rightarrow> u64 \<Rightarrow> Version \<Rightarrow> bytes \<Rightarrow> bytes \<Rightarrow> nat option" where
  "PickLevelForMemTableOutput uc max_file_size v smallest_user_key largest_user_key =
     (if \<not> OverlapInLevel uc v 0 (Some smallest_user_key) (Some largest_user_key)
      then pick_level_loop uc max_file_size v smallest_user_key largest_user_key 0
      else Some 0)"

section \<open>Ranges and boundary files\<close>

text \<open>The keys are compared in their encoded form; \<open>GetRange\<close> requires a file.\<close>

definition GetRange :: "Comparator \<Rightarrow> FileMetaData list \<Rightarrow> (InternalKey \<times> InternalKey)" where
  "GetRange uc inputs =
     (case inputs of
        [] \<Rightarrow> (\<lparr> InternalKey_rep = [] \<rparr>, \<lparr> InternalKey_rep = [] \<rparr>)
      | f # fs \<Rightarrow> foldl (\<lambda>(smallest, largest) f.
          (if InternalKey_Compare uc (fm_skey f) (InternalKey_Encode smallest) < 0 then fm_smallest f else smallest,
           if InternalKey_Compare uc (fm_lkey f) (InternalKey_Encode largest) > 0 then fm_largest f else largest))
          (fm_smallest f, fm_largest f) fs)"

definition GetRange2 :: "Comparator \<Rightarrow> FileMetaData list \<Rightarrow> FileMetaData list \<Rightarrow> (InternalKey \<times> InternalKey)" where
  "GetRange2 uc inputs1 inputs2 = GetRange uc (inputs1 @ inputs2)"

definition FindLargestKey :: "Comparator \<Rightarrow> FileMetaData list \<Rightarrow> InternalKey option" where
  "FindLargestKey uc files =
     (case files of
        [] \<Rightarrow> None
      | f # fs \<Rightarrow> Some (foldl (\<lambda>largest f.
          if InternalKey_Compare uc (fm_lkey f) (InternalKey_Encode largest) > 0 then fm_largest f else largest) (fm_largest f) fs))"

definition smaller_boundary :: "Comparator \<Rightarrow> InternalKey \<Rightarrow> FileMetaData option \<Rightarrow> FileMetaData \<Rightarrow> FileMetaData option" where
  "smaller_boundary uc largest_key smallest_boundary_file f =
     (if InternalKey_Compare uc (fm_skey f) (InternalKey_Encode largest_key) > 0 \<and>
         cmp_Compare uc (fm_suser f) (InternalKey_user_key largest_key) = 0
      then (case smallest_boundary_file of
              None \<Rightarrow> Some f
            | Some g \<Rightarrow> if InternalKey_Compare uc (fm_skey f) (fm_skey g) < 0 then Some f else smallest_boundary_file)
      else smallest_boundary_file)"

definition FindSmallestBoundaryFile :: "Comparator \<Rightarrow> FileMetaData list \<Rightarrow> InternalKey \<Rightarrow> FileMetaData option" where
  "FindSmallestBoundaryFile uc level_files largest_key = foldl (smaller_boundary uc largest_key) None level_files"

partial_function (option) boundary_loop ::
  "Comparator \<Rightarrow> FileMetaData list \<Rightarrow> InternalKey \<Rightarrow> FileMetaData list \<Rightarrow> FileMetaData list option" where
  "boundary_loop uc level_files largest_key compaction_files =
     (case FindSmallestBoundaryFile uc level_files largest_key of
        Some f \<Rightarrow> boundary_loop uc level_files (fm_largest f) (compaction_files @ [f])
      | None \<Rightarrow> Some compaction_files)"

definition AddBoundaryInputs :: "Comparator \<Rightarrow> FileMetaData list \<Rightarrow> FileMetaData list \<Rightarrow> FileMetaData list option" where
  "AddBoundaryInputs uc level_files compaction_files =
     (case FindLargestKey uc compaction_files of
        None \<Rightarrow> Some compaction_files
      | Some largest_key \<Rightarrow> boundary_loop uc level_files largest_key compaction_files)"

declare overlapping_loop.simps [code] pick_level_loop.simps [code] boundary_loop.simps [code]

section \<open>Sorted levels\<close>

abbreviation sk :: "FileMetaData \<Rightarrow> ikey" where "sk f \<equiv> ikey_of (fm_skey f)"
abbreviation lk :: "FileMetaData \<Rightarrow> ikey" where "lk f \<equiv> ikey_of (fm_lkey f)"

text \<open>Above level 0 the files of a level are sorted and their ranges do not meet.\<close>

definition level_sorted :: "FileMetaData list \<Rightarrow> bool" where
  "level_sorted files \<longleftrightarrow> list_all (\<lambda>f. sk f \<le> lk f) files \<and> sorted_wrt (\<lambda>f g. lk f < sk g) files"

lemma file_users: "ik_user (sk f) = fm_suser f" "ik_user (lk f) = fm_luser f"
  by (simp_all add: ikey_of_def fm_skey_def fm_suser_def fm_lkey_def fm_luser_def InternalKey_Encode_def InternalKey_user_key_def)

lemma InternalKey_signs:
  "InternalKey_Compare BytewiseComparator a b < 0 \<longleftrightarrow> ikey_of a < ikey_of b"
  "InternalKey_Compare BytewiseComparator a b > 0 \<longleftrightarrow> ikey_of b < ikey_of a"
  by (auto simp: InternalKey_Compare_bytewise)

lemma user_signs:
  "cmp_Compare BytewiseComparator a b < 0 \<longleftrightarrow> a < b" "cmp_Compare BytewiseComparator a b > 0 \<longleftrightarrow> b < a"
  "cmp_Compare BytewiseComparator a b = 0 \<longleftrightarrow> a = b"
  by (auto simp: BytewiseComparator_def Slice_compare_eq)

lemma ikey_user_mono: "a \<le> b \<Longrightarrow> ik_user a \<le> ik_user b" "a < b \<Longrightarrow> ik_user a \<le> ik_user b"
  by (auto simp: less_eq_ikey_def less_ikey_def)

lemma level_sorted_largest: "level_sorted files \<Longrightarrow> i \<le> j \<Longrightarrow> j < length files \<Longrightarrow> lk (files ! i) \<le> lk (files ! j)"
  unfolding level_sorted_def sorted_wrt_iff_nth_less list_all_length
  by (metis le_neq_implies_less order.refl order.strict_implies_order order.trans)

lemma level_sorted_smallest: "level_sorted files \<Longrightarrow> i \<le> j \<Longrightarrow> j < length files \<Longrightarrow> sk (files ! i) \<le> sk (files ! j)"
  unfolding level_sorted_def sorted_wrt_iff_nth_less list_all_length
  by (metis le_neq_implies_less order.refl order.strict_implies_order order.strict_trans1)

section \<open>Binary search\<close>

lemma FindFile_loop_cut:
  assumes "\<And>i j. i \<le> j \<Longrightarrow> j < length files \<Longrightarrow> lk (files ! i) \<le> lk (files ! j)"
    and "left \<le> right" "right \<le> length files"
    and "\<forall>i<left. lk (files ! i) < ikey_of key" "\<forall>i. right \<le> i \<longrightarrow> i < length files \<longrightarrow> \<not> lk (files ! i) < ikey_of key"
  shows "FindFile_loop BytewiseComparator files key left right \<le> length files \<and>
    (\<forall>i<length files. i < FindFile_loop BytewiseComparator files key left right \<longleftrightarrow> lk (files ! i) < ikey_of key)"
  using assms(2-5)
proof (induction "right - left" arbitrary: left right rule: less_induct)
  case less
  note step = FindFile_loop.simps [of BytewiseComparator files key left right]
  show ?case
  proof (cases "left < right")
    case True
    define mid where "mid = (left + right) div 2"
    have mid: "left \<le> mid" "mid < right" "mid < length files" using True less.prems(2) by (auto simp: mid_def)
    show ?thesis
    proof (cases "lk (files ! mid) < ikey_of key")
      case lt: True
      have "\<forall>i<mid + 1. lk (files ! i) < ikey_of key" using assms(1) [of _ mid] mid(3) lt by (metis Suc_eq_plus1 less_Suc_eq_le order.strict_trans1)
      then show ?thesis
        using less.hyps [of right "mid + 1"] mid less.prems(2,4) True lt
        by (simp add: step mid_def [symmetric] InternalKey_signs Let_def)
    next
      case ge: False
      have "\<forall>i. mid \<le> i \<longrightarrow> i < length files \<longrightarrow> \<not> lk (files ! i) < ikey_of key"
        using assms(1) [of mid] ge by (meson order.strict_trans1)
      then show ?thesis
        using less.hyps [of mid left] mid less.prems(3) True ge
        by (simp add: step mid_def [symmetric] InternalKey_signs Let_def)
    qed
  next
    case False
    then have "right = left" using less.prems(1) by simp
    then have r: "FindFile_loop BytewiseComparator files key left right = left" using step by simp
    show ?thesis unfolding r using \<open>right = left\<close> less.prems(2-4) by (metis not_le_imp_less)
  qed
qed

lemma FindFile_cut:
  assumes "level_sorted files"
  shows "FindFile BytewiseComparator files key \<le> length files"
    "i < length files \<Longrightarrow> i < FindFile BytewiseComparator files key \<longleftrightarrow> lk (files ! i) < ikey_of key"
  using FindFile_loop_cut [of files 0 "length files" key] level_sorted_largest [OF assms] by (auto simp: FindFile_def)

section \<open>Overlaps\<close>

text \<open>The range of user keys of a file meets the range from \<open>b\<close> to \<open>e\<close>, open where there is no bound.\<close>

definition overlaps :: "bytes option \<Rightarrow> bytes option \<Rightarrow> FileMetaData \<Rightarrow> bool" where
  "overlaps b e f \<longleftrightarrow> (case b of None \<Rightarrow> True | Some u \<Rightarrow> u \<le> fm_luser f) \<and> (case e of None \<Rightarrow> True | Some u \<Rightarrow> fm_suser f \<le> u)"

lemma overlaps_tests: "overlaps b e f \<longleftrightarrow> \<not> (AfterFile BytewiseComparator b f \<or> BeforeFile BytewiseComparator e f)"
  by (auto simp: overlaps_def AfterFile_def BeforeFile_def user_signs not_less split: option.splits)

lemma max_key_first: "ikey_of k < ikey_of (InternalKey_Encode (InternalKey_new u kMaxSequenceNumber kTypeValue)) \<longleftrightarrow> ExtractUserKey k < u"
  if "ikey_tag k \<le> PackSequenceAndType kMaxSequenceNumber kTypeValue"
  using that by (auto simp: less_ikey_def ikey_of_def InternalKey_Encode_def InternalKey_new_def AppendInternalKey_eq)

definition ikeys_ok :: "FileMetaData list \<Rightarrow> bool" where
  "ikeys_ok files = list_all (\<lambda>f. ikey_tag (fm_lkey f) \<le> PackSequenceAndType kMaxSequenceNumber kTypeValue) files"

lemma FindFile_user:
  assumes "level_sorted files" "ikeys_ok files" "i < length files"
  shows "i < FindFile BytewiseComparator files (InternalKey_Encode (InternalKey_new u kMaxSequenceNumber kTypeValue)) \<longleftrightarrow> fm_luser (files ! i) < u"
proof -
  have "ExtractUserKey (fm_lkey (files ! i)) = fm_luser (files ! i)"
    by (simp add: fm_lkey_def fm_luser_def InternalKey_Encode_def InternalKey_user_key_def)
  then show ?thesis
    using FindFile_cut(2) [OF assms(1,3)] max_key_first [of "fm_lkey (files ! i)" u] assms(2,3)
    by (simp add: ikeys_ok_def list_all_length)
qed

lemma overlaps_sorted:
  assumes "level_sorted files" "ikeys_ok files"
  shows "SomeFileOverlapsRange BytewiseComparator True files b e \<longleftrightarrow> (\<exists>f\<in>set files. overlaps b e f)"
proof -
  define index where "index = (case b of None \<Rightarrow> 0
    | Some u \<Rightarrow> FindFile BytewiseComparator files (InternalKey_Encode (InternalKey_new u kMaxSequenceNumber kTypeValue)))"
  have before: "\<not> overlaps b e (files ! i)" if "i < index" "i < length files" for i
  proof (cases b)
    case (Some u)
    then have "fm_luser (files ! i) < u" using FindFile_user [OF assms that(2)] that(1) by (simp add: index_def)
    then show ?thesis using Some by (auto simp: overlaps_def dest: leD)
  qed (use that in \<open>simp add: index_def\<close>)
  have at: "(case b of None \<Rightarrow> True | Some u \<Rightarrow> u \<le> fm_luser (files ! i))" if "index \<le> i" "i < length files" for i
  proof (cases b)
    case (Some u)
    then have "\<not> i < FindFile BytewiseComparator files (InternalKey_Encode (InternalKey_new u kMaxSequenceNumber kTypeValue))"
      using that(1) by (simp add: index_def)
    then show ?thesis using FindFile_user [OF assms that(2)] Some by simp
  qed simp
  have mono: "fm_suser (files ! index) \<le> fm_suser (files ! i)" if "index \<le> i" "i < length files" for i
    using ikey_user_mono(1) [OF level_sorted_smallest [OF assms(1) that]] by (simp add: file_users)
  have eq: "SomeFileOverlapsRange BytewiseComparator True files b e \<longleftrightarrow> index < length files \<and> \<not> BeforeFile BytewiseComparator e (files ! index)"
    by (auto simp: SomeFileOverlapsRange_def index_def kValueTypeForSeek_def Let_def not_le split: option.splits)
  show ?thesis
  proof
    assume "SomeFileOverlapsRange BytewiseComparator True files b e"
    then have "index < length files" "overlaps b e (files ! index)"
      using eq at [of index] by (auto simp: overlaps_def BeforeFile_def user_signs not_less split: option.splits)
    then show "\<exists>f\<in>set files. overlaps b e f" using nth_mem by blast
  next
    assume "\<exists>f\<in>set files. overlaps b e f"
    then obtain i where i: "i < length files" "overlaps b e (files ! i)" by (auto simp: in_set_conv_nth)
    then have "index \<le> i" using before by (meson leI)
    with i mono [OF this i(1)] show "SomeFileOverlapsRange BytewiseComparator True files b e"
      unfolding eq by (auto simp: overlaps_def BeforeFile_def user_signs split: option.splits)
  qed
qed

lemma overlaps_any: "SomeFileOverlapsRange BytewiseComparator False files b e \<longleftrightarrow> (\<exists>f\<in>set files. overlaps b e f)"
  by (auto simp: SomeFileOverlapsRange_def list_ex_iff overlaps_tests)

section \<open>The inputs of a compaction\<close>

lemma overlapping_loop_plain:
  assumes "0 < level"
  shows "overlapping_loop BytewiseComparator level files i b e inputs = Some (inputs @ filter (overlaps b e) (drop i files))"
proof (induction "length files - i" arbitrary: i inputs)
  case 0
  then show ?case by (subst overlapping_loop.simps) simp
next
  case (Suc n)
  then have i: "i < length files" "drop i files = files ! i # drop (i + 1) files" by (simp_all add: Cons_nth_drop_Suc)
  have "n = length files - (i + 1)" using Suc by simp
  note IH = Suc.hyps(1) [OF this]
  show ?case
    using assms i IH by (subst overlapping_loop.simps)
      (auto simp: overlaps_def user_signs Let_def not_less split: option.splits)
qed

text \<open>In level 0 a restart widens the range to a file that sticks out, so there are fewer such files.\<close>

definition outside :: "FileMetaData list \<Rightarrow> bytes option \<Rightarrow> bytes option \<Rightarrow> nat" where
  "outside files b e = length (filter (\<lambda>f. case b of None \<Rightarrow> False | Some u \<Rightarrow> fm_suser f < u) files) +
     length (filter (\<lambda>f. case e of None \<Rightarrow> False | Some u \<Rightarrow> u < fm_luser f) files)"

definition inside :: "bytes option \<Rightarrow> bytes option \<Rightarrow> FileMetaData \<Rightarrow> bool" where
  "inside b e f \<longleftrightarrow> (case b of None \<Rightarrow> True | Some u \<Rightarrow> u \<le> fm_suser f) \<and> (case e of None \<Rightarrow> True | Some u \<Rightarrow> fm_luser f \<le> u)"

definition wider :: "bytes option \<Rightarrow> bytes option \<Rightarrow> bytes option \<Rightarrow> bytes option \<Rightarrow> bool" where
  "wider b e b' e' \<longleftrightarrow> (case (b, b') of (None, None) \<Rightarrow> True | (Some u, Some u') \<Rightarrow> u' \<le> u | _ \<Rightarrow> False) \<and>
     (case (e, e') of (None, None) \<Rightarrow> True | (Some u, Some u') \<Rightarrow> u \<le> u' | _ \<Rightarrow> False)"

lemma wider_refl: "wider b e b e"
  by (simp add: wider_def split: option.splits)

lemma wider_trans: "wider b e b1 e1 \<Longrightarrow> wider b1 e1 b' e' \<Longrightarrow> wider b e b' e'"
  by (auto simp: wider_def split: option.splits)

lemma filter_shrinks:
  assumes "\<And>x. P x \<Longrightarrow> Q x" "y \<in> set xs" "Q y" "\<not> P y"
  shows "length (filter P xs) < length (filter Q xs)"
proof -
  have "filter P xs = filter P (filter Q xs)" using assms(1) by (induction xs) auto
  moreover have "length (filter P (filter Q xs)) < length (filter Q xs)"
    using assms by (intro length_filter_less [of y]) auto
  ultimately show ?thesis by simp
qed

lemma outside_widen:
  assumes "f \<in> set files"
  shows "b = Some u \<Longrightarrow> fm_suser f < u \<Longrightarrow> outside files (Some (fm_suser f)) e < outside files b e"
    "e = Some u \<Longrightarrow> u < fm_luser f \<Longrightarrow> outside files b (Some (fm_luser f)) < outside files b e"
  using assms
  by (auto simp: outside_def intro!: filter_shrinks [of _ _ f] elim: order.strict_trans)

lemma overlapping_loop_zero:
  assumes "\<forall>f\<in>set files. fm_suser f \<le> fm_luser f" "inputs = filter (overlaps b e) (take i files)"
    "list_all (inside b e) inputs" "i \<le> length files"
  shows "\<exists>b' e'. wider b e b' e' \<and> overlapping_loop BytewiseComparator 0 files i b e inputs = Some (filter (overlaps b' e') files) \<and>
    list_all (inside b' e') (filter (overlaps b' e') files)"
  using assms(2-4)
proof (induction "outside files b e * (length files + 1) + (length files - i)" arbitrary: b e i inputs rule: less_induct)
  case less
  note step = overlapping_loop.simps [of BytewiseComparator 0 files i b e inputs]
  show ?case
  proof (cases "i < length files")
    case False
    then have "overlapping_loop BytewiseComparator 0 files i b e inputs = Some (filter (overlaps b e) files)"
      using less.prems by (subst step) simp
    then show ?thesis using less.prems False wider_refl [of b e] by auto
  next
    case True
    let ?f = "files ! i"
    have tk: "take (i + 1) files = take i files @ [?f]" using True by (simp add: take_Suc_conv_app_nth)
    have f: "?f \<in> set files" "fm_suser ?f \<le> fm_luser ?f" using True assms(1) by auto
    have restart: ?thesis if o: "outside files b1 e1 < outside files b e" and w: "wider b e b1 e1"
      and eq: "overlapping_loop BytewiseComparator 0 files i b e inputs = overlapping_loop BytewiseComparator 0 files 0 b1 e1 []" for b1 e1
    proof -
      have "outside files b1 e1 * (length files + 1) + (length files - 0) < outside files b e * (length files + 1) + (length files - i)"
        using mult_le_mono1 [of "outside files b1 e1 + 1" "outside files b e" "length files + 1"] o by simp
      from less.hyps [OF this, of "[]"] obtain b' e' where "wider b1 e1 b' e'"
        "overlapping_loop BytewiseComparator 0 files 0 b1 e1 [] = Some (filter (overlaps b' e') files)"
        "list_all (inside b' e') (filter (overlaps b' e') files)" by auto
      moreover have "wider b e b' e'" using w \<open>wider b1 e1 b' e'\<close> by (rule wider_trans)
      ultimately show ?thesis using eq by auto
    qed
    have go_on: ?thesis if ins: "ins = inputs @ (if overlaps b e ?f then [?f] else [])" and i: "overlaps b e ?f \<longrightarrow> inside b e ?f"
      and eq: "overlapping_loop BytewiseComparator 0 files i b e inputs = overlapping_loop BytewiseComparator 0 files (i + 1) b e ins" for ins
      unfolding eq using less.prems True tk ins i by (intro less.hyps) auto
    consider (skip) "\<not> overlaps b e ?f" | (low) u where "overlaps b e ?f" "b = Some u" "fm_suser ?f < u"
      | (high) u where "overlaps b e ?f" "\<not> (\<exists>u. b = Some u \<and> fm_suser ?f < u)" "e = Some u" "u < fm_luser ?f"
      | (take) "overlaps b e ?f" "inside b e ?f"
      unfolding inside_def by (cases b; cases e) (simp_all, (metis not_le)+)
    then show ?thesis
    proof cases
      case skip
      then show ?thesis using True
        by (intro go_on) (auto simp: step overlaps_def user_signs Let_def not_le split: option.splits)
    next
      case low
      then have "overlapping_loop BytewiseComparator 0 files i b e inputs = overlapping_loop BytewiseComparator 0 files 0 (Some (fm_suser ?f)) e []"
        using True by (subst step) (auto simp: overlaps_def user_signs Let_def not_less split: option.splits)
      then show ?thesis using low outside_widen(1) [OF f(1) low(2,3), of e]
        by (intro restart [of "Some (fm_suser ?f)" e]) (auto simp: wider_def split: option.splits)
    next
      case high
      then have "overlapping_loop BytewiseComparator 0 files i b e inputs = overlapping_loop BytewiseComparator 0 files 0 b (Some (fm_luser ?f)) []"
        using True by (subst step) (auto simp: overlaps_def user_signs Let_def not_less split: option.splits)
      then show ?thesis using high outside_widen(2) [OF f(1) high(3,4), of b]
        by (intro restart [of b "Some (fm_luser ?f)"]) (auto simp: wider_def split: option.splits)
    next
      case take
      then show ?thesis using True
        by (intro go_on [of "inputs @ [?f]"])
          (auto simp: step overlaps_def inside_def user_signs Let_def not_less split: option.splits)
    qed
  qed
qed

section \<open>Boundary files\<close>

definition files_ok :: "FileMetaData list \<Rightarrow> bool" where
  "files_ok files = list_all (\<lambda>f. sk f \<le> lk f) files"

text \<open>A file continues the user key of a largest key: it starts after it, with the same user key.\<close>

definition boundary :: "ikey \<Rightarrow> FileMetaData \<Rightarrow> bool" where
  "boundary L f \<longleftrightarrow> L < sk f \<and> ik_user L = fm_suser f"

abbreviation ik :: "InternalKey \<Rightarrow> ikey" where "ik k \<equiv> ikey_of (InternalKey_Encode k)"

lemma ik_largest: "ik (fm_largest f) = lk f"
  by (simp add: fm_lkey_def)

lemma smaller_boundary_eq:
  "smaller_boundary BytewiseComparator k acc f =
    (if boundary (ik k) f then (case acc of None \<Rightarrow> Some f | Some g \<Rightarrow> if sk f < sk g then Some f else acc) else acc)"
  by (auto simp: smaller_boundary_def boundary_def InternalKey_signs user_signs InternalKey_user_key_def InternalKey_Encode_def
      ikey_of_def split: option.splits)

lemma FindSmallestBoundaryFile_spec:
  "case FindSmallestBoundaryFile BytewiseComparator files k of
     None \<Rightarrow> \<forall>f\<in>set files. \<not> boundary (ik k) f
   | Some f \<Rightarrow> f \<in> set files \<and> boundary (ik k) f \<and> (\<forall>g\<in>set files. boundary (ik k) g \<longrightarrow> sk f \<le> sk g)"
proof -
  have "(case foldl (smaller_boundary BytewiseComparator k) acc fs of
      None \<Rightarrow> acc = None \<and> (\<forall>f\<in>set fs. \<not> boundary (ik k) f)
    | Some f \<Rightarrow> (f \<in> set fs \<or> acc = Some f) \<and> boundary (ik k) f \<and> (\<forall>g\<in>set fs. boundary (ik k) g \<longrightarrow> sk f \<le> sk g) \<and>
        (\<forall>g. acc = Some g \<longrightarrow> sk f \<le> sk g))" if "\<forall>g. acc = Some g \<longrightarrow> boundary (ik k) g" for acc fs
    using that
  proof (induction fs arbitrary: acc)
    case Nil
    then show ?case by (simp split: option.splits)
  next
    case (Cons f fs)
    let ?acc = "smaller_boundary BytewiseComparator k acc f"
    have acc: "\<forall>g. ?acc = Some g \<longrightarrow> boundary (ik k) g" "?acc = acc \<or> ?acc = Some f"
      "boundary (ik k) f \<Longrightarrow> \<exists>g. ?acc = Some g \<and> sk g \<le> sk f" "acc = Some h \<Longrightarrow> \<exists>g. ?acc = Some g \<and> sk g \<le> sk h" for h
      using Cons.prems by (auto simp: smaller_boundary_eq not_less split: option.splits)
    note IH = Cons.IH [OF acc(1)]
    show ?case
    proof (cases "foldl (smaller_boundary BytewiseComparator k) ?acc fs")
      case None
      then have "?acc = None" "\<forall>f\<in>set fs. \<not> boundary (ik k) f" using IH by simp_all
      then have "acc = None" "\<not> boundary (ik k) f" using acc(4) acc(3) by (metis option.distinct(1) not_None_eq)+
      with None \<open>\<forall>f\<in>set fs. \<not> boundary (ik k) f\<close> show ?thesis by simp
    next
      case (Some g)
      then have g: "g \<in> set fs \<or> ?acc = Some g" "boundary (ik k) g" "\<forall>h\<in>set fs. boundary (ik k) h \<longrightarrow> sk g \<le> sk h"
        "\<forall>h. ?acc = Some h \<longrightarrow> sk g \<le> sk h" using IH by simp_all
      have "boundary (ik k) f \<longrightarrow> sk g \<le> sk f" using acc(3) g(4) by (meson order.trans)
      moreover have "\<forall>h. acc = Some h \<longrightarrow> sk g \<le> sk h" using acc(4) g(4) by (metis order.trans)
      moreover have "g \<in> set (f # fs) \<or> acc = Some g" using g(1) acc(2) by auto
      ultimately show ?thesis using Some g by simp
    qed
  qed
  from this [of None files] show ?thesis by (simp add: FindSmallestBoundaryFile_def split: option.splits)
qed

text \<open>The largest key grows with every boundary file, so the search ends, and then no boundary file is left.\<close>

lemma boundary_loop_ends:
  assumes "files_ok level_files"
  shows "\<exists>extra L. boundary_loop BytewiseComparator level_files k cf = Some (cf @ extra) \<and> set extra \<subseteq> set level_files \<and>
    (\<forall>f\<in>set level_files. \<not> boundary L f) \<and> L = (if extra = [] then ik k else lk (last extra)) \<and>
    ik k \<le> L \<and> (\<forall>f\<in>set extra. lk f \<le> L \<and> fm_suser f \<le> ik_user L)"
proof (induction "length (filter (\<lambda>f. ik k < sk f) level_files)" arbitrary: k cf rule: less_induct)
  case less
  show ?case
  proof (cases "FindSmallestBoundaryFile BytewiseComparator level_files k")
    case None
    then have "boundary_loop BytewiseComparator level_files k cf = Some cf" by (subst boundary_loop.simps) simp
    moreover have "\<forall>f\<in>set level_files. \<not> boundary (ik k) f" using FindSmallestBoundaryFile_spec [of level_files k] None by simp
    ultimately show ?thesis by (intro exI [of _ "[]"] exI [of _ "ik k"]) simp
  next
    case (Some f)
    then have f: "f \<in> set level_files" "boundary (ik k) f" using FindSmallestBoundaryFile_spec [of level_files k] by simp_all
    have le: "sk f \<le> lk f" using assms f(1) by (simp add: files_ok_def list_all_iff)
    have kf: "ik k < lk f" using f(2) le by (auto simp: boundary_def)
    have "length (filter (\<lambda>g. lk f < sk g) level_files) < length (filter (\<lambda>g. ik k < sk g) level_files)"
      using f le kf by (intro filter_shrinks [of _ _ f]) (auto simp: boundary_def not_less)
    from less [of "fm_largest f" "cf @ [f]", unfolded ik_largest, OF this] obtain extra L where
      e: "boundary_loop BytewiseComparator level_files (fm_largest f) (cf @ [f]) = Some ((cf @ [f]) @ extra)" "set extra \<subseteq> set level_files"
      "\<forall>g\<in>set level_files. \<not> boundary L g" "L = (if extra = [] then lk f else lk (last extra))" "lk f \<le> L"
      "\<forall>g\<in>set extra. lk g \<le> L \<and> fm_suser g \<le> ik_user L" by auto
    have "fm_suser f \<le> ik_user L" using ikey_user_mono(1) [OF order.trans [OF le e(5)]] by (simp add: file_users)
    moreover have "boundary_loop BytewiseComparator level_files k cf = Some (cf @ f # extra)"
      using e(1) Some by (subst boundary_loop.simps) simp
    ultimately show ?thesis using e f(1) kf by (intro exI [of _ "f # extra"] exI [of _ L]) auto
  qed
qed

lemma FindLargestKey_spec:
  assumes "files \<noteq> []"
  obtains g where "g \<in> set files" "FindLargestKey BytewiseComparator files = Some (fm_largest g)" "\<forall>h\<in>set files. lk h \<le> lk g"
proof -
  let ?step = "\<lambda>largest f. if InternalKey_Compare BytewiseComparator (fm_lkey f) (InternalKey_Encode largest) > 0 then fm_largest f else largest"
  have all: "\<exists>g\<in>insert f (set fs). foldl ?step (fm_largest f) fs = fm_largest g \<and> (\<forall>h\<in>insert f (set fs). lk h \<le> lk g)" for f fs
  proof (induction fs arbitrary: f)
    case (Cons x fs)
    define y where "y = (if lk f < lk x then x else f)"
    have "?step (fm_largest f) x = fm_largest y" by (simp add: y_def InternalKey_signs ik_largest)
    with Cons.IH [of y] obtain g where g: "g \<in> insert y (set fs)" "foldl ?step (fm_largest f) (x # fs) = fm_largest g"
      "\<forall>h\<in>insert y (set fs). lk h \<le> lk g" by auto
    have y: "lk f \<le> lk y" "lk x \<le> lk y" "y = x \<or> y = f" by (auto simp: y_def)
    have "lk y \<le> lk g" using g(3) by blast
    then have "\<forall>h\<in>insert f (set (x # fs)). lk h \<le> lk g" using g(3) order.trans [OF y(1)] order.trans [OF y(2)] by simp
    moreover have "g \<in> insert f (set (x # fs))" using g(1) y(3) by auto
    ultimately show ?case using g(2) by blast
  qed simp
  obtain f fs where fs: "files = f # fs" using assms by (cases files) auto
  from all [of f fs] show thesis using that by (auto simp: fs FindLargestKey_def)
qed

section \<open>Properties\<close>

text \<open>
  \<open>SomeFileOverlapsRange\<close> tells whether some file of a level meets a range of user keys, open
  where a bound is missing: by looking at every file, and, above level 0, by binary search among the
  sorted files and a look at one of them.
\<close>

lemma SomeFileOverlapsRange_correct:
  assumes "disjoint \<longrightarrow> level_sorted files \<and> ikeys_ok files"
  shows "SomeFileOverlapsRange BytewiseComparator disjoint files b e \<longleftrightarrow>
    (\<exists>f\<in>set files. (case b of None \<Rightarrow> True | Some u \<Rightarrow> u \<le> fm_luser f) \<and> (case e of None \<Rightarrow> True | Some u \<Rightarrow> fm_suser f \<le> u))"
  using overlaps_any [of files b e] overlaps_sorted [of files b e] assms unfolding overlaps_def by (cases disjoint) auto

definition file_a :: FileMetaData where
  "file_a = FileMetaData_of 7 100 (InternalKey_new [1] 5 kTypeValue) (InternalKey_new [3] 9 kTypeValue)"

definition file_b :: FileMetaData where
  "file_b = FileMetaData_of 8 100 (InternalKey_new [3] 4 kTypeValue) (InternalKey_new [6] 2 kTypeValue)"

lemma user_and_tag: "ExtractUserKey (u # EncodeFixed64 w) = [u]" "ikey_tag (u # EncodeFixed64 w) = w"
  using ExtractUserKey_append [of "EncodeFixed64 w" "[u]"] ikey_tag_append [of "EncodeFixed64 w" "[u]"] by simp_all

lemma file_ab:
  "sk file_a = IKey [1] 0x501" "lk file_a = IKey [3] 0x901" "sk file_b = IKey [3] 0x401" "lk file_b = IKey [6] 0x201"
  "fm_suser file_a = [1]" "fm_luser file_a = [3]" "fm_suser file_b = [3]" "fm_luser file_b = [6]"
  by (simp_all add: file_a_def file_b_def FileMetaData_of_def fm_skey_def fm_lkey_def fm_suser_def fm_luser_def InternalKey_new_def
      InternalKey_Encode_def InternalKey_user_key_def AppendInternalKey_eq ikey_of_def PackSequenceAndType_def user_and_tag)

lemma file_ab_ok: "level_sorted [file_a, file_b]" "ikeys_ok [file_a, file_b]"
proof -
  show "level_sorted [file_a, file_b]" by (simp add: level_sorted_def file_ab less_ikey_def less_eq_ikey_def)
  have "ikey_tag (fm_lkey file_a) = 0x901" "ikey_tag (fm_lkey file_b) = 0x201" using file_ab(2,4) by (simp_all add: ikey_of_def)
  then show "ikeys_ok [file_a, file_b]"
    by (simp add: ikeys_ok_def PackSequenceAndType_def kMaxSequenceNumber_val word_le_nat_alt)
qed



text \<open>
  C26: \<open>AddBoundaryInputs\<close> always returns, adds only files of the level, and afterwards no file of the
  level continues the user key of the largest key of the compaction: no file starts after it with the
  same user key. Older entries of a key are therefore never left behind in the level.
\<close>

theorem AddBoundaryInputs_complete:
  assumes "files_ok level_files" "cf \<noteq> []"
  shows "\<exists>extra. AddBoundaryInputs BytewiseComparator level_files cf = Some (cf @ extra) \<and> set extra \<subseteq> set level_files \<and>
    (\<exists>g\<in>set (cf @ extra). (\<forall>h\<in>set (cf @ extra). lk h \<le> lk g) \<and>
      (\<forall>f\<in>set level_files. \<not> (lk g < sk f \<and> fm_suser f = fm_luser g)))"
proof -
  obtain g where g: "g \<in> set cf" "FindLargestKey BytewiseComparator cf = Some (fm_largest g)" "\<forall>h\<in>set cf. lk h \<le> lk g"
    using FindLargestKey_spec [OF assms(2)] .
  obtain extra L where e: "boundary_loop BytewiseComparator level_files (fm_largest g) cf = Some (cf @ extra)" "set extra \<subseteq> set level_files"
    "\<forall>f\<in>set level_files. \<not> boundary L f" "L = (if extra = [] then lk g else lk (last extra))" "lk g \<le> L" "\<forall>f\<in>set extra. lk f \<le> L"
    using boundary_loop_ends [OF assms(1), of "fm_largest g" cf] unfolding ik_largest by blast
  define h where "h = (if extra = [] then g else last extra)"
  have h: "h \<in> set (cf @ extra)" "lk h = L" using g(1) e(4) by (auto simp: h_def)
  have "\<forall>f\<in>set (cf @ extra). lk f \<le> lk h" using g(3) e(5,6) h(2) by (auto intro: order.trans)
  moreover have "\<forall>f\<in>set level_files. \<not> (lk h < sk f \<and> fm_suser f = fm_luser h)"
    using e(3) h(2) file_users(2) [of h] by (auto simp: boundary_def)
  moreover have "AddBoundaryInputs BytewiseComparator level_files cf = Some (cf @ extra)"
    using e(1) g(2) by (simp add: AddBoundaryInputs_def)
  ultimately show ?thesis using e(2) h(1) by blast
qed

theorem AddBoundaryInputs_complete_witness:
  "\<exists>extra. AddBoundaryInputs BytewiseComparator [file_a, file_b] [file_a] = Some (file_a # extra) \<and> file_b \<in> set (file_a # extra)"
proof -
  have "files_ok [file_a, file_b]" by (simp add: files_ok_def file_ab less_eq_ikey_def)
  from AddBoundaryInputs_complete [OF this, of "[file_a]"] obtain extra g where
    e: "AddBoundaryInputs BytewiseComparator [file_a, file_b] [file_a] = Some (file_a # extra)" "set extra \<subseteq> {file_a, file_b}"
    "g \<in> set (file_a # extra)" "\<not> (lk g < sk file_b \<and> fm_suser file_b = fm_luser g)" by auto
  then show ?thesis by (auto simp: file_ab less_ikey_def)
qed

end
