(* ===== verification/Compaction.thy ===== *)
theory Compaction
  imports Version_Files "HOL-Library.Monad_Syntax"
begin

text \<open>
  Compactions (\<^verbatim>\<open>kv/db/version_set.cpp\<close>): the class \<open>Compaction\<close> and the functions of \<open>VersionSet\<close> that
  choose what to compact. The version set has the parts these functions use; its list of versions and
  the reference counts of versions are not modelled. \<open>max_file_size\<close> is the option of that name. A
  result \<open>None\<close> is a failed assertion, a read out of range or a loop that does not end.
\<close>

section \<open>The version set\<close>

record VersionSet =
  vs_next_file_number :: u64
  vs_manifest_file_number :: u64
  vs_last_sequence :: u64
  vs_log_number :: u64
  vs_prev_log_number :: u64
  vs_current :: Version
  vs_compact_pointer :: "bytes list"

definition VersionSet_new :: VersionSet where
  "VersionSet_new =
     \<lparr> vs_next_file_number = 2, vs_manifest_file_number = 0, vs_last_sequence = 0, vs_log_number = 0, vs_prev_log_number = 0,
       vs_current = Version_new, vs_compact_pointer = replicate kNumLevels [] \<rparr>"

definition NewFileNumber :: "'a VersionSet_scheme \<Rightarrow> u64 \<times> 'a VersionSet_scheme" where
  "NewFileNumber vs = (vs_next_file_number vs, vs \<lparr> vs_next_file_number := vs_next_file_number vs + 1 \<rparr>)"

definition ReuseFileNumber :: "'a VersionSet_scheme \<Rightarrow> u64 \<Rightarrow> 'a VersionSet_scheme" where
  "ReuseFileNumber vs file_number =
     (if vs_next_file_number vs = file_number + 1 then vs \<lparr> vs_next_file_number := file_number \<rparr> else vs)"

definition MarkFileNumberUsed :: "'a VersionSet_scheme \<Rightarrow> u64 \<Rightarrow> 'a VersionSet_scheme" where
  "MarkFileNumberUsed vs number =
     (if vs_next_file_number vs \<le> number then vs \<lparr> vs_next_file_number := number + 1 \<rparr> else vs)"

definition vs_SetLastSequence :: "'a VersionSet_scheme \<Rightarrow> u64 \<Rightarrow> 'a VersionSet_scheme option" where
  "vs_SetLastSequence vs s = (if vs_last_sequence vs \<le> s then Some (vs \<lparr> vs_last_sequence := s \<rparr>) else None)"

definition NumLevelFiles :: "'a VersionSet_scheme \<Rightarrow> nat \<Rightarrow> nat" where
  "NumLevelFiles vs level = length (v_files (vs_current vs) ! level)"

definition NumLevelBytes :: "'a VersionSet_scheme \<Rightarrow> nat \<Rightarrow> int" where
  "NumLevelBytes vs level = TotalFileSize (v_files (vs_current vs) ! level)"

definition NeedsCompaction :: "'a VersionSet_scheme \<Rightarrow> bool" where
  "NeedsCompaction vs = (v_compaction_score (vs_current vs) \<ge> 1 \<or> v_file_to_compact (vs_current vs) \<noteq> None)"

definition level_overlaps :: "Comparator \<Rightarrow> Version \<Rightarrow> nat \<Rightarrow> int \<Rightarrow> FileMetaData \<Rightarrow> int option" where
  "level_overlaps uc v level result f =
     do { overlaps \<leftarrow> GetOverlappingInputs uc v (level + 1) (Some (fm_smallest f)) (Some (fm_largest f));
          Some (max result (TotalFileSize overlaps)) }"

fun fold_option :: "('b \<Rightarrow> 'a \<Rightarrow> 'b option) \<Rightarrow> 'b \<Rightarrow> 'a list \<Rightarrow> 'b option" where
  "fold_option f s [] = Some s"
| "fold_option f s (x # xs) = do { s \<leftarrow> f s x; fold_option f s xs }"

definition MaxNextLevelOverlappingBytes :: "Comparator \<Rightarrow> 'a VersionSet_scheme \<Rightarrow> int option" where
  "MaxNextLevelOverlappingBytes uc vs =
     fold_option (\<lambda>result level. fold_option (level_overlaps uc (vs_current vs) level) result (v_files (vs_current vs) ! level)) 0 [1..<kNumLevels - 1]"

section \<open>The class Compaction\<close>

definition TargetFileSize :: "u64 \<Rightarrow> u64" where
  "TargetFileSize max_file_size = max_file_size"

definition MaxFileSizeForLevel :: "u64 \<Rightarrow> nat \<Rightarrow> u64" where
  "MaxFileSizeForLevel max_file_size level = TargetFileSize max_file_size"

record Compaction =
  cp_level :: nat
  cp_max_output_file_size :: u64
  cp_input_version :: "Version option"
  cp_edit :: VersionEdit
  cp_inputs0 :: "FileMetaData list"
  cp_inputs1 :: "FileMetaData list"
  cp_grandparents :: "FileMetaData list"
  cp_grandparent_index :: nat
  cp_seen_key :: bool
  cp_overlapped_bytes :: int
  cp_level_ptrs :: "nat list"

definition Compaction_new :: "u64 \<Rightarrow> nat \<Rightarrow> Compaction" where
  "Compaction_new max_file_size level =
     \<lparr> cp_level = level, cp_max_output_file_size = MaxFileSizeForLevel max_file_size level, cp_input_version = None, cp_edit = VersionEdit_new,
       cp_inputs0 = [], cp_inputs1 = [], cp_grandparents = [], cp_grandparent_index = 0, cp_seen_key = False, cp_overlapped_bytes = 0,
       cp_level_ptrs = replicate kNumLevels 0 \<rparr>"

definition num_input_files :: "Compaction \<Rightarrow> nat \<Rightarrow> nat" where
  "num_input_files c which = length (if which = 0 then cp_inputs0 c else cp_inputs1 c)"

definition IsTrivialMove :: "u64 \<Rightarrow> Compaction \<Rightarrow> bool" where
  "IsTrivialMove max_file_size c =
     (num_input_files c 0 = 1 \<and> num_input_files c 1 = 0 \<and> TotalFileSize (cp_grandparents c) \<le> MaxGrandParentOverlapBytes max_file_size)"

definition AddInputDeletions :: "Compaction \<Rightarrow> VersionEdit \<Rightarrow> VersionEdit" where
  "AddInputDeletions c edit =
     (let edit = foldl (\<lambda>edit f. RemoveFile edit (cp_level c) (fm_number f)) edit (cp_inputs0 c)
      in foldl (\<lambda>edit f. RemoveFile edit (cp_level c + 1) (fm_number f)) edit (cp_inputs1 c))"

text \<open>The loop over one level: where it stops, and whether the key falls in the range of a file there.\<close>

function advance_level :: "Comparator \<Rightarrow> FileMetaData list \<Rightarrow> bytes \<Rightarrow> nat \<Rightarrow> nat \<times> bool" where
  "advance_level uc files user_key p =
     (if p < length files
      then (if cmp_Compare uc user_key (fm_luser (files ! p)) \<le> 0
            then (p, cmp_Compare uc user_key (fm_suser (files ! p)) \<ge> 0)
            else advance_level uc files user_key (p + 1))
      else (p, False))"
  by pat_completeness auto
termination
  by (relation "measure (\<lambda>(uc, files, user_key, p). length files - p)") auto

declare advance_level.simps [simp del]

fun base_level_loop :: "Comparator \<Rightarrow> Version \<Rightarrow> bytes \<Rightarrow> nat list \<Rightarrow> nat list \<Rightarrow> nat list \<times> bool" where
  "base_level_loop uc v user_key ptrs [] = (ptrs, True)"
| "base_level_loop uc v user_key ptrs (lvl # lvls) =
     (let (p, falls) = advance_level uc (v_files v ! lvl) user_key (ptrs ! lvl); ptrs = ptrs[lvl := p]
      in if falls then (ptrs, False) else base_level_loop uc v user_key ptrs lvls)"

definition IsBaseLevelForKey :: "Comparator \<Rightarrow> Compaction \<Rightarrow> bytes \<Rightarrow> (Compaction \<times> bool) option" where
  "IsBaseLevelForKey uc c user_key =
     do { v \<leftarrow> cp_input_version c;
          let (ptrs, base) = base_level_loop uc v user_key (cp_level_ptrs c) [cp_level c + 2..<kNumLevels] in
          Some (c \<lparr> cp_level_ptrs := ptrs \<rparr>, base) }"

function advance_grandparents :: "Comparator \<Rightarrow> FileMetaData list \<Rightarrow> bytes \<Rightarrow> bool \<Rightarrow> nat \<Rightarrow> int \<Rightarrow> nat \<times> int" where
  "advance_grandparents uc files internal_key seen_key i overlapped =
     (if i < length files \<and> InternalKey_Compare uc internal_key (fm_lkey (files ! i)) > 0
      then advance_grandparents uc files internal_key seen_key (i + 1)
             (if seen_key then sint (word_of_int overlapped + fm_file_size (files ! i)) else overlapped)
      else (i, overlapped))"
  by pat_completeness auto
termination
  by (relation "measure (\<lambda>(uc, files, k, s, i, ov). length files - i)") auto

declare advance_grandparents.simps [simp del]

definition ShouldStopBefore :: "Comparator \<Rightarrow> u64 \<Rightarrow> Compaction \<Rightarrow> bytes \<Rightarrow> Compaction \<times> bool" where
  "ShouldStopBefore uc max_file_size c internal_key =
     (let (i, overlapped) = advance_grandparents uc (cp_grandparents c) internal_key (cp_seen_key c) (cp_grandparent_index c) (cp_overlapped_bytes c);
          c = c \<lparr> cp_grandparent_index := i, cp_overlapped_bytes := overlapped, cp_seen_key := True \<rparr>
      in if overlapped > MaxGrandParentOverlapBytes max_file_size
         then (c \<lparr> cp_overlapped_bytes := 0 \<rparr>, True)
         else (c, False))"

definition ReleaseInputs :: "Compaction \<Rightarrow> Compaction" where
  "ReleaseInputs c = c \<lparr> cp_input_version := None \<rparr>"

section \<open>Choosing the inputs\<close>

text \<open>\<open>GetRange\<close> asserts that there is a file.\<close>

definition range_of :: "Comparator \<Rightarrow> FileMetaData list \<Rightarrow> (InternalKey \<times> InternalKey) option" where
  "range_of uc inputs = (if inputs = [] then None else Some (GetRange uc inputs))"

text \<open>The part of \<open>SetupOtherInputs\<close> that tries to grow the inputs: both inputs, the largest key, and the whole range.\<close>

definition expand_inputs ::
  "Comparator \<Rightarrow> u64 \<Rightarrow> Version \<Rightarrow> nat \<Rightarrow> FileMetaData list \<Rightarrow> FileMetaData list \<Rightarrow> InternalKey \<Rightarrow> InternalKey \<times> InternalKey \<Rightarrow>
    (FileMetaData list \<times> FileMetaData list \<times> InternalKey \<times> InternalKey \<times> InternalKey) option" where
  "expand_inputs uc max_file_size v level inputs0 inputs1 largest all =
     (if inputs1 = [] then Some (inputs0, inputs1, largest, all)
      else do {
        expanded0 \<leftarrow> GetOverlappingInputs uc v level (Some (fst all)) (Some (snd all));
        expanded0 \<leftarrow> AddBoundaryInputs uc (v_files v ! level) expanded0;
        if length expanded0 > length inputs0 \<and> TotalFileSize inputs1 + TotalFileSize expanded0 < ExpandedCompactionByteSizeLimit max_file_size
        then do {
          new \<leftarrow> range_of uc expanded0;
          expanded1 \<leftarrow> GetOverlappingInputs uc v (level + 1) (Some (fst new)) (Some (snd new));
          if length expanded1 = length inputs1
          then Some (expanded0, expanded1, snd new, GetRange2 uc expanded0 expanded1)
          else Some (inputs0, inputs1, largest, all) }
        else Some (inputs0, inputs1, largest, all) })"

definition SetupOtherInputs :: "Comparator \<Rightarrow> u64 \<Rightarrow> 'a VersionSet_scheme \<Rightarrow> Compaction \<Rightarrow> ('a VersionSet_scheme \<times> Compaction) option" where
  "SetupOtherInputs uc max_file_size vs c =
     (let level = cp_level c; v = vs_current vs in do {
        inputs0 \<leftarrow> AddBoundaryInputs uc (v_files v ! level) (cp_inputs0 c);
        rng \<leftarrow> range_of uc inputs0;
        inputs1 \<leftarrow> GetOverlappingInputs uc v (level + 1) (Some (fst rng)) (Some (snd rng));
        (inputs0, inputs1, largest, all) \<leftarrow> expand_inputs uc max_file_size v level inputs0 inputs1 (snd rng) (GetRange2 uc inputs0 inputs1);
        grandparents \<leftarrow> (if level + 2 < kNumLevels then GetOverlappingInputs uc v (level + 2) (Some (fst all)) (Some (snd all))
                         else Some (cp_grandparents c));
        Some (vs \<lparr> vs_compact_pointer := (vs_compact_pointer vs)[level := InternalKey_Encode largest] \<rparr>,
              c \<lparr> cp_inputs0 := inputs0, cp_inputs1 := inputs1, cp_grandparents := grandparents,
                  cp_edit := SetCompactPointer (cp_edit c) level largest \<rparr>) })"

text \<open>The file of a level after the compaction pointer, or the first one.\<close>

definition next_file :: "Comparator \<Rightarrow> bytes \<Rightarrow> FileMetaData list \<Rightarrow> FileMetaData option" where
  "next_file uc compact_pointer files =
     (case find (\<lambda>f. compact_pointer = [] \<or> InternalKey_Compare uc (fm_lkey f) compact_pointer > 0) files of
        Some f \<Rightarrow> Some f
      | None \<Rightarrow> (case files of [] \<Rightarrow> None | f # _ \<Rightarrow> Some f))"

definition pick_file :: "Comparator \<Rightarrow> 'a VersionSet_scheme \<Rightarrow> (nat \<times> FileMetaData) option option" where
  "pick_file uc vs =
     (let v = vs_current vs in
      if v_compaction_score v \<ge> 1
      then (let level = v_compaction_level v in
            if 0 \<le> level \<and> level + 1 < int kNumLevels
            then do { f \<leftarrow> next_file uc (vs_compact_pointer vs ! nat level) (v_files v ! nat level); Some (Some (nat level, f)) }
            else None)
      else Some (map_option (\<lambda>f. (nat (v_file_to_compact_level v), f)) (v_file_to_compact v)))"

definition PickCompaction :: "Comparator \<Rightarrow> u64 \<Rightarrow> 'a VersionSet_scheme \<Rightarrow> ('a VersionSet_scheme \<times> Compaction option) option" where
  "PickCompaction uc max_file_size vs = do {
     picked \<leftarrow> pick_file uc vs;
     case picked of
       None \<Rightarrow> Some (vs, None)
     | Some (level, f) \<Rightarrow> do {
         inputs0 \<leftarrow> (if level = 0
           then do { rng \<leftarrow> range_of uc [f];
                     inputs \<leftarrow> GetOverlappingInputs uc (vs_current vs) 0 (Some (fst rng)) (Some (snd rng));
                     if inputs = [] then None else Some inputs }
           else Some [f]);
         (vs', c) \<leftarrow> SetupOtherInputs uc max_file_size vs
           (Compaction_new max_file_size level \<lparr> cp_inputs0 := inputs0, cp_input_version := Some (vs_current vs) \<rparr>);
         Some (vs', Some c) } }"

fun limit_inputs :: "u64 \<Rightarrow> u64 \<Rightarrow> FileMetaData list \<Rightarrow> FileMetaData list" where
  "limit_inputs limit n [] = []"
| "limit_inputs limit n (f # fs) =
     (let n = n + fm_file_size f in if n \<ge> limit then [f] else f # limit_inputs limit n fs)"

definition vs_CompactRange ::
  "Comparator \<Rightarrow> u64 \<Rightarrow> 'a VersionSet_scheme \<Rightarrow> nat \<Rightarrow> InternalKey option \<Rightarrow> InternalKey option \<Rightarrow> ('a VersionSet_scheme \<times> Compaction option) option" where
  "vs_CompactRange uc max_file_size vs level begin_key end_key = do {
     inputs \<leftarrow> GetOverlappingInputs uc (vs_current vs) level begin_key end_key;
     if inputs = [] then Some (vs, None)
     else do {
       let inputs = (if level > 0 then limit_inputs (MaxFileSizeForLevel max_file_size level) 0 inputs else inputs);
       (vs', c) \<leftarrow> SetupOtherInputs uc max_file_size vs
         (Compaction_new max_file_size level \<lparr> cp_input_version := Some (vs_current vs), cp_inputs0 := inputs \<rparr>);
       Some (vs', Some c) } }"

section \<open>Base levels\<close>

definition covers :: "FileMetaData \<Rightarrow> bytes \<Rightarrow> bool" where
  "covers f u \<longleftrightarrow> fm_suser f \<le> u \<and> u \<le> fm_luser f"

lemma user_signs_le: "cmp_Compare BytewiseComparator a b \<le> 0 \<longleftrightarrow> a \<le> b" "0 \<le> cmp_Compare BytewiseComparator a b \<longleftrightarrow> b \<le> a"
  by (metis not_less user_signs(2), metis not_less user_signs(1))

lemma level_sorted_susers: "level_sorted files \<Longrightarrow> i \<le> j \<Longrightarrow> j < length files \<Longrightarrow> fm_suser (files ! i) \<le> fm_suser (files ! j)"
  using ikey_user_mono(1) [OF level_sorted_smallest] by (simp add: file_users)

lemma advance_level_spec:
  assumes "level_sorted files" "p \<le> length files" "\<forall>i<p. fm_luser (files ! i) < u"
  shows "case advance_level BytewiseComparator files u p of (p', falls) \<Rightarrow>
    p' \<le> length files \<and> (\<forall>i<p'. fm_luser (files ! i) < u) \<and> (falls \<longleftrightarrow> (\<exists>f\<in>set files. covers f u))"
  using assms(2,3)
proof (induction "length files - p" arbitrary: p)
  case 0
  then have "\<not> (\<exists>f\<in>set files. covers f u)" by (auto simp: covers_def in_set_conv_nth not_le)
  then show ?case using 0 by (subst advance_level.simps) simp
next
  case (Suc n)
  then have p: "p < length files" by simp
  show ?case
  proof (cases "u \<le> fm_luser (files ! p)")
    case True
    have "fm_suser (files ! p) \<le> u" if "j < length files" "covers (files ! j) u" for j
    proof -
      have "p \<le> j" using that(2) Suc.prems(2) by (auto simp: covers_def not_le [symmetric])
      then show ?thesis using level_sorted_susers [OF assms(1) _ that(1)] that(2) by (auto simp: covers_def intro: order.trans)
    qed
    then have "fm_suser (files ! p) \<le> u \<longleftrightarrow> (\<exists>f\<in>set files. covers f u)"
      using True p by (metis covers_def in_set_conv_nth)
    then show ?thesis using True p Suc.prems(2) by (subst advance_level.simps) (simp add: user_signs_le)
  next
    case False
    have "\<forall>i<p + 1. fm_luser (files ! i) < u" using False Suc.prems(2) by (auto simp: less_Suc_eq not_le)
    then show ?thesis using Suc.hyps(1) [of "p + 1"] Suc.hyps(2) p False by (subst advance_level.simps) (simp add: user_signs_le)
  qed
qed

definition ptrs_ok :: "Version \<Rightarrow> bytes \<Rightarrow> nat list \<Rightarrow> bool" where
  "ptrs_ok v u ptrs \<longleftrightarrow> length ptrs = kNumLevels \<and>
     (\<forall>l<kNumLevels. ptrs ! l \<le> length (v_files v ! l) \<and> (\<forall>i<ptrs ! l. fm_luser (v_files v ! l ! i) < u))"

lemma ptrs_ok_mono: "ptrs_ok v u ptrs \<Longrightarrow> u \<le> u' \<Longrightarrow> ptrs_ok v u' ptrs"
  by (auto simp: ptrs_ok_def intro: order.strict_trans2)

lemma base_level_loop_spec:
  assumes "\<forall>l\<in>set lvls. l < kNumLevels \<and> level_sorted (v_files v ! l)" "ptrs_ok v u ptrs"
  shows "case base_level_loop BytewiseComparator v u ptrs lvls of (ptrs', base) \<Rightarrow>
    ptrs_ok v u ptrs' \<and> (base \<longleftrightarrow> (\<forall>l\<in>set lvls. \<not> (\<exists>f\<in>set (v_files v ! l). covers f u)))"
  using assms
proof (induction lvls arbitrary: ptrs)
  case (Cons l lvls)
  obtain p falls where a: "advance_level BytewiseComparator (v_files v ! l) u (ptrs ! l) = (p, falls)" by fastforce
  have l: "l < kNumLevels" "level_sorted (v_files v ! l)" using Cons.prems(1) by simp_all
  have p: "p \<le> length (v_files v ! l)" "\<forall>i<p. fm_luser (v_files v ! l ! i) < u" "falls \<longleftrightarrow> (\<exists>f\<in>set (v_files v ! l). covers f u)"
    using advance_level_spec [OF l(2), of "ptrs ! l" u] Cons.prems(2) l(1) a by (simp_all add: ptrs_ok_def)
  have ok: "ptrs_ok v u (ptrs[l := p])"
    using Cons.prems(2) p(1,2) unfolding ptrs_ok_def by (metis length_list_update nth_list_update_eq nth_list_update_neq)
  show ?case
  proof (cases falls)
    case True
    then show ?thesis using a ok p(3) by (auto simp: Let_def)
  next
    case False
    have "\<forall>l\<in>set lvls. l < kNumLevels \<and> level_sorted (v_files v ! l)" using Cons.prems(1) by simp
    from Cons.IH [OF this ok] show ?thesis using False a p(3) by (simp add: Let_def)
  qed
qed simp

lemma IsBaseLevelForKey_spec:
  assumes "cp_input_version c = Some v" "\<forall>l<kNumLevels. 0 < l \<longrightarrow> level_sorted (v_files v ! l)" "ptrs_ok v u (cp_level_ptrs c)"
  shows "\<exists>ptrs. IsBaseLevelForKey BytewiseComparator c u = Some (c \<lparr> cp_level_ptrs := ptrs \<rparr>,
      \<forall>l. cp_level c + 2 \<le> l \<and> l < kNumLevels \<longrightarrow> \<not> (\<exists>f\<in>set (v_files v ! l). covers f u)) \<and> ptrs_ok v u ptrs"
proof -
  have "\<forall>l\<in>set [cp_level c + 2..<kNumLevels]. l < kNumLevels \<and> level_sorted (v_files v ! l)" using assms(2) by simp
  from base_level_loop_spec [OF this assms(3)] show ?thesis using assms(1)
    by (auto simp: IsBaseLevelForKey_def split: prod.splits)
qed

fun base_queries :: "Comparator \<Rightarrow> Compaction \<Rightarrow> bytes list \<Rightarrow> (Compaction \<times> bool list) option" where
  "base_queries uc c [] = Some (c, [])"
| "base_queries uc c (u # us) =
     do { (c, base) \<leftarrow> IsBaseLevelForKey uc c u; (c, bases) \<leftarrow> base_queries uc c us; Some (c, base # bases) }"

lemma base_queries_spec:
  assumes "cp_input_version c = Some v" "\<forall>l<kNumLevels. 0 < l \<longrightarrow> level_sorted (v_files v ! l)" "\<forall>u\<in>set us. ptrs_ok v u (cp_level_ptrs c)" "sorted us"
  shows "\<exists>c'. base_queries BytewiseComparator c us =
    Some (c', map (\<lambda>u. \<forall>l. cp_level c + 2 \<le> l \<and> l < kNumLevels \<longrightarrow> \<not> (\<exists>f\<in>set (v_files v ! l). covers f u)) us)"
  using assms(1,3,4)
proof (induction us arbitrary: c)
  case (Cons u us)
  have "ptrs_ok v u (cp_level_ptrs c)" using Cons.prems(2) by simp
  from IsBaseLevelForKey_spec [OF Cons.prems(1) assms(2) this] obtain ptrs where
    c: "IsBaseLevelForKey BytewiseComparator c u = Some (c \<lparr> cp_level_ptrs := ptrs \<rparr>,
      \<forall>l. cp_level c + 2 \<le> l \<and> l < kNumLevels \<longrightarrow> \<not> (\<exists>f\<in>set (v_files v ! l). covers f u))" "ptrs_ok v u ptrs" by blast
  have "\<forall>u'\<in>set us. ptrs_ok v u' ptrs" using ptrs_ok_mono [OF c(2)] Cons.prems(3) by simp
  with Cons.IH [of "c \<lparr> cp_level_ptrs := ptrs \<rparr>"] Cons.prems(1,3) c(1) show ?case by fastforce
qed simp

section \<open>Ranges\<close>

lemma GetRange_spec:
  assumes "inputs \<noteq> []"
  obtains a b where "a \<in> set inputs" "b \<in> set inputs" "GetRange BytewiseComparator inputs = (fm_smallest a, fm_largest b)"
    "\<forall>h\<in>set inputs. sk a \<le> sk h \<and> lk h \<le> lk b"
proof -
  let ?step = "\<lambda>(smallest, largest) f.
      (if InternalKey_Compare BytewiseComparator (fm_skey f) (InternalKey_Encode smallest) < 0 then fm_smallest f else smallest,
       if InternalKey_Compare BytewiseComparator (fm_lkey f) (InternalKey_Encode largest) > 0 then fm_largest f else largest)"
  have all: "\<exists>x\<in>insert a (insert b (set fs)). \<exists>y\<in>insert a (insert b (set fs)).
      foldl ?step (fm_smallest a, fm_largest b) fs = (fm_smallest x, fm_largest y) \<and>
      sk x \<le> sk a \<and> lk b \<le> lk y \<and> (\<forall>h\<in>set fs. sk x \<le> sk h \<and> lk h \<le> lk y)" for a b fs
  proof (induction fs arbitrary: a b)
    case (Cons f fs)
    define a' where "a' = (if sk f < sk a then f else a)"
    define b' where "b' = (if lk b < lk f then f else b)"
    have "?step (fm_smallest a, fm_largest b) f = (fm_smallest a', fm_largest b')"
      by (simp add: a'_def b'_def InternalKey_signs fm_skey_def [symmetric] fm_lkey_def [symmetric])
    moreover have "sk a' \<le> sk a" "sk a' \<le> sk f" "lk b \<le> lk b'" "lk f \<le> lk b'" "a' \<in> {a, f}" "b' \<in> {b, f}"
      by (auto simp: a'_def b'_def)
    moreover obtain x y where xy: "x \<in> insert a' (insert b' (set fs))" "y \<in> insert a' (insert b' (set fs))"
      "foldl ?step (fm_smallest a', fm_largest b') fs = (fm_smallest x, fm_largest y)" "sk x \<le> sk a'" "lk b' \<le> lk y"
      "\<forall>h\<in>set fs. sk x \<le> sk h \<and> lk h \<le> lk y" using Cons.IH [of a' b'] by blast
    ultimately have "sk x \<le> sk a" "sk x \<le> sk f" "lk b \<le> lk y" "lk f \<le> lk y" by (meson order.trans)+
    moreover have "x \<in> insert a (insert b (set (f # fs)))" "y \<in> insert a (insert b (set (f # fs)))"
      using xy(1,2) \<open>a' \<in> {a, f}\<close> \<open>b' \<in> {b, f}\<close> by auto
    moreover have "foldl ?step (fm_smallest a, fm_largest b) (f # fs) = (fm_smallest x, fm_largest y)"
      using xy(3) \<open>?step (fm_smallest a, fm_largest b) f = (fm_smallest a', fm_largest b')\<close> by simp
    ultimately show ?case using xy(6) by (intro bexI [of _ x] bexI [of _ y]) simp_all
  qed auto
  obtain f fs where fs: "inputs = f # fs" using assms by (cases inputs) auto
  from all [of f f fs] obtain x y where xy: "x \<in> set inputs" "y \<in> set inputs" "GetRange BytewiseComparator inputs = (fm_smallest x, fm_largest y)"
    "\<forall>h\<in>set inputs. sk x \<le> sk h \<and> lk h \<le> lk y" by (auto simp: fs GetRange_def)
  then show thesis by (rule that)
qed

section \<open>Files left behind\<close>

definition level_ok_at :: "nat \<Rightarrow> FileMetaData list \<Rightarrow> bool" where
  "level_ok_at level files \<longleftrightarrow> (if level = 0 then files_ok files else level_sorted files)"

definition contiguous :: "FileMetaData list \<Rightarrow> FileMetaData list \<Rightarrow> bool" where
  "contiguous files cf \<longleftrightarrow> (\<forall>g\<in>set cf. \<forall>m\<in>set cf. \<forall>f\<in>set files. lk g < sk f \<and> lk f < sk m \<longrightarrow> f \<in> set cf)"

lemma contiguousD:
  "contiguous files cf \<Longrightarrow> g \<in> set cf \<Longrightarrow> m \<in> set cf \<Longrightarrow> f \<in> set files \<Longrightarrow> lk g < sk f \<Longrightarrow> lk f < sk m \<Longrightarrow> f \<in> set cf"
  unfolding contiguous_def by blast

definition apart :: "FileMetaData list \<Rightarrow> FileMetaData list \<Rightarrow> bool" where
  "apart files cf \<longleftrightarrow> (\<forall>f\<in>set files - set cf. \<forall>g\<in>set cf. fm_luser f < fm_suser g \<or> fm_luser g < fm_suser f)"

definition grown :: "nat \<Rightarrow> FileMetaData list \<Rightarrow> FileMetaData list \<Rightarrow> bool" where
  "grown level files cf \<longleftrightarrow> set cf \<subseteq> set files \<and> (if level = 0 then apart files cf else contiguous files cf)"

text \<open>Where a file that stays in the level shares a user key with an input, its entries are newer.\<close>

definition left_newer :: "FileMetaData list \<Rightarrow> FileMetaData list \<Rightarrow> bool" where
  "left_newer files cf \<longleftrightarrow> (\<forall>f\<in>set files - set cf. \<forall>g\<in>set cf. lk f < sk g \<or> fm_luser g < fm_suser f)"

lemma level_sorted_files: "level_sorted files \<Longrightarrow> f \<in> set files \<Longrightarrow> sk f \<le> lk f"
  "level_sorted files \<Longrightarrow> f \<in> set files \<Longrightarrow> g \<in> set files \<Longrightarrow> f = g \<or> lk f < sk g \<or> lk g < sk f"
  using sorted_wrt_total [of "\<lambda>f g. lk f < sk g" files f g] by (auto simp: level_sorted_def list_all_iff)

lemma level_ok_files: "level_ok_at level files \<Longrightarrow> f \<in> set files \<Longrightarrow> sk f \<le> lk f"
  by (auto simp: level_ok_at_def files_ok_def level_sorted_def list_all_iff split: if_splits)

lemma file_user_le: "sk f \<le> lk f \<Longrightarrow> fm_suser f \<le> fm_luser f"
  using ikey_user_mono(1) [of "sk f" "lk f"] by (simp add: file_users)

lemma user_less_key: "fm_luser f < fm_suser g \<Longrightarrow> lk f < sk g"
  using ikey_user_mono(1) [of "sk g" "lk f"] by (metis file_users linorder_not_less)

lemma key_less_user: "lk f < sk g \<Longrightarrow> fm_luser f \<le> fm_suser g"
  using ikey_user_mono(2) [of "lk f" "sk g"] by (simp add: file_users)

lemma contiguous_boundary:
  assumes "level_sorted files" "contiguous files cf" "set cf \<subseteq> set files" "g \<in> set cf" "\<forall>h\<in>set cf. lk h \<le> lk g"
    and "f \<in> set files" "boundary (lk g) f" "\<forall>h\<in>set files. boundary (lk g) h \<longrightarrow> sk f \<le> sk h"
  shows "contiguous files (cf @ [f])" "\<forall>h\<in>set (cf @ [f]). lk h \<le> lk f"
proof -
  note so = level_sorted_files [OF assms(1)]
  have gf: "lk g < sk f" "fm_suser f = fm_luser g" using assms(7) file_users(2) [of g] by (auto simp: boundary_def)
  have f: "sk f \<le> lk f" using so(1) assms(6) .
  show top: "\<forall>h\<in>set (cf @ [f]). lk h \<le> lk f" using assms(5) gf f by (auto intro: order.trans less_imp_le)
  have "z \<in> set (cf @ [f])" if x: "x \<in> set (cf @ [f])" and y: "y \<in> set (cf @ [f])" and z: "z \<in> set files" "lk x < sk z" "lk z < sk y" for x y z
  proof -
    have zz: "sk z \<le> lk z" and yy: "sk y \<le> lk y" using so(1) z(1) y assms(3,6) by auto
    consider "x = f" | "x \<in> set cf" "y \<in> set cf" | "x \<in> set cf" "y = f" using x y by auto
    then show ?thesis
    proof cases
      case 1
      have "lk y \<le> lk f" using top y by blast
      then show ?thesis using 1 z(2,3) zz yy by (meson leD order.trans less_le_trans less_imp_le)
    next
      case 2
      then have "z \<in> set cf" using contiguousD [OF assms(2) _ _ z] by simp
      then show ?thesis by simp
    next
      case 3
      have "g \<in> set files" using assms(3,4) by blast
      then consider "z = g" | "lk z < sk g" | "lk g < sk z" using so(2) z(1) by blast
      then show ?thesis
      proof cases
        case 1
        then show ?thesis using assms(4) by simp
      next
        case 2
        then have "z \<in> set cf" using contiguousD [OF assms(2) 3(1) assms(4) z(1,2)] by simp
        then show ?thesis by simp
      next
        case gz: 3
        have "fm_suser z \<le> fm_suser f" using file_user_le [OF zz] key_less_user [of z f] z(3) 3(2) by (auto intro: order.trans)
        then have "boundary (lk g) z" using gz key_less_user [OF gz] gf(2) by (simp add: boundary_def file_users)
        then have "sk f \<le> sk z" using assms(8) z(1) by blast
        then show ?thesis using z(3) 3(2) zz by (meson leD order.trans)
      qed
    qed
  qed
  then show "contiguous files (cf @ [f])" unfolding contiguous_def by blast
qed

lemma boundary_loop_contiguous:
  assumes "level_sorted files"
  shows "contiguous files cf \<Longrightarrow> set cf \<subseteq> set files \<Longrightarrow> g \<in> set cf \<Longrightarrow> \<forall>h\<in>set cf. lk h \<le> lk g \<Longrightarrow>
    boundary_loop BytewiseComparator files (fm_largest g) cf = Some r \<Longrightarrow> contiguous files r"
proof (induction "length (filter (\<lambda>f. lk g < sk f) files)" arbitrary: g cf rule: less_induct)
  case less
  note spec = FindSmallestBoundaryFile_spec [of files "fm_largest g", unfolded ik_largest]
  show ?case
  proof (cases "FindSmallestBoundaryFile BytewiseComparator files (fm_largest g)")
    case None
    then show ?thesis using less.prems by (subst (asm) boundary_loop.simps) simp
  next
    case (Some f)
    then have f: "f \<in> set files" "boundary (lk g) f" "\<forall>h\<in>set files. boundary (lk g) h \<longrightarrow> sk f \<le> sk h" using spec by simp_all
    note c = contiguous_boundary [OF assms less.prems(1-4) f]
    have le: "sk f \<le> lk f" "lk g < sk f" using level_sorted_files(1) [OF assms f(1)] f(2) by (simp_all add: boundary_def)
    have "length (filter (\<lambda>h. lk f < sk h) files) < length (filter (\<lambda>h. lk g < sk h) files)"
      using f le by (intro filter_shrinks [of _ _ f]) auto
    moreover have "boundary_loop BytewiseComparator files (fm_largest f) (cf @ [f]) = Some r"
      using less.prems(5) Some by (subst (asm) boundary_loop.simps) simp
    ultimately show ?thesis using less.hyps [of f "cf @ [f]"] c less.prems(2) f(1) by simp
  qed
qed

lemma AddBoundary_left:
  assumes "level_ok_at level files" "grown level files cf" "cf \<noteq> []"
  shows "\<exists>r. AddBoundaryInputs BytewiseComparator files cf = Some r \<and> set cf \<subseteq> set r \<and> set r \<subseteq> set files \<and> r \<noteq> [] \<and> left_newer files r"
proof -
  obtain g where g: "g \<in> set cf" "FindLargestKey BytewiseComparator cf = Some (fm_largest g)" "\<forall>h\<in>set cf. lk h \<le> lk g"
    using FindLargestKey_spec [OF assms(3)] .
  have cf: "set cf \<subseteq> set files" using assms(2) by (simp add: grown_def)
  have fo: "files_ok files" using level_ok_files [OF assms(1)] by (simp add: files_ok_def list_all_iff)
  have A: "AddBoundaryInputs BytewiseComparator files cf = boundary_loop BytewiseComparator files (fm_largest g) cf"
    using g(2) by (simp add: AddBoundaryInputs_def)
  show ?thesis
  proof (cases "level = 0")
    case True
    then have ap: "apart files cf" using assms(2) by (simp add: grown_def)
    have "\<not> boundary (lk g) f" if f: "f \<in> set files" for f
    proof
      assume b: "boundary (lk g) f"
      then have gf: "lk g < sk f" "fm_suser f = fm_luser g" using file_users(2) [of g] by (auto simp: boundary_def)
      have "sk f \<le> lk f" using level_ok_files [OF assms(1) f] .
      then have "f \<notin> set cf" using g(3) gf(1) by (meson leD less_le_trans)
      then have "fm_luser f < fm_suser g \<or> fm_luser g < fm_suser f" using ap f g(1) by (simp add: apart_def)
      moreover have "fm_suser f \<le> fm_luser f" "fm_suser g \<le> fm_luser g"
        using file_user_le level_ok_files [OF assms(1)] f g(1) cf by blast+
      ultimately show False using gf(2) by auto
    qed
    then have "FindSmallestBoundaryFile BytewiseComparator files (fm_largest g) = None"
      using FindSmallestBoundaryFile_spec [of files "fm_largest g"] by (auto simp: ik_largest split: option.splits)
    then have "boundary_loop BytewiseComparator files (fm_largest g) cf = Some cf" by (subst boundary_loop.simps) simp
    moreover have "left_newer files cf" using ap user_less_key by (auto simp: left_newer_def apart_def)
    ultimately show ?thesis using A cf assms(3) by simp
  next
    case False
    then have so: "level_sorted files" and co: "contiguous files cf" using assms(1,2) by (simp_all add: level_ok_at_def grown_def)
    obtain extra L where e: "boundary_loop BytewiseComparator files (fm_largest g) cf = Some (cf @ extra)" "set extra \<subseteq> set files"
      "\<forall>f\<in>set files. \<not> boundary L f" "L = (if extra = [] then lk g else lk (last extra))" "lk g \<le> L" "\<forall>f\<in>set extra. lk f \<le> L"
      using boundary_loop_ends [OF fo, of "fm_largest g" cf] unfolding ik_largest by blast
    define m where "m = (if extra = [] then g else last extra)"
    have m: "m \<in> set (cf @ extra)" "lk m = L" "\<forall>h\<in>set (cf @ extra). lk h \<le> lk m"
      using g(1,3) e(4-6) by (auto simp: m_def intro: order.trans)
    have co: "contiguous files (cf @ extra)" using boundary_loop_contiguous [OF so co cf g(1,3) e(1)] .
    have sub: "set (cf @ extra) \<subseteq> set files" using cf e(2) by simp
    have "lk f < sk h \<or> fm_luser h < fm_suser f" if f: "f \<in> set files" "f \<notin> set (cf @ extra)" and h: "h \<in> set (cf @ extra)" for f h
    proof (cases "lk f < sk h")
      case False
      have hm: "h \<in> set files" "m \<in> set files" "f \<noteq> h" "f \<noteq> m" using sub h m(1) f(2) by blast+
      then have hf: "lk h < sk f" using level_sorted_files(2) [OF so f(1)] False by blast
      have "\<not> lk f < sk m" using co h m(1) f hf unfolding contiguous_def by blast
      then have mf: "lk m < sk f" using level_sorted_files(2) [OF so f(1)] hm by blast
      then have "fm_luser m \<noteq> fm_suser f" using e(3) f(1) m(2) file_users(2) [of m] by (auto simp: boundary_def)
      then have "fm_luser m < fm_suser f" using key_less_user [OF mf] by simp
      moreover have "fm_luser h \<le> fm_luser m" using ikey_user_mono(1) [of "lk h" "lk m"] m(3) h by (simp add: file_users)
      ultimately show ?thesis by (meson order.strict_trans1)
    qed simp
    then have "left_newer files (cf @ extra)" by (simp add: left_newer_def)
    then show ?thesis using A e(1) sub assms(3) by simp
  qed
qed

section \<open>The inputs of a compaction\<close>

definition version_ok :: "Version \<Rightarrow> bool" where
  "version_ok v \<longleftrightarrow> (\<forall>l<kNumLevels. level_ok_at l (v_files v ! l))"

lemma contiguous_filter:
  assumes "level_sorted files"
  shows "contiguous files (filter (overlaps b e) files)"
proof -
  have "overlaps b e f" if g: "g \<in> set files" "overlaps b e g" "lk g < sk f" and m: "m \<in> set files" "overlaps b e m" "lk f < sk m" and f: "f \<in> set files" for f g m
  proof -
    have "fm_luser g \<le> fm_suser f" "fm_luser f \<le> fm_suser m" "fm_suser f \<le> fm_luser f"
      using key_less_user [OF g(3)] key_less_user [OF m(3)] file_user_le level_sorted_files(1) [OF assms f] by simp_all
    then show ?thesis using g(2) m(2) unfolding overlaps_def by (auto split: option.splits)
  qed
  then show ?thesis unfolding contiguous_def set_filter by blast
qed

lemma GetOverlapping_grown:
  assumes "version_ok v" "level < kNumLevels"
  shows "\<exists>r. GetOverlappingInputs BytewiseComparator v level lo hi = Some r \<and> grown level (v_files v ! level) r \<and>
    (\<forall>f\<in>set (v_files v ! level). overlaps (map_option InternalKey_user_key lo) (map_option InternalKey_user_key hi) f \<longrightarrow> f \<in> set r) \<and>
    (0 < level \<longrightarrow> r = filter (overlaps (map_option InternalKey_user_key lo) (map_option InternalKey_user_key hi)) (v_files v ! level))"
proof (cases "level = 0")
  case True
  let ?files = "v_files v ! level" and ?b = "map_option InternalKey_user_key lo" and ?e = "map_option InternalKey_user_key hi"
  have ok: "level_ok_at level ?files" using assms by (simp add: version_ok_def)
  then have u: "\<forall>f\<in>set ?files. fm_suser f \<le> fm_luser f" using file_user_le level_ok_files by blast
  obtain b' e' where w: "wider ?b ?e b' e'" "overlapping_loop BytewiseComparator 0 ?files 0 ?b ?e [] = Some (filter (overlaps b' e') ?files)"
    "list_all (inside b' e') (filter (overlaps b' e') ?files)"
    using overlapping_loop_zero [OF u, of "[]" ?b ?e 0] by auto
  have "fm_luser f < fm_suser g \<or> fm_luser g < fm_suser f" if "\<not> overlaps b' e' f" "g \<in> set ?files" "overlaps b' e' g" for f g
    using that w(3) by (auto simp: overlaps_def inside_def list_all_iff not_le split: option.splits intro: order.strict_trans1 order.strict_trans2)
  then have "grown level ?files (filter (overlaps b' e') ?files)" using True by (auto simp: grown_def apart_def)
  moreover have "overlaps b' e' f" if "overlaps ?b ?e f" for f
    using w(1) that by (auto simp: wider_def overlaps_def split: option.splits intro: order.trans)
  ultimately show ?thesis using w(2) True by (auto simp: GetOverlappingInputs_def)
next
  case False
  then have "level_sorted (v_files v ! level)" using assms by (auto simp: version_ok_def level_ok_at_def)
  then have "grown level (v_files v ! level) (filter (overlaps (map_option InternalKey_user_key lo) (map_option InternalKey_user_key hi)) (v_files v ! level))"
    using contiguous_filter False by (auto simp: grown_def)
  then show ?thesis using False overlapping_loop_plain [of level "v_files v ! level" 0]
    by (simp add: GetOverlappingInputs_def)
qed

definition inputs_closed :: "Version \<Rightarrow> nat \<Rightarrow> FileMetaData list \<Rightarrow> FileMetaData list \<Rightarrow> bool" where
  "inputs_closed v level in0 in1 \<longleftrightarrow>
     in0 \<noteq> [] \<and> set in0 \<subseteq> set (v_files v ! level) \<and> set in1 \<subseteq> set (v_files v ! (level + 1)) \<and>
     left_newer (v_files v ! level) in0 \<and>
     (\<forall>f\<in>set (v_files v ! (level + 1)) - set in1. \<forall>g\<in>set in0. fm_luser f < fm_suser g \<or> fm_luser g < fm_suser f) \<and>
     (\<forall>f\<in>set (v_files v ! (level + 1)) - set in1.
        (\<forall>g\<in>set in0 \<union> set in1. lk f < sk g) \<or> (\<forall>g\<in>set in0 \<union> set in1. lk g < sk f))"

lemma inputs_closed_range:
  assumes "version_ok v" "level + 1 < kNumLevels" "in0 \<noteq> []" "set in0 \<subseteq> set (v_files v ! level)" "left_newer (v_files v ! level) in0"
    and "in1 = filter (overlaps (Some (InternalKey_user_key (fst (GetRange BytewiseComparator in0))))
      (Some (InternalKey_user_key (snd (GetRange BytewiseComparator in0))))) (v_files v ! (level + 1))"
  shows "inputs_closed v level in0 in1"
proof -
  let ?next = "v_files v ! (level + 1)"
  obtain a b where ab: "a \<in> set in0" "b \<in> set in0" "GetRange BytewiseComparator in0 = (fm_smallest a, fm_largest b)"
    "\<forall>h\<in>set in0. sk a \<le> sk h \<and> lk h \<le> lk b" using GetRange_spec [OF assms(3)] .
  have in1: "in1 = filter (\<lambda>f. fm_suser a \<le> fm_luser f \<and> fm_suser f \<le> fm_luser b) ?next"
    unfolding assms(6) ab(3) by (rule filter_cong) (auto simp: overlaps_def fm_suser_def fm_luser_def)
  have so: "level_sorted ?next" using assms(1,2) by (auto simp: version_ok_def level_ok_at_def)
  have in0: "fm_suser a \<le> fm_suser h" "fm_luser h \<le> fm_luser b" if "h \<in> set in0" for h
    using ab(4) that ikey_user_mono(1) [of "sk a" "sk h"] ikey_user_mono(1) [of "lk h" "lk b"] by (simp_all add: file_users)
  have side: "(\<forall>g\<in>set in0 \<union> set in1. lk f < sk g) \<and> (\<forall>g\<in>set in0. fm_luser f < fm_suser g) \<or>
      (\<forall>g\<in>set in0 \<union> set in1. lk g < sk f) \<and> (\<forall>g\<in>set in0. fm_luser g < fm_suser f)" if f: "f \<in> set ?next - set in1" for f
  proof -
    have fo: "sk f \<le> lk f" using level_sorted_files(1) [OF so] f by blast
    from f consider "fm_luser f < fm_suser a" | "fm_luser b < fm_suser f" using in1 by (auto simp: not_le)
    then show ?thesis
    proof cases
      case 1
      have "lk f < sk g" if g: "g \<in> set in1" for g
      proof -
        have "g \<in> set ?next" "fm_suser a \<le> fm_luser g" using g by (auto simp: in1)
        then have "f \<noteq> g" "\<not> lk g < sk f" using 1 key_less_user [of g f] file_user_le [OF fo] by (auto dest: order.trans leD)
        then show ?thesis using level_sorted_files(2) [OF so _ \<open>g \<in> set ?next\<close>, of f] f by blast
      qed
      moreover have us: "fm_luser f < fm_suser g" if "g \<in> set in0" for g using in0(1) [OF that] 1 by simp
      ultimately show ?thesis using user_less_key by blast
    next
      case 2
      have "lk g < sk f" if g: "g \<in> set in1" for g
      proof -
        have "g \<in> set ?next" "fm_suser g \<le> fm_luser b" using g by (auto simp: in1)
        then have "f \<noteq> g" "\<not> lk f < sk g" using 2 key_less_user [of f g] file_user_le [OF fo] by (auto dest: order.trans leD)
        then show ?thesis using level_sorted_files(2) [OF so _ \<open>g \<in> set ?next\<close>, of f] f by blast
      qed
      moreover have us: "fm_luser g < fm_suser f" if "g \<in> set in0" for g using in0(2) [OF that] 2 by (rule order.strict_trans1)
      ultimately show ?thesis using user_less_key by blast
    qed
  qed
  then have "\<forall>f\<in>set ?next - set in1. (\<forall>g\<in>set in0 \<union> set in1. lk f < sk g) \<or> (\<forall>g\<in>set in0 \<union> set in1. lk g < sk f)" by blast
  moreover have "\<forall>f\<in>set ?next - set in1. \<forall>g\<in>set in0. fm_luser f < fm_suser g \<or> fm_luser g < fm_suser f" using side by blast
  moreover have "set in1 \<subseteq> set ?next" by (auto simp: in1)
  ultimately show ?thesis using assms(3-5) by (simp add: inputs_closed_def)
qed

lemma range_inputs:
  assumes "version_ok v" "level + 1 < kNumLevels" "in0 \<noteq> []" "set in0 \<subseteq> set (v_files v ! level)" "left_newer (v_files v ! level) in0"
  shows "\<exists>in1. GetOverlappingInputs BytewiseComparator v (level + 1) (Some (fst (GetRange BytewiseComparator in0))) (Some (snd (GetRange BytewiseComparator in0))) =
    Some in1 \<and> inputs_closed v level in0 in1"
  using GetOverlapping_grown [OF assms(1), of "level + 1" "Some (fst (GetRange BytewiseComparator in0))" "Some (snd (GetRange BytewiseComparator in0))"]
    inputs_closed_range [OF assms refl] assms(2) by auto

lemma expand_closed:
  assumes "version_ok v" "level + 1 < kNumLevels" "inputs_closed v level in0 in1"
  shows "\<exists>in0' in1' l al. expand_inputs BytewiseComparator mfs v level in0 in1 largest all = Some (in0', in1', l, al) \<and> inputs_closed v level in0' in1'"
proof (cases "in1 = []")
  case True
  then show ?thesis using assms(3) by (auto simp: expand_inputs_def)
next
  case ne: False
  have lv: "level < kNumLevels" using assms(2) by simp
  obtain e0 where e0: "GetOverlappingInputs BytewiseComparator v level (Some (fst all)) (Some (snd all)) = Some e0" "grown level (v_files v ! level) e0"
    using GetOverlapping_grown [OF assms(1) lv] by blast
  have ok: "level_ok_at level (v_files v ! level)" using assms(1) lv by (simp add: version_ok_def)
  have "\<exists>r. AddBoundaryInputs BytewiseComparator (v_files v ! level) e0 = Some r \<and> (r \<noteq> [] \<longrightarrow> set r \<subseteq> set (v_files v ! level) \<and> left_newer (v_files v ! level) r)"
  proof (cases "e0 = []")
    case True
    then show ?thesis by (simp add: AddBoundaryInputs_def FindLargestKey_def)
  next
    case False
    then show ?thesis using AddBoundary_left [OF ok e0(2)] by blast
  qed
  then obtain e1 where e1: "AddBoundaryInputs BytewiseComparator (v_files v ! level) e0 = Some e1"
    "e1 \<noteq> [] \<Longrightarrow> set e1 \<subseteq> set (v_files v ! level) \<and> left_newer (v_files v ! level) e1" by blast
  show ?thesis
  proof (cases "length e1 > length in0 \<and> TotalFileSize in1 + TotalFileSize e1 < ExpandedCompactionByteSizeLimit mfs")
    case True
    then have "e1 \<noteq> []" by auto
    then obtain x where "GetOverlappingInputs BytewiseComparator v (level + 1) (Some (fst (GetRange BytewiseComparator e1))) (Some (snd (GetRange BytewiseComparator e1))) = Some x"
      "inputs_closed v level e1 x" using range_inputs [OF assms(1,2)] e1(2) by blast
    then show ?thesis using True ne e0(1) e1(1) assms(3) \<open>e1 \<noteq> []\<close> by (simp add: expand_inputs_def range_of_def)
  next
    case False
    then show ?thesis using ne e0(1) e1(1) assms(3) by (auto simp: expand_inputs_def)
  qed
qed

lemma SetupOtherInputs_closed:
  assumes "version_ok (vs_current vs)" "cp_level c + 1 < kNumLevels" "cp_inputs0 c \<noteq> []"
    and "grown (cp_level c) (v_files (vs_current vs) ! cp_level c) (cp_inputs0 c)"
  shows "\<exists>vs' in0 in1 gp key. SetupOtherInputs BytewiseComparator mfs vs c =
      Some (vs', c \<lparr> cp_inputs0 := in0, cp_inputs1 := in1, cp_grandparents := gp, cp_edit := SetCompactPointer (cp_edit c) (cp_level c) key \<rparr>) \<and>
    vs_current vs' = vs_current vs \<and> inputs_closed (vs_current vs) (cp_level c) in0 in1"
proof -
  let ?v = "vs_current vs" and ?l = "cp_level c"
  have ok: "level_ok_at ?l (v_files ?v ! ?l)" using assms(1,2) by (simp add: version_ok_def)
  obtain r where r: "AddBoundaryInputs BytewiseComparator (v_files ?v ! ?l) (cp_inputs0 c) = Some r" "r \<noteq> []"
    "set r \<subseteq> set (v_files ?v ! ?l)" "left_newer (v_files ?v ! ?l) r" using AddBoundary_left [OF ok assms(4,3)] by blast
  obtain in1 where i: "GetOverlappingInputs BytewiseComparator ?v (?l + 1) (Some (fst (GetRange BytewiseComparator r))) (Some (snd (GetRange BytewiseComparator r))) = Some in1"
    "inputs_closed ?v ?l r in1" using range_inputs [OF assms(1,2) r(2-4)] by blast
  obtain in0' in1' la al where x: "expand_inputs BytewiseComparator mfs ?v ?l r in1 (snd (GetRange BytewiseComparator r)) (GetRange2 BytewiseComparator r in1) = Some (in0', in1', la, al)"
    "inputs_closed ?v ?l in0' in1'" using expand_closed [OF assms(1,2) i(2)] by blast
  have "\<exists>gp. (if ?l + 2 < kNumLevels then GetOverlappingInputs BytewiseComparator ?v (?l + 2) (Some (fst al)) (Some (snd al)) else Some (cp_grandparents c)) = Some gp"
    using GetOverlapping_grown [OF assms(1), of "?l + 2"] by auto
  then obtain gp where "(if ?l + 2 < kNumLevels then GetOverlappingInputs BytewiseComparator ?v (?l + 2) (Some (fst al)) (Some (snd al)) else Some (cp_grandparents c)) = Some gp" ..
  then show ?thesis using r(1,2) i(1) x by (auto simp: SetupOtherInputs_def Let_def range_of_def)
qed

lemma limit_inputs_take: "\<exists>n. limit_inputs limit n0 fs = take (Suc n) fs"
proof (induction fs arbitrary: n0)
  case (Cons f fs)
  from Cons.IH [of "n0 + fm_file_size f"] obtain n where "limit_inputs limit (n0 + fm_file_size f) fs = take (Suc n) fs" ..
  then show ?case by (auto simp: Let_def intro: exI [of _ 0] exI [of _ "Suc n"])
qed simp

lemma grown_limit:
  assumes "0 < level" "level_sorted files" "grown level files cf" "sorted_wrt (\<lambda>f g. lk f < sk g) cf"
  shows "grown level files (take n cf)"
proof -
  have "f \<in> set (take n cf)" if g: "g \<in> set (take n cf)" and m: "m \<in> set (take n cf)" and f: "f \<in> set files" "lk g < sk f" "lk f < sk m" for f g m
  proof (rule ccontr)
    assume nf: "f \<notin> set (take n cf)"
    have sub: "set (take n cf) \<subseteq> set cf" by (rule set_take_subset)
    have "f \<in> set cf" using assms(1,3) f g m sub unfolding grown_def contiguous_def by (metis less_numeral_extra(3) subsetD)
    then have "f \<in> set (drop n cf)" using nf by (metis Un_iff append_take_drop_id set_append)
    moreover have "sorted_wrt (\<lambda>f g. lk f < sk g) (take n cf @ drop n cf)" using assms(4) by simp
    ultimately have "lk m < sk f" using m unfolding sorted_wrt_append by blast
    moreover have "sk f \<le> lk f" "sk m \<le> lk m" using level_sorted_files(1) [OF assms(2)] f(1) m sub assms(3) by (auto simp: grown_def)
    ultimately show False using f(3) by (meson leD order.trans less_imp_le)
  qed
  then have "contiguous files (take n cf)" unfolding contiguous_def by blast
  then show ?thesis using assms(1,3) set_take_subset [of n cf] unfolding grown_def by (metis less_numeral_extra(3) subset_trans)
qed

lemma single_grown: "level_ok_at level files \<Longrightarrow> 0 < level \<Longrightarrow> f \<in> set files \<Longrightarrow> grown level files [f]"
  using level_ok_files [of level files] by (auto simp: grown_def contiguous_def) (meson leD less_imp_le order.trans)

text \<open>What the version set knows about its current version: the level and the file chosen for a compaction exist.\<close>

definition pick_ok :: "'a VersionSet_scheme \<Rightarrow> bool" where
  "pick_ok vs \<longleftrightarrow> (let v = vs_current vs in
     (v_compaction_score v \<ge> 1 \<longrightarrow> 0 \<le> v_compaction_level v \<and> nat (v_compaction_level v) + 1 < kNumLevels \<and> v_files v ! nat (v_compaction_level v) \<noteq> []) \<and>
     (\<forall>f. v_file_to_compact v = Some f \<longrightarrow>
       nat (v_file_to_compact_level v) + 1 < kNumLevels \<and> f \<in> set (v_files v ! nat (v_file_to_compact_level v))))"

lemma next_file_mem: "files \<noteq> [] \<Longrightarrow> \<exists>f. next_file uc p files = Some f \<and> f \<in> set files"
proof (cases "find (\<lambda>f. p = [] \<or> InternalKey_Compare uc (fm_lkey f) p > 0) files")
  case (Some f)
  then have "f \<in> set files" by (auto simp: find_Some_iff)
  with Some show ?thesis by (simp add: next_file_def)
qed (auto simp: next_file_def split: list.splits)

lemma pick_file_mem:
  assumes "pick_ok vs"
  shows "\<exists>r. pick_file uc vs = Some r \<and> (r = None \<longleftrightarrow> \<not> NeedsCompaction vs) \<and>
    (\<forall>level f. r = Some (level, f) \<longrightarrow> level + 1 < kNumLevels \<and> f \<in> set (v_files (vs_current vs) ! level))"
proof (cases "v_compaction_score (vs_current vs) \<ge> 1")
  case True
  let ?l = "nat (v_compaction_level (vs_current vs))"
  have l: "0 \<le> v_compaction_level (vs_current vs)" "?l + 1 < kNumLevels" "v_files (vs_current vs) ! ?l \<noteq> []"
    using assms True by (simp_all add: pick_ok_def Let_def)
  obtain f where "next_file uc (vs_compact_pointer vs ! ?l) (v_files (vs_current vs) ! ?l) = Some f" "f \<in> set (v_files (vs_current vs) ! ?l)"
    using next_file_mem [OF l(3)] by blast
  moreover have "v_compaction_level (vs_current vs) + 1 < int kNumLevels" using l(1,2) by linarith
  ultimately show ?thesis using True l by (simp add: pick_file_def Let_def NeedsCompaction_def)
next
  case False
  then show ?thesis using assms by (auto simp: pick_file_def Let_def NeedsCompaction_def pick_ok_def)
qed

lemma pick_inputs:
  assumes "version_ok v" "level + 1 < kNumLevels" "f \<in> set (v_files v ! level)"
  shows "\<exists>cf. (if level = 0
      then do { rng \<leftarrow> range_of BytewiseComparator [f];
                inputs \<leftarrow> GetOverlappingInputs BytewiseComparator v 0 (Some (fst rng)) (Some (snd rng));
                if inputs = [] then None else Some inputs }
      else Some [f]) = Some cf \<and> cf \<noteq> [] \<and> grown level (v_files v ! level) cf"
proof (cases "level = 0")
  case True
  have r: "GetRange BytewiseComparator [f] = (fm_smallest f, fm_largest f)" by (simp add: GetRange_def)
  have "fm_suser f \<le> fm_luser f" using file_user_le level_ok_files assms by (metis version_ok_def add_lessD1)
  then have o: "overlaps (Some (InternalKey_user_key (fm_smallest f))) (Some (InternalKey_user_key (fm_largest f))) f"
    by (simp add: overlaps_def fm_suser_def fm_luser_def)
  have "0 < kNumLevels" using assms(2) by simp
  from GetOverlapping_grown [OF assms(1) this, of "Some (fm_smallest f)" "Some (fm_largest f)"] obtain cf where
    cf: "GetOverlappingInputs BytewiseComparator v 0 (Some (fm_smallest f)) (Some (fm_largest f)) = Some cf" "grown 0 (v_files v ! 0) cf" "f \<in> set cf"
    using assms(3) True o by auto
  then show ?thesis using True r by (auto simp: range_of_def)
next
  case False
  then show ?thesis using single_grown [of level] assms by (simp add: version_ok_def)
qed

lemma PickCompaction_inputs:
  assumes "version_ok (vs_current vs)" "pick_ok vs"
  shows "\<exists>vs' r. PickCompaction BytewiseComparator mfs vs = Some (vs', r) \<and> (r = None \<longleftrightarrow> \<not> NeedsCompaction vs) \<and> vs_current vs' = vs_current vs \<and>
    (\<forall>c. r = Some c \<longrightarrow> cp_input_version c = Some (vs_current vs) \<and> cp_level_ptrs c = replicate kNumLevels 0 \<and> cp_level c + 1 < kNumLevels \<and>
      (\<exists>key. cp_edit c = SetCompactPointer VersionEdit_new (cp_level c) key) \<and>
      inputs_closed (vs_current vs) (cp_level c) (cp_inputs0 c) (cp_inputs1 c))"
proof -
  obtain p where p: "pick_file BytewiseComparator vs = Some p" "p = None \<longleftrightarrow> \<not> NeedsCompaction vs"
    "\<forall>level f. p = Some (level, f) \<longrightarrow> level + 1 < kNumLevels \<and> f \<in> set (v_files (vs_current vs) ! level)" using pick_file_mem [OF assms(2)] by blast
  show ?thesis
  proof (cases p)
    case None
    then show ?thesis using p by (simp add: PickCompaction_def)
  next
    case (Some lf)
    obtain level f where lf: "p = Some (level, f)" using Some by (cases lf) simp
    have l: "level + 1 < kNumLevels" using p(3) lf by blast
    from pick_inputs [OF assms(1) l, of f] p(3) lf obtain cf where cf: "(if level = 0
      then do { rng \<leftarrow> range_of BytewiseComparator [f];
                inputs \<leftarrow> GetOverlappingInputs BytewiseComparator (vs_current vs) 0 (Some (fst rng)) (Some (snd rng));
                if inputs = [] then None else Some inputs }
      else Some [f]) = Some cf" "cf \<noteq> []" "grown level (v_files (vs_current vs) ! level) cf" by blast
    define c where "c = Compaction_new mfs level \<lparr> cp_inputs0 := cf, cp_input_version := Some (vs_current vs) \<rparr>"
    have c: "cp_level c = level" "cp_inputs0 c = cf" "cp_input_version c = Some (vs_current vs)" "cp_level_ptrs c = replicate kNumLevels 0"
      "cp_edit c = VersionEdit_new"
      by (simp_all add: c_def Compaction_new_def)
    obtain vs' c' key where s: "SetupOtherInputs BytewiseComparator mfs vs c = Some (vs', c')" "cp_level c' = level" "cp_input_version c' = Some (vs_current vs)"
      "cp_level_ptrs c' = replicate kNumLevels 0" "inputs_closed (vs_current vs) level (cp_inputs0 c') (cp_inputs1 c')"
      "cp_edit c' = SetCompactPointer VersionEdit_new level key" "vs_current vs' = vs_current vs"
      using SetupOtherInputs_closed [OF assms(1), of c mfs] c cf(2,3) l by auto
    have "PickCompaction BytewiseComparator mfs vs = Some (vs', Some c')"
      unfolding PickCompaction_def using p(1) lf cf(1) s(1) by (simp add: c_def)
    then show ?thesis using s l p(2) lf by auto
  qed
qed

lemma CompactRange_inputs:
  assumes "version_ok (vs_current vs)" "level + 1 < kNumLevels"
  shows "\<exists>vs' r. vs_CompactRange BytewiseComparator mfs vs level lo hi = Some (vs', r) \<and>
    (r = None \<longrightarrow> \<not> (\<exists>f\<in>set (v_files (vs_current vs) ! level). overlaps (map_option InternalKey_user_key lo) (map_option InternalKey_user_key hi) f)) \<and>
    (\<forall>c. r = Some c \<longrightarrow> cp_input_version c = Some (vs_current vs) \<and> cp_level_ptrs c = replicate kNumLevels 0 \<and> cp_level c = level \<and>
      inputs_closed (vs_current vs) (cp_level c) (cp_inputs0 c) (cp_inputs1 c))"
proof -
  let ?v = "vs_current vs"
  have lv: "level < kNumLevels" using assms(2) by simp
  obtain cf where cf: "GetOverlappingInputs BytewiseComparator ?v level lo hi = Some cf" "grown level (v_files ?v ! level) cf"
    "\<forall>f\<in>set (v_files ?v ! level). overlaps (map_option InternalKey_user_key lo) (map_option InternalKey_user_key hi) f \<longrightarrow> f \<in> set cf"
    "0 < level \<longrightarrow> cf = filter (overlaps (map_option InternalKey_user_key lo) (map_option InternalKey_user_key hi)) (v_files ?v ! level)"
    using GetOverlapping_grown [OF assms(1) lv] by blast
  show ?thesis
  proof (cases "cf = []")
    case True
    then show ?thesis using cf(1,3) by (auto simp: vs_CompactRange_def)
  next
    case False
    define in0 where "in0 = (if level > 0 then limit_inputs (MaxFileSizeForLevel mfs level) 0 cf else cf)"
    have in0: "in0 \<noteq> []" "grown level (v_files ?v ! level) in0"
    proof -
      obtain n where n: "limit_inputs (MaxFileSizeForLevel mfs level) 0 cf = take (Suc n) cf" using limit_inputs_take by blast
      then show "in0 \<noteq> []" using False by (auto simp: in0_def)
      show "grown level (v_files ?v ! level) in0"
      proof (cases "0 < level")
        case True
        then have so: "level_sorted (v_files ?v ! level)" using assms(1) lv by (simp add: version_ok_def level_ok_at_def)
        then have "sorted_wrt (\<lambda>f g. lk f < sk g) cf" using cf(4) True by (simp add: level_sorted_def sorted_wrt_filter)
        then show ?thesis using grown_limit [OF True so cf(2)] True n by (simp add: in0_def)
      qed (use cf(2) in \<open>simp add: in0_def\<close>)
    qed
    define c where "c = Compaction_new mfs level \<lparr> cp_input_version := Some ?v, cp_inputs0 := in0 \<rparr>"
    have c: "cp_level c = level" "cp_inputs0 c = in0" "cp_input_version c = Some ?v" "cp_level_ptrs c = replicate kNumLevels 0"
      by (simp_all add: c_def Compaction_new_def)
    obtain vs' c' where s: "SetupOtherInputs BytewiseComparator mfs vs c = Some (vs', c')" "cp_level c' = level" "cp_input_version c' = Some ?v"
      "cp_level_ptrs c' = replicate kNumLevels 0" "inputs_closed ?v level (cp_inputs0 c') (cp_inputs1 c')"
      using SetupOtherInputs_closed [OF assms(1), of c mfs] c in0 assms(2) by auto
    have "vs_CompactRange BytewiseComparator mfs vs level lo hi = Some (vs', Some c')"
      unfolding vs_CompactRange_def using cf(1) False s(1) by (simp add: c_def in0_def Let_def)
    then show ?thesis using s by simp
  qed
qed

section \<open>Properties\<close>

text \<open>
  C32: Compactions are chosen so that no entry gets below an older one. \<open>PickCompaction\<close> always returns, and
  with a compaction exactly if one is needed; so does the manual \<open>CompactRange\<close>, unless no file of the
  level meets the range. The inputs are then closed: where a file that stays in the compacted level shares
  a user key with an input, it is newer; the files of the next level that share a user key with an input of
  the level are inputs; and every other file of the next level lies on one side of all inputs.
\<close>

theorem compaction_inputs_closed:
  assumes "version_ok (vs_current vs)" "pick_ok vs" "level + 1 < kNumLevels"
  shows "(\<exists>vs' r. PickCompaction BytewiseComparator mfs vs = Some (vs', r) \<and> (r = None \<longleftrightarrow> \<not> NeedsCompaction vs) \<and>
      (\<forall>c. r = Some c \<longrightarrow> inputs_closed (vs_current vs) (cp_level c) (cp_inputs0 c) (cp_inputs1 c))) \<and>
    (\<exists>vs' r. vs_CompactRange BytewiseComparator mfs vs level lo hi = Some (vs', r) \<and>
      (r = None \<longrightarrow> \<not> (\<exists>f\<in>set (v_files (vs_current vs) ! level). overlaps (map_option InternalKey_user_key lo) (map_option InternalKey_user_key hi) f)) \<and>
      (\<forall>c. r = Some c \<longrightarrow> cp_level c = level \<and> inputs_closed (vs_current vs) level (cp_inputs0 c) (cp_inputs1 c)))"
proof
  show "\<exists>vs' r. PickCompaction BytewiseComparator mfs vs = Some (vs', r) \<and> (r = None \<longleftrightarrow> \<not> NeedsCompaction vs) \<and>
      (\<forall>c. r = Some c \<longrightarrow> inputs_closed (vs_current vs) (cp_level c) (cp_inputs0 c) (cp_inputs1 c))"
    using PickCompaction_inputs [OF assms(1,2)] by blast
  show "\<exists>vs' r. vs_CompactRange BytewiseComparator mfs vs level lo hi = Some (vs', r) \<and>
      (r = None \<longrightarrow> \<not> (\<exists>f\<in>set (v_files (vs_current vs) ! level). overlaps (map_option InternalKey_user_key lo) (map_option InternalKey_user_key hi) f)) \<and>
      (\<forall>c. r = Some c \<longrightarrow> cp_level c = level \<and> inputs_closed (vs_current vs) level (cp_inputs0 c) (cp_inputs1 c))"
    using CompactRange_inputs [OF assms(1,3), of mfs lo hi] by metis
qed

definition full_version :: Version where
  "full_version = Version_new \<lparr> v_files := (replicate kNumLevels []) [1 := [file_a, file_b]], v_compaction_level := 1, v_compaction_score := 2 \<rparr>"

lemma full_version_levels: "l < kNumLevels \<Longrightarrow> v_files full_version ! l = (if l = 1 then [file_a, file_b] else [])"
  by (simp add: full_version_def nth_list_update kNumLevels_def)

lemma full_version_ok: "version_ok full_version" "pick_ok (VersionSet_new \<lparr> vs_current := full_version \<rparr>)"
proof -
  show "version_ok full_version" using file_ab_ok(1)
    by (simp add: version_ok_def full_version_levels level_ok_at_def files_ok_def level_sorted_def)
  show "pick_ok (VersionSet_new \<lparr> vs_current := full_version \<rparr>)"
    by (simp add: pick_ok_def full_version_def Version_new_def kNumLevels_def)
qed

theorem compaction_inputs_closed_witness:
  "\<exists>vs' c. PickCompaction BytewiseComparator 2000000 (VersionSet_new \<lparr> vs_current := full_version \<rparr>) = Some (vs', Some c) \<and>
    left_newer (v_files full_version ! cp_level c) (cp_inputs0 c)"
proof -
  have n: "NeedsCompaction (VersionSet_new \<lparr> vs_current := full_version \<rparr>)" by (simp add: NeedsCompaction_def full_version_def)
  from compaction_inputs_closed [of "VersionSet_new \<lparr> vs_current := full_version \<rparr>" 1 2000000 None None]
  obtain vs' r where "PickCompaction BytewiseComparator 2000000 (VersionSet_new \<lparr> vs_current := full_version \<rparr>) = Some (vs', r)" "r \<noteq> None"
    "\<forall>c. r = Some c \<longrightarrow> inputs_closed full_version (cp_level c) (cp_inputs0 c) (cp_inputs1 c)"
    using full_version_ok n by (auto simp: kNumLevels_def)
  then show ?thesis by (auto simp: inputs_closed_def)
qed

text \<open>
  C33: \<open>IsBaseLevelForKey\<close>, which moves its pointers only forwards, answers exactly: asked for user keys in
  increasing order it tells for each whether no file of the levels below the output level can have it.
\<close>

theorem IsBaseLevelForKey_exact:
  assumes "cp_input_version c = Some v" "version_ok v" "cp_level_ptrs c = replicate kNumLevels 0" "sorted us"
  shows "\<exists>c'. base_queries BytewiseComparator c us =
    Some (c', map (\<lambda>u. \<forall>l. cp_level c + 2 \<le> l \<and> l < kNumLevels \<longrightarrow> \<not> (\<exists>f\<in>set (v_files v ! l). fm_suser f \<le> u \<and> u \<le> fm_luser f)) us)"
proof -
  have "\<forall>l<kNumLevels. 0 < l \<longrightarrow> level_sorted (v_files v ! l)" using assms(2) by (simp add: version_ok_def level_ok_at_def)
  moreover have "\<forall>u\<in>set us. ptrs_ok v u (cp_level_ptrs c)" using assms(3) by (simp add: ptrs_ok_def)
  ultimately show ?thesis using base_queries_spec [OF assms(1) _ _ assms(4)] unfolding covers_def by blast
qed

theorem IsBaseLevelForKey_exact_witness:
  "\<exists>c'. base_queries BytewiseComparator (Compaction_new 2000000 0 \<lparr> cp_input_version := Some (Version_new \<lparr> v_files := (replicate kNumLevels []) [2 := [file_a, file_b]] \<rparr>) \<rparr>)
    [[0], [5], [8]] = Some (c', [True, False, True])"
proof -
  let ?v = "Version_new \<lparr> v_files := (replicate kNumLevels []) [2 := [file_a, file_b]] \<rparr>"
  let ?c = "Compaction_new 2000000 0 \<lparr> cp_input_version := Some ?v \<rparr>"
  define fs where "fs = v_files ?v"
  have lev: "fs ! l = (if l = 2 then [file_a, file_b] else [])" if "l < kNumLevels" for l
    using that by (simp add: fs_def nth_list_update kNumLevels_def)
  have ok: "version_ok ?v" unfolding version_ok_def fs_def [symmetric] using file_ab_ok(1)
    by (simp add: lev level_ok_at_def files_ok_def level_sorted_def)
  define base where "base u \<longleftrightarrow> (\<forall>l. 0 + 2 \<le> l \<and> l < kNumLevels \<longrightarrow> \<not> (\<exists>f\<in>set (fs ! l). fm_suser f \<le> u \<and> u \<le> fm_luser f))" for u
  have c: "cp_input_version ?c = Some ?v" "cp_level ?c = 0" "cp_level_ptrs ?c = replicate kNumLevels 0" by (simp_all add: Compaction_new_def)
  have "sorted [[0], [5], [8 :: byte]]" by code_simp
  from IsBaseLevelForKey_exact [OF c(1) ok c(3) this] obtain c' where c': "base_queries BytewiseComparator ?c [[0], [5], [8]] = Some (c', map base [[0], [5], [8]])"
    unfolding c(2) fs_def [symmetric] base_def [symmetric] by blast
  have "base u \<longleftrightarrow> \<not> (fm_suser file_a \<le> u \<and> u \<le> fm_luser file_a \<or> fm_suser file_b \<le> u \<and> u \<le> fm_luser file_b)" for u
    by (auto simp: base_def lev kNumLevels_def split: if_splits)
  then have "map base [[0], [5], [8]] = [True, False, True]" by (simp add: file_ab)
  with c' show ?thesis by auto
qed

end
