(* ===== verification/Ring.thy ===== *)
theory Ring
  imports Prelude
begin

text \<open>
  Circular doubly linked lists with a dummy head, as the cache, the snapshots and the versions keep
  them: the nodes are numbers, and the \<open>next\<close> and \<open>prev\<close> pointers are functions on them. A ring
  stands for the list of its nodes in order, without the head.
\<close>

record Links =
  l_next :: "nat \<Rightarrow> nat"
  l_prev :: "nat \<Rightarrow> nat"

fun links :: "Links \<Rightarrow> nat list \<Rightarrow> bool" where
  "links l (a # b # zs) \<longleftrightarrow> l_next l a = b \<and> l_prev l b = a \<and> links l (b # zs)"
| "links l _ \<longleftrightarrow> True"

definition ring :: "Links \<Rightarrow> nat \<Rightarrow> nat list \<Rightarrow> bool" where
  "ring l h xs \<longleftrightarrow> distinct (h # xs) \<and> links l (h # xs @ [h])"

text \<open>
  The two surgeries on a ring: \<open>e\<close> is taken out, and \<open>e\<close> is put in before the head, that is, at
  the end.
\<close>

definition unlink :: "Links \<Rightarrow> nat \<Rightarrow> Links" where
  "unlink l e =
     (let l = l \<lparr> l_prev := (l_prev l)(l_next l e := l_prev l e) \<rparr>
      in l \<lparr> l_next := (l_next l)(l_prev l e := l_next l e) \<rparr>)"

definition link_before :: "Links \<Rightarrow> nat \<Rightarrow> nat \<Rightarrow> Links" where
  "link_before l h e =
     (let l = l \<lparr> l_next := (l_next l)(e := h) \<rparr>;
          l = l \<lparr> l_prev := (l_prev l)(e := l_prev l h) \<rparr>;
          l = l \<lparr> l_next := (l_next l)(l_prev l e := e) \<rparr>
      in l \<lparr> l_prev := (l_prev l)(l_next l e := e) \<rparr>)"

definition self_link :: "Links \<Rightarrow> nat \<Rightarrow> Links" where
  "self_link l h = l \<lparr> l_next := (l_next l)(h := h), l_prev := (l_prev l)(h := h) \<rparr>"

lemma links_append: "links l (A @ p # B) \<longleftrightarrow> links l (A @ [p]) \<and> links l (p # B)"
  by (induction l A rule: links.induct) auto

lemma links_frame:
  assumes "x \<notin> set (butlast zs)" "y \<notin> set (tl zs)" "l_next l' = (l_next l)(x := v)" "l_prev l' = (l_prev l)(y := w)"
  shows "links l' zs \<longleftrightarrow> links l zs"
  using assms by (induction l zs rule: links.induct) (auto split: if_splits)

lemma links_same:
  assumes "\<forall>z\<in>set zs. l_next l' z = l_next l z \<and> l_prev l' z = l_prev l z"
  shows "links l' zs \<longleftrightarrow> links l zs"
  using assms by (induction l zs rule: links.induct) auto

lemma ring_self_link: "ring (self_link l h) h []"
  by (simp add: ring_def self_link_def)

lemma ring_next: "ring l h xs \<Longrightarrow> l_next l h = (case xs of [] \<Rightarrow> h | x # _ \<Rightarrow> x)"
  by (auto simp: ring_def split: list.splits)

lemma ring_prev: "ring l h xs \<Longrightarrow> l_prev l h = (if xs = [] then h else last xs)"
proof -
  assume r: "ring l h xs"
  obtain A p where a: "h # xs = A @ [p]" by (metis append_butlast_last_id list.distinct(1))
  have z: "h # xs @ [h] = A @ [p, h]" using arg_cong [OF a, of "\<lambda>ys. ys @ [h]"] by simp
  have "links l (A @ p # [h])" using r unfolding ring_def z by simp
  then have "l_prev l h = p" using links_append [of l A p "[h]"] by simp
  moreover have "last (h # xs) = p" unfolding a by simp
  then have "p = (if xs = [] then h else last xs)" by auto
  ultimately show ?thesis by simp
qed

lemma ring_frame:
  assumes "ring l h xs" "\<forall>z\<in>set (h # xs). l_next l' z = l_next l z \<and> l_prev l' z = l_prev l z"
  shows "ring l' h xs"
  using assms links_same [of "h # xs @ [h]" l' l] by (simp add: ring_def)

lemma ring_unlink:
  assumes "ring l h xs" "e \<in> set xs"
  shows "ring (unlink l e) h (remove1 e xs)"
    and "\<forall>z. z \<notin> set (h # xs) \<longrightarrow> l_next (unlink l e) z = l_next l z \<and> l_prev (unlink l e) z = l_prev l z"
proof -
  obtain us vs where x: "xs = us @ e # vs" by (metis assms(2) split_list)
  obtain A p where A: "h # us = A @ [p]" by (metis append_butlast_last_id list.distinct(1))
  obtain n B where B: "vs @ [h] = n # B" by (metis append_is_Nil_conv list.exhaust not_Cons_self2)
  have z: "h # xs @ [h] = A @ p # e # n # B" using A B x by simp
  have d: "distinct (h # xs)" and k: "links l (A @ p # e # n # B)" using assms(1) unfolding ring_def z by simp_all
  have k': "links l (A @ [p])" "l_next l p = e" "l_prev l e = p" "l_next l e = n" "l_prev l n = e" "links l (n # B)"
    using k links_append [of l A p "e # n # B"] by simp_all
  have d1: "distinct (butlast (A @ p # e # n # B))" "distinct (tl (A @ p # e # n # B))" unfolding z [symmetric] using d by (simp_all add: butlast_append)
  have u: "l_next (unlink l e) = (l_next l)(p := n)" "l_prev (unlink l e) = (l_prev l)(n := p)"
    using k'(2-5) d1 by (auto simp: unlink_def Let_def fun_eq_iff)
  have "p \<notin> set (butlast (A @ [p]))" "p \<notin> set (butlast (n # B))" using d1(1) by (auto simp: butlast_append split: if_splits)
  moreover have "n \<notin> set (tl (A @ [p]))" "n \<notin> set (tl (n # B))" using d1(2) by (cases A, simp_all)+
  ultimately have "links (unlink l e) (A @ [p])" "links (unlink l e) (n # B)"
    using links_frame [OF _ _ u, of "A @ [p]"] links_frame [OF _ _ u, of "n # B"] k'(1,6) by blast+
  moreover have "h # (us @ vs) @ [h] = A @ p # n # B" using A B by simp
  ultimately have "links (unlink l e) (h # (us @ vs) @ [h])" using links_append [of "unlink l e" A p "n # B"] u by simp
  moreover have "remove1 e xs = us @ vs" using d x by (simp add: remove1_append)
  ultimately show "ring (unlink l e) h (remove1 e xs)" using d x by (simp add: ring_def)
  have "p \<in> set (h # xs)" "n \<in> set (h # xs)" using A B x by (metis in_set_conv_decomp append_Cons Un_iff set_append, metis B Un_iff append_Cons list.set_intros(1) list.set_intros(2) set_ConsD set_append empty_iff list.set(1))
  then show "\<forall>z. z \<notin> set (h # xs) \<longrightarrow> l_next (unlink l e) z = l_next l z \<and> l_prev (unlink l e) z = l_prev l z"
    by (auto simp: u)
qed

lemma ring_link_before:
  assumes "ring l h xs" "e \<notin> set (h # xs)"
  shows "ring (link_before l h e) h (xs @ [e])"
    and "\<forall>z. z \<notin> set (h # e # xs) \<longrightarrow> l_next (link_before l h e) z = l_next l z \<and> l_prev (link_before l h e) z = l_prev l z"
proof -
  obtain A p where A: "h # xs = A @ [p]" by (metis append_butlast_last_id list.distinct(1))
  have z: "h # xs @ [h] = A @ [p, h]" using A by simp
  have d: "distinct (h # xs)" and k: "links l (A @ [p, h])" using assms(1) unfolding ring_def z by simp_all
  have k': "links l (A @ [p])" "l_next l p = h" "l_prev l h = p" using k links_append [of l A p "[h]"] by simp_all
  have p: "p \<in> set (h # xs)" unfolding A by simp
  then have pe: "p \<noteq> e" using assms(2) by blast
  have u: "l_next (link_before l h e) = (l_next l)(e := h, p := e)" "l_prev (link_before l h e) = (l_prev l)(e := p, h := e)"
    using k'(2,3) pe assms(2) by (auto simp: link_before_def Let_def fun_eq_iff)
  let ?l = "l \<lparr> l_next := (l_next l)(e := h), l_prev := (l_prev l)(e := p) \<rparr>"
  have "links ?l (A @ [p])" using k'(1) assms(2) unfolding A [symmetric] by (subst links_same [of _ ?l l]) auto
  moreover have "h \<notin> set (tl (A @ [p]))" "p \<notin> set (butlast (A @ [p]))" using d unfolding A [symmetric] by (simp, use d A in \<open>simp add: A\<close>)
  ultimately have "links (link_before l h e) (A @ [p])" using links_frame [of p "A @ [p]" h "link_before l h e" ?l e e] u by simp
  moreover have h: "h # (xs @ [e]) @ [h] = A @ [p, e, h]" using A by simp
  moreover have "e \<noteq> h" using assms(2) by simp
  ultimately have "links (link_before l h e) (h # (xs @ [e]) @ [h])"
    unfolding h links_append [of "link_before l h e" A p "[e, h]"] using pe by (simp add: u)
  then show "ring (link_before l h e) h (xs @ [e])" using d assms(2) by (simp add: ring_def)
  show "\<forall>z. z \<notin> set (h # e # xs) \<longrightarrow> l_next (link_before l h e) z = l_next l z \<and> l_prev (link_before l h e) z = l_prev l z"
    using p by (auto simp: u)
qed

end
