(* ===== verification/Filter_Block.thy ===== *)
theory Filter_Block
  imports DBFormat
begin

text \<open>
  Filters: the hash of \<open>kv/util/hash.cpp\<close>, the Bloom filter policy of \<open>kv/util/bloom.cpp\<close>,
  the policy on internal keys of \<open>kv/db/dbformat.cpp\<close>, and the filter block of
  \<open>kv/table/filter_block.cpp\<close>. The locale \<open>filter_policy\<close> is the contract of
  \<open>kv/include/filter_policy.h\<close>: no false negatives. Sizes and file offsets, 64-bit numbers in
  the code that no operation here brings near their limit, are natural numbers; the 32-bit offsets
  stored in the block are words.
\<close>

unbundle bit_operations_syntax

section \<open>The hash\<close>

definition hash_m :: u32 where
  "hash_m = 0xc6a4a793"

fun Hash_words :: "bytes \<Rightarrow> u32 \<Rightarrow> u32 \<times> bytes" where
  "Hash_words (a # b # c # d # data) h =
     (let w = DecodeFixed32 [a, b, c, d];
          h = (h + w) * hash_m;
          h = h XOR drop_bit 16 h
      in Hash_words data h)"
| "Hash_words data h = (h, data)"

text \<open>The cases of the switch fall through.\<close>

definition Hash_tail :: "bytes \<Rightarrow> u32 \<Rightarrow> u32" where
  "Hash_tail data h =
     (if data = [] then h
      else (let h = (if 3 \<le> length data then h + push_bit 16 (ucast (data ! 2)) else h);
                h = (if 2 \<le> length data then h + push_bit 8 (ucast (data ! 1)) else h);
                h = (h + ucast (data ! 0)) * hash_m
            in h XOR drop_bit 24 h))"

definition Hash :: "bytes \<Rightarrow> u32 \<Rightarrow> u32" where
  "Hash data seed =
     (let h = seed XOR (word_of_nat (length data) * hash_m);
          (h, tl) = Hash_words data h
      in Hash_tail tl h)"

section \<open>Filter policies\<close>

record FilterPolicy =
  fp_Name :: bytes
  fp_CreateFilter :: "bytes list \<Rightarrow> bytes \<Rightarrow> bytes"
  fp_KeyMayMatch :: "bytes \<Rightarrow> bytes \<Rightarrow> bool"

definition BloomHash :: "bytes \<Rightarrow> u32" where
  "BloomHash key = Hash key 0xbc9f1d34"

definition bloom_delta :: "u32 \<Rightarrow> u32" where
  "bloom_delta h = drop_bit 17 h OR push_bit 15 h"

text \<open>
  The truncation of \<open>bits_per_key * 0.69\<close>; below the cap of 30 no product is near an integer
  except at 0, so the rounding of the double does not show.
\<close>

definition bloom_k :: "nat \<Rightarrow> nat" where
  "bloom_k bits_per_key =
     (let k = bits_per_key * 69 div 100;
          k = (if k < 1 then 1 else k)
      in if k > 30 then 30 else k)"

fun bloom_set :: "nat \<Rightarrow> u32 \<Rightarrow> u32 \<Rightarrow> nat \<Rightarrow> bytes \<Rightarrow> bytes" where
  "bloom_set 0 h delta bits array = array"
| "bloom_set (Suc j) h delta bits array =
     (let bitpos = unat h mod bits;
          array = array[bitpos div 8 := array ! (bitpos div 8) OR push_bit (bitpos mod 8) 1]
      in bloom_set j (h + delta) delta bits array)"

definition bloom_add :: "nat \<Rightarrow> nat \<Rightarrow> bytes \<Rightarrow> bytes \<Rightarrow> bytes" where
  "bloom_add k bits array key =
     (let h = BloomHash key in bloom_set k h (bloom_delta h) bits array)"

definition Bloom_CreateFilter :: "nat \<Rightarrow> bytes list \<Rightarrow> bytes \<Rightarrow> bytes" where
  "Bloom_CreateFilter bits_per_key keys dst =
     (let k = bloom_k bits_per_key;
          bits = length keys * bits_per_key;
          bits = (if bits < 64 then 64 else bits);
          bytes = (bits + 7) div 8;
          bits = bytes * 8
      in dst @ foldl (bloom_add k bits) (replicate bytes 0) keys @ [word_of_nat k])"

fun bloom_test :: "nat \<Rightarrow> u32 \<Rightarrow> u32 \<Rightarrow> nat \<Rightarrow> bytes \<Rightarrow> bool" where
  "bloom_test 0 h delta bits array = True"
| "bloom_test (Suc j) h delta bits array =
     (let bitpos = unat h mod bits
      in if array ! (bitpos div 8) AND push_bit (bitpos mod 8) 1 = 0 then False
         else bloom_test j (h + delta) delta bits array)"

definition Bloom_KeyMayMatch :: "bytes \<Rightarrow> bytes \<Rightarrow> bool" where
  "Bloom_KeyMayMatch key bloom_filter =
     (let len = length bloom_filter in
      if len < 2 then False
      else (let bits = (len - 1) * 8;
                k = unat (bloom_filter ! (len - 1))
            in if k > 30 then True
               else (let h = BloomHash key in bloom_test k h (bloom_delta h) bits bloom_filter)))"

definition BloomFilterPolicy :: "nat \<Rightarrow> FilterPolicy" where
  "BloomFilterPolicy bits_per_key =
     \<lparr> fp_Name = str ''QuasDB.BuiltinBloomFilter2'',
       fp_CreateFilter = Bloom_CreateFilter bits_per_key,
       fp_KeyMayMatch = Bloom_KeyMayMatch \<rparr>"

definition InternalFilterPolicy :: "FilterPolicy \<Rightarrow> FilterPolicy" where
  "InternalFilterPolicy user_policy =
     \<lparr> fp_Name = fp_Name user_policy,
       fp_CreateFilter = (\<lambda>keys dst. fp_CreateFilter user_policy (map ExtractUserKey keys) dst),
       fp_KeyMayMatch = (\<lambda>key f. fp_KeyMayMatch user_policy (ExtractUserKey key) f) \<rparr>"

section \<open>The filter block\<close>

definition kFilterBaseLg :: nat where
  "kFilterBaseLg = 11"

definition kFilterBase :: nat where
  "kFilterBase = 2 ^ kFilterBaseLg"

record FilterBlockBuilder =
  fb_keys :: bytes
  fb_start :: "nat list"
  fb_result :: bytes
  fb_filter_offsets :: "u32 list"

definition FilterBlockBuilder_new :: FilterBlockBuilder where
  "FilterBlockBuilder_new = \<lparr> fb_keys = [], fb_start = [], fb_result = [], fb_filter_offsets = [] \<rparr>"

definition fb_tmp_keys :: "bytes \<Rightarrow> nat list \<Rightarrow> bytes list" where
  "fb_tmp_keys keys start =
     (let start' = start @ [length keys]
      in map (\<lambda>i. take (start' ! (i + 1) - start' ! i) (drop (start' ! i) keys)) [0..<length start])"

definition fb_GenerateFilter :: "FilterPolicy \<Rightarrow> FilterBlockBuilder \<Rightarrow> FilterBlockBuilder" where
  "fb_GenerateFilter policy b =
     (if length (fb_start b) = 0
      then b \<lparr> fb_filter_offsets := fb_filter_offsets b @ [word_of_nat (length (fb_result b))] \<rparr>
      else b \<lparr> fb_filter_offsets := fb_filter_offsets b @ [word_of_nat (length (fb_result b))],
               fb_result := fp_CreateFilter policy (fb_tmp_keys (fb_keys b) (fb_start b)) (fb_result b),
               fb_keys := [], fb_start := [] \<rparr>)"

lemma length_offsets_GenerateFilter [simp]:
  "length (fb_filter_offsets (fb_GenerateFilter policy b)) = Suc (length (fb_filter_offsets b))"
  by (simp add: fb_GenerateFilter_def)

function fb_StartBlock_loop :: "FilterPolicy \<Rightarrow> nat \<Rightarrow> FilterBlockBuilder \<Rightarrow> FilterBlockBuilder" where
  "fb_StartBlock_loop policy filter_index b =
     (if filter_index > length (fb_filter_offsets b)
      then fb_StartBlock_loop policy filter_index (fb_GenerateFilter policy b)
      else b)"
  by pat_completeness auto
termination
  by (relation "measure (\<lambda>(_, i, b). i - length (fb_filter_offsets b))") auto

declare fb_StartBlock_loop.simps [simp del]

definition fb_StartBlock :: "FilterPolicy \<Rightarrow> FilterBlockBuilder \<Rightarrow> nat \<Rightarrow> FilterBlockBuilder" where
  "fb_StartBlock policy b block_offset = fb_StartBlock_loop policy (block_offset div kFilterBase) b"

definition fb_AddKey :: "FilterBlockBuilder \<Rightarrow> bytes \<Rightarrow> FilterBlockBuilder" where
  "fb_AddKey b key =
     b \<lparr> fb_start := fb_start b @ [length (fb_keys b)], fb_keys := fb_keys b @ key \<rparr>"

definition fb_Finish :: "FilterPolicy \<Rightarrow> FilterBlockBuilder \<Rightarrow> bytes" where
  "fb_Finish policy b =
     (let b = (if fb_start b \<noteq> [] then fb_GenerateFilter policy b else b);
          array_offset = word_of_nat (length (fb_result b));
          result = foldl PutFixed32 (fb_result b) (fb_filter_offsets b);
          result = PutFixed32 result array_offset
      in result @ [word_of_nat kFilterBaseLg])"

record FilterBlockReader =
  fr_data :: bytes
  fr_offset :: nat
  fr_num :: nat
  fr_base_lg :: nat

definition FilterBlockReader_new :: "bytes \<Rightarrow> FilterBlockReader" where
  "FilterBlockReader_new contents =
     (let n = length contents;
          r = \<lparr> fr_data = [], fr_offset = 0, fr_num = 0, fr_base_lg = 0 \<rparr>
      in if n < 5 then r
         else (let r = r \<lparr> fr_base_lg := unat (contents ! (n - 1)) \<rparr>;
                   last_word = unat (DecodeFixed32 (drop (n - 5) contents))
               in if last_word > n - 5 then r
                  else r \<lparr> fr_data := contents, fr_offset := last_word, fr_num := (n - 5 - last_word) div 4 \<rparr>))"

definition fr_KeyMayMatch :: "FilterPolicy \<Rightarrow> FilterBlockReader \<Rightarrow> nat \<Rightarrow> bytes \<Rightarrow> bool" where
  "fr_KeyMayMatch policy r block_offset key =
     (let index = block_offset div 2 ^ fr_base_lg r in
      if index < fr_num r
      then (let start = DecodeFixed32 (drop (fr_offset r + index * 4) (fr_data r));
                limit = DecodeFixed32 (drop (fr_offset r + index * 4 + 4) (fr_data r))
            in if start \<le> limit \<and> unat limit \<le> fr_offset r
               then fp_KeyMayMatch policy key (take (unat (limit - start)) (drop (unat start) (fr_data r)))
               else if start = limit then False
               else True)
      else True)"

section \<open>The contract\<close>

locale filter_policy =
  fixes P :: FilterPolicy
  assumes create_appends: "fp_CreateFilter P keys dst = dst @ fp_CreateFilter P keys []"
    and no_false_negative: "k \<in> set keys \<Longrightarrow> fp_KeyMayMatch P k (fp_CreateFilter P keys [])"

text \<open>The arrays of a Bloom filter, ordered by the bits that are set.\<close>

definition bits_le :: "bytes \<Rightarrow> bytes \<Rightarrow> bool" where
  "bits_le A B \<longleftrightarrow> length A = length B \<and> (\<forall>i < length A. \<forall>n. bit (A ! i) n \<longrightarrow> bit (B ! i) n)"

lemma bits_le_refl [simp]: "bits_le A A"
  by (simp add: bits_le_def)

lemma bits_le_trans: "bits_le A B \<Longrightarrow> bits_le B C \<Longrightarrow> bits_le A C"
  by (auto simp: bits_le_def)

lemma and_push_bit_1: "r < 8 \<Longrightarrow> (x :: byte) AND 2 ^ r = 0 \<longleftrightarrow> \<not> bit x r"
proof -
  assume r: "r < 8"
  have "x AND 2 ^ r = 0" if "\<not> bit x r"
    by (rule bit_word_eqI) (use that in \<open>auto simp: bit_simps\<close>)
  moreover have "\<not> bit x r" if "x AND 2 ^ r = 0"
  proof -
    have "\<not> bit (x AND 2 ^ r) r" unfolding that by simp
    then show ?thesis using r by (simp add: bit_simps)
  qed
  ultimately show ?thesis by blast
qed

lemma bits_le_update: "bits_le A (A[i := A ! i OR x])"
  by (cases "i < length A") (auto simp: bits_le_def nth_list_update bit_simps)

lemma bloom_set_ge: "bits_le A (bloom_set j h delta bits A)"
proof (induction j arbitrary: h A)
  case (Suc j)
  show ?case
    using bits_le_trans [OF bits_le_update Suc.IH] by (simp add: Let_def)
qed simp

lemma length_bloom_set [simp]: "length (bloom_set j h delta bits A) = length A"
  using bloom_set_ge [of A j h delta bits] by (simp add: bits_le_def)

lemma bitpos_in_range:
  assumes "0 < bits" "bits = 8 * length (A :: bytes)"
  shows "unat (h :: u32) mod bits div 8 < length A"
  using assms mod_less_divisor [OF assms(1), of "unat h"] by linarith

lemma bloom_test_mono:
  assumes "bits_le A B" "bits = 8 * length A" "0 < bits"
  shows "bloom_test j h delta bits A \<Longrightarrow> bloom_test j h delta bits B"
proof (induction j arbitrary: h)
  case (Suc j)
  have "unat h mod bits div 8 < length A" by (rule bitpos_in_range) (use assms in auto)
  with Suc assms show ?case
    by (auto simp: Let_def and_push_bit_1 bits_le_def split: if_splits)
qed simp

lemma bloom_test_set:
  assumes "bits = 8 * length A" "0 < bits"
  shows "bloom_test j h delta bits (bloom_set j h delta bits A)"
  using assms
proof (induction j arbitrary: h A)
  case (Suc j)
  let ?i = "unat h mod bits div 8" and ?r = "unat h mod bits mod 8"
  let ?A = "A[?i := A ! ?i OR push_bit ?r 1]"
  have i: "?i < length A" by (rule bitpos_in_range) (use Suc.prems in auto)
  have r: "?r < 8" by simp
  have "bits_le ?A (bloom_set j (h + delta) delta bits ?A)" by (rule bloom_set_ge)
  moreover have "bit (?A ! ?i) ?r" using i by (simp add: bit_simps)
  ultimately have "bit (bloom_set j (h + delta) delta bits ?A ! ?i) ?r"
    using i by (auto simp: bits_le_def simp del: nth_list_update_eq)
  moreover have "bloom_test j (h + delta) delta bits (bloom_set j (h + delta) delta bits ?A)"
    using Suc.prems by (intro Suc.IH) auto
  ultimately show ?case by (simp add: Let_def and_push_bit_1)
qed simp

lemma bloom_fold_ge: "bits_le A (foldl (bloom_add k bits) A keys)"
proof (induction keys arbitrary: A)
  case (Cons key keys)
  have "bits_le A (bloom_add k bits A key)" by (simp add: bloom_add_def bloom_set_ge Let_def)
  with Cons show ?case by (simp add: bits_le_trans)
qed simp

lemma length_bloom_fold [simp]: "length (foldl (bloom_add k bits) A keys) = length A"
  using bloom_fold_ge [of A k bits keys] by (simp add: bits_le_def)

lemma bloom_fold_test:
  assumes "key \<in> set keys" "bits = 8 * length A" "0 < bits"
  shows "bloom_test k (BloomHash key) (bloom_delta (BloomHash key)) bits (foldl (bloom_add k bits) A keys)"
  using assms
proof (induction keys arbitrary: A)
  case (Cons x keys)
  have len: "length (bloom_add k bits A x) = length A" by (simp add: bloom_add_def Let_def)
  show ?case
  proof (cases "key = x")
    case True
    have "bloom_test k (BloomHash x) (bloom_delta (BloomHash x)) bits (bloom_add k bits A x)"
      using Cons.prems by (simp add: bloom_add_def bloom_test_set Let_def)
    with bloom_test_mono [OF bloom_fold_ge [of "bloom_add k bits A x" k bits keys], of bits] True Cons.prems len
    show ?thesis by simp
  next
    case False
    with Cons.IH [of "bloom_add k bits A x"] Cons.prems len show ?thesis by simp
  qed
qed simp

lemma bloom_test_append:
  assumes "bits = 8 * length A" "0 < bits"
  shows "bloom_test j h delta bits (A @ B) = bloom_test j h delta bits A"
proof (induction j arbitrary: h)
  case (Suc j)
  have "unat h mod bits div 8 < length A" by (rule bitpos_in_range) (use assms in auto)
  with Suc show ?case by (simp add: Let_def nth_append)
qed simp

lemma bloom_k_bounds: "1 \<le> bloom_k b" "bloom_k b \<le> 30"
  by (simp_all add: bloom_k_def Let_def)

lemma unat_bloom_k: "unat (word_of_nat (bloom_k b) :: byte) = bloom_k b"
  using bloom_k_bounds(2) [of b] by (simp add: unat_of_nat take_bit_nat_eq_self)

lemma Bloom_filter_policy: "filter_policy (BloomFilterPolicy b)"
proof
  fix keys dst
  show "fp_CreateFilter (BloomFilterPolicy b) keys dst = dst @ fp_CreateFilter (BloomFilterPolicy b) keys []"
    by (simp add: BloomFilterPolicy_def Bloom_CreateFilter_def Let_def)
next
  fix key :: bytes and keys
  assume key: "key \<in> set keys"
  define bits where "bits = (if length keys * b < 64 then 64 else length keys * b)"
  define n where "n = (bits + 7) div 8"
  have "64 \<le> bits" by (simp add: bits_def)
  then have n: "8 \<le> n" unfolding n_def by linarith
  let ?A = "foldl (bloom_add (bloom_k b) (n * 8)) (replicate n 0) keys"
  have "bloom_test (bloom_k b) (BloomHash key) (bloom_delta (BloomHash key)) (n * 8) ?A"
    using n by (intro bloom_fold_test key) auto
  then have "bloom_test (bloom_k b) (BloomHash key) (bloom_delta (BloomHash key)) (n * 8)
      (?A @ [word_of_nat (bloom_k b)])"
    using n by (subst bloom_test_append) auto
  then show "fp_KeyMayMatch (BloomFilterPolicy b) key (fp_CreateFilter (BloomFilterPolicy b) keys [])"
    using n bloom_k_bounds(2) [of b]
    by (simp add: BloomFilterPolicy_def Bloom_CreateFilter_def Bloom_KeyMayMatch_def nth_append unat_bloom_k
        Let_def bits_def [symmetric] n_def [symmetric])
qed

interpretation bloom: filter_policy "BloomFilterPolicy b" for b
  by (rule Bloom_filter_policy)

section \<open>What a filter block holds\<close>

definition fb_pending :: "FilterBlockBuilder \<Rightarrow> bytes list \<Rightarrow> bool" where
  "fb_pending b ks \<longleftrightarrow> fb_keys b = concat ks \<and> fb_start b = map (part_start ks) [0..<length ks]"

lemma fb_tmp_keys_pending: "fb_pending b ks \<Longrightarrow> fb_tmp_keys (fb_keys b) (fb_start b) = ks"
proof -
  assume b: "fb_pending b ks"
  have s: "fb_start b @ [length (fb_keys b)] = map (part_start ks) [0..<Suc (length ks)]"
    using b by (simp add: fb_pending_def) (simp add: part_start_def)
  show ?thesis
  proof (rule nth_equalityI)
    show "length (fb_tmp_keys (fb_keys b) (fb_start b)) = length ks"
      using b by (simp add: fb_tmp_keys_def fb_pending_def Let_def)
    fix i assume "i < length (fb_tmp_keys (fb_keys b) (fb_start b))"
    then have i: "i < length ks" using b by (simp add: fb_tmp_keys_def fb_pending_def Let_def)
    have "length (fb_start b) = length ks" using b by (simp add: fb_pending_def)
    then have "fb_tmp_keys (fb_keys b) (fb_start b) ! i =
        take (part_start ks (Suc i) - part_start ks i) (drop (part_start ks i) (concat ks))"
      using i b unfolding fb_tmp_keys_def Let_def s
      by (simp add: fb_pending_def nth_append del: upt_Suc)
    also have "\<dots> = ks ! i" using i by (simp add: part_start_Suc part_at)
    finally show "fb_tmp_keys (fb_keys b) (fb_start b) ! i = ks ! i" .
  qed
qed

lemma fb_AddKey_pending: "fb_pending b ks \<Longrightarrow> fb_pending (fb_AddKey b key) (ks @ [key])"
  by (auto simp: fb_pending_def fb_AddKey_def part_start_append part_start_def)

lemma fb_AddKeys_pending: "fb_pending b ks \<Longrightarrow> fb_pending (foldl fb_AddKey b keys) (ks @ keys)"
proof (induction keys arbitrary: b ks)
  case (Cons k keys)
  from Cons.IH [OF fb_AddKey_pending [OF Cons.prems]] show ?case by simp
qed simp

lemma fb_AddKeys_other [simp]:
  "fb_result (foldl fb_AddKey b keys) = fb_result b"
  "fb_filter_offsets (foldl fb_AddKey b keys) = fb_filter_offsets b"
  by (induction keys arbitrary: b) (simp_all add: fb_AddKey_def)

text \<open>The keys of the filter with index \<open>j\<close>: of the finished filters, or of the one being built.\<close>

definition slot :: "'a list list \<Rightarrow> 'a list \<Rightarrow> nat \<Rightarrow> 'a list" where
  "slot fs ks j = (if j < length fs then fs ! j else if j = length fs then ks else [])"

lemma slot_snoc: "slot (fs @ [ks]) [] j = slot fs ks j"
  by (auto simp: slot_def nth_append)

text \<open>The calls the class comment prescribes: \<open>(StartBlock AddKey*)*\<close>.\<close>

definition fb_block :: "FilterPolicy \<Rightarrow> FilterBlockBuilder \<Rightarrow> nat \<times> bytes list \<Rightarrow> FilterBlockBuilder" where
  "fb_block policy b blk = foldl fb_AddKey (fb_StartBlock policy b (fst blk)) (snd blk)"

definition fb_run :: "FilterPolicy \<Rightarrow> (nat \<times> bytes list) list \<Rightarrow> bytes" where
  "fb_run policy blocks = fb_Finish policy (foldl (fb_block policy) FilterBlockBuilder_new blocks)"

context filter_policy
begin

text \<open>The data of the filter for a list of keys.\<close>

definition fdata :: "bytes list \<Rightarrow> bytes" where
  "fdata ks = (if ks = [] then [] else fp_CreateFilter P ks [])"

definition fb_rep :: "FilterBlockBuilder \<Rightarrow> bytes list list \<Rightarrow> bytes list \<Rightarrow> bool" where
  "fb_rep b fs ks \<longleftrightarrow> fb_pending b ks \<and> fb_result b = concat (map fdata fs) \<and>
     fb_filter_offsets b = map (\<lambda>i. word_of_nat (part_start (map fdata fs) i)) [0..<length fs]"

lemma fb_rep_new: "fb_rep FilterBlockBuilder_new [] []"
  by (simp add: fb_rep_def fb_pending_def FilterBlockBuilder_new_def)

lemma fb_rep_offsets: "fb_rep b fs ks \<Longrightarrow> length (fb_filter_offsets b) = length fs"
  by (simp add: fb_rep_def)

lemma fb_rep_GenerateFilter:
  assumes "fb_rep b fs ks"
  shows "fb_rep (fb_GenerateFilter P b) (fs @ [ks]) []"
proof -
  have offs: "map (\<lambda>i. word_of_nat (part_start (map fdata (fs @ [ks])) i)) [0..<Suc (length fs)] =
      map (\<lambda>i. word_of_nat (part_start (map fdata fs) i)) [0..<length fs] @
        [word_of_nat (length (concat (map fdata fs)) :: nat) :: u32]"
    by (simp add: part_start_append) (simp add: part_start_def)
  have "length (fb_start b) = length ks" using assms by (simp add: fb_rep_def fb_pending_def)
  then show ?thesis
    using assms fb_tmp_keys_pending [of b ks] create_appends [of ks "fb_result b"] offs
    by (auto simp: fb_rep_def fb_GenerateFilter_def fdata_def fb_pending_def simp del: upt_Suc)
qed

lemma fb_rep_StartBlock_loop:
  assumes "fb_rep b fs ks" "length fs \<le> i"
  shows "\<exists>fs' ks'. fb_rep (fb_StartBlock_loop P i b) fs' ks' \<and> length fs' = i \<and>
    (\<forall>j. slot fs' ks' j = slot fs ks j)"
  using assms
proof (induction "i - length fs" arbitrary: b fs ks)
  case 0
  then have "fb_StartBlock_loop P i b = b" by (subst fb_StartBlock_loop.simps) (simp add: fb_rep_offsets)
  with 0 show ?case by (auto intro!: exI [of _ fs])
next
  case (Suc n)
  then have step: "fb_StartBlock_loop P i b = fb_StartBlock_loop P i (fb_GenerateFilter P b)"
    by (subst fb_StartBlock_loop.simps) (simp add: fb_rep_offsets)
  have "n = i - length (fs @ [ks])" "length (fs @ [ks]) \<le> i" using Suc.hyps(2) by auto
  from Suc.hyps(1) [OF this(1) fb_rep_GenerateFilter [OF Suc.prems(1)] this(2)] show ?case
    unfolding step by (simp add: slot_snoc)
qed

lemma fb_rep_block:
  assumes "fb_rep b fs ks" "length fs \<le> off div kFilterBase"
  shows "\<exists>fs' ks'. fb_rep (fb_block P b (off, keys)) fs' ks' \<and> length fs' = off div kFilterBase \<and>
    (\<forall>j. set (slot fs ks j) \<subseteq> set (slot fs' ks' j)) \<and> set keys \<subseteq> set (slot fs' ks' (off div kFilterBase))"
proof -
  let ?i = "off div kFilterBase"
  obtain fs' ks' where r: "fb_rep (fb_StartBlock_loop P ?i b) fs' ks'" "length fs' = ?i"
    and eq: "\<forall>j. slot fs' ks' j = slot fs ks j"
    using fb_rep_StartBlock_loop [OF assms] by blast
  have "fb_rep (fb_block P b (off, keys)) fs' (ks' @ keys)"
    using r(1) fb_AddKeys_pending by (simp add: fb_rep_def fb_block_def fb_StartBlock_def)
  moreover have "set (slot fs ks j) \<subseteq> set (slot fs' (ks' @ keys) j)" for j
    using eq [rule_format, of j] by (auto simp: slot_def split: if_splits)
  moreover have "set keys \<subseteq> set (slot fs' (ks' @ keys) ?i)" using r(2) by (simp add: slot_def)
  ultimately show ?thesis using r(2) by blast
qed

lemma fb_rep_blocks:
  assumes "sorted (map fst blocks)"
  shows "\<exists>fs ks. fb_rep (foldl (fb_block P) FilterBlockBuilder_new blocks) fs ks \<and>
    (\<forall>off. (\<forall>blk \<in> set blocks. fst blk \<le> off) \<longrightarrow> length fs \<le> off div kFilterBase) \<and>
    (\<forall>blk \<in> set blocks. set (snd blk) \<subseteq> set (slot fs ks (fst blk div kFilterBase)))"
  using assms
proof (induction blocks rule: rev_induct)
  case Nil
  show ?case using fb_rep_new by auto
next
  case (snoc blk blocks)
  obtain off keys where blk: "blk = (off, keys)" by (cases blk)
  obtain fs ks where r: "fb_rep (foldl (fb_block P) FilterBlockBuilder_new blocks) fs ks"
    and len: "\<forall>off. (\<forall>blk \<in> set blocks. fst blk \<le> off) \<longrightarrow> length fs \<le> off div kFilterBase"
    and sub: "\<forall>blk \<in> set blocks. set (snd blk) \<subseteq> set (slot fs ks (fst blk div kFilterBase))"
    using snoc by (auto simp: sorted_append)
  have "length fs \<le> off div kFilterBase" using len snoc.prems blk by (auto simp: sorted_append)
  then obtain fs' ks' where r': "fb_rep (foldl (fb_block P) FilterBlockBuilder_new (blocks @ [blk])) fs' ks'"
    "length fs' = off div kFilterBase"
    and ext: "\<forall>j. set (slot fs ks j) \<subseteq> set (slot fs' ks' j)"
    "set keys \<subseteq> set (slot fs' ks' (off div kFilterBase))"
    using fb_rep_block [OF r, of off keys] blk by auto
  have "\<forall>b \<in> set (blocks @ [blk]). set (snd b) \<subseteq> set (slot fs' ks' (fst b div kFilterBase))"
    using sub ext blk by fastforce
  with r' blk show ?case by (intro exI [of _ fs'] exI [of _ ks']) (auto simp: div_le_mono)
qed

text \<open>Reading the finished block.\<close>

lemma Finish_contents:
  assumes "fb_rep b fs ks"
  shows "\<exists>fs'. (\<forall>j. set (slot fs ks j) \<subseteq> set (slot fs' [] j)) \<and>
    fb_Finish P b = concat (map fdata fs') @
      concat (map EncodeFixed32 (map (\<lambda>i. word_of_nat (part_start (map fdata fs') i)) [0..<Suc (length fs')])) @
      [word_of_nat kFilterBaseLg]"
proof -
  define fs' where "fs' = (if ks = [] then fs else fs @ [ks])"
  let ?b = "if fb_start b \<noteq> [] then fb_GenerateFilter P b else b"
  have "fb_start b = [] \<longleftrightarrow> ks = []" using assms by (auto simp: fb_rep_def fb_pending_def)
  then have "fb_rep ?b fs' []" using assms fb_rep_GenerateFilter by (auto simp: fs'_def)
  then have "fb_Finish P b = concat (map fdata fs') @
      concat (map EncodeFixed32 (map (\<lambda>i. word_of_nat (part_start (map fdata fs') i)) [0..<Suc (length fs')])) @
      [word_of_nat kFilterBaseLg]"
    unfolding fb_Finish_def Let_def
    by (simp add: fb_rep_def foldl_PutFixed32 PutFixed32_def comp_def) (simp add: part_start_def)
  moreover have "set (slot fs ks j) \<subseteq> set (slot fs' [] j)" for j
    by (auto simp: slot_def fs'_def nth_append)
  ultimately show ?thesis by blast
qed

lemma reader_finds:
  assumes c: "c = concat (map fdata fs) @
      concat (map EncodeFixed32 (map (\<lambda>i. word_of_nat (part_start (map fdata fs) i)) [0..<Suc (length fs)])) @
      [word_of_nat kFilterBaseLg]"
    and len: "length c < 2 ^ 32"
    and k: "k \<in> set (slot fs [] (off div kFilterBase))"
  shows "fr_KeyMayMatch P (FilterBlockReader_new c) off k"
proof -
  let ?D = "concat (map fdata fs)" and ?s = "part_start (map fdata fs)"
    and ?ws = "map (\<lambda>i. word_of_nat (part_start (map fdata fs) i) :: u32) [0..<Suc (length fs)]"
  let ?i = "off div kFilterBase"
  have c': "c = ?D @ concat (map EncodeFixed32 ?ws) @ [word_of_nat kFilterBaseLg]" by (rule c)
  have i: "?i < length fs" "k \<in> set (fs ! ?i)" using k by (auto simp: slot_def split: if_splits)
  have n: "length c = length ?D + 4 * length fs + 5"
    unfolding c' by (simp add: length_fixed32_array del: map_map upt_Suc)
  have s: "unat (word_of_nat (?s j) :: u32) = ?s j" for j
    using len n part_start_le [of "map fdata fs" j] by (simp add: unat_of_nat take_bit_nat_eq_self)
  have word: "DecodeFixed32 (drop (length ?D + j * 4) c) = word_of_nat (?s j)" if "j \<le> length fs" for j
  proof -
    have "drop (length ?D + j * 4) c = drop (4 * j) (concat (map EncodeFixed32 ?ws) @ [word_of_nat kFilterBaseLg])"
      unfolding c' by (simp add: mult.commute del: map_map upt_Suc)
    also have "\<dots> = EncodeFixed32 (?ws ! j) @ concat (map EncodeFixed32 (drop (Suc j) ?ws)) @ [word_of_nat kFilterBaseLg]"
      using that by (intro drop_fixed32_array) (simp del: upt_Suc)
    finally show ?thesis using that by (simp del: map_map upt_Suc)
  qed
  have all: "?s (length fs) = length ?D" by (simp add: part_start_def)
  have reader: "FilterBlockReader_new c =
      \<lparr> fr_data = c, fr_offset = length ?D, fr_num = length fs, fr_base_lg = kFilterBaseLg \<rparr>"
  proof -
    have "c ! (length c - 1) = word_of_nat kFilterBaseLg"
      unfolding c' by (simp add: nth_append del: map_map upt_Suc)
    moreover have "unat (DecodeFixed32 (drop (length c - 5) c)) = length ?D"
      using word [of "length fs"] s [of "length fs"] n all by (simp add: mult.commute)
    ultimately show ?thesis
      using n by (simp add: FilterBlockReader_new_def Let_def kFilterBaseLg_def)
  qed
  have next_s: "?s (Suc ?i) = ?s ?i + length (fdata (fs ! ?i))"
    using i(1) part_start_Suc [of ?i "map fdata fs"] by simp
  have "unat (word_of_nat (?s (Suc ?i)) - word_of_nat (?s ?i) :: u32) = length (fdata (fs ! ?i))"
    using s [of ?i] s [of "Suc ?i"] next_s by (subst unat_sub) (auto simp: word_le_nat_alt)
  moreover have "take (length (fdata (fs ! ?i))) (drop (?s ?i) c) = fdata (fs ! ?i)"
    using part_at [of ?i "map fdata fs"] i(1) part_start_le [of "map fdata fs" "Suc ?i"] next_s
    unfolding c' by (simp del: map_map upt_Suc)
  moreover have "fp_KeyMayMatch P k (fdata (fs ! ?i))"
    using i(2) no_false_negative by (auto simp: fdata_def)
  moreover have "(word_of_nat (?s ?i) :: u32) \<le> word_of_nat (?s (Suc ?i))"
    unfolding word_le_nat_alt s by (simp add: next_s)
  moreover have "DecodeFixed32 (drop (length ?D + ?i * 4 + 4) c) = word_of_nat (?s (Suc ?i))"
    using word [of "Suc ?i"] i(1) by (simp add: algebra_simps)
  ultimately show ?thesis
    using i(1) word [of ?i] s part_start_le [of "map fdata fs" "Suc ?i"]
    by (simp add: fr_KeyMayMatch_def reader kFilterBase_def [symmetric] Let_def)
qed

lemma filter_block_no_false_negative:
  assumes "sorted (map fst blocks)" "length (fb_run P blocks) < 2 ^ 32"
    and "(off, keys) \<in> set blocks" "k \<in> set keys"
  shows "fr_KeyMayMatch P (FilterBlockReader_new (fb_run P blocks)) off k"
proof -
  obtain fs ks where r: "fb_rep (foldl (fb_block P) FilterBlockBuilder_new blocks) fs ks"
    and sub: "\<forall>blk \<in> set blocks. set (snd blk) \<subseteq> set (slot fs ks (fst blk div kFilterBase))"
    using fb_rep_blocks [OF assms(1)] by blast
  obtain fs' where ext: "\<forall>j. set (slot fs ks j) \<subseteq> set (slot fs' [] j)"
    and c: "fb_run P blocks = concat (map fdata fs') @
      concat (map EncodeFixed32 (map (\<lambda>i. word_of_nat (part_start (map fdata fs') i)) [0..<Suc (length fs')])) @
      [word_of_nat kFilterBaseLg]"
    using Finish_contents [OF r] unfolding fb_run_def by blast
  show ?thesis
  proof (rule reader_finds [OF c assms(2)])
    show "k \<in> set (slot fs' [] (off div kFilterBase))"
      using sub assms(3,4) ext by fastforce
  qed
qed

text \<open>The policy on internal keys is a policy again.\<close>

lemma internal_policy: "filter_policy (InternalFilterPolicy P)"
proof
  show "fp_CreateFilter (InternalFilterPolicy P) keys dst = dst @ fp_CreateFilter (InternalFilterPolicy P) keys []"
    for keys dst using create_appends [of "map ExtractUserKey keys" dst] by (simp add: InternalFilterPolicy_def)
  show "fp_KeyMayMatch (InternalFilterPolicy P) k (fp_CreateFilter (InternalFilterPolicy P) keys [])"
    if "k \<in> set keys" for k keys
    using that no_false_negative by (simp add: InternalFilterPolicy_def)
qed

end

interpretation internal_bloom: filter_policy "InternalFilterPolicy (BloomFilterPolicy b)" for b
  by (rule bloom.internal_policy)

section \<open>Properties\<close>

text \<open>
  A Bloom filter has no false negatives, whatever the number of bits per key: every key the
  filter was created with is reported as a possible match, also through the policy that strips the
  trailer of internal keys, and also when the filter is appended to other data.
\<close>

lemma Bloom_no_false_negatives:
  assumes "k \<in> set keys"
  shows "Bloom_KeyMayMatch k (Bloom_CreateFilter bits_per_key keys []) \<and>
    (\<exists>f. Bloom_CreateFilter bits_per_key keys dst = dst @ f \<and> Bloom_KeyMayMatch k f) \<and>
    fp_KeyMayMatch (InternalFilterPolicy (BloomFilterPolicy bits_per_key)) k
      (fp_CreateFilter (InternalFilterPolicy (BloomFilterPolicy bits_per_key)) keys [])"
  using bloom.no_false_negative [OF assms, of bits_per_key] bloom.create_appends [of bits_per_key keys dst]
    internal_bloom.no_false_negative [OF assms, of bits_per_key]
  by (simp add: BloomFilterPolicy_def)

text \<open>
  C13: A filter block has no false negatives: when data blocks are started at non-decreasing
  offsets, a key added for the block at an offset is reported by the reader of the finished block as
  a possible match at that offset, as long as the block fits its 32-bit offsets.
\<close>

theorem FilterBlock_no_false_negatives:
  assumes "sorted (map fst blocks)"
    and "length (fb_run (InternalFilterPolicy (BloomFilterPolicy bits_per_key)) blocks) < 2 ^ 32"
    and "(off, keys) \<in> set blocks" "k \<in> set keys"
  shows "fr_KeyMayMatch (InternalFilterPolicy (BloomFilterPolicy bits_per_key))
    (FilterBlockReader_new (fb_run (InternalFilterPolicy (BloomFilterPolicy bits_per_key)) blocks)) off k"
  using assms by (rule internal_bloom.filter_block_no_false_negative)

lemma length_Bloom_CreateFilter:
  "length (Bloom_CreateFilter b keys dst) = length dst + (max 64 (length keys * b) + 7) div 8 + 1"
  by (simp add: Bloom_CreateFilter_def Let_def max_def)

lemma filter_block_example_length:
  "length (fb_run (InternalFilterPolicy (BloomFilterPolicy 10)) [(0, [[1, 0, 0, 0, 0, 0, 0, 0, 0]]), (4096, [[2, 0, 0, 0, 0, 0, 0, 0, 0]])]) = 35"
  by (simp add: fb_run_def fb_Finish_def fb_block_def fb_StartBlock_def fb_StartBlock_loop.simps fb_AddKey_def
      fb_GenerateFilter_def FilterBlockBuilder_new_def kFilterBase_def kFilterBaseLg_def foldl_PutFixed32 PutFixed32_def
      InternalFilterPolicy_def BloomFilterPolicy_def length_Bloom_CreateFilter fb_tmp_keys_def)

theorem FilterBlock_no_false_negatives_witness:
  "fr_KeyMayMatch (InternalFilterPolicy (BloomFilterPolicy 10))
    (FilterBlockReader_new (fb_run (InternalFilterPolicy (BloomFilterPolicy 10))
      [(0, [[1, 0, 0, 0, 0, 0, 0, 0, 0]]), (4096, [[2, 0, 0, 0, 0, 0, 0, 0, 0]])])) 4096 [2, 0, 0, 0, 0, 0, 0, 0, 0]"
  by (rule FilterBlock_no_false_negatives [where keys = "[[2, 0, 0, 0, 0, 0, 0, 0, 0]]"])
    (simp_all add: filter_block_example_length)

end
