(* ===== verification/Cache.thy ===== *)
theory Cache
  imports Ring Filter_Block "HOL-Library.Monad_Syntax" "HOL-Library.Multiset"
begin

text \<open>
  The cache of \<open>kv/util/cache.cpp\<close>: the hash table of handles, one shard of the cache with its two
  circular lists, and the sharded cache. Handles are addresses in a heap; \<open>malloc\<close> is the argument
  \<open>e\<close> of \<open>Insert\<close>, an address that is not in use. An operation that reads freed memory or fails an
  assertion has no result, so that every theorem about a result also says that neither happens. The
  calls of the deleters are listed. A chain of the table is the list of its handles; counters and
  references are natural numbers, for fewer than \<open>2\<^sup>3\<^sup>1\<close> entries and \<open>2\<^sup>3\<^sup>2\<close> references; charges
  are 64-bit words.
\<close>

record ('v, 'd) FIFOHandle =
  fh_value :: 'v
  fh_deleter :: 'd
  fh_charge :: u64
  fh_key :: bytes
  fh_in_cache :: bool
  fh_refs :: nat
  fh_hash :: u32

type_synonym ('v, 'd) handles = "nat \<rightharpoonup> ('v, 'd) FIFOHandle"

section \<open>The hash table\<close>

record HandleTable =
  ht_length :: nat
  ht_elems :: nat
  ht_list :: "nat list list"

definition bucket_of :: "nat \<Rightarrow> u32 \<Rightarrow> nat" where
  "bucket_of n hash = unat (hash AND (word_of_nat n - 1))"

text \<open>How far the loop of \<open>FindPointer\<close> runs along a chain.\<close>

fun find_slot :: "('v, 'd) handles \<Rightarrow> bytes \<Rightarrow> u32 \<Rightarrow> nat list \<Rightarrow> nat option" where
  "find_slot H key hash [] = Some 0"
| "find_slot H key hash (p # ps) =
     do { h \<leftarrow> H p;
          if fh_hash h \<noteq> hash \<or> key \<noteq> fh_key h then map_option Suc (find_slot H key hash ps) else Some 0 }"

definition FindPointer :: "('v, 'd) handles \<Rightarrow> HandleTable \<Rightarrow> bytes \<Rightarrow> u32 \<Rightarrow> (nat \<times> nat) option" where
  "FindPointer H t key hash =
     (let b = bucket_of (ht_length t) hash in do { i \<leftarrow> find_slot H key hash (ht_list t ! b); Some (b, i) })"

definition slot_at :: "HandleTable \<Rightarrow> nat \<times> nat \<Rightarrow> nat option" where
  "slot_at t ptr = (case ptr of (b, i) \<Rightarrow> if i < length (ht_list t ! b) then Some (ht_list t ! b ! i) else None)"

definition ht_Lookup :: "('v, 'd) handles \<Rightarrow> HandleTable \<Rightarrow> bytes \<Rightarrow> u32 \<Rightarrow> nat option option" where
  "ht_Lookup H t key hash = map_option (slot_at t) (FindPointer H t key hash)"

text \<open>The loop starts at four; a length of zero, which it would never leave, does not occur.\<close>

function grow_length :: "nat \<Rightarrow> nat \<Rightarrow> nat" where
  "grow_length new_length elems = (if new_length < elems \<and> new_length \<noteq> 0 then grow_length (push_bit 1 new_length) elems else new_length)"
  by pat_completeness auto
termination by (relation "measure (\<lambda>(n, elems). elems - n)") (auto simp: push_bit_eq_mult)

declare grow_length.simps [simp del]

fun rehash :: "('v, 'd) handles \<Rightarrow> nat \<Rightarrow> nat list list \<Rightarrow> nat list \<Rightarrow> nat list list option" where
  "rehash H n new_list [] = Some new_list"
| "rehash H n new_list (p # ps) =
     do { h \<leftarrow> H p; let b = bucket_of n (fh_hash h); rehash H n (new_list[b := p # new_list ! b]) ps }"

definition ht_Resize :: "('v, 'd) handles \<Rightarrow> HandleTable \<Rightarrow> HandleTable option" where
  "ht_Resize H t =
     (let new_length = grow_length 4 (ht_elems t) in
      do { new_list \<leftarrow> rehash H new_length (replicate new_length []) (concat (ht_list t));
           if ht_elems t = length (concat (ht_list t))
           then Some (t \<lparr> ht_list := new_list, ht_length := new_length \<rparr>) else None })"

definition HandleTable_new :: HandleTable where
  "HandleTable_new = the (ht_Resize (Map.empty :: (unit, unit) handles) \<lparr> ht_length = 0, ht_elems = 0, ht_list = [] \<rparr>)"

definition ht_Insert :: "('v, 'd) handles \<Rightarrow> HandleTable \<Rightarrow> nat \<Rightarrow> (HandleTable \<times> nat option) option" where
  "ht_Insert H t e =
     do { h \<leftarrow> H e;
          (b, i) \<leftarrow> FindPointer H t (fh_key h) (fh_hash h);
          let old = slot_at t (b, i);
          let chain = ht_list t ! b;
          let t = t \<lparr> ht_list := (ht_list t)[b := take i chain @ e # drop (Suc i) chain] \<rparr>;
          if old = None
          then (let t = t \<lparr> ht_elems := ht_elems t + 1 \<rparr>
                in if ht_length t < ht_elems t then do { t \<leftarrow> ht_Resize H t; Some (t, old) } else Some (t, old))
          else Some (t, old) }"

definition ht_Remove :: "('v, 'd) handles \<Rightarrow> HandleTable \<Rightarrow> bytes \<Rightarrow> u32 \<Rightarrow> (HandleTable \<times> nat option) option" where
  "ht_Remove H t key hash =
     do { (b, i) \<leftarrow> FindPointer H t key hash;
          let result = slot_at t (b, i);
          let chain = ht_list t ! b;
          Some (if result = None then (t, None)
                else (t \<lparr> ht_list := (ht_list t)[b := take i chain @ drop (Suc i) chain], ht_elems := ht_elems t - 1 \<rparr>, result)) }"

section \<open>One shard\<close>

record ('v, 'd) FIFOCache =
  fc_capacity :: u64
  fc_usage :: u64
  fc_links :: Links
  fc_table :: HandleTable
  fc_heap :: "('v, 'd) handles"
  fc_deleted :: "('d \<times> bytes \<times> 'v) list"

text \<open>The addresses of the two list heads, which are members of the shard.\<close>

definition fifo_head :: nat where "fifo_head = 0"
definition in_use_head :: nat where "in_use_head = 1"

definition FIFOCache_new :: "('v, 'd) FIFOCache" where
  "FIFOCache_new =
     \<lparr> fc_capacity = 0, fc_usage = 0,
       fc_links = self_link (self_link \<lparr> l_next = id, l_prev = id \<rparr> fifo_head) in_use_head,
       fc_table = HandleTable_new, fc_heap = Map.empty, fc_deleted = [] \<rparr>"

definition SetCapacity :: "('v, 'd) FIFOCache \<Rightarrow> u64 \<Rightarrow> ('v, 'd) FIFOCache" where
  "SetCapacity c capacity = c \<lparr> fc_capacity := capacity \<rparr>"

definition FIFO_Remove :: "('v, 'd) FIFOCache \<Rightarrow> nat \<Rightarrow> ('v, 'd) FIFOCache" where
  "FIFO_Remove c e = c \<lparr> fc_links := unlink (fc_links c) e \<rparr>"

definition FIFO_Append :: "('v, 'd) FIFOCache \<Rightarrow> nat \<Rightarrow> nat \<Rightarrow> ('v, 'd) FIFOCache" where
  "FIFO_Append c list e = c \<lparr> fc_links := link_before (fc_links c) list e \<rparr>"

definition set_handle :: "nat \<Rightarrow> ('v, 'd) FIFOHandle \<Rightarrow> ('v, 'd) FIFOCache \<Rightarrow> ('v, 'd) FIFOCache" where
  "set_handle e h c = c \<lparr> fc_heap := (fc_heap c)(e \<mapsto> h) \<rparr>"

definition fc_Ref :: "('v, 'd) FIFOCache \<Rightarrow> nat \<Rightarrow> ('v, 'd) FIFOCache option" where
  "fc_Ref c e =
     do { h \<leftarrow> fc_heap c e;
          let c = (if fh_refs h = 1 \<and> fh_in_cache h then FIFO_Append (FIFO_Remove c e) in_use_head e else c);
          Some (set_handle e (h \<lparr> fh_refs := fh_refs h + 1 \<rparr>) c) }"

definition fc_Unref :: "('v, 'd) FIFOCache \<Rightarrow> nat \<Rightarrow> ('v, 'd) FIFOCache option" where
  "fc_Unref c e =
     do { h \<leftarrow> fc_heap c e;
          if fh_refs h > 0
          then (let h = h \<lparr> fh_refs := fh_refs h - 1 \<rparr>; c = set_handle e h c
                in if fh_refs h = 0
                   then (if \<not> fh_in_cache h
                         then Some (c \<lparr> fc_deleted := fc_deleted c @ [(fh_deleter h, fh_key h, fh_value h)], fc_heap := (fc_heap c)(e := None) \<rparr>)
                         else None)
                   else if fh_in_cache h \<and> fh_refs h = 1 then Some (FIFO_Append (FIFO_Remove c e) fifo_head e)
                   else Some c)
          else None }"

definition fc_Lookup :: "('v, 'd) FIFOCache \<Rightarrow> bytes \<Rightarrow> u32 \<Rightarrow> (('v, 'd) FIFOCache \<times> nat option) option" where
  "fc_Lookup c key hash =
     do { r \<leftarrow> ht_Lookup (fc_heap c) (fc_table c) key hash;
          case r of None \<Rightarrow> Some (c, None) | Some e \<Rightarrow> do { c \<leftarrow> fc_Ref c e; Some (c, Some e) } }"

definition fc_Release :: "('v, 'd) FIFOCache \<Rightarrow> nat \<Rightarrow> ('v, 'd) FIFOCache option" where
  "fc_Release c e = fc_Unref c e"

definition FinishErase :: "('v, 'd) FIFOCache \<Rightarrow> nat option \<Rightarrow> (('v, 'd) FIFOCache \<times> bool) option" where
  "FinishErase c r =
     (case r of
        None \<Rightarrow> Some (c, False)
      | Some e \<Rightarrow>
          do { h \<leftarrow> fc_heap c e;
               if fh_in_cache h
               then do { c \<leftarrow> fc_Unref ((set_handle e (h \<lparr> fh_in_cache := False \<rparr>) (FIFO_Remove c e)) \<lparr> fc_usage := fc_usage c - fh_charge h \<rparr>) e;
                         Some (c, True) }
               else None })"

text \<open>The body that the loops of \<open>Insert\<close> and \<open>Prune\<close> share: the oldest entry of the FIFO list is erased.\<close>

definition erase_oldest :: "('v, 'd) FIFOCache \<Rightarrow> ('v, 'd) FIFOCache option" where
  "erase_oldest c =
     (let old = l_next (fc_links c) fifo_head in
      do { h \<leftarrow> fc_heap c old;
           if fh_refs h = 1
           then do { (t, r) \<leftarrow> ht_Remove (fc_heap c) (fc_table c) (fh_key h) (fh_hash h);
                     (c, erased) \<leftarrow> FinishErase (c \<lparr> fc_table := t \<rparr>) r;
                     if erased then Some c else None }
           else None })"

partial_function (option) evict_loop :: "('v, 'd) FIFOCache \<Rightarrow> ('v, 'd) FIFOCache option" where
  "evict_loop c =
     (if fc_usage c > fc_capacity c \<and> l_next (fc_links c) fifo_head \<noteq> fifo_head
      then do { c \<leftarrow> erase_oldest c; evict_loop c } else Some c)"

definition fc_Insert :: "('v, 'd) FIFOCache \<Rightarrow> nat \<Rightarrow> bytes \<Rightarrow> u32 \<Rightarrow> 'v \<Rightarrow> u64 \<Rightarrow> 'd \<Rightarrow> ('v, 'd) FIFOCache option" where
  "fc_Insert c e key hash value charge deleter =
     (let h = \<lparr> fh_value = value, fh_deleter = deleter, fh_charge = charge, fh_key = key, fh_in_cache = False, fh_refs = 1, fh_hash = hash \<rparr> in
      do { c \<leftarrow> (if fc_capacity c > 0
                  then (let c = set_handle e (h \<lparr> fh_refs := fh_refs h + 1, fh_in_cache := True \<rparr>) c;
                            c = FIFO_Append c in_use_head e;
                            c = c \<lparr> fc_usage := fc_usage c + charge \<rparr>
                        in do { (t, old) \<leftarrow> ht_Insert (fc_heap c) (fc_table c) e;
                                (c, _) \<leftarrow> FinishErase (c \<lparr> fc_table := t \<rparr>) old;
                                Some c })
                  else Some (set_handle e h c));
           evict_loop c })"

definition fc_Erase :: "('v, 'd) FIFOCache \<Rightarrow> bytes \<Rightarrow> u32 \<Rightarrow> ('v, 'd) FIFOCache option" where
  "fc_Erase c key hash =
     do { (t, r) \<leftarrow> ht_Remove (fc_heap c) (fc_table c) key hash;
          (c, _) \<leftarrow> FinishErase (c \<lparr> fc_table := t \<rparr>) r;
          Some c }"

partial_function (option) fc_Prune :: "('v, 'd) FIFOCache \<Rightarrow> ('v, 'd) FIFOCache option" where
  "fc_Prune c =
     (if l_next (fc_links c) fifo_head \<noteq> fifo_head then do { c \<leftarrow> erase_oldest c; fc_Prune c } else Some c)"

definition fc_TotalCharge :: "('v, 'd) FIFOCache \<Rightarrow> u64" where
  "fc_TotalCharge c = fc_usage c"

partial_function (option) delete_loop :: "('v, 'd) FIFOCache \<Rightarrow> nat \<Rightarrow> ('v, 'd) FIFOCache option" where
  "delete_loop c e =
     (if e \<noteq> fifo_head
      then (let next_e = l_next (fc_links c) e in
            do { h \<leftarrow> fc_heap c e;
                 if fh_in_cache h \<and> fh_refs h = 1
                 then do { c \<leftarrow> fc_Unref (set_handle e (h \<lparr> fh_in_cache := False \<rparr>) c) e; delete_loop c next_e }
                 else None })
      else Some c)"

definition FIFOCache_delete :: "('v, 'd) FIFOCache \<Rightarrow> ('v, 'd) FIFOCache option" where
  "FIFOCache_delete c =
     (if l_next (fc_links c) in_use_head = in_use_head then delete_loop c (l_next (fc_links c) fifo_head) else None)"

section \<open>Chains and buckets\<close>

definition matches :: "('v, 'd) handles \<Rightarrow> bytes \<Rightarrow> u32 \<Rightarrow> nat \<Rightarrow> bool" where
  "matches H key hash p \<longleftrightarrow> (\<exists>h. H p = Some h \<and> fh_key h = key \<and> fh_hash h = hash)"

definition tids :: "HandleTable \<Rightarrow> nat list" where
  "tids t = concat (ht_list t)"

definition in_bucket :: "('v, 'd) handles \<Rightarrow> nat \<Rightarrow> nat \<Rightarrow> nat \<Rightarrow> bool" where
  "in_bucket H n b p \<longleftrightarrow> (\<exists>h. H p = Some h \<and> bucket_of n (fh_hash h) = b)"

definition buckets_ok :: "('v, 'd) handles \<Rightarrow> HandleTable \<Rightarrow> bool" where
  "buckets_ok H t \<longleftrightarrow> length (ht_list t) = ht_length t \<and> 0 < ht_length t \<and> ht_elems t = length (tids t) \<and>
     (\<forall>b<ht_length t. \<forall>p\<in>set (ht_list t ! b). in_bucket H (ht_length t) b p)"

definition table_ok :: "('v, 'd) handles \<Rightarrow> HandleTable \<Rightarrow> bool" where
  "table_ok H t \<longleftrightarrow> buckets_ok H t \<and> distinct (tids t) \<and>
     (\<forall>p\<in>set (tids t). \<forall>q\<in>set (tids t). \<forall>key hash. matches H key hash p \<and> matches H key hash q \<longrightarrow> p = q)"

lemma bucket_of_less: "0 < n \<Longrightarrow> bucket_of n hash < n"
proof -
  assume n: "0 < n"
  have le: "bucket_of n hash \<le> unat (word_of_nat n - 1 :: u32)"
    unfolding bucket_of_def by (simp add: word_le_nat_alt [symmetric] word_and_le1)
  show ?thesis
  proof (cases "n < 2 ^ 32")
    case True
    then have "unat (word_of_nat n - 1 :: u32) = n - 1"
      using n by (simp add: unat_sub_if' unat_of_nat take_bit_nat_eq_self)
    with le n show ?thesis by linarith
  next
    case False
    have "unat (word_of_nat n - 1 :: u32) < 2 ^ 32" using unsigned_less [of "word_of_nat n - 1 :: u32"] by simp
    with le False show ?thesis by linarith
  qed
qed

lemma find_slot_spec:
  assumes "\<forall>p\<in>set ps. \<exists>h. H p = Some h"
  shows "\<exists>i\<le>length ps. find_slot H key hash ps = Some i \<and> (\<forall>p\<in>set (take i ps). \<not> matches H key hash p) \<and>
    (i < length ps \<longrightarrow> matches H key hash (ps ! i))"
  using assms
proof (induction ps)
  case (Cons p ps)
  then obtain i h where i: "i \<le> length ps" "find_slot H key hash ps = Some i" "\<forall>p\<in>set (take i ps). \<not> matches H key hash p"
    "i < length ps \<longrightarrow> matches H key hash (ps ! i)" "H p = Some h" by auto
  show ?case
  proof (cases "fh_hash h \<noteq> hash \<or> key \<noteq> fh_key h")
    case True
    then show ?thesis using i by (intro exI [of _ "Suc i"]) (auto simp: matches_def)
  next
    case False
    then show ?thesis using i(5) by (intro exI [of _ 0]) (auto simp: matches_def)
  qed
qed simp

lemma bucket_member: "b < length (ht_list t) \<Longrightarrow> p \<in> set (ht_list t ! b) \<Longrightarrow> p \<in> set (tids t)"
  unfolding tids_def by (auto intro: nth_mem)

lemma matching_bucket:
  assumes "buckets_ok H t" "p \<in> set (tids t)" "matches H key hash p"
  shows "p \<in> set (ht_list t ! bucket_of (ht_length t) hash)"
proof -
  obtain b where b: "b < length (ht_list t)" "p \<in> set (ht_list t ! b)"
    using assms(2) unfolding tids_def by (metis in_set_conv_nth set_concat UN_E)
  then have "in_bucket H (ht_length t) b p" using assms(1) by (auto simp: buckets_ok_def)
  then have "bucket_of (ht_length t) hash = b" using assms(3) by (auto simp: in_bucket_def matches_def)
  with b(2) show ?thesis by simp
qed

lemma FindPointer_spec:
  assumes "buckets_ok H t"
  obtains b i where "FindPointer H t key hash = Some (b, i)" "b = bucket_of (ht_length t) hash" "b < length (ht_list t)" "i \<le> length (ht_list t ! b)"
    "i < length (ht_list t ! b) \<Longrightarrow> matches H key hash (ht_list t ! b ! i)"
    "i = length (ht_list t ! b) \<Longrightarrow> \<forall>p\<in>set (tids t). \<not> matches H key hash p"
proof -
  let ?b = "bucket_of (ht_length t) hash"
  have b: "?b < length (ht_list t)" using assms bucket_of_less by (simp add: buckets_ok_def)
  have "\<forall>p\<in>set (ht_list t ! ?b). \<exists>h. H p = Some h" using assms b by (auto simp: buckets_ok_def in_bucket_def)
  from find_slot_spec [OF this, of key hash] obtain i where i: "i \<le> length (ht_list t ! ?b)" "find_slot H key hash (ht_list t ! ?b) = Some i"
    "\<forall>p\<in>set (take i (ht_list t ! ?b)). \<not> matches H key hash p" "i < length (ht_list t ! ?b) \<longrightarrow> matches H key hash (ht_list t ! ?b ! i)" by blast
  have "\<forall>p\<in>set (tids t). \<not> matches H key hash p" if "i = length (ht_list t ! ?b)"
    using matching_bucket [OF assms] i(3) that by auto
  with i b show thesis by (intro that [of ?b i]) (auto simp: FindPointer_def)
qed

lemma ht_Lookup_spec:
  assumes "buckets_ok H t"
  obtains "ht_Lookup H t key hash = Some None" "\<forall>p\<in>set (tids t). \<not> matches H key hash p"
  | p where "ht_Lookup H t key hash = Some (Some p)" "p \<in> set (tids t)" "matches H key hash p"
proof -
  obtain b i where f: "FindPointer H t key hash = Some (b, i)" "b < length (ht_list t)" "i \<le> length (ht_list t ! b)"
    "i < length (ht_list t ! b) \<Longrightarrow> matches H key hash (ht_list t ! b ! i)"
    "i = length (ht_list t ! b) \<Longrightarrow> \<forall>p\<in>set (tids t). \<not> matches H key hash p"
    using FindPointer_spec [OF assms, of key hash] by metis
  show thesis
  proof (cases "i < length (ht_list t ! b)")
    case True
    then show ?thesis using f(1,2,4) by (intro that(2) [of "ht_list t ! b ! i"]) (auto simp: ht_Lookup_def slot_at_def intro: bucket_member)
  next
    case False
    then show ?thesis using f(1,3,5) by (intro that(1)) (auto simp: ht_Lookup_def slot_at_def)
  qed
qed

lemma mset_concat_update: "b < length l \<Longrightarrow> mset (concat (l[b := x])) + mset (l ! b) = mset (concat l) + mset x"
proof (induction l arbitrary: b)
  case (Cons a l)
  then show ?case by (cases b) (simp_all add: ac_simps)
qed simp

lemma tids_update: "b < length (ht_list t) \<Longrightarrow> mset (tids (t \<lparr> ht_list := (ht_list t)[b := x] \<rparr>)) + mset (ht_list t ! b) = mset (tids t) + mset x"
  unfolding tids_def by (simp add: mset_concat_update)

lemma buckets_update:
  assumes "buckets_ok H t" "b < length (ht_list t)" "\<forall>p\<in>set x. in_bucket H (ht_length t) b p" "e = length (tids (t \<lparr> ht_list := (ht_list t)[b := x] \<rparr>))"
  shows "buckets_ok H (t \<lparr> ht_list := (ht_list t)[b := x], ht_elems := e \<rparr>)"
  using assms by (auto simp: buckets_ok_def tids_def nth_list_update)

section \<open>Growing the table\<close>

lemma rehash_spec:
  assumes "0 < n" "length l = n" "\<forall>p\<in>set ps. \<exists>h. H p = Some h" "\<forall>b<n. \<forall>p\<in>set (l ! b). in_bucket H n b p"
  shows "\<exists>l'. rehash H n l ps = Some l' \<and> length l' = n \<and> mset (concat l') = mset (concat l) + mset ps \<and>
    (\<forall>b<n. \<forall>p\<in>set (l' ! b). in_bucket H n b p)"
  using assms(2-4)
proof (induction ps arbitrary: l)
  case (Cons p ps)
  obtain h where h: "H p = Some h" using Cons.prems(2) by auto
  define b where "b = bucket_of n (fh_hash h)"
  have b: "b < length l" using bucket_of_less [OF assms(1)] Cons.prems(1) by (simp add: b_def)
  have "\<forall>b'<n. \<forall>q\<in>set (l[b := p # l ! b] ! b'). in_bucket H n b' q"
    using Cons.prems(1,3) h b by (auto simp: nth_list_update in_bucket_def b_def)
  with Cons.prems(1,2) Cons.IH [of "l[b := p # l ! b]"] obtain l' where
    l: "rehash H n (l[b := p # l ! b]) ps = Some l'" "length l' = n" "mset (concat l') = mset (concat (l[b := p # l ! b])) + mset ps"
    "\<forall>b<n. \<forall>p\<in>set (l' ! b). in_bucket H n b p" by auto
  then show ?case using h mset_concat_update [OF b, of "p # l ! b"] by (simp add: b_def [symmetric] Let_def)
qed simp

lemma grow_length_pos: "0 < n \<Longrightarrow> 0 < grow_length n m"
  by (induction n m rule: grow_length.induct) (subst grow_length.simps, simp)

lemma ht_Resize_spec:
  assumes "\<forall>p\<in>set (tids t). \<exists>h. H p = Some h" "ht_elems t = length (tids t)"
  shows "\<exists>t'. ht_Resize H t = Some t' \<and> buckets_ok H t' \<and> mset (tids t') = mset (tids t)"
proof -
  let ?n = "grow_length 4 (ht_elems t)"
  have n: "0 < ?n" by (rule grow_length_pos) simp
  have "mset (concat (replicate ?n [])) = {#}" "\<forall>b<?n. \<forall>p\<in>set (replicate ?n [] ! b). in_bucket H ?n b p" by auto
  with rehash_spec [OF n, of "replicate ?n []" "tids t" H] assms(1) obtain l' where l: "rehash H ?n (replicate ?n []) (tids t) = Some l'"
    "length l' = ?n" "mset (concat l') = mset (tids t)" "\<forall>b<?n. \<forall>p\<in>set (l' ! b). in_bucket H ?n b p" by auto
  then show ?thesis using assms(2) n
    by (auto simp: ht_Resize_def Let_def tids_def buckets_ok_def dest: mset_eq_length)
qed

section \<open>Insertion and removal\<close>

text \<open>The fields of a handle that never change.\<close>

definition fh_info :: "('v, 'd) FIFOHandle \<Rightarrow> ('d \<times> bytes \<times> 'v) \<times> u32 \<times> u64" where
  "fh_info h = ((fh_deleter h, fh_key h, fh_value h), fh_hash h, fh_charge h)"

definition infos :: "('v, 'd) handles \<Rightarrow> nat \<Rightarrow> (('d \<times> bytes \<times> 'v) \<times> u32 \<times> u64) option" where
  "infos H p = map_option fh_info (H p)"

lemma infos_dom [simp]: "dom (infos H) = dom H"
  by (auto simp: infos_def)

lemma matches_infos: "matches H key hash p \<longleftrightarrow> (\<exists>d v ch. infos H p = Some ((d, key, v), hash, ch))"
  by (auto simp: matches_def infos_def fh_info_def)

lemma in_bucket_infos: "in_bucket H n b p \<longleftrightarrow> (\<exists>i hash ch. infos H p = Some (i, hash, ch) \<and> bucket_of n hash = b)"
  by (auto simp: in_bucket_def infos_def fh_info_def)

lemma infos_le: "infos H' \<subseteq>\<^sub>m infos H \<Longrightarrow> p \<in> dom H' \<Longrightarrow> infos H' p = infos H p"
  by (simp add: map_le_def)

lemma table_ok_agree:
  assumes "table_ok H t" "\<forall>p\<in>set (tids t). infos H' p = infos H p"
  shows "table_ok H' t"
proof -
  have "in_bucket H' (ht_length t) b p" if "b < ht_length t" "p \<in> set (ht_list t ! b)" for b p
  proof -
    have "p \<in> set (tids t)" using that assms(1) bucket_member by (auto simp: table_ok_def buckets_ok_def)
    moreover have "in_bucket H (ht_length t) b p" using that assms(1) by (simp add: table_ok_def buckets_ok_def)
    ultimately show ?thesis using assms(2) by (simp add: in_bucket_infos)
  qed
  moreover have "matches H' key hash p \<longleftrightarrow> matches H key hash p" if "p \<in> set (tids t)" for p key hash
    using assms(2) that by (simp add: matches_infos)
  ultimately show ?thesis using assms(1) unfolding table_ok_def buckets_ok_def by blast
qed

lemma table_ok_mset:
  assumes "buckets_ok H t'" "distinct ps" "mset (tids t') = mset ps"
    "\<forall>p\<in>set ps. \<forall>q\<in>set ps. \<forall>key hash. matches H key hash p \<and> matches H key hash q \<longrightarrow> p = q"
  shows "table_ok H t'"
  using assms mset_eq_imp_distinct_iff [OF assms(3)] mset_eq_setD [OF assms(3)] unfolding table_ok_def by blast

lemma ht_Remove_spec:
  assumes "table_ok H t"
  obtains "ht_Remove H t key hash = Some (t, None)" "\<forall>p\<in>set (tids t). \<not> matches H key hash p"
  | t' p where "ht_Remove H t key hash = Some (t', Some p)" "p \<in> set (tids t)" "matches H key hash p" "table_ok H t'" "mset (tids t) = add_mset p (mset (tids t'))"
proof -
  have bo: "buckets_ok H t" using assms by (simp add: table_ok_def)
  obtain b i where f: "FindPointer H t key hash = Some (b, i)" "b < length (ht_list t)" "i \<le> length (ht_list t ! b)"
    "i < length (ht_list t ! b) \<Longrightarrow> matches H key hash (ht_list t ! b ! i)"
    "i = length (ht_list t ! b) \<Longrightarrow> \<forall>p\<in>set (tids t). \<not> matches H key hash p"
    using FindPointer_spec [OF bo, of key hash] by metis
  show thesis
  proof (cases "i < length (ht_list t ! b)")
    case True
    let ?c = "ht_list t ! b"
    let ?x = "take i ?c @ drop (Suc i) ?c"
    let ?t = "t \<lparr> ht_list := (ht_list t)[b := ?x], ht_elems := ht_elems t - 1 \<rparr>"
    have c: "?c = take i ?c @ ?c ! i # drop (Suc i) ?c" using True by (simp add: id_take_nth_drop)
    have mc: "mset ?c = add_mset (?c ! i) (mset ?x)" by (subst c) simp
    have m: "mset (tids t) = add_mset (?c ! i) (mset (tids ?t))"
      using tids_update [OF f(2), of ?x] unfolding mc by (simp add: tids_def)
    have "set ?x \<subseteq> set ?c" by (auto dest: in_set_takeD in_set_dropD)
    then have "\<forall>p\<in>set ?x. in_bucket H (ht_length t) b p" using bo f(2) unfolding buckets_ok_def by fastforce
    moreover have "ht_elems t - 1 = length (tids ?t)" using bo arg_cong [OF m, of size] by (simp add: buckets_ok_def)
    ultimately have "buckets_ok H ?t" using buckets_update [OF bo f(2), of ?x "ht_elems t - 1"] by (simp add: tids_def)
    moreover have d: "distinct ((?c ! i) # tids ?t)"
      using assms mset_eq_imp_distinct_iff [of "tids t" "(?c ! i) # tids ?t"] m by (simp add: table_ok_def)
    moreover have "set (tids ?t) \<subseteq> set (tids t)" using mset_eq_setD [of "tids t" "(?c ! i) # tids ?t"] m by auto
    ultimately have "table_ok H ?t" using assms unfolding table_ok_def distinct.simps by blast
    moreover have "ht_Remove H t key hash = Some (?t, Some (?c ! i))" using f(1) True by (simp add: ht_Remove_def slot_at_def Let_def)
    moreover have "?c ! i \<in> set (tids t)" using f(2) True by (auto intro: bucket_member)
    ultimately show ?thesis using that(2) f(4) [OF True] m by blast
  next
    case False
    then show ?thesis using f(1,3,5) by (intro that(1)) (auto simp: ht_Remove_def slot_at_def Let_def)
  qed
qed

lemma ht_Insert_spec:
  assumes "table_ok H t" "H e = Some h" "e \<notin> set (tids t)"
  obtains t' where "ht_Insert H t e = Some (t', None)" "\<forall>p\<in>set (tids t). \<not> matches H (fh_key h) (fh_hash h) p"
    "table_ok H t'" "mset (tids t') = add_mset e (mset (tids t))"
  | t' p where "ht_Insert H t e = Some (t', Some p)" "p \<in> set (tids t)" "matches H (fh_key h) (fh_hash h) p"
    "table_ok H t'" "add_mset p (mset (tids t')) = add_mset e (mset (tids t))"
proof -
  have bo: "buckets_ok H t" using assms by (simp add: table_ok_def)
  obtain b i where f: "FindPointer H t (fh_key h) (fh_hash h) = Some (b, i)" "b = bucket_of (ht_length t) (fh_hash h)" "b < length (ht_list t)" "i \<le> length (ht_list t ! b)"
    "i < length (ht_list t ! b) \<Longrightarrow> matches H (fh_key h) (fh_hash h) (ht_list t ! b ! i)"
    "i = length (ht_list t ! b) \<Longrightarrow> \<forall>p\<in>set (tids t). \<not> matches H (fh_key h) (fh_hash h) p"
    using FindPointer_spec [OF bo, of "fh_key h" "fh_hash h"] by metis
  let ?c = "ht_list t ! b"
  let ?x = "take i ?c @ e # drop (Suc i) ?c"
  have "set ?x \<subseteq> insert e (set ?c)" by (auto dest: in_set_takeD in_set_dropD)
  moreover have "in_bucket H (ht_length t) b e" using assms(2) f(2) by (simp add: in_bucket_def)
  ultimately have ib: "\<forall>p\<in>set ?x. in_bucket H (ht_length t) b p" using bo f(3) unfolding buckets_ok_def by fastforce
  have me: "matches H key hash e \<longleftrightarrow> key = fh_key h \<and> hash = fh_hash h" for key hash using assms(2) by (auto simp: matches_def)
  have uniq: "\<forall>p\<in>set (tids t). \<forall>q\<in>set (tids t). \<forall>key hash. matches H key hash p \<and> matches H key hash q \<longrightarrow> p = q" "distinct (tids t)"
    using assms(1) by (simp_all add: table_ok_def)
  show thesis
  proof (cases "i < length ?c")
    case True
    let ?t = "t \<lparr> ht_list := (ht_list t)[b := ?x] \<rparr>"
    let ?p = "?c ! i"
    have c: "?c = take i ?c @ ?p # drop (Suc i) ?c" using True by (simp add: id_take_nth_drop)
    have mc: "add_mset e (mset ?c) = add_mset ?p (mset ?x)" by (subst c) simp
    have m: "add_mset ?p (mset (tids ?t)) = add_mset e (mset (tids t))"
    proof -
      have "add_mset ?p (mset (tids ?t)) + mset ?c = add_mset ?p (mset (tids t) + mset ?x)" using tids_update [OF f(3), of ?x] by simp
      also have "\<dots> = add_mset e (mset (tids t)) + mset ?c" using mc by simp
      finally show ?thesis by simp
    qed
    have pt: "?p \<in> set (tids t)" using f(3) True by (auto intro: bucket_member)
    have "mset (tids ?t) = mset (e # remove1 ?p (tids t))"
    proof -
      have "mset (tids t) = add_mset ?p (mset (tids t) - {#?p#})" using pt by simp
      then have "add_mset ?p (mset (tids ?t)) = add_mset ?p (add_mset e (mset (tids t) - {#?p#}))"
        using m by (metis add_mset_commute)
      then show ?thesis by simp
    qed
    moreover have "buckets_ok H ?t"
      using buckets_update [OF bo f(3) ib, of "ht_elems t"] bo arg_cong [OF m, of size] by (simp add: buckets_ok_def tids_def)
    moreover have "\<forall>p\<in>set (e # remove1 ?p (tids t)). \<forall>q\<in>set (e # remove1 ?p (tids t)). \<forall>key hash.
        matches H key hash p \<and> matches H key hash q \<longrightarrow> p = q"
      using uniq f(5) [OF True] pt me by (auto simp: set_remove1_eq)
    ultimately have "table_ok H ?t" using uniq(2) assms(3) by (intro table_ok_mset [of H ?t "e # remove1 ?p (tids t)"]) auto
    moreover have "ht_Insert H t e = Some (?t, Some ?p)" using f(1) True assms(2) by (simp add: ht_Insert_def slot_at_def Let_def)
    ultimately show ?thesis using that(2) f(5) True m pt by blast
  next
    case False
    then have i: "i = length ?c" using f(4) by simp
    let ?t = "t \<lparr> ht_list := (ht_list t)[b := ?x], ht_elems := ht_elems t + 1 \<rparr>"
    have m: "mset (tids ?t) = add_mset e (mset (tids t))" using tids_update [OF f(3), of ?x] i by (simp add: tids_def)
    have el: "ht_elems ?t = length (tids ?t)" using bo arg_cong [OF m, of size] by (simp add: buckets_ok_def)
    have bt: "buckets_ok H ?t" using buckets_update [OF bo f(3) ib, of "ht_elems t + 1"] el by (simp add: tids_def)
    have nm: "\<forall>p\<in>set (tids t). \<not> matches H (fh_key h) (fh_hash h) p" using f(6) i by blast
    have all: "\<forall>p\<in>set (e # tids t). \<forall>q\<in>set (e # tids t). \<forall>key hash. matches H key hash p \<and> matches H key hash q \<longrightarrow> p = q" "distinct (e # tids t)"
      using uniq nm me assms(3) by auto
    have s: "slot_at t (b, i) = None" using i by (simp add: slot_at_def)
    have "\<forall>p\<in>set (tids ?t). \<exists>h. H p = Some h"
      using bt unfolding buckets_ok_def by (fastforce simp: tids_def in_set_conv_nth in_bucket_def)
    from ht_Resize_spec [OF this el] obtain t' where t': "ht_Resize H ?t = Some t'" "buckets_ok H t'" "mset (tids t') = mset (tids ?t)" by blast
    have "ht_Insert H t e = Some (if ht_length t < ht_elems t + 1 then t' else ?t, None)"
      using f(1) assms(2) s t'(1) by (simp add: ht_Insert_def Let_def)
    moreover have "table_ok H t'" "table_ok H ?t" using table_ok_mset [OF t'(2) all(2) _ all(1)] table_ok_mset [OF bt all(2) _ all(1)] t'(3) m by simp_all
    ultimately show ?thesis using that(1) [of "if ht_length t < ht_elems t + 1 then t' else ?t"] nm m t'(3) by simp
  qed
qed

section \<open>The lists of a shard\<close>

lemma two_rings_unlink:
  assumes "ring l h xs" "ring l g ys" "distinct (h # g # xs @ ys)" "e \<in> set xs"
  shows "ring (unlink l e) h (remove1 e xs)" "ring (unlink l e) g ys"
proof -
  note u = ring_unlink [OF assms(1,4)]
  show "ring (unlink l e) h (remove1 e xs)" by (rule u(1))
  have "\<forall>z\<in>set (g # ys). z \<notin> set (h # xs)" using assms(3) by auto
  then show "ring (unlink l e) g ys" using ring_frame [OF assms(2)] u(2) by blast
qed

lemma two_rings_move:
  assumes "ring l h xs" "ring l g ys" "distinct (h # g # xs @ ys)" "e \<in> set xs"
  shows "ring (link_before (unlink l e) g e) h (remove1 e xs)" "ring (link_before (unlink l e) g e) g (ys @ [e])"
proof -
  note u = two_rings_unlink [OF assms]
  note g = u(2)
  have e: "e \<notin> set (g # ys)" using assms(3,4) by auto
  note a = ring_link_before [OF g e]
  show "ring (link_before (unlink l e) g e) g (ys @ [e])" by (rule a(1))
  have "\<forall>z\<in>set (h # remove1 e xs). z \<notin> set (g # e # ys)" using assms(3,4) by (auto simp: set_remove1_eq)
  then show "ring (link_before (unlink l e) g e) h (remove1 e xs)" using ring_frame [OF u(1)] a(2) by blast
qed

lemma two_rings_append:
  assumes "ring l h xs" "ring l g ys" "distinct (h # g # e # xs @ ys)"
  shows "ring (link_before l g e) h xs" "ring (link_before l g e) g (ys @ [e])"
proof -
  have e: "e \<notin> set (g # ys)" using assms(3) by auto
  note a = ring_link_before [OF assms(2) e]
  show "ring (link_before l g e) g (ys @ [e])" by (rule a(1))
  have "\<forall>z\<in>set (h # xs). z \<notin> set (g # e # ys)" using assms(3) by auto
  then show "ring (link_before l g e) h xs" using ring_frame [OF assms(1)] a(2) by blast
qed

definition charge_of :: "('v, 'd) handles \<Rightarrow> nat \<Rightarrow> u64" where
  "charge_of H p = (case infos H p of None \<Rightarrow> 0 | Some (_, _, ch) \<Rightarrow> ch)"

definition charges :: "('v, 'd) handles \<Rightarrow> nat list \<Rightarrow> u64" where
  "charges H ps = sum_list (map (charge_of H) ps)"

lemma charges_Nil [simp]: "charges H [] = 0"
  by (simp add: charges_def)

lemma charges_same: "infos H' = infos H \<Longrightarrow> charges H' ps = charges H ps"
  by (simp add: charges_def charge_of_def [abs_def])

lemma charges_append [simp]: "charges H (ps @ qs) = charges H ps + charges H qs"
  by (simp add: charges_def)

lemma charges_Cons [simp]: "charges H (p # ps) = charge_of H p + charges H ps"
  by (simp add: charges_def)

lemma charges_remove1: "p \<in> set ps \<Longrightarrow> charges H (remove1 p ps) = charges H ps - charge_of H p"
  by (induction ps) (auto simp: algebra_simps)

lemma charges_agree: "\<forall>p\<in>set ps. infos H' p = infos H p \<Longrightarrow> charges H' ps = charges H ps"
  by (induction ps) (auto simp: charge_of_def)

lemma charges_le: "infos H' \<subseteq>\<^sub>m infos H \<Longrightarrow> set ps \<subseteq> dom H' \<Longrightarrow> charges H' ps = charges H ps"
  by (rule charges_agree) (meson infos_le subsetD)

text \<open>
  What the comments of the class promise: the entries of the cache are in exactly one of the lists;
  those of the FIFO list have no other reference than the cache's, those of the in-use list have
  some; and the usage is the sum of their charges. \<open>held\<close> are the references of the clients.
\<close>

definition handle_ok :: "nat multiset \<Rightarrow> nat set \<Rightarrow> nat \<Rightarrow> ('v, 'd) FIFOHandle \<Rightarrow> bool" where
  "handle_ok held S e h \<longleftrightarrow> (fh_in_cache h \<longleftrightarrow> e \<in> S) \<and> fh_refs h = (if fh_in_cache h then 1 else 0) + count held e \<and> 0 < fh_refs h"

definition refs_ok :: "('v, 'd) handles \<Rightarrow> nat multiset \<Rightarrow> nat list \<Rightarrow> nat list \<Rightarrow> bool" where
  "refs_ok H held xs ys \<longleftrightarrow>
     distinct (fifo_head # in_use_head # xs @ ys) \<and> finite (dom H) \<and> set (xs @ ys) \<subseteq> dom H \<and> set_mset held \<subseteq> dom H \<and>
     H fifo_head = None \<and> H in_use_head = None \<and> (\<forall>e h. H e = Some h \<longrightarrow> handle_ok held (set (xs @ ys)) e h) \<and>
     (\<forall>e\<in>set xs. e \<notin># held) \<and> (\<forall>e\<in>set ys. e \<in># held)"

definition lists_ok :: "('v, 'd) FIFOCache \<Rightarrow> nat multiset \<Rightarrow> nat list \<Rightarrow> nat list \<Rightarrow> bool" where
  "lists_ok c held xs ys \<longleftrightarrow>
     ring (fc_links c) fifo_head xs \<and> ring (fc_links c) in_use_head ys \<and> refs_ok (fc_heap c) held xs ys \<and>
     fc_usage c = charges (fc_heap c) (xs @ ys)"

lemma refs_okD:
  assumes "refs_ok H held xs ys" "H e = Some h"
  shows "fh_in_cache h \<longleftrightarrow> e \<in> set xs \<or> e \<in> set ys" "fh_refs h = (if fh_in_cache h then 1 else 0) + count held e" "0 < fh_refs h"
    "e \<noteq> fifo_head" "e \<noteq> in_use_head" "e \<in> set xs \<Longrightarrow> count held e = 0 \<and> e \<notin> set ys" "e \<in> set ys \<Longrightarrow> 0 < count held e \<and> e \<notin> set xs"
proof -
  have "handle_ok held (set (xs @ ys)) e h" using assms by (simp add: refs_ok_def)
  then show "fh_in_cache h \<longleftrightarrow> e \<in> set xs \<or> e \<in> set ys" "fh_refs h = (if fh_in_cache h then 1 else 0) + count held e" "0 < fh_refs h"
    unfolding handle_ok_def set_append Un_iff by blast+
qed (use assms in \<open>auto simp: refs_ok_def count_eq_zero_iff\<close>)

text \<open>One handle changes, or is freed; the others keep their counts and their lists.\<close>

lemma refs_ok_update:
  assumes "refs_ok H held xs ys" "distinct (fifo_head # in_use_head # xs' @ ys')" "set_mset held' \<subseteq> insert e (set_mset held)"
    and "\<forall>p. p \<noteq> e \<longrightarrow> count held' p = count held p \<and> (p \<in> set xs' \<longleftrightarrow> p \<in> set xs) \<and> (p \<in> set ys' \<longleftrightarrow> p \<in> set ys)"
    and "e \<notin> {fifo_head, in_use_head}" "case k of None \<Rightarrow> e \<notin># held' \<and> e \<notin> set xs' \<and> e \<notin> set ys' | Some h \<Rightarrow> handle_ok held' (set (xs' @ ys')) e h"
    and "e \<in> set xs' \<longrightarrow> e \<notin># held'" "e \<in> set ys' \<longrightarrow> e \<in># held'"
  shows "refs_ok (H(e := k)) held' xs' ys'"
proof -
  have "handle_ok held' (set (xs' @ ys')) p h" if "(H(e := k)) p = Some h" for p h
  proof (cases "p = e")
    case False
    then have "handle_ok held (set (xs @ ys)) p h" using that assms(1) by (simp add: refs_ok_def)
    moreover have "count held' p = count held p" "p \<in> set (xs' @ ys') \<longleftrightarrow> p \<in> set (xs @ ys)" using False assms(4) by auto
    ultimately show ?thesis unfolding handle_ok_def by metis
  qed (use that assms(6) in simp)
  moreover have "set (xs' @ ys') \<subseteq> dom (H(e := k))"
  proof
    fix p assume p: "p \<in> set (xs' @ ys')"
    show "p \<in> dom (H(e := k))"
    proof (cases "p = e")
      case True
      then show ?thesis using p assms(6) by (cases k) auto
    next
      case False
      then have "p \<in> set (xs @ ys)" using p assms(4) by auto
      with assms(1) False show ?thesis by (auto simp: refs_ok_def)
    qed
  qed
  moreover have "set_mset held' \<subseteq> dom (H(e := k))"
  proof
    fix p assume p: "p \<in># held'"
    show "p \<in> dom (H(e := k))"
    proof (cases "p = e")
      case True
      then show ?thesis using p assms(6) by (cases k) auto
    next
      case False
      then have "p \<in># held" using p assms(3) by auto
      with assms(1) False show ?thesis by (auto simp: refs_ok_def)
    qed
  qed
  moreover have "finite (dom (H(e := k)))" using assms(1) by (cases k) (auto simp: refs_ok_def)
  moreover have "p \<notin># held'" if "p \<in> set xs'" for p
    using that assms(1,4,7) unfolding refs_ok_def by (metis count_eq_zero_iff)
  moreover have "p \<in># held'" if "p \<in> set ys'" for p
    using that assms(1,4,8) unfolding refs_ok_def by (metis count_eq_zero_iff)
  ultimately show ?thesis using assms(1,2,5) unfolding refs_ok_def by auto
qed

lemma heads_neq [simp]: "fifo_head \<noteq> in_use_head" "in_use_head \<noteq> fifo_head"
  by (simp_all add: fifo_head_def in_use_head_def)

text \<open>The deleter calls so far and those that are still due.\<close>

definition accounts :: "('v, 'd) FIFOCache \<Rightarrow> ('d \<times> bytes \<times> 'v) multiset" where
  "accounts c = mset (fc_deleted c) + image_mset (\<lambda>p. fst (the (infos (fc_heap c) p))) (mset_set (dom (fc_heap c)))"

definition evolves :: "('v, 'd) FIFOCache \<Rightarrow> ('v, 'd) FIFOCache \<Rightarrow> bool" where
  "evolves c c' \<longleftrightarrow> infos (fc_heap c') \<subseteq>\<^sub>m infos (fc_heap c) \<and> accounts c' = accounts c \<and> fc_capacity c' = fc_capacity c"

lemma evolves_refl [simp]: "evolves c c"
  by (simp add: evolves_def)

lemma evolves_trans: "evolves a b \<Longrightarrow> evolves b c \<Longrightarrow> evolves a c"
  unfolding evolves_def by (auto intro: map_le_trans)

lemma infos_upd: "fh_info h' = fh_info h \<Longrightarrow> H e = Some h \<Longrightarrow> infos (H(e \<mapsto> h')) = infos H"
  by (auto simp: infos_def fun_eq_iff)

lemma evolves_same:
  assumes "infos (fc_heap c') = infos (fc_heap c)" "fc_deleted c' = fc_deleted c" "fc_capacity c' = fc_capacity c"
  shows "evolves c c'"
proof -
  have "dom (fc_heap c') = dom (fc_heap c)" using arg_cong [OF assms(1), of dom] by simp
  then show ?thesis using assms by (simp add: evolves_def accounts_def)
qed

lemma evolves_free:
  assumes "finite (dom (fc_heap c))" "fc_heap c e = Some h" "infos (fc_heap c') = (infos (fc_heap c))(e := None)"
    "fc_deleted c' = fc_deleted c @ [(fh_deleter h, fh_key h, fh_value h)]" "fc_capacity c' = fc_capacity c"
  shows "evolves c c'"
proof -
  have d: "dom (fc_heap c') = dom (fc_heap c) - {e}" using arg_cong [OF assms(3), of dom] by simp
  have e: "e \<in> dom (fc_heap c)" using assms(2) by blast
  have i: "fst (the (infos (fc_heap c) e)) = (fh_deleter h, fh_key h, fh_value h)" using assms(2) by (simp add: infos_def fh_info_def)
  have "image_mset (\<lambda>p. fst (the (infos (fc_heap c') p))) (mset_set (dom (fc_heap c) - {e})) =
      image_mset (\<lambda>p. fst (the (infos (fc_heap c) p))) (mset_set (dom (fc_heap c) - {e}))"
    using assms(1,3) by (intro image_mset_cong) auto
  moreover have "mset_set (dom (fc_heap c)) = add_mset e (mset_set (dom (fc_heap c) - {e}))"
    using mset_set.remove [OF assms(1) e] .
  ultimately have "accounts c' = accounts c" using assms(4) d i by (simp add: accounts_def)
  then show ?thesis using assms(3,5) by (simp add: evolves_def map_le_def)
qed

section \<open>References\<close>

lemma fc_Ref_spec:
  assumes "lists_ok c held xs ys" "fc_heap c e = Some h"
  obtains c' where "fc_Ref c e = Some c'" "lists_ok c' (add_mset e held) (remove1 e xs) (if e \<in> set xs then ys @ [e] else ys)"
    "evolves c c'" "fc_table c' = fc_table c" "dom (fc_heap c') = dom (fc_heap c)"
proof -
  have inv: "ring (fc_links c) fifo_head xs" "ring (fc_links c) in_use_head ys" "fc_usage c = charges (fc_heap c) (xs @ ys)"
    and ref: "refs_ok (fc_heap c) held xs ys" using assms(1) by (simp_all add: lists_ok_def)
  note D = refs_okD [OF ref assms(2)]
  define h' where "h' = h \<lparr> fh_refs := fh_refs h + 1 \<rparr>"
  define c0 where "c0 = (if e \<in> set xs then FIFO_Append (FIFO_Remove c e) in_use_head e else c)"
  define c' where "c' = set_handle e h' c0"
  have on_list: "fh_refs h = 1 \<and> fh_in_cache h \<longleftrightarrow> e \<in> set xs" using D by auto
  have H: "fc_heap c' = (fc_heap c)(e \<mapsto> h')" by (simp add: c'_def c0_def set_handle_def FIFO_Append_def FIFO_Remove_def)
  have i: "infos (fc_heap c') = infos (fc_heap c)" unfolding H by (rule infos_upd) (simp_all add: h'_def fh_info_def assms(2))
  have d: "dom (fc_heap c') = dom (fc_heap c)" using assms(2) by (auto simp: H)
  have dd: "distinct (fifo_head # in_use_head # xs @ ys)" using ref by (simp add: refs_ok_def)
  have "ring (fc_links c') fifo_head (remove1 e xs) \<and> ring (fc_links c') in_use_head (if e \<in> set xs then ys @ [e] else ys)"
    using two_rings_move [OF inv(1,2) dd, of e] inv
    by (auto simp: c'_def c0_def set_handle_def FIFO_Append_def FIFO_Remove_def remove1_idem)
  moreover have "charges (fc_heap c') (remove1 e xs @ (if e \<in> set xs then ys @ [e] else ys)) = fc_usage c'"
    using inv(3) charges_remove1 [of e xs "fc_heap c"] unfolding charges_same [OF i]
    by (simp add: c'_def c0_def set_handle_def FIFO_Append_def FIFO_Remove_def remove1_idem)
  moreover have "refs_ok (fc_heap c') (add_mset e held) (remove1 e xs) (if e \<in> set xs then ys @ [e] else ys)"
    unfolding H using dd D by (intro refs_ok_update [OF ref]) (auto simp: handle_ok_def h'_def)
  ultimately have "lists_ok c' (add_mset e held) (remove1 e xs) (if e \<in> set xs then ys @ [e] else ys)" by (simp add: lists_ok_def)
  moreover have "fc_Ref c e = Some c'" using assms(2) on_list by (auto simp: fc_Ref_def c'_def c0_def h'_def Let_def)
  moreover have "evolves c c'" by (rule evolves_same [OF i]) (simp_all add: c'_def c0_def set_handle_def FIFO_Append_def FIFO_Remove_def)
  moreover have "fc_table c' = fc_table c" by (simp add: c'_def c0_def set_handle_def FIFO_Append_def FIFO_Remove_def)
  ultimately show thesis using d that by blast
qed

text \<open>A client gives a reference back.\<close>

lemma fc_Unref_spec:
  assumes "lists_ok c held xs ys" "e \<in># held"
  obtains c' xs' ys' where "fc_Unref c e = Some c'" "lists_ok c' (held - {#e#}) xs' ys'" "evolves c c'" "fc_table c' = fc_table c"
    "mset (xs' @ ys') = mset (xs @ ys)"
proof -
  have inv: "ring (fc_links c) fifo_head xs" "ring (fc_links c) in_use_head ys" "fc_usage c = charges (fc_heap c) (xs @ ys)"
    and ref: "refs_ok (fc_heap c) held xs ys" using assms(1) by (simp_all add: lists_ok_def)
  obtain h where h: "fc_heap c e = Some h" using assms ref by (auto simp: refs_ok_def)
  note D = refs_okD [OF ref h]
  have dd: "distinct (fifo_head # in_use_head # xs @ ys)" "distinct (in_use_head # fifo_head # ys @ xs)" and fin: "finite (dom (fc_heap c))" using ref by (auto simp: refs_ok_def)
  have ce: "0 < count held e" "e \<notin> set xs" using assms(2) D(6) by (auto simp: count_eq_zero_iff)
  define h' where "h' = h \<lparr> fh_refs := fh_refs h - 1 \<rparr>"
  have fi: "fh_info h' = fh_info h" "fh_in_cache h' = fh_in_cache h" "fh_refs h' = fh_refs h - 1" by (simp_all add: h'_def fh_info_def)
  note defs = set_handle_def FIFO_Append_def FIFO_Remove_def
  consider "count held e = 1" "e \<notin> set ys" | "count held e = 1" "e \<in> set ys" | "1 < count held e" using ce by linarith
  then show thesis
  proof cases
    case 1
    let ?c = "(set_handle e h' c) \<lparr> fc_deleted := fc_deleted c @ [(fh_deleter h, fh_key h, fh_value h)], fc_heap := (fc_heap c)(e := None) \<rparr>"
    have i: "infos (fc_heap ?c) = (infos (fc_heap c))(e := None)" by (simp add: infos_def fun_eq_iff)
    have "refs_ok ((fc_heap c)(e := None)) (held - {#e#}) xs ys"
      using dd 1 D(4,5) ce(2) by (intro refs_ok_update [OF ref]) (auto dest: in_diffD simp: count_eq_zero_iff [symmetric])
    moreover have "charges (fc_heap ?c) (xs @ ys) = charges (fc_heap c) (xs @ ys)"
      using calculation unfolding refs_ok_def by (intro charges_le) (simp_all add: i [simplified] map_le_def)
    ultimately have "lists_ok ?c (held - {#e#}) xs ys" using inv by (simp add: lists_ok_def defs)
    moreover have "evolves c ?c" by (rule evolves_free [OF fin h i]) (simp_all add: defs)
    moreover have "fc_Unref c e = Some ?c" using h D(1,2) 1 ce(2) by (simp add: fc_Unref_def Let_def h'_def set_handle_def)
    moreover have "fc_table ?c = fc_table c" by (simp add: defs)
    ultimately show ?thesis using that [of ?c xs ys] by blast
  next
    case 2
    let ?c = "FIFO_Append (FIFO_Remove (set_handle e h' c) e) fifo_head e"
    have i: "infos (fc_heap ?c) = infos (fc_heap c)" using infos_upd [OF fi(1), of "fc_heap c" e] h by (simp add: defs)
    have "refs_ok ((fc_heap c)(e \<mapsto> h')) (held - {#e#}) (xs @ [e]) (remove1 e ys)"
      using dd 2 D ce(2) by (intro refs_ok_update [OF ref]) (auto dest: in_diffD simp: handle_ok_def fi count_eq_zero_iff [symmetric])
    moreover have "ring (fc_links ?c) fifo_head (xs @ [e])" "ring (fc_links ?c) in_use_head (remove1 e ys)"
      using two_rings_move [OF inv(2,1) dd(2) 2(2)] by (simp_all add: defs)
    moreover have "fc_usage ?c = charges (fc_heap ?c) ((xs @ [e]) @ remove1 e ys)"
      using inv(3) charges_remove1 [OF 2(2), of "fc_heap c"] unfolding charges_same [OF i] by (simp add: defs)
    ultimately have "lists_ok ?c (held - {#e#}) (xs @ [e]) (remove1 e ys)" by (simp add: lists_ok_def defs)
    moreover have "evolves c ?c" by (rule evolves_same [OF i]) (simp_all add: defs)
    moreover have "fc_Unref c e = Some ?c" using h D(1,2) 2 by (simp add: fc_Unref_def Let_def h'_def)
    moreover have "fc_table ?c = fc_table c" by (simp add: defs)
    ultimately show ?thesis using 2(2) that [of ?c "xs @ [e]" "remove1 e ys"] by simp
  next
    case 3
    let ?c = "set_handle e h' c"
    have i: "infos (fc_heap ?c) = infos (fc_heap c)" using infos_upd [OF fi(1), of "fc_heap c" e] h by (simp add: defs)
    have "refs_ok ((fc_heap c)(e \<mapsto> h')) (held - {#e#}) xs ys"
      using dd 3 D ce(2) by (intro refs_ok_update [OF ref]) (auto dest: in_diffD simp: handle_ok_def fi count_greater_zero_iff [symmetric] simp del: count_greater_zero_iff)
    moreover have "fc_usage ?c = charges (fc_heap ?c) (xs @ ys)"
      using inv(3) unfolding charges_same [OF i] by (simp add: defs)
    ultimately have "lists_ok ?c (held - {#e#}) xs ys" using inv by (simp add: lists_ok_def defs)
    moreover have "evolves c ?c" by (rule evolves_same [OF i]) (simp_all add: defs)
    moreover have "fc_Unref c e = Some ?c" using h D(1,2) 3 assms(2) by (auto simp: fc_Unref_def Let_def h'_def)
    moreover have "fc_table ?c = fc_table c" by (simp add: defs)
    ultimately show ?thesis using that [of ?c xs ys] by blast
  qed
qed

text \<open>The cache gives its own reference back, after the entry has left the table.\<close>

lemma FinishErase_spec:
  assumes "lists_ok c held xs ys" "e \<in> set xs \<or> e \<in> set ys"
  obtains c' where "FinishErase c (Some e) = Some (c', True)" "lists_ok c' held (remove1 e xs) (remove1 e ys)" "evolves c c'" "fc_table c' = fc_table c"
    "fc_usage c' = fc_usage c - charge_of (fc_heap c) e"
proof -
  have inv: "ring (fc_links c) fifo_head xs" "ring (fc_links c) in_use_head ys" "fc_usage c = charges (fc_heap c) (xs @ ys)"
    and ref: "refs_ok (fc_heap c) held xs ys" using assms(1) by (simp_all add: lists_ok_def)
  obtain h where h: "fc_heap c e = Some h" using assms(2) ref by (auto simp: refs_ok_def)
  note D = refs_okD [OF ref h]
  have dd: "distinct (fifo_head # in_use_head # xs @ ys)" "distinct (in_use_head # fifo_head # ys @ xs)" and fin: "finite (dom (fc_heap c))" using ref by (auto simp: refs_ok_def)
  have ch: "charge_of (fc_heap c) e = fh_charge h" using h by (simp add: charge_of_def infos_def fh_info_def)
  have rings: "ring (unlink (fc_links c) e) fifo_head (remove1 e xs)" "ring (unlink (fc_links c) e) in_use_head (remove1 e ys)"
    using two_rings_unlink [OF inv(1,2) dd(1), of e] two_rings_unlink [OF inv(2,1) dd(2), of e] assms(2) D(6,7) by (auto simp: remove1_idem)
  have us: "charges (fc_heap c) (remove1 e xs @ remove1 e ys) = fc_usage c - fh_charge h"
    using inv(3) charges_remove1 [of e xs "fc_heap c"] charges_remove1 [of e ys "fc_heap c"] assms(2) D(6,7) ch by (auto simp: remove1_idem)
  have dr: "distinct (fifo_head # in_use_head # remove1 e xs @ remove1 e ys)" using dd(1) by (auto simp: set_remove1_eq)
  have xy: "distinct xs" "distinct ys" using dd(1) by auto
  define c1 where "c1 = (set_handle e (h \<lparr> fh_in_cache := False \<rparr>) (FIFO_Remove c e)) \<lparr> fc_usage := fc_usage c - fh_charge h \<rparr>"
  have fe: "FinishErase c (Some e) = do { c \<leftarrow> fc_Unref c1 e; Some (c, True) }" using h D(1) assms(2) by (simp add: FinishErase_def c1_def)
  have h1: "fc_heap c1 e = Some (h \<lparr> fh_in_cache := False \<rparr>)" by (simp add: c1_def set_handle_def)
  show thesis
  proof (cases "e \<in> set xs")
    case True
    let ?c = "(set_handle e (h \<lparr> fh_in_cache := False, fh_refs := 0 \<rparr>) c1)
      \<lparr> fc_deleted := fc_deleted c @ [(fh_deleter h, fh_key h, fh_value h)], fc_heap := (fc_heap c)(e := None) \<rparr>"
    have i: "infos (fc_heap ?c) = (infos (fc_heap c))(e := None)" by (simp add: infos_def fun_eq_iff)
    have "refs_ok ((fc_heap c)(e := None)) held (remove1 e xs) (remove1 e ys)"
      using dr D True xy by (intro refs_ok_update [OF ref]) (auto simp: count_eq_zero_iff)
    moreover have "charges (fc_heap ?c) (remove1 e xs @ remove1 e ys) = charges (fc_heap c) (remove1 e xs @ remove1 e ys)"
      using calculation unfolding refs_ok_def by (intro charges_le) (simp_all add: i [simplified] map_le_def)
    ultimately have "lists_ok ?c held (remove1 e xs) (remove1 e ys)"
      using rings us by (simp add: lists_ok_def c1_def set_handle_def FIFO_Remove_def)
    moreover have "evolves c ?c" by (rule evolves_free [OF fin h i]) (simp_all add: c1_def set_handle_def FIFO_Remove_def)
    moreover have "fc_Unref c1 e = Some ?c" using h1 D(1,2,6) True by (simp add: fc_Unref_def Let_def c1_def set_handle_def FIFO_Remove_def)
    moreover have "fc_table ?c = fc_table c" "fc_usage ?c = fc_usage c - charge_of (fc_heap c) e"
      using ch by (simp_all add: c1_def set_handle_def FIFO_Remove_def)
    moreover have "FinishErase c (Some e) = Some (?c, True)" unfolding fe using calculation(3) by (simp del: fun_upd_apply)
    ultimately show ?thesis using that by blast
  next
    case False
    then have ey: "e \<in> set ys" using assms(2) by simp
    let ?h = "h \<lparr> fh_in_cache := False, fh_refs := fh_refs h - 1 \<rparr>"
    let ?c = "set_handle e ?h c1"
    have H: "fc_heap ?c = (fc_heap c)(e \<mapsto> ?h)" by (simp add: c1_def set_handle_def FIFO_Remove_def)
    have i: "infos (fc_heap ?c) = infos (fc_heap c)" unfolding H by (rule infos_upd) (simp_all add: fh_info_def h)
    have "refs_ok (fc_heap ?c) held (remove1 e xs) (remove1 e ys)"
      unfolding H using dr D ey xy by (intro refs_ok_update [OF ref]) (auto simp: handle_ok_def)
    then have "lists_ok ?c held (remove1 e xs) (remove1 e ys)"
      using rings us charges_same [OF i, of "remove1 e xs @ remove1 e ys"] by (simp add: lists_ok_def c1_def set_handle_def FIFO_Remove_def)
    moreover have "evolves c ?c" by (rule evolves_same [OF i]) (simp_all add: c1_def set_handle_def FIFO_Remove_def)
    moreover have "fc_Unref c1 e = Some ?c" using h1 D(1,2,7) ey by (simp add: fc_Unref_def Let_def count_eq_zero_iff)
    moreover have "fc_table ?c = fc_table c" "fc_usage ?c = fc_usage c - charge_of (fc_heap c) e"
      using ch by (simp_all add: c1_def set_handle_def FIFO_Remove_def)
    moreover have "FinishErase c (Some e) = Some (?c, True)" unfolding fe using calculation(3) by (simp del: fun_upd_apply)
    ultimately show ?thesis using that by blast
  qed
qed

section \<open>The operations of a shard\<close>

definition cache_rep :: "('v, 'd) FIFOCache \<Rightarrow> nat multiset \<Rightarrow> nat list \<Rightarrow> nat list \<Rightarrow> bool" where
  "cache_rep c held xs ys \<longleftrightarrow> lists_ok c held xs ys \<and> table_ok (fc_heap c) (fc_table c) \<and> mset (tids (fc_table c)) = mset (xs @ ys)"

lemma lists_ok_table [simp]: "lists_ok (c \<lparr> fc_table := t \<rparr>) held xs ys \<longleftrightarrow> lists_ok c held xs ys"
  by (simp add: lists_ok_def)

lemma evolves_table [simp]: "evolves (c \<lparr> fc_table := t \<rparr>) c' \<longleftrightarrow> evolves c c'"
  by (simp add: evolves_def accounts_def)

lemma cache_repI:
  assumes "table_ok (fc_heap c) t" "evolves c c'" "lists_ok c' held xs ys" "fc_table c' = t" "mset (tids t) = mset (xs @ ys)"
  shows "cache_rep c' held xs ys"
proof -
  have "set (tids t) \<subseteq> dom (fc_heap c')"
    using assms(3) mset_eq_setD [OF assms(5)] by (simp add: lists_ok_def refs_ok_def)
  then have "\<forall>p\<in>set (tids t). infos (fc_heap c') p = infos (fc_heap c) p" using assms(2) infos_le unfolding evolves_def by blast
  then show ?thesis using table_ok_agree [OF assms(1)] assms(3-5) by (simp add: cache_rep_def)
qed

lemma cache_rep_set: "cache_rep c held xs ys \<Longrightarrow> set (tids (fc_table c)) = set xs \<union> set ys"
  unfolding cache_rep_def by (metis mset_eq_setD set_append)

lemma cache_rep_distinct: "cache_rep c held xs ys \<Longrightarrow> distinct (xs @ ys)"
  unfolding cache_rep_def lists_ok_def refs_ok_def by simp

lemma remove1_both:
  assumes "distinct (xs @ ys)" "p \<in> set xs \<or> p \<in> set ys" "add_mset p M = mset (xs @ ys)"
  shows "M = mset (remove1 p xs @ remove1 p ys)"
proof -
  have "mset (xs @ ys) = add_mset p (mset (remove1 p xs @ remove1 p ys))"
  proof (cases "p \<in> set xs")
    case True
    then have "p \<notin> set ys" using assms(1) by auto
    with True show ?thesis by (simp add: remove1_idem del: mset_remove1) simp
  next
    case False
    with assms(2) show ?thesis by (simp add: remove1_idem del: mset_remove1) simp
  qed
  then show ?thesis using assms(3) by simp
qed

text \<open>An entry that has been taken out of the table is erased.\<close>

lemma erase_entry:
  assumes "lists_ok c held xs ys" "distinct (xs @ ys)" "table_ok (fc_heap c) t" "p \<in> set xs \<or> p \<in> set ys" "add_mset p (mset (tids t)) = mset (xs @ ys)"
  obtains c' where "FinishErase (c \<lparr> fc_table := t \<rparr>) (Some p) = Some (c', True)" "cache_rep c' held (remove1 p xs) (remove1 p ys)" "evolves c c'"
    "fc_usage c' = fc_usage c - charge_of (fc_heap c) p"
proof -
  have "lists_ok (c \<lparr> fc_table := t \<rparr>) held xs ys" using assms(1) by simp
  from FinishErase_spec [OF this assms(4)] obtain c' where c': "FinishErase (c \<lparr> fc_table := t \<rparr>) (Some p) = Some (c', True)"
    "lists_ok c' held (remove1 p xs) (remove1 p ys)" "evolves c c'" "fc_table c' = t" "fc_usage c' = fc_usage c - charge_of (fc_heap c) p"
    by auto
  have "mset (tids t) = mset (remove1 p xs @ remove1 p ys)" by (rule remove1_both [OF assms(2,4,5)])
  from cache_repI [OF assms(3) c'(3,2,4) this] c' that show thesis by blast
qed

lemma fc_Erase_spec:
  assumes "cache_rep c held xs ys"
  obtains c' where "fc_Erase c key hash = Some c'" "evolves c c'" "c' = c" "\<forall>p\<in>set (xs @ ys). \<not> matches (fc_heap c) key hash p"
  | c' p where "fc_Erase c key hash = Some c'" "evolves c c'" "p \<in> set xs \<or> p \<in> set ys" "matches (fc_heap c) key hash p"
    "cache_rep c' held (remove1 p xs) (remove1 p ys)" "fc_usage c' = fc_usage c - charge_of (fc_heap c) p"
proof -
  have l: "lists_ok c held xs ys" and t: "table_ok (fc_heap c) (fc_table c)" and m: "mset (tids (fc_table c)) = mset (xs @ ys)"
    using assms by (simp_all add: cache_rep_def)
  note st = cache_rep_set [OF assms]
  from t show thesis
  proof (cases rule: ht_Remove_spec [where key = key and hash = hash])
    case 1
    then show ?thesis using st by (intro that(1) [of c]) (simp_all add: fc_Erase_def FinishErase_def ball_Un)
  next
    case (2 t' p)
    have p: "p \<in> set xs \<or> p \<in> set ys" using 2(2) st by auto
    obtain c' where c': "FinishErase (c \<lparr> fc_table := t' \<rparr>) (Some p) = Some (c', True)" "cache_rep c' held (remove1 p xs) (remove1 p ys)" "evolves c c'"
      "fc_usage c' = fc_usage c - charge_of (fc_heap c) p"
      using erase_entry [OF l cache_rep_distinct [OF assms] 2(4) p] 2(5) m by auto
    have "fc_Erase c key hash = Some c'" using 2(1) c'(1) by (simp add: fc_Erase_def)
    with c' p 2(3) that(2) show ?thesis by blast
  qed
qed

lemma fc_Lookup_spec:
  assumes "cache_rep c held xs ys"
  obtains "fc_Lookup c key hash = Some (c, None)" "\<forall>p\<in>set (xs @ ys). \<not> matches (fc_heap c) key hash p"
  | c' p where "fc_Lookup c key hash = Some (c', Some p)" "p \<in> set (xs @ ys)" "matches (fc_heap c) key hash p" "evolves c c'"
    "cache_rep c' (add_mset p held) (remove1 p xs) (if p \<in> set xs then ys @ [p] else ys)"
proof -
  have l: "lists_ok c held xs ys" and t: "table_ok (fc_heap c) (fc_table c)" and m: "mset (tids (fc_table c)) = mset (xs @ ys)"
    using assms by (simp_all add: cache_rep_def)
  have "buckets_ok (fc_heap c) (fc_table c)" using t by (simp add: table_ok_def)
  then show thesis
  proof (cases rule: ht_Lookup_spec [where key = key and hash = hash])
    case 1
    then show ?thesis using cache_rep_set [OF assms] by (intro that(1)) (simp_all add: fc_Lookup_def ball_Un)
  next
    case (2 p)
    obtain h where h: "fc_heap c p = Some h" using 2(3) by (auto simp: matches_def)
    obtain c' where c': "fc_Ref c p = Some c'" "lists_ok c' (add_mset p held) (remove1 p xs) (if p \<in> set xs then ys @ [p] else ys)"
      "evolves c c'" "fc_table c' = fc_table c" "dom (fc_heap c') = dom (fc_heap c)" by (rule fc_Ref_spec [OF l h])
    have "mset (remove1 p xs @ (if p \<in> set xs then ys @ [p] else ys)) = mset (xs @ ys)" by (simp add: remove1_idem)
    with m have "mset (tids (fc_table c)) = mset (remove1 p xs @ (if p \<in> set xs then ys @ [p] else ys))" by (rule trans [OF _ sym])
    from cache_repI [OF t c'(3,2,4) this] have "cache_rep c' (add_mset p held) (remove1 p xs) (if p \<in> set xs then ys @ [p] else ys)" .
    moreover have "fc_Lookup c key hash = Some (c', Some p)" using 2(1) c'(1) by (simp add: fc_Lookup_def)
    moreover have "p \<in> set (xs @ ys)" using 2(2) cache_rep_set [OF assms] by simp
    ultimately show ?thesis using that(2) 2(3) c'(3) by blast
  qed
qed

lemma fc_Release_spec:
  assumes "cache_rep c held xs ys" "e \<in># held"
  obtains c' xs' ys' where "fc_Release c e = Some c'" "cache_rep c' (held - {#e#}) xs' ys'" "evolves c c'" "mset (xs' @ ys') = mset (xs @ ys)"
proof -
  have l: "lists_ok c held xs ys" and t: "table_ok (fc_heap c) (fc_table c)" and m: "mset (tids (fc_table c)) = mset (xs @ ys)"
    using assms by (simp_all add: cache_rep_def)
  obtain c' xs' ys' where c': "fc_Unref c e = Some c'" "lists_ok c' (held - {#e#}) xs' ys'" "evolves c c'" "fc_table c' = fc_table c"
    "mset (xs' @ ys') = mset (xs @ ys)" using fc_Unref_spec [OF l assms(2)] by blast
  have "mset (tids (fc_table c)) = mset (xs' @ ys')" using m c'(5) by simp
  from cache_repI [OF t c'(3,2,4) this] c' that show thesis unfolding fc_Release_def by blast
qed

section \<open>Eviction\<close>

lemma erase_oldest_spec:
  assumes "cache_rep c held (x # xs) ys"
  obtains c' where "erase_oldest c = Some c'" "cache_rep c' held xs ys" "evolves c c'"
proof -
  have l: "lists_ok c held (x # xs) ys" and t: "table_ok (fc_heap c) (fc_table c)" and m: "mset (tids (fc_table c)) = mset ((x # xs) @ ys)"
    using assms by (simp_all add: cache_rep_def)
  have n: "l_next (fc_links c) fifo_head = x" using l ring_next [of "fc_links c" fifo_head "x # xs"] by (simp add: lists_ok_def)
  have ref: "refs_ok (fc_heap c) held (x # xs) ys" using l by (simp add: lists_ok_def)
  then obtain h where h: "fc_heap c x = Some h" by (auto simp: refs_ok_def)
  note D = refs_okD [OF ref h]
  have mx: "matches (fc_heap c) (fh_key h) (fh_hash h) x" using h by (simp add: matches_def)
  have xt: "x \<in> set (tids (fc_table c))" using cache_rep_set [OF assms] by simp
  from t show thesis
  proof (cases rule: ht_Remove_spec [where key = "fh_key h" and hash = "fh_hash h"])
    case 1
    then show ?thesis using mx xt by blast
  next
    case (2 t' p)
    have "p = x" using t 2(2,3) mx xt unfolding table_ok_def by blast
    then have p: "x \<in> set (x # xs) \<or> x \<in> set ys" "ht_Remove (fc_heap c) (fc_table c) (fh_key h) (fh_hash h) = Some (t', Some x)"
      "add_mset x (mset (tids t')) = mset ((x # xs) @ ys)" using 2(1,5) m by simp_all
    obtain c' where c': "FinishErase (c \<lparr> fc_table := t' \<rparr>) (Some x) = Some (c', True)" "cache_rep c' held (remove1 x (x # xs)) (remove1 x ys)" "evolves c c'"
      using erase_entry [OF l cache_rep_distinct [OF assms] 2(4) p(1,3)] by blast
    have "erase_oldest c = Some c'" using n h D(1,2,6) p(2) c'(1) by (simp add: erase_oldest_def Let_def)
    moreover have "cache_rep c' held xs ys" using c'(2) D(6) by (simp add: remove1_idem)
    ultimately show ?thesis using c'(3) that by blast
  qed
qed

lemma fifo_empty: "cache_rep c held xs ys \<Longrightarrow> l_next (fc_links c) fifo_head \<noteq> fifo_head \<longleftrightarrow> xs \<noteq> []"
proof -
  assume "cache_rep c held xs ys"
  then have "ring (fc_links c) fifo_head xs" by (simp add: cache_rep_def lists_ok_def)
  from ring_next [OF this] this show ?thesis by (auto simp: ring_def split: list.splits)
qed

text \<open>The loop ends, with the oldest unused entries gone, as few as it takes to be within the capacity.\<close>

lemma evict_loop_spec:
  assumes "cache_rep c held xs ys"
  shows "\<exists>c' k. evict_loop c = Some c' \<and> k \<le> length xs \<and> cache_rep c' held (drop k xs) ys \<and> evolves c c' \<and>
    (fc_usage c' \<le> fc_capacity c' \<or> k = length xs) \<and> (\<forall>j<k. fc_capacity c < charges (fc_heap c) (drop j xs @ ys))"
  using assms
proof (induction xs arbitrary: c)
  case Nil
  then have "evict_loop c = Some c" using fifo_empty [OF Nil] by (subst evict_loop.simps) simp
  with Nil show ?case by simp
next
  case (Cons x xs)
  show ?case
  proof (cases "fc_usage c > fc_capacity c")
    case True
    obtain c1 where c1: "erase_oldest c = Some c1" "cache_rep c1 held xs ys" "evolves c c1" using erase_oldest_spec [OF Cons.prems] by blast
    from Cons.IH [OF c1(2)] obtain c' k where k: "evict_loop c1 = Some c'" "k \<le> length xs" "cache_rep c' held (drop k xs) ys" "evolves c1 c'"
      "fc_usage c' \<le> fc_capacity c' \<or> k = length xs" "\<forall>j<k. fc_capacity c1 < charges (fc_heap c1) (drop j xs @ ys)" by blast
    have "evict_loop c = Some c'" using c1(1) k(1) True fifo_empty [OF Cons.prems] by (subst evict_loop.simps) simp
    moreover have "fc_capacity c < charges (fc_heap c) (drop j (x # xs) @ ys)" if "j < Suc k" for j
    proof (cases j)
      case 0
      then show ?thesis using True Cons.prems by (simp add: cache_rep_def lists_ok_def)
    next
      case (Suc i)
      have "set (drop i xs @ ys) \<subseteq> dom (fc_heap c1)"
        using c1(2) set_drop_subset [of i xs] by (auto simp: cache_rep_def lists_ok_def refs_ok_def)
      then have "charges (fc_heap c1) (drop i xs @ ys) = charges (fc_heap c) (drop i xs @ ys)"
        using c1(3) by (intro charges_le) (simp_all add: evolves_def)
      moreover have "fc_capacity c1 = fc_capacity c" using c1(3) by (simp add: evolves_def)
      moreover have "fc_capacity c1 < charges (fc_heap c1) (drop i xs @ ys)" using k(6) that Suc by blast
      ultimately show ?thesis using Suc by simp
    qed
    ultimately show ?thesis using k(2-5) evolves_trans [OF c1(3) k(4)] by (intro exI [of _ c'] exI [of _ "Suc k"]) auto
  next
    case False
    then have "evict_loop c = Some c" by (subst evict_loop.simps) simp
    with False Cons.prems show ?thesis by (intro exI [of _ c] exI [of _ 0]) auto
  qed
qed

lemma fc_Prune_spec:
  assumes "cache_rep c held xs ys"
  shows "\<exists>c'. fc_Prune c = Some c' \<and> cache_rep c' held [] ys \<and> evolves c c'"
  using assms
proof (induction xs arbitrary: c)
  case Nil
  then have "fc_Prune c = Some c" using fifo_empty [OF Nil] by (subst fc_Prune.simps) simp
  with Nil show ?case by simp
next
  case (Cons x xs)
  obtain c1 where c1: "erase_oldest c = Some c1" "cache_rep c1 held xs ys" "evolves c c1" using erase_oldest_spec [OF Cons.prems] by blast
  from Cons.IH [OF c1(2)] obtain c' where k: "fc_Prune c1 = Some c'" "cache_rep c' held [] ys" "evolves c1 c'" by blast
  have "fc_Prune c = Some c'" using c1(1) k(1) fifo_empty [OF Cons.prems] by (subst fc_Prune.simps) simp
  then show ?case using k(2) evolves_trans [OF c1(3) k(3)] by blast
qed

section \<open>Insertion\<close>

text \<open>The handle a lookup finds; \<open>Value\<close> reads its value.\<close>

definition cached_handle :: "('v, 'd) FIFOCache \<Rightarrow> bytes \<Rightarrow> u32 \<Rightarrow> nat option" where
  "cached_handle c key hash = Option.bind (ht_Lookup (fc_heap c) (fc_table c) key hash) id"

lemma cached_handle_iff:
  assumes "cache_rep c held xs ys"
  shows "cached_handle c key hash = Some p \<longleftrightarrow> p \<in> set (xs @ ys) \<and> matches (fc_heap c) key hash p"
proof -
  have t: "table_ok (fc_heap c) (fc_table c)" using assms by (simp add: cache_rep_def)
  then have "buckets_ok (fc_heap c) (fc_table c)" by (simp add: table_ok_def)
  then show ?thesis
  proof (cases rule: ht_Lookup_spec [where key = key and hash = hash])
    case 1
    then show ?thesis using cache_rep_set [OF assms] by (auto simp: cached_handle_def)
  next
    case (2 q)
    then have "p = q" if "p \<in> set (xs @ ys)" "matches (fc_heap c) key hash p"
    proof -
      have "p \<in> set (tids (fc_table c))" using that(1) cache_rep_set [OF assms] by simp
      with 2(2,3) that(2) t show ?thesis unfolding table_ok_def by blast
    qed
    with 2 show ?thesis using cache_rep_set [OF assms] by (auto simp: cached_handle_def)
  qed
qed

definition new_handle :: "bytes \<Rightarrow> u32 \<Rightarrow> 'v \<Rightarrow> u64 \<Rightarrow> 'd \<Rightarrow> bool \<Rightarrow> nat \<Rightarrow> ('v, 'd) FIFOHandle" where
  "new_handle key hash value charge deleter in_cache refs =
     \<lparr> fh_value = value, fh_deleter = deleter, fh_charge = charge, fh_key = key, fh_in_cache = in_cache, fh_refs = refs, fh_hash = hash \<rparr>"

lemma lists_ok_new:
  assumes "lists_ok c held xs ys" "fc_heap c e = None" "e \<notin> {fifo_head, in_use_head}"
  shows "lists_ok (set_handle e (new_handle key hash value charge deleter False 1) c) (add_mset e held) xs ys"
    and "lists_ok (FIFO_Append (set_handle e (new_handle key hash value charge deleter True 2) c) in_use_head e \<lparr> fc_usage := fc_usage c + charge \<rparr>)
      (add_mset e held) xs (ys @ [e])"
proof -
  have inv: "ring (fc_links c) fifo_head xs" "ring (fc_links c) in_use_head ys" "fc_usage c = charges (fc_heap c) (xs @ ys)"
    and ref: "refs_ok (fc_heap c) held xs ys" using assms(1) by (simp_all add: lists_ok_def)
  have e: "e \<notin> set xs" "e \<notin> set ys" "count held e = 0" and dd: "distinct (fifo_head # in_use_head # xs @ ys)"
    using ref assms(2) by (auto simp: refs_ok_def count_eq_zero_iff)
  have i: "charges ((fc_heap c)(e \<mapsto> h)) (xs @ ys) = charges (fc_heap c) (xs @ ys)" for h
    using e(1,2) by (intro charges_agree) (auto simp: infos_def)
  have "refs_ok ((fc_heap c)(e \<mapsto> new_handle key hash value charge deleter False 1)) (add_mset e held) xs ys"
    using e dd assms(3) by (intro refs_ok_update [OF ref]) (auto simp: handle_ok_def new_handle_def)
  then show "lists_ok (set_handle e (new_handle key hash value charge deleter False 1) c) (add_mset e held) xs ys"
    using inv i by (simp add: lists_ok_def set_handle_def)
  have "refs_ok ((fc_heap c)(e \<mapsto> new_handle key hash value charge deleter True 2)) (add_mset e held) xs (ys @ [e])"
    using e dd assms(3) by (intro refs_ok_update [OF ref]) (auto simp: handle_ok_def new_handle_def)
  moreover have "charge_of ((fc_heap c)(e \<mapsto> new_handle key hash value charge deleter True 2)) e = charge"
    by (simp add: charge_of_def infos_def fh_info_def new_handle_def)
  ultimately show "lists_ok (FIFO_Append (set_handle e (new_handle key hash value charge deleter True 2) c) in_use_head e \<lparr> fc_usage := fc_usage c + charge \<rparr>)
      (add_mset e held) xs (ys @ [e])"
    using inv i two_rings_append [OF inv(1,2), of e] dd e assms(3)
    by (simp add: lists_ok_def set_handle_def FIFO_Append_def)
qed

lemma accounts_new:
  assumes "finite (dom (fc_heap c))" "fc_heap c e = None" "fc_heap c' = (fc_heap c)(e \<mapsto> h)" "fc_deleted c' = fc_deleted c"
  shows "accounts c' = add_mset (fh_deleter h, fh_key h, fh_value h) (accounts c)"
proof -
  have "image_mset (\<lambda>p. fst (the (infos (fc_heap c') p))) (mset_set (dom (fc_heap c))) =
      image_mset (\<lambda>p. fst (the (infos (fc_heap c) p))) (mset_set (dom (fc_heap c)))"
    using assms(1,2,3) by (intro image_mset_cong) (auto simp: infos_def)
  then show ?thesis using assms by (simp add: accounts_def infos_def fh_info_def domIff)
qed

text \<open>
  \<open>lost\<close> are the entries that leave the cache: an older entry of the same key, and the oldest
  unused entries.
\<close>

lemma fc_Insert_spec:
  assumes "cache_rep c held xs ys" "fc_heap c e = None" "e \<notin> {fifo_head, in_use_head}"
  obtains c' xs' ys' where "fc_Insert c e key hash value charge deleter = Some c'" "cache_rep c' (add_mset e held) xs' ys'"
    "accounts c' = add_mset (deleter, key, value) (accounts c)" "fc_capacity c' = fc_capacity c"
    "set (xs' @ ys') \<subseteq> insert e (set (xs @ ys))" "e \<in> set ys' \<longleftrightarrow> 0 < fc_capacity c" "\<forall>p\<in>set (xs' @ ys'). p \<noteq> e \<longrightarrow> infos (fc_heap c') p = infos (fc_heap c) p"
    "\<forall>p\<in>set (xs @ ys) - set (xs' @ ys'). (p \<notin># held \<and> p \<in> set xs) \<or> matches (fc_heap c) key hash p"
    "fc_usage c' \<le> fc_capacity c' \<or> xs' = []" "infos (fc_heap c') e = Some ((deleter, key, value), hash, charge)"
    "infos (fc_heap c') \<subseteq>\<^sub>m (infos (fc_heap c))(e \<mapsto> ((deleter, key, value), hash, charge))"
proof -
  have l: "lists_ok c held xs ys" and t: "table_ok (fc_heap c) (fc_table c)" and m: "mset (tids (fc_table c)) = mset (xs @ ys)"
    using assms by (simp_all add: cache_rep_def)
  have ref: "refs_ok (fc_heap c) held xs ys" using l by (simp add: lists_ok_def)
  then have fin: "finite (dom (fc_heap c))" and e: "e \<notin> set xs" "e \<notin> set ys" and nh: "\<forall>p\<in>set xs. p \<notin># held" using assms(2) by (auto simp: refs_ok_def)
  have et: "e \<notin> set (tids (fc_table c))" using cache_rep_set [OF assms(1)] e by simp
  let ?h = "new_handle key hash value charge deleter"
  have agree: "\<forall>p\<in>set (tids (fc_table c)). infos ((fc_heap c)(e \<mapsto> h)) p = infos (fc_heap c) p" for h using et by (auto simp: infos_def)
  obtain c2 xs2 ys2 where c2: "fc_Insert c e key hash value charge deleter = evict_loop c2" "cache_rep c2 (add_mset e held) xs2 ys2"
    "accounts c2 = add_mset (deleter, key, value) (accounts c)" "fc_capacity c2 = fc_capacity c" "set (xs2 @ ys2) \<subseteq> insert e (set (xs @ ys))"
    "e \<in> set ys2 \<longleftrightarrow> 0 < fc_capacity c" "infos (fc_heap c2) \<subseteq>\<^sub>m (infos (fc_heap c))(e \<mapsto> ((deleter, key, value), hash, charge))"
    "\<forall>p\<in>set (xs @ ys) - set (xs2 @ ys2). matches (fc_heap c) key hash p" "set xs2 \<subseteq> set xs"
  proof (cases "0 < fc_capacity c")
    case False
    let ?c = "set_handle e (?h False 1) c"
    have "accounts ?c = add_mset (deleter, key, value) (accounts c)"
      using accounts_new [OF fin assms(2), of ?c "?h False 1"] by (simp add: set_handle_def new_handle_def)
    moreover have "table_ok (fc_heap ?c) (fc_table ?c)" using table_ok_agree [OF t agree] by (simp add: set_handle_def)
    then have "cache_rep ?c (add_mset e held) xs ys" using lists_ok_new(1) [OF l assms(2,3)] m by (simp add: cache_rep_def set_handle_def)
    moreover have "infos (fc_heap ?c) = (infos (fc_heap c))(e \<mapsto> ((deleter, key, value), hash, charge))"
      by (auto simp: infos_def fh_info_def set_handle_def new_handle_def fun_eq_iff)
    moreover have "fc_Insert c e key hash value charge deleter = evict_loop ?c" using False by (simp add: fc_Insert_def new_handle_def)
    ultimately show ?thesis using that [of ?c xs ys] False e by (auto simp: set_handle_def)
  next
    case True
    define c1 where "c1 = FIFO_Append (set_handle e (?h True 2) c) in_use_head e \<lparr> fc_usage := fc_usage c + charge \<rparr>"
    have l1: "lists_ok c1 (add_mset e held) xs (ys @ [e])" unfolding c1_def by (rule lists_ok_new(2) [OF l assms(2,3)])
    have H: "fc_heap c1 = (fc_heap c)(e \<mapsto> ?h True 2)" "fc_table c1 = fc_table c" "fc_deleted c1 = fc_deleted c" "fc_capacity c1 = fc_capacity c"
      by (simp_all add: c1_def set_handle_def FIFO_Append_def)
    have a1: "accounts c1 = add_mset (deleter, key, value) (accounts c)"
      using accounts_new [OF fin assms(2) H(1,3)] by (simp add: new_handle_def)
    have t1: "table_ok (fc_heap c1) (fc_table c)" unfolding H(1) by (rule table_ok_agree [OF t agree])
    have he: "fc_heap c1 e = Some (?h True 2)" by (simp add: H)
    have i1: "infos (fc_heap c1) = (infos (fc_heap c))(e \<mapsto> ((deleter, key, value), hash, charge))"
      by (auto simp: H infos_def fh_info_def new_handle_def fun_eq_iff)
    have ins: "fc_Insert c e key hash value charge deleter =
        do { (t, old) \<leftarrow> ht_Insert (fc_heap c1) (fc_table c) e; (c, _) \<leftarrow> FinishErase (c1 \<lparr> fc_table := t \<rparr>) old; evict_loop c }"
      using True by (simp add: fc_Insert_def c1_def new_handle_def Let_def FIFO_Append_def set_handle_def split_def numeral_2_eq_2)
    have k: "fh_key (?h True 2) = key" "fh_hash (?h True 2) = hash" by (simp_all add: new_handle_def)
    from t1 he et show ?thesis
    proof (cases rule: ht_Insert_spec)
      case (1 t')
      let ?c = "c1 \<lparr> fc_table := t' \<rparr>"
      have "cache_rep ?c (add_mset e held) xs (ys @ [e])" using l1 1(3,4) m by (simp add: cache_rep_def)
      moreover have "fc_Insert c e key hash value charge deleter = evict_loop ?c" using ins 1(1) by (simp add: FinishErase_def)
      ultimately show ?thesis using that [of ?c xs "ys @ [e]"] a1 i1 True H(4) by (auto simp: accounts_def)
    next
      case (2 t' p)
      have p: "p \<in> set xs \<or> p \<in> set ys" using 2(2) cache_rep_set [OF assms(1)] by auto
      then have pe: "p \<noteq> e" and p': "p \<in> set xs \<or> p \<in> set (ys @ [e])" using e by auto
      have d: "distinct (xs @ ys @ [e])" using cache_rep_distinct [OF assms(1)] e by auto
      have mp: "add_mset p (mset (tids t')) = mset (xs @ ys @ [e])" using 2(5) m by simp
      obtain c' where c': "FinishErase (c1 \<lparr> fc_table := t' \<rparr>) (Some p) = Some (c', True)" "cache_rep c' (add_mset e held) (remove1 p xs) (remove1 p (ys @ [e]))"
        "evolves c1 c'" using erase_entry [OF l1 d 2(4) p' mp] by metis
      have "fc_Insert c e key hash value charge deleter = evict_loop c'" using ins 2(1) c'(1) by simp
      moreover have "accounts c' = add_mset (deleter, key, value) (accounts c)" "fc_capacity c' = fc_capacity c"
        using c'(3) a1 H(4) by (simp_all add: evolves_def)
      moreover have "set (remove1 p xs @ remove1 p (ys @ [e])) = insert e (set (xs @ ys)) - {p}" using d pe by (auto simp: remove1_append)
      moreover have "infos (fc_heap c') \<subseteq>\<^sub>m (infos (fc_heap c))(e \<mapsto> ((deleter, key, value), hash, charge))" using c'(3) i1 by (simp add: evolves_def)
      moreover have "matches (fc_heap c) key hash p" using 2(3) pe unfolding k by (simp add: matches_def H)
      moreover have "e \<in> set (remove1 p (ys @ [e]))" using d pe by (auto simp: remove1_append)
      moreover have "set (remove1 p xs) \<subseteq> set xs" by (rule set_remove1_subset)
      ultimately show ?thesis using that [of c' "remove1 p xs" "remove1 p (ys @ [e])"] c'(2) True by auto
    qed
  qed
  from evict_loop_spec [OF c2(2)] obtain c' k where k: "evict_loop c2 = Some c'" "k \<le> length xs2" "cache_rep c' (add_mset e held) (drop k xs2) ys2" "evolves c2 c'"
    "fc_usage c' \<le> fc_capacity c' \<or> k = length xs2" by blast
  have ref': "refs_ok (fc_heap c') (add_mset e held) (drop k xs2) ys2" using k(3) by (simp add: cache_rep_def lists_ok_def)
  have le: "infos (fc_heap c') \<subseteq>\<^sub>m (infos (fc_heap c))(e \<mapsto> ((deleter, key, value), hash, charge))"
    using k(4) c2(7) unfolding evolves_def by (blast intro: map_le_trans)
  then have i: "infos (fc_heap c') p = ((infos (fc_heap c))(e \<mapsto> ((deleter, key, value), hash, charge))) p" if "p \<in> dom (fc_heap c')" for p
    using that by (simp add: map_le_def)
  have "set (drop k xs2 @ ys2) \<subseteq> insert e (set (xs @ ys))" using c2(5) set_drop_subset [of k xs2] by auto
  moreover have "\<forall>p\<in>set (drop k xs2 @ ys2). p \<noteq> e \<longrightarrow> infos (fc_heap c') p = infos (fc_heap c) p"
  proof
    fix p assume "p \<in> set (drop k xs2 @ ys2)"
    then have "p \<in> dom (fc_heap c')" using ref' unfolding refs_ok_def by blast
    from i [OF this] show "p \<noteq> e \<longrightarrow> infos (fc_heap c') p = infos (fc_heap c) p" by simp
  qed
  moreover have "\<forall>p\<in>set (xs @ ys) - set (drop k xs2 @ ys2). (p \<notin># held \<and> p \<in> set xs) \<or> matches (fc_heap c) key hash p"
    using c2(8,9) nh by auto
  moreover have "infos (fc_heap c') e = Some ((deleter, key, value), hash, charge)"
    using i [of e] ref' by (auto simp: refs_ok_def)
  moreover have "fc_usage c' \<le> fc_capacity c' \<or> drop k xs2 = []" using k(5) by auto
  ultimately show thesis using that [of c' "drop k xs2" ys2] c2(1,3,4,6) k(1,3,4) le by (simp add: evolves_def)
qed

section \<open>Histories\<close>

text \<open>
  The states a shard reaches while clients use it by its interface: they release only handles that
  they hold, and \<open>malloc\<close> returns unused memory. \<open>ins\<close> are the entries inserted so far.
\<close>

inductive cache_run :: "u64 \<Rightarrow> ('v, 'd) FIFOCache \<Rightarrow> nat multiset \<Rightarrow> ('d \<times> bytes \<times> 'v) list \<Rightarrow> bool" for capacity where
  run_new: "cache_run capacity (SetCapacity FIFOCache_new capacity) {#} []"
| run_insert: "cache_run capacity c held ins \<Longrightarrow> fc_heap c e = None \<Longrightarrow> e \<notin> {fifo_head, in_use_head} \<Longrightarrow>
    fc_Insert c e key hash value charge deleter = Some c' \<Longrightarrow> cache_run capacity c' (add_mset e held) ((deleter, key, value) # ins)"
| run_hit: "cache_run capacity c held ins \<Longrightarrow> fc_Lookup c key hash = Some (c', Some e) \<Longrightarrow> cache_run capacity c' (add_mset e held) ins"
| run_miss: "cache_run capacity c held ins \<Longrightarrow> fc_Lookup c key hash = Some (c', None) \<Longrightarrow> cache_run capacity c' held ins"
| run_release: "cache_run capacity c held ins \<Longrightarrow> e \<in># held \<Longrightarrow> fc_Release c e = Some c' \<Longrightarrow> cache_run capacity c' (held - {#e#}) ins"
| run_erase: "cache_run capacity c held ins \<Longrightarrow> fc_Erase c key hash = Some c' \<Longrightarrow> cache_run capacity c' held ins"
| run_prune: "cache_run capacity c held ins \<Longrightarrow> fc_Prune c = Some c' \<Longrightarrow> cache_run capacity c' held ins"

lemma HandleTable_new_ok: "table_ok H HandleTable_new" "tids HandleTable_new = []"
proof -
  have "grow_length 4 0 = 4" by (subst grow_length.simps) simp
  then have n: "HandleTable_new = \<lparr> ht_length = 4, ht_elems = 0, ht_list = replicate 4 [] \<rparr>"
    by (simp add: HandleTable_new_def ht_Resize_def)
  show "tids HandleTable_new = []" by (simp add: n tids_def)
  then show "table_ok H HandleTable_new" by (simp add: table_ok_def buckets_ok_def n nth_Cons')
qed

lemma cache_rep_new: "cache_rep (SetCapacity FIFOCache_new capacity) {#} [] []"
  using HandleTable_new_ok
  by (simp add: cache_rep_def lists_ok_def refs_ok_def SetCapacity_def FIFOCache_new_def ring_def self_link_def)

lemma cache_run_rep:
  assumes "cache_run capacity c held ins"
  shows "(\<exists>xs ys. cache_rep c held xs ys) \<and> accounts c = mset ins \<and> fc_capacity c = capacity"
  using assms
proof induction
  case run_new
  then show ?case using cache_rep_new by (fastforce simp: accounts_def SetCapacity_def FIFOCache_new_def)
next
  case (run_insert c held ins e key hash v charge d c')
  then obtain xs ys where "cache_rep c held xs ys" by blast
  from fc_Insert_spec [OF this run_insert.hyps(2,3), of key hash v charge d] run_insert show ?case by (metis mset.simps(2) option.inject)
next
  case (run_hit c held ins key hash c' e)
  then obtain xs ys where "cache_rep c held xs ys" by blast
  then show ?case using run_hit
    by (cases rule: fc_Lookup_spec [where key = key and hash = hash]) (auto simp: evolves_def)
next
  case (run_miss c held ins key hash c')
  then obtain xs ys where "cache_rep c held xs ys" by blast
  then show ?case using run_miss
    by (cases rule: fc_Lookup_spec [where key = key and hash = hash]) auto
next
  case (run_release c held ins e c')
  then obtain xs ys where "cache_rep c held xs ys" by blast
  from fc_Release_spec [OF this run_release.hyps(2)] run_release show ?case by (metis evolves_def option.inject)
next
  case (run_erase c held ins key hash c')
  then obtain xs ys where "cache_rep c held xs ys" by blast
  then show ?case using run_erase
    by (cases rule: fc_Erase_spec [where key = key and hash = hash]) (auto simp: evolves_def)
next
  case (run_prune c held ins c')
  then obtain xs ys where "cache_rep c held xs ys" by blast
  from fc_Prune_spec [OF this] run_prune show ?case by (auto simp: evolves_def)
qed

section \<open>Properties\<close>


lemma example_run:
  obtains c where "fc_Insert (SetCapacity FIFOCache_new 1) 5 [1] 9 (7 :: nat) 1 True = Some c" "cache_run 1 c {#5#} [(True, [1], 7)]"
proof -
  have r: "cache_run 1 (SetCapacity (FIFOCache_new :: (nat, bool) FIFOCache) 1) {#} []" by (rule run_new)
  have h: "fc_heap (SetCapacity (FIFOCache_new :: (nat, bool) FIFOCache) 1) 5 = None" "(5 :: nat) \<notin> {fifo_head, in_use_head}"
    by (simp_all add: SetCapacity_def FIFOCache_new_def fifo_head_def in_use_head_def)
  from fc_Insert_spec [OF cache_rep_new h, of "[1]" 9 7 1 True] obtain c where
    c: "fc_Insert (SetCapacity FIFOCache_new 1) 5 [1] 9 (7 :: nat) 1 True = Some c" by metis
  from run_insert [OF r h c] have "cache_run 1 c {#5#} [(True, [1], 7)]" by simp
  with c that show thesis by blast
qed




text \<open>
  After an insertion into a cache that has a capacity, a lookup finds the new entry with its value.
  A lookup of another key finds what it found before, unless that entry was evicted: then no
  client held it. After the insertion the usage is within the capacity, or every cached entry is held
  by a client.
\<close>

lemma cache_insert_lookup:
  assumes "cache_run capacity c held ins" "0 < capacity" "fc_heap c e = None" "e \<notin> {fifo_head, in_use_head}"
  shows "\<exists>c'. fc_Insert c e key hash value charge deleter = Some c' \<and>
    cached_handle c' key hash = Some e \<and> map_option fh_value (fc_heap c' e) = Some value \<and>
    (\<forall>k h. (k, h) \<noteq> (key, hash) \<longrightarrow>
       (case cached_handle c k h of
          None \<Rightarrow> cached_handle c' k h = None
        | Some p \<Rightarrow> cached_handle c' k h = None \<and> p \<notin># held \<or>
            cached_handle c' k h = Some p \<and> map_option fh_value (fc_heap c' p) = map_option fh_value (fc_heap c p))) \<and>
    (fc_TotalCharge c' \<le> capacity \<or> (\<forall>k h p. cached_handle c' k h = Some p \<longrightarrow> p \<in># add_mset e held))"
proof -
  obtain xs ys where r: "cache_rep c held xs ys" and cap: "fc_capacity c = capacity" using cache_run_rep [OF assms(1)] by blast
  obtain c' xs' ys' where i: "fc_Insert c e key hash value charge deleter = Some c'" "cache_rep c' (add_mset e held) xs' ys'"
    "accounts c' = add_mset (deleter, key, value) (accounts c)" "fc_capacity c' = fc_capacity c"
    "set (xs' @ ys') \<subseteq> insert e (set (xs @ ys))" "e \<in> set ys' \<longleftrightarrow> 0 < fc_capacity c" "\<forall>p\<in>set (xs' @ ys'). p \<noteq> e \<longrightarrow> infos (fc_heap c') p = infos (fc_heap c) p"
    "\<forall>p\<in>set (xs @ ys) - set (xs' @ ys'). (p \<notin># held \<and> p \<in> set xs) \<or> matches (fc_heap c) key hash p"
    "fc_usage c' \<le> fc_capacity c' \<or> xs' = []" "infos (fc_heap c') e = Some ((deleter, key, value), hash, charge)"
    "infos (fc_heap c') \<subseteq>\<^sub>m (infos (fc_heap c))(e \<mapsto> ((deleter, key, value), hash, charge))"
    by (rule fc_Insert_spec [OF r assms(3,4)])
  note iff = cached_handle_iff [OF r] cached_handle_iff [OF i(2)]
  have e: "cached_handle c' key hash = Some e" unfolding iff(2) using i(6,10) assms(2) cap by (simp add: matches_infos)
  have v: "map_option fh_value (fc_heap c' e) = Some value" using i(10) by (auto simp: infos_def fh_info_def)
  have other: "cached_handle c' k h = Some p \<longleftrightarrow> p \<in> set (xs' @ ys') \<and> cached_handle c k h = Some p" if "(k, h) \<noteq> (key, hash)" for k h p
  proof -
    have "p \<noteq> e" if "matches (fc_heap c') k h p" using that i(10) \<open>(k, h) \<noteq> (key, hash)\<close> by (auto simp: matches_infos)
    moreover have "p \<noteq> e" if "p \<in> set (xs @ ys)" using that r assms(3) by (auto simp: cache_rep_def lists_ok_def refs_ok_def)
    ultimately show ?thesis unfolding iff using i(5,7) by (auto simp: matches_infos)
  qed
  have val: "map_option fh_value (fc_heap c' p) = map_option fh_value (fc_heap c p)" if "p \<in> set (xs' @ ys')" "p \<noteq> e" for p
  proof -
    have "infos (fc_heap c') p = infos (fc_heap c) p" using i(7) that by blast
    then show ?thesis by (auto simp: infos_def fh_info_def map_option_case split: option.splits)
  qed
  have "case cached_handle c k h of
      None \<Rightarrow> cached_handle c' k h = None
    | Some p \<Rightarrow> cached_handle c' k h = None \<and> p \<notin># held \<or>
        cached_handle c' k h = Some p \<and> map_option fh_value (fc_heap c' p) = map_option fh_value (fc_heap c p)" if n: "(k, h) \<noteq> (key, hash)" for k h
  proof (cases "cached_handle c k h")
    case None
    then show ?thesis using other [OF n] by (cases "cached_handle c' k h") auto
  next
    case (Some p)
    show ?thesis
    proof (cases "p \<in> set (xs' @ ys')")
      case True
      moreover have "p \<noteq> e" using Some assms(3) unfolding iff by (auto simp: matches_def)
      ultimately show ?thesis using Some other [OF n, of p] val by simp
    next
      case False
      have p: "p \<in> set (xs @ ys)" "matches (fc_heap c) k h p" using Some iff(1) [of k h p] by simp_all
      have "\<not> matches (fc_heap c) key hash p" using p(2) n by (auto simp: matches_def)
      moreover have "p \<in> set (xs @ ys) - set (xs' @ ys')" using p(1) False by blast
      ultimately have "p \<notin># held" using i(8) by blast
      moreover have "cached_handle c' k h = None"
      proof (cases "cached_handle c' k h")
        case (Some q)
        then show ?thesis using other [OF n, of q] False \<open>cached_handle c k h = Some p\<close> by simp
      qed
      ultimately show ?thesis using Some by simp
    qed
  qed
  moreover have "p \<in># add_mset e held" if "xs' = []" "cached_handle c' k h = Some p" for k h p
    using i(2) that(1) iff(2) [of k h p] that(2) by (simp add: cache_rep_def lists_ok_def refs_ok_def)
  then have "fc_TotalCharge c' \<le> capacity \<or> (\<forall>k h p. cached_handle c' k h = Some p \<longrightarrow> p \<in># add_mset e held)"
    using i(9) unfolding fc_TotalCharge_def i(4) cap by blast
  ultimately show ?thesis using i(1) e v by blast
qed

end
