(* ===== verification/Crc32c.thy ===== *)
theory Crc32c
  imports Coding Crc_Tables
begin

text \<open>
  CRC-32C, \<open>kv/util/crc32c.h\<close> and \<open>kv/util/crc32c.cpp\<close>. \<open>Extend\<close> reads bytes up to an
  aligned address, then 16-byte swaths in four interleaved strides with four tables, then words,
  combines the strides and finishes bytewise. The reference is the remainder of the polynomial,
  one bit at a time; the theorem is that the interleaving, the tables and the alignment do not show.
\<close>

unbundle bit_operations_syntax

section \<open>The code\<close>

definition kCRC32Xor :: u32 where
  "kCRC32Xor = 0xffffffff"

definition ReadUint32LE :: "bytes \<Rightarrow> u32" where
  "ReadUint32LE buffer = DecodeFixed32 buffer"

definition STEP1 :: "u32 \<Rightarrow> byte \<Rightarrow> u32" where
  "STEP1 l p =
     (let c = (l AND 0xff) XOR ucast p
      in kByteExtensionTable ! unat c XOR drop_bit 8 l)"

definition STEP4 :: "u32 \<Rightarrow> u32 \<Rightarrow> u32" where
  "STEP4 w crc =
     w XOR kStrideExtensionTable3 ! unat (crc AND 0xff) XOR
     kStrideExtensionTable2 ! unat (drop_bit 8 crc AND 0xff) XOR
     kStrideExtensionTable1 ! unat (drop_bit 16 crc AND 0xff) XOR
     kStrideExtensionTable0 ! unat (drop_bit 24 crc)"

text \<open>The partial results of the four strides, and the bytes not yet read.\<close>

record strides =
  crc0 :: u32
  crc1 :: u32
  crc2 :: u32
  crc3 :: u32

definition STEP16 :: "strides \<Rightarrow> bytes \<Rightarrow> strides" where
  "STEP16 s p =
     \<lparr> crc0 = STEP4 (ReadUint32LE p) (crc0 s),
       crc1 = STEP4 (ReadUint32LE (drop 4 p)) (crc1 s),
       crc2 = STEP4 (ReadUint32LE (drop 8 p)) (crc2 s),
       crc3 = STEP4 (ReadUint32LE (drop 12 p)) (crc3 s) \<rparr>"

function crc_swaths :: "strides \<Rightarrow> bytes \<Rightarrow> strides \<times> bytes" where
  "crc_swaths s p = (if length p \<ge> 16 then crc_swaths (STEP16 s p) (drop 16 p) else (s, p))"
  by pat_completeness auto
termination
  by (relation "measure (\<lambda>(_, p). length p)") auto

declare crc_swaths.simps [simp del]

function crc_words :: "strides \<Rightarrow> bytes \<Rightarrow> strides \<times> bytes" where
  "crc_words s p =
     (if length p \<ge> 4
      then (let tmp = STEP4 (ReadUint32LE p) (crc0 s)
            in crc_words \<lparr> crc0 = crc1 s, crc1 = crc2 s, crc2 = crc3 s, crc3 = tmp \<rparr> (drop 4 p))
      else (s, p))"
  by pat_completeness auto
termination
  by (relation "measure (\<lambda>(_, p). length p)") auto

declare crc_words.simps [simp del]

fun STEP4W_loop :: "nat \<Rightarrow> u32 \<Rightarrow> u32" where
  "STEP4W_loop 0 w = w"
| "STEP4W_loop (Suc i) w = STEP4W_loop i (drop_bit 8 w XOR kByteExtensionTable ! unat (w AND 0xff))"

definition STEP4W :: "u32 \<Rightarrow> u32 \<Rightarrow> u32" where
  "STEP4W l w = STEP4W_loop 4 (w XOR l)"

text \<open>The middle part: load a swath, run the strides, combine them.\<close>

definition crc_strided :: "u32 \<Rightarrow> bytes \<Rightarrow> u32 \<times> bytes" where
  "crc_strided l p =
     (let s = \<lparr> crc0 = ReadUint32LE p XOR l, crc1 = ReadUint32LE (drop 4 p),
                crc2 = ReadUint32LE (drop 8 p), crc3 = ReadUint32LE (drop 12 p) \<rparr>;
          (s, p) = crc_swaths s (drop 16 p);
          (s, p) = crc_words s p;
          l = STEP4W 0 (crc0 s);
          l = STEP4W l (crc1 s);
          l = STEP4W l (crc2 s);
          l = STEP4W l (crc3 s)
      in (l, p))"

text \<open>\<open>address\<close> is where the data lie in memory: \<open>RoundUp\<close> finds the next multiple of four.\<close>

definition RoundUp4 :: "nat \<Rightarrow> nat" where
  "RoundUp4 address = (address + 3) div 4 * 4"

definition crc_Extend :: "nat \<Rightarrow> u32 \<Rightarrow> bytes \<Rightarrow> u32" where
  "crc_Extend address crc data =
     (let l = crc XOR kCRC32Xor;
          x = RoundUp4 address - address;
          (l, p) = (if x \<le> length data then (foldl STEP1 l (take x data), drop x data) else (l, data));
          (l, p) = (if length p \<ge> 16 then crc_strided l p else (l, p))
      in foldl STEP1 l p XOR kCRC32Xor)"

definition crc_Value :: "nat \<Rightarrow> bytes \<Rightarrow> u32" where
  "crc_Value address data = crc_Extend address 0 data"

definition kMaskDelta :: u32 where
  "kMaskDelta = 0xa282ead8"

definition crc_Mask :: "u32 \<Rightarrow> u32" where
  "crc_Mask crc = (drop_bit 15 crc OR push_bit 17 crc) + kMaskDelta"

definition crc_Unmask :: "u32 \<Rightarrow> u32" where
  "crc_Unmask masked_crc = (let rot = masked_crc - kMaskDelta in drop_bit 17 rot OR push_bit 15 rot)"

section \<open>The polynomial, one bit at a time\<close>

definition crc_bit :: "u32 \<Rightarrow> u32" where
  "crc_bit l = (if bit l 0 then drop_bit 1 l XOR 0x82f63b78 else drop_bit 1 l)"

definition crc_byte :: "u32 \<Rightarrow> u32" where
  "crc_byte l = (crc_bit ^^ 8) l"

definition crc32c_ref :: "u32 \<Rightarrow> bytes \<Rightarrow> u32" where
  "crc32c_ref crc data = foldl (\<lambda>l b. crc_byte (l XOR ucast b)) (crc XOR kCRC32Xor) data XOR kCRC32Xor"

section \<open>Linearity\<close>

definition xor_linear :: "(u32 \<Rightarrow> u32) \<Rightarrow> bool" where
  "xor_linear f \<longleftrightarrow> (\<forall>x y. f (x XOR y) = f x XOR f y)"

lemma xor_linearD: "xor_linear f \<Longrightarrow> f (x XOR y) = f x XOR f y"
  by (simp add: xor_linear_def)

lemma xor_linear_0: "xor_linear f \<Longrightarrow> f 0 = 0"
  using xor_linearD [of f 0 0] by simp

lemma xor_linear_funpow: "xor_linear f \<Longrightarrow> xor_linear (f ^^ n)"
  by (induction n) (auto simp: xor_linear_def)

lemma crc_bit_linear: "xor_linear crc_bit"
  unfolding xor_linear_def
proof (intro allI)
  fix x y
  show "crc_bit (x XOR y) = crc_bit x XOR crc_bit y"
    by (cases "bit x 0"; cases "bit y 0") (simp_all add: crc_bit_def bit_xor_iff drop_bit_xor ac_simps)
qed

lemma crc_byte_linear: "xor_linear crc_byte"
  using xor_linear_funpow [OF crc_bit_linear, of 8] by (simp add: xor_linear_def crc_byte_def)

text \<open>Zero bits are shifted out.\<close>

lemma crc_bit_shift: "(\<And>i. i < k \<Longrightarrow> \<not> bit x i) \<Longrightarrow> (crc_bit ^^ k) x = drop_bit k x"
proof (induction k arbitrary: x)
  case (Suc k)
  have "\<not> bit x 0" using Suc.prems [of 0] by simp
  then have "(crc_bit ^^ Suc k) x = (crc_bit ^^ k) (drop_bit 1 x)"
    unfolding funpow_Suc_right by (simp add: crc_bit_def [of x])
  also have "\<dots> = drop_bit k (drop_bit 1 x)"
    using Suc.prems by (intro Suc.IH) (auto simp: bit_simps)
  finally show ?case by simp
qed simp

lemma crc_byte_shift: "crc_byte (push_bit 8 x) = drop_bit 8 (push_bit 8 x)"
  unfolding crc_byte_def by (rule crc_bit_shift) (auto simp: bit_simps)

lemma crc_byte_split: "crc_byte x = crc_byte (take_bit 8 x) XOR drop_bit 8 x"
proof -
  have "x = take_bit 8 x XOR push_bit 8 (drop_bit 8 x)"
    by (rule bit_word_eqI) (auto simp: bit_simps)
  moreover have "drop_bit 8 (push_bit 8 (drop_bit 8 x)) = drop_bit 8 x"
    by (rule bit_word_eqI) (auto simp: bit_simps dest: bit_imp_le_length)
  ultimately show ?thesis by (metis crc_byte_linear crc_byte_shift xor_linearD)
qed

section \<open>The tables\<close>

lemma word_of_nat_xor_power:
  assumes "i < 2 ^ n" "n < 32"
  shows "(word_of_nat (2 ^ n + i) :: u32) = 2 ^ n XOR word_of_nat i"
proof -
  have "\<not> bit i n" using assms(1) by (simp add: bit_iff_odd)
  then have "(2 :: u32) ^ n AND word_of_nat i = 0"
    by (intro bit_word_eqI) (auto simp: bit_simps)
  then show ?thesis by (simp add: disjunctive_add_eq_xor)
qed

lemma upt_double: "[0..<a + a] = [0..<a] @ map (\<lambda>i. a + i) [0..<a :: nat]"
  using map_add_upt [of a a] upt_add_eq_append [of 0 a a] by (simp add: add.commute)

lemma xor_span_linear:
  assumes f: "xor_linear f"
  shows "n \<le> 32 \<Longrightarrow> xor_span (map (\<lambda>k. f (2 ^ k)) (rev [0..<n])) = map (\<lambda>i. f (word_of_nat i)) [0..<2 ^ n]"
proof (induction n)
  case (Suc n)
  have "[0..<2 ^ Suc n] = [0..<2 ^ n] @ map (\<lambda>i. 2 ^ n + i) [0..<2 ^ n]"
    using upt_double [of "2 ^ n"] by (simp add: mult_2)
  moreover have "f (word_of_nat (2 ^ n + i)) = f (2 ^ n) XOR f (word_of_nat i)" if "i < 2 ^ n" for i
    using that Suc.prems by (simp add: word_of_nat_xor_power xor_linearD [OF f] del: of_nat_add)
  ultimately show ?case using Suc by (simp add: Let_def comp_def del: of_nat_add)
qed (simp add: xor_linear_0 [OF f])

lemma crc_byte_unfold:
  "crc_byte l = crc_bit (crc_bit (crc_bit (crc_bit (crc_bit (crc_bit (crc_bit (crc_bit l)))))))"
  by (simp add: crc_byte_def numeral_eq_Suc)

lemma rev_upt_8: "rev [0..<8] = [7, 6, 5, 4, 3, 2, 1, 0 :: nat]"
  by (simp add: upt_rec)

text \<open>A table spanned by the values of a linear function at the powers of two tabulates it.\<close>

lemma spanned_table:
  assumes "xor_linear f" "T = xor_span (map (\<lambda>k. f (2 ^ k)) (rev [0..<8]))" "i < 256"
  shows "T ! i = f (word_of_nat i)"
  using xor_span_linear [OF assms(1), of 8] assms(2,3) by simp

lemma kByteExtensionTable_nth: "i < 256 \<Longrightarrow> kByteExtensionTable ! i = crc_byte (word_of_nat i)"
proof (rule spanned_table [OF crc_byte_linear])
  show "kByteExtensionTable = xor_span (map (\<lambda>k. crc_byte (2 ^ k)) (rev [0..<8]))"
    unfolding kByteExtensionTable_span rev_upt_8 list.map
    by (rule arg_cong [of _ _ xor_span]) (simp add: crc_byte_unfold crc_bit_def)
qed

lemma crc_byte_code: "crc_byte x = kByteExtensionTable ! unat (x AND 0xff) XOR drop_bit 8 x"
proof -
  have m: "x AND 0xff = take_bit 8 x" by (simp add: take_bit_eq_mask mask_eq_exp_minus_1)
  have "unat (take_bit 8 x) < 256"
    using take_bit_nat_less_exp [of 8 "unat x"] by (simp add: unsigned_take_bit_eq)
  then show ?thesis
    unfolding m by (subst crc_byte_split) (simp add: kByteExtensionTable_nth)
qed

lemma funpow_13: "(f ^^ 13) x = f (f (f (f (f (f (f (f (f (f (f (f (f x))))))))))))"
  by (simp add: numeral_eq_Suc)

lemma funpow_14_16: "(f ^^ 14) x = (f ^^ 13) (f x)" "(f ^^ 15) x = (f ^^ 13) (f (f x))" "(f ^^ 16) x = (f ^^ 13) (f (f (f x)))"
  by (simp_all add: numeral_eq_Suc funpow_swap1)

lemma kStrideExtensionTable3_nth: "i < 256 \<Longrightarrow> kStrideExtensionTable3 ! i = (crc_byte ^^ 16) (word_of_nat i)"
proof (rule spanned_table [OF xor_linear_funpow [OF crc_byte_linear]])
  show "kStrideExtensionTable3 = xor_span (map (\<lambda>k. (crc_byte ^^ 16) (2 ^ k)) (rev [0..<8]))"
    unfolding kStrideExtensionTable3_span rev_upt_8 list.map
    by (rule arg_cong [of _ _ xor_span]) (simp add: funpow_13 funpow_14_16 crc_byte_unfold crc_bit_def)
qed

lemma kStrideExtensionTable2_nth: "i < 256 \<Longrightarrow> kStrideExtensionTable2 ! i = (crc_byte ^^ 15) (word_of_nat i)"
proof (rule spanned_table [OF xor_linear_funpow [OF crc_byte_linear]])
  show "kStrideExtensionTable2 = xor_span (map (\<lambda>k. (crc_byte ^^ 15) (2 ^ k)) (rev [0..<8]))"
    unfolding kStrideExtensionTable2_span rev_upt_8 list.map
    by (rule arg_cong [of _ _ xor_span]) (simp add: funpow_13 funpow_14_16 crc_byte_unfold crc_bit_def)
qed

lemma kStrideExtensionTable1_nth: "i < 256 \<Longrightarrow> kStrideExtensionTable1 ! i = (crc_byte ^^ 14) (word_of_nat i)"
proof (rule spanned_table [OF xor_linear_funpow [OF crc_byte_linear]])
  show "kStrideExtensionTable1 = xor_span (map (\<lambda>k. (crc_byte ^^ 14) (2 ^ k)) (rev [0..<8]))"
    unfolding kStrideExtensionTable1_span rev_upt_8 list.map
    by (rule arg_cong [of _ _ xor_span]) (simp add: funpow_13 funpow_14_16 crc_byte_unfold crc_bit_def)
qed

lemma kStrideExtensionTable0_nth: "i < 256 \<Longrightarrow> kStrideExtensionTable0 ! i = (crc_byte ^^ 13) (word_of_nat i)"
proof (rule spanned_table [OF xor_linear_funpow [OF crc_byte_linear]])
  show "kStrideExtensionTable0 = xor_span (map (\<lambda>k. (crc_byte ^^ 13) (2 ^ k)) (rev [0..<8]))"
    unfolding kStrideExtensionTable0_span rev_upt_8 list.map
    by (rule arg_cong [of _ _ xor_span]) (simp add: funpow_13 funpow_14_16 crc_byte_unfold crc_bit_def)
qed

section \<open>The steps\<close>

definition crc_word :: "u32 \<Rightarrow> u32" where
  "crc_word l = crc_byte (crc_byte (crc_byte (crc_byte l)))"

lemma crc_word_xor: "crc_word (x XOR y) = crc_word x XOR crc_word y"
  by (simp add: crc_word_def xor_linearD [OF crc_byte_linear])

lemma and_ff: "(x :: u32) AND 0xff = take_bit 8 x"
  by (simp add: take_bit_eq_mask mask_eq_exp_minus_1)

lemma unat_take_8: "unat (take_bit 8 (x :: u32)) < 256"
  using take_bit_nat_less_exp [of 8 "unat x"] by (simp add: unsigned_take_bit_eq)

lemma STEP1_eq: "STEP1 l p = crc_byte (l XOR ucast p)"
proof -
  have "(l XOR ucast p) AND 0xff = (l AND 0xff) XOR ucast p" "drop_bit 8 (l XOR ucast p) = drop_bit 8 l"
    unfolding and_ff by (rule bit_word_eqI; auto simp: bit_simps dest: bit_imp_le_length)+
  then show ?thesis by (simp add: STEP1_def crc_byte_code)
qed

lemma crc_byte_funpow_push:
  assumes "take_bit 24 x = x"
  shows "(crc_byte ^^ Suc n) (push_bit 8 x) = (crc_byte ^^ n) x"
proof -
  have "drop_bit 8 (push_bit 8 x) = take_bit 24 x"
    by (rule bit_word_eqI) (auto simp: bit_simps dest: bit_imp_le_length)
  with assms show ?thesis by (simp add: funpow_Suc_right crc_byte_shift del: funpow.simps)
qed

lemma u32_bytes:
  "(c :: u32) = take_bit 8 c XOR push_bit 8 (take_bit 8 (drop_bit 8 c)) XOR
     push_bit 8 (push_bit 8 (take_bit 8 (drop_bit 16 c))) XOR push_bit 8 (push_bit 8 (push_bit 8 (drop_bit 24 c)))"
  by (rule bit_word_eqI) (auto simp: bit_simps)

lemma STEP4_eq: "STEP4 w c = w XOR (crc_byte ^^ 16) c"
proof -
  let ?F = "\<lambda>n. crc_byte ^^ n"
  have lin: "?F n (x XOR y) = ?F n x XOR ?F n y" for n x y
    by (rule xor_linearD [OF xor_linear_funpow [OF crc_byte_linear]])
  have d: "drop_bit 24 c = take_bit 8 (drop_bit 24 c)"
    by (rule bit_word_eqI) (auto simp: bit_simps dest: bit_imp_le_length)
  have small: "take_bit 24 (take_bit 8 y) = take_bit 8 y" "take_bit 24 (push_bit 8 (take_bit 8 y)) = push_bit 8 (take_bit 8 y)"
    "take_bit 24 (push_bit 8 (push_bit 8 (take_bit 8 y))) = push_bit 8 (push_bit 8 (take_bit 8 y))" for y :: u32
    by (rule bit_word_eqI; auto simp: bit_simps)+
  have push: "?F 16 (push_bit 8 y) = ?F 15 y" "?F 15 (push_bit 8 y) = ?F 14 y" "?F 14 (push_bit 8 y) = ?F 13 y"
    if "take_bit 24 y = y" for y
    using crc_byte_funpow_push [OF that, of 15] crc_byte_funpow_push [OF that, of 14]
      crc_byte_funpow_push [OF that, of 13] by simp_all
  have "?F 16 c = ?F 16 (take_bit 8 c) XOR ?F 16 (push_bit 8 (take_bit 8 (drop_bit 8 c))) XOR
      ?F 16 (push_bit 8 (push_bit 8 (take_bit 8 (drop_bit 16 c)))) XOR
      ?F 16 (push_bit 8 (push_bit 8 (push_bit 8 (take_bit 8 (drop_bit 24 c)))))"
    by (subst u32_bytes) (simp only: lin d [symmetric])
  also have "\<dots> = ?F 16 (take_bit 8 c) XOR ?F 15 (take_bit 8 (drop_bit 8 c)) XOR
      ?F 14 (take_bit 8 (drop_bit 16 c)) XOR ?F 13 (take_bit 8 (drop_bit 24 c))"
    by (simp only: push small)
  finally have "?F 16 c = \<dots>" .
  moreover have "kStrideExtensionTable0 ! unat (drop_bit 24 c) = ?F 13 (take_bit 8 (drop_bit 24 c))"
    by (subst d) (simp add: unat_take_8 kStrideExtensionTable0_nth)
  ultimately show ?thesis
    unfolding STEP4_def and_ff
    by (simp add: unat_take_8 kStrideExtensionTable3_nth kStrideExtensionTable2_nth
        kStrideExtensionTable1_nth ac_simps)
qed

lemma STEP4_word: "STEP4 w c = w XOR crc_word (crc_word (crc_word (crc_word c)))"
  unfolding STEP4_eq funpow_14_16 funpow_13 by (simp add: crc_word_def)

lemma STEP4W_eq: "STEP4W l w = crc_word (w XOR l)"
proof -
  have step: "drop_bit 8 x XOR kByteExtensionTable ! unat (x AND 0xff) = crc_byte x" for x
    by (simp add: crc_byte_code xor.commute)
  have "STEP4W_loop n x = (crc_byte ^^ n) x" for n x
    by (induction n arbitrary: x) (simp_all add: step funpow_swap1)
  then show ?thesis by (simp add: STEP4W_def crc_word_def numeral_eq_Suc)
qed

lemma crc_byte_absorb: "take_bit 24 r = r \<Longrightarrow> crc_byte (x XOR push_bit 8 r) = crc_byte x XOR r"
  using crc_byte_funpow_push [of r 0] by (simp add: xor_linearD [OF crc_byte_linear])

lemma crc_word_bytes: "crc_word (l XOR DecodeFixed32 [a, b, c, d]) = foldl STEP1 l [a, b, c, d]"
proof -
  let ?r1 = "ucast d :: u32"
  let ?r2 = "ucast c XOR push_bit 8 ?r1" 
  let ?r3 = "ucast b XOR push_bit 8 ?r2"
  have w: "DecodeFixed32 [a, b, c, d] = ucast a XOR push_bit 8 ?r3"
    by (rule bit_word_eqI) (auto simp: DecodeFixed32_def bit_simps dest: bit_imp_le_length)
  have small: "take_bit 24 ?r1 = ?r1" "take_bit 24 ?r2 = ?r2" "take_bit 24 ?r3 = ?r3"
    by (rule bit_word_eqI; auto simp: bit_simps dest: bit_imp_le_length)+
  have "crc_byte (l XOR DecodeFixed32 [a, b, c, d]) = STEP1 l a XOR ?r3"
    using crc_byte_absorb [OF small(3), of "l XOR ucast a"] by (simp only: w STEP1_eq xor.assoc)
  moreover have "crc_byte (x XOR ?r3) = STEP1 x b XOR ?r2" for x
    using crc_byte_absorb [OF small(2), of "x XOR ucast b"] by (simp only: STEP1_eq xor.assoc)
  moreover have "crc_byte (x XOR ?r2) = STEP1 x c XOR ?r1" for x
    using crc_byte_absorb [OF small(1), of "x XOR ucast c"] by (simp only: STEP1_eq xor.assoc)
  ultimately show ?thesis by (simp only: crc_word_def STEP1_eq foldl.simps)
qed

lemma crc_word_read:
  assumes "4 \<le> length p"
  shows "foldl STEP1 l p = foldl STEP1 (crc_word (l XOR ReadUint32LE p)) (drop 4 p)"
proof -
  obtain a b c d q where "p = a # b # c # d # q"
    using assms by (auto simp: Suc_le_length_iff numeral_eq_Suc)
  moreover have "DecodeFixed32 (a # b # c # d # q) = DecodeFixed32 [a, b, c, d]"
    by (simp add: DecodeFixed32_def)
  ultimately show ?thesis
    using crc_word_bytes [of l a b c d] by (simp add: ReadUint32LE_def)
qed

section \<open>The strides\<close>

definition crc_combine :: "strides \<Rightarrow> u32" where
  "crc_combine s = crc_word (crc_word (crc_word (crc_word (crc0 s) XOR crc1 s) XOR crc2 s) XOR crc3 s)"

lemma crc_combine_step:
  "crc_combine \<lparr> crc0 = b, crc1 = c, crc2 = d, crc3 = STEP4 w a \<rparr> =
    crc_word (crc_combine \<lparr> crc0 = a, crc1 = b, crc2 = c, crc3 = d \<rparr> XOR w)"
  by (simp add: crc_combine_def STEP4_word crc_word_xor ac_simps)

lemma crc_combine_fields [simp]:
  "crc_combine \<lparr> crc0 = crc0 s, crc1 = crc1 s, crc2 = crc2 s, crc3 = crc3 s \<rparr> = crc_combine s"
  by (simp add: crc_combine_def)

lemma crc_words_correct:
  "crc_words s p = (s', p') \<Longrightarrow> foldl STEP1 (crc_combine s) p = foldl STEP1 (crc_combine s') p'"
proof (induction s p rule: crc_words.induct)
  case (1 s p)
  show ?case
  proof (cases "length p \<ge> 4")
    case True
    let ?s = "\<lparr> crc0 = crc1 s, crc1 = crc2 s, crc2 = crc3 s, crc3 = STEP4 (ReadUint32LE p) (crc0 s) \<rparr>"
    have "foldl STEP1 (crc_combine ?s) (drop 4 p) = foldl STEP1 (crc_combine s') p'"
      using 1 True by (simp add: crc_words.simps [of s p])
    moreover have "crc_combine ?s = crc_word (crc_combine s XOR ReadUint32LE p)"
      by (simp add: crc_combine_step)
    ultimately show ?thesis using crc_word_read [OF True] by simp
  next
    case False
    with 1 show ?thesis by (simp add: crc_words.simps [of s p])
  qed
qed

lemma STEP16_correct:
  assumes "16 \<le> length p"
  shows "foldl STEP1 (crc_combine s) p = foldl STEP1 (crc_combine (STEP16 s p)) (drop 16 p)"
proof -
  let ?w = "\<lambda>i. ReadUint32LE (drop i p)"
  have "foldl STEP1 l p = foldl STEP1
      (crc_word (crc_word (crc_word (crc_word (l XOR ?w 0) XOR ?w 4) XOR ?w 8) XOR ?w 12)) (drop 16 p)" for l
    using assms by (simp add: crc_word_read [of p] crc_word_read [of "drop 4 p"] crc_word_read [of "drop 8 p"]
        crc_word_read [of "drop 12 p"])
  moreover have "crc_combine (STEP16 s p) =
      crc_word (crc_word (crc_word (crc_word (crc_combine s XOR ?w 0) XOR ?w 4) XOR ?w 8) XOR ?w 12)"
    by (simp add: STEP16_def crc_combine_step) 
  ultimately show ?thesis by simp
qed

lemma crc_swaths_correct:
  "crc_swaths s p = (s', p') \<Longrightarrow> foldl STEP1 (crc_combine s) p = foldl STEP1 (crc_combine s') p'"
proof (induction s p rule: crc_swaths.induct)
  case (1 s p)
  then show ?case
    using STEP16_correct [of p s] by (cases "length p \<ge> 16") (simp_all add: crc_swaths.simps [of s p])
qed

text \<open>The routine is the bytewise one.\<close>

lemma crc_strided_correct:
  assumes "16 \<le> length p" "crc_strided l p = (l', p')"
  shows "foldl STEP1 l' p' = foldl STEP1 l p"
proof -
  let ?w = "\<lambda>i. ReadUint32LE (drop i p)"
  define s where "s = \<lparr> crc0 = ReadUint32LE p XOR l, crc1 = ?w 4, crc2 = ?w 8, crc3 = ?w 12 \<rparr>"
  obtain s1 p1 where 1: "crc_swaths s (drop 16 p) = (s1, p1)" by fastforce
  obtain s2 p2 where 2: "crc_words s1 p1 = (s2, p2)" by fastforce
  have "foldl STEP1 l p = foldl STEP1 (crc_combine s) (drop 16 p)"
    using assms(1) by (simp add: crc_word_read [of p] crc_word_read [of "drop 4 p"] crc_word_read [of "drop 8 p"]
        crc_word_read [of "drop 12 p"] crc_combine_def s_def xor.commute)
  also have "\<dots> = foldl STEP1 (crc_combine s2) p2"
    using crc_swaths_correct [OF 1] crc_words_correct [OF 2] by simp
  also have "\<dots> = foldl STEP1 l' p'"
    using assms(2) 1 2 unfolding crc_strided_def Let_def s_def [symmetric]
    by (auto simp: STEP4W_eq crc_combine_def xor.commute)
  finally show ?thesis ..
qed

lemma crc_Extend_bytewise: "crc_Extend address crc data = foldl STEP1 (crc XOR kCRC32Xor) data XOR kCRC32Xor"
proof -
  let ?x = "RoundUp4 address - address" and ?l = "crc XOR kCRC32Xor"
  obtain l p where lp: "(if ?x \<le> length data then (foldl STEP1 ?l (take ?x data), drop ?x data) else (?l, data)) = (l, p)"
    by fastforce
  obtain l' p' where lp': "(if length p \<ge> 16 then crc_strided l p else (l, p)) = (l', p')" by fastforce
  have "crc_Extend address crc data = foldl STEP1 l' p' XOR kCRC32Xor"
    using lp lp' unfolding crc_Extend_def Let_def by (simp add: case_prod_beta split: if_splits)
  also have "foldl STEP1 l' p' = foldl STEP1 l p"
    using lp' crc_strided_correct [of p l l' p'] by (auto split: if_splits)
  also have "foldl STEP1 l p = foldl STEP1 ?l data"
    using lp by (auto simp: foldl_append [symmetric] simp del: foldl_append split: if_splits)
  finally show ?thesis .
qed

lemma crc_Extend_ref: "crc_Extend address crc data = crc32c_ref crc data"
  unfolding crc_Extend_bytewise crc32c_ref_def by (simp add: STEP1_eq [abs_def])

lemma crc32c_ref_append: "crc32c_ref (crc32c_ref crc a) b = crc32c_ref crc (a @ b)"
  by (simp add: crc32c_ref_def xor.assoc)

lemma crc_Unmask_Mask [simp]: "crc_Unmask (crc_Mask crc) = crc"
proof (rule bit_word_eqI)
  fix n
  assume "n < LENGTH(32)"
  then show "bit (crc_Unmask (crc_Mask crc)) n = bit crc n"
    unfolding crc_Unmask_def crc_Mask_def Let_def
    by (cases "n < 15") (auto simp: bit_simps not_less dest: bit_imp_le_length)
qed

section \<open>Error detection\<close>

lemma xor_linear_inj:
  assumes "xor_linear f" "\<And>x. f x = 0 \<Longrightarrow> x = 0" "f x = f y"
  shows "x = y"
proof -
  have "f (x XOR y) = 0" using assms(1,3) by (simp add: xor_linearD)
  then have "x XOR y = 0" by (rule assms(2))
  then have "x XOR (x XOR y) = x XOR 0" by simp
  then show ?thesis by (simp add: xor.assoc [symmetric])
qed

lemma crc_bit_0: "crc_bit x = 0 \<Longrightarrow> x = 0"
proof -
  assume 0: "crc_bit x = 0"
  have "bit (drop_bit 1 x XOR 0x82f63b78) 31"
    using bit_imp_le_length [of x 32] by (auto simp: bit_simps)
  with 0 have b: "\<not> bit x 0" by (auto simp: crc_bit_def)
  with 0 have d: "drop_bit 1 x = 0" by (simp add: crc_bit_def)
  have "\<not> bit x n" for n
  proof (cases n)
    case (Suc m)
    have "\<not> bit (drop_bit 1 x) m" unfolding d by simp
    with Suc show ?thesis by (simp add: bit_simps)
  qed (use b in simp)
  then show "x = 0" by (intro bit_word_eqI) simp
qed

lemma crc_byte_inj: "crc_byte x = crc_byte y \<Longrightarrow> x = y"
  by (rule xor_linear_inj [OF crc_byte_linear]) (auto simp: crc_byte_unfold dest!: crc_bit_0)

lemma crc_word_inj: "crc_word x = crc_word y \<Longrightarrow> x = y"
  by (auto simp: crc_word_def dest!: crc_byte_inj)

lemma xor_left_inj: "(l :: u32) XOR x = l XOR y \<Longrightarrow> x = y"
  by (metis xor.assoc xor.left_neutral xor_self_eq)

lemma STEP1_state_inj: "foldl STEP1 l b = foldl STEP1 l' b \<Longrightarrow> l = l'"
proof (induction b arbitrary: l l')
  case (Cons x b)
  from Cons.IH [of "STEP1 l x" "STEP1 l' x"] Cons.prems have "l XOR ucast x = l' XOR ucast x"
    by (auto simp: STEP1_eq dest!: crc_byte_inj)
  then show ?case by (metis xor.commute xor_left_inj)
qed simp

lemma DecodeFixed32_inj:
  assumes "length x = 4" "length y = 4" "DecodeFixed32 x = DecodeFixed32 y"
  shows "x = y"
proof -
  have "EncodeFixed32 (DecodeFixed32 z) = z" if len: "length z = 4" for z
  proof -
    obtain a b c d where z: "z = [a, b, c, d]"
      using len by (auto simp: length_Suc_conv numeral_eq_Suc)
    have "\<not> bit (x :: byte) (8 + n)" "\<not> bit x (16 + n)" "\<not> bit x (24 + n)" for x n
      by (auto dest: bit_imp_le_length)
    then show ?thesis unfolding z
      by (auto simp: EncodeFixed32_def DecodeFixed32_def bit_simps intro!: bit_word_eqI)
  qed
  with assms show ?thesis by metis
qed

lemma STEP1_window_inj:
  assumes "length x = length y" "length x \<le> 4" "foldl STEP1 l x = foldl STEP1 l y"
  shows "x = y"
proof -
  let ?z = "replicate (4 - length x) (0 :: byte)"
  have "foldl STEP1 l (x @ ?z) = foldl STEP1 l (y @ ?z)" using assms(3) by simp
  moreover have "foldl STEP1 l w = crc_word (l XOR DecodeFixed32 w)" if "length w = 4" for w
    using crc_word_read [of w l] that by (simp add: ReadUint32LE_def)
  note this [of "x @ ?z"] this [of "y @ ?z"]
  ultimately have "crc_word (l XOR DecodeFixed32 (x @ ?z)) = crc_word (l XOR DecodeFixed32 (y @ ?z))"
    using assms(1,2) by simp
  then have "DecodeFixed32 (x @ ?z) = DecodeFixed32 (y @ ?z)"
    by (blast dest: crc_word_inj xor_left_inj)
  then have "x @ ?z = y @ ?z" using assms(1,2) by (intro DecodeFixed32_inj) auto
  then show ?thesis by simp
qed

lemma crc_window_detected:
  assumes "length x = length y" "length x \<le> 4" "x \<noteq> y"
  shows "crc32c_ref crc (a @ x @ b) \<noteq> crc32c_ref crc (a @ y @ b)"
proof
  assume "crc32c_ref crc (a @ x @ b) = crc32c_ref crc (a @ y @ b)"
  then have "kCRC32Xor XOR foldl STEP1 (foldl STEP1 (foldl STEP1 (crc XOR kCRC32Xor) a) x) b =
      kCRC32Xor XOR foldl STEP1 (foldl STEP1 (foldl STEP1 (crc XOR kCRC32Xor) a) y) b"
    by (simp add: crc32c_ref_def STEP1_eq [symmetric, abs_def] xor.commute)
  then have "foldl STEP1 (foldl STEP1 (crc XOR kCRC32Xor) a) x = foldl STEP1 (foldl STEP1 (crc XOR kCRC32Xor) a) y"
    by (blast dest: xor_left_inj STEP1_state_inj)
  with STEP1_window_inj [OF assms(1,2)] assms(3) show False by blast
qed

section \<open>Properties\<close>

text \<open>
  C11: The table-driven, four-way interleaved CRC routine computes the CRC-32C of the polynomial
  0x82f63b78 one bit at a time, for any data, any starting value and any alignment of the data in
  memory; extending the CRC of one string by another gives the CRC of their concatenation.
\<close>

theorem crc_Extend_correct:
  "crc_Extend address crc data = crc32c_ref crc data \<and>
   crc_Extend address' (crc_Value address a) b = crc_Value address (a @ b)"
  by (simp add: crc_Extend_ref crc_Value_def crc32c_ref_append)

text \<open>Unmasking a masked CRC gives the CRC back, and masking is onto: every stored word is the masked form of one CRC.\<close>

lemma crc_Mask_roundtrip: "crc_Unmask (crc_Mask crc) = crc \<and> crc_Mask (crc_Unmask crc) = crc"
proof
  have "push_bit 17 (drop_bit 17 r OR push_bit 15 r) OR drop_bit 15 (drop_bit 17 r OR push_bit 15 r) = r" for r :: u32
    by (rule bit_word_eqI) (auto simp: bit_simps dest: bit_imp_le_length)
  from this [of "crc - kMaskDelta"] show "crc_Mask (crc_Unmask crc) = crc"
    by (simp add: crc_Unmask_def crc_Mask_def Let_def or.commute)
qed simp

text \<open>
  C20: Any corruption confined to four consecutive bytes changes the CRC: two strings of the same
  length that differ only inside a window of at most four bytes never have the same value.
\<close>

theorem crc_detects_burst:
  assumes "length x = length y" "length x \<le> 4" "x \<noteq> y"
  shows "crc_Value address (a @ x @ b) \<noteq> crc_Value address' (a @ y @ b)"
  using crc_window_detected [OF assms] by (simp add: crc_Value_def crc_Extend_ref)

theorem crc_detects_burst_witness:
  "crc_Value 0 ([1] @ [2, 3] @ [4]) \<noteq> crc_Value 1 ([1] @ [3, 2] @ [4])"
  by (rule crc_detects_burst) simp_all

end
