(* ===== verification/Log_File.thy ===== *)
theory Log_File
  imports Crc32c Filename
begin

text \<open>
  The record log, \<open>kv/db/log_format.h\<close>, \<open>kv/db/log_writer.cpp\<close> and \<open>kv/db/log_reader.cpp\<close>.
  The destination of the writer is the interface \<open>WritableFile\<close>: a record of its operations over
  a state. The source of the reader is a file with its contents and, for every read or skip to
  come, the status the operating system gives it (OK when the list is exhausted). The checksums do
  not depend on the address of the data (theory \<open>Crc32c\<close>), so address 0 is used.
  The theorem: a reader of any prefix of what a writer wrote, such as a crash leaves, returns the
  records that are complete in it and reports no corruption.
\<close>

unbundle bit_operations_syntax

section \<open>The format\<close>

definition kZeroType :: nat where "kZeroType = 0"
definition kFullType :: nat where "kFullType = 1"
definition kFirstType :: nat where "kFirstType = 2"
definition kMiddleType :: nat where "kMiddleType = 3"
definition kLastType :: nat where "kLastType = 4"
definition kMaxRecordType :: nat where "kMaxRecordType = kLastType"
definition kBlockSize :: nat where "kBlockSize = 32768"
definition kHeaderSize :: nat where "kHeaderSize = 4 + 2 + 1"

lemmas record_types = kZeroType_def kFullType_def kFirstType_def kMiddleType_def kLastType_def kMaxRecordType_def

section \<open>The writer\<close>

record 'f WritableFile =
  wf_Append :: "'f \<Rightarrow> bytes \<Rightarrow> status \<times> 'f"
  wf_Flush :: "'f \<Rightarrow> status \<times> 'f"

record 'f LogWriter =
  lw_dest :: 'f
  lw_block_offset :: nat

definition LogWriter_new :: "'f \<Rightarrow> nat \<Rightarrow> 'f LogWriter" where
  "LogWriter_new dest dest_length = \<lparr> lw_dest = dest, lw_block_offset = dest_length mod kBlockSize \<rparr>"

definition type_crc :: "nat \<Rightarrow> u32" where
  "type_crc t = crc_Value 0 [word_of_nat t]"

definition log_header :: "nat \<Rightarrow> bytes \<Rightarrow> bytes" where
  "log_header t data =
     (let crc = crc_Mask (crc_Extend 0 (type_crc t) data);
          len = word_of_nat (length data) :: u64
      in EncodeFixed32 crc @ [ucast (len AND 0xff), ucast (drop_bit 8 len), word_of_nat t])"

definition EmitPhysicalRecord ::
  "'f WritableFile \<Rightarrow> 'f LogWriter \<Rightarrow> nat \<Rightarrow> bytes \<Rightarrow> status \<times> 'f LogWriter" where
  "EmitPhysicalRecord ops w t data =
     (let (s, dest) = wf_Append ops (lw_dest w) (log_header t data);
          (s, dest) =
            (if status_ok s
             then (let (s, dest) = wf_Append ops dest data
                   in if status_ok s then wf_Flush ops dest else (s, dest))
             else (s, dest))
      in (s, w \<lparr> lw_dest := dest, lw_block_offset := lw_block_offset w + kHeaderSize + length data \<rparr>))"

text \<open>Switching to a new block; the status of the padding is ignored.\<close>

definition lw_SwitchBlock :: "'f WritableFile \<Rightarrow> 'f LogWriter \<Rightarrow> 'f LogWriter" where
  "lw_SwitchBlock ops w =
     (let leftover = kBlockSize - lw_block_offset w in
      if leftover < kHeaderSize
      then (let dest = (if leftover > 0 then snd (wf_Append ops (lw_dest w) (replicate leftover 0)) else lw_dest w)
            in w \<lparr> lw_dest := dest, lw_block_offset := 0 \<rparr>)
      else w)"

definition fragment_type :: "bool \<Rightarrow> bool \<Rightarrow> nat" where
  "fragment_type is_begin is_end =
     (if is_begin \<and> is_end then kFullType else if is_begin then kFirstType else if is_end then kLastType else kMiddleType)"

definition fragment_length :: "nat \<Rightarrow> nat \<Rightarrow> nat" where
  "fragment_length block_offset left =
     (let avail = kBlockSize - block_offset - kHeaderSize in if left < avail then left else avail)"

lemma lw_block_offset_Emit [simp]:
  "lw_block_offset (snd (EmitPhysicalRecord ops w t data)) = lw_block_offset w + kHeaderSize + length data"
  by (simp add: EmitPhysicalRecord_def Let_def case_prod_beta)

lemma lw_block_offset_SwitchBlock:
  "lw_block_offset (lw_SwitchBlock ops w) =
    (if kBlockSize - lw_block_offset w < kHeaderSize then 0 else lw_block_offset w)"
  by (simp add: lw_SwitchBlock_def Let_def)

function lw_AddRecord_loop ::
  "'f WritableFile \<Rightarrow> 'f LogWriter \<Rightarrow> bytes \<Rightarrow> bool \<Rightarrow> status \<times> 'f LogWriter" where
  "lw_AddRecord_loop ops w data is_begin =
     (let w1 = lw_SwitchBlock ops w;
          n = fragment_length (lw_block_offset w1) (length data);
          is_end = (length data = n);
          r = EmitPhysicalRecord ops w1 (fragment_type is_begin is_end) (take n data)
      in if status_ok (fst r) \<and> length data - n > 0
         then lw_AddRecord_loop ops (snd r) (drop n data) False
         else r)"
  by pat_completeness auto
termination
proof (relation "measure (\<lambda>(ops, w, data, b). 2 * length data + (if kBlockSize - lw_block_offset w = kHeaderSize then 1 else 0))",
    goal_cases)
  case (2 ops w data b w1 n e r)
  then show ?case
    by (auto simp: lw_block_offset_SwitchBlock fragment_length_def kBlockSize_def kHeaderSize_def Let_def split: if_splits)
qed simp

declare lw_AddRecord_loop.simps [simp del]

definition lw_AddRecord :: "'f WritableFile \<Rightarrow> 'f LogWriter \<Rightarrow> bytes \<Rightarrow> status \<times> 'f LogWriter" where
  "lw_AddRecord ops w data = lw_AddRecord_loop ops w data True"

section \<open>The reader\<close>

record SequentialFile =
  sf_data :: bytes
  sf_outcomes :: "status list"

definition sf_next :: "SequentialFile \<Rightarrow> status" where
  "sf_next f = (case sf_outcomes f of [] \<Rightarrow> OK | s # _ \<Rightarrow> s)"

definition sf_Read :: "SequentialFile \<Rightarrow> nat \<Rightarrow> status \<times> bytes \<times> SequentialFile" where
  "sf_Read f n =
     (let f' = f \<lparr> sf_outcomes := tl (sf_outcomes f) \<rparr> in
      if status_ok (sf_next f) then (OK, take n (sf_data f), f' \<lparr> sf_data := drop n (sf_data f) \<rparr>)
      else (sf_next f, [], f'))"

definition sf_Skip :: "SequentialFile \<Rightarrow> nat \<Rightarrow> status \<times> SequentialFile" where
  "sf_Skip f n =
     (let f' = f \<lparr> sf_outcomes := tl (sf_outcomes f) \<rparr> in
      if status_ok (sf_next f) then (OK, f' \<lparr> sf_data := drop n (sf_data f) \<rparr>)
      else (sf_next f, f'))"

definition kEof :: nat where "kEof = kMaxRecordType + 1"
definition kBadRecord :: nat where "kBadRecord = kMaxRecordType + 2"

text \<open>The reporter, when there is one, is the list of its calls.\<close>

record LogReader =
  lr_file :: SequentialFile
  lr_reporter :: bool
  lr_reports :: "(u64 \<times> status) list"
  lr_checksum :: bool
  lr_buffer :: bytes
  lr_eof :: bool
  lr_last_record_offset :: u64
  lr_end_of_buffer_offset :: u64
  lr_initial_offset :: u64
  lr_resyncing :: bool

definition LogReader_new :: "SequentialFile \<Rightarrow> bool \<Rightarrow> bool \<Rightarrow> u64 \<Rightarrow> LogReader" where
  "LogReader_new file reporter checksum initial_offset =
     \<lparr> lr_file = file, lr_reporter = reporter, lr_reports = [], lr_checksum = checksum, lr_buffer = [],
       lr_eof = False, lr_last_record_offset = 0, lr_end_of_buffer_offset = 0,
       lr_initial_offset = initial_offset, lr_resyncing = (initial_offset > 0) \<rparr>"

definition ReportDrop :: "LogReader \<Rightarrow> u64 \<Rightarrow> status \<Rightarrow> LogReader" where
  "ReportDrop r bytes reason =
     (if lr_reporter r \<and>
         lr_end_of_buffer_offset r - word_of_nat (length (lr_buffer r)) - bytes \<ge> lr_initial_offset r
      then r \<lparr> lr_reports := lr_reports r @ [(bytes, reason)] \<rparr> else r)"

definition ReportCorruption :: "LogReader \<Rightarrow> u64 \<Rightarrow> bytes \<Rightarrow> LogReader" where
  "ReportCorruption r bytes reason = ReportDrop r bytes (status_Corruption reason [])"

definition SkipToInitialBlock :: "LogReader \<Rightarrow> bool \<times> LogReader" where
  "SkipToInitialBlock r =
     (let offset_in_block = lr_initial_offset r mod word_of_nat kBlockSize;
          block_start_location = lr_initial_offset r - offset_in_block;
          block_start_location =
            (if offset_in_block > word_of_nat (kBlockSize - 6)
             then block_start_location + word_of_nat kBlockSize else block_start_location);
          r = r \<lparr> lr_end_of_buffer_offset := block_start_location \<rparr>
      in if block_start_location > 0
         then (let (skip_status, file) = sf_Skip (lr_file r) (unat block_start_location);
                   r = r \<lparr> lr_file := file \<rparr>
               in if \<not> status_ok skip_status then (False, ReportDrop r block_start_location skip_status)
                  else (True, r))
         else (True, r))"

text \<open>The part of \<open>ReadPhysicalRecord\<close> after the buffer holds a header.\<close>

definition lr_ParseRecord :: "LogReader \<Rightarrow> bytes \<Rightarrow> nat \<times> bytes \<times> LogReader" where
  "lr_ParseRecord r fragment =
     (let header = lr_buffer r;
          a = unat (header ! 4);
          b = unat (header ! 5);
          type = unat (scast (header ! 6) :: u32);
          len = a + b * 256
      in if kHeaderSize + len > length (lr_buffer r)
         then (let drop_size = word_of_nat (length (lr_buffer r));
                   r = r \<lparr> lr_buffer := [] \<rparr>
               in if \<not> lr_eof r
                  then (kBadRecord, fragment, ReportCorruption r drop_size (str ''bad record length''))
                  else (kEof, fragment, r))
         else if type = kZeroType \<and> len = 0 then (kBadRecord, fragment, r \<lparr> lr_buffer := [] \<rparr>)
         else if lr_checksum r \<and>
           crc_Value 0 (take (1 + len) (drop 6 header)) \<noteq> crc_Unmask (DecodeFixed32 header)
         then (let drop_size = word_of_nat (length (lr_buffer r));
                   r = r \<lparr> lr_buffer := [] \<rparr>
               in (kBadRecord, fragment, ReportCorruption r drop_size (str ''checksum mismatch'')))
         else (let r = r \<lparr> lr_buffer := remove_prefix (lr_buffer r) (kHeaderSize + len) \<rparr>
               in if lr_end_of_buffer_offset r - word_of_nat (length (lr_buffer r)) -
                     word_of_nat kHeaderSize - word_of_nat len < lr_initial_offset r
                  then (kBadRecord, [], r)
                  else (type, take len (drop kHeaderSize header), r)))"

text \<open>\<open>fragment\<close> is the slice of the caller, which some returns leave as it was.\<close>

function ReadPhysicalRecord :: "LogReader \<Rightarrow> bytes \<Rightarrow> nat \<times> bytes \<times> LogReader" where
  "ReadPhysicalRecord r fragment =
     (if length (lr_buffer r) < kHeaderSize
      then if \<not> lr_eof r
           then (let rd = sf_Read (lr_file r) kBlockSize;
                     status = fst rd; buffer = fst (snd rd);
                     r1 = r \<lparr> lr_buffer := buffer, lr_file := snd (snd rd),
                              lr_end_of_buffer_offset := lr_end_of_buffer_offset r + word_of_nat (length buffer) \<rparr>
                 in if \<not> status_ok status
                    then (kEof, fragment,
                      (ReportDrop (r1 \<lparr> lr_buffer := [] \<rparr>) (word_of_nat kBlockSize) status) \<lparr> lr_eof := True \<rparr>)
                    else if length buffer < kBlockSize
                    then ReadPhysicalRecord (r1 \<lparr> lr_eof := True \<rparr>) fragment
                    else ReadPhysicalRecord r1 fragment)
           else (kEof, fragment, r \<lparr> lr_buffer := [] \<rparr>)
      else lr_ParseRecord r fragment)"
  by pat_completeness auto
termination
  by (relation "measure (\<lambda>(r, f). if length (lr_buffer r) < kHeaderSize \<and> \<not> lr_eof r then 1 else 0)")
    (auto simp: kHeaderSize_def kBlockSize_def)

declare ReadPhysicalRecord.simps [simp del]

definition lr_size :: "LogReader \<Rightarrow> nat" where
  "lr_size r = length (sf_data (lr_file r)) + length (lr_buffer r)"

lemma ReportDrop_simps [simp]:
  "lr_file (ReportDrop r n s) = lr_file r" "lr_buffer (ReportDrop r n s) = lr_buffer r"
  "lr_size (ReportDrop r n s) = lr_size r"
  by (simp_all add: ReportDrop_def lr_size_def)

lemma lr_ParseRecord_size:
  "lr_ParseRecord r f = (t, f', r') \<Longrightarrow> kHeaderSize \<le> length (lr_buffer r) \<Longrightarrow> lr_size r' < lr_size r"
  by (auto simp: lr_ParseRecord_def Let_def lr_size_def ReportCorruption_def kHeaderSize_def remove_prefix_def
      split: if_splits)

lemma sf_Read_size: "sf_Read f n = (s, b, f') \<Longrightarrow> length (sf_data f') + length b \<le> length (sf_data f)"
  by (auto simp: sf_Read_def Let_def split: if_splits)

lemma ReadPhysicalRecord_size:
  "ReadPhysicalRecord r f = (t, f', r') \<Longrightarrow> t \<noteq> kEof \<Longrightarrow> lr_size r' < lr_size r"
proof (induction r f rule: ReadPhysicalRecord.induct)
  case (1 r f)
  obtain s b fl where rd: "sf_Read (lr_file r) kBlockSize = (s, b, fl)" by (cases "sf_Read (lr_file r) kBlockSize")
  let ?r1 = "r \<lparr> lr_buffer := b, lr_file := fl,
    lr_end_of_buffer_offset := lr_end_of_buffer_offset r + word_of_nat (length b) \<rparr>"
  consider (parse) "\<not> length (lr_buffer r) < kHeaderSize"
    | (eof) "length (lr_buffer r) < kHeaderSize" "lr_eof r"
    | (fail) "length (lr_buffer r) < kHeaderSize" "\<not> lr_eof r" "\<not> status_ok s"
    | (part) "length (lr_buffer r) < kHeaderSize" "\<not> lr_eof r" "status_ok s" "length b < kBlockSize"
    | (full) "length (lr_buffer r) < kHeaderSize" "\<not> lr_eof r" "status_ok s" "\<not> length b < kBlockSize"
    by blast
  then show ?case
  proof cases
    case parse
    with 1(3) lr_ParseRecord_size show ?thesis by (subst (asm) ReadPhysicalRecord.simps) auto
  next
    case part
    then have "lr_size r' < lr_size (?r1 \<lparr> lr_eof := True \<rparr>)"
      using 1(1) [OF part(1,2) refl refl refl refl] 1(3,4) rd by (simp add: ReadPhysicalRecord.simps [of r])
    with sf_Read_size [OF rd] show ?thesis by (simp add: lr_size_def)
  next
    case full
    then have "lr_size r' < lr_size ?r1"
      using 1(2) [OF full(1,2) refl refl refl refl] 1(3,4) rd by (simp add: ReadPhysicalRecord.simps [of r])
    with sf_Read_size [OF rd] show ?thesis by (simp add: lr_size_def)
  qed (use 1(3,4) rd in \<open>simp_all add: ReadPhysicalRecord.simps [of r]\<close>)
qed

lemma ReadPhysicalRecord_less:
  "fst (ReadPhysicalRecord r f) \<noteq> kEof \<Longrightarrow> lr_size (snd (snd (ReadPhysicalRecord r f))) < lr_size r"
  using ReadPhysicalRecord_size [of r f] by (metis prod.collapse)

lemma lr_size_resyncing [simp]: "lr_size (r \<lparr> lr_resyncing := b \<rparr>) = lr_size r"
  by (simp add: lr_size_def)

function lr_ReadRecord_loop :: "LogReader \<Rightarrow> bytes \<Rightarrow> bytes \<Rightarrow> bool \<Rightarrow> u64 \<Rightarrow> bytes option \<times> LogReader" where
  "lr_ReadRecord_loop r fragment0 scratch in_fragmented_record prospective_record_offset =
     (let p = ReadPhysicalRecord r fragment0;
          record_type = fst p; fragment = fst (snd p); r1 = snd (snd p);
          physical_record_offset = lr_end_of_buffer_offset r1 - word_of_nat (length (lr_buffer r1)) -
            word_of_nat kHeaderSize - word_of_nat (length fragment);
          r2 = r1 \<lparr> lr_resyncing := False \<rparr>
      in if lr_resyncing r1 \<and> record_type = kMiddleType
         then lr_ReadRecord_loop r1 fragment scratch in_fragmented_record prospective_record_offset
         else if lr_resyncing r1 \<and> record_type = kLastType
         then lr_ReadRecord_loop r2 fragment scratch in_fragmented_record prospective_record_offset
         else if record_type = kFullType
         then (let r3 = (if in_fragmented_record \<and> scratch \<noteq> []
                         then ReportCorruption r2 (word_of_nat (length scratch)) (str ''partial record without end(1)'')
                         else r2)
               in (Some fragment, r3 \<lparr> lr_last_record_offset := physical_record_offset \<rparr>))
         else if record_type = kFirstType
         then (let r3 = (if in_fragmented_record \<and> scratch \<noteq> []
                         then ReportCorruption r2 (word_of_nat (length scratch)) (str ''partial record without end(2)'')
                         else r2)
               in lr_ReadRecord_loop r3 fragment fragment True physical_record_offset)
         else if record_type = kMiddleType
         then if \<not> in_fragmented_record
              then lr_ReadRecord_loop
                (ReportCorruption r2 (word_of_nat (length fragment)) (str ''missing start of fragmented record(1)''))
                fragment scratch in_fragmented_record prospective_record_offset
              else lr_ReadRecord_loop r2 fragment (scratch @ fragment) in_fragmented_record prospective_record_offset
         else if record_type = kLastType
         then if \<not> in_fragmented_record
              then lr_ReadRecord_loop
                (ReportCorruption r2 (word_of_nat (length fragment)) (str ''missing start of fragmented record(2)''))
                fragment scratch in_fragmented_record prospective_record_offset
              else (Some (scratch @ fragment), r2 \<lparr> lr_last_record_offset := prospective_record_offset \<rparr>)
         else if record_type = kEof then (None, r2)
         else if record_type = kBadRecord
         then if in_fragmented_record
              then lr_ReadRecord_loop
                (ReportCorruption r2 (word_of_nat (length scratch)) (str ''error in middle of record''))
                fragment [] False prospective_record_offset
              else lr_ReadRecord_loop r2 fragment scratch in_fragmented_record prospective_record_offset
         else lr_ReadRecord_loop
           (ReportCorruption r2
              (word_of_nat (length fragment + (if in_fragmented_record then length scratch else 0)))
              (str ''unknown record type '' @ decimal record_type))
           fragment [] False prospective_record_offset)"
  by pat_completeness auto
termination
  by (relation "measure (\<lambda>(r, _). lr_size r)")
    (auto simp: record_types kEof_def kBadRecord_def ReportCorruption_def intro!: ReadPhysicalRecord_less)

declare lr_ReadRecord_loop.simps [simp del]

definition lr_ReadRecord :: "LogReader \<Rightarrow> bytes option \<times> LogReader" where
  "lr_ReadRecord r =
     (if lr_last_record_offset r < lr_initial_offset r
      then (case SkipToInitialBlock r of
              (False, r) \<Rightarrow> (None, r)
            | (True, r) \<Rightarrow> lr_ReadRecord_loop r [] [] False 0)
      else lr_ReadRecord_loop r [] [] False 0)"

section \<open>The layout of a log\<close>

definition phys :: "nat \<Rightarrow> bytes \<Rightarrow> bytes" where
  "phys t f = log_header t f @ f"

lemma length_log_header [simp]: "length (log_header t f) = kHeaderSize"
  by (simp add: log_header_def kHeaderSize_def Let_def)

lemma length_phys [simp]: "length (phys t f) = kHeaderSize + length f"
  by (simp add: phys_def)

text \<open>The padding before a physical record at an offset, and the offset it starts at.\<close>

definition pad_at :: "nat \<Rightarrow> nat" where
  "pad_at off = (if kBlockSize - off < kHeaderSize then kBlockSize - off else 0)"

definition start_at :: "nat \<Rightarrow> nat" where
  "start_at off = (if kBlockSize - off < kHeaderSize then 0 else off)"

fun log_layout :: "nat \<Rightarrow> (nat \<times> bytes) list \<Rightarrow> bytes" where
  "log_layout off [] = []"
| "log_layout off ((t, f) # P) =
     replicate (pad_at off) 0 @ phys t f @ log_layout (start_at off + kHeaderSize + length f) P"

fun log_end :: "nat \<Rightarrow> (nat \<times> bytes) list \<Rightarrow> nat" where
  "log_end off [] = off"
| "log_end off ((t, f) # P) = log_end (start_at off + kHeaderSize + length f) P"

text \<open>Physical records fit their blocks and have the types the writer uses.\<close>

fun log_fits :: "nat \<Rightarrow> (nat \<times> bytes) list \<Rightarrow> bool" where
  "log_fits off [] \<longleftrightarrow> True"
| "log_fits off ((t, f) # P) \<longleftrightarrow>
     1 \<le> t \<and> t \<le> 4 \<and> start_at off + kHeaderSize + length f \<le> kBlockSize \<and>
     log_fits (start_at off + kHeaderSize + length f) P"

lemma log_layout_append: "log_layout off (P @ Q) = log_layout off P @ log_layout (log_end off P) Q"
  by (induction off P rule: log_layout.induct) simp_all

lemma log_end_append: "log_end off (P @ Q) = log_end (log_end off P) Q"
  by (induction off P rule: log_layout.induct) simp_all

lemma log_fits_append: "log_fits off (P @ Q) \<longleftrightarrow> log_fits off P \<and> log_fits (log_end off P) Q"
  by (induction off P rule: log_layout.induct) auto

text \<open>The fragments of one record.\<close>

fun frag_seq :: "bool \<Rightarrow> (nat \<times> bytes) list \<Rightarrow> bytes \<Rightarrow> bool" where
  "frag_seq b [] d \<longleftrightarrow> False"
| "frag_seq b [(t, f)] d \<longleftrightarrow> t = fragment_type b True \<and> f = d"
| "frag_seq b ((t, f) # P) d \<longleftrightarrow> t = fragment_type b False \<and> take (length f) d = f \<and> frag_seq False P (drop (length f) d)"

section \<open>What the writer writes\<close>

text \<open>A file in memory that never fails.\<close>

definition string_file :: "bytes WritableFile" where
  "string_file = \<lparr> wf_Append = (\<lambda>f d. (OK, f @ d)), wf_Flush = (\<lambda>f. (OK, f)) \<rparr>"

lemma Emit_string_file:
  "EmitPhysicalRecord string_file w t d =
    (OK, w \<lparr> lw_dest := lw_dest w @ phys t d, lw_block_offset := lw_block_offset w + kHeaderSize + length d \<rparr>)"
  by (simp add: EmitPhysicalRecord_def string_file_def status_ok_def phys_def Let_def)

lemma Switch_string_file:
  "lw_SwitchBlock string_file w =
    w \<lparr> lw_dest := lw_dest w @ replicate (pad_at (lw_block_offset w)) 0, lw_block_offset := start_at (lw_block_offset w) \<rparr>"
  by (simp add: lw_SwitchBlock_def string_file_def pad_at_def start_at_def Let_def)

lemma fragment_type_range: "1 \<le> fragment_type b e \<and> fragment_type b e \<le> 4"
  by (simp add: fragment_type_def record_types)

lemma fragment_fits:
  "start_at off + kHeaderSize + fragment_length (start_at off) n \<le> kBlockSize" "fragment_length o' n \<le> n"
  by (auto simp: start_at_def fragment_length_def kBlockSize_def kHeaderSize_def Let_def)

lemma lw_AddRecord_loop_writes:
  "\<exists>P. lw_AddRecord_loop string_file w d b =
      (OK, w \<lparr> lw_dest := lw_dest w @ log_layout (lw_block_offset w) P, lw_block_offset := log_end (lw_block_offset w) P \<rparr>) \<and>
    frag_seq b P d \<and> log_fits (lw_block_offset w) P"
proof (induction "2 * length d + (if kBlockSize - lw_block_offset w = kHeaderSize then 1 else 0)"
    arbitrary: w d b rule: less_induct)
  case less
  let ?o = "lw_block_offset w"
  define n where "n = fragment_length (start_at ?o) (length d)"
  let ?t = "fragment_type b (length d = n)"
  let ?w = "w \<lparr> lw_dest := lw_dest w @ replicate (pad_at ?o) 0 @ phys ?t (take n d),
    lw_block_offset := start_at ?o + kHeaderSize + n \<rparr>"
  have n: "n \<le> length d" "start_at ?o + kHeaderSize + n \<le> kBlockSize"
    using fragment_fits(1) [of ?o "length d"] fragment_fits(2) [of "start_at ?o" "length d"] by (auto simp: n_def)
  have step: "lw_AddRecord_loop string_file w d b =
      (if length d - n > 0 then lw_AddRecord_loop string_file ?w (drop n d) False else (OK, ?w))"
    by (subst lw_AddRecord_loop.simps)
      (use n(1) in \<open>simp add: Switch_string_file Emit_string_file status_ok_def Let_def n_def [symmetric] min_absorb2\<close>)
  show ?case
  proof (cases "length d - n > 0")
    case False
    then have "n = length d" using n(1) by simp
    then show ?thesis
      using step n fragment_type_range
      by (intro exI [of _ "[(fragment_type b True, d)]"]) simp
  next
    case True
    then have "2 * length (drop n d) + (if kBlockSize - lw_block_offset ?w = kHeaderSize then 1 else 0) <
        2 * length d + (if kBlockSize - ?o = kHeaderSize then 1 else 0)"
      by (auto simp: n_def fragment_length_def start_at_def kBlockSize_def kHeaderSize_def Let_def split: if_splits)
    from less [OF this, of False] obtain P where
      P: "lw_AddRecord_loop string_file ?w (drop n d) False =
        (OK, ?w \<lparr> lw_dest := lw_dest ?w @ log_layout (lw_block_offset ?w) P, lw_block_offset := log_end (lw_block_offset ?w) P \<rparr>)"
      "frag_seq False P (drop n d)" "log_fits (lw_block_offset ?w) P"
      by blast
    obtain p P' where "P = p # P'" using P(2) by (cases P) auto
    then show ?thesis
      using step True P n fragment_type_range
      by (intro exI [of _ "(fragment_type b False, take n d) # P"]) (simp add: min_absorb2)
  qed
qed

fun lw_run :: "'f WritableFile \<Rightarrow> 'f LogWriter \<Rightarrow> bytes list \<Rightarrow> 'f LogWriter" where
  "lw_run ops w [] = w"
| "lw_run ops w (d # ds) = lw_run ops (snd (lw_AddRecord ops w d)) ds"

definition log_of :: "bytes list \<Rightarrow> bytes" where
  "log_of ds = lw_dest (lw_run string_file (LogWriter_new [] 0) ds)"

section \<open>What the reader reads\<close>

text \<open>The reader is at an offset of the current block with a rest of the file to read.\<close>

definition lr_at :: "LogReader \<Rightarrow> nat \<Rightarrow> bytes \<Rightarrow> bool" where
  "lr_at r off R \<longleftrightarrow>
     R = lr_buffer r @ sf_data (lr_file r) \<and> sf_outcomes (lr_file r) = [] \<and> off \<le> kBlockSize \<and>
     (if lr_eof r then sf_data (lr_file r) = [] \<and> length (lr_buffer r) \<le> kBlockSize - off
      else length (lr_buffer r) = kBlockSize - off) \<and>
     lr_initial_offset r = 0 \<and> \<not> lr_resyncing r \<and> lr_reports r = []"

lemma header_fields:
  assumes "1 \<le> t" "t \<le> 4" "length f \<le> kBlockSize"
  shows "unat (phys t f ! 4) + unat (phys t f ! 5) * 256 = length f"
    and "unat (scast (phys t f ! 6) :: u32) = t"
    and "drop 6 (phys t f @ R) = word_of_nat t # f @ R"
    and "DecodeFixed32 (phys t f @ R) = crc_Mask (crc_Extend 0 (type_crc t) f)"
proof -
  let ?len = "word_of_nat (length f) :: u64"
  have lt: "length f < 65536" using assms(3) by (simp add: kBlockSize_def)
  have u: "unat ?len = length f" using lt by (simp add: unat_of_nat take_bit_nat_eq_self)
  have "unat (ucast (?len AND 0xff) :: byte) = length f mod 256"
  proof -
    have m: "?len AND 0xff = take_bit 8 ?len" by (simp add: take_bit_eq_mask mask_eq_exp_minus_1)
    show ?thesis unfolding m by (simp add: unsigned_ucast_eq unsigned_take_bit_eq u take_bit_eq_mod [where 'a = nat])
  qed
  moreover have "unat (ucast (drop_bit 8 ?len) :: byte) = length f div 256"
    using lt by (simp add: unsigned_ucast_eq unat_drop_bit u take_bit_nat_eq_self)
  ultimately show "unat (phys t f ! 4) + unat (phys t f ! 5) * 256 = length f"
    by (simp add: phys_def log_header_def Let_def nth_append)
  have "t \<in> {1, 2, 3, 4}" using assms by auto
  then show "unat (scast (phys t f ! 6) :: u32) = t"
    by (auto simp: phys_def log_header_def Let_def nth_append)
  show "drop 6 (phys t f @ R) = word_of_nat t # f @ R"
    by (simp add: phys_def log_header_def Let_def)
  show "DecodeFixed32 (phys t f @ R) = crc_Mask (crc_Extend 0 (type_crc t) f)"
    by (simp add: phys_def log_header_def Let_def)
qed

lemma ParseRecord_phys:
  assumes "lr_at r off (phys t f @ R)" "1 \<le> t" "t \<le> 4" "off + kHeaderSize + length f \<le> kBlockSize"
  shows "\<exists>r'. ReadPhysicalRecord r fr = (t, f, r') \<and> lr_at r' (off + kHeaderSize + length f) R"
proof -
  have "kHeaderSize + length f \<le> length (lr_buffer r)"
  proof (cases "lr_eof r")
    case True
    then have "lr_buffer r = phys t f @ R" using assms(1) by (simp add: lr_at_def)
    then show ?thesis by simp
  next
    case False
    then show ?thesis using assms(1,4) by (simp add: lr_at_def)
  qed
  then obtain B where B: "lr_buffer r = phys t f @ B" "R = B @ sf_data (lr_file r)"
    using assms(1) by (auto simp: lr_at_def append_eq_append_conv_if intro: that [of "drop (length (phys t f)) (lr_buffer r)"])
  note h = header_fields [OF assms(2,3), of f]
  have len: "length f \<le> kBlockSize" using assms(4) by simp
  have crc: "crc_Value 0 (take (1 + length f) (drop 6 (phys t f @ B))) = crc_Unmask (DecodeFixed32 (phys t f @ B))"
    using h(3) [OF len, of B] h(4) [OF len, of B]
    by (simp add: crc_Value_def type_crc_def crc_Extend_ref crc32c_ref_append)
  have fields: "unat ((phys t f @ B) ! 4) + unat ((phys t f @ B) ! 5) * 256 = length f"
    "unat (scast ((phys t f @ B) ! 6) :: u32) = t"
    using h(1,2) [OF len] by (simp_all add: nth_append kHeaderSize_def)
  have "lr_ParseRecord r fr = (t, f, r \<lparr> lr_buffer := B \<rparr>)"
    using assms(1,2) crc fields
    by (simp add: lr_ParseRecord_def Let_def B(1) kZeroType_def lr_at_def remove_prefix_def)
      (simp add: phys_def)
  moreover have "lr_at (r \<lparr> lr_buffer := B \<rparr>) (off + kHeaderSize + length f) R"
    using assms(1,4) B by (auto simp: lr_at_def)
  moreover have "\<not> length (lr_buffer r) < kHeaderSize" using B by simp
  ultimately show ?thesis by (subst ReadPhysicalRecord.simps) auto
qed

text \<open>A physical record that the file ends in.\<close>

lemma ParseRecord_cut:
  assumes "lr_at r off (take n (phys t f))" "n < kHeaderSize + length f" "1 \<le> t" "t \<le> 4"
    "off + kHeaderSize + length f \<le> kBlockSize"
  shows "\<exists>r'. ReadPhysicalRecord r fr = (kEof, fr, r') \<and> lr_reports r' = []"
proof -
  have eof: "lr_eof r"
  proof (rule ccontr)
    assume "\<not> lr_eof r"
    then have "length (take n (phys t f)) \<ge> kBlockSize - off" using assms(1) by (auto simp: lr_at_def)
    with assms(2,5) show False by simp
  qed
  then have B: "lr_buffer r = take n (phys t f)" using assms(1) by (simp add: lr_at_def)
  show ?thesis
  proof (cases "n < kHeaderSize")
    case True
    with eof B assms(1) show ?thesis by (subst ReadPhysicalRecord.simps) (simp add: lr_at_def)
  next
    case False
    have "unat (take n (phys t f) ! 4) + unat (take n (phys t f) ! 5) * 256 = length f"
      using header_fields(1) [OF assms(3,4), of f] assms(5) False by (simp add: kHeaderSize_def)
    then have "lr_ParseRecord r fr = (kEof, fr, r \<lparr> lr_buffer := [] \<rparr>)"
      using B eof assms(2) by (simp add: lr_ParseRecord_def Let_def)
    then show ?thesis
      using False B assms(1,2) by (subst ReadPhysicalRecord.simps) (simp add: lr_at_def)
  qed
qed

text \<open>At the end of a block the rest is read from the next one.\<close>

lemma ReadPhysical_refill:
  assumes "lr_at r off R" "kBlockSize - off < kHeaderSize"
  shows "if length R \<le> kBlockSize - off
    then \<exists>r'. ReadPhysicalRecord r fr = (kEof, fr, r') \<and> lr_reports r' = []
    else \<exists>r1. ReadPhysicalRecord r fr = ReadPhysicalRecord r1 fr \<and> lr_at r1 0 (drop (kBlockSize - off) R)"
proof (cases "lr_eof r")
  case True
  then have "length R \<le> kBlockSize - off" "R = lr_buffer r" using assms(1) by (auto simp: lr_at_def)
  with True assms show ?thesis by (subst ReadPhysicalRecord.simps) (simp add: lr_at_def)
next
  case False
  let ?D = "sf_data (lr_file r)"
  have R: "R = lr_buffer r @ ?D" "length (lr_buffer r) = kBlockSize - off" "sf_outcomes (lr_file r) = []"
    using False assms(1) by (auto simp: lr_at_def)
  define r0 where "r0 = r \<lparr> lr_buffer := take kBlockSize ?D, lr_file := \<lparr> sf_data = drop kBlockSize ?D, sf_outcomes = [] \<rparr>,
    lr_end_of_buffer_offset := lr_end_of_buffer_offset r + word_of_nat (length (take kBlockSize ?D)) \<rparr>"
  define r1 where "r1 = (if length (take kBlockSize ?D) < kBlockSize then r0 \<lparr> lr_eof := True \<rparr> else r0)"
  have "sf_Read (lr_file r) kBlockSize = (OK, take kBlockSize ?D, \<lparr> sf_data = drop kBlockSize ?D, sf_outcomes = [] \<rparr>)"
    using R(3) by (simp add: sf_Read_def sf_next_def status_ok_def Let_def)
  then have step: "ReadPhysicalRecord r fr = ReadPhysicalRecord r1 fr"
    using False R(2) assms(2)
    by (subst ReadPhysicalRecord.simps) (simp add: status_ok_def r1_def Let_def r0_def)
  have at: "lr_at r1 0 (drop (kBlockSize - off) R)"
    using assms(1) R False by (auto simp: lr_at_def r1_def r0_def)
  show ?thesis
  proof (cases "?D = []")
    case True
    then have "lr_buffer r1 = []" "lr_eof r1" "lr_reports r1 = []"
      using assms(1) by (simp_all add: r1_def r0_def kBlockSize_def lr_at_def)
    then have "ReadPhysicalRecord r1 fr = (kEof, fr, r1 \<lparr> lr_buffer := [] \<rparr>)"
      by (subst ReadPhysicalRecord.simps) (simp add: kHeaderSize_def)
    with step True R \<open>lr_reports r1 = []\<close> show ?thesis by simp
  next
    case False
    with step at R show ?thesis by auto
  qed
qed

lemma ReadPhysical_empty:
  assumes "lr_at r off []"
  shows "\<exists>r'. ReadPhysicalRecord r fr = (kEof, fr, r') \<and> lr_reports r' = []"
proof (cases "lr_eof r")
  case True
  with assms show ?thesis by (subst ReadPhysicalRecord.simps) (simp add: lr_at_def kHeaderSize_def)
next
  case False
  with assms have "kBlockSize - off < kHeaderSize" by (auto simp: lr_at_def kHeaderSize_def)
  from ReadPhysical_refill [OF assms this, of fr] show ?thesis by simp
qed

text \<open>One physical record of a layout, of which the file may hold only a prefix.\<close>

lemma ReadPhysical_layout:
  assumes at: "lr_at r off (take n (log_layout off ((t, f) # P)))" and fits: "log_fits off ((t, f) # P)"
  shows "if pad_at off + kHeaderSize + length f \<le> n
    then \<exists>r'. ReadPhysicalRecord r fr = (t, f, r') \<and>
      lr_at r' (start_at off + kHeaderSize + length f)
        (take (n - (pad_at off + kHeaderSize + length f)) (log_layout (start_at off + kHeaderSize + length f) P))
    else \<exists>r'. ReadPhysicalRecord r fr = (kEof, fr, r') \<and> lr_reports r' = []"
proof -
  let ?o = "start_at off" and ?p = "pad_at off"
  let ?L = "log_layout (?o + kHeaderSize + length f) P"
  have main: "if kHeaderSize + length f \<le> k
      then \<exists>r'. ReadPhysicalRecord r1 fr = (t, f, r') \<and>
        lr_at r' (?o + kHeaderSize + length f) (take (k - (kHeaderSize + length f)) ?L)
      else \<exists>r'. ReadPhysicalRecord r1 fr = (kEof, fr, r') \<and> lr_reports r' = []"
    if "lr_at r1 ?o (take k (phys t f @ ?L))" for r1 k
  proof (cases "kHeaderSize + length f \<le> k")
    case True
    then have "take k (phys t f @ ?L) = phys t f @ take (k - (kHeaderSize + length f)) ?L" by simp
    with True that fits ParseRecord_phys [of r1 ?o t f _ fr] show ?thesis by simp
  next
    case False
    then have "take k (phys t f @ ?L) = take k (phys t f)" by simp
    with False that fits ParseRecord_cut [of r1 ?o k t f fr] show ?thesis by simp
  qed
  show ?thesis
  proof (cases "kBlockSize - off < kHeaderSize")
    case False
    then have "?p = 0" "?o = off" by (simp_all add: pad_at_def start_at_def)
    then show ?thesis using main [of r n] at by (simp split: if_splits)
  next
    case True
    then have p: "?p = kBlockSize - off" "?o = 0" by (simp_all add: pad_at_def start_at_def)
    let ?R = "take n (log_layout off ((t, f) # P))"
    have d: "drop ?p ?R = take (n - ?p) (phys t f @ ?L)"
      unfolding log_layout.simps drop_take by simp
    note refill = ReadPhysical_refill [OF at True, of fr]
    show ?thesis
    proof (cases "length ?R \<le> ?p")
      case le: True
      then have "n \<le> ?p" by (simp add: kHeaderSize_def)
      then have "\<not> ?p + kHeaderSize + length f \<le> n" by (simp add: kHeaderSize_def)
      with refill le p show ?thesis by simp
    next
      case gt: False
      then obtain r1 where r1: "ReadPhysicalRecord r fr = ReadPhysicalRecord r1 fr" "lr_at r1 0 (drop ?p ?R)"
        using refill p by auto
      have iff: "?p + kHeaderSize + length f \<le> n \<longleftrightarrow> kHeaderSize + length f \<le> n - ?p"
        by (auto simp: kHeaderSize_def)
      have diff: "n - (?p + kHeaderSize + length f) = n - ?p - (kHeaderSize + length f)" by simp
      have "lr_at r1 ?o (take (n - ?p) (phys t f @ ?L))" using r1(2) p(2) d by (simp only:)
      from main [OF this] show ?thesis unfolding iff diff r1(1) .
    qed
  qed
qed

lemma length_log_layout_Cons:
  "length (log_layout off ((t, f) # P)) =
    pad_at off + kHeaderSize + length f + length (log_layout (start_at off + kHeaderSize + length f) P)"
  by simp

text \<open>One record of a layout.\<close>

lemma ReadRecord_loop_frags:
  assumes "frag_seq b P d" "lr_at r off (take n (log_layout off (P @ Q)))" "log_fits off (P @ Q)" "b \<longrightarrow> scratch = []"
  shows "if length (log_layout off P) \<le> n
    then \<exists>r'. lr_ReadRecord_loop r fr scratch (\<not> b) pro = (Some (scratch @ d), r') \<and>
      lr_at r' (log_end off P) (take (n - length (log_layout off P)) (log_layout (log_end off P) Q))
    else \<exists>r'. lr_ReadRecord_loop r fr scratch (\<not> b) pro = (None, r') \<and> lr_reports r' = []"
  using assms
proof (induction P arbitrary: b d r off n fr scratch pro)
  case (Cons p P)
  obtain t f where p: "p = (t, f)" by (cases p)
  let ?c = "pad_at off + kHeaderSize + length f" and ?o = "start_at off + kHeaderSize + length f"
  have fits: "log_fits off ((t, f) # (P @ Q))" using Cons.prems(3) p by simp
  note phys = ReadPhysical_layout [OF Cons.prems(2) [unfolded append_Cons p] fits, of fr]
  show ?case
  proof (cases "?c \<le> n")
    case False
    then obtain r' where "ReadPhysicalRecord r fr = (kEof, fr, r')" "lr_reports r' = []" using phys by auto
    then have "lr_ReadRecord_loop r fr scratch (\<not> b) pro = (None, r' \<lparr> lr_resyncing := False \<rparr>)"
      by (subst lr_ReadRecord_loop.simps) (simp add: record_types kEof_def Let_def)
    with False p \<open>lr_reports r' = []\<close> show ?thesis by simp
  next
    case True
    then obtain r1 where r1: "ReadPhysicalRecord r fr = (t, f, r1)" "lr_at r1 ?o (take (n - ?c) (log_layout ?o (P @ Q)))"
      using phys by auto
    then have re: "\<not> lr_resyncing r1" by (simp add: lr_at_def)
    define r2 where "r2 = r1 \<lparr> lr_resyncing := False \<rparr>"
    have r2: "lr_at r2 ?o (take (n - ?c) (log_layout ?o (P @ Q)))" using r1(2) by (simp add: r2_def lr_at_def)
    show ?thesis
    proof (cases "P = []")
      case Nil: True
      then have "t = fragment_type b True" "f = d" using Cons.prems(1) p by auto
      then have "\<exists>q. lr_ReadRecord_loop r fr scratch (\<not> b) pro =
          (Some (scratch @ d), r2 \<lparr> lr_last_record_offset := q \<rparr>)"
        using r1(1) re Cons.prems(4)
        by (subst lr_ReadRecord_loop.simps) (auto simp: record_types fragment_type_def r2_def Let_def)
      moreover have "lr_at (r2 \<lparr> lr_last_record_offset := q \<rparr>) ?o (take (n - ?c) (log_layout ?o Q))" for q
        using r2 Nil by (simp add: lr_at_def)
      ultimately show ?thesis using True Nil p by (auto simp: add.assoc)
    next
      case False
      then obtain p' P' where P: "P = p' # P'" by (cases P) auto
      have seq: "t = fragment_type b False" "take (length f) d = f" "frag_seq False P (drop (length f) d)"
        using Cons.prems(1) p P by auto
      have d: "scratch @ d = (scratch @ f) @ drop (length f) d" using seq(2) by (metis append.assoc append_take_drop_id)
      have "\<exists>q. lr_ReadRecord_loop r fr scratch (\<not> b) pro = lr_ReadRecord_loop r2 f (scratch @ f) (\<not> False) q"
        using r1(1) re Cons.prems(4) seq(1)
        by (subst lr_ReadRecord_loop.simps) (auto simp: record_types fragment_type_def r2_def Let_def)
      then obtain q where q: "lr_ReadRecord_loop r fr scratch (\<not> b) pro = lr_ReadRecord_loop r2 f (scratch @ f) (\<not> False) q"
        by blast
      have iff: "length (log_layout off (p # P)) \<le> n \<longleftrightarrow> length (log_layout ?o P) \<le> n - ?c"
        "n - length (log_layout off (p # P)) = n - ?c - length (log_layout ?o P)"
        "log_end off (p # P) = log_end ?o P"
        using True p by auto
      have "log_fits ?o (P @ Q)" using fits by simp
      from Cons.IH [OF seq(3) r2 this, of "scratch @ f" f q] show ?thesis
        unfolding q iff d by simp
    qed
  qed
qed simp

lemma lr_ReadRecord_frags:
  assumes "frag_seq True P d" "lr_at r off (take n (log_layout off (P @ Q)))" "log_fits off (P @ Q)"
  shows "if length (log_layout off P) \<le> n
    then \<exists>r'. lr_ReadRecord r = (Some d, r') \<and>
      lr_at r' (log_end off P) (take (n - length (log_layout off P)) (log_layout (log_end off P) Q))
    else \<exists>r'. lr_ReadRecord r = (None, r') \<and> lr_reports r' = []"
proof -
  have "lr_ReadRecord r = lr_ReadRecord_loop r [] [] (\<not> True) 0"
    using assms(2) by (simp add: lr_ReadRecord_def lr_at_def)
  with ReadRecord_loop_frags [OF assms, of "[]" "[]" 0, OF impI [OF refl]] show ?thesis
    by (simp only: append_Nil simp_thms)
qed

section \<open>Whole logs\<close>

lemma lw_run_layout:
  "\<exists>Ps. list_all2 (frag_seq True) Ps ds \<and> log_fits (lw_block_offset w) (concat Ps) \<and>
    (\<forall>k. lw_dest (lw_run string_file w (take k ds)) = lw_dest w @ log_layout (lw_block_offset w) (concat (take k Ps)))"
proof (induction ds arbitrary: w)
  case (Cons d ds)
  obtain P where P: "lw_AddRecord string_file w d =
      (OK, w \<lparr> lw_dest := lw_dest w @ log_layout (lw_block_offset w) P, lw_block_offset := log_end (lw_block_offset w) P \<rparr>)"
    "frag_seq True P d" "log_fits (lw_block_offset w) P"
    using lw_AddRecord_loop_writes [of w d True] by (auto simp: lw_AddRecord_def)
  from Cons.IH [of "snd (lw_AddRecord string_file w d)"] obtain Ps where
    Ps: "list_all2 (frag_seq True) Ps ds" "log_fits (log_end (lw_block_offset w) P) (concat Ps)"
    "\<And>k. lw_dest (lw_run string_file (snd (lw_AddRecord string_file w d)) (take k ds)) =
      (lw_dest w @ log_layout (lw_block_offset w) P) @ log_layout (log_end (lw_block_offset w) P) (concat (take k Ps))"
    using P(1) by auto
  have "lw_dest (lw_run string_file w (take k (d # ds))) =
      lw_dest w @ log_layout (lw_block_offset w) (concat (take k (P # Ps)))" for k
    using Ps(3) by (cases k) (simp_all add: log_layout_append)
  then show ?case
    using P Ps by (intro exI [of _ "P # Ps"]) (simp add: log_fits_append)
qed simp

text \<open>A client that reads a number of times.\<close>

fun lr_reads :: "nat \<Rightarrow> LogReader \<Rightarrow> bytes option list \<times> LogReader" where
  "lr_reads 0 r = ([], r)"
| "lr_reads (Suc k) r = (let (x, r1) = lr_ReadRecord r; (xs, r2) = lr_reads k r1 in (x # xs, r2))"

lemma lr_ReadRecord_end:
  assumes "lr_at r off []"
  shows "\<exists>r'. lr_ReadRecord r = (None, r') \<and> lr_reports r' = []"
proof -
  obtain r' where "ReadPhysicalRecord r [] = (kEof, [], r')" "lr_reports r' = []"
    using ReadPhysical_empty [OF assms] by blast
  then have "lr_ReadRecord_loop r [] [] False 0 = (None, r' \<lparr> lr_resyncing := False \<rparr>)"
    by (subst lr_ReadRecord_loop.simps) (simp add: record_types kEof_def Let_def)
  with assms \<open>lr_reports r' = []\<close> show ?thesis by (simp add: lr_ReadRecord_def lr_at_def)
qed

lemma lr_reads_layout:
  assumes "list_all2 (frag_seq True) Ps ds" "lr_at r off (take n (log_layout off (concat Ps)))" "log_fits off (concat Ps)"
  shows "\<exists>k r'. k \<le> length ds \<and> lr_reads (Suc k) r = (map Some (take k ds) @ [None], r') \<and> lr_reports r' = [] \<and>
    length (log_layout off (concat (take k Ps))) \<le> n \<and>
    (k < length ds \<longrightarrow> n < length (log_layout off (concat (take (Suc k) Ps))))"
  using assms
proof (induction Ps ds arbitrary: r off n rule: list_all2_induct)
  case Nil
  then obtain r' where "lr_ReadRecord r = (None, r')" "lr_reports r' = []"
    using lr_ReadRecord_end [of r off] by auto
  then show ?case by simp
next
  case (Cons P Ps d ds)
  have at: "lr_at r off (take n (log_layout off (P @ concat Ps)))" and fits: "log_fits off (P @ concat Ps)"
    using Cons.prems by simp_all
  note rd = lr_ReadRecord_frags [OF Cons.hyps(1) at fits]
  show ?case
  proof (cases "length (log_layout off P) \<le> n")
    case False
    then obtain r' where "lr_ReadRecord r = (None, r')" "lr_reports r' = []" using rd by auto
    with False show ?thesis by (intro exI [of _ 0] exI [of _ r']) simp
  next
    case True
    let ?m = "n - length (log_layout off P)" and ?o = "log_end off P"
    obtain r1 where r1: "lr_ReadRecord r = (Some d, r1)" "lr_at r1 ?o (take ?m (log_layout ?o (concat Ps)))"
      using rd True by auto
    have "log_fits ?o (concat Ps)" using fits by (simp add: log_fits_append)
    from Cons.IH [OF r1(2) this] obtain k r' where
      "k \<le> length ds" "lr_reads (Suc k) r1 = (map Some (take k ds) @ [None], r')" "lr_reports r' = []"
      "length (log_layout ?o (concat (take k Ps))) \<le> ?m"
      "k < length ds \<longrightarrow> ?m < length (log_layout ?o (concat (take (Suc k) Ps)))"
      by blast
    with r1(1) True show ?thesis
      by (intro exI [of _ "Suc k"] exI [of _ r'])
        (auto simp: log_layout_append le_diff_conv2 less_diff_conv2 add.commute simp del: lr_reads.simps(1))
  qed
qed

lemma log_layout_block_end: "log_layout kBlockSize P = log_layout 0 P" "log_fits kBlockSize P = log_fits 0 P"
  by (cases P; auto simp: pad_at_def start_at_def kHeaderSize_def kBlockSize_def)+

lemma log_of_prefix: "length (log_of (take k ds)) \<le> length (log_of ds)"
proof -
  obtain Ps where "\<And>k. log_of (take k ds) = log_layout 0 (concat (take k Ps))" "length Ps = length ds"
    using lw_run_layout [of ds "LogWriter_new [] 0"]
    by (auto simp: log_of_def LogWriter_new_def kBlockSize_def dest: list_all2_lengthD)
  note this(1) [of k] this(1) [of "length ds"] this(2)
  moreover have "concat Ps = concat (take k Ps) @ concat (drop k Ps)" by (metis append_take_drop_id concat_append)
  ultimately show ?thesis by (simp add: log_layout_append)
qed

section \<open>Properties\<close>

text \<open>
  C3: Reading a log that was cut at any byte, as by a crash, returns exactly the records whose last
  byte was written, in order, then the end of the log, and reports no corruption, whether or not
  checksums are verified; a log that was not cut is read back completely.
\<close>

theorem log_prefix_read:
  "\<exists>k r'. lr_reads (Suc k) (LogReader_new \<lparr> sf_data = take n (log_of ds), sf_outcomes = [] \<rparr> reporter checksum 0) =
      (map Some (take k ds) @ [None], r') \<and> lr_reports r' = [] \<and> k \<le> length ds \<and>
    length (log_of (take k ds)) \<le> n \<and>
    (k < length ds \<longrightarrow> n < length (log_of (take (Suc k) ds))) \<and>
    (length (log_of ds) \<le> n \<longrightarrow> k = length ds)"
proof -
  let ?r = "LogReader_new \<lparr> sf_data = take n (log_of ds), sf_outcomes = [] \<rparr> reporter checksum 0"
  obtain Ps where Ps: "list_all2 (frag_seq True) Ps ds" "log_fits 0 (concat Ps)"
    "\<And>k. log_of (take k ds) = log_layout 0 (concat (take k Ps))"
    using lw_run_layout [of ds "LogWriter_new [] 0"] by (auto simp: log_of_def LogWriter_new_def kBlockSize_def)
  have "log_of ds = log_layout 0 (concat Ps)" using Ps(3) [of "length ds"] list_all2_lengthD [OF Ps(1)] by simp
  then have "lr_at ?r kBlockSize (take n (log_layout kBlockSize (concat Ps)))"
    by (simp add: lr_at_def LogReader_new_def log_layout_block_end)
  from lr_reads_layout [OF Ps(1) this] Ps(2) obtain k r' where k: "k \<le> length ds"
    "lr_reads (Suc k) ?r = (map Some (take k ds) @ [None], r')" "lr_reports r' = []"
    "length (log_of (take k ds)) \<le> n" "k < length ds \<longrightarrow> n < length (log_of (take (Suc k) ds))"
    unfolding log_layout_block_end Ps(3) by blast
  moreover have "k = length ds" if "length (log_of ds) \<le> n"
    using k(1,5) that log_of_prefix [of "Suc k" ds] by linarith
  ultimately show ?thesis by blast
qed

theorem log_prefix_read_witness:
  "\<exists>k r'. lr_reads (Suc k) (LogReader_new \<lparr> sf_data = take 9 (log_of [[1, 2], [3]]), sf_outcomes = [] \<rparr> True True 0) =
      (map Some (take k [[1, 2], [3]]) @ [None], r') \<and> lr_reports r' = []"
  using log_prefix_read [of 9 "[[1, 2], [3]]" True True] by blast



end
