(* ===== verification/Format.thy ===== *)
theory Format
  imports Crc32c Filter_Block Block Log_File
begin

text \<open>
  \<open>kv/table/format.h\<close> and \<open>kv/table/format.cpp\<close>: block handles, the footer of a table, and the
  reading of a block with its trailer, over a file given by its \<open>Read\<close> function. The snappy
  library is a parameter, a record of the three functions the sources call.
\<close>

unbundle bit_operations_syntax

section \<open>Block handles\<close>

record BlockHandle =
  bh_offset :: u64
  bh_size :: u64

definition BlockHandle_new :: BlockHandle where
  "BlockHandle_new = \<lparr> bh_offset = NOT 0, bh_size = NOT 0 \<rparr>"

definition kMaxEncodedLength :: nat where
  "kMaxEncodedLength = 10 + 10"

definition BlockHandle_EncodeTo :: "BlockHandle \<Rightarrow> bytes \<Rightarrow> bytes" where
  "BlockHandle_EncodeTo h dst = PutVarint64 (PutVarint64 dst (bh_offset h)) (bh_size h)"

text \<open>The status, the handle and the rest of the input; a failure leaves what was already read.\<close>

definition BlockHandle_DecodeFrom :: "BlockHandle \<Rightarrow> bytes \<Rightarrow> status \<times> BlockHandle \<times> bytes" where
  "BlockHandle_DecodeFrom h input =
     (case GetVarint64 input of
        None \<Rightarrow> (status_Corruption (str ''bad block handle'') [], h, input)
      | Some (offset, input) \<Rightarrow>
          (case GetVarint64 input of
             None \<Rightarrow> (status_Corruption (str ''bad block handle'') [], h \<lparr> bh_offset := offset \<rparr>, input)
           | Some (sz, input) \<Rightarrow> (OK, \<lparr> bh_offset = offset, bh_size = sz \<rparr>, input)))"

section \<open>The footer\<close>

record Footer =
  ft_metaindex_handle :: BlockHandle
  ft_index_handle :: BlockHandle

definition Footer_kEncodedLength :: nat where
  "Footer_kEncodedLength = 2 * kMaxEncodedLength + 8"

definition kTableMagicNumber :: u64 where
  "kTableMagicNumber = 0xdb4775248b80fb57"

text \<open>\<open>std::string::resize\<close> pads with null bytes.\<close>

definition resize :: "bytes \<Rightarrow> nat \<Rightarrow> bytes" where
  "resize s n = take n s @ replicate (n - length s) 0"

definition Footer_EncodeTo :: "Footer \<Rightarrow> bytes \<Rightarrow> bytes" where
  "Footer_EncodeTo f dst =
     (let dst = BlockHandle_EncodeTo (ft_metaindex_handle f) dst;
          dst = BlockHandle_EncodeTo (ft_index_handle f) dst;
          dst = resize dst (2 * kMaxEncodedLength);
          dst = PutFixed32 dst (ucast (kTableMagicNumber AND 0xffffffff))
      in PutFixed32 dst (ucast (drop_bit 32 kTableMagicNumber)))"

text \<open>The input holds a whole footer; a shorter one would be read past its end.\<close>

definition Footer_DecodeFrom :: "Footer \<Rightarrow> bytes \<Rightarrow> status \<times> Footer \<times> bytes" where
  "Footer_DecodeFrom f input =
     (let magic_ptr = drop (Footer_kEncodedLength - 8) input;
          magic_lo = DecodeFixed32 magic_ptr;
          magic_hi = DecodeFixed32 (drop 4 magic_ptr);
          magic = push_bit 32 (ucast magic_hi) OR ucast magic_lo :: u64
      in if magic \<noteq> kTableMagicNumber
         then (status_Corruption (str ''not an sstable (bad magic number)'') [], f, input)
         else (let (result, h, input1) = BlockHandle_DecodeFrom (ft_metaindex_handle f) input;
                   f = f \<lparr> ft_metaindex_handle := h \<rparr>
               in if \<not> status_ok result then (result, f, input1)
                  else (let (result, h, input2) = BlockHandle_DecodeFrom (ft_index_handle f) input1;
                            f = f \<lparr> ft_index_handle := h \<rparr>
                        in if \<not> status_ok result then (result, f, input2)
                           else (result, f, drop Footer_kEncodedLength input))))"

section \<open>Files\<close>

text \<open>
  \<open>rf_mapped\<close> tells whether the bytes a read returns are the file's own memory, and not in the
  caller's buffer.
\<close>

record RandomAccessFile =
  rf_Read :: "u64 \<Rightarrow> u64 \<Rightarrow> status \<times> bytes"
  rf_mapped :: bool

definition PosixMmapReadableFile :: "status \<Rightarrow> bytes \<Rightarrow> RandomAccessFile" where
  "PosixMmapReadableFile einval mem =
     \<lparr> rf_Read = (\<lambda>offset n. if offset + n > word_of_nat (length mem) then (einval, [])
                             else (OK, take (unat n) (drop (unat offset) mem))),
       rf_mapped = True \<rparr>"

text \<open>What a reader relies on: a range inside the file is read as it is.\<close>

locale random_file =
  fixes rfile :: RandomAccessFile and contents :: bytes
  assumes Read_inside: "length contents < 2 ^ 64 \<Longrightarrow> unat offset + unat n \<le> length contents \<Longrightarrow>
      rf_Read rfile offset n = (OK, take (unat n) (drop (unat offset) contents))"

section \<open>Reading a block\<close>

record Snappy =
  sn_GetUncompressedLength :: "bytes \<Rightarrow> nat option"
  sn_RawUncompress :: "bytes \<Rightarrow> bytes option"
  sn_RawCompress :: "bytes \<Rightarrow> bytes"

datatype CompressionType = kNoCompression | kSnappyCompression

definition compression_num :: "CompressionType \<Rightarrow> byte" where
  "compression_num t = (case t of kNoCompression \<Rightarrow> 0 | kSnappyCompression \<Rightarrow> 1)"

definition kBlockTrailerSize :: nat where
  "kBlockTrailerSize = 5"

record BlockContents =
  bc_data :: bytes
  bc_cachable :: bool
  bc_heap_allocated :: bool

text \<open>
  \<open>n + kBlockTrailerSize\<close> is a sum in 64 bits. Where it wraps around, the bytes at \<open>n\<close> lie past
  the buffer (\<open>ReadBlock_wrap\<close>).
\<close>

definition ReadBlock :: "Snappy \<Rightarrow> RandomAccessFile \<Rightarrow> bool \<Rightarrow> BlockHandle \<Rightarrow> status \<times> BlockContents" where
  "ReadBlock snappy rfile verify_checksums handle =
     (let result = \<lparr> bc_data = [], bc_cachable = False, bc_heap_allocated = False \<rparr>;
          n = bh_size handle;
          (s, contents) = rf_Read rfile (bh_offset handle) (n + word_of_nat kBlockTrailerSize)
      in if \<not> status_ok s then (s, result)
         else if word_of_nat (length contents) \<noteq> n + word_of_nat kBlockTrailerSize
         then (status_Corruption (str ''truncated block read'') [], result)
         else (let n = unat n;
                   bad_crc = (verify_checksums \<and>
                     crc_Value 0 (take (n + 1) contents) \<noteq> crc_Unmask (DecodeFixed32 (drop (n + 1) contents)))
               in if bad_crc then (status_Corruption (str ''block checksum mismatch'') [], result)
                  else if contents ! n = compression_num kNoCompression
                  then (OK, \<lparr> bc_data = take n contents, bc_cachable = \<not> rf_mapped rfile, bc_heap_allocated = \<not> rf_mapped rfile \<rparr>)
                  else if contents ! n = compression_num kSnappyCompression
                  then (case sn_GetUncompressedLength snappy (take n contents) of
                          None \<Rightarrow> (status_Corruption (str ''corrupted compressed block contents'') [], result)
                        | Some ulength \<Rightarrow>
                            (case sn_RawUncompress snappy (take n contents) of
                               None \<Rightarrow> (status_Corruption (str ''corrupted compressed block contents'') [], result)
                             | Some ubuf \<Rightarrow>
                                 (OK, \<lparr> bc_data = take ulength ubuf, bc_cachable = True, bc_heap_allocated = True \<rparr>)))
                  else (status_Corruption (str ''bad block type'') [], result)))"

section \<open>Round trips\<close>

lemma BlockHandle_EncodeTo_append:
  "BlockHandle_EncodeTo h dst = dst @ EncodeVarint64 (bh_offset h) @ EncodeVarint64 (bh_size h)"
  by (simp add: BlockHandle_EncodeTo_def PutVarint64_def)

lemma BlockHandle_roundtrip:
  "BlockHandle_DecodeFrom h0 (EncodeVarint64 (bh_offset h) @ EncodeVarint64 (bh_size h) @ rest) = (OK, h, rest)"
  by (simp add: BlockHandle_DecodeFrom_def codec_rt)

lemma length_BlockHandle: "length (EncodeVarint64 (bh_offset h) @ EncodeVarint64 (bh_size h)) \<le> kMaxEncodedLength"
  using length_EncodeVarint64_bound [of "bh_offset h"] length_EncodeVarint64_bound [of "bh_size h"]
  by (simp add: kMaxEncodedLength_def)

lemma magic_parts:
  "push_bit 32 (ucast (ucast (drop_bit 32 kTableMagicNumber) :: u32)) OR
    (ucast (ucast (kTableMagicNumber AND 0xffffffff) :: u32) :: u64) = kTableMagicNumber"
  by (simp add: kTableMagicNumber_def)

lemma length_resize [simp]: "length (resize s n) = n"
  by (simp add: resize_def)

lemma Footer_EncodeTo_eq:
  "Footer_EncodeTo f [] =
     resize (EncodeVarint64 (bh_offset (ft_metaindex_handle f)) @ EncodeVarint64 (bh_size (ft_metaindex_handle f)) @
       EncodeVarint64 (bh_offset (ft_index_handle f)) @ EncodeVarint64 (bh_size (ft_index_handle f))) 40 @
     EncodeFixed32 (ucast (kTableMagicNumber AND 0xffffffff)) @ EncodeFixed32 (ucast (drop_bit 32 kTableMagicNumber))"
  by (simp add: Footer_EncodeTo_def BlockHandle_EncodeTo_append PutFixed32_def kMaxEncodedLength_def Let_def)

lemma length_Footer: "length (Footer_EncodeTo f []) = Footer_kEncodedLength"
  by (simp add: Footer_EncodeTo_eq Footer_kEncodedLength_def kMaxEncodedLength_def)

lemma Footer_roundtrip: "Footer_DecodeFrom f0 (Footer_EncodeTo f [] @ rest) = (OK, f, rest)"
proof -
  let ?m = "ft_metaindex_handle f" and ?i = "ft_index_handle f"
  let ?e = "EncodeVarint64 (bh_offset ?m) @ EncodeVarint64 (bh_size ?m) @ EncodeVarint64 (bh_offset ?i) @ EncodeVarint64 (bh_size ?i)"
  let ?lo = "ucast (kTableMagicNumber AND 0xffffffff) :: u32" and ?hi = "ucast (drop_bit 32 kTableMagicNumber) :: u32"
  have len: "length ?e \<le> 40"
    using length_BlockHandle [of ?m] length_BlockHandle [of ?i] by (simp add: kMaxEncodedLength_def)
  define pad where "pad = replicate (40 - length ?e) (0 :: byte)"
  have enc: "Footer_EncodeTo f [] = ?e @ pad @ EncodeFixed32 ?lo @ EncodeFixed32 ?hi"
    using len by (simp add: Footer_EncodeTo_eq resize_def pad_def)
  have "length (?e @ pad) = 40" using len by (simp add: pad_def)
  then have magic: "drop (Footer_kEncodedLength - 8) (Footer_EncodeTo f [] @ rest) = EncodeFixed32 ?lo @ EncodeFixed32 ?hi @ rest"
    and tail: "drop Footer_kEncodedLength (Footer_EncodeTo f [] @ rest) = rest"
    unfolding enc by (simp_all add: Footer_kEncodedLength_def kMaxEncodedLength_def)
  have 1: "BlockHandle_DecodeFrom h (Footer_EncodeTo f [] @ rest) = (OK, ?m, EncodeVarint64 (bh_offset ?i) @
      EncodeVarint64 (bh_size ?i) @ pad @ EncodeFixed32 ?lo @ EncodeFixed32 ?hi @ rest)" for h
    unfolding enc using BlockHandle_roundtrip [of h ?m] by simp
  show ?thesis
    unfolding Footer_DecodeFrom_def Let_def magic tail 1
    by (simp add: magic_parts BlockHandle_roundtrip status_ok_def)
qed

text \<open>A block as \<open>WriteRawBlock\<close> writes it: its bytes, its type and the checksum of both.\<close>

definition raw_block :: "CompressionType \<Rightarrow> bytes \<Rightarrow> bytes" where
  "raw_block t c = c @ [compression_num t] @ EncodeFixed32 (crc_Mask (crc_Value 0 (c @ [compression_num t])))"

lemma length_raw_block [simp]: "length (raw_block t c) = length c + kBlockTrailerSize"
  by (simp add: raw_block_def kBlockTrailerSize_def)

definition snappy_ok :: "Snappy \<Rightarrow> bool" where
  "snappy_ok sn \<longleftrightarrow> (\<forall>x. sn_GetUncompressedLength sn (sn_RawCompress sn x) = Some (length x) \<and>
     sn_RawUncompress sn (sn_RawCompress sn x) = Some x)"

definition stored :: "Snappy \<Rightarrow> CompressionType \<Rightarrow> bytes \<Rightarrow> bytes" where
  "stored sn t x = (case t of kNoCompression \<Rightarrow> x | kSnappyCompression \<Rightarrow> sn_RawCompress sn x)"

lemma unat_word_of_nat_u64: "n < 2 ^ 64 \<Longrightarrow> unat (word_of_nat n :: u64) = n"
  by (simp add: unat_of_nat take_bit_nat_eq_self)

interpretation mmap_file: random_file "PosixMmapReadableFile einval mem" mem for einval mem
proof
  fix offset n :: u64
  assume a: "length mem < 2 ^ 64" "unat offset + unat n \<le> length mem"
  then have "\<not> word_of_nat (length mem) < offset + n"
    by (simp add: word_less_nat_alt unat_word_of_nat_u64 unat_word_ariths)
  then show "rf_Read (PosixMmapReadableFile einval mem) offset n = (OK, take (unat n) (drop (unat offset) mem))"
    by (simp add: PosixMmapReadableFile_def)
qed

text \<open>
  A handle whose size is within five of \<open>2\<^sup>6\<^sup>4\<close> passes the checks that precede the access to byte
  \<open>n\<close>: the sum wraps around, and the short read it asks for succeeds.
\<close>

lemma ReadBlock_wrap:
  assumes "length mem < 2 ^ 64" "unat offset \<le> length mem"
  shows "rf_Read (PosixMmapReadableFile einval mem) offset (- 5 + word_of_nat kBlockTrailerSize) = (OK, []) \<and>
    word_of_nat (length []) = (- 5 :: u64) + word_of_nat kBlockTrailerSize"
  using mmap_file.Read_inside [of mem offset 0] assms by (simp add: kBlockTrailerSize_def)

context random_file
begin

lemma ReadBlock_raw_block:
  assumes c: "contents = pre @ raw_block t (stored sn t x) @ post" and len: "length contents < 2 ^ 64" and sn: "snappy_ok sn"
  shows "\<exists>ca he. ReadBlock sn rfile verify
      \<lparr> bh_offset = word_of_nat (length pre), bh_size = word_of_nat (length (stored sn t x)) \<rparr> =
    (OK, \<lparr> bc_data = x, bc_cachable = ca, bc_heap_allocated = he \<rparr>)"
proof -
  define cs rb where "cs = stored sn t x" and "rb = raw_block t cs"
  have l: "length pre + length cs + 5 \<le> length contents" and lrb: "length rb = length cs + 5"
    unfolding c cs_def rb_def by (simp_all add: kBlockTrailerSize_def)
  define N M where "N = (word_of_nat (length cs) :: u64)" and "M = (word_of_nat (length rb) :: u64)"
  have sum: "N + word_of_nat kBlockTrailerSize = M" by (simp add: N_def M_def lrb kBlockTrailerSize_def)
  have u: "unat (word_of_nat (length pre) :: u64) = length pre" "unat M = length rb" "unat N = length cs"
    using l len lrb unfolding N_def M_def by (intro unat_word_of_nat_u64; simp)+
  have read: "rf_Read rfile (word_of_nat (length pre)) M = (OK, rb)"
    using Read_inside [of "word_of_nat (length pre)" M] len l lrb unfolding u
    by (simp add: c cs_def [symmetric] rb_def [symmetric])
  have n: "take (length cs + 1) rb = cs @ [compression_num t]" "take (length cs) rb = cs"
    "rb ! length cs = compression_num t"
    "drop (length cs + 1) rb = EncodeFixed32 (crc_Mask (crc_Value 0 (cs @ [compression_num t])))"
    by (simp_all add: rb_def raw_block_def nth_append)
  have t: "t = kNoCompression \<Longrightarrow> cs = x"
    "t = kSnappyCompression \<Longrightarrow> sn_GetUncompressedLength sn cs = Some (length x) \<and> sn_RawUncompress sn cs = Some x"
    using sn by (simp_all add: cs_def stored_def snappy_ok_def)
  have "ReadBlock sn rfile verify \<lparr> bh_offset = word_of_nat (length pre), bh_size = N \<rparr> =
    (if t = kNoCompression
     then (OK, \<lparr> bc_data = x, bc_cachable = \<not> rf_mapped rfile, bc_heap_allocated = \<not> rf_mapped rfile \<rparr>)
     else (OK, \<lparr> bc_data = x, bc_cachable = True, bc_heap_allocated = True \<rparr>))"
    unfolding ReadBlock_def Let_def BlockHandle.select_convs sum read prod.case u n M_def [symmetric]
    using t by (cases t) (simp_all add: status_ok_def compression_num_def)
  then show ?thesis unfolding N_def cs_def by auto
qed

end

end
