(* ===== verification/Table_Builder.thy ===== *)
theory Table_Builder
  imports Format
begin

text \<open>
  The table builder of \<open>kv/table/table_builder.cpp\<close>, over a file given by its \<open>Append\<close> and
  \<open>Flush\<close>, which may fail. The options are the fields of \<open>kv/include/options.h\<close> that tables
  use. File offsets are 64-bit words; the number of entries, a 64-bit count, is a natural number.
\<close>

record Options =
  opt_comparator :: Comparator
  opt_paranoid_checks :: bool
  opt_block_size :: nat
  opt_block_restart_interval :: nat
  opt_compression :: CompressionType
  opt_filter_policy :: "FilterPolicy option"

record 'f TableBuilder =
  tb_options :: Options
  tb_index_restart_interval :: nat
  tb_file :: 'f
  tb_offset :: u64
  tb_status :: status
  tb_data_block :: BlockBuilder
  tb_index_block :: BlockBuilder
  tb_last_key :: bytes
  tb_num_entries :: nat
  tb_closed :: bool
  tb_filter_block :: "FilterBlockBuilder option"
  tb_pending_index_entry :: bool
  tb_pending_handle :: BlockHandle

text \<open>\<open>if (filter_block != nullptr) filter_block->op();\<close> with the policy of the options.\<close>

definition tb_on_filter ::
  "'f TableBuilder \<Rightarrow> (FilterPolicy \<Rightarrow> FilterBlockBuilder \<Rightarrow> FilterBlockBuilder) \<Rightarrow> 'f TableBuilder" where
  "tb_on_filter r f =
     (case (tb_filter_block r, opt_filter_policy (tb_options r)) of
        (Some b, Some policy) \<Rightarrow> r \<lparr> tb_filter_block := Some (f policy b) \<rparr>
      | _ \<Rightarrow> r)"

definition TableBuilder_Rep :: "Options \<Rightarrow> 'f \<Rightarrow> 'f TableBuilder" where
  "TableBuilder_Rep opt f =
     \<lparr> tb_options = opt, tb_index_restart_interval = 1, tb_file = f, tb_offset = 0, tb_status = OK,
       tb_data_block = BlockBuilder_new, tb_index_block = BlockBuilder_new, tb_last_key = [], tb_num_entries = 0,
       tb_closed = False, tb_filter_block = map_option (\<lambda>_. FilterBlockBuilder_new) (opt_filter_policy opt),
       tb_pending_index_entry = False, tb_pending_handle = BlockHandle_new \<rparr>"

definition TableBuilder_new :: "Options \<Rightarrow> 'f \<Rightarrow> 'f TableBuilder" where
  "TableBuilder_new opt f = tb_on_filter (TableBuilder_Rep opt f) (\<lambda>p b. fb_StartBlock p b 0)"

text \<open>Whether the two options name the same comparator object is a parameter.\<close>

definition tb_ChangeOptions :: "'f TableBuilder \<Rightarrow> Options \<Rightarrow> bool \<Rightarrow> status \<times> 'f TableBuilder" where
  "tb_ChangeOptions r options same_comparator =
     (if \<not> same_comparator
      then (Err kInvalidArgument (str ''changing comparator while building table'') [], r)
      else (OK, r \<lparr> tb_options := options, tb_index_restart_interval := 1 \<rparr>))"

definition tb_ok :: "'f TableBuilder \<Rightarrow> bool" where
  "tb_ok r = status_ok (tb_status r)"

text \<open>The builder and the handle of the block that was written.\<close>

definition tb_WriteRawBlock ::
  "'f WritableFile \<Rightarrow> 'f TableBuilder \<Rightarrow> bytes \<Rightarrow> CompressionType \<Rightarrow> 'f TableBuilder \<times> BlockHandle" where
  "tb_WriteRawBlock ops r block_contents t =
     (let handle = \<lparr> bh_offset = tb_offset r, bh_size = word_of_nat (length block_contents) \<rparr>;
          (s, f) = wf_Append ops (tb_file r) block_contents;
          r = r \<lparr> tb_status := s, tb_file := f \<rparr>
      in if status_ok s
         then (let crc = crc_Value 0 block_contents;
                   crc = crc_Extend 0 crc [compression_num t];
                   trailer = [compression_num t] @ EncodeFixed32 (crc_Mask crc);
                   (s, f) = wf_Append ops f trailer;
                   r = r \<lparr> tb_status := s, tb_file := f \<rparr>
               in if status_ok s
                  then (r \<lparr> tb_offset := tb_offset r + word_of_nat (length block_contents + kBlockTrailerSize) \<rparr>, handle)
                  else (r, handle))
         else (r, handle))"

definition tb_WriteBlock ::
  "Snappy \<Rightarrow> 'f WritableFile \<Rightarrow> 'f TableBuilder \<Rightarrow> BlockBuilder \<Rightarrow> 'f TableBuilder \<times> BlockBuilder \<times> BlockHandle" where
  "tb_WriteBlock snappy ops r block =
     (let (raw, block) = bb_Finish block;
          t = opt_compression (tb_options r);
          block_contents = (case t of kNoCompression \<Rightarrow> raw | kSnappyCompression \<Rightarrow> sn_RawCompress snappy raw);
          (r, handle) = tb_WriteRawBlock ops r block_contents t
      in (r, bb_Reset block, handle))"

definition tb_Flush :: "Snappy \<Rightarrow> 'f WritableFile \<Rightarrow> 'f TableBuilder \<Rightarrow> 'f TableBuilder" where
  "tb_Flush snappy ops r =
     (if \<not> tb_ok r then r
      else if bb_empty (tb_data_block r) then r
      else (let (r, block, handle) = tb_WriteBlock snappy ops r (tb_data_block r);
                r = r \<lparr> tb_data_block := block, tb_pending_handle := handle \<rparr>;
                r = (if tb_ok r
                     then (let (s, f) = wf_Flush ops (tb_file r)
                           in r \<lparr> tb_pending_index_entry := True, tb_status := s, tb_file := f \<rparr>)
                     else r)
            in tb_on_filter r (\<lambda>p b. fb_StartBlock p b (unat (tb_offset r)))))"

definition tb_Add :: "Snappy \<Rightarrow> 'f WritableFile \<Rightarrow> 'f TableBuilder \<Rightarrow> bytes \<Rightarrow> bytes \<Rightarrow> 'f TableBuilder" where
  "tb_Add snappy ops r key val =
     (if \<not> tb_ok r then r
      else (let r = (if tb_pending_index_entry r
                     then (let last_key = cmp_FindShortestSeparator (opt_comparator (tb_options r)) (tb_last_key r) key;
                               handle_encoding = BlockHandle_EncodeTo (tb_pending_handle r) []
                           in r \<lparr> tb_last_key := last_key,
                                  tb_index_block := bb_Add (tb_index_restart_interval r) (tb_index_block r) last_key handle_encoding,
                                  tb_pending_index_entry := False \<rparr>)
                     else r);
                r = tb_on_filter r (\<lambda>p b. fb_AddKey b key);
                r = r \<lparr> tb_last_key := key, tb_num_entries := tb_num_entries r + 1,
                        tb_data_block := bb_Add (opt_block_restart_interval (tb_options r)) (tb_data_block r) key val \<rparr>
            in if bb_CurrentSizeEstimate (tb_data_block r) \<ge> opt_block_size (tb_options r)
               then tb_Flush snappy ops r else r))"

definition tb_Finish_filter :: "'f WritableFile \<Rightarrow> 'f TableBuilder \<Rightarrow> 'f TableBuilder \<times> BlockHandle" where
  "tb_Finish_filter ops r =
     (case (tb_filter_block r, opt_filter_policy (tb_options r)) of
        (Some b, Some policy) \<Rightarrow>
          if tb_ok r then tb_WriteRawBlock ops r (fb_Finish policy b) kNoCompression else (r, BlockHandle_new)
      | _ \<Rightarrow> (r, BlockHandle_new))"

definition tb_Finish_metaindex ::
  "Snappy \<Rightarrow> 'f WritableFile \<Rightarrow> 'f TableBuilder \<Rightarrow> BlockHandle \<Rightarrow> 'f TableBuilder \<times> BlockHandle" where
  "tb_Finish_metaindex snappy ops r filter_block_handle =
     (if tb_ok r
      then (let meta_index_block = BlockBuilder_new;
                meta_index_block =
                  (case (tb_filter_block r, opt_filter_policy (tb_options r)) of
                     (Some _, Some policy) \<Rightarrow>
                       bb_Add (opt_block_restart_interval (tb_options r)) meta_index_block
                         (str ''filter.'' @ fp_Name policy) (BlockHandle_EncodeTo filter_block_handle [])
                   | _ \<Rightarrow> meta_index_block);
                (r, _, handle) = tb_WriteBlock snappy ops r meta_index_block
            in (r, handle))
      else (r, BlockHandle_new))"

definition tb_Finish_index :: "Snappy \<Rightarrow> 'f WritableFile \<Rightarrow> 'f TableBuilder \<Rightarrow> 'f TableBuilder \<times> BlockHandle" where
  "tb_Finish_index snappy ops r =
     (if tb_ok r
      then (let r = (if tb_pending_index_entry r
                     then (let last_key = cmp_FindShortSuccessor (opt_comparator (tb_options r)) (tb_last_key r);
                               handle_encoding = BlockHandle_EncodeTo (tb_pending_handle r) []
                           in r \<lparr> tb_last_key := last_key,
                                  tb_index_block := bb_Add (tb_index_restart_interval r) (tb_index_block r) last_key handle_encoding,
                                  tb_pending_index_entry := False \<rparr>)
                     else r);
                (r, block, handle) = tb_WriteBlock snappy ops r (tb_index_block r)
            in (r \<lparr> tb_index_block := block \<rparr>, handle))
      else (r, BlockHandle_new))"

definition tb_Finish :: "Snappy \<Rightarrow> 'f WritableFile \<Rightarrow> 'f TableBuilder \<Rightarrow> status \<times> 'f TableBuilder" where
  "tb_Finish snappy ops r =
     (let r = tb_Flush snappy ops r;
          r = r \<lparr> tb_closed := True \<rparr>;
          (r, filter_block_handle) = tb_Finish_filter ops r;
          (r, metaindex_block_handle) = tb_Finish_metaindex snappy ops r filter_block_handle;
          (r, index_block_handle) = tb_Finish_index snappy ops r
      in if tb_ok r
         then (let footer = \<lparr> ft_metaindex_handle = metaindex_block_handle, ft_index_handle = index_block_handle \<rparr>;
                   footer_encoding = Footer_EncodeTo footer [];
                   (s, f) = wf_Append ops (tb_file r) footer_encoding;
                   r = r \<lparr> tb_status := s, tb_file := f \<rparr>
               in if status_ok s
                  then (s, r \<lparr> tb_offset := tb_offset r + word_of_nat (length footer_encoding) \<rparr>)
                  else (s, r))
         else (tb_status r, r))"

definition tb_Abandon :: "'f TableBuilder \<Rightarrow> 'f TableBuilder" where
  "tb_Abandon r = r \<lparr> tb_closed := True \<rparr>"

section \<open>The layout of a table\<close>

text \<open>
  The data blocks of a table are lists of entries; \<open>seps\<close> are the keys of the index entries
  that have been written. Handles, index entries and the calls of the filter builder follow from them.
\<close>

definition block_bytes :: "Options \<Rightarrow> entry list \<Rightarrow> bytes" where
  "block_bytes opt b = fst (bb_Finish (bb_add_all (opt_block_restart_interval opt) b))"

definition block_stored :: "Snappy \<Rightarrow> Options \<Rightarrow> entry list \<Rightarrow> bytes" where
  "block_stored sn opt b = stored sn (opt_compression opt) (block_bytes opt b)"

definition raws :: "Snappy \<Rightarrow> Options \<Rightarrow> entry list list \<Rightarrow> bytes list" where
  "raws sn opt bs = map (\<lambda>b. raw_block (opt_compression opt) (block_stored sn opt b)) bs"

definition handle_of :: "Snappy \<Rightarrow> Options \<Rightarrow> entry list list \<Rightarrow> nat \<Rightarrow> BlockHandle" where
  "handle_of sn opt bs j =
     \<lparr> bh_offset = word_of_nat (part_start (raws sn opt bs) j), bh_size = word_of_nat (length (block_stored sn opt (bs ! j))) \<rparr>"

definition index_entries :: "Snappy \<Rightarrow> Options \<Rightarrow> entry list list \<Rightarrow> bytes list \<Rightarrow> entry list" where
  "index_entries sn opt bs seps =
     zip seps (map (\<lambda>j. BlockHandle_EncodeTo (handle_of sn opt bs j) []) [0..<length seps])"

definition filter_calls :: "Snappy \<Rightarrow> Options \<Rightarrow> entry list list \<Rightarrow> entry list \<Rightarrow> (nat \<times> bytes list) list" where
  "filter_calls sn opt bs cur =
     map (\<lambda>j. (unat (word_of_nat (part_start (raws sn opt bs) j) :: u64), map fst ((bs @ [cur]) ! j))) [0..<Suc (length bs)]"

lemma raws_append [simp]: "raws sn opt (bs @ cs) = raws sn opt bs @ raws sn opt cs"
  by (simp add: raws_def)

lemma length_raws [simp]: "length (raws sn opt bs) = length bs"
  by (simp add: raws_def)

lemma handle_of_append: "j < length bs \<Longrightarrow> handle_of sn opt (bs @ cs) j = handle_of sn opt bs j"
  by (simp add: handle_of_def part_start_append nth_append)

lemma index_entries_append:
  "length seps \<le> length bs \<Longrightarrow> index_entries sn opt (bs @ cs) seps = index_entries sn opt bs seps"
  unfolding index_entries_def by (intro arg_cong2 [where f = zip] refl map_cong) (simp_all add: handle_of_append)

lemma index_entries_snoc:
  "index_entries sn opt bs (seps @ [k]) =
    index_entries sn opt bs seps @ [(k, BlockHandle_EncodeTo (handle_of sn opt bs (length seps)) [])]"
  by (simp add: index_entries_def)

lemma filter_calls_add:
  "filter_calls sn opt bs (cur @ [e]) = butlast (filter_calls sn opt bs cur) @
    [(fst (last (filter_calls sn opt bs cur)), snd (last (filter_calls sn opt bs cur)) @ [fst e])]"
  by (simp add: filter_calls_def nth_append)

lemma filter_calls_flush:
  "filter_calls sn opt (bs @ [cur]) [] =
    filter_calls sn opt bs cur @ [(unat (word_of_nat (length (concat (raws sn opt (bs @ [cur])))) :: u64), [])]"
proof -
  have "map (\<lambda>j. (unat (word_of_nat (part_start (raws sn opt (bs @ [cur])) j) :: u64), map fst ((bs @ [cur] @ [[]]) ! j))) [0..<Suc (length bs)] =
      filter_calls sn opt bs cur"
    unfolding filter_calls_def
    by (intro map_cong refl) (auto simp: part_start_append nth_append)
  moreover have "part_start (raws sn opt (bs @ [cur])) (Suc (length bs)) = length (concat (raws sn opt (bs @ [cur])))"
    using part_start_all [of "raws sn opt (bs @ [cur])"] by simp
  ultimately show ?thesis by (simp add: filter_calls_def nth_append)
qed

definition filter_state :: "Snappy \<Rightarrow> Options \<Rightarrow> entry list list \<Rightarrow> entry list \<Rightarrow> FilterBlockBuilder option" where
  "filter_state sn opt bs cur =
     map_option (\<lambda>p. foldl (fb_block p) FilterBlockBuilder_new (filter_calls sn opt bs cur)) (opt_filter_policy opt)"

lemma filter_state_add:
  "filter_state sn opt bs (cur @ [e]) = map_option (\<lambda>b. fb_AddKey b (fst e)) (filter_state sn opt bs cur)"
proof -
  obtain cs off ks where c: "filter_calls sn opt bs cur = cs @ [(off, ks)]"
    by (cases "filter_calls sn opt bs cur" rule: rev_cases) (auto simp: filter_calls_def)
  then have "filter_calls sn opt bs (cur @ [e]) = cs @ [(off, ks @ [fst e])]" by (simp add: filter_calls_add)
  with c show ?thesis by (simp add: filter_state_def fb_block_def option.map_comp comp_def)
qed

definition tb_rep :: "Snappy \<Rightarrow> bytes TableBuilder \<Rightarrow> Options \<Rightarrow> entry list list \<Rightarrow> entry list \<Rightarrow> bytes list \<Rightarrow> bool" where
  "tb_rep sn r opt bs cur seps \<longleftrightarrow>
     tb_options r = opt \<and> tb_index_restart_interval r = 1 \<and> tb_status r = OK \<and>
     tb_file r = concat (raws sn opt bs) \<and> tb_offset r = word_of_nat (length (concat (raws sn opt bs))) \<and>
     tb_data_block r = bb_add_all (opt_block_restart_interval opt) cur \<and>
     tb_index_block r = bb_add_all 1 (index_entries sn opt bs seps) \<and>
     tb_filter_block r = filter_state sn opt bs cur \<and>
     (concat bs @ cur \<noteq> [] \<longrightarrow> tb_last_key r = fst (last (concat bs @ cur))) \<and>
     (if tb_pending_index_entry r
      then cur = [] \<and> length bs = Suc (length seps) \<and> tb_pending_handle r = handle_of sn opt bs (length seps)
      else length bs = length seps \<and> (cur = [] \<longrightarrow> bs = [])) \<and>
     [] \<notin> set bs"

lemma tb_rep_new: "tb_rep sn (TableBuilder_new opt []) opt [] [] []"
proof -
  have "filter_calls sn opt [] [] = [(0, [])]" by (simp add: filter_calls_def raws_def)
  then show ?thesis
    by (auto simp: tb_rep_def TableBuilder_new_def TableBuilder_Rep_def tb_on_filter_def filter_state_def
        fb_block_def raws_def index_entries_def bb_add_all_def split: option.splits)
qed

lemma bb_Reset_new: "bb_Reset b = BlockBuilder_new"
  by (cases b) (simp add: bb_Reset_def BlockBuilder_new_def)

lemma bb_empty_add_all: "bb_empty (bb_add_all n kvs) \<longleftrightarrow> kvs = []"
proof (cases kvs rule: rev_cases)
  case (snoc es e)
  have "block_entry x \<noteq> []" for x using length_block_entry(1) [of x] by auto
  then show ?thesis by (simp add: snoc bb_add_all_def bb_empty_def bb_Add_buffer)
qed (simp add: bb_add_all_def bb_empty_def BlockBuilder_new_def)

lemma WriteRawBlock_string_file:
  "tb_WriteRawBlock string_file r c t =
    (r \<lparr> tb_status := OK, tb_file := tb_file r @ raw_block t c, tb_offset := tb_offset r + word_of_nat (length (raw_block t c)) \<rparr>,
     \<lparr> bh_offset = tb_offset r, bh_size = word_of_nat (length c) \<rparr>)"
  by (simp add: tb_WriteRawBlock_def string_file_def status_ok_def raw_block_def crc_Value_def crc_Extend_ref
      crc32c_ref_append kBlockTrailerSize_def Let_def)

lemma WriteBlock_string_file:
  "tb_WriteBlock sn string_file r b =
    (let c = stored sn (opt_compression (tb_options r)) (fst (bb_Finish b));
         raw = raw_block (opt_compression (tb_options r)) c
     in (r \<lparr> tb_status := OK, tb_file := tb_file r @ raw, tb_offset := tb_offset r + word_of_nat (length raw) \<rparr>,
         BlockBuilder_new, \<lparr> bh_offset = tb_offset r, bh_size = word_of_nat (length c) \<rparr>))"
  by (simp add: tb_WriteBlock_def WriteRawBlock_string_file stored_def bb_Reset_new Let_def split_beta
      split: CompressionType.splits)

lemma tb_Flush_rep:
  assumes r: "tb_rep sn r opt bs cur seps" and ne: "cur \<noteq> []"
  shows "tb_rep sn (tb_Flush sn string_file r) opt (bs @ [cur]) [] seps"
proof -
  let ?raw = "raw_block (opt_compression opt) (block_stored sn opt cur)"
  let ?n = "length (concat (raws sn opt (bs @ [cur])))"
  have opt: "tb_options r = opt" and np: "\<not> tb_pending_index_entry r" and len: "length bs = length seps"
    using r ne by (auto simp: tb_rep_def split: if_splits)
  define r1 where "r1 = r \<lparr> tb_offset := word_of_nat ?n, tb_data_block := BlockBuilder_new,
      tb_pending_handle := handle_of sn opt (bs @ [cur]) (length bs), tb_pending_index_entry := True,
      tb_status := OK, tb_file := concat (raws sn opt (bs @ [cur])) \<rparr>"
  have "tb_WriteBlock sn string_file r (tb_data_block r) =
      (r \<lparr> tb_status := OK, tb_file := concat (raws sn opt (bs @ [cur])), tb_offset := word_of_nat ?n \<rparr>,
       BlockBuilder_new, handle_of sn opt (bs @ [cur]) (length bs))"
    using r by (simp add: WriteBlock_string_file tb_rep_def Let_def block_bytes_def [symmetric] block_stored_def [symmetric]
        handle_of_def part_start_append) (simp add: raws_def part_start_all [of "raws sn opt bs", simplified raws_def, simplified] algebra_simps)
  then have F: "tb_Flush sn string_file r = tb_on_filter r1 (\<lambda>p b. fb_StartBlock p b (unat (tb_offset r1)))"
    using r ne by (simp add: tb_Flush_def tb_rep_def tb_ok_def status_ok_def bb_empty_add_all string_file_def r1_def Let_def)
  have fil: "tb_filter_block (tb_on_filter r1 (\<lambda>p b. fb_StartBlock p b (unat (tb_offset r1)))) = filter_state sn opt (bs @ [cur]) []"
    using r unfolding tb_rep_def
    by (auto simp: tb_on_filter_def r1_def filter_state_def filter_calls_flush fb_block_def split: option.splits)
  have other: "tb_on_filter r1 f = r1 \<lparr> tb_filter_block := tb_filter_block (tb_on_filter r1 f) \<rparr>" for f
    by (auto simp: tb_on_filter_def split: option.splits)
  show ?thesis
    unfolding F using r np len ne fil
    by (subst other) (simp add: tb_rep_def r1_def index_entries_append bb_add_all_def)
qed

lemma tb_Flush_empty: "tb_rep sn r opt bs [] seps \<Longrightarrow> tb_Flush sn string_file r = r"
  by (simp add: tb_Flush_def tb_rep_def bb_empty_add_all tb_ok_def)

section \<open>The index keys separate the blocks\<close>

definition seps_ok :: "Comparator \<Rightarrow> (bytes \<Rightarrow> bool) \<Rightarrow> entry list list \<Rightarrow> entry list \<Rightarrow> bytes list \<Rightarrow> bool" where
  "seps_ok c valid bs cur seps \<longleftrightarrow> length seps \<le> length bs \<and> (\<forall>j<length seps. valid (seps ! j) \<and>
     (\<forall>e\<in>set (bs ! j). cmp_Compare c (fst e) (seps ! j) \<le> 0) \<and>
     (\<forall>e\<in>set (concat (drop (Suc j) bs) @ cur). cmp_Compare c (seps ! j) (fst e) < 0) \<and>
     (\<forall>e es. concat (drop (Suc j) bs) @ cur = e # es \<longrightarrow>
        seps ! j = cmp_FindShortestSeparator c (fst (last (bs ! j))) (fst e)) \<and>
     (concat (drop (Suc j) bs) @ cur = [] \<longrightarrow> seps ! j = cmp_FindShortSuccessor c (fst (last (bs ! j)))))"

lemma seps_ok_flush: "seps_ok c valid bs cur seps \<Longrightarrow> seps_ok c valid (bs @ [cur]) [] seps"
  by (auto simp: seps_ok_def nth_append)

context compare_order
begin

lemma sorted_le_last:
  assumes "sorted_wrt (\<lambda>a b. compare (f a) (f b) < 0) xs" "\<forall>e\<in>set xs. valid (f e)" "x \<in> set xs"
  shows "compare (f x) (f (last xs)) \<le> 0"
proof (cases xs rule: rev_cases)
  case (snoc ys y)
  with assms show ?thesis by (auto simp: sorted_wrt_append cmp_refl)
qed (use assms in simp)

end

context comparator
begin

abbreviation "compare \<equiv> cmp_Compare c"

lemma seps_ok_old:
  assumes s: "seps_ok c valid bs cur seps" and kvs: "entries_sorted compare valid (concat bs @ cur @ [(k, v)])"
    and ne: "[] \<notin> set bs" and later: "length seps < length bs \<or> cur \<noteq> []"
  shows "seps_ok c valid bs (cur @ [(k, v)]) seps"
proof -
  have "compare (seps ! j) k < 0 \<and> concat (drop (Suc j) bs) @ cur \<noteq> []" if j: "j < length seps" for j
  proof -
    have nonempty: "concat (drop (Suc j) bs) @ cur \<noteq> []"
    proof (cases "cur = []")
      case True
      with later j have "Suc j < length bs" by simp
      then have "drop (Suc j) bs = bs ! Suc j # drop (Suc (Suc j)) bs" "bs ! Suc j \<noteq> []"
        using ne by (auto simp: Cons_nth_drop_Suc in_set_conv_nth)
      then show ?thesis by simp
    qed simp
    then obtain e where e: "e \<in> set (concat (drop (Suc j) bs) @ cur)" by (meson last_in_set)
    then have "e \<in> set (concat bs @ cur)" using set_drop_subset [of "Suc j" bs] by auto
    then have "compare (fst e) k < 0" "valid (fst e)" "valid k"
      using kvs by (auto simp: entries_sorted_append) (auto simp: entries_sorted_def)
    moreover have "compare (seps ! j) (fst e) < 0" "valid (seps ! j)" using s j e by (auto simp: seps_ok_def)
    ultimately show ?thesis using lt_trans nonempty by blast
  qed
  note later_key = this
  have first: "xs @ ys \<noteq> [] \<Longrightarrow> xs @ ys @ zs = e # es \<Longrightarrow> \<exists>es'. xs @ ys = e # es'" for xs ys zs es :: "entry list" and e
    by (cases xs; cases ys) auto
  show ?thesis
    unfolding seps_ok_def
  proof (intro conjI allI impI ballI)
    fix j e es assume j: "j < length seps" and e: "concat (drop (Suc j) bs) @ cur @ [(k, v)] = e # es"
    then obtain es' where "concat (drop (Suc j) bs) @ cur = e # es'" using later_key [OF j] first by blast
    with s j show "seps ! j = cmp_FindShortestSeparator c (fst (last (bs ! j))) (fst e)" unfolding seps_ok_def by blast
  next
    fix j e assume j: "j < length seps" and e: "e \<in> set (concat (drop (Suc j) bs) @ cur @ [(k, v)])"
    then have "e \<in> set (concat (drop (Suc j) bs) @ cur) \<or> e = (k, v)" by auto
    moreover have "\<forall>e\<in>set (concat (drop (Suc j) bs) @ cur). compare (seps ! j) (fst e) < 0"
      using s j unfolding seps_ok_def by blast
    ultimately show "compare (seps ! j) (fst e) < 0" using later_key [OF j] by auto
  qed (use s in \<open>auto simp: seps_ok_def\<close>)
qed

lemma seps_ok_new:
  assumes s: "seps_ok c valid bs [(k, v)] seps" and kvs: "entries_sorted compare valid (concat bs @ [(k, v)])"
    and ne: "[] \<notin> set bs" and len: "length bs = Suc (length seps)"
  shows "seps_ok c valid bs [(k, v)] (seps @ [cmp_FindShortestSeparator c (fst (last (concat bs))) k])"
proof -
  let ?last = "fst (last (concat bs))" and ?sep = "cmp_FindShortestSeparator c (fst (last (concat bs))) k"
  obtain bs' b where bs: "bs = bs' @ [b]" "length bs' = length seps" using len by (cases bs rule: rev_cases) auto
  have b: "b \<noteq> []" "bs ! length seps = b" using ne bs by (auto simp: nth_append)
  have last: "?last = fst (last b)" using b bs by simp
  have sb: "sorted_wrt (\<lambda>x y. compare (fst x) (fst y) < 0) b" "\<forall>e\<in>set b. valid (fst e)" "compare ?last k < 0" "valid k"
    using kvs b unfolding bs(1) by (auto simp: entries_sorted_append) (auto simp: entries_sorted_def)
  have vl: "valid ?last" using sb(2) b last by simp
  note sep = sep_between [OF vl sb(4,3)]
  have "compare (fst e) ?sep \<le> 0" if "e \<in> set b" for e
    using sorted_le_last [OF sb(1,2) that] sep sb(2) that cmp_trans [of "fst e" ?last ?sep] vl last by auto
  then show ?thesis
    using s sep len b bs by (auto simp: seps_ok_def nth_append less_Suc_eq)
qed

lemma tb_Add_rep:
  assumes r: "tb_rep sn r opt bs cur seps" and c: "opt_comparator opt = c"
    and s: "seps_ok c valid bs cur seps" and kvs: "entries_sorted compare valid (concat bs @ cur @ [(k, v)])"
  shows "\<exists>bs' cur' seps'. tb_rep sn (tb_Add sn string_file r k v) opt bs' cur' seps' \<and>
    seps_ok c valid bs' cur' seps' \<and> concat bs' @ cur' = concat bs @ cur @ [(k, v)]"
proof -
  let ?n = "opt_block_restart_interval opt"
  define seps' where "seps' = (if tb_pending_index_entry r then seps @ [cmp_FindShortestSeparator c (tb_last_key r) k] else seps)"
  define r1 where "r1 = r \<lparr> tb_last_key := k, tb_num_entries := tb_num_entries r + 1,
      tb_data_block := bb_add_all ?n (cur @ [(k, v)]), tb_index_block := bb_add_all 1 (index_entries sn opt bs seps'),
      tb_filter_block := filter_state sn opt bs (cur @ [(k, v)]), tb_pending_index_entry := False \<rparr>"
  have ne: "[] \<notin> set bs" and opt: "tb_options r = opt" using r by (auto simp: tb_rep_def)
  have R: "tb_rep sn r1 opt bs (cur @ [(k, v)]) seps'"
    using r by (auto simp: tb_rep_def r1_def seps'_def split: if_splits)
  have S: "seps_ok c valid bs (cur @ [(k, v)]) seps'"
  proof (cases "tb_pending_index_entry r")
    case True
    then have p: "cur = []" "length bs = Suc (length seps)" using r by (auto simp: tb_rep_def)
    then have "concat bs \<noteq> []" using ne by (cases bs) auto
    then have "tb_last_key r = fst (last (concat bs))" using r p by (simp add: tb_rep_def)
    with True p show ?thesis
      using seps_ok_new [OF _ _ ne p(2)] seps_ok_old [OF s kvs ne] kvs by (simp add: seps'_def)
  next
    case False
    then have "length bs = length seps" "cur = [] \<longrightarrow> bs = []" using r by (auto simp: tb_rep_def)
    with False s show ?thesis using seps_ok_old [OF s kvs ne] by (cases "cur = []") (auto simp: seps'_def seps_ok_def)
  qed
  have A: "tb_Add sn string_file r k v =
      (if bb_CurrentSizeEstimate (tb_data_block r1) \<ge> opt_block_size opt then tb_Flush sn string_file r1 else r1)"
  proof -
    define r0 where "r0 = (if tb_pending_index_entry r
      then r \<lparr> tb_last_key := cmp_FindShortestSeparator c (tb_last_key r) k,
          tb_index_block := bb_add_all 1 (index_entries sn opt bs seps'), tb_pending_index_entry := False \<rparr> else r)"
    have i: "bb_add_all 1 (index_entries sn opt bs seps') =
        (if tb_pending_index_entry r
         then bb_Add 1 (tb_index_block r) (cmp_FindShortestSeparator c (tb_last_key r) k) (BlockHandle_EncodeTo (tb_pending_handle r) [])
         else tb_index_block r)"
      using r by (auto simp: seps'_def index_entries_snoc bb_add_all_def tb_rep_def split: if_splits)
    have "tb_filter_block r0 = filter_state sn opt bs cur" "tb_options r0 = opt"
      using r by (auto simp: r0_def tb_rep_def)
    then have fil: "tb_on_filter r0 (\<lambda>p b. fb_AddKey b k) = r0 \<lparr> tb_filter_block := filter_state sn opt bs (cur @ [(k, v)]) \<rparr>"
      unfolding filter_state_add by (auto simp: tb_on_filter_def filter_state_def split: option.splits)
    have d: "bb_add_all ?n (cur @ [(k, v)]) = bb_Add ?n (tb_data_block r) k v"
      using r by (simp add: bb_add_all_def tb_rep_def)
    have r1: "r0 \<lparr> tb_filter_block := filter_state sn opt bs (cur @ [(k, v)]), tb_last_key := k,
        tb_num_entries := tb_num_entries r + 1, tb_data_block := bb_Add ?n (tb_data_block r) k v \<rparr> = r1"
      using i by (intro TableBuilder.equality) (simp_all add: r0_def r1_def d)
    have "(if tb_pending_index_entry r
        then (let last_key = cmp_FindShortestSeparator (opt_comparator (tb_options r)) (tb_last_key r) k;
                  handle_encoding = BlockHandle_EncodeTo (tb_pending_handle r) []
              in r \<lparr> tb_last_key := last_key,
                     tb_index_block := bb_Add (tb_index_restart_interval r) (tb_index_block r) last_key handle_encoding,
                     tb_pending_index_entry := False \<rparr>)
        else r) = r0"
      using i r c by (simp add: r0_def tb_rep_def Let_def)
    moreover have "tb_num_entries r0 = tb_num_entries r" "tb_data_block r0 = tb_data_block r" by (simp_all add: r0_def)
    ultimately show ?thesis
      using r r1 fil \<open>tb_options r0 = opt\<close>
      unfolding tb_Add_def tb_ok_def Let_def by (simp add: tb_rep_def status_ok_def) (simp add: r1_def opt)
  qed
  show ?thesis
  proof (cases "bb_CurrentSizeEstimate (tb_data_block r1) \<ge> opt_block_size opt")
    case True
    then have "tb_rep sn (tb_Add sn string_file r k v) opt (bs @ [cur @ [(k, v)]]) [] seps'"
      using A tb_Flush_rep [OF R] by simp
    with seps_ok_flush [OF S] show ?thesis
      by (intro exI [of _ "bs @ [cur @ [(k, v)]]"] exI [of _ "[]"] exI [of _ seps']) simp
  next
    case False
    with A R S show ?thesis by (intro exI [of _ bs] exI [of _ "cur @ [(k, v)]"] exI [of _ seps']) simp
  qed
qed

lemma seps_ok_last:
  assumes s: "seps_ok c valid bs [] seps" and kvs: "entries_sorted compare valid (concat bs)"
    and ne: "[] \<notin> set bs" and len: "length bs = Suc (length seps)"
  shows "seps_ok c valid bs [] (seps @ [cmp_FindShortSuccessor c (fst (last (concat bs)))])"
proof -
  obtain bs' b where bs: "bs = bs' @ [b]" "length bs' = length seps" using len by (cases bs rule: rev_cases) auto
  have b: "b \<noteq> []" "bs ! length seps = b" using ne bs by (auto simp: nth_append)
  have last: "fst (last (concat bs)) = fst (last b)" using b bs by simp
  have sb: "sorted_wrt (\<lambda>x y. compare (fst x) (fst y) < 0) b" "\<forall>e\<in>set b. valid (fst e)"
    using kvs unfolding bs(1) by (auto simp: entries_sorted_append) (auto simp: entries_sorted_def)
  have vl: "valid (fst (last b))" using sb(2) b by simp
  have "compare (fst e) (cmp_FindShortSuccessor c (fst (last b))) \<le> 0" if "e \<in> set b" for e
    using sorted_le_last [OF sb(1,2) that] succ_ge [OF vl] sb(2) that cmp_trans [of "fst e" "fst (last b)"] vl by blast
  then show ?thesis
    using s succ_ge [OF vl] len b(2) bs unfolding last by (auto simp: seps_ok_def nth_append less_Suc_eq)
qed

end

section \<open>The bytes of a finished table\<close>

definition tb_add_all :: "Snappy \<Rightarrow> Options \<Rightarrow> entry list \<Rightarrow> bytes TableBuilder" where
  "tb_add_all sn opt kvs = foldl (\<lambda>r e. tb_Add sn string_file r (fst e) (snd e)) (TableBuilder_new opt []) kvs"

definition filter_bytes :: "Snappy \<Rightarrow> Options \<Rightarrow> entry list list \<Rightarrow> bytes" where
  "filter_bytes sn opt bs = (case opt_filter_policy opt of None \<Rightarrow> [] | Some p \<Rightarrow> fb_run p (filter_calls sn opt bs []))"

definition filter_part :: "Snappy \<Rightarrow> Options \<Rightarrow> entry list list \<Rightarrow> bytes" where
  "filter_part sn opt bs =
     (if opt_filter_policy opt = None then [] else raw_block kNoCompression (filter_bytes sn opt bs))"

definition filter_handle :: "Snappy \<Rightarrow> Options \<Rightarrow> entry list list \<Rightarrow> BlockHandle" where
  "filter_handle sn opt bs =
     \<lparr> bh_offset = word_of_nat (length (concat (raws sn opt bs))), bh_size = word_of_nat (length (filter_bytes sn opt bs)) \<rparr>"

definition meta_entries :: "Snappy \<Rightarrow> Options \<Rightarrow> entry list list \<Rightarrow> entry list" where
  "meta_entries sn opt bs =
     (case opt_filter_policy opt of None \<Rightarrow> []
      | Some p \<Rightarrow> [(str ''filter.'' @ fp_Name p, BlockHandle_EncodeTo (filter_handle sn opt bs) [])])"

definition index_bytes :: "Snappy \<Rightarrow> Options \<Rightarrow> entry list list \<Rightarrow> bytes list \<Rightarrow> bytes" where
  "index_bytes sn opt bs seps = fst (bb_Finish (bb_add_all 1 (index_entries sn opt bs seps)))"

definition table_body :: "Snappy \<Rightarrow> Options \<Rightarrow> entry list list \<Rightarrow> bytes" where
  "table_body sn opt bs = concat (raws sn opt bs) @ filter_part sn opt bs"

definition meta_stored :: "Snappy \<Rightarrow> Options \<Rightarrow> entry list list \<Rightarrow> bytes" where
  "meta_stored sn opt bs = block_stored sn opt (meta_entries sn opt bs)"

definition index_stored :: "Snappy \<Rightarrow> Options \<Rightarrow> entry list list \<Rightarrow> bytes list \<Rightarrow> bytes" where
  "index_stored sn opt bs seps = stored sn (opt_compression opt) (index_bytes sn opt bs seps)"

definition table_footer :: "Snappy \<Rightarrow> Options \<Rightarrow> entry list list \<Rightarrow> bytes list \<Rightarrow> Footer" where
  "table_footer sn opt bs seps =
     \<lparr> ft_metaindex_handle = \<lparr> bh_offset = word_of_nat (length (table_body sn opt bs)),
                              bh_size = word_of_nat (length (meta_stored sn opt bs)) \<rparr>,
       ft_index_handle = \<lparr> bh_offset = word_of_nat (length (table_body sn opt bs @
                            raw_block (opt_compression opt) (meta_stored sn opt bs))),
                          bh_size = word_of_nat (length (index_stored sn opt bs seps)) \<rparr> \<rparr>"

definition table_bytes :: "Snappy \<Rightarrow> Options \<Rightarrow> entry list list \<Rightarrow> bytes list \<Rightarrow> bytes" where
  "table_bytes sn opt bs seps =
     table_body sn opt bs @ raw_block (opt_compression opt) (meta_stored sn opt bs) @
     raw_block (opt_compression opt) (index_stored sn opt bs seps) @ Footer_EncodeTo (table_footer sn opt bs seps) []"

lemma tb_Finish_bytes:
  assumes r: "tb_rep sn (tb_Flush sn string_file r) opt bs [] seps"
  defines "seps' \<equiv> (if tb_pending_index_entry (tb_Flush sn string_file r)
    then seps @ [cmp_FindShortSuccessor (opt_comparator opt) (tb_last_key (tb_Flush sn string_file r))] else seps)"
  shows "fst (tb_Finish sn string_file r) = OK \<and> tb_file (snd (tb_Finish sn string_file r)) = table_bytes sn opt bs seps'"
proof -
  define r0 where "r0 = (tb_Flush sn string_file r) \<lparr> tb_closed := True \<rparr>"
  have r0: "tb_rep sn r0 opt bs [] seps" using r by (auto simp: r0_def tb_rep_def split: if_splits)
  have opt: "tb_options r0 = opt" "tb_status r0 = OK" "tb_index_restart_interval r0 = 1"
    "tb_file r0 = concat (raws sn opt bs)" "tb_offset r0 = word_of_nat (length (concat (raws sn opt bs)))"
    "tb_index_block r0 = bb_add_all 1 (index_entries sn opt bs seps)" "tb_filter_block r0 = filter_state sn opt bs []"
    using r0 by (auto simp: tb_rep_def)
  define r1 where "r1 = r0 \<lparr> tb_status := OK, tb_file := table_body sn opt bs, tb_offset := word_of_nat (length (table_body sn opt bs)) \<rparr>"
  have 1: "\<exists>h. tb_Finish_filter string_file r0 = (r1, h) \<and> (opt_filter_policy opt \<noteq> None \<longrightarrow> h = filter_handle sn opt bs)"
  proof (cases "opt_filter_policy opt")
    case None
    then show ?thesis
      using opt by (simp add: tb_Finish_filter_def filter_state_def r1_def table_body_def filter_part_def)
  next
    case (Some p)
    then show ?thesis
      using opt by (simp add: tb_Finish_filter_def filter_state_def r1_def table_body_def filter_part_def filter_bytes_def
          tb_ok_def status_ok_def fb_run_def [symmetric] WriteRawBlock_string_file filter_handle_def)
  qed
  then obtain h where h: "tb_Finish_filter string_file r0 = (r1, h)" "opt_filter_policy opt \<noteq> None \<longrightarrow> h = filter_handle sn opt bs"
    by blast
  define r2 where "r2 = r1 \<lparr> tb_file := table_body sn opt bs @ raw_block (opt_compression opt) (meta_stored sn opt bs),
      tb_offset := word_of_nat (length (table_body sn opt bs @ raw_block (opt_compression opt) (meta_stored sn opt bs))) \<rparr>"
  have 2: "tb_Finish_metaindex sn string_file r1 h = (r2, ft_metaindex_handle (table_footer sn opt bs seps'))"
  proof -
    have "(case (tb_filter_block r1, opt_filter_policy (tb_options r1)) of
        (Some _, Some policy) \<Rightarrow> bb_Add (opt_block_restart_interval (tb_options r1)) BlockBuilder_new
            (str ''filter.'' @ fp_Name policy) (BlockHandle_EncodeTo h [])
      | _ \<Rightarrow> BlockBuilder_new) = bb_add_all (opt_block_restart_interval opt) (meta_entries sn opt bs)"
      using opt h(2) by (auto simp: r1_def filter_state_def meta_entries_def bb_add_all_def split: option.splits)
    then show ?thesis
      using opt by (simp add: tb_Finish_metaindex_def tb_ok_def status_ok_def Let_def WriteBlock_string_file)
        (simp add: r1_def r2_def table_footer_def meta_stored_def block_stored_def block_bytes_def)
  qed
  define r3 where "r3 = r2 \<lparr> tb_index_block := BlockBuilder_new, tb_pending_index_entry := False,
      tb_last_key := (if tb_pending_index_entry r0 then cmp_FindShortSuccessor (opt_comparator opt) (tb_last_key r0) else tb_last_key r0),
      tb_file := tb_file r2 @ raw_block (opt_compression opt) (index_stored sn opt bs seps'),
      tb_offset := tb_offset r2 + word_of_nat (length (raw_block (opt_compression opt) (index_stored sn opt bs seps'))) \<rparr>"
  have 3: "tb_Finish_index sn string_file r2 = (r3, ft_index_handle (table_footer sn opt bs seps'))"
  proof -
    define r2' where "r2' = r2 \<lparr> tb_last_key := tb_last_key r3,
        tb_index_block := bb_add_all 1 (index_entries sn opt bs seps'), tb_pending_index_entry := False \<rparr>"
    have ph: "tb_pending_handle r0 = handle_of sn opt bs (length seps)" if "tb_pending_index_entry r0"
      using r0 that by (simp add: tb_rep_def)
    have "(if tb_pending_index_entry r2
        then (let last_key = cmp_FindShortSuccessor (opt_comparator (tb_options r2)) (tb_last_key r2);
                  handle_encoding = BlockHandle_EncodeTo (tb_pending_handle r2) []
              in r2 \<lparr> tb_last_key := last_key,
                     tb_index_block := bb_Add (tb_index_restart_interval r2) (tb_index_block r2) last_key handle_encoding,
                     tb_pending_index_entry := False \<rparr>)
        else r2) = r2'"
      using opt ph by (intro TableBuilder.equality)
        (auto simp: r2'_def r3_def r2_def r1_def seps'_def r0_def index_entries_snoc bb_add_all_def Let_def)
    moreover have "tb_WriteBlock sn string_file r2' (tb_index_block r2') =
        (r3 \<lparr> tb_index_block := bb_add_all 1 (index_entries sn opt bs seps') \<rparr>, BlockBuilder_new,
         ft_index_handle (table_footer sn opt bs seps'))"
      using opt by (auto simp: WriteBlock_string_file Let_def intro!: TableBuilder.equality)
        (auto simp: r2'_def r3_def r2_def r1_def table_footer_def index_stored_def index_bytes_def)
    ultimately show ?thesis
      by (simp add: tb_Finish_index_def tb_ok_def status_ok_def Let_def) (auto simp: r3_def r2_def r1_def)
  qed
  have "tb_status r3 = OK" "tb_file r3 = table_body sn opt bs @ raw_block (opt_compression opt) (meta_stored sn opt bs) @
      raw_block (opt_compression opt) (index_stored sn opt bs seps')"
    by (simp_all add: r3_def r2_def r1_def)
  then show ?thesis
    using h(1) 2 3 unfolding tb_Finish_def Let_def r0_def [symmetric]
    by (simp add: tb_ok_def status_ok_def string_file_def table_bytes_def table_footer_def)
qed

context comparator
begin

lemma tb_add_all_rep:
  assumes "opt_comparator opt = c" "entries_sorted compare valid kvs"
  shows "\<exists>bs cur seps. tb_rep sn (tb_add_all sn opt kvs) opt bs cur seps \<and> seps_ok c valid bs cur seps \<and> concat bs @ cur = kvs"
  using assms(2)
proof (induction kvs rule: rev_induct)
  case Nil
  show ?case using tb_rep_new by (fastforce simp: tb_add_all_def seps_ok_def)
next
  case (snoc e kvs)
  then obtain bs cur seps where r: "tb_rep sn (tb_add_all sn opt kvs) opt bs cur seps" "seps_ok c valid bs cur seps" "concat bs @ cur = kvs"
    by (auto simp: entries_sorted_append)
  have "entries_sorted compare valid ((concat bs @ cur) @ [(fst e, snd e)])" using snoc.prems unfolding r(3) by simp
  then have "entries_sorted compare valid (concat bs @ cur @ [(fst e, snd e)])" by simp
  from tb_Add_rep [OF r(1) assms(1) r(2) this] show ?case unfolding r(3) [symmetric] by (simp add: tb_add_all_def)
qed

lemma table_built:
  assumes "opt_comparator opt = c" "entries_sorted compare valid kvs"
  obtains bs seps where "fst (tb_Finish sn string_file (tb_add_all sn opt kvs)) = OK"
    "tb_file (snd (tb_Finish sn string_file (tb_add_all sn opt kvs))) = table_bytes sn opt bs seps"
    "concat bs = kvs" "seps_ok c valid bs [] seps" "length seps = length bs" "[] \<notin> set bs"
proof -
  let ?r = "tb_add_all sn opt kvs" let ?f = "tb_Flush sn string_file ?r"
  obtain bs0 cur seps where r: "tb_rep sn ?r opt bs0 cur seps" "seps_ok c valid bs0 cur seps" "concat bs0 @ cur = kvs"
    using tb_add_all_rep [OF assms] by blast
  define bs where "bs = (if cur = [] then bs0 else bs0 @ [cur])"
  have R: "tb_rep sn ?f opt bs [] seps" and S: "seps_ok c valid bs [] seps"
    using r tb_Flush_rep [OF r(1)] tb_Flush_empty [of sn ?r opt bs0 seps] seps_ok_flush [OF r(2)] by (auto simp: bs_def)
  have kvs: "concat bs = kvs" using r(3) by (auto simp: bs_def)
  have ne: "[] \<notin> set bs" using R by (simp add: tb_rep_def)
  let ?seps = "if tb_pending_index_entry ?f then seps @ [cmp_FindShortSuccessor (opt_comparator opt) (tb_last_key ?f)] else seps"
  have "seps_ok c valid bs [] ?seps \<and> length ?seps = length bs"
  proof (cases "tb_pending_index_entry ?f")
    case True
    then have len: "length bs = Suc (length seps)" using R by (simp add: tb_rep_def)
    then have "concat bs \<noteq> []" using ne by (cases bs) auto
    then have "tb_last_key ?f = fst (last (concat bs))" using R by (simp add: tb_rep_def)
    with seps_ok_last [OF S _ ne len] kvs assms len True show ?thesis by simp
  qed (use S R in \<open>auto simp: tb_rep_def\<close>)
  with tb_Finish_bytes [OF R] kvs ne that show ?thesis by blast
qed

end

section \<open>The offset\<close>

text \<open>On a file that never fails the offset is the size of the file, and every key is counted.\<close>

definition offset_ok :: "bytes TableBuilder \<Rightarrow> bool" where
  "offset_ok r \<longleftrightarrow> tb_status r = OK \<and> tb_offset r = word_of_nat (length (tb_file r))"

lemma offset_on_filter: "offset_ok (tb_on_filter r g) \<longleftrightarrow> offset_ok r" "tb_num_entries (tb_on_filter r g) = tb_num_entries r"
  "tb_file (tb_on_filter r g) = tb_file r" "tb_offset (tb_on_filter r g) = tb_offset r"
  by (auto simp: tb_on_filter_def offset_ok_def split: option.splits)

lemma offset_WriteRawBlock:
  assumes "offset_ok r"
  shows "offset_ok (fst (tb_WriteRawBlock string_file r b t))" "tb_num_entries (fst (tb_WriteRawBlock string_file r b t)) = tb_num_entries r"
  using assms by (auto simp: tb_WriteRawBlock_def string_file_def status_ok_def offset_ok_def Let_def kBlockTrailerSize_def)

lemma offset_WriteBlock:
  assumes "offset_ok r"
  shows "offset_ok (fst (tb_WriteBlock sn string_file r b))" "tb_num_entries (fst (tb_WriteBlock sn string_file r b)) = tb_num_entries r"
  using offset_WriteRawBlock [OF assms] by (auto simp: tb_WriteBlock_def Let_def split: prod.splits) (metis fst_conv)+

lemma offset_Flush:
  assumes "offset_ok r"
  shows "offset_ok (tb_Flush sn string_file r)" "tb_num_entries (tb_Flush sn string_file r) = tb_num_entries r"
proof -
  obtain r' b h where w: "tb_WriteBlock sn string_file r (tb_data_block r) = (r', b, h)" using prod_cases3 by blast
  have r': "offset_ok r'" "tb_num_entries r' = tb_num_entries r" using offset_WriteBlock [OF assms, of sn "tb_data_block r"] w by simp_all
  show "offset_ok (tb_Flush sn string_file r)" "tb_num_entries (tb_Flush sn string_file r) = tb_num_entries r"
    using assms r' w by (auto simp: tb_Flush_def Let_def offset_on_filter) (auto simp: offset_ok_def string_file_def)
qed

lemma offset_Add:
  assumes "offset_ok r"
  shows "offset_ok (tb_Add sn string_file r k v)" "tb_num_entries (tb_Add sn string_file r k v) = tb_num_entries r + 1"
proof -
  define r1 where "r1 = (if tb_pending_index_entry r
    then r \<lparr> tb_last_key := cmp_FindShortestSeparator (opt_comparator (tb_options r)) (tb_last_key r) k,
             tb_index_block := bb_Add (tb_index_restart_interval r) (tb_index_block r)
               (cmp_FindShortestSeparator (opt_comparator (tb_options r)) (tb_last_key r) k) (BlockHandle_EncodeTo (tb_pending_handle r) []),
             tb_pending_index_entry := False \<rparr> else r)"
  define r2 where "r2 = tb_on_filter r1 (\<lambda>p b. fb_AddKey b k)"
  define r3 where "r3 = r2 \<lparr> tb_last_key := k, tb_num_entries := tb_num_entries r2 + 1,
    tb_data_block := bb_Add (opt_block_restart_interval (tb_options r2)) (tb_data_block r2) k v \<rparr>"
  have "offset_ok r1" "tb_num_entries r1 = tb_num_entries r" using assms by (auto simp: r1_def offset_ok_def)
  then have "offset_ok r2" "tb_num_entries r2 = tb_num_entries r" by (simp_all add: r2_def offset_on_filter)
  then have r3: "offset_ok r3" "tb_num_entries r3 = tb_num_entries r + 1" by (auto simp: r3_def offset_ok_def)
  have "tb_Add sn string_file r k v =
      (if bb_CurrentSizeEstimate (tb_data_block r3) \<ge> opt_block_size (tb_options r3) then tb_Flush sn string_file r3 else r3)"
    using assms unfolding tb_Add_def r3_def r2_def r1_def Let_def by (simp add: tb_ok_def offset_ok_def status_ok_def)
  then show "offset_ok (tb_Add sn string_file r k v)" "tb_num_entries (tb_Add sn string_file r k v) = tb_num_entries r + 1"
    using r3 offset_Flush [OF r3(1)] by simp_all
qed

lemma offset_add_all: "offset_ok (tb_add_all sn opt kvs)" "tb_num_entries (tb_add_all sn opt kvs) = length kvs"
proof -
  have "offset_ok (tb_add_all sn opt kvs) \<and> tb_num_entries (tb_add_all sn opt kvs) = length kvs"
  proof (induction kvs rule: rev_induct)
    case Nil
    have "offset_ok (TableBuilder_Rep opt []) \<and> tb_num_entries (TableBuilder_Rep opt [] :: bytes TableBuilder) = 0"
      by (simp add: TableBuilder_Rep_def offset_ok_def)
    then show ?case by (simp add: tb_add_all_def TableBuilder_new_def offset_on_filter)
  next
    case (snoc e kvs)
    then show ?case using offset_Add [of "tb_add_all sn opt kvs" sn "fst e" "snd e"] by (simp add: tb_add_all_def)
  qed
  then show "offset_ok (tb_add_all sn opt kvs)" "tb_num_entries (tb_add_all sn opt kvs) = length kvs" by simp_all
qed

lemma offset_Finish:
  assumes "offset_ok r"
  shows "tb_offset (snd (tb_Finish sn string_file r)) = word_of_nat (length (tb_file (snd (tb_Finish sn string_file r))))"
proof -
  define r0 where "r0 = (tb_Flush sn string_file r) \<lparr> tb_closed := True \<rparr>"
  have r0: "offset_ok r0" using offset_Flush(1) [OF assms, of sn] by (simp add: r0_def offset_ok_def)
  obtain r1 h1 where r1: "tb_Finish_filter string_file r0 = (r1, h1)" by fastforce
  have o1: "offset_ok r1" using r0 r1 offset_WriteRawBlock(1) [OF r0]
    by (auto simp: tb_Finish_filter_def split: option.splits if_splits) (metis fst_conv)
  obtain r2 h2 where r2: "tb_Finish_metaindex sn string_file r1 h1 = (r2, h2)" by fastforce
  have o2: "offset_ok r2" using o1 r2 offset_WriteBlock(1) [OF o1, of sn]
    by (auto simp: tb_Finish_metaindex_def Let_def split: option.splits if_splits prod.splits) (metis fst_conv)+
  obtain r3 h3 where r3: "tb_Finish_index sn string_file r2 = (r3, h3)" by fastforce
  have o3: "offset_ok r3"
  proof -
    define q where "q = (if tb_pending_index_entry r2
      then r2 \<lparr> tb_last_key := cmp_FindShortSuccessor (opt_comparator (tb_options r2)) (tb_last_key r2),
             tb_index_block := bb_Add (tb_index_restart_interval r2) (tb_index_block r2)
               (cmp_FindShortSuccessor (opt_comparator (tb_options r2)) (tb_last_key r2)) (BlockHandle_EncodeTo (tb_pending_handle r2) []),
             tb_pending_index_entry := False \<rparr> else r2)"
    have "offset_ok q" using o2 by (auto simp: q_def offset_ok_def)
    obtain q' b h where q': "tb_WriteBlock sn string_file q (tb_index_block q) = (q', b, h)" using prod_cases3 by blast
    then have "offset_ok q'" using offset_WriteBlock(1) [OF \<open>offset_ok q\<close>, of sn "tb_index_block q"] by simp
    moreover have "r3 = q' \<lparr> tb_index_block := b \<rparr>" using r3 q' o2 unfolding tb_Finish_index_def Let_def q_def [symmetric]
      by (simp add: tb_ok_def offset_ok_def status_ok_def)
    ultimately show ?thesis by (simp add: offset_ok_def)
  qed
  show ?thesis using o3 r1 r2 r3 unfolding tb_Finish_def Let_def r0_def [symmetric]
    by (simp add: tb_ok_def offset_ok_def status_ok_def string_file_def)
qed

end
