(* ===== verification/Two_Level.thy ===== *)
theory Two_Level
  imports Iterators
begin

text \<open>
  The two level iterator of \<open>kv/table/two_level_iterator.cpp\<close>: an iterator over index entries,
  each of which names a block, and an iterator over the current block. The block function is a
  parameter. The loops that skip empty blocks return only if the index iterator comes to an end,
  so they are partial functions; the theorem shows that over an index whose keys separate its blocks
  they return, and that the whole is an iterator over the concatenated blocks.
\<close>

record ('i, 'd) TwoLevelIter =
  tl_index :: "'i IteratorWrapper"
  tl_data :: "'d IteratorWrapper"
  tl_handle :: bytes
  tl_status :: status

definition TwoLevelIter_new :: "'i Iterator \<Rightarrow> 'i \<Rightarrow> ('i, 'd) TwoLevelIter" where
  "TwoLevelIter_new I index_iter =
     \<lparr> tl_index = iw_Set I IteratorWrapper_new (Some index_iter), tl_data = IteratorWrapper_new,
       tl_handle = [], tl_status = OK \<rparr>"

definition tl_get_status :: "'i Iterator \<Rightarrow> 'd Iterator \<Rightarrow> ('i, 'd) TwoLevelIter \<Rightarrow> status" where
  "tl_get_status I D s =
     (if \<not> status_ok (iw_status I (tl_index s)) then iw_status I (tl_index s)
      else if iw_iter (tl_data s) \<noteq> None \<and> \<not> status_ok (iw_status D (tl_data s)) then iw_status D (tl_data s)
      else tl_status s)"

definition tl_SaveError :: "('i, 'd) TwoLevelIter \<Rightarrow> status \<Rightarrow> ('i, 'd) TwoLevelIter" where
  "tl_SaveError s e = (if status_ok (tl_status s) \<and> \<not> status_ok e then s \<lparr> tl_status := e \<rparr> else s)"

definition tl_SetDataIterator :: "'d Iterator \<Rightarrow> ('i, 'd) TwoLevelIter \<Rightarrow> 'd option \<Rightarrow> ('i, 'd) TwoLevelIter" where
  "tl_SetDataIterator D s data_iter =
     (let s = (if iw_iter (tl_data s) \<noteq> None then tl_SaveError s (iw_status D (tl_data s)) else s)
      in s \<lparr> tl_data := iw_Set D (tl_data s) data_iter \<rparr>)"

definition tl_InitDataBlock ::
  "'i Iterator \<Rightarrow> 'd Iterator \<Rightarrow> (bytes \<Rightarrow> 'd) \<Rightarrow> ('i, 'd) TwoLevelIter \<Rightarrow> ('i, 'd) TwoLevelIter" where
  "tl_InitDataBlock I D block_function s =
     (if \<not> iw_valid (tl_index s) then tl_SetDataIterator D s None
      else (let handle = iw_value I (tl_index s) in
            if iw_iter (tl_data s) \<noteq> None \<and> Slice_compare handle (tl_handle s) = 0 then s
            else (let iter = block_function handle
                  in tl_SetDataIterator D (s \<lparr> tl_handle := handle \<rparr>) (Some iter))))"

text \<open>\<open>if (data_iter_.iter() != nullptr) data_iter_.op();\<close>\<close>

definition tl_on_data :: "'d Iterator \<Rightarrow> ('d \<Rightarrow> 'd) \<Rightarrow> ('i, 'd) TwoLevelIter \<Rightarrow> ('i, 'd) TwoLevelIter" where
  "tl_on_data D f s = (if iw_iter (tl_data s) \<noteq> None then s \<lparr> tl_data := iw_map D f (tl_data s) \<rparr> else s)"

definition tl_on_index :: "'i Iterator \<Rightarrow> ('i \<Rightarrow> 'i) \<Rightarrow> ('i, 'd) TwoLevelIter \<Rightarrow> ('i, 'd) TwoLevelIter" where
  "tl_on_index I f s = s \<lparr> tl_index := iw_map I f (tl_index s) \<rparr>"

partial_function (option) SkipEmptyDataBlocksForward ::
  "'i Iterator \<Rightarrow> 'd Iterator \<Rightarrow> (bytes \<Rightarrow> 'd) \<Rightarrow> ('i, 'd) TwoLevelIter \<Rightarrow> ('i, 'd) TwoLevelIter option" where
  "SkipEmptyDataBlocksForward I D block_function s =
     (if iw_iter (tl_data s) = None \<or> \<not> iw_valid (tl_data s) then
        (if \<not> iw_valid (tl_index s) then Some (tl_SetDataIterator D s None)
         else SkipEmptyDataBlocksForward I D block_function
                (tl_on_data D (it_SeekToFirst D)
                  (tl_InitDataBlock I D block_function (tl_on_index I (it_Next I) s))))
      else Some s)"

partial_function (option) SkipEmptyDataBlocksBackward ::
  "'i Iterator \<Rightarrow> 'd Iterator \<Rightarrow> (bytes \<Rightarrow> 'd) \<Rightarrow> ('i, 'd) TwoLevelIter \<Rightarrow> ('i, 'd) TwoLevelIter option" where
  "SkipEmptyDataBlocksBackward I D block_function s =
     (if iw_iter (tl_data s) = None \<or> \<not> iw_valid (tl_data s) then
        (if \<not> iw_valid (tl_index s) then Some (tl_SetDataIterator D s None)
         else SkipEmptyDataBlocksBackward I D block_function
                (tl_on_data D (it_SeekToLast D)
                  (tl_InitDataBlock I D block_function (tl_on_index I (it_Prev I) s))))
      else Some s)"

definition tl_Seek :: "'i Iterator \<Rightarrow> 'd Iterator \<Rightarrow> (bytes \<Rightarrow> 'd) \<Rightarrow> ('i, 'd) TwoLevelIter \<Rightarrow> bytes \<Rightarrow>
    ('i, 'd) TwoLevelIter option" where
  "tl_Seek I D block_function s target =
     SkipEmptyDataBlocksForward I D block_function
       (tl_on_data D (\<lambda>d. it_Seek D d target)
         (tl_InitDataBlock I D block_function (tl_on_index I (\<lambda>i. it_Seek I i target) s)))"

definition tl_SeekToFirst :: "'i Iterator \<Rightarrow> 'd Iterator \<Rightarrow> (bytes \<Rightarrow> 'd) \<Rightarrow> ('i, 'd) TwoLevelIter \<Rightarrow>
    ('i, 'd) TwoLevelIter option" where
  "tl_SeekToFirst I D block_function s =
     SkipEmptyDataBlocksForward I D block_function
       (tl_on_data D (it_SeekToFirst D)
         (tl_InitDataBlock I D block_function (tl_on_index I (it_SeekToFirst I) s)))"

definition tl_SeekToLast :: "'i Iterator \<Rightarrow> 'd Iterator \<Rightarrow> (bytes \<Rightarrow> 'd) \<Rightarrow> ('i, 'd) TwoLevelIter \<Rightarrow>
    ('i, 'd) TwoLevelIter option" where
  "tl_SeekToLast I D block_function s =
     SkipEmptyDataBlocksBackward I D block_function
       (tl_on_data D (it_SeekToLast D)
         (tl_InitDataBlock I D block_function (tl_on_index I (it_SeekToLast I) s)))"

definition tl_Next :: "'i Iterator \<Rightarrow> 'd Iterator \<Rightarrow> (bytes \<Rightarrow> 'd) \<Rightarrow> ('i, 'd) TwoLevelIter \<Rightarrow>
    ('i, 'd) TwoLevelIter option" where
  "tl_Next I D block_function s =
     SkipEmptyDataBlocksForward I D block_function (s \<lparr> tl_data := iw_map D (it_Next D) (tl_data s) \<rparr>)"

definition tl_Prev :: "'i Iterator \<Rightarrow> 'd Iterator \<Rightarrow> (bytes \<Rightarrow> 'd) \<Rightarrow> ('i, 'd) TwoLevelIter \<Rightarrow>
    ('i, 'd) TwoLevelIter option" where
  "tl_Prev I D block_function s =
     SkipEmptyDataBlocksBackward I D block_function (s \<lparr> tl_data := iw_map D (it_Prev D) (tl_data s) \<rparr>)"

text \<open>
  As a record of virtual functions. An operation that does not return has no value of its own; the
  state it was called with stands for it, and the theorem below shows that it does not occur.
\<close>

definition TwoLevelIterator :: "'i Iterator \<Rightarrow> 'd Iterator \<Rightarrow> (bytes \<Rightarrow> 'd) \<Rightarrow> ('i, 'd) TwoLevelIter Iterator" where
  "TwoLevelIterator I D block_function =
     \<lparr> it_Valid = (\<lambda>s. iw_valid (tl_data s)),
       it_SeekToFirst = (\<lambda>s. case_option s id (tl_SeekToFirst I D block_function s)),
       it_SeekToLast = (\<lambda>s. case_option s id (tl_SeekToLast I D block_function s)),
       it_Seek = (\<lambda>s target. case_option s id (tl_Seek I D block_function s target)),
       it_Next = (\<lambda>s. case_option s id (tl_Next I D block_function s)),
       it_Prev = (\<lambda>s. case_option s id (tl_Prev I D block_function s)),
       it_key = (\<lambda>s. iw_key (tl_data s)), it_value = (\<lambda>s. iw_value D (tl_data s)),
       it_status = tl_get_status I D \<rparr>"

section \<open>Where the iterator stands\<close>

text \<open>
  An index is a list of entries, a key and a handle; \<open>content\<close> gives the entries of the block of a
  handle. The keys of the index separate the blocks.
\<close>

definition blocks_of :: "(bytes \<Rightarrow> entry list) \<Rightarrow> entry list \<Rightarrow> entry list list" where
  "blocks_of content idx = map (content \<circ> snd) idx"

definition index_ok :: "(bytes \<Rightarrow> bytes \<Rightarrow> int) \<Rightarrow> (bytes \<Rightarrow> bool) \<Rightarrow> (bytes \<Rightarrow> entry list) \<Rightarrow> entry list \<Rightarrow> bool" where
  "index_ok compare good content idx \<longleftrightarrow> (\<forall>e\<in>set idx. good (snd e)) \<and>
     (\<forall>j<length idx. \<forall>e\<in>set (content (snd (idx ! j))). compare (fst e) (fst (idx ! j)) \<le> 0) \<and>
     (\<forall>j j'. j < j' \<longrightarrow> j' < length idx \<longrightarrow>
        (\<forall>e\<in>set (content (snd (idx ! j'))). compare (fst (idx ! j)) (fst e) < 0))"

lemma status_ok_OK [simp]: "status_ok OK"
  by (simp add: status_ok_def)

locale two_level = idx: wrapped_iterator compare valid I repI + dat: wrapped_iterator compare valid D repD
  for compare valid and I :: "'i Iterator" and repI and D :: "'d Iterator" and repD +
  fixes block_function :: "bytes \<Rightarrow> 'd" and content :: "bytes \<Rightarrow> entry list" and good :: "bytes \<Rightarrow> bool"
  assumes block_function_rep: "good h \<Longrightarrow> \<exists>p. repD (block_function h) (content h) p"
begin

text \<open>
  The index is at \<open>j\<close> and the data iterator, if there is a block, at \<open>k\<close> in it; before the block is
  looked up, the data iterator may still be over the block of the last handle.
\<close>

definition tl_at :: "('i, 'd) TwoLevelIter \<Rightarrow> entry list \<Rightarrow> nat \<Rightarrow> nat \<Rightarrow> bool" where
  "tl_at s idx j k \<longleftrightarrow> index_ok compare good content idx \<and> iw_rep I repI (tl_index s) idx j \<and> tl_status s = OK \<and>
     (if j < length idx
      then iw_rep D repD (tl_data s) (content (snd (idx ! j))) k \<and> tl_handle s = snd (idx ! j)
      else iw_iter (tl_data s) = None \<and> \<not> iw_valid (tl_data s))"

definition tl_loose :: "('i, 'd) TwoLevelIter \<Rightarrow> entry list \<Rightarrow> nat \<Rightarrow> bool" where
  "tl_loose s idx j \<longleftrightarrow> index_ok compare good content idx \<and> iw_rep I repI (tl_index s) idx j \<and> tl_status s = OK \<and>
     (if iw_iter (tl_data s) = None then \<not> iw_valid (tl_data s)
      else \<exists>p. iw_rep D repD (tl_data s) (content (tl_handle s)) p)"

lemma iw_rep_not_None: "iw_rep J r w es i \<Longrightarrow> iw_iter w \<noteq> None"
  by (auto simp: iw_rep_def)

lemma tl_at_loose: "tl_at s idx j k \<Longrightarrow> tl_loose s idx j"
  by (auto simp: tl_at_def tl_loose_def dest: iw_rep_not_None split: if_splits)

lemma idx_Valid: "iw_rep I repI w idx j \<Longrightarrow> iw_valid w \<longleftrightarrow> j < length idx"
  using idx.w.rep_Valid by (simp add: WrappedIterator_def)

lemma dat_Valid: "iw_rep D repD w es k \<Longrightarrow> iw_valid w \<longleftrightarrow> k < length es"
  using dat.w.rep_Valid by (simp add: WrappedIterator_def)

lemma dat_status: "iw_rep D repD w es k \<Longrightarrow> iw_status D w = OK"
  using dat.w.rep_status by (simp add: WrappedIterator_def)

lemma idx_status: "iw_rep I repI w es k \<Longrightarrow> iw_status I w = OK"
  using idx.w.rep_status by (simp add: WrappedIterator_def)

lemma SetDataIterator_loose:
  assumes "tl_loose s idx j"
  shows "tl_SetDataIterator D (s \<lparr> tl_handle := h \<rparr>) d = s \<lparr> tl_handle := h, tl_data := iw_Set D (tl_data s) d \<rparr>"
  using assms dat_status by (auto simp: tl_loose_def tl_SetDataIterator_def tl_SaveError_def Let_def split: if_splits)

lemma SetDataIterator_None:
  assumes "tl_loose s idx j"
  shows "tl_SetDataIterator D s None = s \<lparr> tl_data := (tl_data s) \<lparr> iw_iter := None, iw_valid := False \<rparr> \<rparr>"
  using SetDataIterator_loose [OF assms, of "tl_handle s" None] by (simp add: iw_Set_def)

lemma InitDataBlock_at:
  assumes l: "tl_loose s idx j"
  shows "\<exists>k. tl_at (tl_InitDataBlock I D block_function s) idx j k"
proof (cases "j < length idx")
  case True
  have r: "iw_rep I repI (tl_index s) idx j" and ok: "index_ok compare good content idx" using l by (auto simp: tl_loose_def)
  have v: "iw_valid (tl_index s)" using idx_Valid [OF r] True by simp
  have h: "iw_value I (tl_index s) = snd (idx ! j)"
    using idx.w.rep_entry [OF r True] by (simp add: WrappedIterator_def prod_eq_iff)
  have good: "good (snd (idx ! j))" using ok True by (simp add: index_ok_def)
  show ?thesis
  proof (cases "iw_iter (tl_data s) \<noteq> None \<and> snd (idx ! j) = tl_handle s")
    case same: True
    then have "tl_InitDataBlock I D block_function s = s"
      using v h by (simp add: tl_InitDataBlock_def Slice_compare_eq)
    then show ?thesis using l same True by (auto simp: tl_loose_def tl_at_def)
  next
    case False
    then have "tl_InitDataBlock I D block_function s = s \<lparr> tl_handle := snd (idx ! j),
        tl_data := iw_Set D (tl_data s) (Some (block_function (snd (idx ! j)))) \<rparr>"
      using v h SetDataIterator_loose [OF l] by (auto simp: tl_InitDataBlock_def Slice_compare_eq Let_def)
    moreover obtain p where "repD (block_function (snd (idx ! j))) (content (snd (idx ! j))) p"
      using block_function_rep [OF good] by blast
    ultimately have "tl_at (tl_InitDataBlock I D block_function s) idx j p"
      using r ok l True by (simp add: tl_at_def tl_loose_def iw_rep_Set)
    then show ?thesis by blast
  qed
next
  case False
  then have "\<not> iw_valid (tl_index s)" using l idx_Valid by (auto simp: tl_loose_def)
  then show ?thesis using l False
    by (simp add: tl_InitDataBlock_def SetDataIterator_None [OF l]) (simp add: tl_at_def tl_loose_def)
qed

lemma on_index_loose:
  assumes "tl_loose s idx j" "\<And>i. repI i idx j \<Longrightarrow> repI (f i) idx j'"
  shows "tl_loose (tl_on_index I f s) idx j'"
proof -
  obtain i where "iw_iter (tl_index s) = Some i" "repI i idx j"
    using assms(1) by (auto simp: tl_loose_def iw_rep_def)
  then have "iw_rep I repI (iw_map I f (tl_index s)) idx j'" using assms(2) iw_rep_map by metis
  then show ?thesis using assms(1) by (simp add: tl_loose_def tl_on_index_def)
qed

lemma on_data_at:
  assumes a: "tl_at s idx j k" and f: "\<And>d p. j < length idx \<Longrightarrow> repD d (content (snd (idx ! j))) p \<Longrightarrow> repD (f d) (content (snd (idx ! j))) k'"
  shows "tl_at (tl_on_data D f s) idx j k'"
proof (cases "j < length idx")
  case True
  then obtain d where "iw_iter (tl_data s) = Some d" "repD d (content (snd (idx ! j))) k"
    using a by (auto simp: tl_at_def iw_rep_def)
  then have "iw_rep D repD (iw_map D f (tl_data s)) (content (snd (idx ! j))) k'" using f True iw_rep_map by metis
  with a True show ?thesis by (auto simp: tl_at_def tl_on_data_def dest: iw_rep_not_None)
next
  case False
  with a show ?thesis by (simp add: tl_at_def tl_on_data_def)
qed

lemma move_to:
  assumes "tl_loose s idx j" "\<And>i. repI i idx j \<Longrightarrow> repI (f i) idx j'"
    and "\<And>d p. j' < length idx \<Longrightarrow> repD d (content (snd (idx ! j'))) p \<Longrightarrow> repD (g d) (content (snd (idx ! j'))) k'"
  shows "tl_at (tl_on_data D g (tl_InitDataBlock I D block_function (tl_on_index I f s))) idx j' k'"
proof -
  have "tl_loose (tl_on_index I f s) idx j'" using assms(1,2) by (rule on_index_loose)
  from InitDataBlock_at [OF this] obtain k where
    "tl_at (tl_InitDataBlock I D block_function (tl_on_index I f s)) idx j' k" by blast
  then show ?thesis using assms(3) by (rule on_data_at)
qed

section \<open>Positions in the concatenated blocks\<close>

abbreviation blocks :: "entry list \<Rightarrow> entry list list" where
  "blocks idx \<equiv> blocks_of content idx"

definition tl_rep :: "('i, 'd) TwoLevelIter \<Rightarrow> entry list \<Rightarrow> nat \<Rightarrow> bool" where
  "tl_rep s es i \<longleftrightarrow> (\<exists>idx j k. es = concat (blocks idx) \<and>
     (if i < length es then tl_at s idx j k \<and> j < length idx \<and> k < length (blocks idx ! j) \<and> i = part_start (blocks idx) j + k
      else i = length es \<and> tl_loose s idx j \<and> iw_iter (tl_data s) = None))"

lemma tl_rep_at:
  "tl_at s idx j k \<Longrightarrow> j < length idx \<Longrightarrow> k < length (blocks idx ! j) \<Longrightarrow>
    tl_rep s (concat (blocks idx)) (part_start (blocks idx) j + k)"
  using part_start_less [of j "blocks idx" k]
  unfolding tl_rep_def by (intro exI [of _ idx] exI [of _ j] exI [of _ k]) (simp add: blocks_of_def)

lemma tl_rep_end:
  "tl_loose s idx j \<Longrightarrow> iw_iter (tl_data s) = None \<Longrightarrow> tl_rep s (concat (blocks idx)) (length (concat (blocks idx)))"
  by (auto simp: tl_rep_def)

lemma length_blocks [simp]: "length (blocks idx) = length idx"
  by (simp add: blocks_of_def)

lemma nth_blocks: "j < length idx \<Longrightarrow> blocks idx ! j = content (snd (idx ! j))"
  by (simp add: blocks_of_def)

lemma tl_at_data: "tl_at s idx j k \<Longrightarrow> j < length idx \<Longrightarrow>
    iw_rep D repD (tl_data s) (blocks idx ! j) k \<and> iw_iter (tl_data s) \<noteq> None \<and> (iw_valid (tl_data s) \<longleftrightarrow> k < length (blocks idx ! j))"
  using dat_Valid iw_rep_not_None by (auto simp: tl_at_def nth_blocks)

lemma tl_at_index: "tl_at s idx j k \<Longrightarrow> iw_valid (tl_index s) \<longleftrightarrow> j < length idx"
  using idx_Valid by (auto simp: tl_at_def)

lemma skip_end:
  assumes a: "tl_at s idx j k" and j: "\<not> j < length idx"
  shows "tl_rep (tl_SetDataIterator D s None) (concat (blocks idx)) (length (concat (blocks idx)))"
proof -
  note l = tl_at_loose [OF a]
  have "tl_loose (tl_SetDataIterator D s None) idx j" "iw_iter (tl_data (tl_SetDataIterator D s None)) = None"
    using l by (simp_all add: SetDataIterator_None [OF l]) (simp add: tl_loose_def)
  then show ?thesis by (rule tl_rep_end)
qed

lemma SkipForward_rep:
  assumes "tl_at s idx j k" "j < length idx \<Longrightarrow> k \<le> length (blocks idx ! j)" "\<not> j < length idx \<Longrightarrow> k = 0" "j \<le> length idx"
  shows "\<exists>s'. SkipEmptyDataBlocksForward I D block_function s = Some s' \<and>
    tl_rep s' (concat (blocks idx)) (part_start (blocks idx) j + k)"
  using assms
proof (induction "length idx - j" arbitrary: s j k)
  case 0
  then have j: "j = length idx" by simp
  then have "iw_iter (tl_data s) = None" "\<not> iw_valid (tl_index s)"
    using 0 tl_at_index [OF "0.prems"(1)] by (auto simp: tl_at_def)
  then have "SkipEmptyDataBlocksForward I D block_function s = Some (tl_SetDataIterator D s None)"
    by (subst SkipEmptyDataBlocksForward.simps) simp
  with skip_end [OF "0.prems"(1)] j "0.prems"(3) show ?case
    using part_start_all [of "blocks idx"] by simp
next
  case (Suc n)
  then have j: "j < length idx" by simp
  note d = tl_at_data [OF Suc.prems(1) j] and v = tl_at_index [OF Suc.prems(1)]
  show ?case
  proof (cases "k < length (blocks idx ! j)")
    case True
    then have "SkipEmptyDataBlocksForward I D block_function s = Some s"
      using d by (subst SkipEmptyDataBlocksForward.simps) auto
    with tl_rep_at [OF Suc.prems(1) j True] show ?thesis by blast
  next
    case False
    let ?s = "tl_on_data D (it_SeekToFirst D) (tl_InitDataBlock I D block_function (tl_on_index I (it_Next I) s))"
    have a: "tl_at ?s idx (Suc j) 0"
      using move_to [OF tl_at_loose [OF Suc.prems(1)], of "it_Next I" "Suc j" "it_SeekToFirst D" 0] j
        idx.rep_Next dat.rep_SeekToFirst by fastforce
    have pos: "part_start (blocks idx) j + k = part_start (blocks idx) (Suc j) + 0"
      using part_start_Suc [of j "blocks idx"] j False Suc.prems(2) by simp
    have "SkipEmptyDataBlocksForward I D block_function s = SkipEmptyDataBlocksForward I D block_function ?s"
      using d v j False by (subst SkipEmptyDataBlocksForward.simps) simp
    with Suc.hyps(1) [OF _ a] Suc.hyps(2) j show ?thesis unfolding pos by simp
  qed
qed

text \<open>Going backwards, \<open>k\<close> is past the end of the block when the iterator fell off its front.\<close>

lemma SkipBackward_rep:
  assumes "tl_at s idx j k" "j \<le> length idx" "j < length idx \<Longrightarrow> k \<le> length (blocks idx ! j)"
  shows "\<exists>s'. SkipEmptyDataBlocksBackward I D block_function s = Some s' \<and>
    tl_rep s' (concat (blocks idx))
      (if j < length idx \<and> k < length (blocks idx ! j) then part_start (blocks idx) j + k
       else if j < length idx \<and> 0 < part_start (blocks idx) j then part_start (blocks idx) j - 1
       else length (concat (blocks idx)))"
  using assms
proof (induction j arbitrary: s k rule: less_induct)
  case (less j)
  note v = tl_at_index [OF less.prems(1)]
  show ?case
  proof (cases "j < length idx")
    case False
    then have "iw_iter (tl_data s) = None" using less.prems by (auto simp: tl_at_def)
    then have "SkipEmptyDataBlocksBackward I D block_function s = Some (tl_SetDataIterator D s None)"
      using v False by (subst SkipEmptyDataBlocksBackward.simps) simp
    with skip_end [OF less.prems(1) False] False show ?thesis by simp
  next
    case j: True
    note d = tl_at_data [OF less.prems(1) j]
    show ?thesis
    proof (cases "k < length (blocks idx ! j)")
      case True
      then have "SkipEmptyDataBlocksBackward I D block_function s = Some s"
        using d by (subst SkipEmptyDataBlocksBackward.simps) auto
      with tl_rep_at [OF less.prems(1) j True] True j show ?thesis by simp
    next
      case False
      let ?j = "if j = 0 then length idx else j - 1"
      let ?k = "length (content (snd (idx ! ?j))) - 1"
      let ?s = "tl_on_data D (it_SeekToLast D) (tl_InitDataBlock I D block_function (tl_on_index I (it_Prev I) s))"
      have a: "tl_at ?s idx ?j ?k"
        using tl_at_loose [OF less.prems(1)] idx.rep_Prev [OF _ j] dat.rep_SeekToLast by (rule move_to)
      have step: "SkipEmptyDataBlocksBackward I D block_function s = SkipEmptyDataBlocksBackward I D block_function ?s"
        using d v j False by (subst SkipEmptyDataBlocksBackward.simps) simp
      show ?thesis
      proof (cases j)
        case 0
        then have e: "tl_at ?s idx (length idx) ?k" using a by simp
        have "iw_iter (tl_data ?s) = None" using e by (simp add: tl_at_def)
        moreover have "\<not> iw_valid (tl_index ?s)" using tl_at_index [OF e] by simp
        ultimately have "SkipEmptyDataBlocksBackward I D block_function ?s = Some (tl_SetDataIterator D ?s None)"
          by (subst SkipEmptyDataBlocksBackward.simps) simp
        with skip_end [OF e] step 0 False show ?thesis by simp
      next
        case (Suc i)
        then have i: "i < length idx" and "tl_at ?s idx i (length (blocks idx ! i) - 1)"
          using a j by (simp_all add: nth_blocks)
        note IH = less.IH [of i ?s "length (blocks idx ! i) - 1"]
        have "length (blocks idx ! i) - 1 < length (blocks idx ! i) \<longleftrightarrow> blocks idx ! i \<noteq> []" by (cases "blocks idx ! i") auto
        with IH i Suc \<open>tl_at ?s idx i (length (blocks idx ! i) - 1)\<close> obtain s'
          where s': "SkipEmptyDataBlocksBackward I D block_function ?s = Some s'"
          "tl_rep s' (concat (blocks idx))
            (if blocks idx ! i \<noteq> [] then part_start (blocks idx) i + (length (blocks idx ! i) - 1)
             else if 0 < part_start (blocks idx) i then part_start (blocks idx) i - 1
             else length (concat (blocks idx)))"
          by auto
        have "part_start (blocks idx) j = part_start (blocks idx) i + length (blocks idx ! i)"
          using part_start_Suc [of i "blocks idx"] i Suc by simp
        then have "(if blocks idx ! i \<noteq> [] then part_start (blocks idx) i + (length (blocks idx ! i) - 1)
             else if 0 < part_start (blocks idx) i then part_start (blocks idx) i - 1
             else length (concat (blocks idx))) =
            (if 0 < part_start (blocks idx) j then part_start (blocks idx) j - 1 else length (concat (blocks idx)))"
          by (cases "blocks idx ! i") auto
        with s' step j False show ?thesis by simp
      qed
    qed
  qed
qed

lemma content_sorted: "good h \<Longrightarrow> sorted_wrt (\<lambda>a b. compare (fst a) (fst b) < 0) (content h)"
  using block_function_rep dat.rep_sorted by blast

lemma content_valid: "good h \<Longrightarrow> e \<in> set (content h) \<Longrightarrow> valid (fst e)"
  using block_function_rep dat.rep_keys by blast

lemma index_good: "index_ok compare good content idx \<Longrightarrow> e \<in> set idx \<Longrightarrow> good (snd e)"
  by (simp add: index_ok_def)

lemma concat_blocks_sorted:
  assumes ok: "index_ok compare good content idx" and v: "\<forall>e\<in>set idx. valid (fst e)"
  shows "sorted_wrt (\<lambda>a b. compare (fst a) (fst b) < 0) (concat (blocks idx)) \<and>
    (\<forall>e\<in>set (concat (blocks idx)). valid (fst e))"
proof
  have c: "sorted_wrt (\<lambda>a b. compare (fst a) (fst b) < 0) (content (snd e)) \<and> (\<forall>x\<in>set (content (snd e)). valid (fst x))"
    if "e \<in> set idx" for e using index_good [OF ok that] content_sorted content_valid by blast
  then show "\<forall>e\<in>set (concat (blocks idx)). valid (fst e)" by (auto simp: blocks_of_def)
  show "sorted_wrt (\<lambda>a b. compare (fst a) (fst b) < 0) (concat (blocks idx))"
  proof (rule sorted_wrt_concat)
    show "\<forall>xs\<in>set (blocks idx). sorted_wrt (\<lambda>a b. compare (fst a) (fst b) < 0) xs"
      using c by (auto simp: blocks_of_def)
    fix i j x y
    assume a: "i < j" "j < length (blocks idx)" "x \<in> set (blocks idx ! i)" "y \<in> set (blocks idx ! j)"
    then have m: "idx ! i \<in> set idx" "idx ! j \<in> set idx" "x \<in> set (content (snd (idx ! i)))" "y \<in> set (content (snd (idx ! j)))"
      by (simp_all add: nth_blocks)
    then have "compare (fst x) (fst (idx ! i)) \<le> 0" "compare (fst (idx ! i)) (fst y) < 0"
      using ok a by (auto simp: index_ok_def)
    then show "compare (fst x) (fst y) < 0"
      using idx.le_lt_trans [of "fst x" "fst (idx ! i)" "fst y"] c v m by blast
  qed
qed

lemma takeWhile_none: "(\<And>x. x \<in> set xs \<Longrightarrow> \<not> P x) \<Longrightarrow> takeWhile P xs = []"
  by (cases xs) auto

lemma seek_position:
  assumes ok: "index_ok compare good content idx" and v: "\<forall>e\<in>set idx. valid (fst e)" and t: "valid t"
  shows "seek_pos compare (concat (blocks idx)) t = part_start (blocks idx) (seek_pos compare idx t) +
    (if seek_pos compare idx t < length idx then seek_pos compare (blocks idx ! seek_pos compare idx t) t else 0)"
proof -
  let ?P = "\<lambda>e. compare (fst e) t < 0" and ?j = "seek_pos compare idx t"
  have ve: "valid (fst e)" if "e \<in> set (content (snd (idx ! i)))" "i < length idx" for e i
    using index_good [OF ok] content_valid that nth_mem by blast
  have below: "?P e" if "i < ?j" "e \<in> set (blocks idx ! i)" for i e
  proof -
    have i: "i < length idx" using that(1) idx.seek_pos_le [of idx t] by simp
    have "?P (idx ! i)" using that(1) unfolding seek_pos_def
      by (metis (mono_tags, lifting) nth_mem set_takeWhileD takeWhile_nth)
    moreover have e: "e \<in> set (content (snd (idx ! i)))" using that(2) i by (simp add: nth_blocks)
    moreover have "compare (fst e) (fst (idx ! i)) \<le> 0" using ok i e by (simp add: index_ok_def)
    ultimately show ?thesis using idx.le_lt_trans [of "fst e" "fst (idx ! i)" t] ve [OF e i] v i t by simp
  qed
  have le: "?j \<le> length (blocks idx)" using idx.seek_pos_le by simp
  have "concat (blocks idx) = concat (take ?j (blocks idx)) @ concat (drop ?j (blocks idx))"
    by (metis append_take_drop_id concat_append)
  moreover have "\<forall>e\<in>set (concat (take ?j (blocks idx))). ?P e"
  proof
    fix e assume "e \<in> set (concat (take ?j (blocks idx)))"
    then obtain b where "b \<in> set (take ?j (blocks idx))" "e \<in> set b" by auto
    then obtain i where "i < ?j" "e \<in> set (blocks idx ! i)" using le by (auto simp: in_set_conv_nth [of b])
    then show "?P e" by (rule below)
  qed
  ultimately have "takeWhile ?P (concat (blocks idx)) =
      concat (take ?j (blocks idx)) @ takeWhile ?P (concat (drop ?j (blocks idx)))"
    by (metis (no_types, lifting) takeWhile_append2)
  then have s: "seek_pos compare (concat (blocks idx)) t =
      part_start (blocks idx) ?j + length (takeWhile ?P (concat (drop ?j (blocks idx))))"
    by (simp add: seek_pos_def part_start_def)
  show ?thesis
  proof (cases "?j < length idx")
    case True
    have n: "\<not> ?P (idx ! ?j)" using True unfolding seek_pos_def by (rule nth_length_takeWhile)
    have "\<not> ?P e" if e: "e \<in> set (concat (drop (Suc ?j) (blocks idx)))" for e
    proof -
      obtain i where i: "?j < i" "i < length idx" "e \<in> set (content (snd (idx ! i)))"
      proof -
        from e obtain b where "b \<in> set (drop (Suc ?j) (blocks idx))" "e \<in> set b" by auto
        then obtain i where "i < length idx - Suc ?j" "e \<in> set (drop (Suc ?j) (blocks idx) ! i)"
          by (metis in_set_conv_nth length_blocks length_drop)
        then show thesis using that [of "Suc ?j + i"] by (simp add: nth_blocks)
      qed
      then have "compare (fst (idx ! ?j)) (fst e) < 0" using ok by (simp add: index_ok_def)
      then show ?thesis
        using n idx.lt_trans [of "fst (idx ! ?j)" "fst e" t] ve [OF i(3,2)] v t True by auto
    qed
    then have "takeWhile ?P (concat (drop (Suc ?j) (blocks idx))) = []"
      by (rule takeWhile_none)
    moreover have "concat (drop ?j (blocks idx)) = blocks idx ! ?j @ concat (drop (Suc ?j) (blocks idx))"
      using True by (simp add: Cons_nth_drop_Suc [symmetric])
    ultimately have "takeWhile ?P (concat (drop ?j (blocks idx))) = takeWhile ?P (blocks idx ! ?j)"
      by (auto simp: takeWhile_append intro!: takeWhile_eq_all_conv [THEN iffD2, symmetric])
    then show ?thesis using s True by (simp add: seek_pos_def)
  next
    case False
    with le have "drop ?j (blocks idx) = []" by simp
    with s False show ?thesis by simp
  qed
qed

lemma tl_rep_loose:
  assumes "tl_rep s es i"
  obtains idx j where "tl_loose s idx j" "es = concat (blocks idx)"
  using assms unfolding tl_rep_def by (metis tl_at_loose)

lemma tl_rep_cases:
  assumes "tl_rep s es i" "i < length es"
  obtains idx j k where "tl_at s idx j k" "es = concat (blocks idx)" "j < length idx" "k < length (blocks idx ! j)"
    "i = part_start (blocks idx) j + k"
  using assms unfolding tl_rep_def by auto

lemma loose_index: "tl_loose s idx j \<Longrightarrow> index_ok compare good content idx \<and> (\<forall>e\<in>set idx. valid (fst e)) \<and> j \<le> length idx"
  using idx.w.rep_keys idx.w.rep_range by (auto simp: tl_loose_def)

lemma tl_SeekToFirst_rep:
  assumes "tl_rep s es i"
  shows "\<exists>s'. tl_SeekToFirst I D block_function s = Some s' \<and> tl_rep s' es 0"
proof -
  obtain idx j where l: "tl_loose s idx j" "es = concat (blocks idx)" using assms by (rule tl_rep_loose)
  have "tl_at (tl_on_data D (it_SeekToFirst D) (tl_InitDataBlock I D block_function (tl_on_index I (it_SeekToFirst I) s))) idx 0 0"
    using l(1) idx.rep_SeekToFirst dat.rep_SeekToFirst by (rule move_to)
  from SkipForward_rep [OF this] l(2) show ?thesis by (simp add: tl_SeekToFirst_def)
qed

lemma tl_Seek_rep:
  assumes "tl_rep s es i" "valid t"
  shows "\<exists>s'. tl_Seek I D block_function s t = Some s' \<and> tl_rep s' es (seek_pos compare es t)"
proof -
  obtain idx j where l: "tl_loose s idx j" "es = concat (blocks idx)" using assms(1) by (rule tl_rep_loose)
  let ?j = "seek_pos compare idx t"
  let ?k = "if ?j < length idx then seek_pos compare (blocks idx ! ?j) t else 0"
  have "repD (it_Seek D d t) (content (snd (idx ! ?j))) ?k" if "?j < length idx" "repD d (content (snd (idx ! ?j))) p" for d p
    using dat.rep_Seek [OF that(2) assms(2)] that(1) by (simp add: nth_blocks)
  then have a: "tl_at (tl_on_data D (\<lambda>d. it_Seek D d t) (tl_InitDataBlock I D block_function
      (tl_on_index I (\<lambda>i. it_Seek I i t) s))) idx ?j ?k"
    using l(1) idx.rep_Seek [OF _ assms(2)] by (intro move_to)
  have "?j \<le> length idx" by (rule idx.seek_pos_le)
  then show ?thesis
    using SkipForward_rep [OF a] seek_position [of idx t] loose_index [OF l(1)] assms(2) l(2)
      idx.seek_pos_le [of "blocks idx ! ?j" t]
    unfolding tl_Seek_def by (auto split: if_splits)
qed

lemma tl_SeekToLast_rep:
  assumes "tl_rep s es i"
  shows "\<exists>s'. tl_SeekToLast I D block_function s = Some s' \<and> tl_rep s' es (length es - 1)"
proof -
  obtain idx j where l: "tl_loose s idx j" "es = concat (blocks idx)" using assms by (rule tl_rep_loose)
  let ?j = "length idx - 1" let ?k = "length (content (snd (idx ! ?j))) - 1"
  have a: "tl_at (tl_on_data D (it_SeekToLast D) (tl_InitDataBlock I D block_function (tl_on_index I (it_SeekToLast I) s))) idx ?j ?k"
    using l(1) idx.rep_SeekToLast dat.rep_SeekToLast by (rule move_to)
  have "(if ?j < length idx \<and> ?k < length (blocks idx ! ?j) then part_start (blocks idx) ?j + ?k
       else if ?j < length idx \<and> 0 < part_start (blocks idx) ?j then part_start (blocks idx) ?j - 1
       else length (concat (blocks idx))) = length es - 1"
  proof (cases "idx = []")
    case True
    then show ?thesis using l(2) by (simp add: blocks_of_def)
  next
    case False
    then have "length es = part_start (blocks idx) ?j + length (blocks idx ! ?j)"
      using part_start_Suc [of ?j "blocks idx"] part_start_all [of "blocks idx"] l(2) by simp
    with False show ?thesis using l(2) by (cases "blocks idx ! ?j") (auto simp: nth_blocks)
  qed
  with SkipBackward_rep [OF a] l(2) show ?thesis unfolding tl_SeekToLast_def by (auto simp: nth_blocks)
qed

lemma tl_Next_rep:
  assumes "tl_rep s es i" "i < length es"
  shows "\<exists>s'. tl_Next I D block_function s = Some s' \<and> tl_rep s' es (i + 1)"
proof -
  obtain idx j k where a: "tl_at s idx j k" and es: "es = concat (blocks idx)" and j: "j < length idx"
    and k: "k < length (blocks idx ! j)" and i: "i = part_start (blocks idx) j + k"
    using assms by (rule tl_rep_cases)
  note d = tl_at_data [OF a j]
  have "iw_rep D repD (iw_map D (it_Next D) (tl_data s)) (blocks idx ! j) (k + 1)"
    using dat.w.rep_Next [of "tl_data s"] d k by (simp add: WrappedIterator_def)
  then have "tl_at (s \<lparr> tl_data := iw_map D (it_Next D) (tl_data s) \<rparr>) idx j (k + 1)"
    using a j by (simp add: tl_at_def nth_blocks)
  from SkipForward_rep [OF this] j k i es show ?thesis by (simp add: tl_Next_def)
qed

lemma tl_Prev_rep:
  assumes "tl_rep s es i" "i < length es"
  shows "\<exists>s'. tl_Prev I D block_function s = Some s' \<and> tl_rep s' es (if i = 0 then length es else i - 1)"
proof -
  obtain idx j k where a: "tl_at s idx j k" and es: "es = concat (blocks idx)" and j: "j < length idx"
    and k: "k < length (blocks idx ! j)" and i: "i = part_start (blocks idx) j + k"
    using assms by (rule tl_rep_cases)
  let ?k = "if k = 0 then length (blocks idx ! j) else k - 1"
  note d = tl_at_data [OF a j]
  have "iw_rep D repD (iw_map D (it_Prev D) (tl_data s)) (blocks idx ! j) ?k"
    using dat.w.rep_Prev [of "tl_data s"] d k by (simp add: WrappedIterator_def)
  then have "tl_at (s \<lparr> tl_data := iw_map D (it_Prev D) (tl_data s) \<rparr>) idx j ?k"
    using a j by (simp add: tl_at_def nth_blocks)
  moreover have "?k \<le> length (blocks idx ! j)" using k by auto
  ultimately obtain s' where s': "SkipEmptyDataBlocksBackward I D block_function
      (s \<lparr> tl_data := iw_map D (it_Prev D) (tl_data s) \<rparr>) = Some s'" "tl_rep s' (concat (blocks idx))
      (if j < length idx \<and> ?k < length (blocks idx ! j) then part_start (blocks idx) j + ?k
       else if j < length idx \<and> 0 < part_start (blocks idx) j then part_start (blocks idx) j - 1
       else length (concat (blocks idx)))"
    using SkipBackward_rep j by (meson less_imp_le)
  have eq: "(if j < length idx \<and> ?k < length (blocks idx ! j) then part_start (blocks idx) j + ?k
       else if j < length idx \<and> 0 < part_start (blocks idx) j then part_start (blocks idx) j - 1
       else length (concat (blocks idx))) = (if i = 0 then length es else i - 1)"
    using j k i es by auto
  show ?thesis unfolding tl_Prev_def using s'(1) s'(2) [unfolded eq] es by blast
qed

lemma tl_rep_observe:
  assumes "tl_rep s es i"
  shows "iw_valid (tl_data s) \<longleftrightarrow> i < length es" and "tl_get_status I D s = OK"
    and "i < length es \<Longrightarrow> (iw_key (tl_data s), iw_value D (tl_data s)) = es ! i"
proof -
  show "tl_get_status I D s = OK"
    using assms dat_status idx_status
    by (rule_tac tl_rep_loose [OF assms]) (auto simp: tl_loose_def tl_get_status_def split: if_splits)
  show e: "(iw_key (tl_data s), iw_value D (tl_data s)) = es ! i" if lt: "i < length es"
  proof -
    obtain idx j k where a: "tl_at s idx j k" and es: "es = concat (blocks idx)" and j: "j < length idx"
      and k: "k < length (blocks idx ! j)" and i: "i = part_start (blocks idx) j + k"
      using assms lt by (rule tl_rep_cases)
    show ?thesis
      using dat.w.rep_entry [of "tl_data s" "blocks idx ! j" k] tl_at_data [OF a j] k nth_concat_part [of j "blocks idx" k] j
      unfolding es i by (simp add: WrappedIterator_def)
  qed
  show "iw_valid (tl_data s) \<longleftrightarrow> i < length es"
  proof (cases "i < length es")
    case True
    then show ?thesis using tl_rep_cases [OF assms True] tl_at_data by metis
  next
    case False
    then show ?thesis using assms by (auto simp: tl_rep_def tl_loose_def)
  qed
qed

end

sublocale two_level \<subseteq> tl: iterator compare valid "TwoLevelIterator I D block_function" tl_rep
proof
  fix s es i assume r: "tl_rep s es i"
  obtain idx j where l: "tl_loose s idx j" and es: "es = concat (blocks idx)" using r by (rule tl_rep_loose)
  note so = concat_blocks_sorted [of idx]
  show "i \<le> length es" using r by (auto simp: tl_rep_def split: if_splits)
  show "sorted_wrt (\<lambda>a b. compare (fst a) (fst b) < 0) es" using so loose_index [OF l] es by blast
  show "valid (fst e)" if "e \<in> set es" for e using so loose_index [OF l] es that by blast
  show "it_Valid (TwoLevelIterator I D block_function) s \<longleftrightarrow> i < length es"
    "it_status (TwoLevelIterator I D block_function) s = OK"
    using tl_rep_observe [OF r] by (simp_all add: TwoLevelIterator_def)
  show "(it_key (TwoLevelIterator I D block_function) s, it_value (TwoLevelIterator I D block_function) s) = es ! i"
    if "i < length es" using tl_rep_observe(3) [OF r that] by (simp add: TwoLevelIterator_def)
  show "tl_rep (it_SeekToFirst (TwoLevelIterator I D block_function) s) es 0"
    using tl_SeekToFirst_rep [OF r] by (auto simp: TwoLevelIterator_def)
  show "tl_rep (it_SeekToLast (TwoLevelIterator I D block_function) s) es (length es - 1)"
    using tl_SeekToLast_rep [OF r] by (auto simp: TwoLevelIterator_def)
  show "tl_rep (it_Seek (TwoLevelIterator I D block_function) s t) es (seek_pos compare es t)" if "valid t" for t
    using tl_Seek_rep [OF r that] by (auto simp: TwoLevelIterator_def)
  show "tl_rep (it_Next (TwoLevelIterator I D block_function) s) es (i + 1)" if "i < length es"
    using tl_Next_rep [OF r that] by (auto simp: TwoLevelIterator_def)
  show "tl_rep (it_Prev (TwoLevelIterator I D block_function) s) es (if i = 0 then length es else i - 1)" if "i < length es"
    using tl_Prev_rep [OF r that] by (auto simp: TwoLevelIterator_def)
qed

end
