(* ===== verification/Table.thy ===== *)
theory Table
  imports Table_Builder Two_Level
begin

text \<open>
  Tables, \<open>kv/table/table.cpp\<close>: opening a file that the table builder wrote, its iterator (the
  two level iterator over the index block), and the lookup of a key. The block cache is seen
  through its lookup function, and a block reader returns the block it inserts. Theorems: the iterator of a
  table reads the entries the table was built from, and a lookup finds the entry at or after its key.
\<close>

record ReadOptions =
  ro_verify_checksums :: bool
  ro_fill_cache :: bool

record Table =
  tbl_options :: Options
  tbl_file :: RandomAccessFile
  tbl_cache_id :: u64
  tbl_filter :: "FilterBlockReader option"
  tbl_metaindex_handle :: BlockHandle
  tbl_index_block :: Block

text \<open>A block has an iterator of its own, or an empty one.\<close>

definition AnyBlockIterator :: "(bytes \<Rightarrow> bytes \<Rightarrow> int) \<Rightarrow> (status + BlockIter) Iterator" where
  "AnyBlockIterator compare = EitherIterator EmptyIterator (BlockIterator compare)"

section \<open>Opening\<close>

definition Table_ReadFilter :: "Snappy \<Rightarrow> Table \<Rightarrow> bytes \<Rightarrow> Table" where
  "Table_ReadFilter sn t filter_handle_value =
     (let (s, filter_handle, _) = BlockHandle_DecodeFrom BlockHandle_new filter_handle_value in
      if \<not> status_ok s then t
      else (let (s, block) = ReadBlock sn (tbl_file t) (opt_paranoid_checks (tbl_options t)) filter_handle
            in if \<not> status_ok s then t
               else t \<lparr> tbl_filter := Some (FilterBlockReader_new (bc_data block)) \<rparr>))"

definition Table_ReadMeta :: "Snappy \<Rightarrow> Table \<Rightarrow> Footer \<Rightarrow> Table" where
  "Table_ReadMeta sn t footer =
     (case opt_filter_policy (tbl_options t) of
        None \<Rightarrow> t
      | Some policy \<Rightarrow>
          (let (s, contents) = ReadBlock sn (tbl_file t) (opt_paranoid_checks (tbl_options t)) (ft_metaindex_handle footer) in
           if \<not> status_ok s then t
           else (let meta = Block_new (bc_data contents);
                     I = AnyBlockIterator (cmp_Compare BytewiseComparator);
                     key = str ''filter.'' @ fp_Name policy;
                     iter = it_Seek I (Block_NewIterator meta) key
                 in if it_Valid I iter \<and> it_key I iter = key then Table_ReadFilter sn t (it_value I iter) else t)))"

definition Table_Open :: "Snappy \<Rightarrow> Options \<Rightarrow> RandomAccessFile \<Rightarrow> u64 \<Rightarrow> u64 \<Rightarrow> status \<times> Table option" where
  "Table_Open sn options rfile cache_id file_size =
     (if file_size < word_of_nat Footer_kEncodedLength
      then (status_Corruption (str ''file is too short to be an sstable'') [], None)
      else (let (s, footer_input) = rf_Read rfile (file_size - word_of_nat Footer_kEncodedLength) (word_of_nat Footer_kEncodedLength) in
            if \<not> status_ok s then (s, None)
            else (let (s, footer, _) = Footer_DecodeFrom \<lparr> ft_metaindex_handle = BlockHandle_new, ft_index_handle = BlockHandle_new \<rparr> footer_input in
                  if \<not> status_ok s then (s, None)
                  else (let (s, index_block_contents) = ReadBlock sn rfile (opt_paranoid_checks options) (ft_index_handle footer) in
                        if status_ok s
                        then (let rep = \<lparr> tbl_options = options, tbl_file = rfile, tbl_cache_id = cache_id, tbl_filter = None,
                                          tbl_metaindex_handle = ft_metaindex_handle footer,
                                          tbl_index_block = Block_new (bc_data index_block_contents) \<rparr>
                              in (s, Some (Table_ReadMeta sn rep footer)))
                        else (s, None)))))"

section \<open>Reading\<close>

definition Table_cache_key :: "Table \<Rightarrow> BlockHandle \<Rightarrow> bytes" where
  "Table_cache_key t handle = EncodeFixed64 (tbl_cache_id t) @ EncodeFixed64 (bh_offset handle)"

text \<open>
  The iterator, and the key and block that were inserted into the cache. \<open>lookup\<close> is the cache's
  \<open>Lookup\<close>, \<open>None\<close> when there is no cache.
\<close>

definition Table_BlockReader ::
  "Snappy \<Rightarrow> (bytes \<Rightarrow> Block option) option \<Rightarrow> Table \<Rightarrow> ReadOptions \<Rightarrow> bytes \<Rightarrow>
    (status + BlockIter) \<times> (bytes \<times> Block) option" where
  "Table_BlockReader sn block_cache t options index_value =
     (let (s, handle, _) = BlockHandle_DecodeFrom BlockHandle_new index_value in
      if \<not> status_ok s then (Inl (NewErrorIterator s), None)
      else (case block_cache of
              None \<Rightarrow>
                (let (s, contents) = ReadBlock sn (tbl_file t) (ro_verify_checksums options) handle
                 in if status_ok s then (Block_NewIterator (Block_new (bc_data contents)), None)
                    else (Inl (NewErrorIterator s), None))
            | Some lookup \<Rightarrow>
                (let key = Table_cache_key t handle in
                 case lookup key of
                   Some block \<Rightarrow> (Block_NewIterator block, None)
                 | None \<Rightarrow>
                     (let (s, contents) = ReadBlock sn (tbl_file t) (ro_verify_checksums options) handle in
                      if status_ok s
                      then (let block = Block_new (bc_data contents)
                            in (Block_NewIterator block,
                                if bc_cachable contents \<and> ro_fill_cache options then Some (key, block) else None))
                      else (Inl (NewErrorIterator s), None)))))"

definition Table_block_function ::
  "Snappy \<Rightarrow> (bytes \<Rightarrow> Block option) option \<Rightarrow> Table \<Rightarrow> ReadOptions \<Rightarrow> bytes \<Rightarrow> status + BlockIter" where
  "Table_block_function sn block_cache t options index_value = fst (Table_BlockReader sn block_cache t options index_value)"

definition TableIterator ::
  "Snappy \<Rightarrow> (bytes \<Rightarrow> Block option) option \<Rightarrow> Table \<Rightarrow> ReadOptions \<Rightarrow>
    (status + BlockIter, status + BlockIter) TwoLevelIter Iterator" where
  "TableIterator sn block_cache t options =
     (let I = AnyBlockIterator (cmp_Compare (opt_comparator (tbl_options t)))
      in TwoLevelIterator I I (Table_block_function sn block_cache t options))"

definition Table_NewIterator :: "Table \<Rightarrow> (status + BlockIter, status + BlockIter) TwoLevelIter" where
  "Table_NewIterator t =
     TwoLevelIter_new (AnyBlockIterator (cmp_Compare (opt_comparator (tbl_options t)))) (Block_NewIterator (tbl_index_block t))"

text \<open>The status and the entry \<open>handle_result\<close> is called with, if any.\<close>

definition Table_InternalGet ::
  "Snappy \<Rightarrow> (bytes \<Rightarrow> Block option) option \<Rightarrow> Table \<Rightarrow> ReadOptions \<Rightarrow> bytes \<Rightarrow> status \<times> entry option" where
  "Table_InternalGet sn block_cache t options k =
     (let I = AnyBlockIterator (cmp_Compare (opt_comparator (tbl_options t)));
          iiter = it_Seek I (Block_NewIterator (tbl_index_block t)) k;
          (s, result) =
            (if it_Valid I iiter
             then (let handle_value = it_value I iiter;
                       (hs, handle, _) = BlockHandle_DecodeFrom BlockHandle_new handle_value
                   in if (case (tbl_filter t, opt_filter_policy (tbl_options t)) of
                            (Some fil, Some policy) \<Rightarrow> status_ok hs \<and> \<not> fr_KeyMayMatch policy fil (unat (bh_offset handle)) k
                          | _ \<Rightarrow> False)
                      then (OK, None)
                      else (let block_iter = it_Seek I (Table_block_function sn block_cache t options handle_value) k
                            in (it_status I block_iter,
                                if it_Valid I block_iter then Some (it_key I block_iter, it_value I block_iter) else None)))
             else (OK, None))
      in (if status_ok s then it_status I iiter else s, result))"

definition Table_ApproximateOffsetOf :: "Table \<Rightarrow> bytes \<Rightarrow> u64" where
  "Table_ApproximateOffsetOf t key =
     (let I = AnyBlockIterator (cmp_Compare (opt_comparator (tbl_options t)));
          index_iter = it_Seek I (Block_NewIterator (tbl_index_block t)) key
      in if it_Valid I index_iter
         then (let (s, handle, _) = BlockHandle_DecodeFrom BlockHandle_new (it_value I index_iter)
               in if status_ok s then bh_offset handle else bh_offset (tbl_metaindex_handle t))
         else bh_offset (tbl_metaindex_handle t))"

section \<open>The iterator over a table\<close>

definition any_rep :: "(bytes \<Rightarrow> bytes \<Rightarrow> int) \<Rightarrow> (bytes \<Rightarrow> bool) \<Rightarrow> status + BlockIter \<Rightarrow> entry list \<Rightarrow> nat \<Rightarrow> bool" where
  "any_rep compare valid = case_sum empty_rep (block_rep compare valid)"

sublocale key_order \<subseteq> any_block: two_classes compare valid EmptyIterator empty_rep "BlockIterator compare" "block_rep compare valid"
  by unfold_locales

sublocale key_order \<subseteq> any: wrapped_iterator compare valid "AnyBlockIterator compare" "any_rep compare valid"
  unfolding AnyBlockIterator_def any_rep_def wrapped_iterator_def by (rule any_block.either.iterator_axioms)

text \<open>The handles of a block reader that stand for blocks with sorted entries, and the entries.\<close>

definition reads_well :: "(bytes \<Rightarrow> bytes \<Rightarrow> int) \<Rightarrow> (bytes \<Rightarrow> bool) \<Rightarrow> (bytes \<Rightarrow> status + BlockIter) \<Rightarrow> bytes \<Rightarrow> bool" where
  "reads_well compare valid f h \<longleftrightarrow> (\<exists>es p. any_rep compare valid (f h) es p)"

definition read_entries :: "(bytes \<Rightarrow> bytes \<Rightarrow> int) \<Rightarrow> (bytes \<Rightarrow> bool) \<Rightarrow> (bytes \<Rightarrow> status + BlockIter) \<Rightarrow> bytes \<Rightarrow> entry list" where
  "read_entries compare valid f h = (SOME es. \<exists>p. any_rep compare valid (f h) es p)"

sublocale key_order \<subseteq> table: two_level compare valid "AnyBlockIterator compare" "any_rep compare valid"
    "AnyBlockIterator compare" "any_rep compare valid" f "read_entries compare valid f" "reads_well compare valid f" for f
  by unfold_locales (unfold reads_well_def read_entries_def, rule someI_ex)

sublocale comparator \<subseteq> keys: key_order "cmp_Compare c" valid
  by unfold_locales

section \<open>Opening what the builder wrote\<close>

lemma filter_entry_handle:
  "opt_filter_policy opt = Some p \<Longrightarrow>
    meta_entries sn opt bs = [(str ''filter.'' @ fp_Name p, BlockHandle_EncodeTo (filter_handle sn opt bs) [])]"
  by (simp add: meta_entries_def)

context random_file
begin

lemma read_data:
  assumes T: "contents = table_bytes sn opt bs seps" "length contents < 2 ^ 64" "snappy_ok sn" and j: "j < length bs"
  shows "\<exists>ca he. ReadBlock sn rfile v (handle_of sn opt bs j) =
    (OK, \<lparr> bc_data = block_bytes opt (bs ! j), bc_cachable = ca, bc_heap_allocated = he \<rparr>)"
proof -
  let ?rs = "raws sn opt bs"
  have "concat ?rs = concat (take j ?rs) @ ?rs ! j @ concat (drop (Suc j) ?rs)"
    using arg_cong [OF id_take_nth_drop [of j ?rs], of concat] j by simp
  then have "contents = concat (take j ?rs) @
      raw_block (opt_compression opt) (stored sn (opt_compression opt) (block_bytes opt (bs ! j))) @
      (concat (drop (Suc j) ?rs) @ filter_part sn opt bs @ raw_block (opt_compression opt) (meta_stored sn opt bs) @
       raw_block (opt_compression opt) (index_stored sn opt bs seps) @ Footer_EncodeTo (table_footer sn opt bs seps) [])"
    using j by (simp add: T(1) table_bytes_def table_body_def) (simp add: raws_def block_stored_def)
  from ReadBlock_raw_block [OF this T(2,3)] show ?thesis
    by (simp add: handle_of_def part_start_def block_stored_def)
qed

lemma read_filter:
  assumes T: "contents = table_bytes sn opt bs seps" "length contents < 2 ^ 64" "snappy_ok sn" and p: "opt_filter_policy opt = Some p"
  shows "\<exists>ca he. ReadBlock sn rfile v (filter_handle sn opt bs) =
    (OK, \<lparr> bc_data = filter_bytes sn opt bs, bc_cachable = ca, bc_heap_allocated = he \<rparr>)"
proof -
  have "contents = concat (raws sn opt bs) @ raw_block kNoCompression (stored sn kNoCompression (filter_bytes sn opt bs)) @
      (raw_block (opt_compression opt) (meta_stored sn opt bs) @
       raw_block (opt_compression opt) (index_stored sn opt bs seps) @ Footer_EncodeTo (table_footer sn opt bs seps) [])"
    using p by (simp add: T(1) table_bytes_def table_body_def filter_part_def stored_def)
  from ReadBlock_raw_block [OF this T(2,3)] show ?thesis by (simp add: filter_handle_def stored_def)
qed

lemma read_meta:
  assumes T: "contents = table_bytes sn opt bs seps" "length contents < 2 ^ 64" "snappy_ok sn"
  shows "\<exists>ca he. ReadBlock sn rfile v (ft_metaindex_handle (table_footer sn opt bs seps)) =
    (OK, \<lparr> bc_data = block_bytes opt (meta_entries sn opt bs), bc_cachable = ca, bc_heap_allocated = he \<rparr>)"
proof -
  have "contents = table_body sn opt bs @
      raw_block (opt_compression opt) (stored sn (opt_compression opt) (block_bytes opt (meta_entries sn opt bs))) @
      (raw_block (opt_compression opt) (index_stored sn opt bs seps) @ Footer_EncodeTo (table_footer sn opt bs seps) [])"
    by (simp add: T(1) table_bytes_def meta_stored_def block_stored_def)
  from ReadBlock_raw_block [OF this T(2,3)] show ?thesis by (simp add: table_footer_def meta_stored_def block_stored_def)
qed

lemma read_index:
  assumes T: "contents = table_bytes sn opt bs seps" "length contents < 2 ^ 64" "snappy_ok sn"
  shows "\<exists>ca he. ReadBlock sn rfile v (ft_index_handle (table_footer sn opt bs seps)) =
    (OK, \<lparr> bc_data = index_bytes sn opt bs seps, bc_cachable = ca, bc_heap_allocated = he \<rparr>)"
proof -
  have "contents = (table_body sn opt bs @ raw_block (opt_compression opt) (meta_stored sn opt bs)) @
      raw_block (opt_compression opt) (stored sn (opt_compression opt) (index_bytes sn opt bs seps)) @
      Footer_EncodeTo (table_footer sn opt bs seps) []"
    by (simp add: T(1) table_bytes_def index_stored_def)
  from ReadBlock_raw_block [OF this T(2,3)] show ?thesis by (simp add: table_footer_def index_stored_def)
qed

lemma read_footer:
  assumes T: "contents = table_bytes sn opt bs seps" "length contents < 2 ^ 64"
  shows "\<not> word_of_nat (length contents) < (word_of_nat Footer_kEncodedLength :: u64)"
    "rf_Read rfile (word_of_nat (length contents) - word_of_nat Footer_kEncodedLength) (word_of_nat Footer_kEncodedLength) =
      (OK, Footer_EncodeTo (table_footer sn opt bs seps) [])"
proof -
  let ?f = "Footer_EncodeTo (table_footer sn opt bs seps) []"
  obtain body where c: "contents = body @ ?f" using T(1) unfolding table_bytes_def by (metis append.assoc)
  have l: "length contents = length body + 48" unfolding c by (simp add: length_Footer Footer_kEncodedLength_def kMaxEncodedLength_def)
  have u: "unat (word_of_nat (length body) :: u64) = length body" "unat (48 :: u64) = 48"
    using l T(2) by (auto intro: unat_word_of_nat_u64)
  have uc: "unat (word_of_nat (length contents) :: u64) = length contents"
    using T(2) by (rule unat_word_of_nat_u64)
  show "\<not> word_of_nat (length contents) < (word_of_nat Footer_kEncodedLength :: u64)"
    unfolding word_less_nat_alt uc using l by (simp add: Footer_kEncodedLength_def kMaxEncodedLength_def)
  have "word_of_nat (length contents) - word_of_nat Footer_kEncodedLength = (word_of_nat (length body) :: u64)"
    using l by (simp add: Footer_kEncodedLength_def kMaxEncodedLength_def)
  moreover have "rf_Read rfile (word_of_nat (length body)) 48 = (OK, ?f)"
    using Read_inside [of "word_of_nat (length body)" 48] u l T(2) c by (simp add: length_Footer Footer_kEncodedLength_def kMaxEncodedLength_def)
  ultimately show "rf_Read rfile (word_of_nat (length contents) - word_of_nat Footer_kEncodedLength) (word_of_nat Footer_kEncodedLength) = (OK, ?f)"
    by (simp add: Footer_kEncodedLength_def kMaxEncodedLength_def)
qed

end

definition opened :: "Snappy \<Rightarrow> Options \<Rightarrow> RandomAccessFile \<Rightarrow> u64 \<Rightarrow> entry list list \<Rightarrow> bytes list \<Rightarrow> Table" where
  "opened sn opt rfile cache_id bs seps =
     \<lparr> tbl_options = opt, tbl_file = rfile, tbl_cache_id = cache_id,
       tbl_filter = map_option (\<lambda>_. FilterBlockReader_new (filter_bytes sn opt bs)) (opt_filter_policy opt),
       tbl_metaindex_handle = ft_metaindex_handle (table_footer sn opt bs seps),
       tbl_index_block = Block_new (index_bytes sn opt bs seps) \<rparr>"

context key_order
begin

lemma any_block_built:
  assumes "0 < n" "length (fst (bb_Finish (bb_add_all n kvs))) < 2 ^ 32" "entries_sorted compare valid kvs"
  shows "any_rep compare valid (Block_NewIterator (Block_new (fst (bb_Finish (bb_add_all n kvs))))) kvs (length kvs)"
  using block_built [OF assms(1,2)] assms(3) unfolding entries_sorted_def any_rep_def by (metis sum.case(2))

end

lemma Table_Open_built:
  assumes f: "random_file rfile contents" and T: "contents = table_bytes sn opt bs seps" "length contents < 2 ^ 64" "snappy_ok sn"
    and n: "0 < opt_block_restart_interval opt" and meta: "length (block_bytes opt (meta_entries sn opt bs)) < 2 ^ 32"
  shows "Table_Open sn opt rfile cache_id (word_of_nat (length contents)) = (OK, Some (opened sn opt rfile cache_id bs seps))"
proof -
  note footer = random_file.read_footer [OF f T(1,2)]
  have dec: "Footer_DecodeFrom f0 (Footer_EncodeTo (table_footer sn opt bs seps) []) = (OK, table_footer sn opt bs seps, [])" for f0
    using Footer_roundtrip [of f0 "table_footer sn opt bs seps" "[]"] by simp
  obtain ca he where idx: "ReadBlock sn rfile (opt_paranoid_checks opt) (ft_index_handle (table_footer sn opt bs seps)) =
    (OK, \<lparr> bc_data = index_bytes sn opt bs seps, bc_cachable = ca, bc_heap_allocated = he \<rparr>)"
    using random_file.read_index [OF f T] by blast
  let ?t = "opened sn opt rfile cache_id bs seps \<lparr> tbl_filter := None \<rparr>"
  have "Table_ReadMeta sn ?t (table_footer sn opt bs seps) = opened sn opt rfile cache_id bs seps"
  proof (cases "opt_filter_policy opt")
    case None
    then show ?thesis by (simp add: Table_ReadMeta_def opened_def)
  next
    case (Some p)
    let ?k = "str ''filter.'' @ fp_Name p" and ?I = "AnyBlockIterator (cmp_Compare BytewiseComparator)"
    have me: "meta_entries sn opt bs = [(?k, BlockHandle_EncodeTo (filter_handle sn opt bs) [])]"
      using Some by (rule filter_entry_handle)
    obtain ca he where m: "ReadBlock sn rfile (opt_paranoid_checks opt) (ft_metaindex_handle (table_footer sn opt bs seps)) =
      (OK, \<lparr> bc_data = block_bytes opt (meta_entries sn opt bs), bc_cachable = ca, bc_heap_allocated = he \<rparr>)"
      using random_file.read_meta [OF f T] by blast
    define it where "it = it_Seek ?I (Block_NewIterator (Block_new (block_bytes opt (meta_entries sn opt bs)))) ?k"
    have "any_rep (cmp_Compare BytewiseComparator) (\<lambda>_. True)
        (Block_NewIterator (Block_new (block_bytes opt (meta_entries sn opt bs)))) (meta_entries sn opt bs) (length (meta_entries sn opt bs))"
      unfolding block_bytes_def
      by (rule bytewise.keys.any_block_built) (use n meta in \<open>simp_all add: block_bytes_def entries_sorted_def me\<close>)
    from bytewise.keys.any.rep_Seek [OF this, of ?k]
    have it: "any_rep (cmp_Compare BytewiseComparator) (\<lambda>_. True) it (meta_entries sn opt bs) 0"
      by (simp add: it_def me seek_pos_def bytewise.cmp_refl)
    have v: "it_Valid ?I it" "it_key ?I it = ?k" "it_value ?I it = BlockHandle_EncodeTo (filter_handle sn opt bs) []"
      using bytewise.keys.any.rep_Valid [OF it] bytewise.keys.any.rep_entry [OF it] by (simp_all add: me)
    obtain ca' he' where fr: "ReadBlock sn rfile (opt_paranoid_checks opt) (filter_handle sn opt bs) =
      (OK, \<lparr> bc_data = filter_bytes sn opt bs, bc_cachable = ca', bc_heap_allocated = he' \<rparr>)"
      using random_file.read_filter [OF f T Some] by blast
    have "BlockHandle_DecodeFrom BlockHandle_new (BlockHandle_EncodeTo (filter_handle sn opt bs) []) = (OK, filter_handle sn opt bs, [])"
      using BlockHandle_roundtrip [of BlockHandle_new "filter_handle sn opt bs" "[]"] by (simp add: BlockHandle_EncodeTo_append)
    then show ?thesis
      using Some m fr v it_def
      by (simp add: Table_ReadMeta_def opened_def Let_def) (simp add: Table_ReadFilter_def)
  qed
  then show ?thesis
    using footer dec idx unfolding Table_Open_def
    by (simp add: status_ok_def) (simp add: opened_def)
qed

section \<open>Reading what the builder wrote\<close>

definition blocks_fit :: "Snappy \<Rightarrow> Options \<Rightarrow> entry list list \<Rightarrow> bytes list \<Rightarrow> bool" where
  "blocks_fit sn opt bs seps \<longleftrightarrow> (\<forall>b\<in>set bs. length (block_bytes opt b) < 2 ^ 32) \<and>
     length (index_bytes sn opt bs seps) < 2 ^ 32"

lemma length_index_entries [simp]: "length (index_entries sn opt bs seps) = length seps"
  by (simp add: index_entries_def)

lemma nth_index_entries: "j < length seps \<Longrightarrow>
    index_entries sn opt bs seps ! j = (seps ! j, BlockHandle_EncodeTo (handle_of sn opt bs j) [])"
  by (simp add: index_entries_def)

lemma block_function_built:
  assumes f: "random_file rfile contents" and T: "contents = table_bytes sn opt bs seps" "length contents < 2 ^ 64" "snappy_ok sn"
    and j: "j < length bs"
  shows "Table_block_function sn None (opened sn opt rfile cache_id bs seps) ro (BlockHandle_EncodeTo (handle_of sn opt bs j) []) =
    Block_NewIterator (Block_new (block_bytes opt (bs ! j)))"
proof -
  obtain ca he where r: "ReadBlock sn rfile (ro_verify_checksums ro) (handle_of sn opt bs j) =
    (OK, \<lparr> bc_data = block_bytes opt (bs ! j), bc_cachable = ca, bc_heap_allocated = he \<rparr>)"
    using random_file.read_data [OF f T j] by blast
  have "BlockHandle_DecodeFrom BlockHandle_new (BlockHandle_EncodeTo (handle_of sn opt bs j) []) = (OK, handle_of sn opt bs j, [])"
    using BlockHandle_roundtrip [of BlockHandle_new "handle_of sn opt bs j" "[]"] by (simp add: BlockHandle_EncodeTo_append)
  with r show ?thesis by (simp add: Table_block_function_def Table_BlockReader_def opened_def)
qed

context comparator
begin

lemma index_entries_sorted:
  assumes s: "seps_ok c valid bs [] seps" and kvs: "entries_sorted compare valid (concat bs)"
    and ne: "[] \<notin> set bs" and len: "length seps = length bs"
  shows "entries_sorted compare valid (index_entries sn opt bs seps)"
proof -
  have "compare (seps ! i) (seps ! j) < 0" if ij: "i < j" "j < length seps" for i j
  proof -
    have b: "bs ! j \<noteq> []" "bs ! j \<in> set bs" using ne ij len by (auto simp: in_set_conv_nth)
    then obtain e where e: "e \<in> set (bs ! j)" by (meson last_in_set)
    have "bs ! j \<in> set (drop (Suc i) bs)"
      using ij len nth_mem [of "j - Suc i" "drop (Suc i) bs"] by simp
    with e have "compare (seps ! i) (fst e) < 0" using s ij by (auto simp: seps_ok_def)
    moreover have "compare (fst e) (seps ! j) \<le> 0" "valid (seps ! i)" "valid (seps ! j)" using s ij e by (auto simp: seps_ok_def)
    moreover have "valid (fst e)" using kvs e b by (auto simp: entries_sorted_def)
    ultimately show ?thesis using lt_le_trans by blast
  qed
  moreover have "valid (seps ! j)" if "j < length seps" for j using s that by (simp add: seps_ok_def)
  ultimately show ?thesis
    unfolding entries_sorted_def sorted_wrt_iff_nth_less by (auto simp: nth_index_entries in_set_conv_nth)
qed

lemma index_built:
  fixes cache_id ro
  assumes f: "random_file rfile contents" and T: "contents = table_bytes sn opt bs seps" "length contents < 2 ^ 64" "snappy_ok sn"
    and fit: "blocks_fit sn opt bs seps" and n: "0 < opt_block_restart_interval opt"
    and s: "seps_ok c valid bs [] seps" and kvs: "entries_sorted compare valid (concat bs)"
    and ne: "[] \<notin> set bs" and len: "length seps = length bs"
  defines "bf \<equiv> Table_block_function sn None (opened sn opt rfile cache_id bs seps) ro"
  shows "index_ok compare (reads_well compare valid bf) (read_entries compare valid bf) (index_entries sn opt bs seps)"
    and "map (read_entries compare valid bf \<circ> snd) (index_entries sn opt bs seps) = bs"
    and "any_rep compare valid (Block_NewIterator (Block_new (index_bytes sn opt bs seps))) (index_entries sn opt bs seps) (length seps)"
proof -
  let ?idx = "index_entries sn opt bs seps"
  have b: "any_rep compare valid (bf (snd (?idx ! j))) (bs ! j) (length (bs ! j))" if j: "j < length bs" for j
  proof -
    have "concat bs = concat (take j bs) @ bs ! j @ concat (drop (Suc j) bs)"
      using arg_cong [OF id_take_nth_drop [OF j], of concat] by simp
    with kvs have "entries_sorted compare valid (bs ! j)" by (simp add: entries_sorted_append)
    moreover have "length (block_bytes opt (bs ! j)) < 2 ^ 32" using fit j by (simp add: blocks_fit_def)
    ultimately
    show ?thesis
      using keys.any_block_built [OF n] j len unfolding bf_def by (simp add: nth_index_entries block_function_built [OF f T] block_bytes_def)
  qed
  have r: "read_entries compare valid bf (snd (?idx ! j)) = bs ! j" if "j < length bs" for j
  proof -
    have "reads_well compare valid bf (snd (?idx ! j))" using b [OF that] by (auto simp: reads_well_def)
    from keys.table.block_function_rep [OF this] keys.any.rep_unique b [OF that] show ?thesis by blast
  qed
  show "map (read_entries compare valid bf \<circ> snd) ?idx = bs"
    using r len by (intro nth_equalityI) simp_all
  have good: "reads_well compare valid bf (snd e)" if "e \<in> set ?idx" for e
    using that b len by (auto simp: in_set_conv_nth reads_well_def)
  have later: "compare (fst (?idx ! j)) (fst e) < 0" if "j < j'" "j' < length bs" "e \<in> set (bs ! j')" for j j' e
  proof -
    have "bs ! j' \<in> set (drop (Suc j) bs)" using that len nth_mem [of "j' - Suc j" "drop (Suc j) bs"] by simp
    with s that len show ?thesis by (auto simp: seps_ok_def nth_index_entries)
  qed
  show "index_ok compare (reads_well compare valid bf) (read_entries compare valid bf) ?idx"
    using good r len later s by (auto simp: index_ok_def seps_ok_def nth_index_entries)
  show "any_rep compare valid (Block_NewIterator (Block_new (index_bytes sn opt bs seps))) ?idx (length seps)"
    using keys.any_block_built [of 1 ?idx] index_entries_sorted [OF s kvs ne len] fit
    by (simp add: index_bytes_def blocks_fit_def)
qed

lemma table_scan:
  fixes cache_id ro
  assumes f: "random_file rfile contents" and T: "contents = table_bytes sn opt bs seps" "length contents < 2 ^ 64" "snappy_ok sn"
    and fit: "blocks_fit sn opt bs seps" and n: "0 < opt_block_restart_interval opt" and c: "opt_comparator opt = c"
    and s: "seps_ok c valid bs [] seps" and kvs: "entries_sorted compare valid (concat bs)"
    and ne: "[] \<notin> set bs" and len: "length seps = length bs"
  defines "t \<equiv> opened sn opt rfile cache_id bs seps"
  shows "length (concat bs) \<le> m \<Longrightarrow>
      it_forward (TableIterator sn None t ro) m (it_SeekToFirst (TableIterator sn None t ro) (Table_NewIterator t)) = concat bs"
    and "length (concat bs) \<le> m \<Longrightarrow>
      it_backward (TableIterator sn None t ro) m (it_SeekToLast (TableIterator sn None t ro) (Table_NewIterator t)) = rev (concat bs)"
    and "length (concat bs) \<le> m \<Longrightarrow> valid k \<Longrightarrow>
      it_forward (TableIterator sn None t ro) m (it_Seek (TableIterator sn None t ro) (Table_NewIterator t) k) =
        filter (\<lambda>e. \<not> compare (fst e) k < 0) (concat bs)"
proof -
  define bf where "bf = Table_block_function sn None t ro"
  let ?I = "AnyBlockIterator compare" and ?idx = "index_entries sn opt bs seps"
  have I: "TableIterator sn None t ro = TwoLevelIterator ?I ?I bf"
    using c by (simp add: TableIterator_def t_def opened_def bf_def Let_def)
  note built = index_built(1,2) [OF f T fit n s kvs ne len, where cache_id = cache_id and ro = ro, folded t_def, folded bf_def]
    index_built(3) [OF f T fit n s kvs ne len]
  have "keys.table.tl_loose bf (Table_NewIterator t) ?idx (length seps)"
    using built(1,3) c by (simp add: keys.table.tl_loose_def Table_NewIterator_def TwoLevelIter_new_def t_def opened_def
        IteratorWrapper_new_def iw_rep_Set)
  then have "keys.table.tl_rep bf (Table_NewIterator t) (concat bs) (length (concat bs))"
    using keys.table.tl_rep_end [of bf "Table_NewIterator t" ?idx "length seps"] built(2)
    by (simp add: Table_NewIterator_def TwoLevelIter_new_def IteratorWrapper_new_def blocks_of_def)
  note rep = this
  show "length (concat bs) \<le> m \<Longrightarrow>
      it_forward (TableIterator sn None t ro) m (it_SeekToFirst (TableIterator sn None t ro) (Table_NewIterator t)) = concat bs"
    unfolding I by (rule keys.table.tl.scan_forward [OF rep])
  show "length (concat bs) \<le> m \<Longrightarrow>
      it_backward (TableIterator sn None t ro) m (it_SeekToLast (TableIterator sn None t ro) (Table_NewIterator t)) = rev (concat bs)"
    unfolding I by (rule keys.table.tl.scan_backward [OF rep])
  show "length (concat bs) \<le> m \<Longrightarrow> valid k \<Longrightarrow>
      it_forward (TableIterator sn None t ro) m (it_Seek (TableIterator sn None t ro) (Table_NewIterator t) k) =
        filter (\<lambda>e. \<not> compare (fst e) k < 0) (concat bs)"
    unfolding I using keys.table.tl.scan_from_seek [OF rep] by blast
qed

end

section \<open>Sizes\<close>

definition entries_size :: "nat \<Rightarrow> entry list \<Rightarrow> nat" where
  "entries_size n kvs = (\<Sum>e\<leftarrow>kvs. length (fst e) + length (snd e) + n)"

lemma bb_add_all_size: "bb_CurrentSizeEstimate (bb_add_all n kvs) \<le> 8 + entries_size 19 kvs"
proof (induction kvs rule: rev_induct)
  case Nil
  show ?case by (simp add: bb_add_all_def bb_CurrentSizeEstimate_def BlockBuilder_new_def)
next
  case (snoc e kvs)
  then show ?case
    using bb_Add_size [of n "bb_add_all n kvs" "fst e" "snd e"] by (simp add: bb_add_all_def entries_size_def)
qed

lemma block_bytes_size: "length (block_bytes opt b) \<le> 8 + entries_size 19 b"
  using bb_add_all_size by (simp add: block_bytes_def bb_Finish_length)

lemma entries_size_concat: "entries_size n (concat bs) = (\<Sum>b\<leftarrow>bs. entries_size n b)"
  by (induction bs) (simp_all add: entries_size_def)

lemma entries_size_mono: "n \<le> m \<Longrightarrow> entries_size n b \<le> entries_size m b"
  unfolding entries_size_def by (intro sum_list_mono) simp

lemma entries_size_member: "b \<in> set bs \<Longrightarrow> entries_size n b \<le> entries_size n (concat bs)"
  unfolding entries_size_concat by (rule member_le_sum_list) simp_all

lemma internal_sep_length:
  "length (cmp_FindShortestSeparator (InternalKeyComparator BytewiseComparator) a b) \<le> length a"
  "length (cmp_FindShortSuccessor (InternalKeyComparator BytewiseComparator) a) \<le> length a"
  by (auto simp: InternalKeyComparator_def InternalKey_FindShortestSeparator_def InternalKey_FindShortSuccessor_def
      PutFixed64_def ExtractUserKey_def Let_def)

lemma seps_between:
  assumes "seps_ok c valid bs [] seps" "j < length seps" "concat (drop (Suc j) bs) = e # es"
  shows "seps ! j = cmp_FindShortestSeparator c (fst (last (bs ! j))) (fst e)"
proof -
  have "concat (drop (Suc j) bs) @ [] = e # es" using assms(3) by simp
  with assms(1,2) show ?thesis unfolding seps_ok_def by blast
qed

lemma seps_short:
  assumes "seps_ok (InternalKeyComparator BytewiseComparator) valid bs [] seps" "j < length seps"
  shows "length (seps ! j) \<le> length (fst (last (bs ! j)))"
proof (cases "concat (drop (Suc j) bs) @ []")
  case Nil
  then have "seps ! j = cmp_FindShortSuccessor (InternalKeyComparator BytewiseComparator) (fst (last (bs ! j)))"
    using assms unfolding seps_ok_def by blast
  then show ?thesis using internal_sep_length by simp
next
  case (Cons e es)
  then show ?thesis using seps_between [OF assms, of e es] internal_sep_length by simp
qed

lemma index_bytes_size:
  assumes s: "seps_ok (InternalKeyComparator BytewiseComparator) valid bs [] seps" and len: "length seps = length bs"
    and ne: "[] \<notin> set bs"
  shows "length (index_bytes sn opt bs seps) \<le> 8 + entries_size 39 (concat bs)"
proof -
  let ?idx = "index_entries sn opt bs seps"
  have one: "length (fst (?idx ! j)) + length (snd (?idx ! j)) + 19 \<le> entries_size 39 (bs ! j)" if j: "j < length seps" for j
  proof -
    have b: "bs ! j \<noteq> []" using ne j len by (metis nth_mem)
    have "length (snd (?idx ! j)) \<le> 20"
      using j length_BlockHandle [of "handle_of sn opt bs j"]
      by (simp add: nth_index_entries BlockHandle_EncodeTo_append kMaxEncodedLength_def)
    moreover have "length (fst (?idx ! j)) \<le> length (fst (last (bs ! j)))"
      using seps_short [OF s j] j by (simp add: nth_index_entries)
    moreover have "length (fst (last (bs ! j))) + 39 \<le> entries_size 39 (bs ! j)"
    proof -
      have "length (fst (last (bs ! j))) + length (snd (last (bs ! j))) + 39 \<le> entries_size 39 (bs ! j)"
        unfolding entries_size_def using b by (intro member_le_sum_list) auto
      then show ?thesis by simp
    qed
    ultimately show ?thesis by linarith
  qed
  have "entries_size 19 ?idx = (\<Sum>j\<leftarrow>[0..<length seps]. length (fst (?idx ! j)) + length (snd (?idx ! j)) + 19)"
    unfolding entries_size_def
    by (subst (1) map_nth [symmetric]) (simp only: map_map comp_def length_index_entries)
  also have "\<dots> \<le> (\<Sum>j\<leftarrow>[0..<length seps]. entries_size 39 (bs ! j))"
    using one by (intro sum_list_mono) auto
  also have "\<dots> = entries_size 39 (concat bs)"
    unfolding entries_size_concat len by (subst (3) map_nth [symmetric]) (simp only: map_map comp_def)
  finally show ?thesis
    using bb_add_all_size [of 1 ?idx] by (simp add: index_bytes_def bb_Finish_length)
qed

section \<open>Tables of internal keys\<close>

text \<open>The hypotheses on what goes into a table: sorted internal keys, and sizes within the format's limits.\<close>

definition table_input_ok :: "Snappy \<Rightarrow> Options \<Rightarrow> entry list \<Rightarrow> bool" where
  "table_input_ok sn opt kvs \<longleftrightarrow> snappy_ok sn \<and>
     opt_comparator opt = InternalKeyComparator BytewiseComparator \<and> 0 < opt_block_restart_interval opt \<and>
     (\<forall>p. opt_filter_policy opt = Some p \<longrightarrow> length (fp_Name p) < 2 ^ 31) \<and>
     entries_sorted (cmp_Compare (InternalKeyComparator BytewiseComparator)) (\<lambda>k. 8 \<le> length k) kvs \<and>
     entries_size 39 kvs + 8 < 2 ^ 32"

lemma ikey_comparator: "comparator (InternalKeyComparator BytewiseComparator) is_ikey"
  using internal_bytewise.comparator_axioms by simp

lemma table_input_built:
  assumes "table_input_ok sn opt kvs"
  obtains bs seps where "fst (tb_Finish sn string_file (tb_add_all sn opt kvs)) = OK"
    "tb_file (snd (tb_Finish sn string_file (tb_add_all sn opt kvs))) = table_bytes sn opt bs seps"
    "concat bs = kvs" "seps_ok (InternalKeyComparator BytewiseComparator) is_ikey bs [] seps" "length seps = length bs" "[] \<notin> set bs"
    "blocks_fit sn opt bs seps" "length (block_bytes opt (meta_entries sn opt bs)) < 2 ^ 32"
proof -
  have a: "opt_comparator opt = InternalKeyComparator BytewiseComparator" "entries_sorted internal_compare is_ikey kvs"
    and sz: "entries_size 39 kvs + 8 < 2 ^ 32"
    and p: "\<forall>p. opt_filter_policy opt = Some p \<longrightarrow> length (fp_Name p) < 2 ^ 31"
    using assms unfolding table_input_ok_def by blast+
  obtain bs seps where b: "fst (tb_Finish sn string_file (tb_add_all sn opt kvs)) = OK"
    "tb_file (snd (tb_Finish sn string_file (tb_add_all sn opt kvs))) = table_bytes sn opt bs seps"
    "concat bs = kvs" "seps_ok (InternalKeyComparator BytewiseComparator) is_ikey bs [] seps" "length seps = length bs" "[] \<notin> set bs"
    using comparator.table_built [OF ikey_comparator a] by blast
  have "length (block_bytes opt x) < 2 ^ 32" if "x \<in> set bs" for x
    using block_bytes_size [of opt x] entries_size_member [OF that, of 19] entries_size_mono [of 19 39 kvs] sz b(3) by simp
  moreover have "length (index_bytes sn opt bs seps) < 2 ^ 32"
    using index_bytes_size [OF b(4-6), of sn opt] sz b(3) by simp
  moreover have "length (block_bytes opt (meta_entries sn opt bs)) < 2 ^ 32"
  proof (cases "opt_filter_policy opt")
    case None
    then show ?thesis using block_bytes_size [of opt "meta_entries sn opt bs"] by (simp add: meta_entries_def entries_size_def)
  next
    case (Some q)
    then have "length (fp_Name q) < 2 ^ 31" using p by blast
    then show ?thesis
      using block_bytes_size [of opt "meta_entries sn opt bs"] length_BlockHandle [of "filter_handle sn opt bs"] Some
      by (simp add: meta_entries_def entries_size_def BlockHandle_EncodeTo_append kMaxEncodedLength_def str_def)
  qed
  ultimately show ?thesis using b that by (simp add: blocks_fit_def)
qed

section \<open>Looking a key up\<close>

lemma internal_sep_user_key:
  assumes "\<not> internal_compare (cmp_FindShortestSeparator (InternalKeyComparator BytewiseComparator) a b) k < 0"
    and "internal_compare a k < 0"
  shows "ExtractUserKey b \<noteq> ExtractUserKey k"
proof
  assume u: "ExtractUserKey b = ExtractUserKey k"
  let ?tmp = "Bytewise_FindShortestSeparator (ExtractUserKey a) (ExtractUserKey b)"
  let ?sep = "InternalKey_FindShortestSeparator BytewiseComparator a b"
  have ns: "\<not> InternalKey_Compare BytewiseComparator ?sep k < 0" "InternalKey_Compare BytewiseComparator a k < 0"
    using assms by (simp_all add: InternalKeyComparator_def)
  then have "?sep \<noteq> a" by auto
  then have t: "length ?tmp < length (ExtractUserKey a)" "?sep = ?tmp @ EncodeFixed64 (PackSequenceAndType kMaxSequenceNumber kValueTypeForSeek)"
    by (auto simp: InternalKey_FindShortestSeparator_def BytewiseComparator_def PutFixed64_def Let_def split: if_splits)
  then have "ExtractUserKey a < ExtractUserKey b" using Bytewise_sep_unchanged [of "ExtractUserKey b" "ExtractUserKey a"] by force
  then have "?tmp < ExtractUserKey k" using Bytewise_sep_between u by simp
  then have "ikey_of ?sep < ikey_of k" unfolding t(2) by (simp add: ikey_of_def less_ikey_def)
  with ns show False by (simp add: InternalKey_Compare_bytewise)
qed

lemma fr_KeyMayMatch_user_key:
  "ExtractUserKey a = ExtractUserKey b \<Longrightarrow>
    fr_KeyMayMatch (InternalFilterPolicy P) r off a = fr_KeyMayMatch (InternalFilterPolicy P) r off b"
  by (simp add: fr_KeyMayMatch_def InternalFilterPolicy_def)

lemma filter_calls_sorted:
  assumes "length (concat (raws sn opt bs)) < 2 ^ 64"
  shows "sorted (map fst (filter_calls sn opt bs cur))"
proof -
  have u: "unat (word_of_nat (part_start (raws sn opt bs) j) :: u64) = part_start (raws sn opt bs) j" for j
    using assms part_start_le [of "raws sn opt bs" j] by (intro unat_word_of_nat_u64) linarith
  have "part_start (raws sn opt bs) i \<le> part_start (raws sn opt bs) j" if "i \<le> j" for i j
    using that unfolding part_start_def by (metis concat_append length_append le_add1 min.absorb1 take_add take_take le_add_diff_inverse)
  then show ?thesis
    by (simp add: filter_calls_def u comp_def sorted_iff_nth_mono del: upt_Suc)
qed

lemma filter_never_wrong:
  assumes P: "filter_policy P" "opt_filter_policy opt = Some (InternalFilterPolicy P)"
    and T: "contents = table_bytes sn opt bs seps" "length contents < 2 ^ 32"
    and j: "j < length bs" and e: "e \<in> set (bs ! j)" "ExtractUserKey (fst e) = ExtractUserKey k"
  shows "fr_KeyMayMatch (InternalFilterPolicy P) (FilterBlockReader_new (filter_bytes sn opt bs))
    (unat (bh_offset (handle_of sn opt bs j))) k"
proof -
  have len: "length (concat (raws sn opt bs)) + length (filter_bytes sn opt bs) < 2 ^ 32"
    using T P(2) by (simp add: table_bytes_def table_body_def filter_part_def)
  have "(unat (bh_offset (handle_of sn opt bs j)), map fst (bs ! j)) \<in> set (filter_calls sn opt bs [])"
    using j by (auto simp: filter_calls_def handle_of_def nth_append intro!: image_eqI [of _ _ j])
  moreover have "filter_bytes sn opt bs = fb_run (InternalFilterPolicy P) (filter_calls sn opt bs [])"
    using P by (simp add: filter_bytes_def)
  ultimately have "fr_KeyMayMatch (InternalFilterPolicy P) (FilterBlockReader_new (filter_bytes sn opt bs))
      (unat (bh_offset (handle_of sn opt bs j))) (fst e)"
    using filter_policy.filter_block_no_false_negative [OF filter_policy.internal_policy [OF P(1)], of "filter_calls sn opt bs []"]
      filter_calls_sorted [of sn opt bs "[]"] len e by simp
  with fr_KeyMayMatch_user_key [OF e(2)] show ?thesis by blast
qed

definition get_spec :: "entry list \<Rightarrow> bytes \<Rightarrow> status \<times> entry option \<Rightarrow> bool" where
  "get_spec kvs k result \<longleftrightarrow> fst result = OK \<and>
     (case (snd result, filter (\<lambda>e. \<not> internal_compare (fst e) k < 0) kvs) of
        (Some e, e' # _) \<Rightarrow> e = e'
      | (None, e' # _) \<Rightarrow> ExtractUserKey (fst e') \<noteq> ExtractUserKey k
      | (r, []) \<Rightarrow> r = None)"

lemma table_get_built:
  fixes cache_id ro
  assumes f: "random_file rfile contents" and T: "contents = table_bytes sn opt bs seps" "length contents < 2 ^ 32" "snappy_ok sn"
    and fit: "blocks_fit sn opt bs seps" and n: "0 < opt_block_restart_interval opt"
    and c: "opt_comparator opt = InternalKeyComparator BytewiseComparator"
    and s: "seps_ok (InternalKeyComparator BytewiseComparator) is_ikey bs [] seps"
    and kvs: "entries_sorted internal_compare is_ikey (concat bs)"
    and ne: "[] \<notin> set bs" and len: "length seps = length bs"
    and P: "opt_filter_policy opt = None \<or> (\<exists>P. filter_policy P \<and> opt_filter_policy opt = Some (InternalFilterPolicy P))"
    and k: "8 \<le> length k"
  defines "t \<equiv> opened sn opt rfile cache_id bs seps"
  shows "get_spec (concat bs) k (Table_InternalGet sn None t ro k)"
proof -
  have T64: "length contents < 2 ^ 64" using T(2) by simp
  let ?I = "AnyBlockIterator internal_compare" and ?idx = "index_entries sn opt bs seps"
  define bf where "bf = Table_block_function sn None t ro"
  note built = comparator.index_built(1,2) [OF ikey_comparator f T(1) T64 T(3) fit n s kvs ne len, where cache_id = cache_id and ro = ro, folded t_def, folded bf_def]
    comparator.index_built(3) [OF ikey_comparator f T(1) T64 T(3) fit n s kvs ne len]
  define it where "it = it_Seek ?I (Block_NewIterator (tbl_index_block t)) k"
  let ?j = "seek_pos internal_compare ?idx k"
  have rep: "any_rep internal_compare is_ikey it ?idx ?j"
    using internal_keys.any.rep_Seek [OF built(3) k] by (simp add: it_def t_def opened_def)
  have st: "it_status ?I it = OK" using internal_keys.any.rep_status [OF rep] .
  have valid_idx: "\<forall>e\<in>set ?idx. is_ikey (fst e)" using internal_keys.any.rep_keys [OF rep] by blast
  have pos: "seek_pos internal_compare (concat bs) k = part_start bs ?j + (if ?j < length bs then seek_pos internal_compare (bs ! ?j) k else 0)"
    using internal_keys.table.seek_position [OF built(1) valid_idx k] built(2) len by (simp add: blocks_of_def)
  have rest: "filter (\<lambda>e. \<not> internal_compare (fst e) k < 0) (concat bs) = drop (seek_pos internal_compare (concat bs) k) (concat bs)"
    using internal_keys.sorted_dropWhile [of fst "concat bs" k] kvs k
    by (simp add: seek_pos_def dropWhile_eq_drop entries_sorted_def)
  have I: "AnyBlockIterator (cmp_Compare (opt_comparator (tbl_options t))) = ?I" using c by (simp add: t_def opened_def)
  show ?thesis
  proof (cases "?j < length bs")
    case False
    have "?j = length bs" using False internal_keys.any.seek_pos_le [of ?idx k] len by simp
    then have "seek_pos internal_compare (concat bs) k = length (concat bs)" using pos part_start_all [of bs] by simp
    moreover have "\<not> it_Valid ?I it" using internal_keys.any.rep_Valid [OF rep] False len by simp
    ultimately show ?thesis
      using st unfolding get_spec_def rest Table_InternalGet_def I it_def [symmetric] Let_def by (simp add: status_ok_def)
  next
    case j: True
    let ?h = "BlockHandle_EncodeTo (handle_of sn opt bs ?j) []" and ?k = "seek_pos internal_compare (bs ! ?j) k"
    have v: "it_Valid ?I it" "it_value ?I it = ?h"
      using internal_keys.any.rep_Valid [OF rep] internal_keys.any.rep_entry [OF rep] j len by (simp_all add: nth_index_entries)
    have dec: "BlockHandle_DecodeFrom BlockHandle_new ?h = (OK, handle_of sn opt bs ?j, [])"
      using BlockHandle_roundtrip [of BlockHandle_new "handle_of sn opt bs ?j" "[]"] by (simp add: BlockHandle_EncodeTo_append)
    have "reads_well internal_compare is_ikey bf ?h"
      using built(1) j len nth_mem [of ?j ?idx] by (auto simp: index_ok_def nth_index_entries)
    from internal_keys.table.block_function_rep [OF this]
    obtain p where "any_rep internal_compare is_ikey (bf ?h) (bs ! ?j) p"
      using arg_cong [OF built(2), of "\<lambda>xs. xs ! ?j"] j len by (auto simp: nth_index_entries)
    from internal_keys.any.rep_Seek [OF this k]
    have bi: "any_rep internal_compare is_ikey (it_Seek ?I (bf ?h) k) (bs ! ?j) ?k" .
    define fail where "fail \<longleftrightarrow> (case (tbl_filter t, opt_filter_policy (tbl_options t)) of
        (Some fil, Some policy) \<Rightarrow> \<not> fr_KeyMayMatch policy fil (unat (bh_offset (handle_of sn opt bs ?j))) k | _ \<Rightarrow> False)"
    have get: "Table_InternalGet sn None t ro k =
        (OK, if \<not> fail \<and> ?k < length (bs ! ?j) then Some (bs ! ?j ! ?k) else None)"
    proof -
      have b: "it_status ?I (it_Seek ?I (bf ?h) k) = OK" "it_Valid ?I (it_Seek ?I (bf ?h) k) \<longleftrightarrow> ?k < length (bs ! ?j)"
        "?k < length (bs ! ?j) \<Longrightarrow> (it_key ?I (it_Seek ?I (bf ?h) k), it_value ?I (it_Seek ?I (bf ?h) k)) = bs ! ?j ! ?k"
        using internal_keys.any.rep_status [OF bi] internal_keys.any.rep_Valid [OF bi] internal_keys.any.rep_entry [OF bi] by blast+
      have fail: "(case tbl_filter t of None \<Rightarrow> False
          | Some fil \<Rightarrow> (case opt_filter_policy (tbl_options t) of None \<Rightarrow> False
            | Some policy \<Rightarrow> status_ok OK \<and> \<not> fr_KeyMayMatch policy fil (unat (bh_offset (handle_of sn opt bs ?j))) k)) = fail"
        by (auto simp: fail_def split: option.splits)
      show ?thesis
        unfolding Table_InternalGet_def I it_def [symmetric] Let_def v(2) dec prod.case fail bf_def [symmetric]
        using v(1) st b by (simp add: status_ok_def)
    qed
    have le: "?k \<le> length (bs ! ?j)" by (rule internal_keys.any.seek_pos_le)
    have rest': "filter (\<lambda>e. \<not> internal_compare (fst e) k < 0) (concat bs) = drop ?k (bs ! ?j) @ concat (drop (Suc ?j) bs)"
      unfolding rest pos using drop_concat_part [OF j le] j by simp
    show ?thesis
    proof (cases "?k < length (bs ! ?j)")
      case True
      have "\<not> fail" if "ExtractUserKey (fst (bs ! ?j ! ?k)) = ExtractUserKey k"
        using P filter_never_wrong [OF _ _ T(1,2) j nth_mem [OF True] that]
        by (auto simp: fail_def t_def opened_def)
      then show ?thesis
        using True unfolding get_spec_def get rest' by (auto simp: Cons_nth_drop_Suc [symmetric])
    next
      case False
      have "ExtractUserKey (fst e) \<noteq> ExtractUserKey k" if e: "concat (drop (Suc ?j) bs) = e # es" for e es
      proof (rule internal_sep_user_key)
        have "seps ! ?j = cmp_FindShortestSeparator (InternalKeyComparator BytewiseComparator) (fst (last (bs ! ?j))) (fst e)"
          using seps_between [OF s _ e] j len by simp
        moreover have "\<not> internal_compare (fst (?idx ! ?j)) k < 0"
          using j len nth_length_takeWhile [of "\<lambda>e. internal_compare (fst e) k < 0" ?idx] by (simp add: seek_pos_def)
        ultimately show "\<not> internal_compare (cmp_FindShortestSeparator (InternalKeyComparator BytewiseComparator)
            (fst (last (bs ! ?j))) (fst e)) k < 0"
          using j len by (simp add: nth_index_entries)
        have "bs ! ?j \<noteq> []" using ne j by (metis nth_mem)
        moreover have "\<forall>e\<in>set (bs ! ?j). internal_compare (fst e) k < 0"
          using False le unfolding seek_pos_def by (metis (no_types, lifting) le_neq_implies_less set_takeWhileD takeWhile_eq_take take_all_iff)
        ultimately show "internal_compare (fst (last (bs ! ?j))) k < 0" by simp
      qed
      then show ?thesis
        using False le unfolding get_spec_def get rest' by (auto split: list.splits)
    qed
  qed
qed

text \<open>Without compression and filter, a table is at most twice as large as its entries with some overhead.\<close>

lemma plain_table_size:
  assumes opt: "opt_compression opt = kNoCompression" "opt_filter_policy opt = None"
    and s: "seps_ok (InternalKeyComparator BytewiseComparator) valid bs [] seps" "length seps = length bs" "[] \<notin> set bs"
  shows "length (table_bytes sn opt bs seps) \<le> 2 * entries_size 39 (concat bs) + 82"
proof -
  have one: "length (raw_block kNoCompression (block_stored sn opt b)) \<le> entries_size 39 b" if "b \<in> set bs" for b
  proof -
    have "entries_size 19 b + 20 * length b = entries_size 39 b" unfolding entries_size_def by (induction b) auto
    moreover have "1 \<le> length b" using s(3) that by (cases b) auto
    ultimately show ?thesis
      using block_bytes_size [of opt b] opt by (simp add: block_stored_def stored_def kBlockTrailerSize_def)
  qed
  have "length (concat (raws sn opt bs)) = (\<Sum>b\<leftarrow>bs. length (raw_block kNoCompression (block_stored sn opt b)))"
    unfolding raws_def opt by (simp add: length_concat comp_def)
  also have "\<dots> \<le> entries_size 39 (concat bs)"
    unfolding entries_size_concat using one by (intro sum_list_mono) auto
  finally have "length (concat (raws sn opt bs)) \<le> entries_size 39 (concat bs)" .
  moreover have "length (meta_stored sn opt bs) \<le> 8"
    using block_bytes_size [of opt "[]"] opt
    by (simp add: meta_stored_def meta_entries_def block_stored_def stored_def entries_size_def)
  ultimately show ?thesis
    using index_bytes_size [OF s, of sn opt] opt
    by (simp add: table_bytes_def table_body_def filter_part_def index_stored_def stored_def kBlockTrailerSize_def
        length_Footer Footer_kEncodedLength_def kMaxEncodedLength_def)
qed

section \<open>Properties\<close>

text \<open>
  C2: The file that the table builder writes for sorted entries is opened again without error,
  and the iterator of the opened table reads exactly those entries, forwards and backwards, and
  after a seek the ones that are not below the target; whatever the block size, the restart interval,
  the compression and the filter policy, and for any file that returns the bytes that were written.
\<close>

theorem table_roundtrip:
  assumes "table_input_ok sn opt kvs" "T = tb_file (snd (tb_Finish sn string_file (tb_add_all sn opt kvs)))"
    and "length T < 2 ^ 64" "random_file rfile T" "length kvs \<le> m" "8 \<le> length k"
  shows "fst (tb_Finish sn string_file (tb_add_all sn opt kvs)) = OK \<and>
    (\<exists>t. Table_Open sn opt rfile cache_id (word_of_nat (length T)) = (OK, Some t) \<and>
      it_forward (TableIterator sn None t ro) m (it_SeekToFirst (TableIterator sn None t ro) (Table_NewIterator t)) = kvs \<and>
      it_backward (TableIterator sn None t ro) m (it_SeekToLast (TableIterator sn None t ro) (Table_NewIterator t)) = rev kvs \<and>
      it_forward (TableIterator sn None t ro) m (it_Seek (TableIterator sn None t ro) (Table_NewIterator t) k) =
        filter (\<lambda>e. \<not> internal_compare (fst e) k < 0) kvs)"
proof -
  have a: "snappy_ok sn" "opt_comparator opt = InternalKeyComparator BytewiseComparator" "0 < opt_block_restart_interval opt"
    "entries_sorted internal_compare is_ikey kvs"
    using assms(1) unfolding table_input_ok_def by blast+
  obtain bs seps where b: "fst (tb_Finish sn string_file (tb_add_all sn opt kvs)) = OK" "T = table_bytes sn opt bs seps"
    "concat bs = kvs" "seps_ok (InternalKeyComparator BytewiseComparator) is_ikey bs [] seps" "length seps = length bs" "[] \<notin> set bs"
    "blocks_fit sn opt bs seps" "length (block_bytes opt (meta_entries sn opt bs)) < 2 ^ 32"
    using table_input_built [OF assms(1)] assms(2) by metis
  have s: "entries_sorted internal_compare is_ikey (concat bs)" using a(4) b(3) by simp
  have l: "length (concat bs) \<le> m" using assms(5) b(3) by simp
  note scan = comparator.table_scan [OF ikey_comparator assms(4) b(2) assms(3) a(1) b(7) a(3) a(2) b(4) s b(6) b(5)]
  show ?thesis
    using b(1) Table_Open_built [OF assms(4) b(2) assms(3) a(1,3) b(8), of cache_id]
      scan(1) [OF l, of cache_id ro] scan(2) [OF l, of cache_id ro] scan(3) [OF l assms(6), of cache_id ro] b(3)
    by simp
qed

definition plain_snappy :: Snappy where
  "plain_snappy = \<lparr> sn_GetUncompressedLength = (\<lambda>x. Some (length x)), sn_RawUncompress = Some, sn_RawCompress = id \<rparr>"

definition plain_options :: Options where
  "plain_options = \<lparr> opt_comparator = InternalKeyComparator BytewiseComparator, opt_paranoid_checks = True, opt_block_size = 4096,
     opt_block_restart_interval = 16, opt_compression = kNoCompression, opt_filter_policy = None \<rparr>"

definition two_versions :: "entry list" where
  "two_versions = [([107, 1, 2, 0, 0, 0, 0, 0, 0], [9]), ([107, 1, 1, 0, 0, 0, 0, 0, 0], [8])]"

lemma two_versions_input: "table_input_ok plain_snappy plain_options two_versions"
proof -
  have "internal_compare [107, 1, 2, 0, 0, 0, 0, 0, 0] [107, 1, 1, 0, 0, 0, 0, 0, 0] < 0"
    by (simp add: InternalKeyComparator_def) code_simp
  then show ?thesis
    by (simp add: table_input_ok_def snappy_ok_def plain_snappy_def plain_options_def two_versions_def entries_sorted_def entries_size_def)
qed

lemma two_versions_size:
  "length (tb_file (snd (tb_Finish plain_snappy string_file (tb_add_all plain_snappy plain_options two_versions)))) < 2 ^ 32"
proof -
  obtain bs seps where b: "tb_file (snd (tb_Finish plain_snappy string_file (tb_add_all plain_snappy plain_options two_versions))) =
      table_bytes plain_snappy plain_options bs seps" "concat bs = two_versions"
    "seps_ok (InternalKeyComparator BytewiseComparator) is_ikey bs [] seps" "length seps = length bs" "[] \<notin> set bs"
    using table_input_built [OF two_versions_input] by metis
  have "length (table_bytes plain_snappy plain_options bs seps) \<le> 2 * entries_size 39 two_versions + 82"
    using plain_table_size [OF _ _ b(3-5), of plain_options plain_snappy] b(2) by (simp add: plain_options_def)
  then show ?thesis unfolding b(1) by (simp add: two_versions_def entries_size_def)
qed

theorem table_roundtrip_witness:
  "\<exists>T t. Table_Open plain_snappy plain_options (PosixMmapReadableFile OK T) 0 (word_of_nat (length T)) = (OK, Some t) \<and>
    it_forward (TableIterator plain_snappy None t \<lparr> ro_verify_checksums = True, ro_fill_cache = True \<rparr>) 2
      (it_SeekToFirst (TableIterator plain_snappy None t \<lparr> ro_verify_checksums = True, ro_fill_cache = True \<rparr>) (Table_NewIterator t)) = two_versions"
proof -
  let ?T = "tb_file (snd (tb_Finish plain_snappy string_file (tb_add_all plain_snappy plain_options two_versions)))"
  have "length ?T < 2 ^ 64" using two_versions_size by (rule less_trans) simp
  from table_roundtrip [OF two_versions_input refl this mmap_file.random_file_axioms [of OK], of 2 "[107, 1, 2, 0, 0, 0, 0, 0, 0]" 0
      "\<lparr> ro_verify_checksums = True, ro_fill_cache = True \<rparr>"]
  show ?thesis by (intro exI [of _ ?T]) (auto simp: two_versions_def)
qed

lemma built_table_get:
  assumes "table_input_ok sn opt kvs" "T = tb_file (snd (tb_Finish sn string_file (tb_add_all sn opt kvs)))"
    and "length T < 2 ^ 32" "random_file rfile T" "8 \<le> length k"
    and "opt_filter_policy opt \<in> {None, Some (InternalFilterPolicy (BloomFilterPolicy bits_per_key))}"
  shows "\<exists>t. Table_Open sn opt rfile cache_id (word_of_nat (length T)) = (OK, Some t) \<and> get_spec kvs k (Table_InternalGet sn None t ro k)"
proof -
  have a: "snappy_ok sn" "opt_comparator opt = InternalKeyComparator BytewiseComparator" "0 < opt_block_restart_interval opt"
    "entries_sorted internal_compare is_ikey kvs"
    using assms(1) unfolding table_input_ok_def by blast+
  obtain bs seps where b: "T = table_bytes sn opt bs seps"
    "concat bs = kvs" "seps_ok (InternalKeyComparator BytewiseComparator) is_ikey bs [] seps" "length seps = length bs" "[] \<notin> set bs"
    "blocks_fit sn opt bs seps" "length (block_bytes opt (meta_entries sn opt bs)) < 2 ^ 32"
    using table_input_built [OF assms(1)] assms(2) by metis
  have s: "entries_sorted internal_compare is_ikey (concat bs)" using a(4) b(2) by simp
  have P: "opt_filter_policy opt = None \<or> (\<exists>P. filter_policy P \<and> opt_filter_policy opt = Some (InternalFilterPolicy P))"
    using assms(6) Bloom_filter_policy by blast
  have "length T < 2 ^ 64" using assms(3) by (rule less_trans) simp
  from Table_Open_built [OF assms(4) b(1) this a(1,3) b(7)]
    table_get_built [OF assms(4) b(1) assms(3) a(1) b(6) a(3,2) b(3) s b(5,4) P assms(5)]
  show ?thesis unfolding b(2) by blast
qed

text \<open>
  C10: A lookup in a table that the builder wrote returns no entry but the first one that is
  not below the key, and it does return that entry whenever it has the user key that is looked up;
  in particular the Bloom filter never hides it. For a file smaller than 4 GiB.
\<close>

theorem table_get:
  assumes "table_input_ok sn opt kvs" "T = tb_file (snd (tb_Finish sn string_file (tb_add_all sn opt kvs)))"
    and "length T < 2 ^ 32" "random_file rfile T" "8 \<le> length k"
    and "opt_filter_policy opt \<in> {None, Some (InternalFilterPolicy (BloomFilterPolicy bits_per_key))}"
  shows "\<exists>t. Table_Open sn opt rfile cache_id (word_of_nat (length T)) = (OK, Some t) \<and>
    fst (Table_InternalGet sn None t ro k) = OK \<and>
    (case (snd (Table_InternalGet sn None t ro k), filter (\<lambda>e. \<not> internal_compare (fst e) k < 0) kvs) of
       (Some e, e' # _) \<Rightarrow> e = e'
     | (None, e' # _) \<Rightarrow> ExtractUserKey (fst e') \<noteq> ExtractUserKey k
     | (r, []) \<Rightarrow> r = None)"
  using built_table_get [OF assms, of cache_id ro] unfolding get_spec_def .

theorem table_get_witness:
  "\<exists>T t. Table_Open plain_snappy plain_options (PosixMmapReadableFile OK T) 0 (word_of_nat (length T)) = (OK, Some t) \<and>
    snd (Table_InternalGet plain_snappy None t \<lparr> ro_verify_checksums = True, ro_fill_cache = True \<rparr> [107, 1, 1, 0, 0, 0, 0, 0, 0]) =
      Some ([107, 1, 1, 0, 0, 0, 0, 0, 0], [8])"
proof -
  let ?T = "tb_file (snd (tb_Finish plain_snappy string_file (tb_add_all plain_snappy plain_options two_versions)))"
  let ?k = "[107, 1, 1, 0, 0, 0, 0, 0, 0] :: bytes"
  have "internal_compare [107, 1, 2, 0, 0, 0, 0, 0, 0] ?k < 0" "internal_compare ?k ?k = 0"
    by (simp add: InternalKeyComparator_def, code_simp)+
  then have "filter (\<lambda>e. \<not> internal_compare (fst e) ?k < 0) two_versions = [(?k, [8])]"
    by (simp add: two_versions_def)
  with table_get [OF two_versions_input refl two_versions_size mmap_file.random_file_axioms [of OK], of ?k 10 0
      "\<lparr> ro_verify_checksums = True, ro_fill_cache = True \<rparr>"]
  show ?thesis
    by (intro exI [of _ ?T]) (auto simp: plain_options_def ExtractUserKey_def split: option.splits)
qed

end
