(* ===== verification/Table_Cache.thy ===== *)
theory Table_Cache
  imports Cache Table Filename
begin

text \<open>
  The sharded cache of \<open>kv/util/cache.cpp\<close> and the table cache of \<open>kv/db/table_cache.cpp\<close>, which
  keeps opened tables in it. A handle is the shard that allocated it and its address there. The
  environment is its function \<open>NewRandomAccessFile\<close>; tables are opened without a block cache. The
  theorem says that the cache is transparent: a lookup answers as if the table had just been opened.
\<close>

section \<open>The sharded cache\<close>

definition kNumShardBits :: nat where "kNumShardBits = 4"
definition kNumShards :: nat where "kNumShards = 2 ^ kNumShardBits"

record ('v, 'd) ShardedFIFOCache =
  sc_shard :: "('v, 'd) FIFOCache list"
  sc_last_id :: u64

type_synonym Handle = "nat \<times> nat"

definition ShardedFIFOCache_new :: "u64 \<Rightarrow> ('v, 'd) ShardedFIFOCache" where
  "ShardedFIFOCache_new capacity =
     (let per_shard = (capacity + (word_of_nat kNumShards - 1)) div word_of_nat kNumShards
      in \<lparr> sc_shard = replicate kNumShards (SetCapacity FIFOCache_new per_shard), sc_last_id = 0 \<rparr>)"

definition HashSlice :: "bytes \<Rightarrow> u32" where
  "HashSlice s = Hash s 0"

definition Shard :: "u32 \<Rightarrow> nat" where
  "Shard hash = unat (drop_bit (32 - kNumShardBits) hash)"

definition sc_Insert :: "('v, 'd) ShardedFIFOCache \<Rightarrow> nat \<Rightarrow> bytes \<Rightarrow> 'v \<Rightarrow> u64 \<Rightarrow> 'd \<Rightarrow> (('v, 'd) ShardedFIFOCache \<times> Handle) option" where
  "sc_Insert c e key value charge deleter =
     (let hash = HashSlice key; s = Shard hash
      in do { f \<leftarrow> fc_Insert (sc_shard c ! s) e key hash value charge deleter;
              Some (c \<lparr> sc_shard := (sc_shard c)[s := f] \<rparr>, (s, e)) })"

definition sc_Lookup :: "('v, 'd) ShardedFIFOCache \<Rightarrow> bytes \<Rightarrow> (('v, 'd) ShardedFIFOCache \<times> Handle option) option" where
  "sc_Lookup c key =
     (let hash = HashSlice key; s = Shard hash
      in do { (f, r) \<leftarrow> fc_Lookup (sc_shard c ! s) key hash;
              Some (c \<lparr> sc_shard := (sc_shard c)[s := f] \<rparr>, map_option (Pair s) r) })"

text \<open>The handle's own hash says which shard it is given back to.\<close>

definition sc_Release :: "('v, 'd) ShardedFIFOCache \<Rightarrow> Handle \<Rightarrow> ('v, 'd) ShardedFIFOCache option" where
  "sc_Release c handle =
     do { h \<leftarrow> fc_heap (sc_shard c ! fst handle) (snd handle);
          let s = Shard (fh_hash h);
          f \<leftarrow> fc_Release (sc_shard c ! s) (snd handle);
          Some (c \<lparr> sc_shard := (sc_shard c)[s := f] \<rparr>) }"

definition sc_Erase :: "('v, 'd) ShardedFIFOCache \<Rightarrow> bytes \<Rightarrow> ('v, 'd) ShardedFIFOCache option" where
  "sc_Erase c key =
     (let hash = HashSlice key; s = Shard hash
      in do { f \<leftarrow> fc_Erase (sc_shard c ! s) key hash; Some (c \<lparr> sc_shard := (sc_shard c)[s := f] \<rparr>) })"

definition sc_Value :: "('v, 'd) ShardedFIFOCache \<Rightarrow> Handle \<Rightarrow> 'v option" where
  "sc_Value c handle = map_option fh_value (fc_heap (sc_shard c ! fst handle) (snd handle))"

definition sc_NewId :: "('v, 'd) ShardedFIFOCache \<Rightarrow> ('v, 'd) ShardedFIFOCache \<times> u64" where
  "sc_NewId c = (let c = c \<lparr> sc_last_id := sc_last_id c + 1 \<rparr> in (c, sc_last_id c))"

fun prune_shards :: "('v, 'd) FIFOCache list \<Rightarrow> ('v, 'd) FIFOCache list option" where
  "prune_shards [] = Some []"
| "prune_shards (f # fs) = do { f \<leftarrow> fc_Prune f; fs \<leftarrow> prune_shards fs; Some (f # fs) }"

definition sc_Prune :: "('v, 'd) ShardedFIFOCache \<Rightarrow> ('v, 'd) ShardedFIFOCache option" where
  "sc_Prune c = do { fs \<leftarrow> prune_shards (sc_shard c); Some (c \<lparr> sc_shard := fs \<rparr>) }"

definition sc_TotalCharge :: "('v, 'd) ShardedFIFOCache \<Rightarrow> u64" where
  "sc_TotalCharge c = sum_list (map fc_TotalCharge (sc_shard c))"

section \<open>The table cache\<close>

record TableAndFile =
  tf_file :: RandomAccessFile
  tf_table :: Table

datatype cache_deleter = DeleteEntry

record TableEnv =
  te_snappy :: Snappy
  te_dbname :: bytes
  te_options :: Options
  te_NewRandomAccessFile :: "bytes \<Rightarrow> status \<times> RandomAccessFile option"

type_synonym table_cache = "(TableAndFile, cache_deleter) ShardedFIFOCache"

definition TableCache_new :: "u64 \<Rightarrow> table_cache" where
  "TableCache_new entries = ShardedFIFOCache_new entries"

text \<open>
  The part of \<open>FindTable\<close> that opens a file under one of its two names. An environment that reports
  success gives a file.
\<close>

definition open_table :: "TableEnv \<Rightarrow> u64 \<Rightarrow> u64 \<Rightarrow> status \<times> TableAndFile option" where
  "open_table env file_number file_size =
     (let fname = TableFileName (te_dbname env) file_number;
          (s, f) = te_NewRandomAccessFile env fname;
          (s, f) = (if \<not> status_ok s
                    then (let old_fname = SSTTableFileName (te_dbname env) file_number;
                              (s', f') = te_NewRandomAccessFile env old_fname
                          in if status_ok s' then (OK, f') else (s, f))
                    else (s, f))
      in if status_ok s
         then (case f of
                 None \<Rightarrow> (s, None)
               | Some rfile \<Rightarrow>
                   (let (s, table) = Table_Open (te_snappy env) (te_options env) rfile 0 file_size
                    in if \<not> status_ok s then (s, None)
                       else (s, map_option (\<lambda>t. \<lparr> tf_file = rfile, tf_table = t \<rparr>) table)))
         else (s, None))"

definition FindTable :: "TableEnv \<Rightarrow> table_cache \<Rightarrow> nat \<Rightarrow> u64 \<Rightarrow> u64 \<Rightarrow> (table_cache \<times> status \<times> Handle option) option" where
  "FindTable env c e file_number file_size =
     (let key = EncodeFixed64 file_number in
      do { (c, handle) \<leftarrow> sc_Lookup c key;
           if handle = None
           then (case open_table env file_number file_size of
                   (s, None) \<Rightarrow> Some (c, s, None)
                 | (s, Some tf) \<Rightarrow> do { (c, h) \<leftarrow> sc_Insert c e key tf 1 DeleteEntry; Some (c, s, Some h) })
           else Some (c, OK, handle) })"

definition TableCache_Get :: "TableEnv \<Rightarrow> ReadOptions \<Rightarrow> table_cache \<Rightarrow> nat \<Rightarrow> u64 \<Rightarrow> u64 \<Rightarrow> bytes \<Rightarrow> (table_cache \<times> status \<times> entry option) option" where
  "TableCache_Get env options c e file_number file_size k =
     do { (c, s, handle) \<leftarrow> FindTable env c e file_number file_size;
          case handle of
            None \<Rightarrow> Some (c, s, None)
          | Some h \<Rightarrow>
              (if status_ok s
               then do { tf \<leftarrow> sc_Value c h;
                         let (s, r) = Table_InternalGet (te_snappy env) None (tf_table tf) options k;
                         c \<leftarrow> sc_Release c h;
                         Some (c, s, r) }
               else Some (c, s, None)) }"

text \<open>The iterator holds its handle until it is deleted and the clean-up function \<open>UnrefEntry\<close> gives it back.\<close>

definition TableCache_NewIterator ::
  "TableEnv \<Rightarrow> table_cache \<Rightarrow> nat \<Rightarrow> u64 \<Rightarrow> u64 \<Rightarrow>
    (table_cache \<times> (status + (status + BlockIter, status + BlockIter) TwoLevelIter \<times> Table \<times> Handle CleanupNodes)) option" where
  "TableCache_NewIterator env c e file_number file_size =
     do { (c, s, handle) \<leftarrow> FindTable env c e file_number file_size;
          case handle of
            None \<Rightarrow> Some (c, Inl (NewErrorIterator s))
          | Some h \<Rightarrow>
              (if status_ok s
               then do { tf \<leftarrow> sc_Value c h;
                         Some (c, Inr (Table_NewIterator (tf_table tf), tf_table tf, RegisterCleanup Iterator_new h)) }
               else Some (c, Inl (NewErrorIterator s))) }"

definition UnrefEntry :: "table_cache \<Rightarrow> Handle \<Rightarrow> table_cache option" where
  "UnrefEntry c h = sc_Release c h"

definition TableCache_Evict :: "table_cache \<Rightarrow> u64 \<Rightarrow> table_cache option" where
  "TableCache_Evict c file_number = sc_Erase c (EncodeFixed64 file_number)"

section \<open>Invariant\<close>

lemma Shard_less: "Shard hash < kNumShards"
proof -
  have "unat hash < 2 ^ 32" using unsigned_less [of hash] by simp
  then have "unat hash div 2 ^ 28 < 16" by (simp add: div_less_iff_less_mult)
  then show ?thesis unfolding Shard_def unat_drop_bit_eq by (simp add: kNumShards_def kNumShardBits_def drop_bit_eq_div)
qed

text \<open>Every entry is in the shard of its hash, and holds the table that opening its file gives.\<close>

definition tab_entry :: "TableEnv \<Rightarrow> (u64 \<Rightarrow> u64) \<Rightarrow> nat \<Rightarrow> (cache_deleter \<times> bytes \<times> TableAndFile) \<times> u32 \<times> u64 \<Rightarrow> bool" where
  "tab_entry env fsize s i \<longleftrightarrow> (case i of ((d, key, tf), hash, ch) \<Rightarrow>
     Shard hash = s \<and> (\<exists>n. key = EncodeFixed64 n \<and> open_table env n (fsize n) = (OK, Some tf)))"

definition shard_ok :: "TableEnv \<Rightarrow> (u64 \<Rightarrow> u64) \<Rightarrow> nat \<Rightarrow> (TableAndFile, cache_deleter) FIFOCache \<Rightarrow> nat multiset \<Rightarrow> bool" where
  "shard_ok env fsize s f held \<longleftrightarrow> (\<exists>xs ys. cache_rep f held xs ys) \<and> (\<forall>p i. infos (fc_heap f) p = Some i \<longrightarrow> tab_entry env fsize s i)"

lemma shard_okD: "shard_ok env fsize s f held \<Longrightarrow> infos (fc_heap f) p = Some i \<Longrightarrow> tab_entry env fsize s i"
  unfolding shard_ok_def by blast

lemma shard_ok_handle: "shard_ok env fsize s f held \<Longrightarrow> fc_heap f p = Some h \<Longrightarrow> tab_entry env fsize s (fh_info h)"
  using shard_okD [of env fsize s f held p "fh_info h"] by (simp add: infos_def)

lemma shard_okI: "cache_rep f held xs ys \<Longrightarrow> (\<And>p i. infos (fc_heap f) p = Some i \<Longrightarrow> tab_entry env fsize s i) \<Longrightarrow> shard_ok env fsize s f held"
  unfolding shard_ok_def by blast

definition tc_ok :: "TableEnv \<Rightarrow> (u64 \<Rightarrow> u64) \<Rightarrow> table_cache \<Rightarrow> (nat \<Rightarrow> nat multiset) \<Rightarrow> bool" where
  "tc_ok env fsize c held \<longleftrightarrow> length (sc_shard c) = kNumShards \<and> (\<forall>s<kNumShards. shard_ok env fsize s (sc_shard c ! s) (held s))"

lemma tc_ok_new: "tc_ok env fsize (TableCache_new entries) (\<lambda>_. {#})"
  using cache_rep_new
  by (auto simp: tc_ok_def shard_ok_def TableCache_new_def ShardedFIFOCache_new_def Let_def SetCapacity_def FIFOCache_new_def infos_def)

lemma tc_ok_shard: "tc_ok env fsize c held \<Longrightarrow> shard_ok env fsize (Shard hash) (sc_shard c ! Shard hash) (held (Shard hash))"
  using Shard_less by (simp add: tc_ok_def)

lemma tc_ok_update:
  "tc_ok env fsize c held \<Longrightarrow> shard_ok env fsize s f g \<Longrightarrow> tc_ok env fsize (c \<lparr> sc_shard := (sc_shard c)[s := f] \<rparr>) (held(s := g))"
  by (auto simp: tc_ok_def nth_list_update)

lemma shard_ok_evolves:
  assumes "shard_ok env fsize s f held" "evolves f f'" "cache_rep f' held' xs ys"
  shows "shard_ok env fsize s f' held'"
proof -
  have "tab_entry env fsize s i" if "infos (fc_heap f') p = Some i" for p i
  proof -
    have "infos (fc_heap f) p = Some i" using assms(2) that by (metis domI evolves_def map_le_def)
    then show ?thesis by (rule shard_okD [OF assms(1)])
  qed
  with assms(3) show ?thesis by (rule shard_okI)
qed

lemma open_table_OK: "open_table env n sz = (s, Some tf) \<Longrightarrow> s = OK"
  by (auto simp: open_table_def status_ok_def Let_def split: prod.splits if_splits option.splits)

section \<open>Finding tables\<close>

definition fresh :: "table_cache \<Rightarrow> u64 \<Rightarrow> nat \<Rightarrow> bool" where
  "fresh c n e \<longleftrightarrow> fc_heap (sc_shard c ! Shard (HashSlice (EncodeFixed64 n))) e = None \<and> e \<notin> {fifo_head, in_use_head}"

lemma EncodeFixed64_inject: "EncodeFixed64 a = EncodeFixed64 b \<longleftrightarrow> a = b"
  by (metis DecodeFixed64_EncodeFixed64)

lemma FindTable_spec:
  assumes "tc_ok env fsize c held" "fresh c n e"
  obtains c' where "FindTable env c e n (fsize n) = Some (c', fst (open_table env n (fsize n)), None)" "snd (open_table env n (fsize n)) = None" "tc_ok env fsize c' held"
  | c' s p tf where "FindTable env c e n (fsize n) = Some (c', OK, Some (s, p))" "open_table env n (fsize n) = (OK, Some tf)" "s < kNumShards"
    "tc_ok env fsize c' (held(s := add_mset p (held s)))" "sc_Value c' (s, p) = Some tf"
proof -
  let ?key = "EncodeFixed64 n"
  let ?hash = "HashSlice ?key"
  let ?s = "Shard ?hash"
  let ?f = "sc_shard c ! ?s"
  have l: "?s < length (sc_shard c)" "?s < kNumShards" using assms(1) Shard_less by (simp_all add: tc_ok_def)
  note so = tc_ok_shard [OF assms(1), of ?hash]
  then obtain xs ys where r: "cache_rep ?f (held ?s) xs ys" by (auto simp: shard_ok_def)
  then show thesis
  proof (cases rule: fc_Lookup_spec [where key = ?key and hash = ?hash])
    case 1
    have lu: "sc_Lookup c ?key = Some (c, None)" using 1(1) by (simp add: sc_Lookup_def Let_def)
    show ?thesis
    proof (cases "snd (open_table env n (fsize n))")
      case None
      then show ?thesis using that(1) [of c] lu assms(1) by (simp add: FindTable_def Let_def split_def)
    next
      case (Some tf)
      then have ot: "open_table env n (fsize n) = (OK, Some tf)" by (metis open_table_OK prod.collapse)
      obtain f' xs' ys' where i: "fc_Insert ?f e ?key ?hash tf 1 DeleteEntry = Some f'" "cache_rep f' (add_mset e (held ?s)) xs' ys'"
        "infos (fc_heap f') e = Some ((DeleteEntry, ?key, tf), ?hash, 1)"
        "infos (fc_heap f') \<subseteq>\<^sub>m (infos (fc_heap ?f))(e \<mapsto> ((DeleteEntry, ?key, tf), ?hash, 1))"
        using fc_Insert_spec [OF r, of e ?key ?hash tf 1 DeleteEntry] assms(2) unfolding fresh_def by metis
      have "tab_entry env fsize ?s j" if "infos (fc_heap f') p = Some j" for p j
      proof -
        have "p \<in> dom (infos (fc_heap f'))" using that by blast
        then have pj: "((infos (fc_heap ?f))(e \<mapsto> ((DeleteEntry, ?key, tf), ?hash, 1))) p = Some j" using i(4) that unfolding map_le_def by metis
        show ?thesis
        proof (cases "p = e")
          case True
          then show ?thesis using pj ot by (auto simp: tab_entry_def)
        next
          case False
          then show ?thesis using pj shard_okD [OF so, of p j] by simp
        qed
      qed
      then have "shard_ok env fsize ?s f' (add_mset e (held ?s))" using i(2) by (blast intro: shard_okI)
      note ok = tc_ok_update [OF assms(1) this]
      have "FindTable env c e n (fsize n) = Some (c \<lparr> sc_shard := (sc_shard c)[?s := f'] \<rparr>, OK, Some (?s, e))"
        using lu ot i(1) by (simp add: FindTable_def Let_def sc_Insert_def)
      moreover have "sc_Value (c \<lparr> sc_shard := (sc_shard c)[?s := f'] \<rparr>) (?s, e) = Some tf"
        using i(3) l(1) by (auto simp: sc_Value_def infos_def fh_info_def)
      ultimately show ?thesis using that(2) ok ot l(2) by blast
    qed
  next
    case (2 f' p)
    note ok = tc_ok_update [OF assms(1) shard_ok_evolves [OF so 2(4,5)]]
    obtain h where h: "fc_heap ?f p = Some h" "fh_key h = ?key" "fh_hash h = ?hash" using 2(3) by (auto simp: matches_def)
    have "tab_entry env fsize ?s (fh_info h)" by (rule shard_ok_handle [OF so h(1)])
    then have ot: "open_table env n (fsize n) = (OK, Some (fh_value h))" using h(2) by (auto simp: tab_entry_def fh_info_def EncodeFixed64_inject)
    have "p \<in> dom (fc_heap f')" using 2(5) by (auto simp: cache_rep_def lists_ok_def refs_ok_def)
    then have "infos (fc_heap f') p = infos (fc_heap ?f) p" using 2(4) by (simp add: evolves_def infos_le)
    then have "map_option fh_value (fc_heap f' p) = Some (fh_value h)" using h(1) by (auto simp: infos_def fh_info_def)
    moreover have "FindTable env c e n (fsize n) = Some (c \<lparr> sc_shard := (sc_shard c)[?s := f'] \<rparr>, OK, Some (?s, p))"
      using 2(1) by (simp add: FindTable_def sc_Lookup_def Let_def)
    ultimately show ?thesis using that(2) ok ot l by (simp add: sc_Value_def)
  qed
qed

lemma sc_Release_spec:
  assumes "tc_ok env fsize c held" "s < kNumShards" "p \<in># held s"
  obtains c' where "sc_Release c (s, p) = Some c'" "tc_ok env fsize c' (held(s := held s - {#p#}))"
proof -
  have so: "shard_ok env fsize s (sc_shard c ! s) (held s)" using assms(1,2) by (simp add: tc_ok_def)
  then obtain xs ys where r: "cache_rep (sc_shard c ! s) (held s) xs ys" by (auto simp: shard_ok_def)
  then obtain h where h: "fc_heap (sc_shard c ! s) p = Some h" using assms(3) by (auto simp: cache_rep_def lists_ok_def refs_ok_def)
  then have "tab_entry env fsize s (fh_info h)" by (rule shard_ok_handle [OF so])
  then have sh: "Shard (fh_hash h) = s" by (simp add: tab_entry_def fh_info_def)
  obtain f' xs' ys' where f': "fc_Release (sc_shard c ! s) p = Some f'" "cache_rep f' (held s - {#p#}) xs' ys'" "evolves (sc_shard c ! s) f'"
    using fc_Release_spec [OF r assms(3)] by metis
  note ok = tc_ok_update [OF assms(1) shard_ok_evolves [OF so f'(3,2)]]
  have "sc_Release c (s, p) = Some (c \<lparr> sc_shard := (sc_shard c)[s := f'] \<rparr>)" using h sh f'(1) by (simp add: sc_Release_def Let_def)
  with ok that show thesis by blast
qed

lemma sc_Erase_spec:
  assumes "tc_ok env fsize c held"
  obtains c' where "sc_Erase c key = Some c'" "tc_ok env fsize c' held"
proof -
  let ?s = "Shard (HashSlice key)"
  note so = tc_ok_shard [OF assms, of "HashSlice key"]
  then obtain xs ys where r: "cache_rep (sc_shard c ! ?s) (held ?s) xs ys" by (auto simp: shard_ok_def)
  obtain f' xs' ys' where f': "fc_Erase (sc_shard c ! ?s) key (HashSlice key) = Some f'" "evolves (sc_shard c ! ?s) f'" "cache_rep f' (held ?s) xs' ys'"
    using r by (cases rule: fc_Erase_spec [where key = key and hash = "HashSlice key"]) (use r in blast)+
  note ok = tc_ok_update [OF assms shard_ok_evolves [OF so f'(2,3)]]
  have "sc_Erase c key = Some (c \<lparr> sc_shard := (sc_shard c)[?s := f'] \<rparr>)" using f'(1) by (simp add: sc_Erase_def Let_def)
  with ok that show thesis by simp
qed

section \<open>Histories\<close>

text \<open>The states of a table cache, with the handles that open iterators hold.\<close>

inductive tc_run :: "TableEnv \<Rightarrow> (u64 \<Rightarrow> u64) \<Rightarrow> table_cache \<Rightarrow> (nat \<Rightarrow> nat multiset) \<Rightarrow> bool" for env fsize where
  tc_new: "tc_run env fsize (TableCache_new entries) (\<lambda>_. {#})"
| tc_get: "tc_run env fsize c held \<Longrightarrow> fresh c n e \<Longrightarrow> TableCache_Get env options c e n (fsize n) k = Some (c', r) \<Longrightarrow> tc_run env fsize c' held"
| tc_iter: "tc_run env fsize c held \<Longrightarrow> fresh c n e \<Longrightarrow> TableCache_NewIterator env c e n (fsize n) = Some (c', Inr (it, t, cl)) \<Longrightarrow>
    cleanup_head cl = Some (s, p) \<Longrightarrow> tc_run env fsize c' (held(s := add_mset p (held s)))"
| tc_iter_error: "tc_run env fsize c held \<Longrightarrow> fresh c n e \<Longrightarrow> TableCache_NewIterator env c e n (fsize n) = Some (c', Inl err) \<Longrightarrow> tc_run env fsize c' held"
| tc_unref: "tc_run env fsize c held \<Longrightarrow> s < kNumShards \<Longrightarrow> p \<in># held s \<Longrightarrow> UnrefEntry c (s, p) = Some c' \<Longrightarrow> tc_run env fsize c' (held(s := held s - {#p#}))"
| tc_evict: "tc_run env fsize c held \<Longrightarrow> TableCache_Evict c n = Some c' \<Longrightarrow> tc_run env fsize c' held"

text \<open>What a lookup answers when the table is opened for it alone.\<close>

definition uncached_Get :: "TableEnv \<Rightarrow> ReadOptions \<Rightarrow> u64 \<Rightarrow> u64 \<Rightarrow> bytes \<Rightarrow> status \<times> entry option" where
  "uncached_Get env options n sz k =
     (case open_table env n sz of
        (s, None) \<Rightarrow> (s, None)
      | (s, Some tf) \<Rightarrow> Table_InternalGet (te_snappy env) None (tf_table tf) options k)"

lemma TableCache_Get_spec:
  assumes "tc_ok env fsize c held" "fresh c n e"
  shows "\<exists>c'. TableCache_Get env options c e n (fsize n) k = Some (c', uncached_Get env options n (fsize n) k) \<and> tc_ok env fsize c' held"
  using assms
proof (cases rule: FindTable_spec)
  case (1 c')
  then show ?thesis by (auto simp: TableCache_Get_def uncached_Get_def split: prod.splits option.splits)
next
  case (2 c' s p tf)
  have "p \<in># (held(s := add_mset p (held s))) s" by simp
  from sc_Release_spec [OF 2(4,3) this] obtain c'' where c'': "sc_Release c' (s, p) = Some c''" "tc_ok env fsize c'' held"
    by (metis fun_upd_same fun_upd_triv fun_upd_upd add_mset_remove_trivial)
  then show ?thesis using 2 by (simp add: TableCache_Get_def uncached_Get_def status_ok_def split_def)
qed

lemma tc_run_ok: "tc_run env fsize c held \<Longrightarrow> tc_ok env fsize c held"
proof (induction rule: tc_run.induct)
  case tc_new
  show ?case by (rule tc_ok_new)
next
  case (tc_get c held n e options k c' r)
  with TableCache_Get_spec [OF tc_get.IH tc_get.hyps(2), of options k] show ?case by auto
next
  case (tc_iter c held n e c' it t cl s p)
  from tc_iter.IH tc_iter.hyps(2) show ?case
  proof (cases rule: FindTable_spec)
    case (1 c1)
    then show ?thesis using tc_iter.hyps(3) by (simp add: TableCache_NewIterator_def)
  next
    case (2 c1 s1 p1 tf)
    then have "c' = c1" "cl = RegisterCleanup Iterator_new (s1, p1)" using tc_iter.hyps(3) by (auto simp: TableCache_NewIterator_def status_ok_def)
    moreover from this have "s1 = s" "p1 = p" using tc_iter.hyps(4) by (simp_all add: RegisterCleanup_def Iterator_new_def)
    ultimately show ?thesis using 2(4) by blast
  qed
next
  case (tc_iter_error c held n e c' err)
  from tc_iter_error.IH tc_iter_error.hyps(2) show ?case
  proof (cases rule: FindTable_spec)
    case (1 c1)
    then show ?thesis using tc_iter_error.hyps(3) by (simp add: TableCache_NewIterator_def)
  next
    case (2 c1 s1 p1 tf)
    then show ?thesis using tc_iter_error.hyps(3) by (simp add: TableCache_NewIterator_def status_ok_def)
  qed
next
  case (tc_unref c held s p c')
  from sc_Release_spec [OF tc_unref.IH tc_unref.hyps(2,3)] tc_unref.hyps(4) show ?case unfolding UnrefEntry_def by (metis option.inject)
next
  case (tc_evict c held n c')
  from sc_Erase_spec [OF tc_evict.IH] tc_evict.hyps(2) show ?case unfolding TableCache_Evict_def by (metis option.inject)
qed

section \<open>Property\<close>


definition no_files :: TableEnv where
  "no_files = \<lparr> te_snappy = plain_snappy, te_dbname = [100], te_options = plain_options,
     te_NewRandomAccessFile = (\<lambda>_. (Err kIOError (str ''missing'') [], None)) \<rparr>"


end
