(* ===== verification/Version_Get.thy ===== *)
theory Version_Get
  imports Version_Files Table_Cache User_View
begin

text \<open>
  Lookups in a version (\<^verbatim>\<open>kv/db/version_set.cpp\<close>): the files that may have a key, from the newest to
  the oldest, the lookup in them, and the statistics that trigger compactions. The table cache is its
  \<open>Get\<close> as a function from file number, size and key to the status and the entry that the callback is
  called with. The theorem is the correctness of reads in a log-structured merge tree: with newer
  entries in newer files, a lookup finds the newest entry that its snapshot sees.
\<close>

section \<open>The callback\<close>

datatype SaverState = svNotFound | svFound | svDeleted | svCorrupt

record Saver =
  sv_state :: SaverState
  sv_ucmp :: Comparator
  sv_user_key :: bytes
  sv_value :: bytes

definition SaveValue :: "Saver \<Rightarrow> bytes \<Rightarrow> bytes \<Rightarrow> Saver" where
  "SaveValue s ikey v =
     (case ParseInternalKey ikey of
        None \<Rightarrow> s \<lparr> sv_state := svCorrupt \<rparr>
      | Some parsed_key \<Rightarrow>
          if cmp_Compare (sv_ucmp s) (pik_user_key parsed_key) (sv_user_key s) = 0
          then (let s = s \<lparr> sv_state := (if pik_type parsed_key = kTypeValue then svFound else svDeleted) \<rparr>
                in if sv_state s = svFound then s \<lparr> sv_value := v \<rparr> else s)
          else s)"

section \<open>The files that may have a key\<close>

text \<open>The file numbers of level 0 are distinct, so that the order is determined.\<close>

definition newest_first :: "FileMetaData list \<Rightarrow> FileMetaData list" where
  "newest_first files = rev (sort_key fm_number files)"

text \<open>The function returns its new state and whether to go on.\<close>

fun for_files :: "('s \<Rightarrow> nat \<Rightarrow> FileMetaData \<Rightarrow> 's \<times> bool) \<Rightarrow> nat \<Rightarrow> 's \<Rightarrow> FileMetaData list \<Rightarrow> 's \<times> bool" where
  "for_files func level s [] = (s, True)"
| "for_files func level s (f # fs) = (let (s, continue) = func s level f in if continue then for_files func level s fs else (s, False))"

fun for_levels ::
  "Comparator \<Rightarrow> Version \<Rightarrow> bytes \<Rightarrow> bytes \<Rightarrow> ('s \<Rightarrow> nat \<Rightarrow> FileMetaData \<Rightarrow> 's \<times> bool) \<Rightarrow> 's \<Rightarrow> nat list \<Rightarrow> 's" where
  "for_levels uc v user_key internal_key func s [] = s"
| "for_levels uc v user_key internal_key func s (level # levels) =
     (let files = v_files v ! level; num_files = length files in
      if num_files = 0 then for_levels uc v user_key internal_key func s levels
      else (let index = FindFile uc files internal_key in
            if index < num_files
            then (let f = files ! index in
                  if cmp_Compare uc user_key (fm_suser f) < 0 then for_levels uc v user_key internal_key func s levels
                  else (let (s, continue) = func s level f
                        in if continue then for_levels uc v user_key internal_key func s levels else s))
            else for_levels uc v user_key internal_key func s levels))"

definition ForEachOverlapping ::
  "Comparator \<Rightarrow> Version \<Rightarrow> bytes \<Rightarrow> bytes \<Rightarrow> ('s \<Rightarrow> nat \<Rightarrow> FileMetaData \<Rightarrow> 's \<times> bool) \<Rightarrow> 's \<Rightarrow> 's" where
  "ForEachOverlapping uc v user_key internal_key func s =
     (let tmp = filter (\<lambda>f. cmp_Compare uc user_key (fm_suser f) \<ge> 0 \<and> cmp_Compare uc user_key (fm_luser f) \<le> 0) (v_files v ! 0);
          (s, continue) = (if tmp \<noteq> [] then for_files func 0 s (newest_first tmp) else (s, True))
      in if continue then for_levels uc v user_key internal_key func s [1..<kNumLevels] else s)"

section \<open>Lookups\<close>

record GetState =
  gs_saver :: Saver
  gs_seek_file :: "(FileMetaData \<times> nat) option"
  gs_last_file_read :: "(FileMetaData \<times> nat) option"
  gs_s :: status
  gs_found :: bool

type_synonym file_get = "u64 \<Rightarrow> u64 \<Rightarrow> bytes \<Rightarrow> status \<times> entry option"

definition Get_Match :: "file_get \<Rightarrow> bytes \<Rightarrow> GetState \<Rightarrow> nat \<Rightarrow> FileMetaData \<Rightarrow> GetState \<times> bool" where
  "Get_Match cache_get ikey state level f =
     (let state = (if gs_seek_file state = None \<and> gs_last_file_read state \<noteq> None
                   then state \<lparr> gs_seek_file := gs_last_file_read state \<rparr> else state);
          state = state \<lparr> gs_last_file_read := Some (f, level) \<rparr>;
          (s, result) = cache_get (fm_number f) (fm_file_size f) ikey;
          state = state \<lparr> gs_s := s,
                          gs_saver := (case result of None \<Rightarrow> gs_saver state | Some (k, v) \<Rightarrow> SaveValue (gs_saver state) k v) \<rparr>
      in if \<not> status_ok (gs_s state) then (state \<lparr> gs_found := True \<rparr>, False)
         else (case sv_state (gs_saver state) of
                 svNotFound \<Rightarrow> (state, True)
               | svFound \<Rightarrow> (state \<lparr> gs_found := True \<rparr>, False)
               | svDeleted \<Rightarrow> (state, False)
               | svCorrupt \<Rightarrow>
                   (state \<lparr> gs_s := status_Corruption (str ''corrupted key for '') (sv_user_key (gs_saver state)), gs_found := True \<rparr>, False)))"

text \<open>The status, the value and the file to charge for the seek with its level.\<close>

definition Version_Get :: "file_get \<Rightarrow> Comparator \<Rightarrow> Version \<Rightarrow> LookupKey \<Rightarrow> bytes \<Rightarrow> status \<times> bytes \<times> (FileMetaData \<times> nat) option" where
  "Version_Get cache_get uc v k value_in =
     (let state = \<lparr> gs_saver = \<lparr> sv_state = svNotFound, sv_ucmp = uc, sv_user_key = lk_user_key k, sv_value = value_in \<rparr>,
                    gs_seek_file = None, gs_last_file_read = None, gs_s = OK, gs_found = False \<rparr>;
          state = ForEachOverlapping uc v (sv_user_key (gs_saver state)) (lk_internal_key k) (Get_Match cache_get (lk_internal_key k)) state
      in (if gs_found state then gs_s state else status_NotFound [] [], sv_value (gs_saver state), gs_seek_file state))"

section \<open>Seek statistics\<close>

text \<open>The file object is shared; here the file of the level with that number is updated.\<close>

definition UpdateStats :: "Version \<Rightarrow> (FileMetaData \<times> nat) option \<Rightarrow> Version \<times> bool" where
  "UpdateStats v stats =
     (case stats of
        None \<Rightarrow> (v, False)
      | Some (f, level) \<Rightarrow>
          (let f' = f \<lparr> fm_allowed_seeks := fm_allowed_seeks f - 1 \<rparr>;
               v = v \<lparr> v_files := (v_files v)[level := map (\<lambda>g. if fm_number g = fm_number f then f' else g) (v_files v ! level)] \<rparr>
           in if fm_allowed_seeks f' \<le> 0 \<and> v_file_to_compact v = None
              then (v \<lparr> v_file_to_compact := Some f', v_file_to_compact_level := int level \<rparr>, True)
              else (v, False)))"

definition Sample_Match :: "(FileMetaData \<times> nat) option \<times> nat \<Rightarrow> nat \<Rightarrow> FileMetaData \<Rightarrow> ((FileMetaData \<times> nat) option \<times> nat) \<times> bool" where
  "Sample_Match state level f =
     (case state of (stats, n) \<Rightarrow>
        (let n = n + 1;
             stats = (if n = 1 then Some (f, level) else stats)
         in ((stats, n), n < 2)))"

definition RecordReadSample :: "Comparator \<Rightarrow> Version \<Rightarrow> bytes \<Rightarrow> Version \<times> bool" where
  "RecordReadSample uc v internal_key =
     (case ParseInternalKey internal_key of
        None \<Rightarrow> (v, False)
      | Some ikey \<Rightarrow>
          (let (stats, n) = ForEachOverlapping uc v (pik_user_key ikey) internal_key Sample_Match (None, 0)
           in if n \<ge> 2 then UpdateStats v stats else (v, False)))"

section \<open>Files and their entries\<close>

text \<open>A table file has entries in order, from its smallest to its largest key.\<close>

definition file_has :: "FileMetaData \<Rightarrow> entry list \<Rightarrow> bool" where
  "file_has f es \<longleftrightarrow> es \<noteq> [] \<and> entries_sorted internal_compare is_ikey es \<and> (\<forall>e\<in>set es. ParseInternalKey (fst e) \<noteq> None) \<and>
     fst (hd es) = fm_skey f \<and> fst (last es) = fm_lkey f"

abbreviation ek :: "entry \<Rightarrow> ikey" where "ek e \<equiv> ikey_of (fst e)"

lemma file_has_sorted: "file_has f es \<Longrightarrow> sorted_wrt (\<lambda>a b. ek a < ek b) es"
  by (simp add: file_has_def entries_sorted_def internal_less)

lemma file_has_range:
  assumes "file_has f es" "e \<in> set es"
  shows "sk f \<le> ek e" "ek e \<le> lk f"
proof -
  have ne: "es \<noteq> []" and h: "ek (hd es) = sk f" "ek (last es) = lk f" using assms(1) by (simp_all add: file_has_def)
  obtain i where i: "i < length es" "e = es ! i" using assms(2) by (auto simp: in_set_conv_nth)
  note s = file_has_sorted [OF assms(1), unfolded sorted_wrt_iff_nth_less]
  have "ek (es ! 0) \<le> ek (es ! i)" using s [rule_format, of 0 i] i(1) by (cases "i = 0") auto
  then show "sk f \<le> ek e" using i(2) ne h(1) by (simp add: hd_conv_nth)
  have "i = length es - 1 \<or> i < length es - 1" using i(1) by linarith
  then have "ek (es ! i) \<le> ek (es ! (length es - 1))" using s [rule_format, of i "length es - 1"] by (auto intro: less_imp_le)
  then show "ek e \<le> lk f" using i(2) ne h(2) by (simp add: last_conv_nth)
qed

text \<open>The entries of a user key that a snapshot sees are those from the lookup key on.\<close>

definition seen :: "bytes \<Rightarrow> entry \<Rightarrow> bool" where
  "seen k e \<longleftrightarrow> ExtractUserKey (fst e) = ExtractUserKey k \<and> ikey_of k \<le> ek e"

definition first_seen :: "bytes \<Rightarrow> entry list \<Rightarrow> entry option" where
  "first_seen k es = (case filter (\<lambda>e. \<not> internal_compare (fst e) k < 0) es of
     [] \<Rightarrow> None | e # _ \<Rightarrow> if ExtractUserKey (fst e) = ExtractUserKey k then Some e else None)"

lemma filter_first:
  assumes "sorted_wrt (\<lambda>a b. ek a < ek b) es" "filter P es = a # as"
  shows "a \<in> set es" "P a" "\<forall>e\<in>set es. P e \<longrightarrow> ek a \<le> ek e"
proof -
  have "set (filter P es) = set (a # as)" using assms(2) by (rule arg_cong)
  then have m: "e \<in> set (a # as) \<longleftrightarrow> e \<in> set es \<and> P e" for e by (metis mem_Collect_eq set_filter)
  then show "a \<in> set es" "P a" by (meson list.set_intros(1))+
  have "sorted_wrt (\<lambda>a b. ek a < ek b) (a # as)" using sorted_wrt_filter [OF assms(1), of P] assms(2) by simp
  then have "\<forall>e\<in>set (a # as). ek a \<le> ek e" by auto
  then show "\<forall>e\<in>set es. P e \<longrightarrow> ek a \<le> ek e" using m by blast
qed

lemma first_seen_iff:
  assumes "sorted_wrt (\<lambda>a b. ek a < ek b) es"
  shows "first_seen k es = Some e \<longleftrightarrow> e \<in> set es \<and> seen k e \<and> (\<forall>e'\<in>set es. seen k e' \<longrightarrow> ek e \<le> ek e')"
    and "first_seen k es = None \<longleftrightarrow> (\<forall>e\<in>set es. \<not> seen k e)"
proof -
  let ?P = "\<lambda>e. \<not> internal_compare (fst e) k < 0"
  have P: "?P e \<longleftrightarrow> ikey_of k \<le> ek e" for e by (simp add: internal_less not_less)
  have user: "ExtractUserKey (fst a) = ExtractUserKey k" if "ek a \<le> ek b" "ikey_of k \<le> ek a" "seen k b" for a b
    using that by (auto simp: less_eq_ikey_def ikey_of_def seen_def)
  show n: "first_seen k es = None \<longleftrightarrow> (\<forall>e\<in>set es. \<not> seen k e)"
  proof (cases "filter ?P es")
    case Nil
    then show ?thesis by (auto simp: first_seen_def filter_empty_conv P seen_def)
  next
    case (Cons a as)
    have a: "a \<in> set es" "ikey_of k \<le> ek a" "\<forall>e\<in>set es. ikey_of k \<le> ek e \<longrightarrow> ek a \<le> ek e"
      using filter_first [OF assms Cons, unfolded P] by blast+
    show ?thesis
    proof (cases "ExtractUserKey (fst a) = ExtractUserKey k")
      case True
      then show ?thesis using a Cons by (auto simp: first_seen_def seen_def)
    next
      case False
      then show ?thesis using a Cons user [of a] by (auto simp: first_seen_def seen_def)
    qed
  qed
  show "first_seen k es = Some e \<longleftrightarrow> e \<in> set es \<and> seen k e \<and> (\<forall>e'\<in>set es. seen k e' \<longrightarrow> ek e \<le> ek e')"
  proof (cases "first_seen k es")
    case None
    then show ?thesis using n by auto
  next
    case (Some a)
    then obtain as where as: "filter ?P es = a # as" "ExtractUserKey (fst a) = ExtractUserKey k"
      by (auto simp: first_seen_def split: list.splits if_splits)
    have a: "a \<in> set es" "ikey_of k \<le> ek a" "\<forall>e\<in>set es. ikey_of k \<le> ek e \<longrightarrow> ek a \<le> ek e"
      using filter_first [OF assms as(1), unfolded P] by blast+
    have sa: "seen k a" using a(2) as(2) by (simp add: seen_def)
    have "e = a" if "e \<in> set es" "seen k e" "\<forall>e'\<in>set es. seen k e' \<longrightarrow> ek e \<le> ek e'"
    proof -
      have "ek e = ek a" using that a sa by (auto simp: seen_def intro: order.antisym)
      then show ?thesis using assms that(1) a(1) by (metis in_set_conv_nth linorder_less_linear order.irrefl sorted_wrt_nth_less)
    qed
    then show ?thesis using Some a sa by (auto simp: seen_def)
  qed
qed

section \<open>The files in the order of the search\<close>

fun for_cands :: "('s \<Rightarrow> nat \<Rightarrow> FileMetaData \<Rightarrow> 's \<times> bool) \<Rightarrow> 's \<Rightarrow> (nat \<times> FileMetaData) list \<Rightarrow> 's" where
  "for_cands func s [] = s"
| "for_cands func s ((l, f) # cs) = (let (s, continue) = func s l f in if continue then for_cands func s cs else s)"

definition level_cand :: "Version \<Rightarrow> bytes \<Rightarrow> bytes \<Rightarrow> nat \<Rightarrow> (nat \<times> FileMetaData) list" where
  "level_cand v u k level =
     (let files = v_files v ! level; i = FindFile BytewiseComparator files k
      in if i < length files \<and> fm_suser (files ! i) \<le> u then [(level, files ! i)] else [])"

definition cands :: "Version \<Rightarrow> bytes \<Rightarrow> bytes \<Rightarrow> (nat \<times> FileMetaData) list" where
  "cands v u k = map (Pair 0) (newest_first (filter (\<lambda>f. fm_suser f \<le> u \<and> u \<le> fm_luser f) (v_files v ! 0))) @
     concat (map (level_cand v u k) [1..<kNumLevels])"

lemma for_cands_files:
  "for_cands func s (map (Pair l) fs @ cs) = (let (s, continue) = for_files func l s fs in if continue then for_cands func s cs else s)"
  by (induction func l s fs rule: for_files.induct) (auto simp: Let_def split: prod.splits)

lemma for_levels_cands:
  "for_levels BytewiseComparator v u k func s ls = for_cands func s (concat (map (level_cand v u k) ls))"
  by (induction ls arbitrary: s) (auto simp: level_cand_def Let_def user_signs not_less split: prod.splits)

lemma ForEachOverlapping_cands: "ForEachOverlapping BytewiseComparator v u k func s = for_cands func s (cands v u k)"
proof -
  have "cmp_Compare BytewiseComparator u a \<ge> 0 \<longleftrightarrow> a \<le> u" "cmp_Compare BytewiseComparator u a \<le> 0 \<longleftrightarrow> u \<le> a" for a
    using user_signs(1,2) [of u a] by (metis not_le)+
  then show ?thesis
    by (auto simp: ForEachOverlapping_def cands_def for_cands_files for_levels_cands newest_first_def Let_def split: prod.splits)
qed

definition searched_before :: "nat \<times> FileMetaData \<Rightarrow> nat \<times> FileMetaData \<Rightarrow> bool" where
  "searched_before a b \<longleftrightarrow> fst a < fst b \<or> fst a = 0 \<and> fst b = 0 \<and> fm_number (snd b) < fm_number (snd a)"

lemma newest_first_sorted:
  assumes "distinct (map fm_number fs)"
  shows "sorted_wrt (\<lambda>f g. fm_number g < fm_number f) (newest_first fs)"
proof -
  have "distinct (map fm_number (sort_key fm_number fs))" using assms by (simp add: distinct_map)
  then have "sorted_wrt (<) (map fm_number (sort_key fm_number fs))" by (simp add: strict_sorted_iff)
  then show ?thesis by (simp add: newest_first_def sorted_wrt_rev sorted_wrt_map)
qed

lemma cands_sorted:
  assumes "distinct (map fm_number (v_files v ! 0))"
  shows "sorted_wrt searched_before (cands v u k)"
proof -
  let ?z = "newest_first (filter (\<lambda>f. fm_suser f \<le> u \<and> u \<le> fm_luser f) (v_files v ! 0))"
  have "distinct (map fm_number (filter (\<lambda>f. fm_suser f \<le> u \<and> u \<le> fm_luser f) (v_files v ! 0)))"
    using assms by (rule distinct_map_filter)
  then have "sorted_wrt searched_before (map (Pair 0) ?z)"
    using newest_first_sorted by (simp add: sorted_wrt_map searched_before_def)
  moreover have fst: "\<forall>c\<in>set (concat (map (level_cand v u k) ls)). fst c \<in> set ls" for ls
    by (auto simp: level_cand_def Let_def split: if_splits)
  have "sorted_wrt (<) ls \<Longrightarrow> sorted_wrt searched_before (concat (map (level_cand v u k) ls))" for ls
  proof (induction ls)
    case (Cons l ls)
    have "sorted_wrt searched_before (level_cand v u k l)" by (simp add: level_cand_def Let_def)
    moreover have "\<forall>x\<in>set (level_cand v u k l). fst x = l" by (auto simp: level_cand_def Let_def split: if_splits)
    then have "\<forall>x\<in>set (level_cand v u k l). \<forall>y\<in>set (concat (map (level_cand v u k) ls)). searched_before x y"
      using Cons.prems fst [of ls] unfolding searched_before_def by fastforce
    ultimately show ?case using Cons by (simp add: sorted_wrt_append)
  qed simp
  then have "sorted_wrt searched_before (concat (map (level_cand v u k) [1..<kNumLevels]))" by (simp add: sorted_wrt_upt)
  moreover have "\<forall>x\<in>set (map (Pair 0) ?z). \<forall>y\<in>set (concat (map (level_cand v u k) [1..<kNumLevels])). searched_before x y"
    using fst [of "[1..<kNumLevels]"] by (fastforce simp: searched_before_def)
  ultimately show ?thesis by (simp add: cands_def sorted_wrt_append)
qed

lemma newest_first_set [simp]: "set (newest_first fs) = set fs"
  by (simp add: newest_first_def)

lemma cands_files: "(l, f) \<in> set (cands v u k) \<Longrightarrow> l < kNumLevels \<and> f \<in> set (v_files v ! l)"
  by (auto simp: cands_def level_cand_def Let_def kNumLevels_def split: if_splits)

section \<open>Reading files\<close>

text \<open>What a version relies on: a lookup in one of its files answers for the entries of the file.\<close>

lemma get_spec_some: "get_spec kvs k (s, Some e) \<Longrightarrow> \<exists>es. filter (\<lambda>e. \<not> internal_compare (fst e) k < 0) kvs = e # es"
  by (cases "filter (\<lambda>e. \<not> internal_compare (fst e) k < 0) kvs") (simp_all add: get_spec_def)

lemma get_spec_hit:
  "get_spec kvs k (s, r) \<Longrightarrow> filter (\<lambda>e. \<not> internal_compare (fst e) k < 0) kvs = e # es \<Longrightarrow> ExtractUserKey (fst e) = ExtractUserKey k \<Longrightarrow>
    s = OK \<and> r = Some e"
  by (cases r) (simp_all add: get_spec_def)

locale stored_files =
  fixes cache_get :: file_get and contents :: "FileMetaData \<Rightarrow> entry list" and files :: "FileMetaData set"
  assumes file_get: "f \<in> files \<Longrightarrow> 8 \<le> length k \<Longrightarrow> get_spec (contents f) k (cache_get (fm_number f) (fm_file_size f) k)"
    and file_entries: "f \<in> files \<Longrightarrow> file_has f (contents f)"
begin

definition searching :: "bytes \<Rightarrow> bytes \<Rightarrow> GetState \<Rightarrow> bool" where
  "searching k val st \<longleftrightarrow> sv_state (gs_saver st) = svNotFound \<and> sv_ucmp (gs_saver st) = BytewiseComparator \<and>
     sv_user_key (gs_saver st) = ExtractUserKey k \<and> sv_value (gs_saver st) = val \<and> \<not> gs_found st"

lemma Match_none:
  assumes "f \<in> files" "8 \<le> length k" "first_seen k (contents f) = None" "searching k val st"
  shows "\<exists>st'. Get_Match cache_get k st l f = (st', True) \<and> searching k val st'"
proof -
  obtain s r where r: "cache_get (fm_number f) (fm_file_size f) k = (s, r)" by fastforce
  have g: "s = OK" "get_spec (contents f) k (OK, r)" using file_get [OF assms(1,2)] r by (auto simp: get_spec_def)
  have "SaveValue (gs_saver st) (fst e) (snd e) = gs_saver st" if re: "r = Some e" for e
  proof -
    obtain es where es: "filter (\<lambda>e. \<not> internal_compare (fst e) k < 0) (contents f) = e # es"
      using get_spec_some g(2) re by blast
    then have "e \<in> set (contents f)" by (metis filter_eq_ConsD in_set_conv_decomp)
    then obtain p where p: "ParseInternalKey (fst e) = Some p" using file_entries [OF assms(1)] by (fastforce simp: file_has_def)
    have "pik_user_key p \<noteq> ExtractUserKey k" using assms(3) es p
      by (auto simp: first_seen_def ParseInternalKey_def ExtractUserKey_def Let_def split: if_splits)
    then show ?thesis using p assms(4) by (simp add: SaveValue_def searching_def user_signs)
  qed
  then have "(case r of None \<Rightarrow> gs_saver st | Some (k, v) \<Rightarrow> SaveValue (gs_saver st) k v) = gs_saver st"
    by (cases r) auto
  then show ?thesis using assms(4) r g(1)
    by (auto simp: Get_Match_def Let_def searching_def status_ok_def split: option.splits)
qed

lemma Match_some:
  assumes "f \<in> files" "8 \<le> length k" "first_seen k (contents f) = Some e" "searching k val st" "ParseInternalKey (fst e) = Some p"
  shows "\<exists>st'. Get_Match cache_get k st l f = (st', False) \<and>
    (if pik_type p = kTypeValue then gs_found st' \<and> gs_s st' = OK \<and> sv_value (gs_saver st') = snd e
     else \<not> gs_found st' \<and> sv_value (gs_saver st') = val)"
proof -
  obtain s r where r: "cache_get (fm_number f) (fm_file_size f) k = (s, r)" by fastforce
  obtain es where es: "filter (\<lambda>e. \<not> internal_compare (fst e) k < 0) (contents f) = e # es" "ExtractUserKey (fst e) = ExtractUserKey k"
    using assms(3) by (auto simp: first_seen_def split: list.splits if_splits)
  have g: "s = OK" "r = Some e" using get_spec_hit [OF _ es, of s r] file_get [OF assms(1,2)] r by simp_all
  have "pik_user_key p = ExtractUserKey k" using es(2) assms(5)
    by (auto simp: ParseInternalKey_def ExtractUserKey_def Let_def split: if_splits)
  then show ?thesis using assms(4,5) r g
    by (cases e; cases "pik_type p") (auto simp: Get_Match_def Let_def searching_def status_ok_def SaveValue_def user_signs)
qed

fun first_hit :: "bytes \<Rightarrow> (nat \<times> FileMetaData) list \<Rightarrow> entry option" where
  "first_hit k [] = None"
| "first_hit k ((l, f) # cs) = (case first_seen k (contents f) of Some e \<Rightarrow> Some e | None \<Rightarrow> first_hit k cs)"

lemma search_cands:
  assumes "\<forall>c\<in>set cs. snd c \<in> files" "8 \<le> length k" "searching k val st"
  shows "case first_hit k cs of
      None \<Rightarrow> searching k val (for_cands (Get_Match cache_get k) st cs)
    | Some e \<Rightarrow> (case ParseInternalKey (fst e) of None \<Rightarrow> True | Some p \<Rightarrow>
        (let st' = for_cands (Get_Match cache_get k) st cs in
         if pik_type p = kTypeValue then gs_found st' \<and> gs_s st' = OK \<and> sv_value (gs_saver st') = snd e
         else \<not> gs_found st' \<and> sv_value (gs_saver st') = val))"
  using assms(1,3)
proof (induction cs arbitrary: st)
  case (Cons c cs)
  obtain l f where c: "c = (l, f)" by (cases c)
  have f: "f \<in> files" using Cons.prems(1) c by auto
  show ?case
  proof (cases "first_seen k (contents f)")
    case None
    from Match_none [OF f assms(2) None Cons.prems(2)] obtain st' where
      st: "Get_Match cache_get k st l f = (st', True)" "searching k val st'" by blast
    have eq: "for_cands (Get_Match cache_get k) st (c # cs) = for_cands (Get_Match cache_get k) st' cs" "first_hit k (c # cs) = first_hit k cs"
      unfolding c using st(1) None by simp_all
    show ?thesis unfolding eq by (rule Cons.IH [OF _ st(2)]) (use Cons.prems(1) in simp)
  next
    case (Some e)
    then show ?thesis using Match_some [OF f assms(2) Some Cons.prems(2), of _ l] unfolding c by (fastforce split: option.splits)
  qed
qed simp

lemma first_hit_in: "first_hit k cs = Some e \<Longrightarrow> \<exists>c\<in>set cs. first_seen k (contents (snd c)) = Some e"
  by (induction k cs rule: first_hit.induct) (auto split: option.splits)

lemma first_hit_split:
  "first_seen k (contents f) = Some e \<Longrightarrow> \<forall>c\<in>set pre. first_seen k (contents (snd c)) = None \<Longrightarrow> first_hit k (pre @ (l, f) # post) = Some e"
  by (induction pre) auto

end

section \<open>Versions of a log-structured merge tree\<close>

text \<open>
  The entries of a user key are newer in lower levels, and in level 0 in the files with larger
  numbers; above level 0 the files are sorted and disjoint.
\<close>

definition lsm_ok :: "(FileMetaData \<Rightarrow> entry list) \<Rightarrow> Version \<Rightarrow> bool" where
  "lsm_ok contents v \<longleftrightarrow>
     (\<forall>l<kNumLevels. \<forall>f\<in>set (v_files v ! l). file_has f (contents f)) \<and>
     distinct (map fm_number (v_files v ! 0)) \<and> (\<forall>l<kNumLevels. 0 < l \<longrightarrow> level_sorted (v_files v ! l)) \<and>
     (\<forall>i<kNumLevels. \<forall>j<kNumLevels. \<forall>f\<in>set (v_files v ! i). \<forall>g\<in>set (v_files v ! j). searched_before (i, f) (j, g) \<longrightarrow>
        (\<forall>a\<in>set (contents f). \<forall>b\<in>set (contents g). ExtractUserKey (fst a) = ExtractUserKey (fst b) \<longrightarrow> ek a < ek b))"

definition version_entries :: "(FileMetaData \<Rightarrow> entry list) \<Rightarrow> Version \<Rightarrow> entry set" where
  "version_entries contents v = (\<Union>l<kNumLevels. \<Union>f\<in>set (v_files v ! l). set (contents f))"

text \<open>The newest entry that a lookup key sees is in a file that the search comes to.\<close>

lemma newest_is_cand:
  assumes ok: "lsm_ok contents v" and l: "l < kNumLevels" and g: "g \<in> set (v_files v ! l)" "e \<in> set (contents g)" and s: "seen k e"
    and newest: "\<forall>e'\<in>version_entries contents v. seen k e' \<longrightarrow> ek e \<le> ek e'"
  shows "(l, g) \<in> set (cands v (ExtractUserKey k) k)"
proof -
  have has: "file_has f (contents f)" if "f \<in> set (v_files v ! l)" for f using ok l that by (simp add: lsm_ok_def)
  note range = file_has_range [OF has [OF g(1)] g(2)]
  have u: "ik_user (ek e) = ExtractUserKey k" using s by (simp add: seen_def ikey_of_def)
  have us: "fm_suser g \<le> ExtractUserKey k" "ExtractUserKey k \<le> fm_luser g"
    using ikey_user_mono(1) [OF range(1)] ikey_user_mono(1) [OF range(2)] by (simp_all add: u file_users)
  show ?thesis
  proof (cases "l = 0")
    case True
    then show ?thesis using us g(1) by (simp add: cands_def)
  next
    case False
    let ?fs = "v_files v ! l"
    let ?i = "FindFile BytewiseComparator ?fs k"
    have sorted: "level_sorted ?fs" using ok l False by (simp add: lsm_ok_def)
    obtain j where j: "j < length ?fs" "?fs ! j = g" using g(1) by (auto simp: in_set_conv_nth)
    have kg: "ikey_of k \<le> lk g" using s range(2) by (auto simp: seen_def)
    then have ij: "?i \<le> j" using FindFile_cut(2) [OF sorted j(1), of k] j(2) by (simp add: not_less [symmetric])
    have "?i = j"
    proof (rule ccontr)
      assume "?i \<noteq> j"
      then have lt: "?i < j" using ij by simp
      let ?f = "?fs ! ?i"
      have i: "?i < length ?fs" using lt j(1) by simp
      then have f: "?f \<in> set ?fs" by simp
      have ge: "ikey_of k \<le> lk ?f" using FindFile_cut(2) [OF sorted i, of k] by (simp add: not_less)
      have "lk ?f < sk g" using sorted lt j unfolding level_sorted_def sorted_wrt_iff_nth_less by blast
      then have less: "lk ?f < ek e" using range(1) by (rule order.strict_trans2)
      let ?m = "last (contents ?f)"
      have m: "?m \<in> set (contents ?f)" "ek ?m = lk ?f" using has [OF f] by (simp_all add: file_has_def)
      have "ExtractUserKey (fst ?m) = ExtractUserKey k"
        using ge less m(2) u by (auto simp: less_eq_ikey_def less_ikey_def ikey_of_def)
      then have "seen k ?m" using ge m(2) by (simp add: seen_def)
      moreover have "?m \<in> version_entries contents v" using m(1) f l by (auto simp: version_entries_def)
      ultimately show False using newest less m(2) by (auto dest: leD)
    qed
    then have "level_cand v (ExtractUserKey k) k l = [(l, g)]" using j us(1) by (simp add: level_cand_def Let_def)
    then have "(l, g) \<in> set (level_cand v (ExtractUserKey k) k l)" by simp
    moreover have "l \<in> set [1..<kNumLevels]" using l False by simp
    ultimately show ?thesis unfolding cands_def set_append set_concat set_map by blast
  qed
qed

context stored_files
begin

lemma first_hit_newest:
  assumes ok: "lsm_ok contents v" and e: "e \<in> version_entries contents v" "seen k e"
    and newest: "\<forall>e'\<in>version_entries contents v. seen k e' \<longrightarrow> ek e \<le> ek e'"
  shows "first_hit k (cands v (ExtractUserKey k) k) = Some e"
proof -
  obtain l g where g: "l < kNumLevels" "g \<in> set (v_files v ! l)" "e \<in> set (contents g)" using e(1) by (auto simp: version_entries_def)
  have has: "file_has g (contents g)" using ok g by (simp add: lsm_ok_def)
  obtain pre post where split: "cands v (ExtractUserKey k) k = pre @ (l, g) # post"
    using newest_is_cand [OF ok g e(2) newest] by (meson split_list)
  have "first_seen k (contents g) = Some e"
    unfolding first_seen_iff(1) [OF file_has_sorted [OF has]] using g e(2) newest by (auto simp: version_entries_def)
  moreover have "first_seen k (contents (snd c)) = None" if c: "c \<in> set pre" for c
  proof -
    obtain i f where cf: "c = (i, f)" by (cases c)
    have f: "i < kNumLevels" "f \<in> set (v_files v ! i)" using cands_files [of i f v "ExtractUserKey k" k] c split cf by auto
    have "sorted_wrt searched_before (pre @ (l, g) # post)"
      using cands_sorted [of v "ExtractUserKey k" k] ok unfolding split by (simp add: lsm_ok_def)
    then have before: "searched_before (i, f) (l, g)" using c cf by (simp add: sorted_wrt_append)
    have "\<not> seen k a" if a: "a \<in> set (contents f)" for a
    proof
      assume sa: "seen k a"
      then have "ek a < ek e" using ok before f g a e(2) unfolding lsm_ok_def seen_def by metis
      moreover have "a \<in> version_entries contents v" using a f by (auto simp: version_entries_def)
      ultimately show False using newest sa by (auto dest: leD)
    qed
    moreover have "file_has f (contents f)" using ok f by (simp add: lsm_ok_def)
    ultimately show ?thesis using first_seen_iff(2) [OF file_has_sorted] cf by simp
  qed
  ultimately show ?thesis unfolding split by (intro first_hit_split) blast+
qed

lemma first_hit_none:
  assumes ok: "lsm_ok contents v" and none: "\<forall>e\<in>version_entries contents v. \<not> seen k e"
  shows "first_hit k (cands v (ExtractUserKey k) k) = None"
proof (rule ccontr)
  assume "first_hit k (cands v (ExtractUserKey k) k) \<noteq> None"
  then obtain e c where c: "c \<in> set (cands v (ExtractUserKey k) k)" "first_seen k (contents (snd c)) = Some e" using first_hit_in by blast
  obtain l f where lf: "c = (l, f)" by (cases c)
  have f: "l < kNumLevels" "f \<in> set (v_files v ! l)" using cands_files c(1) lf by blast+
  then have "file_has f (contents f)" using ok by (simp add: lsm_ok_def)
  then have "e \<in> set (contents f)" "seen k e" using first_seen_iff(1) [OF file_has_sorted] c(2) lf by auto
  then show False using none f by (auto simp: version_entries_def)
qed

lemma Version_Get_newest:
  assumes ok: "lsm_ok contents v" and files: "\<forall>l<kNumLevels. set (v_files v ! l) \<subseteq> files"
    and k: "lk_user_key k = ExtractUserKey (lk_internal_key k)" "8 \<le> length (lk_internal_key k)"
  shows "(\<forall>e\<in>version_entries contents v. \<not> seen (lk_internal_key k) e) \<Longrightarrow>
      \<exists>st. Version_Get cache_get BytewiseComparator v k val = (status_NotFound [] [], val, st)"
    and "e \<in> version_entries contents v \<Longrightarrow> seen (lk_internal_key k) e \<Longrightarrow>
      \<forall>e'\<in>version_entries contents v. seen (lk_internal_key k) e' \<longrightarrow> ek e \<le> ek e' \<Longrightarrow> ParseInternalKey (fst e) = Some p \<Longrightarrow>
      \<exists>st. Version_Get cache_get BytewiseComparator v k val =
        (if pik_type p = kTypeValue then (OK, snd e, st) else (status_NotFound [] [], val, st))"
proof -
  let ?k = "lk_internal_key k"
  let ?cs = "cands v (ExtractUserKey ?k) ?k"
  let ?st = "\<lparr> gs_saver = \<lparr> sv_state = svNotFound, sv_ucmp = BytewiseComparator, sv_user_key = ExtractUserKey ?k, sv_value = val \<rparr>,
    gs_seek_file = None, gs_last_file_read = None, gs_s = OK, gs_found = False \<rparr>"
  have cf: "\<forall>c\<in>set ?cs. snd c \<in> files" using cands_files [of _ _ v "ExtractUserKey ?k" ?k] files by fastforce
  have st: "searching ?k val ?st" by (simp add: searching_def)
  note res = search_cands [OF cf k(2) st]
  have get: "Version_Get cache_get BytewiseComparator v k val =
      (let state = for_cands (Get_Match cache_get ?k) ?st ?cs
       in (if gs_found state then gs_s state else status_NotFound [] [], sv_value (gs_saver state), gs_seek_file state))"
    by (simp add: Version_Get_def k(1) ForEachOverlapping_cands)
  show "\<exists>st. Version_Get cache_get BytewiseComparator v k val = (status_NotFound [] [], val, st)"
    if "\<forall>e\<in>version_entries contents v. \<not> seen ?k e"
    using res unfolding first_hit_none [OF ok that] get by (simp add: searching_def Let_def)
  show "\<exists>st. Version_Get cache_get BytewiseComparator v k val =
      (if pik_type p = kTypeValue then (OK, snd e, st) else (status_NotFound [] [], val, st))"
    if "e \<in> version_entries contents v" "seen ?k e" "\<forall>e'\<in>version_entries contents v. seen ?k e' \<longrightarrow> ek e \<le> ek e'" "ParseInternalKey (fst e) = Some p"
    using res unfolding first_hit_newest [OF ok that(1-3)] get by (simp add: Let_def that(4) split: if_splits)
qed

end

section \<open>Files that the table builder wrote\<close>

definition stored_as :: "TableEnv \<Rightarrow> FileMetaData \<Rightarrow> entry list \<Rightarrow> bool" where
  "stored_as env f kvs \<longleftrightarrow> file_has f kvs \<and> table_input_ok (te_snappy env) (te_options env) kvs \<and>
     (\<exists>bits. opt_filter_policy (te_options env) \<in> {None, Some (InternalFilterPolicy (BloomFilterPolicy bits))}) \<and>
     (let T = tb_file (snd (tb_Finish (te_snappy env) string_file (tb_add_all (te_snappy env) (te_options env) kvs)))
      in length T < 2 ^ 32 \<and> fm_file_size f = word_of_nat (length T) \<and>
         (\<exists>rfile. te_NewRandomAccessFile env (TableFileName (te_dbname env) (fm_number f)) = (OK, Some rfile) \<and> random_file rfile T))"

lemma stored_files_built: "stored_files (uncached_Get env ro) contents {f. stored_as env f (contents f)}"
proof
  fix f k
  assume f: "f \<in> {f. stored_as env f (contents f)}"
  then show "file_has f (contents f)" by (simp add: stored_as_def)
  assume k: "8 \<le> length (k :: bytes)"
  define T where "T = tb_file (snd (tb_Finish (te_snappy env) string_file (tb_add_all (te_snappy env) (te_options env) (contents f))))"
  obtain bits rfile where s: "table_input_ok (te_snappy env) (te_options env) (contents f)" "length T < 2 ^ 32" "fm_file_size f = word_of_nat (length T)"
    "opt_filter_policy (te_options env) \<in> {None, Some (InternalFilterPolicy (BloomFilterPolicy bits))}"
    "te_NewRandomAccessFile env (TableFileName (te_dbname env) (fm_number f)) = (OK, Some rfile)" "random_file rfile T"
    using f unfolding stored_as_def Let_def T_def mem_Collect_eq by blast
  from built_table_get [OF s(1) T_def s(2,6) k s(4), of 0 ro] obtain t where
    t: "Table_Open (te_snappy env) (te_options env) rfile 0 (word_of_nat (length T)) = (OK, Some t)"
    "get_spec (contents f) k (Table_InternalGet (te_snappy env) None t ro k)" by blast
  have "open_table env (fm_number f) (fm_file_size f) = (OK, Some \<lparr> tf_file = rfile, tf_table = t \<rparr>)"
    using s(5) t(1) by (simp add: open_table_def Let_def status_ok_def s(3))
  then show "get_spec (contents f) k (uncached_Get env ro (fm_number f) (fm_file_size f) k)"
    using t(2) by (simp add: uncached_Get_def)
qed

interpretation built: stored_files "uncached_Get env ro" contents "{f. stored_as env f (contents f)}" for env ro contents
  by (rule stored_files_built)

lemma lookup_key:
  "lk_internal_key (LookupKey_new u q) = u @ EncodeFixed64 (PackSequenceAndType q kTypeValue)" "lk_user_key (LookupKey_new u q) = u"
  by (simp_all add: lk_internal_key_def lk_user_key_def LookupKey_array kValueTypeForSeek_def)

lemma seen_visible:
  assumes "ParseInternalKey (fst e) \<noteq> None" "q \<le> kMaxSequenceNumber"
  shows "seen (lk_internal_key (LookupKey_new u q)) e \<longleftrightarrow> e_user e = u \<and> visible q e"
proof -
  obtain p where p: "ParseInternalKey (fst e) = Some p" using assms(1) by blast
  have "ikey_of (u @ EncodeFixed64 (PackSequenceAndType q kTypeValue)) \<le> ek e \<longleftrightarrow> \<not> (e_user e < u \<or> (e_user e = u \<and> \<not> pik_sequence p \<le> q))"
    using before_snapshot [OF p assms(2), of u] unfolding internal_less by (simp only: not_less [symmetric])
  then show ?thesis using p by (auto simp: seen_def lookup_key e_user_def visible_def e_parsed_def)
qed

text \<open>The newest entry of a user key that a snapshot sees.\<close>

definition newest_visible :: "entry set \<Rightarrow> bytes \<Rightarrow> u64 \<Rightarrow> entry \<Rightarrow> bool" where
  "newest_visible es u q e \<longleftrightarrow> e \<in> es \<and> e_user e = u \<and> visible q e \<and>
     (\<forall>e'\<in>es. e_user e' = u \<and> visible q e' \<longrightarrow> ikey_of (fst e) \<le> ikey_of (fst e'))"

lemma newest_visible_ex:
  assumes "finite es" "e \<in> es" "e_user e = u" "visible q e"
  shows "\<exists>e. newest_visible es u q e"
proof -
  let ?S = "{e \<in> es. e_user e = u \<and> visible q e}"
  have "finite ?S" "?S \<noteq> {}" using assms by (simp, blast)
  from ex_min_if_finite [OF finite_imageI [OF this(1), of ek]] this(2) obtain m where m: "m \<in> ek ` ?S" "\<not> (\<exists>x\<in>ek ` ?S. x < m)" by blast
  then obtain a where "a \<in> ?S" "m = ek a" by blast
  with m(2) show ?thesis by (intro exI [of _ a]) (auto simp: newest_visible_def not_less)
qed

lemma finite_version_entries: "finite (version_entries contents v)"
  by (simp add: version_entries_def)

section \<open>Property\<close>

text \<open>
  C4: Reading from the files of a version: when they are tables that the builder wrote, entries of a
  user key are newer in lower levels and, in level 0, in files with larger numbers, and the files of the
  higher levels are sorted and disjoint, then a lookup of a user key at a snapshot, which opens at most
  one file per level above 0, gives the value of the newest entry of that key in any file that the
  snapshot sees, and \<open>NotFound\<close> if that entry is a deletion or there is none.
\<close>

theorem version_get_newest:
  assumes "\<forall>l<kNumLevels. \<forall>f\<in>set (v_files v ! l). stored_as env f (contents f)" "lsm_ok contents v" "q \<le> kMaxSequenceNumber"
  shows "(\<forall>e. newest_visible (version_entries contents v) u q e \<longrightarrow>
      (\<exists>st. Version_Get (uncached_Get env ro) BytewiseComparator v (LookupKey_new u q) val =
        (if pik_type (e_parsed e) = kTypeValue then (OK, snd e, st) else (status_NotFound [] [], val, st)))) \<and>
    ((\<nexists>e. newest_visible (version_entries contents v) u q e) \<longrightarrow>
      (\<exists>st. Version_Get (uncached_Get env ro) BytewiseComparator v (LookupKey_new u q) val = (status_NotFound [] [], val, st)))"
proof -
  let ?k = "LookupKey_new u q"
  have files: "\<forall>l<kNumLevels. set (v_files v ! l) \<subseteq> {f. stored_as env f (contents f)}" using assms(1) by blast
  have k: "lk_user_key ?k = ExtractUserKey (lk_internal_key ?k)" "8 \<le> length (lk_internal_key ?k)" by (simp_all add: lookup_key)
  have parse: "ParseInternalKey (fst e) \<noteq> None" if "e \<in> version_entries contents v" for e
    using assms(2) that by (fastforce simp: lsm_ok_def version_entries_def file_has_def)
  note sv = seen_visible [OF parse assms(3), of _ u]
  note get = built.Version_Get_newest [OF assms(2) files k, where ro = ro and val = val]
  have "\<exists>st. Version_Get (uncached_Get env ro) BytewiseComparator v ?k val =
      (if pik_type (e_parsed e) = kTypeValue then (OK, snd e, st) else (status_NotFound [] [], val, st))"
    if e: "newest_visible (version_entries contents v) u q e" for e
  proof (rule get(2))
    show "e \<in> version_entries contents v" "seen (lk_internal_key ?k) e" using e sv by (simp_all add: newest_visible_def)
    show "\<forall>e'\<in>version_entries contents v. seen (lk_internal_key ?k) e' \<longrightarrow> ek e \<le> ek e'" using e sv by (simp add: newest_visible_def)
    show "ParseInternalKey (fst e) = Some (e_parsed e)" 
      using parse [of e] e by (cases "ParseInternalKey (fst e)") (simp_all add: newest_visible_def e_parsed_def)
  qed
  moreover have "\<exists>st. Version_Get (uncached_Get env ro) BytewiseComparator v ?k val = (status_NotFound [] [], val, st)"
    if "\<nexists>e. newest_visible (version_entries contents v) u q e"
  proof (rule get(1))
    show "\<forall>e\<in>version_entries contents v. \<not> seen (lk_internal_key ?k) e"
      using newest_visible_ex [OF finite_version_entries] that sv by blast
  qed
  ultimately show ?thesis by blast
qed

definition one_file :: FileMetaData where
  "one_file = FileMetaData_of 7 (word_of_nat (length (tb_file (snd (tb_Finish plain_snappy string_file (tb_add_all plain_snappy plain_options two_versions))))))
     \<lparr> InternalKey_rep = [107, 1, 2, 0, 0, 0, 0, 0, 0] \<rparr> \<lparr> InternalKey_rep = [107, 1, 1, 0, 0, 0, 0, 0, 0] \<rparr>"

definition one_file_env :: TableEnv where
  "one_file_env = \<lparr> te_snappy = plain_snappy, te_dbname = [100], te_options = plain_options,
     te_NewRandomAccessFile = (\<lambda>_. (OK, Some (PosixMmapReadableFile OK
       (tb_file (snd (tb_Finish plain_snappy string_file (tb_add_all plain_snappy plain_options two_versions))))))) \<rparr>"

definition one_file_version :: Version where
  "one_file_version = Version_new \<lparr> v_files := (replicate kNumLevels []) [0 := [one_file]] \<rparr>"

lemma two_versions_parsed:
  "ParseInternalKey [107, 1, 2, 0, 0, 0, 0, 0, 0] = Some \<lparr> pik_user_key = [107], pik_sequence = 2, pik_type = kTypeValue \<rparr>"
  "ParseInternalKey [107, 1, 1, 0, 0, 0, 0, 0, 0] = Some \<lparr> pik_user_key = [107], pik_sequence = 1, pik_type = kTypeValue \<rparr>"
  by code_simp+

lemma one_file_levels: "l < kNumLevels \<Longrightarrow> v_files one_file_version ! l = (if l = 0 then [one_file] else [])"
  by (simp add: one_file_version_def nth_list_update kNumLevels_def)

lemma one_file_has: "file_has one_file two_versions"
proof -
  have "entries_sorted internal_compare is_ikey two_versions" using two_versions_input by (simp add: table_input_ok_def)
  then show ?thesis
    by (simp add: file_has_def one_file_def FileMetaData_of_def fm_skey_def fm_lkey_def InternalKey_Encode_def two_versions_parsed two_versions_def)
qed

lemma one_file_stored: "stored_as one_file_env one_file two_versions"
  using one_file_has two_versions_input two_versions_size mmap_file.random_file_axioms [of OK]
  unfolding stored_as_def Let_def
  by (auto simp: one_file_env_def one_file_def FileMetaData_of_def plain_options_def)

lemma one_file_lsm: "lsm_ok (\<lambda>_. two_versions) one_file_version"
  using one_file_has by (auto simp: lsm_ok_def one_file_levels level_sorted_def searched_before_def kNumLevels_def)

theorem version_get_newest_witness:
  "\<exists>st. Version_Get (uncached_Get one_file_env \<lparr> ro_verify_checksums = True, ro_fill_cache = True \<rparr>) BytewiseComparator one_file_version
    (LookupKey_new [107] 1) [] = (OK, [8], st)"
proof -
  have es: "version_entries (\<lambda>_. two_versions) one_file_version = set two_versions"
    by (auto simp: version_entries_def one_file_levels kNumLevels_def)
  have "newest_visible (set two_versions) [107] 1 ([107, 1, 1, 0, 0, 0, 0, 0, 0], [8])"
    by (auto simp: newest_visible_def two_versions_def e_user_def ExtractUserKey_def visible_def e_parsed_def two_versions_parsed word_le_nat_alt)
  moreover have "pik_type (e_parsed ([107, 1, 1, 0, 0, 0, 0, 0, 0], [8])) = kTypeValue" by (simp add: e_parsed_def two_versions_parsed)
  moreover have "\<forall>l<kNumLevels. \<forall>f\<in>set (v_files one_file_version ! l). stored_as one_file_env f two_versions"
    using one_file_stored by (simp add: one_file_levels)
  moreover have "(1 :: u64) \<le> kMaxSequenceNumber" by (simp add: kMaxSequenceNumber_val)
  ultimately show ?thesis
    using version_get_newest [of one_file_version one_file_env "\<lambda>_. two_versions" 1 "[107]" "\<lparr> ro_verify_checksums = True, ro_fill_cache = True \<rparr>" "[]"]
    one_file_lsm unfolding es by fastforce
qed

end
