(* ===== verification/Compaction_View.thy ===== *)
theory Compaction_View
  imports Compaction Version_Get "HOL-Library.Sublist"
begin

text \<open>
  What a compaction may drop (the rule in the loop of \<open>DoCompactionWork\<close>, \<^verbatim>\<open>kv/db/db_impl.cpp\<close>), as a
  function on lists of entries, and why reads at live snapshots do not notice: from single lists of
  entries up to the files of a version.
\<close>

section \<open>The entries a compaction keeps\<close>

abbreviation e_seq :: "entry \<Rightarrow> u64" where "e_seq e \<equiv> pik_sequence (e_parsed e)"
abbreviation e_type :: "entry \<Rightarrow> ValueType" where "e_type e \<equiv> pik_type (e_parsed e)"

text \<open>An entry is obsolete if a newer one of its key is visible at every snapshot, or if it is a deletion with nothing to hide.\<close>

definition obsolete :: "u64 \<Rightarrow> (bytes \<Rightarrow> bool) \<Rightarrow> entry list \<Rightarrow> entry \<Rightarrow> bool" where
  "obsolete ss base pre e \<longleftrightarrow> (\<exists>p\<in>set pre. e_user p = e_user e \<and> e_seq p \<le> ss) \<or>
     e_type e = kTypeDeletion \<and> e_seq e \<le> ss \<and> base (e_user e)"

fun compacted :: "u64 \<Rightarrow> (bytes \<Rightarrow> bool) \<Rightarrow> entry list \<Rightarrow> entry list \<Rightarrow> entry list" where
  "compacted ss base pre [] = []"
| "compacted ss base pre (e # es) = (if obsolete ss base pre e then [] else [e]) @ compacted ss base (pre @ [e]) es"

lemma compacted_kept: "e \<in> set (compacted ss base pre es) \<Longrightarrow> \<exists>xs ys. es = xs @ e # ys \<and> \<not> obsolete ss base (pre @ xs) e"
proof (induction es arbitrary: pre)
  case (Cons x es)
  show ?case
  proof (cases "e \<in> set (compacted ss base (pre @ [x]) es)")
    case True
    from Cons.IH [OF this] obtain xs ys where "es = xs @ e # ys" "\<not> obsolete ss base ((pre @ [x]) @ xs) e" by blast
    then show ?thesis by (intro exI [of _ "x # xs"] exI [of _ ys]) simp
  next
    case False
    then have "e = x" "\<not> obsolete ss base pre x" using Cons.prems by (auto split: if_splits)
    then show ?thesis by (intro exI [of _ "[]"] exI [of _ es]) simp
  qed
qed simp

lemma compacted_dropped: "e \<in> set es \<Longrightarrow> e \<notin> set (compacted ss base pre es) \<Longrightarrow> \<exists>xs ys. es = xs @ e # ys \<and> obsolete ss base (pre @ xs) e"
proof (induction es arbitrary: pre)
  case (Cons x es)
  show ?case
  proof (cases "e = x")
    case True
    then have "obsolete ss base pre x" using Cons.prems(2) by (auto split: if_splits)
    then show ?thesis using True by (intro exI [of _ "[]"] exI [of _ es]) simp
  next
    case False
    then have "e \<in> set es" "e \<notin> set (compacted ss base (pre @ [x]) es)" using Cons.prems by auto
    from Cons.IH [OF this] obtain xs ys where "es = xs @ e # ys" "obsolete ss base ((pre @ [x]) @ xs) e" by blast
    then show ?thesis by (intro exI [of _ "x # xs"] exI [of _ ys]) simp
  qed
qed simp

lemma compacted_subseq: "subseq (compacted ss base pre es) es"
  by (induction es arbitrary: pre) auto

lemma compacted_subset: "set (compacted ss base pre es) \<subseteq> set es"
  by (induction es arbitrary: pre) (simp, simp, blast)

section \<open>Reading\<close>

text \<open>What reading a user key at a snapshot gives, over a set of entries.\<close>

definition reads :: "entry set \<Rightarrow> bytes \<Rightarrow> u64 \<Rightarrow> bytes option \<Rightarrow> bool" where
  "reads S u q r \<longleftrightarrow> (case r of
     Some v \<Rightarrow> \<exists>e. newest_visible S u q e \<and> e_type e = kTypeValue \<and> snd e = v
   | None \<Rightarrow> \<forall>e. newest_visible S u q e \<longrightarrow> e_type e = kTypeDeletion)"

lemma newest_visible_subset: "newest_visible S u q e \<Longrightarrow> T \<subseteq> S \<Longrightarrow> e \<in> T \<Longrightarrow> newest_visible T u q e"
  unfolding newest_visible_def by blast

lemma sorted_before:
  assumes "sorted_wrt (\<lambda>a b. ek a < ek b) (xs @ e # ys)" "a \<in> set (xs @ e # ys)"
  shows "a \<in> set xs \<longleftrightarrow> ek a < ek e"
  using assms by (auto simp: sorted_wrt_append)

text \<open>Dropping obsolete entries changes no read at a snapshot from \<open>ss\<close> on.\<close>

lemma newest_dropped:
  assumes so: "sorted_wrt (\<lambda>a b. ek a < ek b) es" and q: "ss \<le> q"
    and D: "base u \<longrightarrow> (\<forall>d\<in>D. e_user d = u \<longrightarrow> (\<forall>e\<in>set es. e_user e = u \<longrightarrow> ek d < ek e))"
    and e: "newest_visible (D \<union> set es) u q e" "e \<notin> D \<union> set (compacted ss base [] es)"
  shows "e_type e = kTypeDeletion" "\<forall>e'\<in>D \<union> set (compacted ss base [] es). \<not> (e_user e' = u \<and> visible q e')"
proof -
  have n: "e_user e = u" "visible q e" "\<And>e'. e' \<in> D \<union> set es \<Longrightarrow> e_user e' = u \<Longrightarrow> visible q e' \<Longrightarrow> ek e \<le> ek e'" "e \<in> set es"
    using e by (auto simp: newest_visible_def)
  obtain xs ys where es: "es = xs @ e # ys" "obsolete ss base xs e" using compacted_dropped [OF n(4), of ss base "[]"] e(2) by auto
  have "\<not> (\<exists>p\<in>set xs. e_user p = e_user e \<and> e_seq p \<le> ss)"
  proof
    assume "\<exists>p\<in>set xs. e_user p = e_user e \<and> e_seq p \<le> ss"
    then obtain p where p: "p \<in> set xs" "e_user p = u" "e_seq p \<le> ss" using n(1) by blast
    then have "ek e \<le> ek p" using n(3) [of p] q by (simp add: es(1) visible_def order.trans)
    moreover have "ek p < ek e" using sorted_before [OF so [unfolded es(1)], of p] p(1) by simp
    ultimately show False by simp
  qed
  then have del: "e_type e = kTypeDeletion" "e_seq e \<le> ss" "base u" using es(2) n(1) by (auto simp: obsolete_def)
  then show "e_type e = kTypeDeletion" by blast
  show "\<forall>e'\<in>D \<union> set (compacted ss base [] es). \<not> (e_user e' = u \<and> visible q e')"
  proof (intro ballI notI)
    fix e' assume e': "e' \<in> D \<union> set (compacted ss base [] es)" and u: "e_user e' = u \<and> visible q e'"
    have le: "ek e \<le> ek e'" using n(3) [of e'] e' u compacted_subset [of ss base "[]" es] by blast
    show False
    proof (cases "e' \<in> D")
      case True
      then have "ek e' < ek e" using D del(3) n(1,4) u by blast
      then show False using le by simp
    next
      case False
      then obtain xs' ys' where e2: "es = xs' @ e' # ys'" "\<not> obsolete ss base xs' e'" using compacted_kept [of e' ss base "[]" es] e' by auto
      have "e \<noteq> e'" using e(2) e' by auto
      then have "ek e \<noteq> ek e'" using so n(4) e2(1) sorted_wrt_total [OF so n(4), of e'] by fastforce
      then have "e \<in> set xs'" using sorted_before [OF so [unfolded e2(1)], of e] n(4) e2(1) le by simp
      then show False using e2(2) n(1) u del(2) by (auto simp: obsolete_def)
    qed
  qed
qed

lemma compacted_reads:
  assumes "finite D" "sorted_wrt (\<lambda>a b. ek a < ek b) es" "ss \<le> q"
    and "base u \<longrightarrow> (\<forall>d\<in>D. e_user d = u \<longrightarrow> (\<forall>e\<in>set es. e_user e = u \<longrightarrow> ek d < ek e))"
  shows "reads (D \<union> set (compacted ss base [] es)) u q r \<longleftrightarrow> reads (D \<union> set es) u q r"
proof -
  let ?S = "D \<union> set es" and ?S' = "D \<union> set (compacted ss base [] es)"
  have sub: "?S' \<subseteq> ?S" using compacted_subset [of ss base "[]" es] by blast
  have fwd: "newest_visible ?S' u q e" if "newest_visible ?S u q e" "e \<in> ?S'" for e using newest_visible_subset [OF that(1) sub that(2)] .
  note dr = newest_dropped [where base = base and u = u, OF assms(2-4)]
  have bwd: "newest_visible ?S u q e" if e: "newest_visible ?S' u q e" for e
  proof -
    have es: "e \<in> ?S'" "e_user e = u" "visible q e" using e by (auto simp: newest_visible_def)
    then obtain m where m: "newest_visible ?S u q m" using newest_visible_ex [of ?S e u q] sub assms(1) by blast
    have "m \<in> ?S'" using dr(2) [OF m] es by blast
    then have "ek e \<le> ek m" using e m by (auto simp: newest_visible_def)
    then show ?thesis using m es sub unfolding newest_visible_def by (meson order.trans subsetD)
  qed
  have del: "e_type e = kTypeDeletion" if "newest_visible ?S u q e" "e \<notin> ?S'" for e using dr(1) [OF that] .
  show ?thesis
  proof (cases r)
    case None
    have "e_type e = kTypeDeletion" if "\<forall>e. newest_visible ?S' u q e \<longrightarrow> e_type e = kTypeDeletion" "newest_visible ?S u q e" for e
      using that fwd [of e] del [of e] by blast
    then show ?thesis unfolding None reads_def option.case using bwd by blast
  next
    case (Some v)
    have "e \<in> ?S'" if "newest_visible ?S u q e" "e_type e = kTypeValue" for e using del [OF that(1)] that(2) by auto
    then show ?thesis unfolding Some reads_def option.case using fwd bwd by blast
  qed
qed

section \<open>The files of a version\<close>

text \<open>The files of a level that are not inputs.\<close>

definition rest :: "Version \<Rightarrow> nat \<Rightarrow> FileMetaData list \<Rightarrow> FileMetaData list \<Rightarrow> nat \<Rightarrow> FileMetaData set" where
  "rest v level in0 in1 l = set (v_files v ! l) - (if l = level then set in0 else if l = level + 1 then set in1 else {})"

text \<open>No file that stays in the output level continues the user key of an input of that level.\<close>

definition no_split :: "Version \<Rightarrow> nat \<Rightarrow> FileMetaData list \<Rightarrow> bool" where
  "no_split v level in1 \<longleftrightarrow> (\<forall>f\<in>set (v_files v ! (level + 1)) - set in1. \<forall>g\<in>set in1. \<not> (lk g < sk f \<and> fm_suser f = fm_luser g))"

definition input_entries :: "(FileMetaData \<Rightarrow> entry list) \<Rightarrow> FileMetaData list \<Rightarrow> FileMetaData list \<Rightarrow> entry set" where
  "input_entries contents in0 in1 = (\<Union>f\<in>set in0 \<union> set in1. set (contents f))"

definition rest_entries :: "(FileMetaData \<Rightarrow> entry list) \<Rightarrow> Version \<Rightarrow> nat \<Rightarrow> FileMetaData list \<Rightarrow> FileMetaData list \<Rightarrow> entry set" where
  "rest_entries contents v level in0 in1 = (\<Union>l<kNumLevels. \<Union>f\<in>rest v level in0 in1 l. set (contents f))"

definition base_key :: "Version \<Rightarrow> nat \<Rightarrow> bytes \<Rightarrow> bool" where
  "base_key v level u \<longleftrightarrow> (\<forall>l. level + 2 \<le> l \<and> l < kNumLevels \<longrightarrow> \<not> (\<exists>f\<in>set (v_files v ! l). covers f u))"

lemma entries_split:
  assumes "set in0 \<subseteq> set (v_files v ! level)" "set in1 \<subseteq> set (v_files v ! (level + 1))" "level + 1 < kNumLevels"
  shows "version_entries contents v = rest_entries contents v level in0 in1 \<union> input_entries contents in0 in1"
proof -
  have l: "level < kNumLevels" using assms(3) by simp
  have "set (v_files v ! l) = rest v level in0 in1 l \<union> (if l = level then set in0 else if l = level + 1 then set in1 else {})" for l
    using assms(1,2) by (auto simp: rest_def)
  then have "(\<Union>f\<in>set (v_files v ! l). set (contents f)) = (\<Union>f\<in>rest v level in0 in1 l. set (contents f)) \<union>
      (\<Union>f\<in>(if l = level then set in0 else if l = level + 1 then set in1 else {}). set (contents f))" for l by (metis UN_Un)
  then have "version_entries contents v = rest_entries contents v level in0 in1 \<union>
      (\<Union>l<kNumLevels. \<Union>f\<in>(if l = level then set in0 else if l = level + 1 then set in1 else {}). set (contents f))"
    unfolding version_entries_def rest_entries_def by (simp only: UN_Un_distrib)
  moreover have "(\<Union>l<kNumLevels. \<Union>f\<in>(if l = level then set in0 else if l = level + 1 then set in1 else {}). set (contents f)) =
      input_entries contents in0 in1"
  proof -
    define A where "A = (\<Union>f\<in>set in0. set (contents f))"
    define B where "B = (\<Union>f\<in>set in1. set (contents f))"
    have "(\<Union>f\<in>(if l = level then set in0 else if l = level + 1 then set in1 else {}). set (contents f)) =
        (if l = level then A else if l = level + 1 then B else {})" for l by (simp add: A_def B_def)
    moreover have "(\<Union>l<kNumLevels. if l = level then A else if l = level + 1 then B else {}) = A \<union> B"
      using l assms(3) by (auto split: if_splits)
    moreover have "input_entries contents in0 in1 = A \<union> B" unfolding input_entries_def A_def B_def by (rule UN_Un)
    ultimately show ?thesis by simp
  qed
  ultimately show ?thesis by simp
qed

lemma entry_user_range:
  assumes "file_has f es" "e \<in> set es"
  shows "fm_suser f \<le> e_user e" "e_user e \<le> fm_luser f"
proof -
  have "ik_user (ek e) = e_user e" by (simp add: ikey_of_def e_user_def)
  then show "fm_suser f \<le> e_user e" "e_user e \<le> fm_luser f"
    using ikey_user_mono(1) [OF file_has_range(1) [OF assms]] ikey_user_mono(1) [OF file_has_range(2) [OF assms]] by (simp_all add: file_users)
qed

lemma lsm_order:
  assumes "lsm_ok contents v" "i < j" "j < kNumLevels" "f \<in> set (v_files v ! i)" "g \<in> set (v_files v ! j)"
    and "a \<in> set (contents f)" "b \<in> set (contents g)" "e_user a = e_user b"
  shows "ek a < ek b"
proof -
  have "searched_before (i, f) (j, g)" using assms(2) by (simp add: searched_before_def)
  then show ?thesis using assms unfolding lsm_ok_def e_user_def by (meson order.strict_trans)
qed

lemma lsm_file: "lsm_ok contents v \<Longrightarrow> l < kNumLevels \<Longrightarrow> f \<in> set (v_files v ! l) \<Longrightarrow> file_has f (contents f)"
  unfolding lsm_ok_def by blast

text \<open>
  The entries that stay in the levels up to the output level are newer than those of the inputs with
  the same user key.
\<close>

lemma rest_newer:
  assumes ok: "lsm_ok contents v" and cl: "inputs_closed v level in0 in1" and lv: "level + 1 < kNumLevels"
    and f: "f \<in> rest v level in0 in1 l" "l \<le> level + 1" "a \<in> set (contents f)"
    and b: "b \<in> input_entries contents in0 in1" "e_user a = e_user b" and split: "l = level + 1 \<Longrightarrow> no_split v level in1"
  shows "ek a < ek b"
proof -
  have fl: "f \<in> set (v_files v ! l)" using f(1) by (simp add: rest_def)
  have hf: "file_has f (contents f)" using lsm_file [OF ok _ fl] f(2) lv by simp
  obtain g where g: "g \<in> set in0 \<union> set in1" "b \<in> set (contents g)" using b(1) by (auto simp: input_entries_def)
  have g0: "g \<in> set (v_files v ! level)" if "g \<in> set in0" using cl that by (auto simp: inputs_closed_def)
  have g1: "g \<in> set (v_files v ! (level + 1))" if "g \<in> set in1" using cl that by (auto simp: inputs_closed_def)
  have hg: "file_has g (contents g)" using g(1) g0 g1 lsm_file [OF ok] lv by (metis Un_iff add_lessD1)
  note ra = file_has_range [OF hf f(3)] entry_user_range [OF hf f(3)]
  note rb = file_has_range [OF hg g(2)] entry_user_range [OF hg g(2)]
  have apart: "ek a < ek b" if "lk f < sk g" using ra(2) that rb(1) by (meson order.strict_trans1 order.strict_trans2)
  have no: False if "fm_luser f < fm_suser g \<or> fm_luser g < fm_suser f" using that ra(3,4) rb(3,4) b(2) by auto
  consider "l < level" | "l = level" | "l = level + 1" using f(2) by linarith
  then show ?thesis
  proof cases
    case 1
    then show ?thesis using g(1) lsm_order [OF ok _ _ fl _ f(3) g(2) b(2)] g0 g1 lv
      by (metis Un_iff add_lessD1 less_add_one order.strict_trans)
  next
    case 2
    show ?thesis
    proof (cases "g \<in> set in0")
      case True
      then have "lk f < sk g \<or> fm_luser g < fm_suser f" using cl f(1) 2 by (auto simp: inputs_closed_def left_newer_def rest_def)
      then show ?thesis using apart no by blast
    next
      case False
      then show ?thesis using g(1) lsm_order [OF ok _ _ fl _ f(3) g(2) b(2)] g1 lv 2 by auto
    qed
  next
    case 3
    then have f1: "f \<in> set (v_files v ! (level + 1)) - set in1" using f(1) by (simp add: rest_def)
    show ?thesis
    proof (cases "g \<in> set in0")
      case True
      then show ?thesis using cl f1 no unfolding inputs_closed_def by blast
    next
      case False
      then have gi: "g \<in> set in1" using g(1) by blast
      then consider "lk f < sk g" | "lk g < sk f" using cl f1 unfolding inputs_closed_def by blast
      then show ?thesis
      proof cases
        case 2
        have "fm_luser g \<le> fm_suser f" using key_less_user [OF 2] .
        then have "fm_suser f = fm_luser g" using ra(3) rb(4) b(2) by auto
        then show ?thesis using split [OF 3] f1 gi 2 unfolding no_split_def by blast
      qed (rule apart)
    qed
  qed
qed

text \<open>Compacting the inputs changes no read.\<close>

lemma compacted_version_reads:
  assumes ok: "lsm_ok contents v" and cl: "inputs_closed v level in0 in1" and lv: "level + 1 < kNumLevels" and ns: "no_split v level in1"
    and es: "sorted_wrt (\<lambda>a b. ek a < ek b) es" "set es = input_entries contents in0 in1" and q: "ss \<le> q"
  shows "reads (rest_entries contents v level in0 in1 \<union> set (compacted ss (base_key v level) [] es)) u q r \<longleftrightarrow>
    reads (version_entries contents v) u q r"
proof -
  let ?D = "rest_entries contents v level in0 in1"
  have all: "version_entries contents v = ?D \<union> set es"
    using entries_split [OF _ _ lv] cl es(2) by (auto simp: inputs_closed_def)
  then have "finite ?D" using finite_version_entries [of contents v] by simp
  moreover have "ek d < ek e" if base: "base_key v level u" and d: "d \<in> ?D" "e_user d = u" and e: "e \<in> set es" "e_user e = u" for d e
  proof -
    obtain l f where f: "l < kNumLevels" "f \<in> rest v level in0 in1 l" "d \<in> set (contents f)" using d(1) by (auto simp: rest_entries_def)
    have fl: "f \<in> set (v_files v ! l)" using f(2) by (simp add: rest_def)
    have "l \<le> level + 1"
    proof (rule ccontr)
      assume "\<not> l \<le> level + 1"
      then have "level + 2 \<le> l" by simp
      then have "\<not> covers f u" using base f(1) fl unfolding base_key_def by blast
      then show False using entry_user_range [OF lsm_file [OF ok f(1) fl] f(3)] d(2) by (simp add: covers_def)
    qed
    then show ?thesis using rest_newer [OF ok cl lv f(2) _ f(3), of e] e d(2) es(2) ns by simp
  qed
  ultimately show ?thesis unfolding all by (intro compacted_reads es(1) q) blast+
qed

section \<open>The version after a compaction\<close>

text \<open>
  A version that differs from \<open>v\<close> by the outputs of a compaction in place of its inputs; \<open>h\<close> may
  change the counters of the files that stay.
\<close>

definition same_file :: "(FileMetaData \<Rightarrow> entry list) \<Rightarrow> (FileMetaData \<Rightarrow> FileMetaData) \<Rightarrow> bool" where
  "same_file contents h \<longleftrightarrow> (\<forall>f. fm_skey (h f) = fm_skey f \<and> fm_lkey (h f) = fm_lkey f \<and> fm_number (h f) = fm_number f \<and> contents (h f) = contents f)"

definition installed :: "(FileMetaData \<Rightarrow> entry list) \<Rightarrow> (FileMetaData \<Rightarrow> FileMetaData) \<Rightarrow> Version \<Rightarrow> nat \<Rightarrow> FileMetaData list \<Rightarrow> FileMetaData list \<Rightarrow>
    FileMetaData set \<Rightarrow> Version \<Rightarrow> bool" where
  "installed contents h v level in0 in1 outs v' \<longleftrightarrow> same_file contents h \<and>
     (\<forall>l<kNumLevels. set (v_files v' ! l) = h ` rest v level in0 in1 l \<union> (if l = level + 1 then outs else {})) \<and>
     (\<forall>l<kNumLevels. 0 < l \<longrightarrow> level_sorted (v_files v' ! l)) \<and> distinct (map fm_number (v_files v' ! 0)) \<and>
     (\<forall>f\<in>outs. file_has f (contents f) \<and> set (contents f) \<subseteq> input_entries contents in0 in1)"

lemma installed_order:
  assumes ok: "lsm_ok contents v" and cl: "inputs_closed v level in0 in1" and lv: "level + 1 < kNumLevels"
    and v': "installed contents h v level in0 in1 outs v'"
    and ij: "i < kNumLevels" "j < kNumLevels" and f: "f \<in> set (v_files v' ! i)" and g: "g \<in> set (v_files v' ! j)"
    and sb: "searched_before (i, f) (j, g)" and ab: "a \<in> set (contents f)" "b \<in> set (contents g)" "e_user a = e_user b"
  shows "ek a < ek b"
proof -
  have lev: "set (v_files v' ! l) = h ` rest v level in0 in1 l \<union> (if l = level + 1 then outs else {})" if "l < kNumLevels" for l
    using v' that by (simp add: installed_def)
  have h: "fm_number (h f) = fm_number f" "contents (h f) = contents f" for f using v' by (auto simp: installed_def same_file_def)
  have out: "set (contents f) \<subseteq> input_entries contents in0 in1" if "f \<in> outs" for f using v' that by (auto simp: installed_def)
  have old: "f \<in> set (v_files v ! l)" if "f \<in> rest v level in0 in1 l" for f l using that by (simp add: rest_def)
  have inp: "\<exists>l g. l \<le> level + 1 \<and> g \<in> set (v_files v ! l) \<and> b \<in> set (contents g)" if b: "b \<in> input_entries contents in0 in1" for b
  proof -
    obtain g where g: "g \<in> set in0 \<or> g \<in> set in1" "b \<in> set (contents g)" using b unfolding input_entries_def by blast
    then have "g \<in> set (v_files v ! level) \<or> g \<in> set (v_files v ! (level + 1))" using cl unfolding inputs_closed_def by blast
    then show ?thesis using g(2) le_add1 order_refl by blast
  qed
  have less: "i < j" if "0 < i \<or> 0 < j" using sb that by (auto simp: searched_before_def)
  consider f0 g0 where "f0 \<in> rest v level in0 in1 i" "f = h f0" "g0 \<in> rest v level in0 in1 j" "g = h g0"
    | g0 where "i = level + 1" "f \<in> outs" "i < j" "g0 \<in> rest v level in0 in1 j" "g = h g0"
    | f0 where "j = level + 1" "g \<in> outs" "i < j" "f0 \<in> rest v level in0 in1 i" "f = h f0"
    using f g less lev [OF ij(1)] lev [OF ij(2)] by (auto split: if_splits)
  then show ?thesis
  proof cases
    case 1
    have "searched_before (i, f0) (j, g0)" using sb 1(2,4) by (simp add: searched_before_def h)
    then show ?thesis using ok ij old 1 ab unfolding lsm_ok_def e_user_def by (simp add: h) blast
  next
    case 2
    obtain l x where x: "l \<le> level + 1" "x \<in> set (v_files v ! l)" "a \<in> set (contents x)" using inp [of a] out [OF 2(2)] ab(1) by blast
    have "l < j" using x(1) 2(1,3) by simp
    then show ?thesis using lsm_order [OF ok _ ij(2) x(2) old [OF 2(4)] x(3) _ ab(3)] ab(2) 2(5) h(2) by simp
  next
    case 3
    have b: "b \<in> input_entries contents in0 in1" using out [OF 3(2)] ab(2) by blast
    have "i \<le> level + 1" "i \<noteq> level + 1" using 3(1,3) by simp_all
    then show ?thesis using rest_newer [OF ok cl lv 3(4) _ _ b ab(3)] ab(1) 3(5) h(2) by simp
  qed
qed

lemma installed_lsm:
  assumes ok: "lsm_ok contents v" and cl: "inputs_closed v level in0 in1" and lv: "level + 1 < kNumLevels"
    and v': "installed contents h v level in0 in1 outs v'"
  shows "lsm_ok contents v'"
proof -
  have "file_has f (contents f)" if "l < kNumLevels" "f \<in> set (v_files v' ! l)" for l f
  proof (cases "f \<in> outs")
    case True
    then show ?thesis using v' by (simp add: installed_def)
  next
    case False
    have "set (v_files v' ! l) = h ` rest v level in0 in1 l \<union> (if l = level + 1 then outs else {})" using v' that(1) by (simp add: installed_def)
    then have "f \<in> h ` rest v level in0 in1 l" using that(2) False by (auto split: if_splits)
    then obtain f0 where "f0 \<in> set (v_files v ! l)" "f = h f0" by (auto simp: rest_def)
    then show ?thesis using lsm_file [OF ok that(1)] v' unfolding installed_def same_file_def file_has_def by metis
  qed
  then show ?thesis using installed_order [OF ok cl lv v'] v' unfolding lsm_ok_def e_user_def installed_def by blast
qed

lemma installed_entries:
  assumes "level + 1 < kNumLevels" "installed contents h v level in0 in1 outs v'"
  shows "version_entries contents v' = rest_entries contents v level in0 in1 \<union> (\<Union>f\<in>outs. set (contents f))"
proof -
  have "(\<Union>f\<in>h ` rest v level in0 in1 l. set (contents f)) = (\<Union>f\<in>rest v level in0 in1 l. set (contents f))" for l
    using assms(2) by (auto simp: installed_def same_file_def)
  then have "(\<Union>f\<in>set (v_files v' ! l). set (contents f)) =
      (\<Union>f\<in>rest v level in0 in1 l. set (contents f)) \<union> (if l = level + 1 then \<Union>f\<in>outs. set (contents f) else {})" if "l < kNumLevels" for l
    using assms(2) that by (auto simp: installed_def)
  then have "version_entries contents v' = (\<Union>l<kNumLevels. (\<Union>f\<in>rest v level in0 in1 l. set (contents f)) \<union>
      (if l = level + 1 then \<Union>f\<in>outs. set (contents f) else {}))" unfolding version_entries_def by simp
  also have "\<dots> = rest_entries contents v level in0 in1 \<union> (\<Union>l<kNumLevels. if l = level + 1 then \<Union>f\<in>outs. set (contents f) else {})"
    unfolding rest_entries_def by (rule UN_Un_distrib)
  also have "(\<Union>l<kNumLevels. if l = level + 1 then \<Union>f\<in>outs. set (contents f) else {}) = (\<Union>f\<in>outs. set (contents f))"
    using assms(1) by (auto split: if_splits)
  finally show ?thesis .
qed

end
