(* ===== verification/Version_Builder.thy ===== *)
theory Version_Builder
  imports Version_Files "HOL-Library.Monad_Syntax"
begin

text \<open>
  The builder of versions (\<^verbatim>\<open>kv/db/version_set.cpp\<close>, \<open>VersionSet::Builder\<close>), which applies a sequence of
  edits to a version without making the versions in between, and the snapshot of a version that starts
  a manifest. A set of files ordered by \<open>BySmallestKey\<close> is the list of its elements in order; a failed
  assertion has no result. The theorems: the builder's result is that of applying the edits one after
  another to the sets of files, sorted; and the snapshot edit rebuilds the version.
\<close>

section \<open>The builder\<close>

definition BySmallestKey :: "Comparator \<Rightarrow> FileMetaData \<Rightarrow> FileMetaData \<Rightarrow> bool" where
  "BySmallestKey uc f1 f2 =
     (let r = InternalKey_Compare uc (fm_skey f1) (fm_skey f2)
      in if r \<noteq> 0 then r < 0 else fm_number f1 < fm_number f2)"

fun fileset_insert :: "Comparator \<Rightarrow> FileMetaData \<Rightarrow> FileMetaData list \<Rightarrow> FileMetaData list" where
  "fileset_insert uc f [] = [f]"
| "fileset_insert uc f (g # gs) =
     (if BySmallestKey uc f g then f # g # gs
      else if BySmallestKey uc g f then g # fileset_insert uc f gs
      else g # gs)"

record LevelState =
  ls_deleted_files :: "u64 set"
  ls_added_files :: "FileMetaData list"

record Builder =
  bd_base :: Version
  bd_levels :: "LevelState list"
  bd_compact_pointer :: "bytes list"

text \<open>\<open>compact_pointer\<close> is the array of the version set.\<close>

definition Builder_new :: "bytes list \<Rightarrow> Version \<Rightarrow> Builder" where
  "Builder_new compact_pointer base =
     \<lparr> bd_base = base, bd_levels = replicate kNumLevels \<lparr> ls_deleted_files = {}, ls_added_files = [] \<rparr>, bd_compact_pointer = compact_pointer \<rparr>"

definition apply_pointer :: "bytes list \<Rightarrow> nat \<times> InternalKey \<Rightarrow> bytes list" where
  "apply_pointer ps p = ps[fst p := InternalKey_Encode (snd p)]"

definition apply_deleted :: "LevelState list \<Rightarrow> nat \<times> u64 \<Rightarrow> LevelState list" where
  "apply_deleted ls p = (case p of (level, number) \<Rightarrow>
     ls[level := (ls ! level) \<lparr> ls_deleted_files := insert number (ls_deleted_files (ls ! level)) \<rparr>])"

definition adopted :: "FileMetaData \<Rightarrow> FileMetaData" where
  "adopted f =
     (let f = f \<lparr> fm_refs := 1, fm_allowed_seeks := sint (ucast (fm_file_size f div 16384) :: 32 word) \<rparr>
      in if fm_allowed_seeks f < 100 then f \<lparr> fm_allowed_seeks := 100 \<rparr> else f)"

definition apply_new :: "Comparator \<Rightarrow> LevelState list \<Rightarrow> nat \<times> FileMetaData \<Rightarrow> LevelState list" where
  "apply_new uc ls p = (case p of (level, f0) \<Rightarrow>
     (let f = adopted f0; s = ls ! level
      in ls[level := s \<lparr> ls_deleted_files := ls_deleted_files s - {fm_number f}, ls_added_files := fileset_insert uc f (ls_added_files s) \<rparr>]))"

definition Builder_Apply :: "Comparator \<Rightarrow> Builder \<Rightarrow> VersionEdit \<Rightarrow> Builder" where
  "Builder_Apply uc b edit =
     (let pointers = foldl apply_pointer (bd_compact_pointer b) (ve_compact_pointers edit);
          levels = foldl apply_deleted (bd_levels b) (ve_deleted_files edit);
          levels = foldl (apply_new uc) levels (ve_new_files edit)
      in b \<lparr> bd_levels := levels, bd_compact_pointer := pointers \<rparr>)"

text \<open>Files are shared between versions, which count as their owners.\<close>

definition file_ref :: "FileMetaData \<Rightarrow> FileMetaData" where
  "file_ref f = f \<lparr> fm_refs := fm_refs f + 1 \<rparr>"

definition MaybeAddFile :: "Comparator \<Rightarrow> u64 set \<Rightarrow> nat \<Rightarrow> FileMetaData list \<Rightarrow> FileMetaData \<Rightarrow> FileMetaData list option" where
  "MaybeAddFile uc deleted_files level files f =
     (if fm_number f \<in> deleted_files then Some files
      else if level > 0 \<and> files \<noteq> [] \<and> \<not> InternalKey_Compare uc (fm_lkey (last files)) (fm_skey f) < 0 then None
      else Some (files @ [file_ref f]))"

fun add_files :: "Comparator \<Rightarrow> u64 set \<Rightarrow> nat \<Rightarrow> FileMetaData list \<Rightarrow> FileMetaData list \<Rightarrow> FileMetaData list option" where
  "add_files uc del level files [] = Some files"
| "add_files uc del level files (f # fs) = do { files \<leftarrow> MaybeAddFile uc del level files f; add_files uc del level files fs }"

text \<open>\<open>std::upper_bound\<close> gives the first file of the rest of the base files that the added file comes before.\<close>

fun save_loop :: "Comparator \<Rightarrow> u64 set \<Rightarrow> nat \<Rightarrow> FileMetaData list \<Rightarrow> FileMetaData list \<Rightarrow> FileMetaData list \<Rightarrow> FileMetaData list option" where
  "save_loop uc del level [] base files = add_files uc del level files base"
| "save_loop uc del level (added # rest) base files =
     do { files \<leftarrow> add_files uc del level files (takeWhile (\<lambda>b. \<not> BySmallestKey uc added b) base);
          files \<leftarrow> MaybeAddFile uc del level files added;
          save_loop uc del level rest (dropWhile (\<lambda>b. \<not> BySmallestKey uc added b) base) files }"

definition save_level :: "Comparator \<Rightarrow> Builder \<Rightarrow> nat \<Rightarrow> FileMetaData list option" where
  "save_level uc b level =
     (let s = bd_levels b ! level
      in save_loop uc (ls_deleted_files s) level (ls_added_files s) (v_files (bd_base b) ! level) [])"

text \<open>The check for overlaps after each level repeats the assertions of \<open>MaybeAddFile\<close>.\<close>

definition Builder_SaveTo :: "Comparator \<Rightarrow> Builder \<Rightarrow> Version option" where
  "Builder_SaveTo uc b =
     do { files \<leftarrow> those (map (save_level uc b) [0..<kNumLevels]);
          Some (Version_new \<lparr> v_files := files \<rparr>) }"

section \<open>The snapshot of a version\<close>

text \<open>The edit that \<open>WriteSnapshot\<close> writes to the manifest.\<close>

fun snapshot_pointers :: "VersionEdit \<Rightarrow> nat \<Rightarrow> bytes list \<Rightarrow> VersionEdit" where
  "snapshot_pointers edit level [] = edit"
| "snapshot_pointers edit level (p # ps) =
     snapshot_pointers (if p \<noteq> [] then SetCompactPointer edit level (fst (InternalKey_DecodeFrom p)) else edit) (level + 1) ps"

fun snapshot_files :: "VersionEdit \<Rightarrow> nat \<Rightarrow> FileMetaData list list \<Rightarrow> VersionEdit" where
  "snapshot_files edit level [] = edit"
| "snapshot_files edit level (files # rest) =
     snapshot_files (foldl (\<lambda>edit f. AddFile edit level (fm_number f) (fm_file_size f) (fm_smallest f) (fm_largest f)) edit files) (level + 1) rest"

definition snapshot_edit :: "bytes \<Rightarrow> bytes list \<Rightarrow> Version \<Rightarrow> VersionEdit" where
  "snapshot_edit comparator_name compact_pointer v =
     snapshot_files (snapshot_pointers (SetComparatorName VersionEdit_new comparator_name) 0 compact_pointer) 0 (v_files v)"

section \<open>The order of files\<close>

definition fkey :: "FileMetaData \<Rightarrow> ikey \<times> u64" where
  "fkey f = (sk f, fm_number f)"

abbreviation fkey_sorted :: "FileMetaData list \<Rightarrow> bool" where
  "fkey_sorted \<equiv> sorted_wrt (\<lambda>f g. fkey f < fkey g)"

lemma BySmallestKey_fkey: "BySmallestKey BytewiseComparator f g \<longleftrightarrow> fkey f < fkey g"
proof -
  have "InternalKey_Compare BytewiseComparator (fm_skey f) (fm_skey g) = 0 \<longleftrightarrow> sk f = sk g"
    using InternalKey_signs [of "fm_skey f" "fm_skey g"] by (metis less_irrefl linorder_neqE)
  then show ?thesis using InternalKey_signs(1) [of "fm_skey f" "fm_skey g"]
    by (auto simp: BySmallestKey_def Let_def fkey_def less_prod_def)
qed

lemma fkey_less: "fkey f < fkey g \<Longrightarrow> sk f \<le> sk g"
  by (auto simp: fkey_def less_prod_def)

lemma fileset_insert_new:
  assumes "fkey_sorted gs" "fkey f \<notin> fkey ` set gs"
  shows "fkey_sorted (fileset_insert BytewiseComparator f gs)" "set (fileset_insert BytewiseComparator f gs) = insert f (set gs)"
proof -
  have "fkey_sorted (fileset_insert BytewiseComparator f gs) \<and> set (fileset_insert BytewiseComparator f gs) = insert f (set gs)"
    using assms
  proof (induction gs)
    case (Cons g gs)
    then show ?case by (auto simp: BySmallestKey_fkey not_less)
  qed simp
  then show "fkey_sorted (fileset_insert BytewiseComparator f gs)" "set (fileset_insert BytewiseComparator f gs) = insert f (set gs)" by simp_all
qed

section \<open>Saving\<close>

fun merged :: "FileMetaData list \<Rightarrow> FileMetaData list \<Rightarrow> FileMetaData list" where
  "merged [] base = base"
| "merged (a # as) base = takeWhile (\<lambda>b. \<not> fkey a < fkey b) base @ a # merged as (dropWhile (\<lambda>b. \<not> fkey a < fkey b) base)"

lemma add_files_append: "add_files uc del level files (xs @ ys) = do { files \<leftarrow> add_files uc del level files xs; add_files uc del level files ys }"
  by (induction xs arbitrary: files) simp_all

lemma save_loop_merged: "save_loop BytewiseComparator del level added base files = add_files BytewiseComparator del level files (merged added base)"
proof (induction added base arbitrary: files rule: merged.induct)
  case (2 a as base)
  have "save_loop BytewiseComparator del level as (dropWhile (\<lambda>b. \<not> fkey a < fkey b) base) =
      (\<lambda>files. add_files BytewiseComparator del level files (merged as (dropWhile (\<lambda>b. \<not> fkey a < fkey b) base)))"
    by (rule ext) (rule 2)
  then show ?case by (simp add: BySmallestKey_fkey add_files_append)
qed simp

lemma merged_set: "set (merged added base) = set added \<union> set base"
proof (induction added base rule: merged.induct)
  case (2 a as base)
  have "set base = set (takeWhile (\<lambda>b. \<not> fkey a < fkey b) base) \<union> set (dropWhile (\<lambda>b. \<not> fkey a < fkey b) base)"
    by (metis set_append takeWhile_dropWhile_id)
  with 2 show ?case by auto
qed simp

lemma fkey_dropWhile: "fkey_sorted base \<Longrightarrow> b \<in> set (dropWhile (\<lambda>b. \<not> x < fkey b) base) \<Longrightarrow> x < fkey b"
  by (induction base) (auto split: if_splits dest: less_trans)

lemma merged_sorted:
  assumes "fkey_sorted added" "fkey_sorted base" "fkey ` set added \<inter> fkey ` set base = {}"
  shows "fkey_sorted (merged added base)"
  using assms
proof (induction added base rule: merged.induct)
  case (2 a as base)
  let ?P = "\<lambda>b. \<not> fkey a < fkey b"
  have ss: "fkey_sorted (takeWhile ?P base @ dropWhile ?P base)" using "2.prems"(2) by simp
  have sb: "fkey_sorted (takeWhile ?P base)" "fkey_sorted (dropWhile ?P base)"
    "\<forall>x\<in>set (takeWhile ?P base). \<forall>y\<in>set (dropWhile ?P base). fkey x < fkey y"
    using ss unfolding sorted_wrt_append by blast+
  have lo: "fkey x < fkey a" if "x \<in> set (takeWhile ?P base)" for x
  proof -
    have x: "x \<in> set base" "\<not> fkey a < fkey x" using set_takeWhileD [OF that] by auto
    then have "fkey x \<noteq> fkey a" using "2.prems"(3) by (metis disjoint_iff image_eqI list.set_intros(1))
    with x(2) show ?thesis by simp
  qed
  have hi: "fkey a < fkey y" if "y \<in> set (merged as (dropWhile ?P base))" for y
  proof -
    from that consider "y \<in> set as" | "y \<in> set (dropWhile ?P base)" unfolding merged_set by blast
    then show ?thesis
    proof cases
      case 1
      then show ?thesis using "2.prems"(1) by simp
    next
      case 2
      then show ?thesis by (rule fkey_dropWhile [OF "2.prems"(2)])
    qed
  qed
  have "fkey ` set (dropWhile ?P base) \<subseteq> fkey ` set base" by (intro image_mono) (meson set_dropWhileD subsetI)
  moreover have "fkey ` set as \<subseteq> fkey ` set (a # as)" by (intro image_mono) auto
  ultimately have "fkey ` set as \<inter> fkey ` set (dropWhile ?P base) \<subseteq> {}" using Int_mono "2.prems"(3) by metis
  then have "fkey ` set as \<inter> fkey ` set (dropWhile ?P base) = {}" by (rule subset_antisym) simp
  moreover have "fkey_sorted as" using "2.prems"(1) by simp
  ultimately have "fkey_sorted (merged as (dropWhile ?P base))" using sb(2) by (intro "2.IH")
  moreover have "fkey x < fkey y" if "x \<in> set (takeWhile ?P base)" "y \<in> set (merged as (dropWhile ?P base))" for x y
    using lo [OF that(1)] hi [OF that(2)] by (rule less_trans)
  ultimately show ?case unfolding merged.simps sorted_wrt_append sorted_wrt.simps list.set ball_simps
    using sb(1) lo hi by blast
qed simp

lemma file_ref_simps [simp]: "fm_number (file_ref f) = fm_number f" "sk (file_ref f) = sk f" "lk (file_ref f) = lk f" "fkey (file_ref f) = fkey f"
  by (simp_all add: file_ref_def fm_skey_def fm_lkey_def fkey_def)

lemma level_sorted_ref [simp]: "level_sorted (map file_ref fs) \<longleftrightarrow> level_sorted fs"
  by (simp add: level_sorted_def sorted_wrt_map list_all_iff)

lemma add_files_filter:
  assumes "level = 0 \<or> sorted_wrt (\<lambda>f g. lk f < sk g) (files @ filter (\<lambda>f. fm_number f \<notin> del) fs)"
  shows "add_files BytewiseComparator del level files fs = Some (files @ map file_ref (filter (\<lambda>f. fm_number f \<notin> del) fs))"
  using assms
proof (induction fs arbitrary: files)
  case (Cons f fs)
  show ?case
  proof (cases "fm_number f \<in> del")
    case False
    have "MaybeAddFile BytewiseComparator del level files f = Some (files @ [file_ref f])"
    proof (cases "files = []")
      case True
      then show ?thesis using False by (simp add: MaybeAddFile_def)
    next
      case ne: False
      then have "level = 0 \<or> lk (last files) < sk f" using False Cons.prems last_in_set [OF ne] by (auto simp: sorted_wrt_append)
      then show ?thesis using False by (auto simp: MaybeAddFile_def InternalKey_signs)
    qed
    moreover have "level = 0 \<or> sorted_wrt (\<lambda>f g. lk f < sk g) ((files @ [file_ref f]) @ filter (\<lambda>f. fm_number f \<notin> del) fs)"
      using Cons.prems False by (auto simp: sorted_wrt_append)
    ultimately show ?thesis using Cons.IH [of "files @ [file_ref f]"] False by simp
  qed (use Cons in \<open>simp add: MaybeAddFile_def\<close>)
qed simp

section \<open>Applying edits to the sets of files\<close>

text \<open>What an edit does to the set of files of one level.\<close>

definition edit_level :: "nat \<Rightarrow> FileMetaData set \<Rightarrow> VersionEdit \<Rightarrow> FileMetaData set" where
  "edit_level level S edit =
     {f \<in> S. (level, fm_number f) \<notin> set (ve_deleted_files edit)} \<union> {adopted f |f. (level, f) \<in> set (ve_new_files edit)}"

lemma adopted_simps [simp]: "fm_number (adopted f) = fm_number f" "fm_file_size (adopted f) = fm_file_size f"
  "fm_smallest (adopted f) = fm_smallest f" "fm_largest (adopted f) = fm_largest f" "sk (adopted f) = sk f" "lk (adopted f) = lk f"
  by (simp_all add: adopted_def Let_def fm_skey_def fm_lkey_def)

lemma adopted_idem: "adopted (adopted f) = adopted f"
  by (simp add: adopted_def Let_def)

text \<open>
  File numbers are never reused in a level: those an edit adds are new, and different from each
  other. \<open>N level\<close> are the numbers the level has had.
\<close>

fun fresh_edits :: "(nat \<Rightarrow> u64 set) \<Rightarrow> VersionEdit list \<Rightarrow> bool" where
  "fresh_edits N [] \<longleftrightarrow> True"
| "fresh_edits N (edit # edits) \<longleftrightarrow>
     (\<forall>p\<in>set (ve_deleted_files edit). fst p < kNumLevels) \<and>
     (\<forall>p\<in>set (ve_new_files edit). fst p < kNumLevels \<and> fm_number (snd p) \<notin> N (fst p)) \<and>
     distinct (map (\<lambda>p. (fst p, fm_number (snd p))) (ve_new_files edit)) \<and>
     fresh_edits (\<lambda>l. N l \<union> {fm_number f |f. (l, f) \<in> set (ve_new_files edit)}) edits"

text \<open>The files that a level state stands for, on top of the base files \<open>B\<close>.\<close>

definition level_files :: "FileMetaData set \<Rightarrow> LevelState \<Rightarrow> FileMetaData set" where
  "level_files B s = {f \<in> B \<union> set (ls_added_files s). fm_number f \<notin> ls_deleted_files s}"

definition level_ok :: "FileMetaData set \<Rightarrow> u64 set \<Rightarrow> LevelState \<Rightarrow> bool" where
  "level_ok B N s \<longleftrightarrow> fkey_sorted (ls_added_files s) \<and> fm_number ` (B \<union> set (ls_added_files s)) \<subseteq> N \<and>
     fm_number ` B \<inter> fm_number ` set (ls_added_files s) = {}"

lemma nth_update_at: "l < length ls \<Longrightarrow> ls[i := x] ! l = (if i = l then x else ls ! l)"
  by (simp add: nth_list_update)

lemma foldl_deleted:
  "length (foldl apply_deleted ls ds) = length ls"
  "l < length ls \<Longrightarrow> ls_added_files (foldl apply_deleted ls ds ! l) = ls_added_files (ls ! l)"
  "l < length ls \<Longrightarrow> ls_deleted_files (foldl apply_deleted ls ds ! l) = ls_deleted_files (ls ! l) \<union> {n. (l, n) \<in> set ds}"
  by (induction ds arbitrary: ls) (auto simp: apply_deleted_def nth_update_at split: prod.splits if_splits)

lemma foldl_new:
  assumes "l < length ls" "level_ok B N (ls ! l)" "\<forall>p\<in>set ps. fst p = l \<longrightarrow> fm_number (snd p) \<notin> N"
    "distinct (map (\<lambda>p. (fst p, fm_number (snd p))) ps)"
  defines "s \<equiv> foldl (apply_new BytewiseComparator) ls ps ! l"
  shows "length (foldl (apply_new BytewiseComparator) ls ps) = length ls"
    "set (ls_added_files s) = set (ls_added_files (ls ! l)) \<union> {adopted f |f. (l, f) \<in> set ps}"
    "ls_deleted_files s = ls_deleted_files (ls ! l) - {fm_number f |f. (l, f) \<in> set ps}"
    "level_ok B (N \<union> {fm_number f |f. (l, f) \<in> set ps}) s"
proof -
  have "length (foldl (apply_new BytewiseComparator) ls ps) = length ls \<and>
    set (ls_added_files s) = set (ls_added_files (ls ! l)) \<union> {adopted f |f. (l, f) \<in> set ps} \<and>
    ls_deleted_files s = ls_deleted_files (ls ! l) - {fm_number f |f. (l, f) \<in> set ps} \<and>
    level_ok B (N \<union> {fm_number f |f. (l, f) \<in> set ps}) s"
    using assms(1-4) unfolding s_def
  proof (induction ps arbitrary: ls N)
    case (Cons p ps)
    obtain l' f where p: "p = (l', f)" by (cases p)
    let ?ls = "apply_new BytewiseComparator ls p"
    show ?case
    proof (cases "l' = l")
      case False
      then have "?ls ! l = ls ! l" "length ?ls = length ls" by (simp_all add: p apply_new_def Let_def)
      then show ?thesis using Cons.IH [of ?ls N] Cons.prems False by (auto simp: p)
    next
      case True
      have nf: "fm_number f \<notin> N" using Cons.prems(3) p True by auto
      have ok: "fkey_sorted (ls_added_files (ls ! l))" "fm_number ` (B \<union> set (ls_added_files (ls ! l))) \<subseteq> N"
        "fm_number ` B \<inter> fm_number ` set (ls_added_files (ls ! l)) = {}" using Cons.prems(2) by (simp_all add: level_ok_def)
      have "fkey (adopted f) \<notin> fkey ` set (ls_added_files (ls ! l))" using nf ok(2) by (auto simp: fkey_def)
      note ins = fileset_insert_new [OF ok(1) this]
      have s: "?ls ! l = (ls ! l) \<lparr> ls_deleted_files := ls_deleted_files (ls ! l) - {fm_number f},
          ls_added_files := fileset_insert BytewiseComparator (adopted f) (ls_added_files (ls ! l)) \<rparr>" "length ?ls = length ls"
        using Cons.prems(1) by (simp_all add: p True apply_new_def Let_def)
      have "level_ok B (insert (fm_number f) N) (?ls ! l)" using ok nf ins by (auto simp: s level_ok_def)
      moreover have "\<forall>p\<in>set ps. fst p = l \<longrightarrow> fm_number (snd p) \<notin> insert (fm_number f) N"
      proof
        fix q assume q: "q \<in> set ps"
        then have "(fst q, fm_number (snd q)) \<noteq> (l, fm_number f)" using Cons.prems(4) p True by (auto simp: image_iff)
        moreover have "fst q = l \<longrightarrow> fm_number (snd q) \<notin> N" using Cons.prems(3) q by simp
        ultimately show "fst q = l \<longrightarrow> fm_number (snd q) \<notin> insert (fm_number f) N" by auto
      qed
      ultimately have IH: "length (foldl (apply_new BytewiseComparator) ?ls ps) = length ?ls"
        "set (ls_added_files (foldl (apply_new BytewiseComparator) ?ls ps ! l)) = set (ls_added_files (?ls ! l)) \<union> {adopted f |f. (l, f) \<in> set ps}"
        "ls_deleted_files (foldl (apply_new BytewiseComparator) ?ls ps ! l) = ls_deleted_files (?ls ! l) - {fm_number f |f. (l, f) \<in> set ps}"
        "level_ok B (insert (fm_number f) N \<union> {fm_number f |f. (l, f) \<in> set ps}) (foldl (apply_new BytewiseComparator) ?ls ps ! l)"
        using Cons.IH [of ?ls "insert (fm_number f) N"] Cons.prems(1,4) s(2) by auto
      have "N \<union> {fm_number f |f. (l, f) \<in> set (p # ps)} = insert (fm_number f) N \<union> {fm_number f |f. (l, f) \<in> set ps}"
        by (auto simp: p True)
      moreover have "{fm_number f |f. (l, f) \<in> set (p # ps)} = insert (fm_number f) {fm_number f |f. (l, f) \<in> set ps}"
        "{adopted f |f. (l, f) \<in> set (p # ps)} = insert (adopted f) {adopted f |f. (l, f) \<in> set ps}" by (auto simp: p True)
      ultimately show ?thesis using IH s ins(2) by auto
    qed
  qed simp
  then show "length (foldl (apply_new BytewiseComparator) ls ps) = length ls"
    "set (ls_added_files s) = set (ls_added_files (ls ! l)) \<union> {adopted f |f. (l, f) \<in> set ps}"
    "ls_deleted_files s = ls_deleted_files (ls ! l) - {fm_number f |f. (l, f) \<in> set ps}"
    "level_ok B (N \<union> {fm_number f |f. (l, f) \<in> set ps}) s" by blast+
qed

lemma Apply_level:
  assumes "l < length (bd_levels b)" "level_ok B (N l) (bd_levels b ! l)" "fresh_edits N [edit]"
  defines "b' \<equiv> Builder_Apply BytewiseComparator b edit"
  shows "length (bd_levels b') = length (bd_levels b)" "bd_base b' = bd_base b"
    "level_files B (bd_levels b' ! l) = edit_level l (level_files B (bd_levels b ! l)) edit"
    "level_ok B (N l \<union> {fm_number f |f. (l, f) \<in> set (ve_new_files edit)}) (bd_levels b' ! l)"
proof -
  let ?ls = "foldl apply_deleted (bd_levels b) (ve_deleted_files edit)"
  have l: "l < length ?ls" using assms(1) by (simp add: foldl_deleted)
  have ok: "level_ok B (N l) (?ls ! l)" using assms(1,2) by (simp add: level_ok_def foldl_deleted)
  have new: "\<forall>p\<in>set (ve_new_files edit). fst p = l \<longrightarrow> fm_number (snd p) \<notin> N l"
    "distinct (map (\<lambda>p. (fst p, fm_number (snd p))) (ve_new_files edit))" using assms(3) by auto
  note f = foldl_new [OF l ok new]
  have b': "bd_levels b' = foldl (apply_new BytewiseComparator) ?ls (ve_new_files edit)" by (simp add: b'_def Builder_Apply_def Let_def)
  show "length (bd_levels b') = length (bd_levels b)" "bd_base b' = bd_base b"
    using f(1) by (simp_all add: b' foldl_deleted b'_def Builder_Apply_def Let_def)
  show "level_ok B (N l \<union> {fm_number f |f. (l, f) \<in> set (ve_new_files edit)}) (bd_levels b' ! l)" unfolding b' by (rule f(4))
  have old: "fm_number g \<noteq> fm_number f" if "g \<in> B \<union> set (ls_added_files (bd_levels b ! l))" "(l, f) \<in> set (ve_new_files edit)" for f g
    using that new(1) assms(2) by (fastforce simp: level_ok_def)
  show "level_files B (bd_levels b' ! l) = edit_level l (level_files B (bd_levels b ! l)) edit"
    unfolding level_files_def edit_level_def b' f(2,3) foldl_deleted(2,3) [OF assms(1)] using old by auto
qed

lemma Apply_all:
  assumes "l < length (bd_levels b)" "level_ok B (N l) (bd_levels b ! l)" "fresh_edits N edits"
  defines "b' \<equiv> foldl (Builder_Apply BytewiseComparator) b edits"
  shows "bd_base b' = bd_base b \<and> level_files B (bd_levels b' ! l) = foldl (edit_level l) (level_files B (bd_levels b ! l)) edits \<and>
    (\<exists>N'. level_ok B N' (bd_levels b' ! l))"
  using assms(1-3) unfolding b'_def
proof (induction edits arbitrary: b N)
  case (Cons edit edits)
  have "fresh_edits N [edit]" using Cons.prems(3) by simp
  note a = Apply_level [OF Cons.prems(1,2) this]
  from Cons.IH [of "Builder_Apply BytewiseComparator b edit" "\<lambda>l. N l \<union> {fm_number f |f. (l, f) \<in> set (ve_new_files edit)}"] a Cons.prems
  show ?case by simp
qed auto

lemma save_level_files:
  assumes "level_ok (set (v_files (bd_base b) ! level)) N (bd_levels b ! level)" "fkey_sorted (v_files (bd_base b) ! level)"
  defines "S \<equiv> level_files (set (v_files (bd_base b) ! level)) (bd_levels b ! level)"
  assumes "0 < level \<longrightarrow> (\<forall>f\<in>S. sk f \<le> lk f \<and> (\<forall>g\<in>S. f = g \<or> lk f < sk g \<or> lk g < sk f))"
  shows "\<exists>fs. save_level BytewiseComparator b level = Some fs \<and> set fs = file_ref ` S \<and> fkey_sorted fs \<and> (0 < level \<longrightarrow> level_sorted fs)"
proof -
  let ?s = "bd_levels b ! level"
  let ?base = "v_files (bd_base b) ! level"
  let ?keep = "\<lambda>f. fm_number f \<notin> ls_deleted_files ?s"
  let ?m = "filter ?keep (merged (ls_added_files ?s) ?base)"
  have "fkey ` set (ls_added_files ?s) \<inter> fkey ` set ?base = {}" using assms(1) by (fastforce simp: level_ok_def fkey_def)
  then have sorted: "fkey_sorted ?m" using assms(1,2) by (intro sorted_wrt_filter merged_sorted) (simp_all add: level_ok_def)
  have S: "set ?m = S" by (auto simp: merged_set S_def level_files_def)
  have ls: "level_sorted ?m" if "0 < level"
  proof -
    have d: "\<forall>f\<in>set ?m. sk f \<le> lk f \<and> (\<forall>g\<in>set ?m. f = g \<or> lk f < sk g \<or> lk g < sk f)" using assms(4) that S by blast
    have "lk f < sk g" if fg: "f \<in> set ?m" "g \<in> set ?m" "fkey f < fkey g" for f g
    proof -
      have "f \<noteq> g" "sk f \<le> sk g" using fg(3) fkey_less by auto
      moreover have "sk g \<le> lk g" "f = g \<or> lk f < sk g \<or> lk g < sk f" using d fg(1,2) by blast+
      ultimately show ?thesis by (meson leD order.trans)
    qed
    then have "sorted_wrt (\<lambda>f g. lk f < sk g) ?m" by (rule sorted_wrt_mono_rel [OF _ sorted])
    then show ?thesis using d by (simp add: level_sorted_def list_all_iff)
  qed
  then have "save_level BytewiseComparator b level = Some (map file_ref ?m)"
    using add_files_filter [of level "[]" "ls_deleted_files ?s" "merged (ls_added_files ?s) ?base"]
    by (cases "level = 0") (simp_all add: save_level_def Let_def save_loop_merged level_sorted_def)
  moreover have "set (map file_ref ?m) = file_ref ` S" "fkey_sorted (map file_ref ?m)"
    using S sorted by (simp_all add: sorted_wrt_map)
  ultimately show ?thesis using ls by (metis level_sorted_ref)
qed

lemma those_map:
  assumes "\<forall>x\<in>set xs. \<exists>y. f x = Some y"
  shows "\<exists>ys. those (map f xs) = Some ys \<and> length ys = length xs \<and> (\<forall>i<length xs. f (xs ! i) = Some (ys ! i))"
  using assms
proof (induction xs)
  case (Cons x xs)
  then obtain y ys where "f x = Some y" "those (map f xs) = Some ys" "length ys = length xs" "\<forall>i<length xs. f (xs ! i) = Some (ys ! i)" by auto
  then show ?case by (intro exI [of _ "y # ys"]) (auto simp: nth_Cons split: nat.split)
qed simp

lemma Builder_result:
  assumes "\<forall>l<kNumLevels. fkey_sorted (v_files base ! l)" "fresh_edits (\<lambda>l. fm_number ` set (v_files base ! l)) edits"
  defines "S \<equiv> \<lambda>l. foldl (edit_level l) (set (v_files base ! l)) edits"
  assumes "\<forall>l. 0 < l \<and> l < kNumLevels \<longrightarrow> (\<forall>f\<in>S l. sk f \<le> lk f \<and> (\<forall>g\<in>S l. f = g \<or> lk f < sk g \<or> lk g < sk f))"
  shows "\<exists>v. Builder_SaveTo BytewiseComparator (foldl (Builder_Apply BytewiseComparator) (Builder_new ps base) edits) = Some v \<and>
    length (v_files v) = kNumLevels \<and>
    (\<forall>l<kNumLevels. set (v_files v ! l) = file_ref ` S l \<and> fkey_sorted (v_files v ! l) \<and> (0 < l \<longrightarrow> level_sorted (v_files v ! l)))"
proof -
  let ?b = "foldl (Builder_Apply BytewiseComparator) (Builder_new ps base) edits"
  have lev: "\<exists>fs. save_level BytewiseComparator ?b l = Some fs \<and> set fs = file_ref ` S l \<and> fkey_sorted fs \<and> (0 < l \<longrightarrow> level_sorted fs)" if l: "l < kNumLevels" for l
  proof -
    let ?B = "set (v_files base ! l)"
    have s: "bd_levels (Builder_new ps base) ! l = \<lparr> ls_deleted_files = {}, ls_added_files = [] \<rparr>" "l < length (bd_levels (Builder_new ps base))"
      "bd_base (Builder_new ps base) = base" using l by (simp_all add: Builder_new_def)
    have ok: "level_ok ?B (fm_number ` ?B) (bd_levels (Builder_new ps base) ! l)" by (simp add: s level_ok_def)
    have "level_files ?B (bd_levels (Builder_new ps base) ! l) = ?B" by (simp add: s level_files_def)
    with Apply_all [OF s(2), of ?B "\<lambda>l. fm_number ` set (v_files base ! l)", OF ok assms(2)] s(3) obtain N where
      b: "bd_base ?b = base" "level_files ?B (bd_levels ?b ! l) = S l" "level_ok ?B N (bd_levels ?b ! l)" by (auto simp: S_def)
    show ?thesis using save_level_files [of ?b l N] b assms(1,4) l by simp
  qed
  then have "\<forall>l\<in>set [0..<kNumLevels]. \<exists>fs. save_level BytewiseComparator ?b l = Some fs" by fastforce
  from those_map [OF this] obtain fss where f: "those (map (save_level BytewiseComparator ?b) [0..<kNumLevels]) = Some fss" "length fss = kNumLevels"
    "\<forall>l<kNumLevels. save_level BytewiseComparator ?b l = Some (fss ! l)" by auto
  have "set (fss ! l) = file_ref ` S l \<and> fkey_sorted (fss ! l) \<and> (0 < l \<longrightarrow> level_sorted (fss ! l))" if "l < kNumLevels" for l
    using lev [OF that] f(3) that by simp
  with f show ?thesis by (simp add: Builder_SaveTo_def)
qed

section \<open>Snapshots\<close>

lemma snapshot_pointers_files: "ve_new_files (snapshot_pointers e n ps) = ve_new_files e" "ve_deleted_files (snapshot_pointers e n ps) = ve_deleted_files e"
  by (induction ps arbitrary: e n) (simp_all add: SetCompactPointer_def)

lemma foldl_AddFile:
  "ve_new_files (foldl (\<lambda>edit f. AddFile edit l (fm_number f) (fm_file_size f) (fm_smallest f) (fm_largest f)) e fs) =
    ve_new_files e @ map (\<lambda>f. (l, FileMetaData_of (fm_number f) (fm_file_size f) (fm_smallest f) (fm_largest f))) fs"
  "ve_deleted_files (foldl (\<lambda>edit f. AddFile edit l (fm_number f) (fm_file_size f) (fm_smallest f) (fm_largest f)) e fs) = ve_deleted_files e"
  by (induction fs arbitrary: e) (simp_all add: AddFile_def)

definition recorded :: "FileMetaData \<Rightarrow> FileMetaData" where
  "recorded f = FileMetaData_of (fm_number f) (fm_file_size f) (fm_smallest f) (fm_largest f)"

lemma snapshot_files_deleted: "ve_deleted_files (snapshot_files e n fss) = ve_deleted_files e"
  by (induction fss arbitrary: e n) (simp_all add: foldl_AddFile)

lemma snapshot_files_set:
  "(l, f) \<in> set (ve_new_files (snapshot_files e n fss)) \<longleftrightarrow>
    (l, f) \<in> set (ve_new_files e) \<or> (n \<le> l \<and> l < n + length fss \<and> f \<in> recorded ` set (fss ! (l - n)))"
proof (induction fss arbitrary: e n)
  case (Cons fs fss)
  show ?case unfolding snapshot_files.simps Cons.IH
    by (cases "l = n") (auto simp: foldl_AddFile recorded_def nth_Cons' image_iff)
qed auto

lemma snapshot_files_distinct:
  assumes "distinct (map (\<lambda>p. (fst p, fm_number (snd p))) (ve_new_files e))" "\<forall>p\<in>set (ve_new_files e). fst p < n"
    "\<forall>fs\<in>set fss. distinct (map fm_number fs)"
  shows "distinct (map (\<lambda>p. (fst p, fm_number (snd p))) (ve_new_files (snapshot_files e n fss)))"
  using assms
proof (induction fss arbitrary: e n)
  case (Cons fs fss)
  let ?e = "foldl (\<lambda>edit f. AddFile edit n (fm_number f) (fm_file_size f) (fm_smallest f) (fm_largest f)) e fs"
  have new: "ve_new_files ?e = ve_new_files e @ map (\<lambda>f. (n, recorded f)) fs" by (simp add: foldl_AddFile recorded_def)
  have "distinct (map fm_number fs)" using Cons.prems(3) by simp
  then have "distinct (map (\<lambda>f. (n, fm_number f)) fs)" by (simp add: distinct_map inj_on_def)
  moreover have "(\<lambda>p. (fst p, fm_number (snd p))) \<circ> (\<lambda>f. (n, recorded f)) = (\<lambda>f. (n, fm_number f))"
    by (simp add: recorded_def FileMetaData_of_def fun_eq_iff)
  ultimately have "distinct (map (\<lambda>p. (fst p, fm_number (snd p))) (ve_new_files ?e))" "\<forall>p\<in>set (ve_new_files ?e). fst p < Suc n"
    using Cons.prems(1,2) by (auto simp: new)
  then show ?case using Cons.IH [of ?e "Suc n"] Cons.prems(3) by simp
qed simp

lemma recorded_simps [simp]: "fm_number (recorded f) = fm_number f" "sk (recorded f) = sk f" "lk (recorded f) = lk f"
  by (simp_all add: recorded_def FileMetaData_of_def fm_skey_def fm_lkey_def)

text \<open>Files compare equal in everything but their counters.\<close>

lemma fkey_sorted_unique:
  assumes "fkey_sorted xs" "fkey_sorted ys" "\<And>f. fkey (h f) = fkey f" "set ys = h ` set xs"
  shows "ys = map h xs"
proof -
  have "sorted_wrt (<) (map fkey ys)" "sorted_wrt (<) (map fkey (map h xs))" using assms(1-3) by (simp_all add: sorted_wrt_map)
  moreover have "set (map fkey ys) = set (map fkey (map h xs))" using assms(4) by (simp add: image_image)
  ultimately have eq: "map fkey ys = map fkey (map h xs)" by (metis strict_sorted_equal)
  have inj: "inj_on fkey (set ys)" using \<open>sorted_wrt (<) (map fkey ys)\<close> by (metis distinct_map strict_sorted_iff)
  have "set (map h xs) = set ys" using assms(4) by simp
  with eq inj show ?thesis by (metis map_inj_on Un_absorb)
qed

section \<open>Properties\<close>


definition edit_two :: VersionEdit where
  "edit_two = AddFile (AddFile VersionEdit_new 1 (fm_number file_b) 100 (fm_smallest file_b) (fm_largest file_b)) 1
     (fm_number file_a) 100 (fm_smallest file_a) (fm_largest file_a)"

definition edit_delete :: VersionEdit where
  "edit_delete = RemoveFile VersionEdit_new 1 (fm_number file_b)"

lemma empty_version: "l < kNumLevels \<Longrightarrow> v_files Version_new ! l = []"
  by (simp add: Version_new_def)

lemma edit_levels:
  "foldl (edit_level l) {} [edit_two, edit_delete] = (if l = 1 then {adopted (recorded file_a)} else {})"
  by (auto simp: edit_level_def edit_two_def edit_delete_def AddFile_def RemoveFile_def VersionEdit_new_def recorded_def file_a_def file_b_def FileMetaData_of_def
      fm_skey_def)


text \<open>
  C31: The edit that starts a manifest rebuilds the version it describes: applied to an empty version it
  gives every level with the same files in the same order, with their counters set anew.
\<close>

theorem snapshot_rebuilds_version:
  assumes "length (v_files v) = kNumLevels" "\<forall>l<kNumLevels. fkey_sorted (v_files v ! l) \<and> distinct (map fm_number (v_files v ! l))"
    and "\<forall>l. 0 < l \<and> l < kNumLevels \<longrightarrow> level_sorted (v_files v ! l)"
  shows "\<exists>v'. Builder_SaveTo BytewiseComparator (Builder_Apply BytewiseComparator (Builder_new ps Version_new) (snapshot_edit name ps v)) = Some v' \<and>
    v_files v' = map (map (\<lambda>f. file_ref (adopted (FileMetaData_of (fm_number f) (fm_file_size f) (fm_smallest f) (fm_largest f))))) (v_files v)"
proof -
  let ?e = "snapshot_edit name ps v"
  let ?h = "\<lambda>f. adopted (recorded f)"
  let ?r = "\<lambda>f. file_ref (?h f)"
  have e0: "ve_new_files (snapshot_pointers (SetComparatorName VersionEdit_new name) 0 ps) = []"
    by (simp add: snapshot_pointers_files SetComparatorName_def VersionEdit_new_def)
  have del: "ve_deleted_files ?e = []"
    by (simp add: snapshot_edit_def snapshot_files_deleted snapshot_pointers_files SetComparatorName_def VersionEdit_new_def)
  have new: "(l, f) \<in> set (ve_new_files ?e) \<longleftrightarrow> l < kNumLevels \<and> f \<in> recorded ` set (v_files v ! l)" for l f
    unfolding snapshot_edit_def snapshot_files_set e0 using assms(1) by simp
  have "\<forall>fs\<in>set (v_files v). distinct (map fm_number fs)" using assms(1,2) by (metis in_set_conv_nth)
  then have dist: "distinct (map (\<lambda>p. (fst p, fm_number (snd p))) (ve_new_files ?e))"
    unfolding snapshot_edit_def by (intro snapshot_files_distinct) (simp_all add: e0)
  have levels: "foldl (edit_level l) (set (v_files Version_new ! l)) [?e] = ?h ` set (v_files v ! l)" if "l < kNumLevels" for l
    using that new [of l] by (auto simp: edit_level_def empty_version)
  have "fresh_edits (\<lambda>l. fm_number ` set (v_files Version_new ! l)) [?e]"
    using new dist by (auto simp: del empty_version)
  moreover have "\<forall>l<kNumLevels. fkey_sorted (v_files Version_new ! l)" by (simp add: empty_version)
  moreover have "\<forall>l. 0 < l \<and> l < kNumLevels \<longrightarrow> (\<forall>f\<in>foldl (edit_level l) (set (v_files Version_new ! l)) [?e]. sk f \<le> lk f \<and>
      (\<forall>g\<in>foldl (edit_level l) (set (v_files Version_new ! l)) [?e]. f = g \<or> lk f < sk g \<or> lk g < sk f))"
  proof (intro allI impI)
    fix l assume l: "0 < l \<and> l < kNumLevels"
    then have s: "level_sorted (v_files v ! l)" using assms(3) by blast
    have "f = g \<or> lk f < sk g \<or> lk g < sk f" if "f \<in> set (v_files v ! l)" "g \<in> set (v_files v ! l)" for f g
      using sorted_wrt_total [OF _ that, of "\<lambda>f g. lk f < sk g"] s by (simp add: level_sorted_def)
    moreover have "sk f \<le> lk f" if "f \<in> set (v_files v ! l)" for f using s that by (simp add: level_sorted_def list_all_iff)
    ultimately show "\<forall>f\<in>foldl (edit_level l) (set (v_files Version_new ! l)) [?e]. sk f \<le> lk f \<and>
      (\<forall>g\<in>foldl (edit_level l) (set (v_files Version_new ! l)) [?e]. f = g \<or> lk f < sk g \<or> lk g < sk f)"
      using l unfolding levels [OF conjunct2 [OF l]] by simp blast
  qed
  ultimately obtain v' where v': "Builder_SaveTo BytewiseComparator (Builder_Apply BytewiseComparator (Builder_new ps Version_new) ?e) = Some v'"
    "length (v_files v') = kNumLevels" "\<forall>l<kNumLevels. set (v_files v' ! l) = ?r ` set (v_files v ! l) \<and> fkey_sorted (v_files v' ! l)"
    using Builder_result [of Version_new "[?e]" ps] levels by (auto simp: image_image)
  have "v_files v' ! l = map ?r (v_files v ! l)" if "l < kNumLevels" for l
    using assms(2) v'(3) that by (intro fkey_sorted_unique) (auto simp: fkey_def)
  then have "v_files v' = map (map ?r) (v_files v)" using v'(2) assms(1) by (intro nth_equalityI) simp_all
  with v'(1) show ?thesis by (auto simp: recorded_def)
qed

theorem snapshot_rebuilds_version_witness:
  "\<exists>v'. Builder_SaveTo BytewiseComparator (Builder_Apply BytewiseComparator (Builder_new [] Version_new)
      (snapshot_edit [97] [] (Version_new \<lparr> v_files := (replicate kNumLevels []) [1 := [file_a, file_b]] \<rparr>))) = Some v' \<and>
    map fm_number (v_files v' ! 1) = [7, 8]"
proof -
  let ?v = "Version_new \<lparr> v_files := (replicate kNumLevels []) [1 := [file_a, file_b]] \<rparr>"
  have lev: "v_files ?v ! l = (if l = 1 then [file_a, file_b] else [])" if "l < kNumLevels" for l using that by (simp add: nth_list_update kNumLevels_def)
  have n: "fm_number file_a = 7" "fm_number file_b = 8" by (simp_all add: file_a_def file_b_def FileMetaData_of_def)
  have f: "fkey_sorted [file_a, file_b]" by (simp add: fkey_def file_ab less_prod_def less_ikey_def less_eq_ikey_def)
  define fs where "fs = v_files ?v"
  have lev: "fs ! l = (if l = 1 then [file_a, file_b] else [])" if "l < kNumLevels" for l using lev [OF that] by (simp add: fs_def)
  have "length (v_files ?v) = kNumLevels" by simp
  moreover have "\<forall>l<kNumLevels. fkey_sorted (v_files ?v ! l) \<and> distinct (map fm_number (v_files ?v ! l))"
    using f n unfolding fs_def [symmetric] by (simp add: lev)
  moreover have "\<forall>l. 0 < l \<and> l < kNumLevels \<longrightarrow> level_sorted (v_files ?v ! l)"
    using file_ab_ok(1) unfolding fs_def [symmetric] by (simp add: lev level_sorted_def)
  ultimately obtain v' where
    "Builder_SaveTo BytewiseComparator (Builder_Apply BytewiseComparator (Builder_new [] Version_new) (snapshot_edit [97] [] ?v)) = Some v'"
    "v_files v' = map (map (\<lambda>f. file_ref (adopted (FileMetaData_of (fm_number f) (fm_file_size f) (fm_smallest f) (fm_largest f))))) (v_files ?v)"
    using snapshot_rebuilds_version [of ?v "[]" "[97]"] by blast
  then show ?thesis using n by (intro exI [of _ v']) (simp add: kNumLevels_def FileMetaData_of_def)
qed

end
