(* ===== verification/Compaction_Work.thy ===== *)
theory Compaction_Work
  imports Compaction_View Version_Builder
begin

text \<open>
  The work of a compaction (\<^verbatim>\<open>kv/db/db_impl.cpp\<close>): reading the merged inputs, dropping what no snapshot
  needs, and writing the rest to new tables. The environment is a record: the operations on files, the
  check that a new table can be opened, the memtable compaction that the loop lets through
  (\<open>we_imm_work\<close>) and the test for a shutdown. A file is on the disk when it has been closed; the log
  of messages, the clock and the statistics are left out. A result \<open>None\<close> is a failed assertion.
\<close>

section \<open>State\<close>

record Output =
  out_number :: u64
  out_file_size :: u64
  out_smallest :: InternalKey
  out_largest :: InternalKey

text \<open>\<open>builder\<close> and \<open>outfile\<close> are null together; the file is inside the builder.\<close>

record 'f CompactionState =
  cs_compaction :: Compaction
  cs_smallest_snapshot :: u64
  cs_outputs :: "Output list"
  cs_builder :: "'f TableBuilder option"
  cs_total_bytes :: u64

definition CompactionState_new :: "Compaction \<Rightarrow> 'f CompactionState" where
  "CompactionState_new c = \<lparr> cs_compaction = c, cs_smallest_snapshot = 0, cs_outputs = [], cs_builder = None, cs_total_bytes = 0 \<rparr>"

definition current_output :: "'f CompactionState \<Rightarrow> Output" where
  "current_output cs = cs_outputs cs ! (length (cs_outputs cs) - 1)"

definition set_current_output :: "(Output \<Rightarrow> Output) \<Rightarrow> 'f CompactionState \<Rightarrow> 'f CompactionState" where
  "set_current_output g cs = cs \<lparr> cs_outputs := (cs_outputs cs)[length (cs_outputs cs) - 1 := g (current_output cs)] \<rparr>"

text \<open>The part of the database that compactions share with other threads.\<close>

record 'w DBWork =
  dw_world :: 'w
  dw_versions :: VersionSet
  dw_pending_outputs :: "u64 set"
  dw_bg_error :: status

record ('w, 'f) WorkEnv =
  we_dbname :: bytes
  we_options :: Options
  we_max_file_size :: u64
  we_uc :: Comparator
  we_snappy :: Snappy
  we_NewWritableFile :: "'w \<Rightarrow> bytes \<Rightarrow> status \<times> 'f option \<times> 'w"
  we_file :: "'f WritableFile"
  we_Sync :: "'f \<Rightarrow> status \<times> 'f"
  we_Close :: "'w \<Rightarrow> bytes \<Rightarrow> 'f \<Rightarrow> status \<times> 'w"
  we_table_status :: "'w \<Rightarrow> u64 \<Rightarrow> u64 \<Rightarrow> status"
  we_imm_work :: "'w DBWork \<Rightarrow> 'w DBWork"
  we_shutting_down :: "'w DBWork \<Rightarrow> bool"

section \<open>Output files\<close>

definition OpenCompactionOutputFile :: "('w, 'f) WorkEnv \<Rightarrow> 'w DBWork \<Rightarrow> 'f CompactionState \<Rightarrow> (status \<times> 'w DBWork \<times> 'f CompactionState) option" where
  "OpenCompactionOutputFile E w cs =
     (if cs_builder cs \<noteq> None then None
      else (let (file_number, versions) = NewFileNumber (dw_versions w);
                w = w \<lparr> dw_versions := versions, dw_pending_outputs := insert file_number (dw_pending_outputs w) \<rparr>;
                cleared = \<lparr> InternalKey_rep = [] \<rparr>;
                out = \<lparr> out_number = file_number, out_file_size = 0, out_smallest = cleared, out_largest = cleared \<rparr>;
                cs = cs \<lparr> cs_outputs := cs_outputs cs @ [out] \<rparr>;
                fname = TableFileName (we_dbname E) file_number;
                (s, outfile, world) = we_NewWritableFile E (dw_world w) fname;
                w = w \<lparr> dw_world := world \<rparr>
            in Some (s, w, if status_ok s then cs \<lparr> cs_builder := map_option (TableBuilder_new (we_options E)) outfile \<rparr> else cs)))"

definition FinishCompactionOutputFile ::
  "('w, 'f) WorkEnv \<Rightarrow> 'w DBWork \<Rightarrow> 'f CompactionState \<Rightarrow> status \<Rightarrow> (status \<times> 'w DBWork \<times> 'f CompactionState) option" where
  "FinishCompactionOutputFile E w cs input_status =
     (case cs_builder cs of
        None \<Rightarrow> None
      | Some builder \<Rightarrow>
          (let output_number = out_number (current_output cs);
               current_entries = tb_num_entries builder;
               (s, builder) = (if status_ok input_status then tb_Finish (we_snappy E) (we_file E) builder else (input_status, tb_Abandon builder));
               current_bytes = tb_offset builder;
               cs = set_current_output (\<lambda>out. out \<lparr> out_file_size := current_bytes \<rparr>) cs;
               cs = cs \<lparr> cs_total_bytes := cs_total_bytes cs + current_bytes, cs_builder := None \<rparr>;
               outfile = tb_file builder;
               (s, outfile) = (if status_ok s then we_Sync E outfile else (s, outfile));
               (s, world) = (if status_ok s then we_Close E (dw_world w) (TableFileName (we_dbname E) output_number) outfile else (s, dw_world w));
               s = (if status_ok s \<and> current_entries > 0 then we_table_status E world output_number current_bytes else s)
           in if output_number = 0 then None else Some (s, w \<lparr> dw_world := world \<rparr>, cs)))"

section \<open>Dropping entries\<close>

record DropState =
  ds_current_user_key :: bytes
  ds_has_current_user_key :: bool
  ds_last_sequence_for_key :: u64

definition DropState_new :: DropState where
  "DropState_new = \<lparr> ds_current_user_key = [], ds_has_current_user_key = False, ds_last_sequence_for_key = kMaxSequenceNumber \<rparr>"

definition drop_step :: "Comparator \<Rightarrow> u64 \<Rightarrow> Compaction \<Rightarrow> DropState \<Rightarrow> bytes \<Rightarrow> (Compaction \<times> DropState \<times> bool) option" where
  "drop_step uc smallest_snapshot c d key =
     (case ParseInternalKey key of
        None \<Rightarrow> Some (c, DropState_new, False)
      | Some ikey \<Rightarrow>
          (let d = (if \<not> ds_has_current_user_key d \<or> cmp_Compare uc (pik_user_key ikey) (ds_current_user_key d) \<noteq> 0
                    then \<lparr> ds_current_user_key = pik_user_key ikey, ds_has_current_user_key = True, ds_last_sequence_for_key = kMaxSequenceNumber \<rparr>
                    else d)
           in do {
             (c, dropped) \<leftarrow>
               (if ds_last_sequence_for_key d \<le> smallest_snapshot then Some (c, True)
                else if pik_type ikey = kTypeDeletion \<and> pik_sequence ikey \<le> smallest_snapshot then IsBaseLevelForKey uc c (pik_user_key ikey)
                else Some (c, False));
             Some (c, d \<lparr> ds_last_sequence_for_key := pik_sequence ikey \<rparr>, dropped) }))"

section \<open>The loop\<close>

text \<open>Adding an entry that is kept: the output is opened if necessary and closed if it is big enough.\<close>

definition add_entry ::
  "('w, 'f) WorkEnv \<Rightarrow> 'w DBWork \<Rightarrow> 'f CompactionState \<Rightarrow> bytes \<Rightarrow> bytes \<Rightarrow> status \<Rightarrow> (status \<times> 'w DBWork \<times> 'f CompactionState) option" where
  "add_entry E w cs key val input_status = do {
     (s, w, cs) \<leftarrow> (if cs_builder cs = None then OpenCompactionOutputFile E w cs else Some (OK, w, cs));
     if \<not> status_ok s then Some (s, w, cs)
     else do {
       builder \<leftarrow> cs_builder cs;
       let cs = (if tb_num_entries builder = 0
                 then set_current_output (\<lambda>out. out \<lparr> out_smallest := fst (InternalKey_DecodeFrom key) \<rparr>) cs else cs);
       let cs = set_current_output (\<lambda>out. out \<lparr> out_largest := fst (InternalKey_DecodeFrom key) \<rparr>) cs;
       let builder = tb_Add (we_snappy E) (we_file E) builder key val;
       let cs = cs \<lparr> cs_builder := Some builder \<rparr>;
       if tb_offset builder \<ge> cp_max_output_file_size (cs_compaction cs)
       then FinishCompactionOutputFile E w cs input_status
       else Some (s, w, cs) } }"

text \<open>One round of the loop up to \<open>input->Next()\<close>.\<close>

definition compaction_step ::
  "('w, 'f) WorkEnv \<Rightarrow> 's Iterator \<Rightarrow> 'w DBWork \<Rightarrow> 'f CompactionState \<Rightarrow> DropState \<Rightarrow> 's \<Rightarrow> (status \<times> 'w DBWork \<times> 'f CompactionState \<times> DropState) option" where
  "compaction_step E I w cs d input = do {
     let w = we_imm_work E w;
     let key = it_key I input;
     let (c, stop) = ShouldStopBefore (we_uc E) (we_max_file_size E) (cs_compaction cs) key;
     let cs = cs \<lparr> cs_compaction := c \<rparr>;
     (s, w, cs) \<leftarrow> (if stop \<and> cs_builder cs \<noteq> None then FinishCompactionOutputFile E w cs (it_status I input) else Some (OK, w, cs));
     if \<not> status_ok s then Some (s, w, cs, d)
     else do {
       (c, d, dropped) \<leftarrow> drop_step (we_uc E) (cs_smallest_snapshot cs) (cs_compaction cs) d key;
       let cs = cs \<lparr> cs_compaction := c \<rparr>;
       if dropped then Some (s, w, cs, d)
       else do {
         (s, w, cs) \<leftarrow> add_entry E w cs key (it_value I input) (it_status I input);
         Some (s, w, cs, d) } } }"

partial_function (option) compaction_loop ::
  "('w, 'f) WorkEnv \<Rightarrow> 's Iterator \<Rightarrow> 'w DBWork \<Rightarrow> 'f CompactionState \<Rightarrow> DropState \<Rightarrow> 's \<Rightarrow> (status \<times> 'w DBWork \<times> 'f CompactionState \<times> 's) option" where
  "compaction_loop E I w cs d input =
     (if it_Valid I input \<and> \<not> we_shutting_down E w
      then do {
        (s, w, cs, d) \<leftarrow> compaction_step E I w cs d input;
        if \<not> status_ok s then Some (s, w, cs, input)
        else compaction_loop E I w cs d (it_Next I input) }
      else Some (OK, w, cs, input))"

text \<open>The edit of a finished compaction.\<close>

definition compaction_edit :: "'f CompactionState \<Rightarrow> VersionEdit" where
  "compaction_edit cs =
     (let c = cs_compaction cs
      in foldl (\<lambda>edit out. AddFile edit (cp_level c + 1) (out_number out) (out_file_size out) (out_smallest out) (out_largest out))
           (AddInputDeletions c (cp_edit c)) (cs_outputs cs))"

definition InstallCompactionResults ::
  "(VersionEdit \<Rightarrow> 'w DBWork \<Rightarrow> status \<times> 'w DBWork) \<Rightarrow> 'w DBWork \<Rightarrow> 'f CompactionState \<Rightarrow> status \<times> 'w DBWork \<times> 'f CompactionState" where
  "InstallCompactionResults log_and_apply w cs =
     (let edit = compaction_edit cs; (s, w) = log_and_apply edit w
      in (s, w, cs \<lparr> cs_compaction := (cs_compaction cs) \<lparr> cp_edit := edit \<rparr> \<rparr>))"

definition RecordBackgroundError :: "'w DBWork \<Rightarrow> status \<Rightarrow> 'w DBWork" where
  "RecordBackgroundError w s = (if status_ok (dw_bg_error w) then w \<lparr> dw_bg_error := s \<rparr> else w)"

text \<open>\<open>oldest_snapshot\<close> is the sequence number of the oldest snapshot, if there is one; \<open>input\<close> is the iterator over the inputs.\<close>

definition DoCompactionWork ::
  "('w, 'f) WorkEnv \<Rightarrow> (VersionEdit \<Rightarrow> 'w DBWork \<Rightarrow> status \<times> 'w DBWork) \<Rightarrow> u64 option \<Rightarrow> 's Iterator \<Rightarrow> 's \<Rightarrow> 'w DBWork \<Rightarrow> 'f CompactionState \<Rightarrow>
    (status \<times> 'w DBWork \<times> 'f CompactionState) option" where
  "DoCompactionWork E log_and_apply oldest_snapshot I input w cs =
     (if NumLevelFiles (dw_versions w) (cp_level (cs_compaction cs)) = 0 \<or> cs_builder cs \<noteq> None then None
      else do {
        let cs = cs \<lparr> cs_smallest_snapshot := (case oldest_snapshot of None \<Rightarrow> vs_last_sequence (dw_versions w) | Some q \<Rightarrow> q) \<rparr>;
        (s, w, cs, input) \<leftarrow> compaction_loop E I w cs DropState_new (it_SeekToFirst I input);
        let s = (if status_ok s \<and> we_shutting_down E w then Err kIOError (str ''Deleting DB during compaction'') [] else s);
        (s, w, cs) \<leftarrow> (if status_ok s \<and> cs_builder cs \<noteq> None then FinishCompactionOutputFile E w cs (it_status I input) else Some (s, w, cs));
        let s = (if status_ok s then it_status I input else s);
        let (s, w, cs) = (if status_ok s then InstallCompactionResults log_and_apply w cs else (s, w, cs));
        Some (s, if status_ok s then w else RecordBackgroundError w s, cs) })"

definition CleanupCompaction :: "'w DBWork \<Rightarrow> 'f CompactionState \<Rightarrow> 'w DBWork" where
  "CleanupCompaction w cs = w \<lparr> dw_pending_outputs := dw_pending_outputs w - set (map out_number (cs_outputs cs)) \<rparr>"

section \<open>What the drop rule computes\<close>

lemma seq_order:
  assumes "ParseInternalKey (fst a) \<noteq> None" "ParseInternalKey (fst b) \<noteq> None" "e_user a = e_user b" "ek a < ek b"
  shows "e_seq b \<le> e_seq a"
proof -
  have seq: "e_seq e = drop_bit 8 (ikey_tag (fst e))" if "ParseInternalKey (fst e) \<noteq> None" for e :: entry
    using that by (auto simp: e_parsed_def ParseInternalKey_def ikey_tag_def Let_def split: if_splits)
  have "unat (ikey_tag (fst b)) \<le> unat (ikey_tag (fst a))"
    using assms(3,4) by (auto simp: less_ikey_def ikey_of_def e_user_def word_less_nat_alt)
  then have "unat (drop_bit 8 (ikey_tag (fst b))) \<le> unat (drop_bit 8 (ikey_tag (fst a)))" by (simp add: unat_drop_bit div_le_mono)
  then show ?thesis using assms(1,2) seq by (simp add: word_le_nat_alt)
qed

definition drop_at :: "entry list \<Rightarrow> DropState \<Rightarrow> bool" where
  "drop_at pre d \<longleftrightarrow> (if pre = [] then \<not> ds_has_current_user_key d
     else ds_has_current_user_key d \<and> ds_current_user_key d = e_user (last pre) \<and> ds_last_sequence_for_key d = e_seq (last pre))"

definition ptrs_at :: "Version \<Rightarrow> entry list \<Rightarrow> Compaction \<Rightarrow> bool" where
  "ptrs_at v pre c \<longleftrightarrow> (\<forall>u. (\<forall>p\<in>set pre. e_user p \<le> u) \<longrightarrow> ptrs_ok v u (cp_level_ptrs c))"

lemma sorted_user_le: "sorted_wrt (\<lambda>a b. ek a < ek b) (pre @ e # es) \<Longrightarrow> p \<in> set pre \<Longrightarrow> e_user p \<le> e_user e"
  using ikey_user_mono(2) [of "ek p" "ek e"] by (auto simp: sorted_wrt_append ikey_of_def e_user_def)

text \<open>The last entry of the same key tells whether an entry is hidden at every snapshot.\<close>

lemma hidden_by_last:
  assumes so: "sorted_wrt (\<lambda>a b. ek a < ek b) (pre @ e # es)" and pa: "parses (pre @ e # es)" and ss: "ss < kMaxSequenceNumber" and d: "drop_at pre d"
  defines "d1 \<equiv> if \<not> ds_has_current_user_key d \<or> e_user e \<noteq> ds_current_user_key d
    then \<lparr> ds_current_user_key = e_user e, ds_has_current_user_key = True, ds_last_sequence_for_key = kMaxSequenceNumber \<rparr> else d"
  shows "ds_last_sequence_for_key d1 \<le> ss \<longleftrightarrow> (\<exists>p\<in>set pre. e_user p = e_user e \<and> e_seq p \<le> ss)"
    "ds_has_current_user_key d1 \<and> ds_current_user_key d1 = e_user e"
proof -
  show "ds_has_current_user_key d1 \<and> ds_current_user_key d1 = e_user e" by (auto simp: d1_def)
  have new: "\<not> kMaxSequenceNumber \<le> ss" using ss by simp
  show "ds_last_sequence_for_key d1 \<le> ss \<longleftrightarrow> (\<exists>p\<in>set pre. e_user p = e_user e \<and> e_seq p \<le> ss)"
  proof (cases "pre = []")
    case True
    then show ?thesis using d new by (simp add: drop_at_def d1_def)
  next
    case False
    then obtain bef l where pre: "pre = bef @ [l]" by (metis rev_exhaust)
    have d: "ds_has_current_user_key d" "ds_current_user_key d = e_user l" "ds_last_sequence_for_key d = e_seq l"
      using d pre by (simp_all add: drop_at_def)
    have so': "sorted_wrt (\<lambda>a b. ek a < ek b) (bef @ l # (e # es))" using so pre by simp
    show ?thesis
    proof (cases "e_user l = e_user e")
      case True
      have "e_seq l \<le> e_seq p" if "p \<in> set bef" "e_user p = e_user e" for p
      proof (rule seq_order)
        show "ParseInternalKey (fst p) \<noteq> None" "ParseInternalKey (fst l) \<noteq> None" using pa that(1) pre by (auto simp: parses_def list_all_iff)
        show "e_user p = e_user l" using that(2) True by simp
        show "ek p < ek l" using so' that(1) by (simp add: sorted_wrt_append)
      qed
      then have "e_seq l \<le> ss \<longleftrightarrow> (\<exists>p\<in>set pre. e_user p = e_user e \<and> e_seq p \<le> ss)" using True pre by (auto intro: order.trans)
      then show ?thesis using True d by (simp add: d1_def)
    next
      case ne: False
      have "e_user p \<noteq> e_user e" if "p \<in> set pre" for p
      proof -
        have "e_user l < e_user e" using sorted_user_le [OF so, of l] pre ne by simp
        moreover have "e_user p \<le> e_user l" using that pre sorted_user_le [OF so', of p] by auto
        ultimately show ?thesis by auto
      qed
      then show ?thesis using ne d new by (auto simp: d1_def)
    qed
  qed
qed

lemma drop_step_spec:
  assumes so: "sorted_wrt (\<lambda>a b. ek a < ek b) (pre @ e # es)" and pa: "parses (pre @ e # es)" and ss: "ss < kMaxSequenceNumber" and d: "drop_at pre d"
    and c: "cp_input_version c = Some v" "version_ok v" "ptrs_at v pre c"
  shows "\<exists>ptrs d'. drop_step BytewiseComparator ss c d (fst e) = Some (c \<lparr> cp_level_ptrs := ptrs \<rparr>, d', obsolete ss (base_key v (cp_level c)) pre e) \<and>
    drop_at (pre @ [e]) d' \<and> ptrs_at v (pre @ [e]) (c \<lparr> cp_level_ptrs := ptrs \<rparr>)"
proof -
  define d1 where "d1 = (if \<not> ds_has_current_user_key d \<or> e_user e \<noteq> ds_current_user_key d
    then \<lparr> ds_current_user_key = e_user e, ds_has_current_user_key = True, ds_last_sequence_for_key = kMaxSequenceNumber \<rparr> else d)"
  note h = hidden_by_last [OF so pa ss d, folded d1_def]
  have p: "ParseInternalKey (fst e) = Some (e_parsed e)" "pik_user_key (e_parsed e) = e_user e"
    using parsesD [OF pa, of "length pre"] by (simp_all add: nth_append)
  have levels: "\<forall>l<kNumLevels. 0 < l \<longrightarrow> level_sorted (v_files v ! l)" using c(2) by (simp add: version_ok_def level_ok_at_def)
  have pt: "ptrs_ok v (e_user e) (cp_level_ptrs c)" using c(3) sorted_user_le [OF so] by (simp add: ptrs_at_def)
  from IsBaseLevelForKey_spec [OF c(1) levels pt] obtain ptrs where
    b: "IsBaseLevelForKey BytewiseComparator c (e_user e) = Some (c \<lparr> cp_level_ptrs := ptrs \<rparr>, base_key v (cp_level c) (e_user e))" "ptrs_ok v (e_user e) ptrs"
    unfolding base_key_def by blast
  have keep: "ptrs_at v (pre @ [e]) (c \<lparr> cp_level_ptrs := cp_level_ptrs c \<rparr>)" using c(3) by (simp add: ptrs_at_def)
  have new: "ptrs_at v (pre @ [e]) (c \<lparr> cp_level_ptrs := ptrs \<rparr>)" using ptrs_ok_mono [OF b(2)] by (simp add: ptrs_at_def)
  have d': "drop_at (pre @ [e]) (d1 \<lparr> ds_last_sequence_for_key := e_seq e \<rparr>)" using h(2) by (simp add: drop_at_def)
  have d1: "(if \<not> ds_has_current_user_key d \<or> cmp_Compare BytewiseComparator (e_user e) (ds_current_user_key d) \<noteq> 0
      then \<lparr> ds_current_user_key = e_user e, ds_has_current_user_key = True, ds_last_sequence_for_key = kMaxSequenceNumber \<rparr> else d) = d1"
    by (simp add: d1_def user_signs)
  have cc: "c \<lparr> cp_level_ptrs := cp_level_ptrs c \<rparr> = c" by simp
  note step = drop_step_def [of BytewiseComparator ss c d "fst e", unfolded p(1) option.case p(2) Let_def d1]
  show ?thesis
  proof (cases "\<exists>p\<in>set pre. e_user p = e_user e \<and> e_seq p \<le> ss")
    case True
    then have "obsolete ss (base_key v (cp_level c)) pre e" by (simp add: obsolete_def)
    then have "drop_step BytewiseComparator ss c d (fst e) = Some (c \<lparr> cp_level_ptrs := cp_level_ptrs c \<rparr>, d1 \<lparr> ds_last_sequence_for_key := e_seq e \<rparr>,
        obsolete ss (base_key v (cp_level c)) pre e)" using True h(1) unfolding step cc by simp
    then show ?thesis using keep d' by blast
  next
    case False
    then have nh: "\<not> ds_last_sequence_for_key d1 \<le> ss" using h(1) by blast
    show ?thesis
    proof (cases "e_type e = kTypeDeletion \<and> e_seq e \<le> ss")
      case del: True
      then have "obsolete ss (base_key v (cp_level c)) pre e \<longleftrightarrow> base_key v (cp_level c) (e_user e)" using False by (auto simp: obsolete_def)
      then have "drop_step BytewiseComparator ss c d (fst e) = Some (c \<lparr> cp_level_ptrs := ptrs \<rparr>, d1 \<lparr> ds_last_sequence_for_key := e_seq e \<rparr>,
          obsolete ss (base_key v (cp_level c)) pre e)" using nh b(1) del unfolding step by simp
      then show ?thesis using new d' by blast
    next
      case nd: False
      then have "\<not> obsolete ss (base_key v (cp_level c)) pre e" using False by (auto simp: obsolete_def)
      then have "drop_step BytewiseComparator ss c d (fst e) = Some (c \<lparr> cp_level_ptrs := cp_level_ptrs c \<rparr>, d1 \<lparr> ds_last_sequence_for_key := e_seq e \<rparr>,
          obsolete ss (base_key v (cp_level c)) pre e)" using nh nd unfolding step cc by auto
      then show ?thesis using keep d' by blast
    qed
  qed
qed

section \<open>Files on a disk\<close>

text \<open>An environment whose files are byte strings by name and never fail.\<close>

type_synonym disk = "bytes \<rightharpoonup> bytes"

definition disk_tables :: "Snappy \<Rightarrow> bytes \<Rightarrow> Options \<Rightarrow> disk \<Rightarrow> TableEnv" where
  "disk_tables sn dbname opt w =
     \<lparr> te_snappy = sn, te_dbname = dbname, te_options = opt,
       te_NewRandomAccessFile = (\<lambda>name. case w name of
         Some T \<Rightarrow> (OK, Some (PosixMmapReadableFile OK T)) | None \<Rightarrow> (status_NotFound name [], None)) \<rparr>"

definition disk_env :: "Snappy \<Rightarrow> bytes \<Rightarrow> Options \<Rightarrow> u64 \<Rightarrow> (disk DBWork \<Rightarrow> disk DBWork) \<Rightarrow> (disk, bytes) WorkEnv" where
  "disk_env sn dbname opt max_file_size imm_work =
     \<lparr> we_dbname = dbname, we_options = opt, we_max_file_size = max_file_size, we_uc = BytewiseComparator, we_snappy = sn,
       we_NewWritableFile = (\<lambda>w name. (OK, Some [], w(name \<mapsto> []))), we_file = string_file, we_Sync = (\<lambda>f. (OK, f)),
       we_Close = (\<lambda>w name f. (OK, w(name \<mapsto> f))),
       we_table_status = (\<lambda>w n sz. fst (open_table (disk_tables sn dbname opt w) n sz)),
       we_imm_work = imm_work, we_shutting_down = (\<lambda>_. False) \<rparr>"

lemma disk_env_simps [simp]:
  "we_dbname (disk_env sn db opt mfs imm) = db" "we_options (disk_env sn db opt mfs imm) = opt" "we_max_file_size (disk_env sn db opt mfs imm) = mfs"
  "we_uc (disk_env sn db opt mfs imm) = BytewiseComparator" "we_snappy (disk_env sn db opt mfs imm) = sn" "we_file (disk_env sn db opt mfs imm) = string_file"
  "we_NewWritableFile (disk_env sn db opt mfs imm) = (\<lambda>w name. (OK, Some [], w(name \<mapsto> [])))" "we_Sync (disk_env sn db opt mfs imm) = (\<lambda>f. (OK, f))"
  "we_Close (disk_env sn db opt mfs imm) = (\<lambda>w name f. (OK, w(name \<mapsto> f)))" "we_imm_work (disk_env sn db opt mfs imm) = imm"
  "we_shutting_down (disk_env sn db opt mfs imm) = (\<lambda>_. False)"
  "we_table_status (disk_env sn db opt mfs imm) = (\<lambda>w n sz. fst (open_table (disk_tables sn db opt w) n sz))"
  by (simp_all add: disk_env_def)

lemma TableFileName_inj: "TableFileName db n = TableFileName db m \<longleftrightarrow> n = m"
proof
  assume "TableFileName db n = TableFileName db m"
  then have "decimal_pad 6 (unat n) = decimal_pad 6 (unat m)" by (simp add: TableFileName_def MakeFileName_def)
  moreover have "dec_val 0 (decimal_pad w x) = x" for w x by (simp add: decimal_pad_def dec_val_zeros dec_val_decimal)
  ultimately have "unat n = unat m" by metis
  then show "n = m" by (simp add: word_unat_eq_iff)
qed simp

definition table_of :: "Snappy \<Rightarrow> Options \<Rightarrow> entry list \<Rightarrow> bytes" where
  "table_of sn opt g = tb_file (snd (tb_Finish sn string_file (tb_add_all sn opt g)))"

definition table_fits :: "Snappy \<Rightarrow> Options \<Rightarrow> entry list \<Rightarrow> bool" where
  "table_fits sn opt g \<longleftrightarrow> table_input_ok sn opt g \<and> length (table_of sn opt g) < 2 ^ 32 \<and>
     (\<exists>bits. opt_filter_policy opt \<in> {None, Some (InternalFilterPolicy (BloomFilterPolicy bits))})"

lemma written_table:
  assumes "table_fits sn opt g" "w (TableFileName db n) = Some (table_of sn opt g)"
  shows "fst (tb_Finish sn string_file (tb_add_all sn opt g)) = OK"
    "fst (open_table (disk_tables sn db opt w) n (word_of_nat (length (table_of sn opt g)))) = OK"
proof -
  have i: "table_input_ok sn opt g" "length (table_of sn opt g) < 2 ^ 32" using assms(1) by (auto simp: table_fits_def)
  obtain bits where p: "opt_filter_policy opt \<in> {None, Some (InternalFilterPolicy (BloomFilterPolicy bits))}" using assms(1) by (auto simp: table_fits_def)
  show "fst (tb_Finish sn string_file (tb_add_all sn opt g)) = OK" using table_input_built [OF i(1)] by metis
  have k: "8 \<le> length (replicate 8 0 :: bytes)" by simp
  from built_table_get [OF i(1) table_of_def i(2) mmap_file.random_file_axioms [of OK] k p, of 0] obtain t where
    "Table_Open sn opt (PosixMmapReadableFile OK (table_of sn opt g)) 0 (word_of_nat (length (table_of sn opt g))) = (OK, Some t)" by blast
  then show "fst (open_table (disk_tables sn db opt w) n (word_of_nat (length (table_of sn opt g)))) = OK"
    using assms(2) by (simp add: open_table_def disk_tables_def status_ok_def)
qed

section \<open>The outputs so far\<close>

abbreviation next_number :: "'w DBWork \<Rightarrow> nat" where "next_number w \<equiv> unat (vs_next_file_number (dw_versions w))"

text \<open>An output that is finished, with its entries.\<close>

definition finished :: "Snappy \<Rightarrow> bytes \<Rightarrow> Options \<Rightarrow> disk \<Rightarrow> Output \<Rightarrow> entry list \<Rightarrow> bool" where
  "finished sn db opt w out g \<longleftrightarrow> g \<noteq> [] \<and> table_fits sn opt g \<and> w (TableFileName db (out_number out)) = Some (table_of sn opt g) \<and>
     out_file_size out = word_of_nat (length (table_of sn opt g)) \<and>
     out_smallest out = \<lparr> InternalKey_rep = fst (hd g) \<rparr> \<and> out_largest out = \<lparr> InternalKey_rep = fst (last g) \<rparr>"

text \<open>The numbers of the outputs: taken since the compaction started, and still reserved.\<close>

definition numbers_ok :: "nat \<Rightarrow> disk DBWork \<Rightarrow> Output list \<Rightarrow> bool" where
  "numbers_ok n0 w outs \<longleftrightarrow> 0 < n0 \<and> n0 \<le> next_number w \<and> distinct (map out_number outs) \<and>
     (\<forall>out\<in>set outs. n0 \<le> unat (out_number out) \<and> unat (out_number out) < next_number w \<and> out_number out \<in> dw_pending_outputs w)"

definition building :: "Snappy \<Rightarrow> Options \<Rightarrow> bytes CompactionState \<Rightarrow> Output list \<Rightarrow> entry list \<Rightarrow> bool" where
  "building sn opt cs opn cur \<longleftrightarrow>
     (if cur = [] then opn = [] \<and> cs_builder cs = None
      else \<exists>out. opn = [out] \<and> cs_builder cs = Some (tb_add_all sn opt cur) \<and>
        out_smallest out = \<lparr> InternalKey_rep = fst (hd cur) \<rparr> \<and> out_largest out = \<lparr> InternalKey_rep = fst (last cur) \<rparr>)"

definition work_inv :: "Snappy \<Rightarrow> bytes \<Rightarrow> Options \<Rightarrow> nat \<Rightarrow> disk DBWork \<Rightarrow> bytes CompactionState \<Rightarrow> entry list list \<Rightarrow> entry list \<Rightarrow> bool" where
  "work_inv sn db opt n0 w cs groups cur \<longleftrightarrow>
     (\<exists>fin opn. cs_outputs cs = fin @ opn \<and> list_all2 (finished sn db opt (dw_world w)) fin groups \<and> building sn opt cs opn cur) \<and>
     numbers_ok n0 w (cs_outputs cs)"

text \<open>What the memtable compaction in between may do: it takes at most \<open>k\<close> file numbers and leaves reserved files alone.\<close>

definition imm_ok :: "bytes \<Rightarrow> nat \<Rightarrow> (disk DBWork \<Rightarrow> disk DBWork) \<Rightarrow> bool" where
  "imm_ok db k imm \<longleftrightarrow> (\<forall>w. next_number w + k < 2 ^ 64 \<longrightarrow>
     next_number w \<le> next_number (imm w) \<and> next_number (imm w) \<le> next_number w + k \<and> dw_pending_outputs w \<subseteq> dw_pending_outputs (imm w) \<and>
     (\<forall>n\<in>dw_pending_outputs w. dw_world (imm w) (TableFileName db n) = dw_world w (TableFileName db n)))"

lemma work_inv_job: "work_inv sn db opt n0 w (cs \<lparr> cs_compaction := c \<rparr>) groups cur \<longleftrightarrow> work_inv sn db opt n0 w cs groups cur"
proof -
  have "building sn opt (cs \<lparr> cs_compaction := c \<rparr>) = building sn opt cs" by (simp add: building_def fun_eq_iff)
  then show ?thesis by (simp add: work_inv_def)
qed

lemma finished_world:
  "list_all2 (finished sn db opt w) fin groups \<Longrightarrow> \<forall>out\<in>set fin. w' (TableFileName db (out_number out)) = w (TableFileName db (out_number out)) \<Longrightarrow>
    list_all2 (finished sn db opt w') fin groups"
  by (auto simp: finished_def list_all2_conv_all_nth)

lemma work_inv_imm:
  assumes "work_inv sn db opt n0 w cs groups cur" "imm_ok db k imm" "next_number w + k < 2 ^ 64"
  shows "work_inv sn db opt n0 (imm w) cs groups cur" "next_number (imm w) \<le> next_number w + k"
proof -
  obtain fin opn where f: "cs_outputs cs = fin @ opn" "list_all2 (finished sn db opt (dw_world w)) fin groups" "building sn opt cs opn cur"
    "numbers_ok n0 w (cs_outputs cs)" using assms(1) by (auto simp: work_inv_def)
  have i: "next_number w \<le> next_number (imm w)" "next_number (imm w) \<le> next_number w + k" "dw_pending_outputs w \<subseteq> dw_pending_outputs (imm w)"
    "\<forall>n\<in>dw_pending_outputs w. dw_world (imm w) (TableFileName db n) = dw_world w (TableFileName db n)"
    using assms(2,3) unfolding imm_ok_def by blast+
  have "\<forall>out\<in>set fin. dw_world (imm w) (TableFileName db (out_number out)) = dw_world w (TableFileName db (out_number out))"
    using f(1,4) i(4) by (auto simp: numbers_ok_def)
  from finished_world [OF f(2) this] have "list_all2 (finished sn db opt (dw_world (imm w))) fin groups" .
  moreover have "numbers_ok n0 (imm w) (cs_outputs cs)" using f(4) i(1,3) unfolding numbers_ok_def by (meson order.trans order.strict_trans2 subsetD)
  ultimately show "work_inv sn db opt n0 (imm w) cs groups cur" using f(1,3) unfolding work_inv_def by blast
  show "next_number (imm w) \<le> next_number w + k" by (rule i(2))
qed

lemma current_output_snoc:
  assumes "cs_outputs cs = outs @ [out]"
  shows "current_output cs = out" "set_current_output g cs = cs \<lparr> cs_outputs := outs @ [g out] \<rparr>"
  using assms by (simp_all add: current_output_def set_current_output_def)

lemma set_current_output_job [simp]: "cs_compaction (set_current_output g cs) = cs_compaction cs"
  by (simp add: set_current_output_def)

lemma Finish_inv:
  assumes "work_inv sn db opt n0 w cs groups cur" "cur \<noteq> []" "table_fits sn opt cur"
  shows "\<exists>w' cs'. FinishCompactionOutputFile (disk_env sn db opt mfs imm) w cs OK = Some (OK, w', cs') \<and>
    work_inv sn db opt n0 w' cs' (groups @ [cur]) [] \<and> cs_compaction cs' = cs_compaction cs \<and> cs_smallest_snapshot cs' = cs_smallest_snapshot cs \<and>
    dw_versions w' = dw_versions w \<and> dw_pending_outputs w' = dw_pending_outputs w"
proof -
  let ?b = "tb_add_all sn opt cur" and ?T = "table_of sn opt cur"
  obtain fin out where f: "cs_outputs cs = fin @ [out]" "list_all2 (finished sn db opt (dw_world w)) fin groups" "cs_builder cs = Some ?b"
    "out_smallest out = \<lparr> InternalKey_rep = fst (hd cur) \<rparr>" "out_largest out = \<lparr> InternalKey_rep = fst (last cur) \<rparr>" "numbers_ok n0 w (cs_outputs cs)"
    using assms(1,2) by (auto simp: work_inv_def building_def)
  define w' where "w' = w \<lparr> dw_world := (dw_world w)(TableFileName db (out_number out) \<mapsto> ?T) \<rparr>"
  define cs' where "cs' = cs \<lparr> cs_outputs := fin @ [out \<lparr> out_file_size := word_of_nat (length ?T) \<rparr>],
    cs_total_bytes := cs_total_bytes cs + word_of_nat (length ?T), cs_builder := None \<rparr>"
  have n: "out_number out \<noteq> 0" using f(1,6) by (auto simp: numbers_ok_def)
  have wt: "fst (tb_Finish sn string_file ?b) = OK" "fst (open_table (disk_tables sn db opt (dw_world w')) (out_number out) (word_of_nat (length ?T))) = OK"
    using written_table [OF assms(3), of "dw_world w'" db "out_number out"] by (simp_all add: w'_def)
  obtain r where r: "tb_Finish sn string_file ?b = (OK, r)" using wt(1) by (metis prod.collapse)
  have off: "tb_offset r = word_of_nat (length ?T)" "tb_file r = ?T"
    using offset_Finish [OF offset_add_all(1), of sn sn opt cur] r by (simp_all add: table_of_def)
  have ent: "tb_num_entries ?b > 0" using offset_add_all(2) [of sn opt cur] assms(2) by simp
  note co = current_output_snoc [OF f(1)]
  have run: "FinishCompactionOutputFile (disk_env sn db opt mfs imm) w cs OK = Some (OK, w', cs')"
    unfolding FinishCompactionOutputFile_def f(3) option.case co disk_env_simps Let_def
    using n wt(2) ent by (simp add: r off status_ok_def cs'_def w'_def)
  have "out_number out \<notin> out_number ` set fin" using f(1,6) by (simp add: numbers_ok_def)
  then have "\<forall>x\<in>set fin. out_number x \<noteq> out_number out" by (metis image_eqI)
  then have "\<forall>x\<in>set fin. dw_world w' (TableFileName db (out_number x)) = dw_world w (TableFileName db (out_number x))"
    by (simp add: w'_def TableFileName_inj)
  from finished_world [OF f(2) this]
  have "list_all2 (finished sn db opt (dw_world w')) (fin @ [out \<lparr> out_file_size := word_of_nat (length ?T) \<rparr>]) (groups @ [cur])"
    by (rule list_all2_appendI) (use f(4,5) assms(2,3) in \<open>simp add: finished_def w'_def\<close>)
  moreover have "numbers_ok n0 w' (cs_outputs cs')" using f(1,6) by (auto simp: numbers_ok_def w'_def cs'_def)
  moreover have "building sn opt cs' [] []" by (simp add: building_def cs'_def)
  ultimately have "work_inv sn db opt n0 w' cs' (groups @ [cur]) []" unfolding work_inv_def cs'_def by auto
  then show ?thesis using run by (auto simp: w'_def cs'_def)
qed

lemma Open_inv:
  assumes "work_inv sn db opt n0 w cs groups []" "next_number w + 1 < 2 ^ 64"
  shows "\<exists>w' cs' fin out. OpenCompactionOutputFile (disk_env sn db opt mfs imm) w cs = Some (OK, w', cs') \<and>
    cs_outputs cs' = fin @ [out] \<and> list_all2 (finished sn db opt (dw_world w')) fin groups \<and> cs_builder cs' = Some (tb_add_all sn opt []) \<and>
    numbers_ok n0 w' (cs_outputs cs') \<and> cs_compaction cs' = cs_compaction cs \<and> cs_smallest_snapshot cs' = cs_smallest_snapshot cs \<and>
    next_number w' = next_number w + 1"
proof -
  have f: "list_all2 (finished sn db opt (dw_world w)) (cs_outputs cs) groups" "cs_builder cs = None" "numbers_ok n0 w (cs_outputs cs)"
    using assms(1) by (auto simp: work_inv_def building_def)
  let ?n = "vs_next_file_number (dw_versions w)"
  define out where "out = \<lparr> out_number = ?n, out_file_size = 0, out_smallest = \<lparr> InternalKey_rep = [] \<rparr>, out_largest = \<lparr> InternalKey_rep = [] \<rparr> \<rparr>"
  define w' where "w' = \<lparr> dw_world = (dw_world w)(TableFileName db ?n \<mapsto> []), dw_versions = (dw_versions w) \<lparr> vs_next_file_number := ?n + 1 \<rparr>,
    dw_pending_outputs = insert ?n (dw_pending_outputs w), dw_bg_error = dw_bg_error w \<rparr>"
  define cs' where "cs' = cs \<lparr> cs_outputs := cs_outputs cs @ [out], cs_builder := Some (tb_add_all sn opt []) \<rparr>"
  have run: "OpenCompactionOutputFile (disk_env sn db opt mfs imm) w cs = Some (OK, w', cs')"
    using f(2) by (simp add: OpenCompactionOutputFile_def NewFileNumber_def Let_def status_ok_def out_def w'_def cs'_def tb_add_all_def)
  have nn: "next_number w' = next_number w + 1" using assms(2) by (simp add: w'_def unat_word_ariths(1))
  have "\<forall>x\<in>set (cs_outputs cs). unat (out_number x) < unat ?n" using f(3) by (simp add: numbers_ok_def)
  then have new: "\<forall>x\<in>set (cs_outputs cs). out_number x \<noteq> ?n" by auto
  then have "\<forall>x\<in>set (cs_outputs cs). dw_world w' (TableFileName db (out_number x)) = dw_world w (TableFileName db (out_number x))"
    by (simp add: w'_def TableFileName_inj)
  from finished_world [OF f(1) this] have "list_all2 (finished sn db opt (dw_world w')) (cs_outputs cs) groups" .
  moreover have "numbers_ok n0 w' (cs_outputs cs')"
    using f(3) new nn unfolding numbers_ok_def by (auto simp: cs'_def out_def w'_def)
  ultimately show ?thesis using run nn by (auto simp: cs'_def)
qed

lemma Add_inv:
  assumes "work_inv sn db opt n0 w cs groups cur" "next_number w + 1 < 2 ^ 64" "table_fits sn opt (cur @ [e])"
  shows "\<exists>w' cs' groups' cur'. add_entry (disk_env sn db opt mfs imm) w cs (fst e) (snd e) OK = Some (OK, w', cs') \<and>
    work_inv sn db opt n0 w' cs' groups' cur' \<and> concat groups' @ cur' = concat groups @ cur @ [e] \<and> suffix cur' (cur @ [e]) \<and>
    cs_compaction cs' = cs_compaction cs \<and> cs_smallest_snapshot cs' = cs_smallest_snapshot cs \<and> next_number w' \<le> next_number w + 1"
proof -
  let ?E = "disk_env sn db opt mfs imm"
  obtain w1 cs1 fin out where o: "(if cs_builder cs = None then OpenCompactionOutputFile ?E w cs else Some (OK, w, cs)) = Some (OK, w1, cs1)"
    "cs_outputs cs1 = fin @ [out]" "list_all2 (finished sn db opt (dw_world w1)) fin groups" "cs_builder cs1 = Some (tb_add_all sn opt cur)"
    "numbers_ok n0 w1 (cs_outputs cs1)" "cs_compaction cs1 = cs_compaction cs" "cs_smallest_snapshot cs1 = cs_smallest_snapshot cs"
    "next_number w1 \<le> next_number w + 1" "cur \<noteq> [] \<Longrightarrow> out_smallest out = \<lparr> InternalKey_rep = fst (hd cur) \<rparr>"
  proof (cases "cur = []")
    case True
    have "cs_builder cs = None" using assms(1) True by (auto simp: work_inv_def building_def)
    with Open_inv [OF assms(1) [unfolded True] assms(2), of mfs imm] that True show ?thesis by fastforce
  next
    case False
    obtain fin out where "cs_outputs cs = fin @ [out]" "list_all2 (finished sn db opt (dw_world w)) fin groups" "cs_builder cs = Some (tb_add_all sn opt cur)"
      "out_smallest out = \<lparr> InternalKey_rep = fst (hd cur) \<rparr>" "numbers_ok n0 w (cs_outputs cs)"
      using assms(1) False by (auto simp: work_inv_def building_def)
    then show ?thesis by (intro that [of w cs fin out]) simp_all
  qed
  define out' where "out' = out \<lparr> out_smallest := \<lparr> InternalKey_rep = fst (hd (cur @ [e])) \<rparr>, out_largest := \<lparr> InternalKey_rep = fst e \<rparr> \<rparr>"
  define cs2 where "cs2 = cs1 \<lparr> cs_outputs := fin @ [out'], cs_builder := Some (tb_add_all sn opt (cur @ [e])) \<rparr>"
  have snoc: "tb_Add sn string_file (tb_add_all sn opt cur) (fst e) (snd e) = tb_add_all sn opt (cur @ [e])" by (simp add: tb_add_all_def)
  have ent: "tb_num_entries (tb_add_all sn opt cur) = 0 \<longleftrightarrow> cur = []" by (simp add: offset_add_all(2))
  have upd: "(let cs = (if tb_num_entries (tb_add_all sn opt cur) = 0
        then set_current_output (\<lambda>out. out \<lparr> out_smallest := fst (InternalKey_DecodeFrom (fst e)) \<rparr>) cs1 else cs1);
      cs = set_current_output (\<lambda>out. out \<lparr> out_largest := fst (InternalKey_DecodeFrom (fst e)) \<rparr>) cs
    in cs \<lparr> cs_builder := Some (tb_add_all sn opt (cur @ [e])) \<rparr>) = cs2"
  proof (cases "cur = []")
    case True
    then show ?thesis by (simp add: Let_def offset_add_all(2) current_output_snoc(2) [OF o(2)] InternalKey_DecodeFrom_def)
        (simp add: set_current_output_def current_output_def cs2_def out'_def)
  next
    case False
    then have "out' = out \<lparr> out_largest := \<lparr> InternalKey_rep = fst e \<rparr> \<rparr>" using o(9) by (simp add: out'_def)
    then show ?thesis using False by (simp add: Let_def offset_add_all(2) current_output_snoc(2) [OF o(2)] InternalKey_DecodeFrom_def cs2_def)
  qed
  have "numbers_ok n0 w1 (cs_outputs cs2)" using o(2,5) by (auto simp: numbers_ok_def cs2_def out'_def)
  moreover have "building sn opt cs2 [out'] (cur @ [e])" by (simp add: building_def cs2_def out'_def)
  moreover have "cs_outputs cs2 = fin @ [out']" by (simp add: cs2_def)
  ultimately have inv: "work_inv sn db opt n0 w1 cs2 groups (cur @ [e])" using o(3) unfolding work_inv_def by blast
  have same: "cs_compaction cs2 = cs_compaction cs" "cs_smallest_snapshot cs2 = cs_smallest_snapshot cs" using o(6,7) by (simp_all add: cs2_def)
  let ?big = "tb_offset (tb_add_all sn opt (cur @ [e])) \<ge> cp_max_output_file_size (cs_compaction cs)"
  have run: "add_entry ?E w cs (fst e) (snd e) OK = (if ?big then FinishCompactionOutputFile ?E w1 cs2 OK else Some (OK, w1, cs2))"
    unfolding add_entry_def o(1) using upd by (simp add: o(4,6) status_ok_def snoc Let_def same(1))
  show ?thesis
  proof (cases ?big)
    case True
    from Finish_inv [OF inv _ assms(3), of mfs imm] obtain w' cs' where
      "FinishCompactionOutputFile ?E w1 cs2 OK = Some (OK, w', cs')" "work_inv sn db opt n0 w' cs' (groups @ [cur @ [e]]) []"
      "cs_compaction cs' = cs_compaction cs2" "cs_smallest_snapshot cs' = cs_smallest_snapshot cs2" "dw_versions w' = dw_versions w1" by auto
    then show ?thesis using run True same o(8) by (intro exI [of _ w'] exI [of _ cs'] exI [of _ "groups @ [cur @ [e]]"] exI [of _ "[]"]) simp
  next
    case False
    then show ?thesis using run same o(8) inv by (intro exI [of _ w1] exI [of _ cs2] exI [of _ groups] exI [of _ "cur @ [e]"]) simp
  qed
qed

text \<open>What stays the same of a compaction while it runs.\<close>

definition same_job :: "Compaction \<Rightarrow> Compaction \<Rightarrow> bool" where
  "same_job c c' \<longleftrightarrow> cp_input_version c' = cp_input_version c \<and> cp_level c' = cp_level c \<and> cp_edit c' = cp_edit c \<and>
     cp_inputs0 c' = cp_inputs0 c \<and> cp_inputs1 c' = cp_inputs1 c \<and> cp_max_output_file_size c' = cp_max_output_file_size c"

lemma ShouldStopBefore_keeps:
  "same_job c (fst (ShouldStopBefore uc mfs c k)) \<and> cp_level_ptrs (fst (ShouldStopBefore uc mfs c k)) = cp_level_ptrs c"
  by (auto simp: ShouldStopBefore_def same_job_def Let_def split: prod.splits)

lemma stop_part:
  assumes "work_inv sn db opt n0 w cs groups cur" "cur \<noteq> [] \<Longrightarrow> table_fits sn opt cur"
  shows "\<exists>w' cs' groups' cur'. (if stop \<and> cs_builder cs \<noteq> None then FinishCompactionOutputFile (disk_env sn db opt mfs imm) w cs OK else Some (OK, w, cs)) = Some (OK, w', cs') \<and>
    work_inv sn db opt n0 w' cs' groups' cur' \<and> concat groups' @ cur' = concat groups @ cur \<and> suffix cur' cur \<and>
    cs_compaction cs' = cs_compaction cs \<and> cs_smallest_snapshot cs' = cs_smallest_snapshot cs \<and> next_number w' = next_number w"
proof (cases "stop \<and> cs_builder cs \<noteq> None")
  case True
  then have "cur \<noteq> []" using assms(1) by (auto simp: work_inv_def building_def)
  from Finish_inv [OF assms(1) this assms(2) [OF this], of mfs imm] obtain w' cs' where
    f: "FinishCompactionOutputFile (disk_env sn db opt mfs imm) w cs OK = Some (OK, w', cs')" "work_inv sn db opt n0 w' cs' (groups @ [cur]) []"
    "cs_compaction cs' = cs_compaction cs" "cs_smallest_snapshot cs' = cs_smallest_snapshot cs" "dw_versions w' = dw_versions w" by blast
  then have "(if stop \<and> cs_builder cs \<noteq> None then FinishCompactionOutputFile (disk_env sn db opt mfs imm) w cs OK else Some (OK, w, cs)) = Some (OK, w', cs')"
    using True by simp
  then show ?thesis using f by (intro exI [of _ w'] exI [of _ cs'] exI [of _ "groups @ [cur]"] exI [of _ "[]"]) simp
next
  case False
  then have "(if stop \<and> cs_builder cs \<noteq> None then FinishCompactionOutputFile (disk_env sn db opt mfs imm) w cs OK else Some (OK, w, cs)) = Some (OK, w, cs)"
    by auto
  then show ?thesis using assms(1) by (intro exI [of _ w] exI [of _ cs] exI [of _ groups] exI [of _ cur]) simp
qed

lemma step_inv:
  assumes inv: "work_inv sn db opt n0 w cs groups cur" and imm: "imm_ok db k imm" and room: "next_number w + k + 1 < 2 ^ 64"
    and I: "it_key I input = fst e" "it_value I input = snd e" "it_status I input = OK"
    and so: "sorted_wrt (\<lambda>a b. ek a < ek b) (pre @ e # es)" and pa: "parses (pre @ e # es)"
    and ss: "cs_smallest_snapshot cs < kMaxSequenceNumber" and d: "drop_at pre d"
    and c: "cp_input_version (cs_compaction cs) = Some v" "version_ok v" "ptrs_at v pre (cs_compaction cs)"
    and fit: "\<And>g. suffix g (cur @ [e]) \<or> suffix g cur \<Longrightarrow> g \<noteq> [] \<Longrightarrow> table_fits sn opt g"
  shows "\<exists>w' cs' d' groups' cur'. compaction_step (disk_env sn db opt mfs imm) I w cs d input = Some (OK, w', cs', d') \<and>
    work_inv sn db opt n0 w' cs' groups' cur' \<and>
    concat groups' @ cur' = concat groups @ cur @ (if obsolete (cs_smallest_snapshot cs) (base_key v (cp_level (cs_compaction cs))) pre e then [] else [e]) \<and>
    drop_at (pre @ [e]) d' \<and> ptrs_at v (pre @ [e]) (cs_compaction cs') \<and> same_job (cs_compaction cs) (cs_compaction cs') \<and>
    cs_smallest_snapshot cs' = cs_smallest_snapshot cs \<and> next_number w' \<le> next_number w + k + 1"
proof -
  let ?E = "disk_env sn db opt mfs imm"
  obtain c1 stop where st: "ShouldStopBefore BytewiseComparator mfs (cs_compaction cs) (fst e) = (c1, stop)" by fastforce
  have j1: "same_job (cs_compaction cs) c1" "cp_level_ptrs c1 = cp_level_ptrs (cs_compaction cs)"
    using ShouldStopBefore_keeps [of "cs_compaction cs" BytewiseComparator mfs "fst e"] st by simp_all
  define cs1 where "cs1 = cs \<lparr> cs_compaction := c1 \<rparr>"
  note w1 = work_inv_imm [OF inv imm]
  have inv1: "work_inv sn db opt n0 (imm w) cs1 groups cur" using w1(1) room by (simp add: cs1_def work_inv_job)
  have n1: "next_number (imm w) \<le> next_number w + k" using w1(2) room by simp
  have "table_fits sn opt cur" if "cur \<noteq> []" using fit [of cur] that by simp
  from stop_part [OF inv1 this, of stop mfs imm] obtain w2 cs2 groups2 cur2 where
    s2: "(if stop \<and> cs_builder cs1 \<noteq> None then FinishCompactionOutputFile ?E (imm w) cs1 OK else Some (OK, imm w, cs1)) = Some (OK, w2, cs2)"
    "work_inv sn db opt n0 w2 cs2 groups2 cur2" "concat groups2 @ cur2 = concat groups @ cur" "suffix cur2 cur"
    "cs_compaction cs2 = c1" "cs_smallest_snapshot cs2 = cs_smallest_snapshot cs" "next_number w2 = next_number (imm w)"
    by (auto simp: cs1_def)
  have c1v: "cp_input_version c1 = Some v" "cp_level c1 = cp_level (cs_compaction cs)" "ptrs_at v pre c1" using c(1,3) j1 by (simp_all add: same_job_def ptrs_at_def)
  let ?ob = "obsolete (cs_smallest_snapshot cs) (base_key v (cp_level (cs_compaction cs))) pre e"
  from drop_step_spec [OF so pa ss d c1v(1) c(2) c1v(3)] obtain ptrs d' where
    dr: "drop_step BytewiseComparator (cs_smallest_snapshot cs) c1 d (fst e) = Some (c1 \<lparr> cp_level_ptrs := ptrs \<rparr>, d', ?ob)"
    "drop_at (pre @ [e]) d'" "ptrs_at v (pre @ [e]) (c1 \<lparr> cp_level_ptrs := ptrs \<rparr>)" unfolding c1v(2) by blast
  define cs3 where "cs3 = cs2 \<lparr> cs_compaction := c1 \<lparr> cp_level_ptrs := ptrs \<rparr> \<rparr>"
  have inv3: "work_inv sn db opt n0 w2 cs3 groups2 cur2" using s2(2) by (simp add: cs3_def work_inv_job)
  have j3: "same_job (cs_compaction cs) (cs_compaction cs3)" "cs_smallest_snapshot cs3 = cs_smallest_snapshot cs"
    "ptrs_at v (pre @ [e]) (cs_compaction cs3)" using j1 s2(6) dr(3) by (simp_all add: cs3_def same_job_def)
  have run: "compaction_step ?E I w cs d input = (if ?ob then Some (OK, w2, cs3, d')
      else do { (s, w, cs) \<leftarrow> add_entry ?E w2 cs3 (fst e) (snd e) OK; Some (s, w, cs, d') })"
    unfolding compaction_step_def disk_env_simps I Let_def st prod.case cs1_def [symmetric] s2(1)
    by (simp add: status_ok_def s2(5,6) dr(1) cs3_def)
  show ?thesis
  proof (cases ?ob)
    case True
    then show ?thesis using run inv3 s2(3,7) j3 dr(2) n1 by (intro exI [of _ w2] exI [of _ cs3] exI [of _ d'] exI [of _ groups2] exI [of _ cur2]) simp
  next
    case False
    have "suffix (cur2 @ [e]) (cur @ [e])" using s2(4) by (auto simp: suffix_def)
    then have "table_fits sn opt (cur2 @ [e])" using fit by blast
    from Add_inv [OF inv3 _ this, of mfs imm] obtain w' cs' groups' cur' where
      a: "add_entry ?E w2 cs3 (fst e) (snd e) OK = Some (OK, w', cs')" "work_inv sn db opt n0 w' cs' groups' cur'"
      "concat groups' @ cur' = concat groups2 @ cur2 @ [e]" "cs_compaction cs' = cs_compaction cs3" "cs_smallest_snapshot cs' = cs_smallest_snapshot cs3"
      "next_number w' \<le> next_number w2 + 1" using room n1 s2(7) by auto
    have "concat groups' @ cur' = concat groups @ cur @ [e]" using a(3) s2(3) by (metis append_assoc)
    then show ?thesis using run False a j3 dr(2) n1 s2(7)
      by (intro exI [of _ w'] exI [of _ cs'] exI [of _ d'] exI [of _ groups'] exI [of _ cur']) simp
  qed
qed

section \<open>The whole loop\<close>

lemma compacted_sorted: "sorted_wrt P es \<Longrightarrow> sorted_wrt P (compacted ss base pre es)"
proof (induction es arbitrary: pre)
  case (Cons e es)
  then show ?case using compacted_subset [of ss base "pre @ [e]" es] by auto
qed simp

definition tables_fit :: "Snappy \<Rightarrow> Options \<Rightarrow> entry list \<Rightarrow> bool" where
  "tables_fit sn opt es \<longleftrightarrow> (\<forall>g. subseq g es \<and> g \<noteq> [] \<longrightarrow> table_fits sn opt g)"

lemma compacted_append: "compacted ss base pre (xs @ ys) = compacted ss base pre xs @ compacted ss base (pre @ xs) ys"
  by (induction xs arbitrary: pre) simp_all

lemma group_fits:
  assumes "tables_fit sn opt (pre @ e # es)" "concat groups @ cur = compacted ss base [] pre" "suffix g (cur @ [e]) \<or> suffix g cur" "g \<noteq> []"
  shows "table_fits sn opt g"
proof -
  have "subseq cur pre" using compacted_subseq [of ss base "[]" pre] assms(2) by (metis list_emb_append2 subseq_order.trans subseq_order.order_refl subseq_append')
  then have "subseq (cur @ [e]) (pre @ [e])" by simp
  then have "subseq (cur @ [e]) (pre @ e # es)" by (metis append.assoc append_Cons append_Nil list_emb_append_mono list_emb_Nil append_Nil2)
  moreover have "subseq g (cur @ [e])" using assms(3) by (metis list_emb_append2 subseq_order.order_refl suffix_imp_subseq suffix_order.trans subseq_order.trans prefix_def prefix_imp_subseq)
  ultimately show ?thesis using assms(1,4) unfolding tables_fit_def by (meson subseq_order.trans)
qed

lemma compaction_loop_outputs:
  assumes it: "iterator internal_compare valid I rep" and r: "rep input es i"
    and so: "sorted_wrt (\<lambda>a b. ek a < ek b) es" and pa: "parses es" and fit: "tables_fit sn opt es"
    and inv: "work_inv sn db opt n0 w cs groups cur" and imm: "imm_ok db k imm" and room: "next_number w + (length es - i) * (k + 1) < 2 ^ 64"
    and ss: "cs_smallest_snapshot cs < kMaxSequenceNumber" and d: "drop_at (take i es) d"
    and c: "cp_input_version (cs_compaction cs) = Some v" "version_ok v" "ptrs_at v (take i es) (cs_compaction cs)"
    and sofar: "concat groups @ cur = compacted (cs_smallest_snapshot cs) (base_key v (cp_level (cs_compaction cs))) [] (take i es)"
  shows "\<exists>w' cs' input' groups' cur'. compaction_loop (disk_env sn db opt mfs imm) I w cs d input = Some (OK, w', cs', input') \<and>
    work_inv sn db opt n0 w' cs' groups' cur' \<and> rep input' es (length es) \<and>
    concat groups' @ cur' = compacted (cs_smallest_snapshot cs) (base_key v (cp_level (cs_compaction cs))) [] es \<and>
    same_job (cs_compaction cs) (cs_compaction cs')"
  using r inv room ss d c(1,3) sofar
proof (induction "length es - i" arbitrary: input i w cs d groups cur)
  case 0
  then have i: "i = length es" using iterator.rep_range [OF it 0(2)] by simp
  then have "\<not> it_Valid I input" using iterator.rep_Valid [OF it 0(2)] by simp
  then have "compaction_loop (disk_env sn db opt mfs imm) I w cs d input = Some (OK, w, cs, input)" by (subst compaction_loop.simps) simp
  moreover have "same_job (cs_compaction cs) (cs_compaction cs)" by (simp add: same_job_def)
  ultimately show ?case using 0 i by (auto simp del: compacted.simps)
next
  case (Suc n)
  let ?E = "disk_env sn db opt mfs imm"
  have i: "i < length es" using Suc.hyps(2) by simp
  define e where "e = es ! i"
  have es: "es = take i es @ e # drop (Suc i) es" using i by (simp add: e_def id_take_nth_drop)
  have key: "it_key I input = fst e" "it_value I input = snd e" "it_status I input = OK"
    using iterator.rep_entry [OF it Suc.prems(1) i] iterator.rep_status [OF it Suc.prems(1)] by (auto simp: e_def dest: sym)
  have n: "next_number w + k + 1 + (length es - (i + 1)) * (k + 1) < 2 ^ 64"
  proof -
    have "(length es - i) * (k + 1) = (k + 1) + (length es - (i + 1)) * (k + 1)" using i by (metis Suc_diff_Suc Suc_eq_plus1 mult_Suc)
    then show ?thesis using Suc.prems(3) by simp
  qed
  then have rm: "next_number w + k + 1 < 2 ^ 64" by simp
  have fit': "tables_fit sn opt (take i es @ e # drop (Suc i) es)" by (subst es [symmetric]) (rule fit)
  have fits: "table_fits sn opt g" if "suffix g (cur @ [e]) \<or> suffix g cur" "g \<noteq> []" for g
    by (rule group_fits [OF fit' Suc.prems(8) that])
  have so': "sorted_wrt (\<lambda>a b. ek a < ek b) (take i es @ e # drop (Suc i) es)" "parses (take i es @ e # drop (Suc i) es)"
    by (subst es [symmetric], rule so, subst es [symmetric], rule pa)
  have tk: "take i es @ [e] = take (Suc i) es" using i by (simp add: e_def take_Suc_conv_app_nth)
  from step_inv [OF Suc.prems(2) imm rm key so' Suc.prems(4,5,6) c(2) Suc.prems(7) fits] obtain w' cs' d' groups' cur' where
    s: "compaction_step ?E I w cs d input = Some (OK, w', cs', d')" "work_inv sn db opt n0 w' cs' groups' cur'"
    "concat groups' @ cur' = concat groups @ cur @ (if obsolete (cs_smallest_snapshot cs) (base_key v (cp_level (cs_compaction cs))) (take i es) e then [] else [e])"
    "drop_at (take (Suc i) es) d'" "ptrs_at v (take (Suc i) es) (cs_compaction cs')" "same_job (cs_compaction cs) (cs_compaction cs')"
    "cs_smallest_snapshot cs' = cs_smallest_snapshot cs" "next_number w' \<le> next_number w + k + 1" unfolding tk by blast
  have j: "cp_input_version (cs_compaction cs') = Some v" "cp_level (cs_compaction cs') = cp_level (cs_compaction cs)"
    using s(6) Suc.prems(6) by (simp_all add: same_job_def)
  have "compacted (cs_smallest_snapshot cs) (base_key v (cp_level (cs_compaction cs))) [] (take (Suc i) es) = concat groups' @ cur'"
    unfolding tk [symmetric] compacted_append s(3) append_assoc [symmetric] Suc.prems(8) by simp
  then have dn: "concat groups' @ cur' = compacted (cs_smallest_snapshot cs') (base_key v (cp_level (cs_compaction cs'))) [] (take (Suc i) es)"
    by (simp add: j(2) s(7))
  have "n = length es - Suc i" using Suc.hyps(2) by simp
  note IH = Suc.hyps(1) [OF this, of "it_Next I input" w' cs' groups' cur' d']
  have "rep (it_Next I input) es (Suc i)" using iterator.rep_Next [OF it Suc.prems(1) i] by simp
  moreover have "next_number w' + (length es - Suc i) * (k + 1) < 2 ^ 64" using n s(8) by simp
  moreover have "compaction_loop ?E I w cs d input = compaction_loop ?E I w' cs' d' (it_Next I input)"
    using iterator.rep_Valid [OF it Suc.prems(1)] i s(1) by (subst compaction_loop.simps) (simp add: status_ok_def)
  moreover have "same_job (cs_compaction cs) c'" if "same_job (cs_compaction cs') c'" for c' using that s(6) by (simp add: same_job_def)
  ultimately show ?case using IH s(2,4,5,7) Suc.prems(4) j dn by fastforce
qed

lemma DoCompactionWork_outputs:
  assumes it: "iterator internal_compare valid I rep" and r: "rep input es i" and pa: "parses es" and fit: "tables_fit sn opt es"
    and imm: "imm_ok db k imm" and room: "next_number w + length es * (k + 1) < 2 ^ 64" and pos: "0 < next_number w"
    and c: "cp_input_version c = Some v" "version_ok v" "cp_level_ptrs c = replicate kNumLevels 0"
    and files: "NumLevelFiles (dw_versions w) (cp_level c) \<noteq> 0"
    and ss: "ss = (case oldest of None \<Rightarrow> vs_last_sequence (dw_versions w) | Some q \<Rightarrow> q)" "ss < kMaxSequenceNumber"
  shows "\<exists>w1 cs1 groups. DoCompactionWork (disk_env sn db opt mfs imm) log_and_apply oldest I input w (CompactionState_new c) =
      Some (let (s, w, cs) = InstallCompactionResults log_and_apply w1 cs1 in (s, if status_ok s then w else RecordBackgroundError w s, cs)) \<and>
    list_all2 (finished sn db opt (dw_world w1)) (cs_outputs cs1) groups \<and> concat groups = compacted ss (base_key v (cp_level c)) [] es \<and>
    numbers_ok (next_number w) w1 (cs_outputs cs1) \<and> same_job c (cs_compaction cs1)"
proof -
  let ?E = "disk_env sn db opt mfs imm"
  define cs where "cs = (CompactionState_new c :: bytes CompactionState) \<lparr> cs_smallest_snapshot := ss \<rparr>"
  have so: "sorted_wrt (\<lambda>a b. ek a < ek b) es" using iterator.rep_sorted [OF it r] by (simp add: internal_less)
  have f: "rep (it_SeekToFirst I input) es 0" using iterator.rep_SeekToFirst [OF it r] .
  have cs: "cs_compaction cs = c" "cs_smallest_snapshot cs = ss" by (simp_all add: cs_def CompactionState_new_def)
  have inv: "work_inv sn db opt (next_number w) w cs [] []" using pos by (simp add: cs_def CompactionState_new_def work_inv_def building_def numbers_ok_def)
  have pt: "ptrs_at v (take 0 es) (cs_compaction cs)" by (simp add: cs ptrs_at_def ptrs_ok_def c(3))
  have rm: "next_number w + (length es - 0) * (k + 1) < 2 ^ 64" using room by simp
  have dr: "drop_at (take 0 es) DropState_new" by (simp add: drop_at_def DropState_new_def)
  have nil: "concat [] @ [] = compacted (cs_smallest_snapshot cs) (base_key v (cp_level (cs_compaction cs))) [] (take 0 es)" by simp
  from compaction_loop_outputs [OF it f so pa fit inv imm rm _ dr _ c(2) pt nil, of mfs] obtain w' cs' input' groups cur where
    l: "compaction_loop ?E I w cs DropState_new (it_SeekToFirst I input) = Some (OK, w', cs', input')"
    "work_inv sn db opt (next_number w) w' cs' groups cur" "rep input' es (length es)"
    "concat groups @ cur = compacted ss (base_key v (cp_level c)) [] es" "same_job c (cs_compaction cs')"
    unfolding cs using ss(2) c(1) by blast
  have st: "it_status I input' = OK" using iterator.rep_status [OF it l(3)] .
  have "table_fits sn opt cur" if "cur \<noteq> []"
  proof -
    have "suffix cur (compacted ss (base_key v (cp_level c)) [] es)" using l(4) by (metis suffixI)
    then have "subseq cur es" using compacted_subseq by (meson subseq_order.trans suffix_imp_subseq)
    then show ?thesis using fit that by (simp add: tables_fit_def)
  qed
  from stop_part [OF l(2) this, of True mfs imm] obtain w1 cs1 groups1 cur1 where
    p: "(if cs_builder cs' \<noteq> None then FinishCompactionOutputFile ?E w' cs' OK else Some (OK, w', cs')) = Some (OK, w1, cs1)"
    "work_inv sn db opt (next_number w) w1 cs1 groups1 cur1" "concat groups1 @ cur1 = concat groups @ cur" "cs_compaction cs1 = cs_compaction cs'"
    by auto
  have "cs_builder cs1 = None"
  proof (cases "cs_builder cs'")
    case None
    then show ?thesis using p(1) by simp
  next
    case (Some b)
    then show ?thesis using p(1) by (auto simp: FinishCompactionOutputFile_def Let_def set_current_output_def split: prod.splits if_splits)
  qed
  then have cur1: "cur1 = []" using p(2) by (auto simp: work_inv_def building_def split: if_splits)
  have run: "DoCompactionWork ?E log_and_apply oldest I input w (CompactionState_new c) =
      Some (let (s, w, cs) = InstallCompactionResults log_and_apply w1 cs1 in (s, if status_ok s then w else RecordBackgroundError w s, cs))"
  proof -
    have n: "\<not> (NumLevelFiles (dw_versions w) (cp_level (cs_compaction (CompactionState_new c :: bytes CompactionState))) = 0 \<or> cs_builder (CompactionState_new c :: bytes CompactionState) \<noteq> None)"
      using files by (simp add: CompactionState_new_def)
    have lp: "compaction_loop ?E I w ((CompactionState_new c) \<lparr> cs_smallest_snapshot := ss \<rparr>) DropState_new (it_SeekToFirst I input) = Some (OK, w', cs', input')"
      using l(1) by (simp add: cs_def)
    note d = DoCompactionWork_def [of ?E log_and_apply oldest I input w "CompactionState_new c", unfolded if_not_P [OF n] ss(1) [symmetric] Let_def lp]
    show ?thesis
    proof (cases "cs_builder cs'")
      case None
      then have "w1 = w'" "cs1 = cs'" using p(1) by simp_all
      then show ?thesis unfolding d by (simp add: None status_ok_def st split: prod.split)
    next
      case (Some b)
      then have "FinishCompactionOutputFile ?E w' cs' OK = Some (OK, w1, cs1)" using p(1) by simp
      then show ?thesis unfolding d by (simp add: Some status_ok_def st split: prod.split)
    qed
  qed
  obtain fin opn where "cs_outputs cs1 = fin @ opn" "list_all2 (finished sn db opt (dw_world w1)) fin groups1" "opn = []" "numbers_ok (next_number w) w1 (cs_outputs cs1)"
    using p(2) cur1 by (auto simp: work_inv_def building_def)
  then show ?thesis using run p(3,4) l(4,5) cur1 by (intro exI [of _ w1] exI [of _ cs1] exI [of _ groups1]) simp
qed

section \<open>The edit of a compaction\<close>

definition out_file :: "Output \<Rightarrow> FileMetaData" where
  "out_file out = FileMetaData_of (out_number out) (out_file_size out) (out_smallest out) (out_largest out)"

lemma set_set_insert [simp]: "set (set_insert x xs) = insert x (set xs)"
  by (induction xs) auto

lemma RemoveFiles_edit:
  "set (ve_deleted_files (foldl (\<lambda>edit f. RemoveFile edit l (fm_number f)) e fs)) = set (ve_deleted_files e) \<union> (\<lambda>f. (l, fm_number f)) ` set fs"
  "ve_new_files (foldl (\<lambda>edit f. RemoveFile edit l (fm_number f)) e fs) = ve_new_files e"
  by (induction fs arbitrary: e) (simp_all add: RemoveFile_def)

lemma AddFiles_edit:
  "ve_deleted_files (foldl (\<lambda>edit out. AddFile edit l (out_number out) (out_file_size out) (out_smallest out) (out_largest out)) e outs) = ve_deleted_files e"
  "ve_new_files (foldl (\<lambda>edit out. AddFile edit l (out_number out) (out_file_size out) (out_smallest out) (out_largest out)) e outs) =
    ve_new_files e @ map (\<lambda>out. (l, out_file out)) outs"
  by (induction outs arbitrary: e) (simp_all add: AddFile_def out_file_def)

lemma compaction_edit_files:
  assumes "ve_deleted_files (cp_edit (cs_compaction cs)) = []" "ve_new_files (cp_edit (cs_compaction cs)) = []"
  shows "set (ve_deleted_files (compaction_edit cs)) = (\<lambda>f. (cp_level (cs_compaction cs), fm_number f)) ` set (cp_inputs0 (cs_compaction cs)) \<union>
      (\<lambda>f. (cp_level (cs_compaction cs) + 1, fm_number f)) ` set (cp_inputs1 (cs_compaction cs))"
    "ve_new_files (compaction_edit cs) = map (\<lambda>out. (cp_level (cs_compaction cs) + 1, out_file out)) (cs_outputs cs)"
  using assms by (simp_all add: compaction_edit_def Let_def AddFiles_edit AddInputDeletions_def RemoveFiles_edit)

text \<open>The sets of files after the edit.\<close>

lemma edit_level_rest:
  assumes "set (ve_deleted_files edit) = (\<lambda>f. (level, fm_number f)) ` set in0 \<union> (\<lambda>f. (level + 1, fm_number f)) ` set in1"
    and "ve_new_files edit = map (\<lambda>out. (level + 1, out_file out)) outs"
    and "set in0 \<subseteq> set (v_files v ! level)" "set in1 \<subseteq> set (v_files v ! (level + 1))" "inj_on fm_number (set (v_files v ! l))"
  shows "edit_level l (set (v_files v ! l)) edit = rest v level in0 in1 l \<union> (if l = level + 1 then (\<lambda>out. adopted (out_file out)) ` set outs else {})"
proof -
  have "(l, fm_number f) \<in> set (ve_deleted_files edit) \<longleftrightarrow> f \<in> (if l = level then set in0 else if l = level + 1 then set in1 else {})"
    if f: "f \<in> set (v_files v ! l)" for f
  proof -
    have "fm_number f \<in> fm_number ` A \<longleftrightarrow> f \<in> A" if "A \<subseteq> set (v_files v ! l)" for A
      using inj_on_image_mem_iff [OF assms(5) f that] .
    then show ?thesis using assms(3,4) unfolding assms(1) by (auto simp: image_iff)
  qed
  moreover have "{adopted f |f. (l, f) \<in> set (ve_new_files edit)} = (if l = level + 1 then (\<lambda>out. adopted (out_file out)) ` set outs else {})"
    by (auto simp: assms(2))
  ultimately show ?thesis unfolding edit_level_def rest_def by auto
qed

section \<open>The outputs as files of a version\<close>

definition new_contents :: "(u64 \<Rightarrow> entry list) \<Rightarrow> Output list \<Rightarrow> entry list list \<Rightarrow> FileMetaData \<Rightarrow> entry list" where
  "new_contents cn outs groups f = (case map_of (zip (map out_number outs) groups) (fm_number f) of Some g \<Rightarrow> g | None \<Rightarrow> cn (fm_number f))"

abbreviation new_file :: "Output \<Rightarrow> FileMetaData" where "new_file out \<equiv> adopted (out_file out)"

lemma new_file_simps: "fm_number (new_file out) = out_number out" "fm_skey (new_file out) = InternalKey_Encode (out_smallest out)"
  "fm_lkey (new_file out) = InternalKey_Encode (out_largest out)" "fm_file_size (new_file out) = out_file_size out"
  by (simp_all add: out_file_def FileMetaData_of_def fm_skey_def fm_lkey_def)

lemma new_contents_out:
  assumes "list_all2 P outs groups" "distinct (map out_number outs)" "i < length outs" "fm_number f = out_number (outs ! i)"
  shows "new_contents cn outs groups f = groups ! i"
proof -
  have "length outs = length groups" using assms(1) by (rule list_all2_lengthD)
  then have "map_of (zip (map out_number outs) groups) (out_number (outs ! i)) = Some (groups ! i)"
    using assms(2,3) map_of_zip_nth [of "map out_number outs" groups i] by simp
  then show ?thesis using assms(4) by (simp add: new_contents_def)
qed

lemma new_contents_old:
  assumes "list_all2 P outs groups" "fm_number f \<notin> out_number ` set outs"
  shows "new_contents cn outs groups f = cn (fm_number f)"
proof -
  have "length outs = length groups" using assms(1) by (rule list_all2_lengthD)
  then have "map_of (zip (map out_number outs) groups) (fm_number f) = None" using assms(2) by (simp add: map_of_zip_is_None)
  then show ?thesis by (simp add: new_contents_def)
qed

lemma group_sorted:
  assumes "sorted_wrt (\<lambda>a b. ek a < ek b) (concat groups)" "i < length groups"
  shows "sorted_wrt (\<lambda>a b. ek a < ek b) (groups ! i)" "j < i \<Longrightarrow> a \<in> set (groups ! j) \<Longrightarrow> b \<in> set (groups ! i) \<Longrightarrow> ek a < ek b"
proof -
  have sp: "groups = take i groups @ groups ! i # drop (Suc i) groups" using assms(2) by (rule id_take_nth_drop)
  then have "concat groups = concat (take i groups) @ groups ! i @ concat (drop (Suc i) groups)" by (metis concat.simps(2) concat_append)
  then have s: "sorted_wrt (\<lambda>a b. ek a < ek b) (concat (take i groups) @ groups ! i @ concat (drop (Suc i) groups))" using assms(1) by metis
  then show "sorted_wrt (\<lambda>a b. ek a < ek b) (groups ! i)" by (simp add: sorted_wrt_append)
  assume "j < i" "a \<in> set (groups ! j)" "b \<in> set (groups ! i)"
  moreover have "groups ! j \<in> set (take i groups)" using \<open>j < i\<close> assms(2) by (auto simp: in_set_conv_nth intro!: exI [of _ j])
  ultimately have "a \<in> set (concat (take i groups))" by auto
  moreover have "b \<in> set (groups ! i @ concat (drop (Suc i) groups))" using \<open>b \<in> set (groups ! i)\<close> by simp
  ultimately show "ek a < ek b" using s unfolding sorted_wrt_append [of _ "concat (take i groups)"] by blast
qed

lemma out_file_has:
  assumes "finished sn db opt w out g" "sorted_wrt (\<lambda>a b. ek a < ek b) g" "\<forall>e\<in>set g. ParseInternalKey (fst e) \<noteq> None"
  shows "file_has (new_file out) g" "file_has (file_ref (new_file out)) g"
proof -
  have "8 \<le> length (fst e)" if "e \<in> set g" for e using assms(3) that by (fastforce simp: ParseInternalKey_def Let_def split: if_splits)
  then have "entries_sorted internal_compare is_ikey g" using assms(2) by (simp add: entries_sorted_def internal_less)
  moreover have "g \<noteq> []" "fm_skey (new_file out) = fst (hd g)" "fm_lkey (new_file out) = fst (last g)"
    using assms(1) by (simp_all add: finished_def new_file_simps InternalKey_Encode_def)
  ultimately show h: "file_has (new_file out) g" using assms(3) by (simp add: file_has_def)
  then show "file_has (file_ref (new_file out)) g" by (simp add: file_has_def file_ref_def fm_skey_def fm_lkey_def)
qed

text \<open>The state of a database in which a compaction of \<open>v\<close> starts: files have distinct numbers, below the next one.\<close>

definition numbered :: "Version \<Rightarrow> nat \<Rightarrow> bool" where
  "numbered v n \<longleftrightarrow> fkey_sorted (v_files v ! 0) \<and>
     (\<forall>l<kNumLevels. inj_on fm_number (set (v_files v ! l)) \<and> (\<forall>f\<in>set (v_files v ! l). unat (fm_number f) < n))"

lemma level_sorted_fkey: "level_sorted fs \<Longrightarrow> fkey_sorted fs"
proof -
  assume a: "level_sorted fs"
  then have "sorted_wrt (\<lambda>f g. lk f < sk g) fs" "\<forall>f\<in>set fs. sk f \<le> lk f" by (simp_all add: level_sorted_def list_all_iff)
  then have "sorted_wrt (\<lambda>f g. sk f < sk g) fs" by (elim sorted_wrt_mono_rel [rotated]) (meson order.strict_trans1)
  then show ?thesis by (rule sorted_wrt_mono_rel [rotated]) (simp add: fkey_def less_prod_def)
qed

lemma fkey_sorted_distinct: "fkey_sorted fs \<Longrightarrow> distinct fs"
  by (induction fs) auto

text \<open>The outputs of a compaction lie apart from each other and from the files that stay in their level.\<close>

lemma outputs_apart:
  assumes ok: "lsm_ok contents v" and cl: "inputs_closed v level in0 in1" and lv: "level + 1 < kNumLevels"
    and fin: "list_all2 (finished sn db opt w) outs groups" and so: "sorted_wrt (\<lambda>a b. ek a < ek b) (concat groups)"
    and sub: "set (concat groups) \<subseteq> input_entries contents in0 in1" "\<forall>e\<in>set (concat groups). ParseInternalKey (fst e) \<noteq> None"
    and S: "S = rest v level in0 in1 (level + 1) \<union> new_file ` set outs"
  shows "\<forall>f\<in>S. sk f \<le> lk f \<and> (\<forall>g\<in>S. f = g \<or> lk f < sk g \<or> lk g < sk f)"
proof -
  let ?next = "v_files v ! (level + 1)"
  have ls: "level_sorted ?next" using ok lv by (auto simp: lsm_ok_def)
  have len: "length outs = length groups" using fin by (rule list_all2_lengthD)
  have out: "file_has (new_file (outs ! i)) (groups ! i)" "set (groups ! i) \<subseteq> set (concat groups)" "groups ! i \<noteq> []" if "i < length outs" for i
  proof -
    have f: "finished sn db opt w (outs ! i) (groups ! i)" using fin that by (simp add: list_all2_nthD)
    have "groups ! i \<in> set groups" using that len by simp
    then show sb: "set (groups ! i) \<subseteq> set (concat groups)" unfolding set_concat by (rule UN_upper)
    show "groups ! i \<noteq> []" using f by (simp add: finished_def)
    show "file_has (new_file (outs ! i)) (groups ! i)" using f sb sub(2) group_sorted(1) [OF so, of i] that len by (intro out_file_has) auto
  qed
  have ends: "\<exists>a b. a \<in> set (groups ! i) \<and> b \<in> set (groups ! i) \<and> ek a = sk (new_file (outs ! i)) \<and> ek b = lk (new_file (outs ! i)) \<and> ek a \<le> ek b"
    if "i < length outs" for i
  proof -
    have h: "fst (hd (groups ! i)) = fm_skey (new_file (outs ! i))" "fst (last (groups ! i)) = fm_lkey (new_file (outs ! i))"
      using out(1) [OF that] by (simp_all add: file_has_def)
    have "hd (groups ! i) \<in> set (groups ! i)" "last (groups ! i) \<in> set (groups ! i)" using out(3) [OF that] by simp_all
    moreover have "ek (hd (groups ! i)) \<le> ek (last (groups ! i))"
      using file_has_range(2) [OF out(1) [OF that] \<open>hd (groups ! i) \<in> set (groups ! i)\<close>] h(2) by simp
    ultimately show ?thesis using h by (intro exI [of _ "hd (groups ! i)"] exI [of _ "last (groups ! i)"]) simp
  qed
  have inp: "\<exists>g\<in>set in0 \<union> set in1. sk g \<le> ek e \<and> ek e \<le> lk g" if e: "e \<in> input_entries contents in0 in1" for e
  proof -
    obtain g where g: "g \<in> set in0 \<union> set in1" "e \<in> set (contents g)" using e unfolding input_entries_def by blast
    have "g \<in> set (v_files v ! level) \<or> g \<in> set ?next" using g(1) cl unfolding inputs_closed_def by blast
    then have "file_has g (contents g)" using lsm_file [OF ok] lv by (metis add_lessD1)
    then show ?thesis using file_has_range g by blast
  qed
  have pair: "lk f < sk (new_file (outs ! i)) \<or> lk (new_file (outs ! i)) < sk f" if i: "i < length outs" and f: "f \<in> rest v level in0 in1 (level + 1)" for i f
  proof -
    obtain a b where ab: "a \<in> set (groups ! i)" "b \<in> set (groups ! i)" "ek a = sk (new_file (outs ! i))" "ek b = lk (new_file (outs ! i))"
      using ends [OF i] by blast
    obtain g g' where g: "g \<in> set in0 \<union> set in1" "sk g \<le> ek a" "g' \<in> set in0 \<union> set in1" "ek b \<le> lk g'"
      using inp ab(1,2) out(2) [OF i] sub(1) by (meson subsetD)
    have "f \<in> set ?next - set in1" using f by (simp add: rest_def)
    then consider "\<forall>g\<in>set in0 \<union> set in1. lk f < sk g" | "\<forall>g\<in>set in0 \<union> set in1. lk g < sk f" using cl unfolding inputs_closed_def by blast
    then show ?thesis
    proof cases
      case 1
      then show ?thesis using g(1,2) ab(3) by (metis order.strict_trans2)
    next
      case 2
      then show ?thesis using g(3,4) ab(4) by (metis order.strict_trans1)
    qed
  qed
  have outs2: "new_file (outs ! i) = new_file (outs ! j) \<or> lk (new_file (outs ! i)) < sk (new_file (outs ! j)) \<or> lk (new_file (outs ! j)) < sk (new_file (outs ! i))"
    if "i < length outs" "j < length outs" for i j
  proof -
    have "lk (new_file (outs ! i)) < sk (new_file (outs ! j))" if ij: "i < j" "j < length outs" for i j
    proof -
      have i: "i < length outs" using ij by simp
      obtain b where b: "b \<in> set (groups ! i)" "ek b = lk (new_file (outs ! i))" using ends [OF i] by blast
      obtain a where a: "a \<in> set (groups ! j)" "ek a = sk (new_file (outs ! j))" using ends [OF ij(2)] by blast
      show ?thesis using group_sorted(2) [OF so, of j i b a] ij len a b by simp
    qed
    then show ?thesis using that by (metis linorder_neqE_nat)
  qed
  have idx: "\<exists>i<length outs. f = new_file (outs ! i)" if "f \<in> new_file ` set outs" for f using that by (auto simp: in_set_conv_nth)
  have one: "sk f \<le> lk f" if "f \<in> S" for f
    using that idx ends level_sorted_files(1) [OF ls] unfolding S rest_def by (metis (no_types, lifting) DiffD1 UnE)
  have old: "f = g \<or> lk f < sk g \<or> lk g < sk f" if "f \<in> rest v level in0 in1 (level + 1)" "g \<in> rest v level in0 in1 (level + 1)" for f g
    using level_sorted_files(2) [OF ls, of f g] that unfolding rest_def by blast
  have "f = g \<or> lk f < sk g \<or> lk g < sk f" if "f \<in> S" "g \<in> S" for f g
    using that unfolding S by (elim UnE) (use old pair outs2 idx in \<open>metis+\<close>)
  with one show ?thesis by blast
qed

lemma compaction_installed:
  assumes ok: "lsm_ok (\<lambda>f. cn (fm_number f)) v" and cl: "inputs_closed v level in0 in1" and lv: "level + 1 < kNumLevels" and nu: "numbered v n0"
    and fin: "list_all2 (finished sn db opt w) outs groups" and so: "sorted_wrt (\<lambda>a b. ek a < ek b) (concat groups)"
    and sub: "set (concat groups) \<subseteq> input_entries (\<lambda>f. cn (fm_number f)) in0 in1"
    and num: "distinct (map out_number outs)" "\<forall>out\<in>set outs. n0 \<le> unat (out_number out)"
    and edit: "set (ve_deleted_files edit) = (\<lambda>f. (level, fm_number f)) ` set in0 \<union> (\<lambda>f. (level + 1, fm_number f)) ` set in1"
      "ve_new_files edit = map (\<lambda>out. (level + 1, out_file out)) outs"
  shows "\<exists>v'. Builder_SaveTo BytewiseComparator (Builder_Apply BytewiseComparator (Builder_new ps v) edit) = Some v' \<and>
    installed (new_contents cn outs groups) file_ref v level in0 in1 ((\<lambda>out. file_ref (new_file out)) ` set outs) v'"
proof -
  let ?c = "\<lambda>f. cn (fm_number f)"
  have i0: "set in0 \<subseteq> set (v_files v ! level)" and i1: "set in1 \<subseteq> set (v_files v ! (level + 1))" using cl by (auto simp: inputs_closed_def)
  have inj: "inj_on fm_number (set (v_files v ! l))" "\<forall>f\<in>set (v_files v ! l). unat (fm_number f) < n0" if "l < kNumLevels" for l
    using nu that by (auto simp: numbered_def)
  have S: "edit_level l (set (v_files v ! l)) edit = rest v level in0 in1 l \<union> (if l = level + 1 then new_file ` set outs else {})" if "l < kNumLevels" for l
    using edit_level_rest [OF edit i0 i1 inj(1) [OF that]] .
  have parse: "\<forall>e\<in>set (concat groups). ParseInternalKey (fst e) \<noteq> None"
  proof
    fix e assume "e \<in> set (concat groups)"
    then obtain g where g: "g \<in> set in0 \<union> set in1" "e \<in> set (cn (fm_number g))" using sub unfolding input_entries_def by blast
    have "g \<in> set (v_files v ! level) \<or> g \<in> set (v_files v ! (level + 1))" using g(1) i0 i1 by blast
    then have "file_has g (cn (fm_number g))" using lsm_file [OF ok] lv by (metis add_lessD1)
    then show "ParseInternalKey (fst e) \<noteq> None" using g(2) by (simp add: file_has_def)
  qed
  have lvs: "level_sorted (v_files v ! l)" if "0 < l" "l < kNumLevels" for l using ok that by (simp add: lsm_ok_def)
  have fk: "\<forall>l<kNumLevels. fkey_sorted (v_files v ! l)" using nu lvs level_sorted_fkey unfolding numbered_def by (metis gr0I)
  have new: "fm_number (out_file out) \<notin> fm_number ` set (v_files v ! l)" if "out \<in> set outs" "l < kNumLevels" for out l
    using num(2) inj(2) [OF that(2)] that(1) by (force simp: out_file_def FileMetaData_of_def)
  have fresh: "fresh_edits (\<lambda>l. fm_number ` set (v_files v ! l)) [edit]"
  proof -
    have "distinct (map (\<lambda>p. (fst p, fm_number (snd p))) (ve_new_files edit))"
      using num(1) by (simp add: edit(2) comp_def out_file_def FileMetaData_of_def distinct_map inj_on_def)
    moreover have "\<forall>p\<in>set (ve_deleted_files edit). fst p < kNumLevels" using edit(1) lv by auto
    moreover have "\<forall>p\<in>set (ve_new_files edit). fst p < kNumLevels \<and> fm_number (snd p) \<notin> fm_number ` set (v_files v ! fst p)"
      using edit(2) lv new by auto
    ultimately show ?thesis by simp
  qed
  have apart: "\<forall>l. 0 < l \<and> l < kNumLevels \<longrightarrow> (\<forall>f\<in>foldl (edit_level l) (set (v_files v ! l)) [edit]. sk f \<le> lk f \<and>
      (\<forall>g\<in>foldl (edit_level l) (set (v_files v ! l)) [edit]. f = g \<or> lk f < sk g \<or> lk g < sk f))"
  proof (intro allI impI)
    fix l assume l: "0 < l \<and> l < kNumLevels"
    have e: "foldl (edit_level l) (set (v_files v ! l)) [edit] = rest v level in0 in1 l \<union> (if l = level + 1 then new_file ` set outs else {})" using S l by simp
    show "\<forall>f\<in>foldl (edit_level l) (set (v_files v ! l)) [edit]. sk f \<le> lk f \<and> (\<forall>g\<in>foldl (edit_level l) (set (v_files v ! l)) [edit]. f = g \<or> lk f < sk g \<or> lk g < sk f)"
    proof (cases "l = level + 1")
      case True
      show ?thesis unfolding e using outputs_apart [OF ok cl lv fin so sub parse refl] True by simp
    next
      case False
      then have "foldl (edit_level l) (set (v_files v ! l)) [edit] \<subseteq> set (v_files v ! l)" unfolding e by (auto simp: rest_def)
      then show ?thesis using level_sorted_files [OF lvs] l by blast
    qed
  qed
  from Builder_result [OF fk fresh apart, of ps] obtain v' where
    v': "Builder_SaveTo BytewiseComparator (Builder_Apply BytewiseComparator (Builder_new ps v) edit) = Some v'"
    "\<And>l. l < kNumLevels \<Longrightarrow> set (v_files v' ! l) = file_ref ` edit_level l (set (v_files v ! l)) edit"
    "\<And>l. l < kNumLevels \<Longrightarrow> fkey_sorted (v_files v' ! l)" "\<And>l. l < kNumLevels \<Longrightarrow> 0 < l \<Longrightarrow> level_sorted (v_files v' ! l)" by auto
  have lev: "set (v_files v' ! l) = file_ref ` rest v level in0 in1 l \<union> (if l = level + 1 then (\<lambda>out. file_ref (new_file out)) ` set outs else {})"
    if "l < kNumLevels" for l using v'(2) [OF that] S [OF that] by (auto simp: image_Un image_image)
  have len: "length outs = length groups" using fin by (rule list_all2_lengthD)
  have outs: "file_has f (new_contents cn outs groups f) \<and> set (new_contents cn outs groups f) \<subseteq> input_entries (new_contents cn outs groups) in0 in1"
    if f: "f \<in> (\<lambda>out. file_ref (new_file out)) ` set outs" for f
  proof -
    obtain i where i: "i < length outs" "f = file_ref (new_file (outs ! i))" using f by (auto simp: in_set_conv_nth)
    have c: "new_contents cn outs groups f = groups ! i" using new_contents_out [OF fin num(1) i(1), of f] i(2) by (simp add: out_file_def FileMetaData_of_def)
    have fi: "finished sn db opt w (outs ! i) (groups ! i)" using fin i(1) by (simp add: list_all2_nthD)
    have "groups ! i \<in> set groups" using i(1) len by simp
    then have gs: "set (groups ! i) \<subseteq> set (concat groups)" unfolding set_concat by (rule UN_upper)
    have "file_has f (groups ! i)" unfolding i(2) using gs parse group_sorted(1) [OF so, of i] i(1) len by (intro out_file_has(2) [OF fi]) auto
    moreover have "input_entries (new_contents cn outs groups) in0 in1 = input_entries ?c in0 in1"
    proof -
      have "fm_number g \<notin> out_number ` set outs" if "g \<in> set in0 \<union> set in1" for g
      proof -
        have "unat (fm_number g) < n0" using that i0 i1 inj(2) [of level] inj(2) [of "level + 1"] lv by auto
        then show ?thesis using num(2) by force
      qed
      then show ?thesis unfolding input_entries_def using new_contents_old [OF fin] by simp
    qed
    ultimately show ?thesis using c gs sub by simp
  qed
  have "distinct (map fm_number (v_files v' ! 0))"
  proof -
    have z: "0 < kNumLevels" using lv by simp
    have "distinct (v_files v' ! 0)" using fkey_sorted_distinct [OF v'(3) [OF z]] .
    moreover have "inj_on fm_number (set (v_files v' ! 0))" using lev [OF z] inj(1) [OF z] by (auto simp: rest_def inj_on_def)
    ultimately show ?thesis by (simp add: distinct_map)
  qed
  moreover have "same_file (new_contents cn outs groups) file_ref" by (simp add: same_file_def new_contents_def fm_skey_def fm_lkey_def split: option.split) (simp add: file_ref_def)
  ultimately show ?thesis using v'(1,4) lev outs unfolding installed_def by blast
qed

lemma lsm_version_ok:
  assumes "lsm_ok contents v"
  shows "version_ok v"
proof -
  have "sk f \<le> lk f" if "f \<in> set (v_files v ! 0)" for f
  proof -
    have "file_has f (contents f)" using lsm_file [OF assms _ that] by (simp add: kNumLevels_def)
    moreover have "hd (contents f) \<in> set (contents f)" using calculation by (simp add: file_has_def)
    ultimately show ?thesis using file_has_range [of f "contents f" "hd (contents f)"] by (meson order.trans)
  qed
  then show ?thesis using assms by (auto simp: version_ok_def level_ok_at_def files_ok_def list_all_iff lsm_ok_def)
qed

lemma out_stored:
  assumes "finished sn db opt w out g" "file_has (file_ref (new_file out)) g"
  shows "stored_as (disk_tables sn db opt w) (file_ref (new_file out)) g"
proof -
  have f: "table_fits sn opt g" "w (TableFileName db (out_number out)) = Some (table_of sn opt g)"
    "out_file_size out = word_of_nat (length (table_of sn opt g))" using assms(1) by (simp_all add: finished_def)
  have n: "fm_number (file_ref (new_file out)) = out_number out" "fm_file_size (file_ref (new_file out)) = out_file_size out"
    by (simp_all add: out_file_def FileMetaData_of_def) (simp add: file_ref_def)
  have d: "te_snappy (disk_tables sn db opt w) = sn" "te_options (disk_tables sn db opt w) = opt" "te_dbname (disk_tables sn db opt w) = db"
    "te_NewRandomAccessFile (disk_tables sn db opt w) (TableFileName db (out_number out)) = (OK, Some (PosixMmapReadableFile OK (table_of sn opt g)))"
    using f(2) by (simp_all add: disk_tables_def)
  show ?thesis unfolding stored_as_def Let_def d(1-3) n table_of_def [symmetric]
    using assms(2) f d(4) mmap_file.random_file_axioms [of OK "table_of sn opt g"] unfolding table_fits_def by blast
qed

lemma compaction_runs:
  assumes "PickCompaction BytewiseComparator mfs vs = Some (dw_versions w, Some c)" "pick_ok vs"
    and "lsm_ok (\<lambda>f. cn (fm_number f)) (vs_current vs)" "numbered (vs_current vs) (next_number w)"
    and "iterator internal_compare valid I rep" "rep input es i" "set es = input_entries (\<lambda>f. cn (fm_number f)) (cp_inputs0 c) (cp_inputs1 c)"
    and "tables_fit sn opt es" "imm_ok db k imm" "0 < next_number w" "next_number w + length es * (k + 1) < 2 ^ 64"
    and "ss = (case oldest of None \<Rightarrow> vs_last_sequence (dw_versions w) | Some q \<Rightarrow> q)" "ss < kMaxSequenceNumber"
  shows "\<exists>w' cs' v' contents. DoCompactionWork (disk_env sn db opt mfs imm) (\<lambda>edit w. (OK, w)) oldest I input w (CompactionState_new c) = Some (OK, w', cs') \<and>
    Builder_SaveTo BytewiseComparator (Builder_Apply BytewiseComparator (Builder_new ps (vs_current vs)) (cp_edit (cs_compaction cs'))) = Some v' \<and>
    lsm_ok contents v' \<and>
    (\<forall>f\<in>(\<lambda>out. file_ref (new_file out)) ` set (cs_outputs cs'). stored_as (disk_tables sn db opt (dw_world w')) f (contents f)) \<and>
    version_entries contents v' = rest_entries (\<lambda>f. cn (fm_number f)) (vs_current vs) (cp_level c) (cp_inputs0 c) (cp_inputs1 c) \<union>
      set (compacted ss (base_key (vs_current vs) (cp_level c)) [] es) \<and>
    sorted_wrt (\<lambda>a b. ek a < ek b) es \<and> cp_level c + 1 < kNumLevels \<and> inputs_closed (vs_current vs) (cp_level c) (cp_inputs0 c) (cp_inputs1 c)"
proof -
  let ?v = "vs_current vs" and ?c = "\<lambda>f. cn (fm_number f)" and ?l = "cp_level c" and ?i0 = "cp_inputs0 c" and ?i1 = "cp_inputs1 c"
  have vok: "version_ok ?v" using lsm_version_ok [OF assms(3)] .
  have c: "cp_input_version c = Some ?v" "cp_level_ptrs c = replicate kNumLevels 0" "?l + 1 < kNumLevels" "inputs_closed ?v ?l ?i0 ?i1"
    "vs_current (dw_versions w) = ?v" "ve_deleted_files (cp_edit c) = []" "ve_new_files (cp_edit c) = []"
    using PickCompaction_inputs [OF vok assms(2), of mfs] assms(1) by (auto simp: SetCompactPointer_def VersionEdit_new_def)
  have nf: "NumLevelFiles (dw_versions w) ?l \<noteq> 0" using c(4,5) by (auto simp: NumLevelFiles_def inputs_closed_def)
  have pa: "parses es"
  proof -
    have "ParseInternalKey (fst e) \<noteq> None" if "e \<in> set es" for e
    proof -
      obtain g where g: "g \<in> set ?i0 \<union> set ?i1" "e \<in> set (cn (fm_number g))" using \<open>e \<in> set es\<close> unfolding assms(7) input_entries_def by blast
      then have "g \<in> set (v_files ?v ! ?l) \<or> g \<in> set (v_files ?v ! (?l + 1))" using c(4) unfolding inputs_closed_def by blast
      then show ?thesis using lsm_file [OF assms(3)] c(3) g(2) unfolding file_has_def by (metis add_lessD1)
    qed
    then show ?thesis by (simp add: parses_def list_all_iff)
  qed
  have so: "sorted_wrt (\<lambda>a b. ek a < ek b) es" using iterator.rep_sorted [OF assms(5,6)] by (simp add: internal_less)
  from DoCompactionWork_outputs [OF assms(5,6) pa assms(8,9,11,10) c(1) vok c(2) nf assms(12,13), of mfs "\<lambda>edit w. (OK, w)"]
  obtain w' cs1 groups where d: "DoCompactionWork (disk_env sn db opt mfs imm) (\<lambda>edit w. (OK, w)) oldest I input w (CompactionState_new c) =
      Some (OK, w', cs1 \<lparr> cs_compaction := (cs_compaction cs1) \<lparr> cp_edit := compaction_edit cs1 \<rparr> \<rparr>)"
    "list_all2 (finished sn db opt (dw_world w')) (cs_outputs cs1) groups" "concat groups = compacted ss (base_key ?v ?l) [] es"
    "numbers_ok (next_number w) w' (cs_outputs cs1)" "same_job c (cs_compaction cs1)"
    by (auto simp: InstallCompactionResults_def Let_def status_ok_def)
  let ?outs = "cs_outputs cs1" and ?nc = "new_contents cn (cs_outputs cs1) groups"
  have job: "cp_level (cs_compaction cs1) = ?l" "cp_inputs0 (cs_compaction cs1) = ?i0" "cp_inputs1 (cs_compaction cs1) = ?i1"
    "ve_deleted_files (cp_edit (cs_compaction cs1)) = []" "ve_new_files (cp_edit (cs_compaction cs1)) = []"
    using d(5) c(6,7) by (simp_all add: same_job_def)
  note edit = compaction_edit_files [OF job(4,5), unfolded job(1-3)]
  have gso: "sorted_wrt (\<lambda>a b. ek a < ek b) (concat groups)" unfolding d(3) using compacted_sorted [OF so] .
  have gsub: "set (concat groups) \<subseteq> input_entries ?c ?i0 ?i1" unfolding d(3) using compacted_subset [of ss "base_key ?v ?l" "[]" es] assms(7) by simp
  have num: "distinct (map out_number ?outs)" "\<forall>out\<in>set ?outs. next_number w \<le> unat (out_number out)" using d(4) by (simp_all add: numbers_ok_def)
  from compaction_installed [OF assms(3) c(4,3) assms(4) d(2) gso gsub num edit, of ps] obtain v' where
    v': "Builder_SaveTo BytewiseComparator (Builder_Apply BytewiseComparator (Builder_new ps ?v) (compaction_edit cs1)) = Some v'"
    "installed ?nc file_ref ?v ?l ?i0 ?i1 ((\<lambda>out. file_ref (new_file out)) ` set ?outs) v'" by blast
  have same: "?nc f = cn (fm_number f)" if "l < kNumLevels" "f \<in> set (v_files ?v ! l)" for f l
  proof (rule new_contents_old [OF d(2)])
    have "unat (fm_number f) < next_number w" using assms(4) that by (simp add: numbered_def)
    then show "fm_number f \<notin> out_number ` set ?outs" using num(2) by force
  qed
  have lsm: "lsm_ok ?nc ?v" using assms(3) same unfolding lsm_ok_def by simp
  have "?nc f = cn (fm_number f)" if "l < kNumLevels" "f \<in> rest ?v ?l ?i0 ?i1 l" for f l using same that unfolding rest_def by blast
  then have ent: "rest_entries ?nc ?v ?l ?i0 ?i1 = rest_entries ?c ?v ?l ?i0 ?i1" unfolding rest_entries_def by simp
  have outs: "(\<Union>f\<in>(\<lambda>out. file_ref (new_file out)) ` set ?outs. set (?nc f)) = set (concat groups)"
  proof -
    have len: "length ?outs = length groups" using d(2) by (rule list_all2_lengthD)
    have "?nc (file_ref (new_file (?outs ! i))) = groups ! i" if "i < length ?outs" for i
      using new_contents_out [OF d(2) num(1) that, of "file_ref (new_file (?outs ! i))"] by (simp add: out_file_def FileMetaData_of_def)
    then have "map (\<lambda>out. ?nc (file_ref (new_file out))) ?outs = groups" using len by (intro nth_equalityI) simp_all
    then have "set (concat (map (\<lambda>out. ?nc (file_ref (new_file out))) ?outs)) = set (concat groups)" by simp
    then show ?thesis by simp
  qed
  have l': "lsm_ok ?nc v'" using installed_lsm [OF lsm c(4,3) v'(2)] .
  have "version_entries ?nc v' = rest_entries ?c ?v ?l ?i0 ?i1 \<union> set (compacted ss (base_key ?v ?l) [] es)"
    unfolding installed_entries [OF c(3) v'(2)] outs ent d(3) ..
  moreover have "stored_as (disk_tables sn db opt (dw_world w')) f (?nc f)" if f: "f \<in> (\<lambda>out. file_ref (new_file out)) ` set ?outs" for f
  proof -
    obtain i where i: "i < length ?outs" "f = file_ref (new_file (?outs ! i))" using f by (auto simp: in_set_conv_nth)
    have "?nc f = groups ! i" using new_contents_out [OF d(2) num(1) i(1), of f] i(2) by (simp add: out_file_def FileMetaData_of_def)
    moreover have "file_has f (?nc f)" using v'(2) f unfolding installed_def by blast
    ultimately show ?thesis using out_stored [of sn db opt "dw_world w'" "?outs ! i" "groups ! i"] d(2) i by (simp add: list_all2_nthD)
  qed
  ultimately show ?thesis using d(1) v'(1) l' so c(3,4)
    by (intro exI [of _ w'] exI [of _ "cs1 \<lparr> cs_compaction := (cs_compaction cs1) \<lparr> cp_edit := compaction_edit cs1 \<rparr> \<rparr>"] exI [of _ v'] exI [of _ ?nc]) simp
qed

section \<open>Examples\<close>

text \<open>An iterator over a list.\<close>

definition ListIterator :: "(bytes \<Rightarrow> bytes \<Rightarrow> int) \<Rightarrow> (entry list \<times> nat) Iterator" where
  "ListIterator compare =
     \<lparr> it_Valid = (\<lambda>(es, i). i < length es), it_SeekToFirst = (\<lambda>(es, i). (es, 0)), it_SeekToLast = (\<lambda>(es, i). (es, length es - 1)),
       it_Seek = (\<lambda>(es, i) t. (es, seek_pos compare es t)), it_Next = (\<lambda>(es, i). (es, i + 1)), it_Prev = (\<lambda>(es, i). (es, if i = 0 then length es else i - 1)),
       it_key = (\<lambda>(es, i). fst (es ! i)), it_value = (\<lambda>(es, i). snd (es ! i)), it_status = (\<lambda>_. OK) \<rparr>"

definition list_rep :: "(bytes \<Rightarrow> bytes \<Rightarrow> int) \<Rightarrow> (bytes \<Rightarrow> bool) \<Rightarrow> entry list \<times> nat \<Rightarrow> entry list \<Rightarrow> nat \<Rightarrow> bool" where
  "list_rep compare valid s es i \<longleftrightarrow> s = (es, i) \<and> i \<le> length es \<and> entries_sorted compare valid es"

interpretation list_iterator: iterator internal_compare is_ikey "ListIterator internal_compare" "list_rep internal_compare is_ikey"
  by unfold_locales (auto simp: ListIterator_def list_rep_def entries_sorted_def seek_pos_def length_takeWhile_le)

text \<open>Without compression and filters the size of a table follows from its entries.\<close>

lemma subseq_entries:
  assumes "subseq g es"
  shows "sorted_wrt P es \<Longrightarrow> sorted_wrt P g" "set g \<subseteq> set es" "entries_size n g \<le> entries_size n es"
  using assms
proof (induction g es rule: list_emb.induct)
  case (list_emb_Cons2 x y xs ys)
  { case 1 then show ?case using list_emb_Cons2 by auto }
  { case 2 then show ?case using list_emb_Cons2 by auto }
  { case 3 then show ?case using list_emb_Cons2 by (simp add: entries_size_def) }
qed (auto simp: entries_size_def)

lemma plain_tables_fit:
  assumes "entries_sorted internal_compare is_ikey es" "2 * entries_size 39 es + 82 < 2 ^ 32"
  shows "tables_fit plain_snappy plain_options es"
  unfolding tables_fit_def
proof (intro allI impI)
  fix g assume g: "subseq g es \<and> g \<noteq> []"
  note s = subseq_entries [OF conjunct1 [OF g]]
  have so: "entries_sorted internal_compare is_ikey g" using assms(1) s(1,2) by (auto simp: entries_sorted_def)
  have sz: "entries_size 39 g \<le> entries_size 39 es" by (rule s(3))
  have i: "table_input_ok plain_snappy plain_options g"
    using so sz assms(2) by (simp add: table_input_ok_def snappy_ok_def plain_snappy_def plain_options_def)
  obtain bs seps where b: "table_of plain_snappy plain_options g = table_bytes plain_snappy plain_options bs seps" "concat bs = g"
    "seps_ok (InternalKeyComparator BytewiseComparator) is_ikey bs [] seps" "length seps = length bs" "[] \<notin> set bs"
    using table_input_built [OF i] unfolding table_of_def by metis
  have "length (table_bytes plain_snappy plain_options bs seps) \<le> 2 * entries_size 39 g + 82"
    using plain_table_size [OF _ _ b(3-5), of plain_options plain_snappy] b(2) by (simp add: plain_options_def)
  then have "length (table_of plain_snappy plain_options g) < 2 ^ 32" using sz assms(2) unfolding b(1) by simp
  then show "table_fits plain_snappy plain_options g" using i by (simp add: table_fits_def plain_options_def)
qed

text \<open>
  A file in level 1, and in level 2 a file that ends with the deletion of a key, which the next file,
  if there is one, continues with an older value.
\<close>

definition split_contents :: "u64 \<Rightarrow> entry list" where
  "split_contents n =
     (if n = 11 then [([1, 1, 3, 0, 0, 0, 0, 0, 0], [5])]
      else if n = 12 then [([1, 1, 2, 0, 0, 0, 0, 0, 0], [6]), ([2, 0, 9, 0, 0, 0, 0, 0, 0], [])]
      else if n = 13 then [([2, 1, 4, 0, 0, 0, 0, 0, 0], [7])]
      else [])"

definition split_file :: "u64 \<Rightarrow> FileMetaData" where
  "split_file n = FileMetaData_of n 100 \<lparr> InternalKey_rep = fst (hd (split_contents n)) \<rparr> \<lparr> InternalKey_rep = fst (last (split_contents n)) \<rparr>"

definition two_levels :: "u64 list \<Rightarrow> Version" where
  "two_levels ns = Version_new \<lparr> v_files := (replicate kNumLevels []) [1 := [split_file 11], 2 := map split_file ns],
     v_compaction_level := 1, v_compaction_score := 2 \<rparr>"

definition two_level_set :: "u64 list \<Rightarrow> VersionSet" where
  "two_level_set ns = VersionSet_new \<lparr> vs_current := two_levels ns, vs_next_file_number := 20, vs_last_sequence := 9 \<rparr>"

abbreviation split_entries :: "entry list" where "split_entries \<equiv> split_contents 11 @ split_contents 12"

lemma split_pick:
  assumes "ns \<in> {[12], [12, 13]}"
  shows "\<exists>vs' c. PickCompaction BytewiseComparator 2000000 (two_level_set ns) = Some (vs', Some c) \<and> vs_next_file_number vs' = 20 \<and> vs_last_sequence vs' = 9 \<and>
    cp_level c = 1 \<and> cp_inputs0 c = [split_file 11] \<and> cp_inputs1 c = [split_file 12]"
proof -
  let ?p = "map_option (\<lambda>(vs, c). (vs_next_file_number vs, vs_last_sequence vs, map_option (\<lambda>c. (cp_level c, cp_inputs0 c, cp_inputs1 c)) c))"
  have "?p (PickCompaction BytewiseComparator 2000000 (two_level_set [12])) = Some (20, 9, Some (1, [split_file 11], [split_file 12]))" by code_simp
  moreover have "?p (PickCompaction BytewiseComparator 2000000 (two_level_set [12, 13])) = Some (20, 9, Some (1, [split_file 11], [split_file 12]))" by code_simp
  ultimately have "?p (PickCompaction BytewiseComparator 2000000 (two_level_set ns)) = Some (20, 9, Some (1, [split_file 11], [split_file 12]))" using assms by auto
  then show ?thesis by auto
qed

lemma split_levels: "l < kNumLevels \<Longrightarrow> v_files (two_levels ns) ! l = (if l = 1 then [split_file 11] else if l = 2 then map split_file ns else [])"
  by (simp add: two_levels_def nth_list_update kNumLevels_def)

lemma split_number [simp]: "fm_number (split_file n) = n"
  by (simp add: split_file_def FileMetaData_of_def)

lemma split_lsm:
  assumes "ns \<in> {[12], [12, 13]}"
  shows "lsm_ok (\<lambda>f. split_contents (fm_number f)) (two_levels ns)"
proof -
  have h: "file_has (split_file 11) (split_contents 11)" "file_has (split_file 12) (split_contents 12)" "file_has (split_file 13) (split_contents 13)" by code_simp+
  have s: "level_sorted [split_file 11]" "level_sorted [split_file 12]" "level_sorted [split_file 12, split_file 13]" "level_sorted []" by code_simp+
  have o: "\<forall>a\<in>set (split_contents 11). \<forall>b\<in>set (split_contents 12 @ split_contents 13). ExtractUserKey (fst a) = ExtractUserKey (fst b) \<longrightarrow> ek a < ek b" by code_simp
  have ns: "set ns \<subseteq> {12, 13}" using assms by auto
  have "\<forall>l<kNumLevels. \<forall>f\<in>set (v_files (two_levels ns) ! l). file_has f (split_contents (fm_number f))"
    using h ns by (auto simp: split_levels)
  moreover have "\<forall>l<kNumLevels. 0 < l \<longrightarrow> level_sorted (v_files (two_levels ns) ! l)" using s assms by (auto simp: split_levels)
  moreover have "distinct (map fm_number (v_files (two_levels ns) ! 0))" by (simp add: split_levels kNumLevels_def)
  moreover have "ek a < ek b" if "i < kNumLevels" "j < kNumLevels" "f \<in> set (v_files (two_levels ns) ! i)" "g \<in> set (v_files (two_levels ns) ! j)"
    "searched_before (i, f) (j, g)" "a \<in> set (split_contents (fm_number f))" "b \<in> set (split_contents (fm_number g))" "ExtractUserKey (fst a) = ExtractUserKey (fst b)" for i j f g a b
  proof -
    have "f = split_file 11" "g = split_file 12 \<or> g = split_file 13" using that(1-5) ns by (auto simp: split_levels searched_before_def split: if_splits)
    then have "a \<in> set (split_contents 11)" "b \<in> set (split_contents 12 @ split_contents 13)" using that(6,7) by auto
    then show ?thesis using o that(8) by blast
  qed
  ultimately show ?thesis unfolding lsm_ok_def by blast
qed

lemma split_ok:
  assumes "ns \<in> {[12], [12, 13]}"
  shows "pick_ok (two_level_set ns)" "numbered (two_levels ns) 20" "vs_current (two_level_set ns) = two_levels ns"
    "set split_entries = input_entries (\<lambda>f. split_contents (fm_number f)) [split_file 11] [split_file 12]"
    "list_rep internal_compare is_ikey (split_entries, 0) split_entries 0" "tables_fit plain_snappy plain_options split_entries"
proof -
  show "pick_ok (two_level_set ns)" by (simp add: pick_ok_def two_level_set_def two_levels_def Version_new_def kNumLevels_def)
  have "numbered (two_levels [12]) 20" "numbered (two_levels [12, 13]) 20" by code_simp+
  then show "numbered (two_levels ns) 20" using assms by auto
  show "vs_current (two_level_set ns) = two_levels ns" by (simp add: two_level_set_def)
  show "set split_entries = input_entries (\<lambda>f. split_contents (fm_number f)) [split_file 11] [split_file 12]" by (simp add: input_entries_def Un_commute)
  have s: "entries_sorted internal_compare is_ikey split_entries" by code_simp
  then show "list_rep internal_compare is_ikey (split_entries, 0) split_entries 0" by (simp add: list_rep_def)
  have "2 * entries_size 39 split_entries + 82 < 2 ^ 32" by (simp add: split_contents_def entries_size_def)
  then show "tables_fit plain_snappy plain_options split_entries" by (rule plain_tables_fit [OF s])
qed

lemma split_values:
  "e_user ([2, 0, 9, 0, 0, 0, 0, 0, 0], []) = [2]" "visible 9 ([2, 0, 9, 0, 0, 0, 0, 0, 0], [])" "e_type ([2, 0, 9, 0, 0, 0, 0, 0, 0], []) = kTypeDeletion"
  "e_user ([2, 1, 4, 0, 0, 0, 0, 0, 0], [7]) = [2]" "visible 9 ([2, 1, 4, 0, 0, 0, 0, 0, 0], [7])" "e_type ([2, 1, 4, 0, 0, 0, 0, 0, 0], [7]) = kTypeValue"
  "e_user ([1, 1, 3, 0, 0, 0, 0, 0, 0], [5]) = [1]" "e_user ([1, 1, 2, 0, 0, 0, 0, 0, 0], [6]) = [1]"
  "\<not> ikey_of [2, 1, 4, 0, 0, 0, 0, 0, 0] \<le> ikey_of [2, 0, 9, 0, 0, 0, 0, 0, 0]"
  by code_simp+

section \<open>Properties\<close>


definition two_level_work :: "VersionSet \<Rightarrow> disk DBWork" where
  "two_level_work vs = \<lparr> dw_world = Map.empty, dw_versions = vs, dw_pending_outputs = {}, dw_bg_error = OK \<rparr>"



end
