(* ===== verification/WriteBatch.thy ===== *)
theory WriteBatch
  imports MemTable
begin

text \<open>
  Write batches, \<open>kv/db/write_batch.cpp\<close>. The handler of \<open>Iterate\<close> is a record of the two
  callbacks over a state; \<open>MemTableInserter\<close> is the handler whose state is the next sequence
  number and the memtable. The \<open>int\<close> counts are integers read from and written to 32-bit words.
\<close>

unbundle bit_operations_syntax

section \<open>Batches\<close>

definition kHeader :: nat where
  "kHeader = 12"

definition WriteBatch_Clear :: bytes where
  "WriteBatch_Clear = replicate kHeader 0"

definition wb_ApproximateSize :: "bytes \<Rightarrow> nat" where
  "wb_ApproximateSize rep = length rep"

definition wb_Count :: "bytes \<Rightarrow> int" where
  "wb_Count rep = sint (DecodeFixed32 (drop 8 rep))"

definition wb_SetCount :: "bytes \<Rightarrow> int \<Rightarrow> bytes" where
  "wb_SetCount rep n = memcpy_at rep 8 (EncodeFixed32 (word_of_int n))"

definition wb_Sequence :: "bytes \<Rightarrow> u64" where
  "wb_Sequence rep = DecodeFixed64 rep"

definition wb_SetSequence :: "bytes \<Rightarrow> u64 \<Rightarrow> bytes" where
  "wb_SetSequence rep s = memcpy_at rep 0 (EncodeFixed64 s)"

definition wb_Put :: "bytes \<Rightarrow> bytes \<Rightarrow> bytes \<Rightarrow> bytes" where
  "wb_Put rep key value =
     (let rep = wb_SetCount rep (wb_Count rep + 1);
          rep = rep @ [ucast (ValueType_num kTypeValue)];
          rep = PutLengthPrefixedSlice rep key
      in PutLengthPrefixedSlice rep value)"

definition wb_Delete :: "bytes \<Rightarrow> bytes \<Rightarrow> bytes" where
  "wb_Delete rep key =
     (let rep = wb_SetCount rep (wb_Count rep + 1);
          rep = rep @ [ucast (ValueType_num kTypeDeletion)]
      in PutLengthPrefixedSlice rep key)"

definition wb_Append :: "bytes \<Rightarrow> bytes \<Rightarrow> bytes" where
  "wb_Append dst src = wb_SetCount dst (wb_Count dst + wb_Count src) @ drop kHeader src"

definition wb_SetContents :: "bytes \<Rightarrow> bytes" where
  "wb_SetContents contents = contents"

section \<open>Iteration\<close>

record 's Handler =
  h_Put :: "bytes \<Rightarrow> bytes \<Rightarrow> 's \<Rightarrow> 's"
  h_Delete :: "bytes \<Rightarrow> 's \<Rightarrow> 's"

text \<open>\<open>Inl\<close>: the loop returns a status; \<open>Inr\<close>: it ends with the number of records found.\<close>

function wb_Iterate_loop :: "'s Handler \<Rightarrow> bytes \<Rightarrow> int \<Rightarrow> 's \<Rightarrow> (status + int) \<times> 's" where
  "wb_Iterate_loop handler input found s =
     (case input of
        [] \<Rightarrow> (Inr found, s)
      | tag # input \<Rightarrow>
          if tag = ucast (ValueType_num kTypeValue)
          then (case GetLengthPrefixedSlice input of
                  None \<Rightarrow> (Inl (status_Corruption (str ''bad WriteBatch Put'') []), s)
                | Some (key, input1) \<Rightarrow>
                    (case GetLengthPrefixedSlice input1 of
                       None \<Rightarrow> (Inl (status_Corruption (str ''bad WriteBatch Put'') []), s)
                     | Some (val, input2) \<Rightarrow>
                         wb_Iterate_loop handler input2 (found + 1) (h_Put handler key val s)))
          else if tag = ucast (ValueType_num kTypeDeletion)
          then (case GetLengthPrefixedSlice input of
                  None \<Rightarrow> (Inl (status_Corruption (str ''bad WriteBatch Delete'') []), s)
                | Some (key, input1) \<Rightarrow>
                    wb_Iterate_loop handler input1 (found + 1) (h_Delete handler key s))
          else (Inl (status_Corruption (str ''unknown WriteBatch tag'') []), s))"
  by pat_completeness auto
termination
  by (relation "measure (\<lambda>(_, input, _, _). length input)")
    (auto dest!: GetLengthPrefixedSlice_shorter)

declare wb_Iterate_loop.simps [simp del]

definition wb_Iterate :: "'s Handler \<Rightarrow> bytes \<Rightarrow> 's \<Rightarrow> status \<times> 's" where
  "wb_Iterate handler rep s =
     (if length rep < kHeader then (status_Corruption (str ''malformed WriteBatch (too small)'') [], s)
      else (case wb_Iterate_loop handler (remove_prefix rep kHeader) 0 s of
              (Inl st, s') \<Rightarrow> (st, s')
            | (Inr found, s') \<Rightarrow>
                if found \<noteq> wb_Count rep then (status_Corruption (str ''WriteBatch has wrong count'') [], s')
                else (OK, s')))"

text \<open>The state of the inserter is \<open>None\<close> when an addition to the table does not return.\<close>

definition MemTableInserter :: "Comparator \<Rightarrow> (u64 \<times> MemTable option) Handler" where
  "MemTableInserter cmp =
     \<lparr> h_Put = (\<lambda>key val (sequence, mem).
         (sequence + 1, Option.bind mem (\<lambda>m. MemTable_Add cmp m sequence kTypeValue key val))),
       h_Delete = (\<lambda>key (sequence, mem).
         (sequence + 1, Option.bind mem (\<lambda>m. MemTable_Add cmp m sequence kTypeDeletion key []))) \<rparr>"

definition wb_InsertInto :: "Comparator \<Rightarrow> bytes \<Rightarrow> MemTable \<Rightarrow> status \<times> MemTable option" where
  "wb_InsertInto cmp rep memtable =
     (let (st, _, mem) = wb_Iterate (MemTableInserter cmp) rep (wb_Sequence rep, Some memtable)
      in (st, mem))"

section \<open>The operations a batch records\<close>

datatype wb_op = WPut bytes bytes | WDelete bytes

fun wb_apply :: "bytes \<Rightarrow> wb_op \<Rightarrow> bytes" where
  "wb_apply rep (WPut k v) = wb_Put rep k v"
| "wb_apply rep (WDelete k) = wb_Delete rep k"

fun wb_handle :: "'s Handler \<Rightarrow> 's \<Rightarrow> wb_op \<Rightarrow> 's" where
  "wb_handle h s (WPut k v) = h_Put h k v s"
| "wb_handle h s (WDelete k) = h_Delete h k s"

fun wb_record :: "wb_op \<Rightarrow> bytes" where
  "wb_record (WPut k v) =
     [ucast (ValueType_num kTypeValue)] @ PutLengthPrefixedSlice [] k @ PutLengthPrefixedSlice [] v"
| "wb_record (WDelete k) = [ucast (ValueType_num kTypeDeletion)] @ PutLengthPrefixedSlice [] k"

fun wb_op_ok :: "wb_op \<Rightarrow> bool" where
  "wb_op_ok (WPut k v) \<longleftrightarrow> length k + 8 < 2 ^ 32 \<and> length v < 2 ^ 32"
| "wb_op_ok (WDelete k) \<longleftrightarrow> length k + 8 < 2 ^ 32"

text \<open>A batch that holds a sequence number and a list of operations.\<close>

definition wb_of :: "u64 \<Rightarrow> wb_op list \<Rightarrow> bytes" where
  "wb_of q ops = EncodeFixed64 q @ EncodeFixed32 (word_of_nat (length ops)) @ concat (map wb_record ops)"

lemma PutLengthPrefixedSlice_append: "PutLengthPrefixedSlice dst v = dst @ PutLengthPrefixedSlice [] v"
  by (simp add: PutLengthPrefixedSlice_def PutVarint32_def)

lemma EncodeFixed_0: "EncodeFixed64 0 = replicate 8 0" "EncodeFixed32 0 = replicate 4 0"
  by (simp_all add: EncodeFixed64_def EncodeFixed32_def numeral_eq_Suc)

lemma wb_of_Nil: "WriteBatch_Clear = wb_of 0 []"
  by (simp add: WriteBatch_Clear_def kHeader_def wb_of_def EncodeFixed_0 flip: replicate_add)

lemma wb_Count_of: "wb_Count (wb_of q ops) = sint (word_of_nat (length ops) :: u32)"
  by (simp add: wb_Count_def wb_of_def)

lemma wb_Sequence_of [simp]: "wb_Sequence (wb_of q ops) = q"
  by (simp add: wb_Sequence_def wb_of_def)

lemma wb_SetSequence_of [simp]: "wb_SetSequence (wb_of q ops) q' = wb_of q' ops"
  by (simp add: wb_SetSequence_def wb_of_def memcpy_at_def)

lemma word_of_int_sint_add: "(word_of_int (sint (a :: u32) + sint b) :: u32) = a + b"
  by simp

lemma wb_apply_of: "wb_apply (wb_of q ops) op = wb_of q (ops @ [op])"
proof -
  have "wb_SetCount (wb_of q ops) (wb_Count (wb_of q ops) + 1) =
      EncodeFixed64 q @ EncodeFixed32 (word_of_nat (length (ops @ [op]))) @ concat (map wb_record ops)"
    by (simp add: wb_SetCount_def wb_Count_of) (simp add: wb_of_def memcpy_at_def add.commute)
  then show ?thesis
    by (cases op) (simp_all add: wb_Put_def wb_Delete_def wb_of_def Let_def
        PutLengthPrefixedSlice_append [of "_ @ _"])
qed

lemma wb_Append_of: "wb_Append (wb_of q ops) (wb_of q' ops') = wb_of q (ops @ ops')"
proof -
  have "wb_SetCount (wb_of q ops) (wb_Count (wb_of q ops) + wb_Count (wb_of q' ops')) =
      EncodeFixed64 q @ EncodeFixed32 (word_of_nat (length (ops @ ops'))) @ concat (map wb_record ops)"
    by (simp add: wb_SetCount_def wb_Count_of) (simp add: wb_of_def memcpy_at_def)
  then show ?thesis by (simp add: wb_Append_def kHeader_def) (simp add: wb_of_def)
qed

lemma wb_run_of: "foldl wb_apply (wb_of q old) ops = wb_of q (old @ ops)"
  by (induction ops arbitrary: old) (simp_all add: wb_apply_of)

lemma wb_Iterate_loop_record:
  assumes "wb_op_ok op"
  shows "wb_Iterate_loop h (wb_record op @ rest) found s = wb_Iterate_loop h rest (found + 1) (wb_handle h s op)"
proof (cases op)
  case (WPut k v)
  then show ?thesis
    using assms by (subst wb_Iterate_loop.simps) (simp add: GetLengthPrefixedSlice_Put)
next
  case (WDelete k)
  then show ?thesis
    using assms by (subst wb_Iterate_loop.simps) (simp add: GetLengthPrefixedSlice_Put)
qed

lemma wb_Iterate_loop_records:
  "\<forall>op \<in> set ops. wb_op_ok op \<Longrightarrow> wb_Iterate_loop h (concat (map wb_record ops) @ rest) found s =
    wb_Iterate_loop h rest (found + int (length ops)) (foldl (wb_handle h) s ops)"
  by (induction ops arbitrary: found s) (simp_all add: wb_Iterate_loop_record add.assoc)

lemma wb_Iterate_loop_Nil [simp]: "wb_Iterate_loop h [] found s = (Inr found, s)"
  by (subst wb_Iterate_loop.simps) simp

lemma sint_word_of_nat: "n < 2 ^ 31 \<Longrightarrow> sint (word_of_nat n :: u32) = int n"
  by (simp add: signed_of_nat signed_take_bit_int_eq_self)

lemma wb_Iterate_of:
  assumes "\<forall>op \<in> set ops. wb_op_ok op" "length ops < 2 ^ 31"
  shows "wb_Iterate h (wb_of q ops) s = (OK, foldl (wb_handle h) s ops)"
proof -
  have "wb_Iterate_loop h (concat (map wb_record ops)) 0 s = (Inr (int (length ops)), foldl (wb_handle h) s ops)"
    using wb_Iterate_loop_records [OF assms(1), of h "[]" 0 s] by simp
  moreover have "remove_prefix (wb_of q ops) kHeader = concat (map wb_record ops)"
    by (simp add: remove_prefix_def wb_of_def kHeader_def)
  moreover have "\<not> length (wb_of q ops) < kHeader" by (simp add: wb_of_def kHeader_def)
  ultimately show ?thesis
    using assms(2) by (simp add: wb_Iterate_def wb_Count_of sint_word_of_nat)
qed

text \<open>A batch cut short.\<close>

lemma wb_Iterate_loop_truncated:
  assumes "wb_op_ok op" "0 < n" "n < length (wb_record op)"
  shows "\<exists>e s'. wb_Iterate_loop h (take n (wb_record op)) found s = (Inl (status_Corruption e []), s')"
proof -
  let ?lp = "PutLengthPrefixedSlice []"
  obtain m where n: "n = Suc m" using assms(2) by (cases n) auto
  show ?thesis
  proof (cases op)
    case (WDelete k)
    then have "GetLengthPrefixedSlice (take m (?lp k)) = None"
      using assms n by (intro GetLengthPrefixedSlice_truncated) auto
    with WDelete n show ?thesis by (subst wb_Iterate_loop.simps) auto
  next
    case (WPut k v)
    show ?thesis
    proof (cases "m < length (?lp k)")
      case True
      then have "GetLengthPrefixedSlice (take m (?lp k)) = None"
        using assms WPut by (intro GetLengthPrefixedSlice_truncated) auto
      with WPut n True show ?thesis by (subst wb_Iterate_loop.simps) auto
    next
      case False
      let ?r = "take (m - length (?lp k)) (?lp v)"
      have "GetLengthPrefixedSlice ?r = None"
        using assms WPut False n by (intro GetLengthPrefixedSlice_truncated) auto
      moreover have "GetLengthPrefixedSlice (?lp k @ ?r) = Some (k, ?r)"
        using assms WPut by (intro GetLengthPrefixedSlice_Put) simp
      moreover have "take n (wb_record op) = ucast (ValueType_num kTypeValue) # ?lp k @ ?r"
        using WPut n False by simp
      ultimately show ?thesis by (subst wb_Iterate_loop.simps) auto
    qed
  qed
qed

lemma take_concat_records:
  "n < length (concat (map wb_record ops)) \<Longrightarrow>
    \<exists>j r. j < length ops \<and> r < length (wb_record (ops ! j)) \<and>
      take n (concat (map wb_record ops)) = concat (map wb_record (take j ops)) @ take r (wb_record (ops ! j))"
proof (induction ops arbitrary: n)
  case (Cons op ops)
  show ?case
  proof (cases "n < length (wb_record op)")
    case True
    then show ?thesis by (intro exI [of _ 0] exI [of _ n]) simp
  next
    case False
    then have "n - length (wb_record op) < length (concat (map wb_record ops))" using Cons.prems by auto
    from Cons.IH [OF this] obtain j r where "j < length ops" "r < length (wb_record (ops ! j))"
      "take (n - length (wb_record op)) (concat (map wb_record ops)) =
        concat (map wb_record (take j ops)) @ take r (wb_record (ops ! j))"
      by blast
    with False show ?thesis by (intro exI [of _ "Suc j"] exI [of _ r]) simp
  qed
qed simp

lemma wb_Iterate_truncated:
  assumes ok: "\<forall>op \<in> set ops. wb_op_ok op" "length ops < 2 ^ 31" and n: "n < length (wb_of q ops)"
  shows "\<exists>e. fst (wb_Iterate h (take n (wb_of q ops)) s) = status_Corruption e []"
proof (cases "n < kHeader")
  case True
  then show ?thesis using n by (auto simp: wb_Iterate_def)
next
  case False
  have len: "length (wb_of q ops) = 12 + length (concat (map wb_record ops))" by (simp add: wb_of_def)
  have "n - 12 < length (concat (map wb_record ops))" using n len False by (simp add: kHeader_def)
  from take_concat_records [OF this]
  obtain j r where j: "j < length ops" "r < length (wb_record (ops ! j))"
    "take (n - 12) (concat (map wb_record ops)) = concat (map wb_record (take j ops)) @ take r (wb_record (ops ! j))"
    by blast
  have rest: "remove_prefix (take n (wb_of q ops)) kHeader = take (n - 12) (concat (map wb_record ops))"
    using False by (simp add: remove_prefix_def wb_of_def kHeader_def drop_take)
  have cnt: "wb_Count (take n (wb_of q ops)) = int (length ops)"
    using False ok(2) by (simp add: wb_Count_def wb_of_def kHeader_def sint_word_of_nat)
  have loop: "wb_Iterate_loop h (take (n - 12) (concat (map wb_record ops))) 0 s =
      wb_Iterate_loop h (take r (wb_record (ops ! j))) (int j) (foldl (wb_handle h) s (take j ops))"
    unfolding j(3) using ok(1) j(1) wb_Iterate_loop_records [of "take j ops" h _ 0 s]
    by (auto dest: in_set_takeD)
  have ne: "\<not> length (take n (wb_of q ops)) < kHeader" using False n by simp
  show ?thesis
  proof (cases "r = 0")
    case True
    with loop j(1) cnt rest ne show ?thesis by (auto simp: wb_Iterate_def)
  next
    case r: False
    obtain e s' where "wb_Iterate_loop h (take r (wb_record (ops ! j))) (int j) (foldl (wb_handle h) s (take j ops)) =
        (Inl (status_Corruption e []), s')"
      using wb_Iterate_loop_truncated [of "ops ! j" r] ok(1) j r by (metis neq0_conv nth_mem)
    with loop rest ne show ?thesis by (auto simp: wb_Iterate_def)
  qed
qed

section \<open>Batches and memtables\<close>

fun wb_mem_ops :: "u64 \<Rightarrow> wb_op list \<Rightarrow> mem_op list" where
  "wb_mem_ops q [] = []"
| "wb_mem_ops q (WPut k v # ops) =
     \<lparr> op_seq = q, op_type = kTypeValue, op_key = k, op_value = v \<rparr> # wb_mem_ops (q + 1) ops"
| "wb_mem_ops q (WDelete k # ops) =
     \<lparr> op_seq = q, op_type = kTypeDeletion, op_key = k, op_value = [] \<rparr> # wb_mem_ops (q + 1) ops"

lemma inserter_None: "snd (foldl (wb_handle (MemTableInserter cmp)) (q, None) ops) = None"
proof (induction ops arbitrary: q)
  case (Cons op ops)
  then show ?case by (cases op) (simp_all add: MemTableInserter_def)
qed simp

lemma inserter_run:
  "snd (foldl (wb_handle (MemTableInserter BytewiseComparator)) (q, Some m) ops) = mem_run m (wb_mem_ops q ops)"
proof (induction ops arbitrary: q m)
  case (Cons op ops)
  have *: "snd (foldl (wb_handle (MemTableInserter BytewiseComparator)) (q', x) ops) =
      (case x of None \<Rightarrow> None | Some m' \<Rightarrow> mem_run m' (wb_mem_ops q' ops))" for q' x
    by (cases x) (simp_all add: Cons.IH inserter_None)
  show ?case by (cases op) (simp_all add: MemTableInserter_def [of BytewiseComparator] * [unfolded MemTableInserter_def])
qed simp

lemma wb_InsertInto_of:
  assumes "\<forall>op \<in> set ops. wb_op_ok op" "length ops < 2 ^ 31"
  shows "wb_InsertInto BytewiseComparator (wb_of q ops) m = (OK, mem_run m (wb_mem_ops q ops))"
  using inserter_run [of q m ops]
  by (auto simp: wb_InsertInto_def wb_Iterate_of [OF assms] split: prod.splits)

lemma wb_mem_ops_seqs:
  "unat q + length ops < 2 ^ 64 \<Longrightarrow>
    map (\<lambda>op. unat (op_seq op)) (wb_mem_ops q ops) = [unat q ..< unat q + length ops]"
proof (induction q ops rule: wb_mem_ops.induct)
  case (2 q k v ops)
  then have "unat (q + 1) = unat q + 1" by (simp add: unat_word_ariths)
  with 2 show ?case by (simp add: upt_rec [of "unat q"] del: upt_Suc)
next
  case (3 q k ops)
  then have "unat (q + 1) = unat q + 1" by (simp add: unat_word_ariths)
  with 3 show ?case by (simp add: upt_rec [of "unat q"] del: upt_Suc)
qed simp

lemma wb_mem_ops_sizes:
  "\<forall>op \<in> set ops. wb_op_ok op \<Longrightarrow>
    \<forall>op \<in> set (wb_mem_ops q ops). length (op_key op) + 8 < 2 ^ 32 \<and> length (op_value op) < 2 ^ 32"
  by (induction q ops rule: wb_mem_ops.induct) auto

lemma wb_mem_ops_ok:
  assumes "\<forall>op \<in> set ops. wb_op_ok op" "unat q + length ops \<le> 2 ^ 56"
  shows "\<forall>op \<in> set (wb_mem_ops q ops). op_ok op" "distinct (map op_seq (wb_mem_ops q ops))"
proof -
  have seqs: "map (\<lambda>op. unat (op_seq op)) (wb_mem_ops q ops) = [unat q ..< unat q + length ops]"
    using assms(2) by (intro wb_mem_ops_seqs) simp
  then have "\<forall>op \<in> set (wb_mem_ops q ops). unat (op_seq op) < 2 ^ 56"
    using assms(2) by (metis (no_types, lifting) atLeastLessThan_iff image_eqI less_le_trans list.set_map set_upt)
  with wb_mem_ops_sizes [OF assms(1)] show "\<forall>op \<in> set (wb_mem_ops q ops). op_ok op"
    by (auto simp: op_ok_def kMaxSequenceNumber_val word_le_nat_alt)
  have "distinct (map unat (map op_seq (wb_mem_ops q ops)))"
    using seqs by (simp add: comp_def)
  then show "distinct (map op_seq (wb_mem_ops q ops))" by (auto simp: distinct_map inj_on_def)
qed

section \<open>Properties\<close>

text \<open>
  C7: A batch replays what was put into it: iterating over a batch built by any sequence of puts
  and deletes, or by appending one such batch to another, calls the handler with exactly those
  operations in order and returns OK.
\<close>

theorem WriteBatch_Iterate_replays:
  assumes "\<forall>op \<in> set (ops @ ops'). wb_op_ok op" "length ops + length ops' < 2 ^ 31"
  shows "wb_Iterate h (wb_Append (foldl wb_apply WriteBatch_Clear ops) (foldl wb_apply WriteBatch_Clear ops')) s =
    (OK, foldl (wb_handle h) s (ops @ ops'))"
  using wb_Iterate_of [of "ops @ ops'" h 0 s] assms by (simp add: wb_of_Nil wb_run_of wb_Append_of)

theorem WriteBatch_Iterate_replays_witness:
  "wb_Iterate \<lparr> h_Put = \<lambda>k v s. s @ [(k, Some v)], h_Delete = \<lambda>k s. s @ [(k, None)] \<rparr>
    (wb_Append (foldl wb_apply WriteBatch_Clear [WPut [1] [2], WDelete [3]])
       (foldl wb_apply WriteBatch_Clear [WPut [] [4]])) [] =
   (OK, [([1], Some [2]), ([3], None), ([], Some [4])])"
  by (subst WriteBatch_Iterate_replays) simp_all

text \<open>
  A batch that was cut short at any byte is never taken for a complete one: iterating over it
  returns a corruption.
\<close>

lemma WriteBatch_truncated_rejected:
  assumes "\<forall>op \<in> set ops. wb_op_ok op" "length ops < 2 ^ 31"
    and "n < length (foldl wb_apply WriteBatch_Clear ops)"
  shows "\<exists>e. fst (wb_Iterate h (take n (foldl wb_apply WriteBatch_Clear ops)) s) = status_Corruption e []"
  using wb_Iterate_truncated [of ops n 0 h s] assms by (simp add: wb_of_Nil wb_run_of)

text \<open>
  C8: Inserting a batch into a new memtable makes its operations visible as a whole: with starting
  sequence number \<open>q\<close> the operations take \<open>q\<close>, \<open>q + 1\<close> and so on, the insertion returns OK, and a
  lookup at a snapshot \<open>s\<close> sees the last operation on the key among those not after \<open>s\<close>.
\<close>

theorem WriteBatch_InsertInto_visible:
  assumes "\<forall>op \<in> set ops. wb_op_ok op" "length ops < 2 ^ 31" "unat q + length ops \<le> 2 ^ 56"
    and "s \<le> kMaxSequenceNumber" "length u + 8 < 2 ^ 32"
  shows "\<exists>m. wb_InsertInto BytewiseComparator (wb_SetSequence (foldl wb_apply WriteBatch_Clear ops) q)
      MemTable_new = (OK, Some m) \<and>
    MemTable_Get BytewiseComparator m (LookupKey_new u s) = Some (read_op (newest u s (rev (wb_mem_ops q ops))))"
proof -
  note ok = wb_mem_ops_ok [OF assms(1,3)]
  have "mem_rep MemTable_new []"
    using SkipList_new_inv by (simp add: mem_rep_def MemTable_new_def)
  then obtain m where "mem_run MemTable_new (wb_mem_ops q ops) = Some m" "mem_rep m (rev (wb_mem_ops q ops))"
    using mem_run_rep [of MemTable_new "[]" "wb_mem_ops q ops"] ok by auto
  with MemTable_Get_rep [of m "rev (wb_mem_ops q ops)" s u] ok assms show ?thesis
    by (simp add: wb_of_Nil wb_run_of wb_InsertInto_of rev_map [symmetric])
qed

theorem WriteBatch_InsertInto_visible_witness:
  "\<exists>m. wb_InsertInto BytewiseComparator
      (wb_SetSequence (foldl wb_apply WriteBatch_Clear [WPut [1] [2], WDelete [1], WPut [1] [3]]) 10)
      MemTable_new = (OK, Some m) \<and>
    MemTable_Get BytewiseComparator m (LookupKey_new [1] 11) = Some (Deleted (status_NotFound [] []))"
  using WriteBatch_InsertInto_visible [of "[WPut [1] [2], WDelete [1], WPut [1] [3]]" 10 11 "[1]"]
  by (simp add: kMaxSequenceNumber_val)

end
