(* ===== verification/Spec2Isabelle.thy ===== *)
theory Spec2Isabelle
  imports Http_Server DB_Iter Compaction_Work Version_Get Version_Builder Version_Files Table_Cache Coding Status Comparator DBFormat Random_Gen Skiplist Arena MemTable Filter_Block WriteBatch Crc32c Filename Log_File VersionEdit Table
begin

text \<open>
  QuasDB is a key-value store in C++ (\<^verbatim>\<open>kv/\<close>) with a small HTTP file server beside it (\<^verbatim>\<open>http_server/\<close>).
  The store is a log-structured merge tree. A write is a batch: it is appended to a log file and then
  inserted into the memtable, a skip list in an arena. Full memtables become sorted table files, made of
  blocks with filters and checksums. The files are arranged in seven levels; a version is a set of
  files, changed by version edits, which a manifest records. Compactions merge files into the next
  level and drop what nobody can read any more. Lookups and iterators combine the memtables and the
  files of a version, through a cache of open tables, and hide what is newer than a snapshot.

  \<^bold>\<open>How the code is modelled.\<close> A struct or class is a record, an enum a datatype, an integer a word of
  its width (\<open>int\<close> or \<open>nat\<close> where the code's values are sizes in memory, which are far below the limits
  of their types). Strings and slices are lists of bytes. A method takes the state of its object and
  returns the new one. A result of type \<open>option\<close> is \<open>None\<close> where the code would fail an assertion, use freed
  or uninitialised memory, read out of range, or not return; the loops of this kind are partial
  functions of the option type, and the theorems show that the result is \<open>Some\<close>, so no bound or fuel is
  chosen anywhere. Errors are values of the datatype \<open>status\<close>. A class with virtual functions is a record of
  functions, and what its comments promise is a locale, which the model of every subclass interprets:
  \<open>comparator\<close>, \<open>filter_policy\<close>, \<open>iterator\<close>, \<open>random_file\<close>, and \<open>codec\<close> for the encodings. What is not in the
  repository is a parameter: the snappy library, \<open>malloc\<close>, and the functions of the file system, which
  may fail in every way. Every method runs alone: interleavings of threads are not modelled, only those
  of the handlers of the HTTP server.

  \<^bold>\<open>Foundations.\<close>
  \<^item> \<open>Prelude\<close>: types, rule collections and lemmas on lists and words.
  \<^item> \<open>Coding\<close> (\<^verbatim>\<open>util/coding\<close>): fixed-width and variable-length integers, length-prefixed strings. Decoding
    undoes encoding and leaves what follows; the locale \<open>codec\<close> carries this to composed encodings.
  \<^item> \<open>Status\<close> (\<^verbatim>\<open>slice.h\<close>, \<^verbatim>\<open>status\<close>): slices, status values and their byte layout, in which the
    constructor puts a blank in the wrong place.
  \<^item> \<open>Comparator\<close> (\<^verbatim>\<open>util/comparator.cpp\<close>) and \<open>DBFormat\<close> (\<^verbatim>\<open>db/dbformat\<close>): the order of user keys and of
    internal keys (a user key, then newer before older), separators, and lookup keys.
  \<^item> \<open>Random_Gen\<close>, \<open>Arena\<close>, \<open>Crc_Tables\<close>, \<open>Crc32c\<close>, \<open>Filename\<close> (\<^verbatim>\<open>util/random.h\<close>, \<^verbatim>\<open>util/arena\<close>,
    \<^verbatim>\<open>util/crc32c\<close>, \<^verbatim>\<open>util/logging.cpp\<close>, \<^verbatim>\<open>db/filename.cpp\<close>): regions given out by the arena are disjoint; the
    strided checksum with its tables is the bitwise one and detects bursts; file names can be parsed back.

  \<^bold>\<open>Writing.\<close>
  \<^item> \<open>Skiplist\<close>, \<open>MemTable\<close>, \<open>MemTable_Iter\<close> (\<^verbatim>\<open>db/skiplist.h\<close>, \<^verbatim>\<open>db/memtable\<close>): the linked structure with
    random heights refines a sorted list; \<open>Get\<close> finds the newest entry at or before a sequence number.
  \<^item> \<open>WriteBatch\<close> (\<^verbatim>\<open>db/write_batch.cpp\<close>): iteration replays exactly the operations of a batch; inserting a
    batch makes its last operation on a key visible; truncated batches are rejected.
  \<^item> \<open>Log_File\<close> (\<^verbatim>\<open>db/log_writer.cpp\<close>, \<^verbatim>\<open>db/log_reader.cpp\<close>, the sequential files of \<^verbatim>\<open>util/env_posix.cpp\<close>):
    from any prefix of a written log the reader returns a prefix of its records, and corruption of a
    record is found.

  \<^bold>\<open>Tables and iterators.\<close>
  \<^item> \<open>Iterators\<close> (\<^verbatim>\<open>include/iterator.h\<close>, \<^verbatim>\<open>table/iterator_wrapper.h\<close>): the contract of iterators as positions
    in a sorted list of entries.
  \<^item> \<open>Block\<close> (\<^verbatim>\<open>table/block_builder.cpp\<close>, \<^verbatim>\<open>table/block.cpp\<close>), \<open>Two_Level\<close> (\<^verbatim>\<open>table/two_level_iterator.cpp\<close>), \<open>Merger\<close>
    (\<^verbatim>\<open>table/merger.cpp\<close>), \<open>DB_Iter\<close> (\<^verbatim>\<open>db/db_iter.cpp\<close>) with \<open>User_View\<close>: each iterator meets the contract,
    given iterators that do, in both directions and with changes of direction; the iterator of the user
    shows of every key the newest visible value.
  \<^item> \<open>Filter_Block\<close> (\<^verbatim>\<open>util/hash.cpp\<close>, \<^verbatim>\<open>util/bloom.cpp\<close>, \<^verbatim>\<open>table/filter_block.cpp\<close>): filters have no false negatives.
  \<^item> \<open>Format\<close>, \<open>Table_Builder\<close>, \<open>Table\<close> (\<^verbatim>\<open>table/format.cpp\<close>, \<^verbatim>\<open>table/table_builder.cpp\<close>, \<^verbatim>\<open>table/table.cpp\<close>): the
    bytes the builder writes are opened again, iterate over the same entries and answer lookups.
  \<^item> \<open>Ring\<close>, \<open>Cache\<close>, \<open>Table_Cache\<close> (\<^verbatim>\<open>util/cache.cpp\<close>, \<^verbatim>\<open>db/table_cache.cpp\<close>): the heap of handles with its linked
    lists keeps its invariant and is never used after it is freed; the table cache cannot be told from
    opening every table anew.

  \<^bold>\<open>Versions and compactions.\<close>
  \<^item> \<open>VersionEdit\<close> (\<^verbatim>\<open>db/version_edit.cpp\<close>): edits survive encoding.
  \<^item> \<open>Version_Files\<close>, \<open>Version_Get\<close>, \<open>Version_Builder\<close> (\<^verbatim>\<open>db/version_set.cpp\<close>): searches in the files of a level,
    lookups that find the newest entry while they read few files, and the builder that applies edits.
  \<^item> \<open>Compaction\<close> (\<^verbatim>\<open>db/version_set.cpp\<close>): the choice of the inputs, which are closed under the files that share
    keys with them, and the test for base levels.
  \<^item> \<open>Compaction_View\<close>, \<open>Compaction_Work\<close> (\<^verbatim>\<open>db/db_impl.cpp\<close>): the loop that drops and writes entries.
    Running it and installing its edit changes no read at a live snapshot. This needs a condition, that
    no file left behind in the output level continues a key of an input: a theorem shows a version in
    which the code brings a deleted key back, since it does not extend the inputs of that level.

  \<^bold>\<open>The HTTP server.\<close>
  \<^item> \<open>Http_Parser\<close> (\<^verbatim>\<open>http_server/request_parser.cpp\<close>): the state machine accepts exactly the texts of a grammar,
    and its only undefined behaviour is the overflow of a version number.
  \<^item> \<open>Http_Reply\<close> (\<^verbatim>\<open>reply.cpp\<close>, \<^verbatim>\<open>mime_types.cpp\<close>, \<^verbatim>\<open>request_handler.cpp\<close>): replies depend only on files below the
    directory that is served, and clients can read them back.
  \<^item> \<open>Http_Server\<close> (\<^verbatim>\<open>connection.cpp\<close>, \<^verbatim>\<open>connection_manager.cpp\<close>, \<^verbatim>\<open>server.cpp\<close>): the event loop as a step relation with an
    invariant of the reachable states; the server stops after a signal, and a connection answers a
    request in whatever pieces it arrives.

  \<^bold>\<open>Not modelled.\<close> The rest of \<^verbatim>\<open>db/db_impl.cpp\<close> (opening and recovery, the queue of writers, background
  scheduling) and of \<^verbatim>\<open>db/version_set.cpp\<close> (the manifest file, the list of live versions, the scores of
  levels, the iterators over levels), \<^verbatim>\<open>db/builder.cpp\<close>, \<^verbatim>\<open>db/snapshot.h\<close> and most of \<^verbatim>\<open>util/env_posix.cpp\<close>: they are
  concurrent code or calls of the operating system around the parts above, which they reach here as
  parameters. \<^verbatim>\<open>db/dumpfile.cpp\<close> and the debug strings only print. Memory ordering of the lock-free reads
  of the skip list is outside a sequential model. Vendored libraries, configuration, the demo and the
  tests are not part of the store, which the HTTP server does not use; of the server the command line
  and the setup of the acceptor are left out.
\<close>

end
